(* ===== verification/Orion_Prelude.thy ===== *)
theory Orion_Prelude
  imports Main "HOL-Library.Word" "HOL-Library.Sublist" "HOL-Library.Multiset"
begin

text \<open>
  Shared vocabulary of the development: the machine types of the MC68000 tool chain (8, 16, 32
  and 64 bit words, a flat byte memory), what it means for a memory to hold a run of bytes or a
  NUL-terminated C string, and the lemmas on words, lists and memories that the components use.

  Addresses are natural numbers: the C code never relies on a pointer wrapping around the end of
  the address space (that is undefined behaviour), and every comparison of two pointers in the
  sources (\<open>memmove\<close>) is between addresses of one buffer. Data is kept at its width.
\<close>

unbundle bit_operations_syntax

type_synonym u8 = "8 word"
type_synonym u16 = "16 word"
type_synonym u32 = "32 word"
type_synonym u64 = "64 word"
type_synonym mem = "nat \<Rightarrow> u8"

text \<open>
  Memories are functions and are passed as arguments, so the unconditional \<open>fun_upd_apply\<close> would
  rewrite below an eta-expanded argument; the two conditional laws replace it.
\<close>

declare fun_upd_apply [simp del] fun_upd_same [simp] fun_upd_other [simp]

named_theorems mem_simps "reading a memory after it was written"
named_theorems word_conv "moving words to natural numbers"

section \<open>Runs of bytes\<close>

text \<open>\<open>rd_bytes m p n\<close> are the \<open>n\<close> bytes at \<open>p\<close>; \<open>wr_bytes m p xs\<close> stores \<open>xs\<close> there.\<close>

fun rd_bytes :: "mem \<Rightarrow> nat \<Rightarrow> nat \<Rightarrow> u8 list" where
  "rd_bytes m p 0 = []"
| "rd_bytes m p (Suc n) = m p # rd_bytes m (Suc p) n"

fun wr_bytes :: "mem \<Rightarrow> nat \<Rightarrow> u8 list \<Rightarrow> mem" where
  "wr_bytes m p [] = m"
| "wr_bytes m p (x # xs) = wr_bytes (m(p := x)) (Suc p) xs"

text \<open>\<open>cstr m p s\<close>: a C string with the characters \<open>s\<close> (none of them NUL) starts at \<open>p\<close>.\<close>

fun cstr :: "mem \<Rightarrow> nat \<Rightarrow> u8 list \<Rightarrow> bool" where
  "cstr m p [] \<longleftrightarrow> m p = 0"
| "cstr m p (c # s) \<longleftrightarrow> m p = c \<and> c \<noteq> 0 \<and> cstr m (Suc p) s"

text \<open>Two half-open address ranges do not meet.\<close>

definition apart :: "nat \<Rightarrow> nat \<Rightarrow> nat \<Rightarrow> nat \<Rightarrow> bool" where
  "apart p n q k \<longleftrightarrow> p + n \<le> q \<or> q + k \<le> p"

lemma length_rd_bytes [simp]: "length (rd_bytes m p n) = n"
  by (induction n arbitrary: p) auto

lemma nth_rd_bytes [simp]: "i < n \<Longrightarrow> rd_bytes m p n ! i = m (p + i)"
  by (induction n arbitrary: p i) (auto simp: nth_Cons split: nat.splits)

lemma rd_bytes_conv: "rd_bytes m p n = map (\<lambda>i. m (p + i)) [0..<n]"
  by (rule nth_equalityI) auto

lemma rd_bytes_eq_iff: "rd_bytes m p n = rd_bytes m' q n \<longleftrightarrow> (\<forall>i<n. m (p + i) = m' (q + i))"
  by (auto simp: list_eq_iff_nth_eq)

lemma rd_bytes_append: "rd_bytes m p (a + b) = rd_bytes m p a @ rd_bytes m (p + a) b"
  by (induction a arbitrary: p) auto

lemma rd_bytes_snoc: "rd_bytes m p (Suc n) = rd_bytes m p n @ [m (p + n)]"
  using rd_bytes_append [of m p n 1] by simp

lemma take_rd_bytes: "k \<le> n \<Longrightarrow> take k (rd_bytes m p n) = rd_bytes m p k"
  by (rule nth_equalityI) auto

lemma drop_rd_bytes: "drop k (rd_bytes m p n) = rd_bytes m (p + k) (n - k)"
  by (rule nth_equalityI) (auto simp: add.assoc)

lemma wr_bytes_apply [mem_simps]:
  "wr_bytes m p xs q = (if p \<le> q \<and> q < p + length xs then xs ! (q - p) else m q)"
proof (induction xs arbitrary: m p)
  case Nil
  then show ?case by auto
next
  case (Cons x xs)
  have "xs ! (q - Suc p) = (x # xs) ! (q - p)" if "Suc p \<le> q"
    using that by (simp add: nth_Cons' )
  then show ?case
    unfolding wr_bytes.simps Cons.IH by (auto simp: fun_upd_apply)
qed

lemma wr_bytes_append: "wr_bytes m p (xs @ ys) = wr_bytes (wr_bytes m p xs) (p + length xs) ys"
  by (induction xs arbitrary: m p) auto

lemma wr_bytes_snoc: "wr_bytes m p (xs @ [y]) = (wr_bytes m p xs)(p + length xs := y)"
  by (simp add: wr_bytes_append)

lemma wr_bytes_upd_before: "q < p \<Longrightarrow> (wr_bytes m p xs)(q := x) = wr_bytes (m(q := x)) p xs"
  by (rule ext) (auto simp: wr_bytes_apply fun_upd_apply)

lemma rd_wr_bytes_same [mem_simps]:
  "n = length xs \<Longrightarrow> rd_bytes (wr_bytes m p xs) p n = xs"
  by (rule nth_equalityI) (auto simp: wr_bytes_apply)

lemma rd_wr_bytes_apart [mem_simps]:
  "apart p n q (length xs) \<Longrightarrow> rd_bytes (wr_bytes m q xs) p n = rd_bytes m p n"
  by (rule nth_equalityI) (auto simp: wr_bytes_apply apart_def)

lemma rd_bytes_upd_other [mem_simps]:
  "q < p \<or> p + n \<le> q \<Longrightarrow> rd_bytes (m(q := x)) p n = rd_bytes m p n"
  by (rule nth_equalityI) auto

lemma wr_rd_bytes_id [simp]: "wr_bytes m p (rd_bytes m p n) = m"
  by (rule ext) (auto simp: wr_bytes_apply)

section \<open>C strings\<close>

lemma cstr_iff:
  "cstr m p s \<longleftrightarrow> rd_bytes m p (length s) = s \<and> 0 \<notin> set s \<and> m (p + length s) = 0"
  by (induction s arbitrary: p) auto

lemma cstr_append_iff:
  "cstr m p (a @ b) \<longleftrightarrow> rd_bytes m p (length a) = a \<and> 0 \<notin> set a \<and> cstr m (p + length a) b"
  by (induction a arbitrary: p) auto

lemma cstr_take: "cstr m p s \<Longrightarrow> rd_bytes m p (length (take n s)) = take n s \<and> 0 \<notin> set (take n s)"
  using cstr_append_iff [of m p "take n s" "drop n s"] by simp

lemma cstr_nth: "cstr m p s \<Longrightarrow> i < length s \<Longrightarrow> m (p + i) = s ! i"
  by (auto simp: cstr_iff dest: arg_cong [where f = "\<lambda>xs. xs ! i"])

lemma cstr_end: "cstr m p s \<Longrightarrow> m (p + length s) = 0"
  by (simp add: cstr_iff)

lemma cstr_nonzero: "cstr m p s \<Longrightarrow> 0 \<notin> set s"
  by (simp add: cstr_iff)

lemma cstr_unique: "cstr m p s \<Longrightarrow> cstr m p t \<Longrightarrow> s = t"
proof (induction s arbitrary: p t)
  case Nil
  then show ?case by (cases t) auto
next
  case (Cons c s)
  then show ?case by (cases t) auto
qed

lemma cstr_drop: "cstr m p s \<Longrightarrow> i \<le> length s \<Longrightarrow> cstr m (p + i) (drop i s)"
proof (induction s arbitrary: p i)
  case Nil
  then show ?case by simp
next
  case (Cons c s)
  then show ?case using Cons.IH [of "Suc p" "i - 1"] by (cases i) auto
qed

lemma cstr_cong: "(\<And>i. i \<le> length s \<Longrightarrow> m (p + i) = m' (p + i)) \<Longrightarrow> cstr m p s = cstr m' p s"
proof (induction s arbitrary: p)
  case Nil
  from Nil [of 0] show ?case by simp
next
  case (Cons c s)
  have "cstr m (Suc p) s = cstr m' (Suc p) s"
    using Cons.prems [of "Suc i" for i] by (intro Cons.IH) simp
  with Cons.prems [of 0] show ?case by simp
qed

lemma cstr_upd_other [mem_simps]:
  "q < p \<or> p + length s < q \<Longrightarrow> cstr (m(q := x)) p s = cstr m p s"
  by (rule cstr_cong) auto

lemma cstr_wr_apart [mem_simps]:
  "apart p (Suc (length s)) q (length xs) \<Longrightarrow> cstr (wr_bytes m q xs) p s = cstr m p s"
  by (rule cstr_cong) (auto simp: wr_bytes_apply apart_def)

lemma cstr_wr_same: "0 \<notin> set s \<Longrightarrow> cstr (wr_bytes m p (s @ [0])) p s"
  by (auto simp: cstr_iff rd_bytes_eq_iff wr_bytes_apply list_eq_iff_nth_eq nth_append)

lemma rd_cstr: "cstr m p s \<Longrightarrow> rd_bytes m p (Suc (length s)) = s @ [0]"
  by (simp add: rd_bytes_snoc cstr_iff del: rd_bytes.simps)

section \<open>Words\<close>

text \<open>The sign-extended value of a \<open>char\<close> (plain \<open>char\<close> is signed in this tool chain).\<close>

abbreviation schar :: "u8 \<Rightarrow> int" where
  "schar c \<equiv> sint c"

text \<open>Unsigned C division and remainder by a positive divisor are \<open>div\<close> and \<open>mod\<close> on words.\<close>

lemmas unat_simps [word_conv] = unat_div_distrib unat_mod_distrib unat_word_ariths

lemma unat_less_exp [simp]:
  "unat (x :: u8) < 256" "unat (y :: u16) < 65536" "unat (z :: u32) < 4294967296"
  using unsigned_less [of x] unsigned_less [of y] unsigned_less [of z] by simp_all

lemma uint_eq_iff: "uint x = uint y \<longleftrightarrow> x = y"
  by (simp add: word_uint_eq_iff)

lemma uint_0_iff: "uint x = 0 \<longleftrightarrow> x = 0"
  using uint_eq_iff [of x 0] by simp

lemma uint_pos_iff: "0 < uint x \<longleftrightarrow> x \<noteq> 0"
  using uint_0_iff [of x] by (auto simp: order.strict_iff_order)

lemma uint_less_linear: "x \<noteq> y \<Longrightarrow> \<not> uint y < uint x \<Longrightarrow> uint x < uint y"
  using uint_eq_iff [of x y] by linarith

lemma sint_eq_iff: "sint x = sint y \<longleftrightarrow> x = y" for x y :: "'a::len word"
  by (metis signed_word_eqI)

lemma sint_eq_0_iff: "sint x = 0 \<longleftrightarrow> x = 0" for x :: "'a::len word"
  using sint_eq_iff [of x 0] by simp

lemma sint_less_linear: "x \<noteq> y \<Longrightarrow> \<not> sint y < sint x \<Longrightarrow> sint x < sint y"
  for x y :: "'a::len word"
  using sint_eq_iff [of x y] by linarith

lemma ucast_eq_iff [simp]:
  "(ucast (a :: u8) :: u16) = ucast b \<longleftrightarrow> a = b" "(ucast (a :: u8) :: u32) = ucast b \<longleftrightarrow> a = b"
  "(ucast (c :: u16) :: u32) = ucast d \<longleftrightarrow> c = d"
  by (simp_all add: word_unat_eq_iff unsigned_ucast_eq take_bit_nat_eq_self less_trans [OF unat_less_exp(1)]
    less_trans [OF unat_less_exp(2)])

lemma ucast_eq_0_iff [simp]:
  "(ucast (a :: u8) :: u16) = 0 \<longleftrightarrow> a = 0" "(ucast (a :: u8) :: u32) = 0 \<longleftrightarrow> a = 0"
  "(ucast (c :: u16) :: u32) = 0 \<longleftrightarrow> c = 0"
  using ucast_eq_iff(1) [of a 0] ucast_eq_iff(2) [of a 0] ucast_eq_iff(3) [of c 0] by simp_all

lemmas uint_cmp = uint_0_iff uint_pos_iff uint_eq_iff word_less_def
lemmas sint_cmp = sint_eq_iff sint_eq_0_iff

lemma of_nat_inverse_u8: "n < 256 \<Longrightarrow> unat (of_nat n :: u8) = n"
  by (simp add: unat_of_nat)

lemma of_nat_inverse_u16: "n < 65536 \<Longrightarrow> unat (of_nat n :: u16) = n"
  by (simp add: unat_of_nat)

lemma of_nat_inverse_u32: "n < 4294967296 \<Longrightarrow> unat (of_nat n :: u32) = n"
  by (simp add: unat_of_nat)

lemmas of_nat_inverse [word_conv] = of_nat_inverse_u8 of_nat_inverse_u16 of_nat_inverse_u32

text \<open>Words put together from fields.\<close>

lemma unat_push: "unat w * 2 ^ n < 2 ^ LENGTH('a) \<Longrightarrow> unat (push_bit n w :: 'a::len word) = unat w * 2 ^ n"
  by (simp only: unsigned_push_bit_eq) (simp add: push_bit_eq_mult take_bit_nat_eq_self)

lemma unat_push_or:
  assumes "unat b < 2 ^ n" "unat a * 2 ^ n + 2 ^ n \<le> 2 ^ LENGTH('a)"
  shows "unat (push_bit n a OR b :: 'a::len word) = unat a * 2 ^ n + unat b"
proof -
  have "take_bit n b = b" using assms(1) by (simp add: word_unat_eq_iff unsigned_take_bit_eq take_bit_nat_eq_self)
  then have z: "\<not> bit b k" if "n \<le> k" for k using that by (metis bit_take_bit_iff not_le)
  have pw: "0 < (2::nat) ^ n" by simp
  have fit: "unat a * 2 ^ n < 2 ^ LENGTH('a)" "unat a * 2 ^ n + unat b < 2 ^ LENGTH('a)" using assms pw by linarith+
  have "push_bit n a + b = push_bit n a OR b"
    by (rule disjunctive_add_eq_or) (auto simp: bit_eq_iff bit_simps dest: z)
  moreover have "unat (push_bit n a) = unat a * 2 ^ n"
    by (rule unat_push [OF fit(1)])
  ultimately show ?thesis using fit by (metis unat_add_lem)
qed

end
