(* ===== verification/Libc_String.thy ===== *)
theory Libc_String
  imports Orion_Prelude
begin

text \<open>
  The memory and string routines of the Orion C library (\<open>src/lib/libc/src/string\<close>) over the flat
  byte memory of \<open>Orion_Prelude\<close>. A routine that writes returns the new memory; a pointer result
  that may be \<open>NULL\<close> is an option. A loop that only a NUL byte stops is a
  \<^theory_text>\<open>partial_function (option)\<close>: \<open>None\<close> means that it never returns, and every
  theorem below proves that it does return on C strings. Counted loops are structural.

  \<open>char\<close> is signed in this tool chain, so comparisons of plain \<open>char\<close> values go through
  \<open>sint\<close>; the routines that cast to \<open>unsigned char\<close> use \<open>uint\<close>.
\<close>

section \<open>Memory blocks\<close>

fun memcpy_loop :: "mem \<Rightarrow> nat \<Rightarrow> nat \<Rightarrow> nat \<Rightarrow> mem" where
  "memcpy_loop m d s 0 = m"
| "memcpy_loop m d s (Suc n) = memcpy_loop (m(d := m s)) (d + 1) (s + 1) n"

definition memcpy :: "mem \<Rightarrow> nat \<Rightarrow> nat \<Rightarrow> nat \<Rightarrow> mem \<times> nat" where
  "memcpy m dest src n = (memcpy_loop m dest src n, dest)"

fun memmove_bwd :: "mem \<Rightarrow> nat \<Rightarrow> nat \<Rightarrow> nat \<Rightarrow> mem" where
  "memmove_bwd m d s 0 = m"
| "memmove_bwd m d s (Suc n) = memmove_bwd (m(d - 1 := m (s - 1))) (d - 1) (s - 1) n"

definition memmove :: "mem \<Rightarrow> nat \<Rightarrow> nat \<Rightarrow> nat \<Rightarrow> mem \<times> nat" where
  "memmove m dest src n =
     (if src < dest \<and> dest < src + n
      then (memmove_bwd m (dest + n) (src + n) n, dest)
      else (memcpy_loop m dest src n, dest))"

fun memset_loop :: "mem \<Rightarrow> nat \<Rightarrow> u8 \<Rightarrow> nat \<Rightarrow> mem" where
  "memset_loop m p c 0 = m"
| "memset_loop m p c (Suc n) = memset_loop (m(p := c)) (p + 1) c n"

text \<open>\<open>while (n--)\<close> on an \<open>int\<close> runs as often as the value of its bits.\<close>

definition memset :: "mem \<Rightarrow> nat \<Rightarrow> u32 \<Rightarrow> u32 \<Rightarrow> mem" where
  "memset m s c n = memset_loop m s (ucast c) (unat n)"

fun memcmp_loop :: "mem \<Rightarrow> nat \<Rightarrow> nat \<Rightarrow> nat \<Rightarrow> int" where
  "memcmp_loop m p1 p2 0 = 0"
| "memcmp_loop m p1 p2 (Suc n) =
     (if m p1 \<noteq> m p2 then uint (m p1) - uint (m p2)
      else memcmp_loop m (p1 + 1) (p2 + 1) n)"

text \<open>\<open>while (n > 0)\<close> with a signed \<open>n\<close>: a negative count compares nothing.\<close>

definition memcmp :: "mem \<Rightarrow> nat \<Rightarrow> nat \<Rightarrow> u32 \<Rightarrow> int" where
  "memcmp m s1 s2 n = memcmp_loop m s1 s2 (nat (sint n))"

fun memchr_loop :: "mem \<Rightarrow> nat \<Rightarrow> u8 \<Rightarrow> nat \<Rightarrow> nat option" where
  "memchr_loop m p c 0 = None"
| "memchr_loop m p c (Suc n) = (if m p = c then Some p else memchr_loop m (p + 1) c n)"

definition memchr :: "mem \<Rightarrow> nat \<Rightarrow> u32 \<Rightarrow> nat \<Rightarrow> nat option" where
  "memchr m s c n = memchr_loop m s (ucast c) n"

fun memccpy_loop :: "mem \<Rightarrow> nat \<Rightarrow> nat \<Rightarrow> u8 \<Rightarrow> nat \<Rightarrow> mem \<times> nat option" where
  "memccpy_loop m d s c 0 = (m, None)"
| "memccpy_loop m d s c (Suc n) =
     (let m' = m(d := m s) in
      if m' s = c then (m', Some (d + 1)) else memccpy_loop m' (d + 1) (s + 1) c n)"

definition memccpy :: "mem \<Rightarrow> nat \<Rightarrow> nat \<Rightarrow> u32 \<Rightarrow> nat \<Rightarrow> mem \<times> nat option" where
  "memccpy m dest src c n = memccpy_loop m dest src (ucast c) n"

fun memmem_loop :: "mem \<Rightarrow> nat \<Rightarrow> nat \<Rightarrow> nat \<Rightarrow> nat \<Rightarrow> nat option" where
  "memmem_loop m h nd len 0 = None"
| "memmem_loop m h nd len (Suc k) =
     (if memcmp m h nd (of_nat len) = 0 then Some h else memmem_loop m (h + 1) nd len k)"

definition memmem :: "mem \<Rightarrow> nat \<Rightarrow> nat \<Rightarrow> nat \<Rightarrow> nat \<Rightarrow> nat option" where
  "memmem m haystack haystacklen needle needlelen =
     (if needlelen = 0 then Some haystack
      else if haystacklen < needlelen then None
      else memmem_loop m haystack needle needlelen (Suc (haystacklen - needlelen)))"

section \<open>Strings\<close>

partial_function (option) strlen_loop :: "mem \<Rightarrow> nat \<Rightarrow> u32 \<Rightarrow> u32 option" where
  "strlen_loop m str len = (if m str = 0 then Some len else strlen_loop m (str + 1) (len + 1))"

declare strlen_loop.simps [code]

definition strlen :: "mem \<Rightarrow> nat \<Rightarrow> u32 option" where
  "strlen m str = strlen_loop m str 0"

fun strnlen_loop :: "mem \<Rightarrow> nat \<Rightarrow> nat \<Rightarrow> nat \<Rightarrow> nat" where
  "strnlen_loop m str i 0 = i"
| "strnlen_loop m str i (Suc k) = (if m (str + i) \<noteq> 0 then strnlen_loop m str (i + 1) k else i)"

definition strnlen :: "mem \<Rightarrow> nat \<Rightarrow> nat \<Rightarrow> nat" where
  "strnlen m str maxlen = strnlen_loop m str 0 maxlen"

partial_function (option) strcpy_loop :: "mem \<Rightarrow> nat \<Rightarrow> nat \<Rightarrow> mem option" where
  "strcpy_loop m d src =
     (if m src = 0 then Some (m(d := 0)) else strcpy_loop (m(d := m src)) (d + 1) (src + 1))"

declare strcpy_loop.simps [code]

definition strcpy :: "mem \<Rightarrow> nat \<Rightarrow> nat \<Rightarrow> (mem \<times> nat) option" where
  "strcpy m dest src = map_option (\<lambda>m'. (m', dest)) (strcpy_loop m dest src)"

partial_function (option) str_end :: "mem \<Rightarrow> nat \<Rightarrow> nat option" where
  "str_end m p = (if m p = 0 then Some p else str_end m (p + 1))"

declare str_end.simps [code]

partial_function (option) strcat_copy :: "mem \<Rightarrow> nat \<Rightarrow> nat \<Rightarrow> mem option" where
  "strcat_copy m dest src =
     (let m' = m(dest := m src) in
      if m src = 0 then Some m' else strcat_copy m' (dest + 1) (src + 1))"

declare strcat_copy.simps [code]

definition strcat :: "mem \<Rightarrow> nat \<Rightarrow> nat \<Rightarrow> (mem \<times> nat) option" where
  "strcat m dest src =
     Option.bind (str_end m dest) (\<lambda>e.
       map_option (\<lambda>m'. (m', dest)) (strcat_copy m e src))"

fun strncat_copy :: "mem \<Rightarrow> nat \<Rightarrow> nat \<Rightarrow> nat \<Rightarrow> mem" where
  "strncat_copy m dest src 0 = m"
| "strncat_copy m dest src (Suc mx) =
     (if m src = 0 then m(dest := 0)
      else strncat_copy (m(dest := m src)) (dest + 1) (src + 1) mx)"

definition strncat :: "mem \<Rightarrow> nat \<Rightarrow> nat \<Rightarrow> nat \<Rightarrow> (mem \<times> nat) option" where
  "strncat m dest src mx =
     map_option (\<lambda>e. (strncat_copy m e src mx, dest)) (str_end m dest)"

text \<open>\<open>strncpy\<close> copies exactly \<open>n\<close> bytes, as \<open>memcpy\<close> does; a NUL does not stop it.\<close>

definition strncpy :: "mem \<Rightarrow> nat \<Rightarrow> nat \<Rightarrow> u32 \<Rightarrow> mem \<times> nat" where
  "strncpy m dest src n = (memcpy_loop m dest src (unat n), dest)"

partial_function (option) strcmp :: "mem \<Rightarrow> nat \<Rightarrow> nat \<Rightarrow> int option" where
  "strcmp m s1 s2 =
     (if m s1 \<noteq> 0 \<and> m s1 = m s2 then strcmp m (s1 + 1) (s2 + 1)
      else Some (uint (m s1) - uint (m s2)))"

declare strcmp.simps [code]

text \<open>The library holds two routines called \<open>strncmp\<close>: the one of \<open>strcnmp.c\<close> \<dots>\<close>

partial_function (option) strncmp_strcnmp :: "mem \<Rightarrow> nat \<Rightarrow> nat \<Rightarrow> u32 \<Rightarrow> int option" where
  "strncmp_strcnmp m s1 s2 n =
     (if m s1 \<noteq> 0 \<and> m s1 = m s2 \<and> n \<noteq> 0 then strncmp_strcnmp m (s1 + 1) (s2 + 1) (n - 1)
      else Some (uint (m s1) - uint (m s2)))"

declare strncmp_strcnmp.simps [code]

text \<open>\<dots> and the one of \<open>strncmp.c\<close>, which compares plain (signed) characters.\<close>

fun strncmp :: "mem \<Rightarrow> nat \<Rightarrow> nat \<Rightarrow> nat \<Rightarrow> int" where
  "strncmp m str1 str2 0 = 0"
| "strncmp m str1 str2 (Suc mx) =
     (if schar (m str1) > schar (m str2) then 1
      else if schar (m str1) < schar (m str2) then -1
      else if m str1 = m str2 \<and> m str1 = 0 then 0
      else strncmp m (str1 + 1) (str2 + 1) mx)"

partial_function (option) strchr :: "mem \<Rightarrow> nat \<Rightarrow> u32 \<Rightarrow> nat option option" where
  "strchr m str ch =
     (if m str = 0 then Some None
      else if schar (m str) = sint ch then Some (Some str)
      else strchr m (str + 1) ch)"

declare strchr.simps [code]

partial_function (option) strrchr_loop :: "mem \<Rightarrow> nat \<Rightarrow> u32 \<Rightarrow> nat option \<Rightarrow> nat option option" where
  "strrchr_loop m str ch pos =
     (if m str = 0 then Some pos
      else strrchr_loop m (str + 1) ch (if schar (m str) = sint ch then Some str else pos))"

declare strrchr_loop.simps [code]

definition strrchr :: "mem \<Rightarrow> nat \<Rightarrow> u32 \<Rightarrow> nat option option" where
  "strrchr m str ch = strrchr_loop m str ch None"

text \<open>The inner loop of \<open>strcspn\<close> and the helper \<open>_search\<close> of \<open>strspn\<close>.\<close>

partial_function (option) search_set :: "mem \<Rightarrow> nat \<Rightarrow> u8 \<Rightarrow> bool option" where
  "search_set m str2 ch =
     (if m str2 = 0 then Some False
      else if m str2 = ch then Some True
      else search_set m (str2 + 1) ch)"

declare search_set.simps [code]

partial_function (option) strcspn_loop :: "mem \<Rightarrow> nat \<Rightarrow> nat \<Rightarrow> nat \<Rightarrow> nat option" where
  "strcspn_loop m s reject p =
     (if m p = 0 then Some (p - s)
      else Option.bind (search_set m reject (m p)) (\<lambda>b.
        if b then Some (p - s) else strcspn_loop m s reject (p + 1)))"

declare strcspn_loop.simps [code]

definition strcspn :: "mem \<Rightarrow> nat \<Rightarrow> nat \<Rightarrow> nat option" where
  "strcspn m s reject = strcspn_loop m s reject s"

partial_function (option) strspn_loop :: "mem \<Rightarrow> nat \<Rightarrow> nat \<Rightarrow> nat \<Rightarrow> nat option" where
  "strspn_loop m str1 str2 i =
     (if m (str1 + i) = 0 then Some i
      else Option.bind (search_set m str2 (m (str1 + i))) (\<lambda>b.
        if b then strspn_loop m str1 str2 (i + 1) else Some i))"

declare strspn_loop.simps [code]

definition strspn :: "mem \<Rightarrow> nat \<Rightarrow> nat \<Rightarrow> nat option" where
  "strspn m str1 str2 = strspn_loop m str1 str2 0"

definition strpbrk :: "mem \<Rightarrow> nat \<Rightarrow> nat \<Rightarrow> nat option option" where
  "strpbrk m s b =
     map_option (\<lambda>k. if m (s + k) \<noteq> 0 then Some (s + k) else None) (strcspn m s b)"

text \<open>\<open>_compare\<close> of \<open>strstr.c\<close>: it stops at the end of either string.\<close>

partial_function (option) compare_prefix :: "mem \<Rightarrow> nat \<Rightarrow> nat \<Rightarrow> bool option" where
  "compare_prefix m str1 str2 =
     (if m str1 = 0 \<or> m str2 = 0 then Some True
      else if m str1 \<noteq> m str2 then Some False
      else compare_prefix m (str1 + 1) (str2 + 1))"

declare compare_prefix.simps [code]

partial_function (option) strstr :: "mem \<Rightarrow> nat \<Rightarrow> nat \<Rightarrow> nat option option" where
  "strstr m str1 str2 =
     (if m str1 = 0 then Some None
      else Option.bind (compare_prefix m str1 str2) (\<lambda>b.
        if b then Some (Some str1) else strstr m (str1 + 1) str2))"

declare strstr.simps [code]

text \<open>
  \<open>strtok\<close> keeps its position in the static variable \<open>p\<close> (\<open>None\<close> is \<open>NULL\<close>). The scan returns the
  new memory, the new \<open>p\<close> and whether a delimiter was found.
\<close>

partial_function (option) strtok_scan :: "mem \<Rightarrow> nat \<Rightarrow> nat \<Rightarrow> (mem \<times> nat \<times> bool) option" where
  "strtok_scan m delim p =
     (if m p = 0 then Some (m, p, False)
      else Option.bind (search_set m delim (m p)) (\<lambda>b.
        if b then Some (m(p := 0), p + 1, True) else strtok_scan m delim (p + 1)))"

declare strtok_scan.simps [code]

definition strtok ::
    "mem \<Rightarrow> nat option \<Rightarrow> nat option \<Rightarrow> nat \<Rightarrow> (mem \<times> nat option \<times> nat option) option" where
  "strtok m p str delim =
     (case (if str \<noteq> None then str else p) of
        None \<Rightarrow> Some (m, None, None)
      | Some start \<Rightarrow>
          map_option (\<lambda>(m', p', found).
            (m', Some p', if found then Some start else if start = p' then None else Some start))
            (strtok_scan m delim start))"

definition strerror :: "int \<Rightarrow> string" where
  "strerror errnum =
     (if errnum < 0 \<or> errnum \<ge> 3 then ''Unknown error''
      else [''Success'', ''Operation not permitted'', ''No such file or directory''] ! nat errnum)"


section \<open>Block routines\<close>

lemma memcpy_loop_eq:
  "d \<le> s \<or> s + n \<le> d \<Longrightarrow> memcpy_loop m d s n = wr_bytes m d (rd_bytes m s n)"
proof (induction n arbitrary: m d s)
  case 0
  then show ?case by simp
next
  case (Suc n)
  have "memcpy_loop (m(d := m s)) (Suc d) (Suc s) n
      = wr_bytes (m(d := m s)) (Suc d) (rd_bytes (m(d := m s)) (Suc s) n)"
    using Suc.prems by (intro Suc.IH) auto
  moreover have "rd_bytes (m(d := m s)) (Suc s) n = rd_bytes m (Suc s) n"
    using Suc.prems by (intro rd_bytes_upd_other) auto
  ultimately show ?case by simp
qed

lemma memmove_bwd_eq:
  "s \<le> d \<Longrightarrow> memmove_bwd m (d + n) (s + n) n = wr_bytes m d (rd_bytes m s n)"
proof (induction n arbitrary: m)
  case 0
  then show ?case by simp
next
  case (Suc n)
  let ?m = "m(d + n := m (s + n))"
  have "memmove_bwd ?m (d + n) (s + n) n = wr_bytes ?m d (rd_bytes ?m s n)"
    using Suc by blast
  also have "rd_bytes ?m s n = rd_bytes m s n"
    using Suc.prems by (intro rd_bytes_upd_other) auto
  also have "wr_bytes ?m d (rd_bytes m s n) = wr_bytes m d (rd_bytes m s (Suc n))"
    unfolding rd_bytes_snoc wr_bytes_snoc by (rule ext) (simp add: wr_bytes_apply fun_upd_apply)
  finally show ?case by (simp add:)
qed

lemma memset_loop_eq: "memset_loop m p c n = wr_bytes m p (replicate n c)"
  by (induction n arbitrary: m p) auto

lemma memcmp_loop_zero: "memcmp_loop m p q n = 0 \<longleftrightarrow> rd_bytes m p n = rd_bytes m q n"
  by (induction n arbitrary: p q) (auto simp: uint_cmp)

lemma memcmp_loop_less:
  "memcmp_loop m p q n < 0 \<longleftrightarrow> ord_class.lexordp (rd_bytes m p n) (rd_bytes m q n)"
proof (induction n arbitrary: p q)
  case 0
  then show ?case by simp
next
  case (Suc n)
  show ?case
    using Suc [of "Suc p" "Suc q"] by (auto simp: uint_cmp intro: uint_less_linear)
qed

lemma memchr_loop_Some:
  "memchr_loop m p c n = Some a \<longleftrightarrow> (\<exists>i<n. a = p + i \<and> m a = c \<and> (\<forall>j<i. m (p + j) \<noteq> c))"
proof (induction n arbitrary: p)
  case 0
  then show ?case by simp
next
  case (Suc n)
  show ?case
  proof (cases "m p = c")
    case True
    then show ?thesis by (auto simp: Ex_less_Suc2 All_less_Suc2)
  next
    case False
    then show ?thesis by (simp add: Ex_less_Suc2 All_less_Suc2 Suc.IH) blast
  qed
qed

lemma memchr_loop_None: "memchr_loop m p c n = None \<longleftrightarrow> (\<forall>i<n. m (p + i) \<noteq> c)"
proof (induction n arbitrary: p)
  case 0
  then show ?case by simp
next
  case (Suc n)
  show ?case using Suc [of "Suc p"] by (auto simp: All_less_Suc2)
qed

section \<open>String routines on C strings\<close>

lemma strlen_loop_cstr: "cstr m p s \<Longrightarrow> strlen_loop m p k = Some (k + of_nat (length s))"
  by (induction s arbitrary: p k) (simp_all add: strlen_loop.simps)

lemma strlen_cstr: "cstr m p s \<Longrightarrow> strlen m p = Some (of_nat (length s))"
  by (simp add: strlen_def strlen_loop_cstr)

lemma str_end_cstr: "cstr m p s \<Longrightarrow> str_end m p = Some (p + length s)"
  by (induction s arbitrary: p) (simp_all add: str_end.simps)

lemma strnlen_loop_cstr:
  "cstr m p s \<Longrightarrow> i \<le> length s \<Longrightarrow> strnlen_loop m p i k = min (length s) (i + k)"
proof (induction k arbitrary: i)
  case 0
  then show ?case by simp
next
  case (Suc k)
  show ?case
  proof (cases "i < length s")
    case True
    then have "m (p + i) \<noteq> 0"
      using cstr_nth [OF Suc.prems(1)] cstr_nonzero [OF Suc.prems(1)] nth_mem by force
    then show ?thesis using True Suc.IH [OF Suc.prems(1), of "Suc i"] by simp
  next
    case False
    then have "i = length s" using Suc.prems by simp
    then show ?thesis using cstr_end [OF Suc.prems(1)] by simp
  qed
qed

lemma copy_step_apart:
  "cstr m q (c # s) \<Longrightarrow> apart d (Suc (Suc (length s))) q (Suc (Suc (length s))) \<Longrightarrow>
     cstr (m(d := x)) (Suc q) s"
  by (auto simp: apart_def mem_simps)

lemma strcpy_loop_cstr:
  "cstr m q s \<Longrightarrow> apart d (Suc (length s)) q (Suc (length s)) \<Longrightarrow>
     strcpy_loop m d q = Some (wr_bytes m d (s @ [0]))"
proof (induction s arbitrary: m d q)
  case Nil
  then show ?case by (simp add: strcpy_loop.simps)
next
  case (Cons c s)
  have "strcpy_loop (m(d := c)) (Suc d) (Suc q) = Some (wr_bytes (m(d := c)) (Suc d) (s @ [0]))"
    using Cons.prems copy_step_apart [OF Cons.prems(1)]
    by (intro Cons.IH) (auto simp: apart_def)
  then show ?case using Cons.prems by (simp add: strcpy_loop.simps [of m d q])
qed

lemma strcat_copy_cstr:
  "cstr m q s \<Longrightarrow> apart d (Suc (length s)) q (Suc (length s)) \<Longrightarrow>
     strcat_copy m d q = Some (wr_bytes m d (s @ [0]))"
proof (induction s arbitrary: m d q)
  case Nil
  then show ?case by (simp add: strcat_copy.simps)
next
  case (Cons c s)
  have "strcat_copy (m(d := c)) (Suc d) (Suc q) = Some (wr_bytes (m(d := c)) (Suc d) (s @ [0]))"
    using Cons.prems copy_step_apart [OF Cons.prems(1)]
    by (intro Cons.IH) (auto simp: apart_def)
  then show ?case using Cons.prems by (simp add: strcat_copy.simps [of m d q])
qed

lemma strncat_copy_cstr:
  "cstr m q s \<Longrightarrow> apart d (Suc (length s)) q (Suc (length s)) \<Longrightarrow>
     strncat_copy m d q k = wr_bytes m d (take k (s @ [0]))"
proof (induction s arbitrary: m d q k)
  case Nil
  then show ?case by (cases k) simp_all
next
  case (Cons c s)
  show ?case
  proof (cases k)
    case 0
    then show ?thesis by simp
  next
    case (Suc j)
    have "strncat_copy (m(d := c)) (Suc d) (Suc q) j = wr_bytes (m(d := c)) (Suc d) (take j (s @ [0]))"
      using Cons.prems copy_step_apart [OF Cons.prems(1)]
      by (intro Cons.IH) (auto simp: apart_def)
    then show ?thesis using Cons.prems Suc by simp
  qed
qed

lemma strcmp_cstr:
  "cstr m p s \<Longrightarrow> cstr m q t \<Longrightarrow>
     \<exists>r. strcmp m p q = Some r \<and> (r = 0 \<longleftrightarrow> s = t) \<and> (r < 0 \<longleftrightarrow> ord_class.lexordp s t)"
proof (induction s arbitrary: p q t)
  case Nil
  then show ?case
    by (cases t) (auto simp: strcmp.simps uint_cmp)
next
  case (Cons c s)
  show ?case
  proof (cases t)
    case Nil
    then show ?thesis using Cons.prems by (auto simp: strcmp.simps [of m p q] uint_cmp)
  next
    case (Cons d t')
    then show ?thesis
      using Cons.prems Cons.IH [of "Suc p" "Suc q" t'] \<open>cstr m p (c # s)\<close> \<open>cstr m q t\<close>
      by (auto simp: strcmp.simps [of m p q] uint_cmp intro: uint_less_linear)
  qed
qed

lemma strncmp_strcnmp_cstr:
  "cstr m p s \<Longrightarrow> cstr m q t \<Longrightarrow>
     \<exists>r. strncmp_strcnmp m p q n = Some r \<and>
         (r = 0 \<longleftrightarrow> take (Suc (unat n)) s = take (Suc (unat n)) t)"
proof (induction s arbitrary: p q t n)
  case Nil
  then show ?case
    by (cases t) (auto simp: strncmp_strcnmp.simps uint_cmp)
next
  case (Cons c s)
  show ?case
  proof (cases "n = 0 \<or> t = [] \<or> hd t \<noteq> c")
    case True
    then show ?thesis
      using Cons.prems by (cases t) (auto simp: strncmp_strcnmp.simps [of m p q] uint_cmp)
  next
    case False
    then obtain t' where t: "t = c # t'" and n: "n \<noteq> 0" by (cases t) auto
    have "unat n = Suc (unat (n - 1))"
      using n unat_gt_0 [of n] by (simp add: unat_minus_one)
    then show ?thesis
      using Cons.prems Cons.IH [of "Suc p" "Suc q" t' "n - 1"] t n
      by (auto simp: strncmp_strcnmp.simps [of m p q])
  qed
qed

lemma strncmp_cstr:
  "cstr m p s \<Longrightarrow> cstr m q t \<Longrightarrow> strncmp m p q k = 0 \<longleftrightarrow> take k s = take k t"
proof (induction k arbitrary: p q s t)
  case 0
  then show ?case by simp
next
  case (Suc k)
  show ?case
    using Suc.prems Suc.IH [of "Suc p" "tl s" "Suc q" "tl t"]
    by (cases s; cases t) (auto simp: sint_cmp dest: sint_less_linear)
qed

lemma search_set_cstr: "cstr m q ds \<Longrightarrow> search_set m q c = Some (c \<in> set ds)"
  by (induction ds arbitrary: q) (auto simp: search_set.simps)

lemma strcspn_loop_cstr:
  "cstr m p s \<Longrightarrow> cstr m q ds \<Longrightarrow> b \<le> p \<Longrightarrow>
     strcspn_loop m b q p = Some (p - b + length (takeWhile (\<lambda>c. c \<notin> set ds) s))"
proof (induction s arbitrary: p)
  case Nil
  then show ?case by (simp add: strcspn_loop.simps)
next
  case (Cons c s)
  then show ?case
    using Cons.IH [of "Suc p"]
    by (auto simp: strcspn_loop.simps [of m b q p] search_set_cstr Suc_diff_le)
qed

lemma strspn_loop_cstr:
  "cstr m (p + i) s \<Longrightarrow> cstr m q ds \<Longrightarrow>
     strspn_loop m p q i = Some (i + length (takeWhile (\<lambda>c. c \<in> set ds) s))"
proof (induction s arbitrary: i)
  case Nil
  then show ?case by (simp add: strspn_loop.simps)
next
  case (Cons c s)
  then show ?case
    using Cons.IH [of "Suc i"]
    by (auto simp: strspn_loop.simps [of m p q i] search_set_cstr)
qed

lemma compare_prefix_cstr:
  "cstr m p s \<Longrightarrow> cstr m q t \<Longrightarrow> compare_prefix m p q = Some (prefix s t \<or> prefix t s)"
proof (induction s arbitrary: p q t)
  case Nil
  then show ?case by (simp add: compare_prefix.simps)
next
  case (Cons c s)
  then show ?case
    using Cons.IH [of "Suc p" "Suc q" "tl t"]
    by (cases t) (auto simp: compare_prefix.simps [of m p q])
qed

lemma strtok_scan_cstr:
  "cstr m p s \<Longrightarrow> cstr m q ds \<Longrightarrow> tok = takeWhile (\<lambda>c. c \<notin> set ds) s \<Longrightarrow>
   strtok_scan m q p =
     Some (if length tok < length s then (m(p + length tok := 0), p + length tok + 1, True)
           else (m, p + length tok, False))"
proof (induction s arbitrary: p tok)
  case Nil
  then show ?case by (simp add: strtok_scan.simps)
next
  case (Cons c s)
  then show ?case
    using Cons.IH [of "Suc p"]
    by (auto simp: strtok_scan.simps [of m q p] search_set_cstr)
qed

lemma strstr_cstr:
  "cstr m p s \<Longrightarrow> cstr m q t \<Longrightarrow>
   (case strstr m p q of
      None \<Rightarrow> False
    | Some None \<Rightarrow> \<forall>i < length s. \<not> prefix (drop i s) t \<and> \<not> prefix t (drop i s)
    | Some (Some a) \<Rightarrow> \<exists>i < length s. a = p + i \<and> (prefix (drop i s) t \<or> prefix t (drop i s)) \<and>
        (\<forall>j < i. \<not> prefix (drop j s) t \<and> \<not> prefix t (drop j s)))"
proof (induction s arbitrary: p)
  case Nil
  then show ?case by (simp add: strstr.simps)
next
  case (Cons c s)
  have cmp: "compare_prefix m p q = Some (prefix (c # s) t \<or> prefix t (c # s))"
    using Cons.prems by (rule compare_prefix_cstr)
  show ?case
  proof (cases "prefix (c # s) t \<or> prefix t (c # s)")
    case True
    then show ?thesis using Cons.prems cmp by (auto simp: strstr.simps [of m p q])
  next
    case False
    then have "strstr m p q = strstr m (Suc p) q"
      using Cons.prems cmp by (simp add: strstr.simps [of m p q])
    moreover have "cstr m (Suc p) s" using Cons.prems by simp
    ultimately show ?thesis
      using Cons.IH [of "Suc p"] Cons.prems(2) False
      by (auto simp: All_less_Suc2 Ex_less_Suc2 split: option.splits)
  qed
qed

section \<open>Properties\<close>

text \<open>Memmove stores at the destination exactly the bytes the source held before the call, for
  every overlap of the two blocks, changes nothing else and returns the destination.\<close>

theorem memmove_correct: "memmove m dest src n = (wr_bytes m dest (rd_bytes m src n), dest)"
  by (auto simp: memmove_def memmove_bwd_eq memcpy_loop_eq not_less)

text \<open>Strcat returns, leaves the concatenation of the two strings at the destination, and
  writes only the bytes from the old terminator to the new one, when the source does not overlap
  the space the result takes.\<close>

theorem strcat_correct:
  assumes "cstr m dest a" "cstr m src b"
    and "apart dest (Suc (length a + length b)) src (Suc (length b))"
  shows "\<exists>m'. strcat m dest src = Some (m', dest) \<and> cstr m' dest (a @ b) \<and>
    (\<forall>q. q < dest + length a \<or> dest + length a + length b < q \<longrightarrow> m' q = m q)"
proof -
  let ?m = "wr_bytes m (dest + length a) (b @ [0])"
  have "strcat_copy m (dest + length a) src = Some ?m"
    using assms by (intro strcat_copy_cstr) (auto simp: apart_def)
  then have "strcat m dest src = Some (?m, dest)"
    by (simp add: strcat_def str_end_cstr [OF assms(1)])
  moreover have "cstr ?m dest (a @ b)"
    using assms(1) cstr_wr_same [OF cstr_nonzero [OF assms(2)]]
    by (simp add: cstr_append_iff rd_wr_bytes_apart apart_def cstr_iff [of m dest a])
  moreover have "\<forall>q. q < dest + length a \<or> dest + length a + length b < q \<longrightarrow> ?m q = m q"
    by (auto simp: wr_bytes_apply)
  ultimately show ?thesis by blast
qed

definition demo_mem :: mem where
  "demo_mem = wr_bytes (wr_bytes (\<lambda>_. 0) 10 [65, 66, 67, 0, 7, 7, 7, 7]) 30 [66, 67, 68, 0]"

lemma demo_mem_strings: "cstr demo_mem 10 [65, 66, 67]" "cstr demo_mem 30 [66, 67, 68]"
  by (simp_all add: demo_mem_def)

theorem strcat_witness:
  "\<exists>m'. strcat demo_mem 10 30 = Some (m', 10) \<and> cstr m' 10 [65, 66, 67, 66, 67, 68]"
  using strcat_correct [OF demo_mem_strings] by (auto simp: apart_def)

text \<open>Strcmp returns on any two C strings; the result is zero exactly for equal strings and
  negative exactly when the first is smaller in the lexicographic order of unsigned bytes.\<close>

theorem strcmp_correct:
  assumes "cstr m p s" "cstr m q t"
  shows "\<exists>r. strcmp m p q = Some r \<and> (r = 0 \<longleftrightarrow> s = t) \<and> (r < 0 \<longleftrightarrow> ord_class.lexordp s t)"
  using assms by (rule strcmp_cstr)

theorem strcmp_witness: "\<exists>r. strcmp demo_mem 10 30 = Some r \<and> r < 0"
  using strcmp_correct [OF demo_mem_strings] by (auto simp: word_less_def)

text \<open>Strncmp of strcnmp.c decides equality of the first n + 1 characters, one more than the
  bound it is given (the routine of strncmp.c decides equality of the first n).\<close>

theorem strncmp_compares_one_more:
  assumes "cstr m p s" "cstr m q t"
  shows "(\<exists>r. strncmp_strcnmp m p q n = Some r \<and>
             (r = 0 \<longleftrightarrow> take (Suc (unat n)) s = take (Suc (unat n)) t)) \<and>
         (strncmp m p q (unat n) = 0 \<longleftrightarrow> take (unat n) s = take (unat n) t)"
  using strncmp_strcnmp_cstr [OF assms] strncmp_cstr [OF assms] by blast

theorem strncmp_witness:
  "\<exists>r. strncmp_strcnmp demo_mem 11 30 2 = Some r \<and> r \<noteq> 0 \<and> strncmp demo_mem 11 30 2 = 0"
proof -
  have "cstr demo_mem 11 [66, 67]" using demo_mem_strings(1) by simp
  from strncmp_compares_one_more [OF this demo_mem_strings(2), of 2] show ?thesis
    by auto
qed

text \<open>Strstr returns the first position of the haystack at which the rest of the haystack and
  the needle agree up to the end of the shorter of the two, so a haystack that ends in a proper
  prefix of the needle is reported as a match.\<close>

theorem strstr_exact:
  assumes "cstr m p s" "cstr m q t"
  shows "case strstr m p q of
      None \<Rightarrow> False
    | Some None \<Rightarrow> \<forall>i < length s. \<not> prefix (drop i s) t \<and> \<not> prefix t (drop i s)
    | Some (Some a) \<Rightarrow> \<exists>i < length s. a = p + i \<and> (prefix (drop i s) t \<or> prefix t (drop i s)) \<and>
        (\<forall>j < i. \<not> prefix (drop j s) t \<and> \<not> prefix t (drop j s))"
  using assms by (rule strstr_cstr)

theorem strstr_witness: "strstr demo_mem 10 30 = Some (Some 11)"
proof -
  have "demo_mem 10 = 65" "demo_mem 11 = 66" "demo_mem 12 = 67" "demo_mem 13 = 0"
    "demo_mem 30 = 66" "demo_mem 31 = 67" "demo_mem 32 = 68"
    by (simp_all add: demo_mem_def)
  then show ?thesis
    using strstr_exact [OF demo_mem_strings]
    by (simp add: strstr.simps [of demo_mem 10] strstr.simps [of demo_mem 11]
      compare_prefix.simps [of _ 10] compare_prefix.simps [of _ 11 30]
      compare_prefix.simps [of _ 12 31] compare_prefix.simps [of _ 13 32])
qed

text \<open>A call of strtok on a string returns its longest prefix without a delimiter as a C string
  of its own, and leaves the static pointer at the rest of the string; at the end of the string it
  returns NULL.\<close>

theorem strtok_correct:
  assumes "cstr m p s" "cstr m q ds" "tok = takeWhile (\<lambda>c. c \<notin> set ds) s"
  shows "\<exists>m' p'. strtok m old (Some p) q = Some (m', Some p', if s = [] then None else Some p) \<and>
    cstr m' p tok \<and>
    cstr m' p' (drop (Suc (length tok)) s) \<and>
    (\<forall>a. a \<noteq> p + length tok \<longrightarrow> m' a = m a)"
proof -
  let ?n = "length tok"
  have n: "?n \<le> length s" by (simp add: assms(3) length_takeWhile_le)
  have tok: "cstr (m(p + ?n := 0)) p tok"
  proof -
    have "take ?n s = tok" by (metis assms(3) takeWhile_eq_take)
    then show ?thesis
      using cstr_take [OF assms(1), of ?n] by (simp add: cstr_iff rd_bytes_upd_other)
  qed
  show ?thesis
  proof (cases "?n < length s")
    case True
    have "cstr m (p + Suc ?n) (drop (Suc ?n) s)"
      using assms(1) True by (intro cstr_drop) auto
    then have "cstr (m(p + ?n := 0)) (Suc (p + ?n)) (drop (Suc ?n) s)"
      by (simp add: mem_simps)
    then show ?thesis
      using True tok strtok_scan_cstr [OF assms] by (auto simp: strtok_def)
  next
    case False
    then have "tok = s" using n assms(3) by (metis le_neq_implies_less takeWhile_eq_take take_all order_refl)
    moreover have "m(p + length s := 0) = m"
      using cstr_end [OF assms(1)] by (auto simp: fun_upd_idem_iff)
    ultimately show ?thesis
      using False cstr_end [OF assms(1)] assms(1) strtok_scan_cstr [OF assms]
      by (auto simp: strtok_def)
  qed
qed

theorem strtok_witness:
  "\<exists>m'. strtok demo_mem None (Some 10) 30 = Some (m', Some 12, Some 10) \<and> cstr m' 10 [65]"
  using strtok_correct [OF demo_mem_strings refl, of None]
  by (simp add: strtok_def strtok_scan.simps search_set.simps demo_mem_def)

end
