(* ===== verification/Libc_Conv.thy ===== *)
theory Libc_Conv
  imports Libc_String
begin

text \<open>
  Character classes and number conversion of the C library (\<open>lib/libc/src/stdlib\<close> and the converters
  of \<open>lib/libc/src/stdio/printf.c\<close>). Converters to text are functions to the characters they store
  before the terminating NUL; \<open>strtol\<close>, \<open>strtoul\<close> and \<open>strntoumax\<close> read a NUL-terminated string, given
  as the list of its characters, by position.
\<close>

section \<open>Character classes\<close>

definition isalpha :: "u8 \<Rightarrow> bool" where
  "isalpha c \<longleftrightarrow> schar c \<ge> 0x41 \<and> schar c \<le> 0x5A \<or> schar c \<ge> 0x61 \<and> schar c \<le> 0x7A"

text \<open>The upper bound is the decimal number 39.\<close>

definition isdigit :: "u8 \<Rightarrow> bool" where
  "isdigit c \<longleftrightarrow> schar c \<ge> 0x30 \<and> schar c \<le> 39"

definition islower :: "u8 \<Rightarrow> bool" where
  "islower c \<longleftrightarrow> schar c \<ge> 0x61 \<and> schar c \<le> 0x7A"

definition isupper :: "u8 \<Rightarrow> bool" where
  "isupper c \<longleftrightarrow> schar c \<ge> 0x41 \<and> schar c \<le> 0x5A"

definition isspace :: "u8 \<Rightarrow> bool" where
  "isspace c \<longleftrightarrow> c = 0x20"

definition tolower :: "int \<Rightarrow> int" where
  "tolower c = (if c \<ge> 0x41 \<and> c \<le> 0x5A then c + 32 else c)"

definition toupper :: "int \<Rightarrow> int" where
  "toupper c = (if c \<ge> 0x61 \<and> c \<le> 0x7A then c - 32 else c)"

partial_function (option) tolower_str :: "mem \<Rightarrow> nat \<Rightarrow> mem option" where
  "tolower_str m str =
     (if m str = 0 then Some m
      else tolower_str (if schar (m str) \<ge> 0x41 \<and> schar (m str) \<le> 0x5A then m(str := m str + 32) else m) (str + 1))"

declare tolower_str.simps [code]

partial_function (option) toupper_str :: "mem \<Rightarrow> nat \<Rightarrow> mem option" where
  "toupper_str m str =
     (if m str = 0 then Some m
      else toupper_str (if schar (m str) \<ge> 0x61 \<and> schar (m str) \<le> 0x7A then m(str := m str - 32) else m) (str + 1))"

declare toupper_str.simps [code]

definition fold_char :: "u8 \<Rightarrow> u8" where
  "fold_char c = (if schar c \<ge> 0x41 \<and> schar c \<le> 0x5A then c + 32 else c)"

partial_function (option) strcasecmp :: "mem \<Rightarrow> nat \<Rightarrow> nat \<Rightarrow> int option" where
  "strcasecmp m s1 s2 =
     (if m s1 \<noteq> 0 \<and> m s2 \<noteq> 0 then
        (let c1 = fold_char (m s1); c2 = fold_char (m s2) in
         if c1 \<noteq> c2 then Some (schar c1 - schar c2) else strcasecmp m (s1 + 1) (s2 + 1))
      else Some (schar (m s1) - schar (m s2)))"

declare strcasecmp.simps [code]

section \<open>Numbers to text\<close>

definition digit_chars :: "u8 list" where
  "digit_chars = map of_nat ([48..<58] @ [97..<123])"

text \<open>\<open>__utoa\<close>: digits from the least significant one, then the string is reversed in place.\<close>

function utoa_digits :: "nat \<Rightarrow> nat \<Rightarrow> u8 list" where
  "utoa_digits base value =
     (if base < 2 then []
      else digit_chars ! (value mod base) # (if value div base \<noteq> 0 then utoa_digits base (value div base) else []))"
  by auto
termination by (relation "measure snd") (auto simp: div_greater_zero_iff)

declare utoa_digits.simps [simp del]

function utoa_reverse :: "u8 list \<Rightarrow> nat \<Rightarrow> nat \<Rightarrow> u8 list" where
  "utoa_reverse str j i =
     (if j < i then utoa_reverse (str[j := str ! i, i := str ! j]) (j + 1) (i - 1) else str)"
  by auto
termination by (relation "measure (\<lambda>(str, j, i). i)") auto

declare utoa_reverse.simps [simp del]

definition utoa :: "u32 \<Rightarrow> int \<Rightarrow> u8 list option" where
  "utoa value base =
     (if base < 2 \<or> base > 36 then None
      else let str = utoa_digits (nat base) (unat value) in Some (utoa_reverse str 0 (length str - 1)))"

text \<open>\<open>__itoa\<close> stores the minus sign at \<open>str\<close>, then passes the same \<open>str\<close> to \<open>__utoa\<close>.\<close>

definition itoa :: "u32 \<Rightarrow> int \<Rightarrow> u8 list option" where
  "itoa value base =
     (if base < 2 \<or> base > 36 then None
      else let uvalue = (if base = 10 \<and> sint value < 0 then - value else value) in utoa uvalue base)"

text \<open>The converters of \<open>printf.c\<close> drop leading zero digits.\<close>

fun emit_digits :: "(nat \<Rightarrow> u8) \<Rightarrow> nat list \<Rightarrow> bool \<Rightarrow> u8 list" where
  "emit_digits f [] started = []"
| "emit_digits f (d # ds) started =
     (if d \<noteq> 0 \<or> started then f d # emit_digits f ds True else emit_digits f ds started)"

definition itox :: "u32 \<Rightarrow> u8 list" where
  "itox value =
     (if value = 0 then [0x30]
      else emit_digits (\<lambda>d. digit_chars ! d)
        (map (\<lambda>shift. unat (drop_bit shift value AND 0xF)) [28, 24, 20, 16, 12, 8, 4, 0]) False)"

definition itooct :: "u32 \<Rightarrow> u8 list" where
  "itooct value =
     (if value = 0 then [0x30]
      else emit_digits (\<lambda>d. 0x30 + of_nat d)
        (map (\<lambda>shift. unat (drop_bit shift value AND 0x7)) [30, 27, 24, 21, 18, 15, 12, 9, 6, 3, 0]) False)"

text \<open>Counting subtractions in place of a division; the powers are not zero, so the loop ends.\<close>

fun count_sub :: "nat \<Rightarrow> nat \<Rightarrow> nat \<Rightarrow> nat \<times> nat" where
  "count_sub value pw digit =
     (if pw \<noteq> 0 \<and> value \<ge> pw then count_sub (value - pw) pw (digit + 1) else (value, digit))"

declare count_sub.simps [simp del]

fun dec_digits :: "nat list \<Rightarrow> nat \<Rightarrow> nat list" where
  "dec_digits [] value = []"
| "dec_digits (pw # ps) value = (let (value', digit) = count_sub value pw 0 in digit # dec_digits ps value')"

definition dec_powers :: "nat list" where
  "dec_powers = [1000000000, 100000000, 10000000, 1000000, 100000, 10000, 1000, 100, 10, 1]"

definition itoudec :: "u32 \<Rightarrow> u8 list" where
  "itoudec value =
     (if value = 0 then [0x30]
      else emit_digits (\<lambda>d. 0x30 + of_nat d) (dec_digits dec_powers (unat value)) False)"

definition itodec :: "u32 \<Rightarrow> u8 list" where
  "itodec value =
     (if value = 0 then [0x30]
      else if sint value < 0
      then 0x2D # emit_digits (\<lambda>d. 0x30 + of_nat d) (dec_digits dec_powers (unat (- value))) False
      else emit_digits (\<lambda>d. 0x30 + of_nat d) (dec_digits dec_powers (unat value)) False)"

definition pad_zeros :: "u8 list \<Rightarrow> nat \<Rightarrow> u8 list" where
  "pad_zeros str width =
     (if length str \<ge> width then str else replicate (width - length str) 0x30 @ str)"

section \<open>Text to numbers\<close>

text \<open>Character \<open>i\<close> of a C string, the NUL included.\<close>

definition ch :: "u8 list \<Rightarrow> nat \<Rightarrow> u8" where
  "ch s i = (if i < length s then s ! i else 0)"

fun strtol_loop :: "u8 list \<Rightarrow> u32 \<Rightarrow> u32" where
  "strtol_loop [] resultado = resultado"
| "strtol_loop (c # s) resultado =
     (if schar c \<ge> 0x30 \<and> schar c \<le> 0x39
      then strtol_loop s (resultado * 10 + (ucast c - 0x30)) else resultado)"

definition strtol :: "u8 list \<Rightarrow> int \<Rightarrow> u32" where
  "strtol str base = strtol_loop str 0"

definition atoi :: "u8 list \<Rightarrow> u32" where
  "atoi s = strtol s 10"

definition atol :: "u8 list \<Rightarrow> u32" where
  "atol s = strtol s 10"

definition is_white :: "u8 \<Rightarrow> bool" where
  "is_white c \<longleftrightarrow> c \<in> {0x20, 0x09, 0x0A, 0x0D, 0x0B, 0x0C}"

text \<open>Position of the first character that is not white space.\<close>

fun skip_white :: "u8 list \<Rightarrow> nat" where
  "skip_white [] = 0"
| "skip_white (c # s) = (if is_white c then skip_white s + 1 else 0)"

definition digit_of :: "int \<Rightarrow> int option" where
  "digit_of c =
     (if c \<ge> 0x30 \<and> c \<le> 0x39 then Some (c - 0x30)
      else if c \<ge> 0x61 \<and> c \<le> 0x7A then Some (c - 0x61 + 10)
      else if c \<ge> 0x41 \<and> c \<le> 0x5A then Some (c - 0x41 + 10)
      else None)"

text \<open>
  The conversion loop of \<open>strtoul\<close> over the rest of the string; \<open>any\<close> and \<open>acc\<close> are its variables,
  \<open>n\<close> counts the characters consumed.
\<close>

fun strtoul_loop :: "u32 \<Rightarrow> u8 list \<Rightarrow> int \<Rightarrow> u32 \<Rightarrow> nat \<Rightarrow> int \<times> u32 \<times> nat" where
  "strtoul_loop base [] any acc n = (any, acc, n)"
| "strtoul_loop base (c # s) any acc n =
     (case digit_of (schar c) of
        None \<Rightarrow> (any, acc, n)
      | Some d \<Rightarrow>
          if d \<ge> uint base then (any, acc, n)
          else if any < 0 then strtoul_loop base s any acc (n + 1)
          else
            (let cutoff = 0xFFFFFFFF div base; cutlim = uint ((0xFFFFFFFF :: u32) mod base) in
             if acc > cutoff \<or> acc = cutoff \<and> d > cutlim then strtoul_loop base s (-1) 0xFFFFFFFF (n + 1)
             else strtoul_loop base s 1 (acc * base + of_int d) (n + 1)))"

text \<open>The result and the offset of \<open>*endptr\<close> from \<open>nptr\<close>.\<close>

definition strtoul :: "u8 list \<Rightarrow> u32 \<Rightarrow> u32 \<times> nat" where
  "strtoul nptr base0 =
     (let p = skip_white nptr;
          neg = (ch nptr p = 0x2D);
          p = (if ch nptr p = 0x2D \<or> ch nptr p = 0x2B then p + 1 else p);
          hex = ((base0 = 0 \<or> base0 = 16) \<and> ch nptr p = 0x30 \<and> (ch nptr (p + 1) = 0x78 \<or> ch nptr (p + 1) = 0x58));
          p = (if hex then p + 2 else p);
          base = (if hex then 16 else base0);
          base = (if base = 0 then (if ch nptr p = 0x30 then 8 else 10) else base);
          (any, acc, n) = strtoul_loop base (drop p nptr) 0 0 0;
          acc = (if neg \<and> any > 0 then - acc else acc)
      in (acc, if any \<noteq> 0 then p + n else 0))"

definition digitval :: "u8 \<Rightarrow> int" where
  "digitval c =
     (let d = uint c - 0x30 in if 0 \<le> d \<and> d < 10 then d
      else let d = uint c - 0x61 in if 0 \<le> d \<and> d < 6 then d + 10
      else let d = uint c - 0x41 in if 0 \<le> d \<and> d < 6 then d + 10
      else -1)"

fun strntoumax_loop :: "int \<Rightarrow> u8 list \<Rightarrow> u64 \<Rightarrow> nat \<Rightarrow> u64 \<times> nat" where
  "strntoumax_loop base [] v n = (v, n)"
| "strntoumax_loop base (c # s) v n =
     (let d = digitval c in
      if d \<ge> 0 \<and> d < base then strntoumax_loop base s (v * of_int base + of_int d) (n + 1) else (v, n))"

fun skip_space :: "u8 list \<Rightarrow> nat" where
  "skip_space [] = 0"
| "skip_space (c # s) = (if isspace c then skip_space s + 1 else 0)"

text \<open>
  The bytes \<open>strntoumax\<close> may look at are those from \<open>nptr\<close> to \<open>end = nptr + n\<close>, the NUL included. The
  sum is a 32-bit pointer: when it wraps around, \<open>p < end\<close> fails at once and there are none.
\<close>

definition strntoumax_window :: "u32 \<Rightarrow> u8 list \<Rightarrow> u32 \<Rightarrow> u8 list" where
  "strntoumax_window nptr str n = (if nptr < nptr + n then take (unat n) (str @ [0]) else [])"

definition strntoumax :: "u32 \<Rightarrow> u8 list \<Rightarrow> int \<Rightarrow> u32 \<Rightarrow> u64 \<times> nat" where
  "strntoumax nptr str base0 cnt =
     (let s = strntoumax_window nptr str cnt;
          p = skip_space s;
          minus = (p < length s \<and> s ! p = 0x2D);
          p = (if p < length s \<and> (s ! p = 0x2D \<or> s ! p = 0x2B) then p + 1 else p);
          hex = (p + 2 < length s \<and> s ! p = 0x30 \<and> (s ! (p + 1) = 0x78 \<or> s ! (p + 1) = 0x58));
          oct = (p + 1 < length s \<and> s ! p = 0x30);
          (p, base) =
            (if base0 = 0 then (if hex then (p + 2, 16) else if oct then (p + 1, 8) else (p, 10))
             else if base0 = 16 then (if hex then p + 2 else p, 16)
             else (p, base0));
          (v, n) = strntoumax_loop base (drop p s) 0 0
      in (if minus then - v else v, p + n))"

definition strtoull :: "u32 \<Rightarrow> u8 list \<Rightarrow> int \<Rightarrow> u64 \<times> nat" where
  "strtoull nptr str base = strntoumax nptr str base 0xFFFFFFFF"

definition strtoll :: "u32 \<Rightarrow> u8 list \<Rightarrow> int \<Rightarrow> u64 \<times> nat" where
  "strtoll nptr str base = strntoumax nptr str base 0xFFFFFFFF"

section \<open>Digit strings\<close>

fun digits_val :: "nat \<Rightarrow> nat list \<Rightarrow> nat" where
  "digits_val b [] = 0"
| "digits_val b (d # ds) = d * b ^ length ds + digits_val b ds"

lemma digits_val_snoc: "digits_val b (ds @ [d]) = b * digits_val b ds + d"
  by (induction ds) (simp_all add: algebra_simps)

lemma digits_val_dropWhile: "digits_val b (dropWhile ((=) 0) ds) = digits_val b ds"
  by (induction ds) auto

lemma radix_val: "digits_val b (map (\<lambda>i. v div b ^ i mod b) (rev [0..<n])) = v mod b ^ n"
proof (induction n)
  case (Suc n)
  have "v mod (b ^ n * b) = b ^ n * (v div b ^ n mod b) + v mod b ^ n" by (rule mod_mult2_eq)
  then show ?case using Suc by (simp add: algebra_simps)
qed simp

lemma emit_digits_started: "emit_digits f ds True = map f ds"
  by (induction ds) auto

lemma emit_digits_eq: "emit_digits f ds False = map f (dropWhile ((=) 0) ds)"
  by (induction ds) (auto simp: emit_digits_started)

lemma count_sub_eq: "0 < p \<Longrightarrow> count_sub v p d = (v mod p, d + v div p)"
proof (induction v p d rule: count_sub.induct)
  case (1 v p d)
  show ?case
  proof (cases "p \<le> v")
    case True
    then show ?thesis using 1 by (simp add: count_sub.simps [of v] le_mod_geq le_div_geq)
  qed (use 1 in \<open>simp add: count_sub.simps [of v]\<close>)
qed

lemma dec_digits_val:
  "v < 10 ^ n \<Longrightarrow> digits_val 10 (dec_digits (map ((^) 10) (rev [0..<n])) v) = v \<and>
    length (dec_digits (map ((^) 10) (rev [0..<n])) v) = n \<and>
    (\<forall>d \<in> set (dec_digits (map ((^) 10) (rev [0..<n])) v). d < 10)"
proof (induction n arbitrary: v)
  case (Suc n)
  have "v div 10 ^ n < 10" using Suc.prems by (simp add: less_mult_imp_div_less)
  then show ?case using Suc.IH [of "v mod 10 ^ n"] by (simp add: count_sub_eq div_mult_mod_eq)
qed simp

lemma dec_powers_eq: "dec_powers = map ((^) 10) (rev [0..<10])"
  by (simp add: dec_powers_def upt_conv_Cons)

definition dch :: "nat \<Rightarrow> u8" where
  "dch d = digit_chars ! d"

lemma dch_facts:
  "\<forall>d \<in> set [0..<36]. digit_of (sint (dch d)) = Some (int d) \<and> dch d \<notin> {0x20, 0x09, 0x0A, 0x0D, 0x0B, 0x0C, 0x2D, 0x2B, 0} \<and>
     (d < 10 \<longrightarrow> dch d = 0x30 + of_nat d) \<and> (d < 16 \<longrightarrow> dch d \<notin> {0x78, 0x58})"
  by code_simp

lemma digit_of_dch: "d < 36 \<Longrightarrow> digit_of (sint (dch d)) = Some (int d)"
  using dch_facts by simp

lemma dch_plain: "d < 36 \<Longrightarrow> \<not> is_white (dch d) \<and> dch d \<noteq> 0x2D \<and> dch d \<noteq> 0x2B \<and> dch d \<noteq> 0"
  using dch_facts by (simp add: is_white_def)

lemma dch_decimal: "d < 10 \<Longrightarrow> 0x30 + of_nat d = dch d"
  using dch_facts by simp

lemma dch_not_x: "d < 16 \<Longrightarrow> dch d \<noteq> 0x78 \<and> dch d \<noteq> 0x58"
  using dch_facts by simp

lemma unat_drop_and_mask:
  "unat (drop_bit s v AND 0xF) = unat v div 2 ^ s mod 16" "unat (drop_bit s v AND 0x7) = unat v div 2 ^ s mod 8"
  for v :: u32
proof -
  have m: "(0xF :: u32) = mask 4" "(0x7 :: u32) = mask 3" by (simp_all add: mask_eq_exp_minus_1)
  show "unat (drop_bit s v AND 0xF) = unat v div 2 ^ s mod 16" "unat (drop_bit s v AND 0x7) = unat v div 2 ^ s mod 8"
    unfolding m take_bit_eq_mask [symmetric] unsigned_take_bit_eq unsigned_drop_bit_eq
    by (simp_all add: take_bit_eq_mod drop_bit_eq_div)
qed

text \<open>The digit lists of the three converters.\<close>

definition conv_digits :: "nat \<Rightarrow> u32 \<Rightarrow> nat list \<Rightarrow> bool" where
  "conv_digits b v ds \<longleftrightarrow> digits_val b ds = unat v \<and> (\<forall>d \<in> set ds. d < b) \<and> ds \<noteq> [] \<and> (hd ds \<noteq> 0 \<or> v = 0)"

lemma conv_digits_dropWhile:
  assumes "digits_val b ds = unat v" "\<forall>d \<in> set ds. d < b" "v \<noteq> 0"
  shows "conv_digits b v (dropWhile ((=) 0) ds)"
proof -
  have ne: "dropWhile ((=) 0) ds \<noteq> []"
  proof
    assume "dropWhile ((=) 0) ds = []"
    then have "digits_val b ds = 0" by (metis digits_val.simps(1) digits_val_dropWhile)
    then show False using assms(1,3) by (simp add: unat_eq_0)
  qed
  then show ?thesis
    using assms hd_dropWhile [OF ne] by (auto simp: conv_digits_def digits_val_dropWhile dest: set_dropWhileD)
qed

lemma emit_conv_digits:
  assumes "digits_val b ds = unat v" "\<forall>d \<in> set ds. d < b" "v \<noteq> 0" "\<And>d. d < b \<Longrightarrow> f d = dch d"
  shows "\<exists>ds'. emit_digits f ds False = map dch ds' \<and> conv_digits b v ds'"
proof -
  have "map f (dropWhile ((=) 0) ds) = map dch (dropWhile ((=) 0) ds)"
    using assms(2,4) by (intro map_cong) (auto dest: set_dropWhileD)
  then show ?thesis
    using conv_digits_dropWhile [OF assms(1-3)] unfolding emit_digits_eq by (intro exI conjI)
qed

lemma itox_digits: "\<exists>ds. itox v = map dch ds \<and> conv_digits 16 v ds"
proof (cases "v = 0")
  case True
  then show ?thesis
    by (intro exI [of _ "[0]"]) (simp add: itox_def conv_digits_def dch_def digit_chars_def)
next
  case False
  let ?ds = "map (\<lambda>shift. unat (drop_bit shift v AND 0xF)) [28, 24, 20, 16, 12, 8, 4, 0]"
  have "?ds = map (\<lambda>i. unat v div 16 ^ i mod 16) (rev [0..<8])"
    by (simp add: unat_drop_and_mask upt_conv_Cons)
  then have "digits_val 16 ?ds = unat v mod 16 ^ 8" by (simp only: radix_val)
  then have "digits_val 16 ?ds = unat v" by simp
  moreover have "\<forall>d \<in> set ?ds. d < 16" by (simp add: unat_drop_and_mask)
  ultimately have "\<exists>ds'. emit_digits (\<lambda>d. digit_chars ! d) ?ds False = map dch ds' \<and> conv_digits 16 v ds'"
    using False by (rule emit_conv_digits) (simp add: dch_def)
  then show ?thesis using False unfolding itox_def by (simp only: if_False)
qed

lemma itooct_digits: "\<exists>ds. itooct v = map dch ds \<and> conv_digits 8 v ds"
proof (cases "v = 0")
  case True
  then show ?thesis
    by (intro exI [of _ "[0]"]) (simp add: itooct_def conv_digits_def dch_def digit_chars_def)
next
  case False
  let ?ds = "map (\<lambda>shift. unat (drop_bit shift v AND 0x7)) [30, 27, 24, 21, 18, 15, 12, 9, 6, 3, 0]"
  have "?ds = map (\<lambda>i. unat v div 8 ^ i mod 8) (rev [0..<11])"
    by (simp add: unat_drop_and_mask upt_conv_Cons)
  then have "digits_val 8 ?ds = unat v mod 8 ^ 11" by (simp only: radix_val)
  moreover have "unat v < 8 ^ 11" by (rule less_trans [OF unat_less_exp(3)]) simp
  ultimately have "digits_val 8 ?ds = unat v" by simp
  moreover have "\<forall>d \<in> set ?ds. d < 8" by (simp add: unat_drop_and_mask)
  ultimately have "\<exists>ds'. emit_digits (\<lambda>d. 0x30 + of_nat d) ?ds False = map dch ds' \<and> conv_digits 8 v ds'"
    using False by (rule emit_conv_digits) (simp add: dch_decimal)
  then show ?thesis using False unfolding itooct_def by (simp only: if_False)
qed

lemma dec_conv_digits:
  assumes "v \<noteq> 0"
  shows "\<exists>ds. emit_digits (\<lambda>d. 0x30 + of_nat d) (dec_digits dec_powers (unat v)) False = map dch ds \<and> conv_digits 10 v ds"
proof -
  let ?ds = "dec_digits dec_powers (unat v)"
  have "unat v < 10 ^ 10" by (rule less_trans [OF unat_less_exp(3)]) simp
  then have "digits_val 10 ?ds = unat v" "\<forall>d \<in> set ?ds. d < 10"
    using dec_digits_val [of "unat v" 10] unfolding dec_powers_eq by blast+
  then show ?thesis using assms by (rule emit_conv_digits) (simp add: dch_decimal)
qed

lemma itoudec_digits: "\<exists>ds. itoudec v = map dch ds \<and> conv_digits 10 v ds"
proof (cases "v = 0")
  case True
  then show ?thesis
    by (intro exI [of _ "[0]"]) (simp add: itoudec_def conv_digits_def dch_def digit_chars_def)
qed (use dec_conv_digits [of v] in \<open>simp add: itoudec_def\<close>)

lemma itodec_digits:
  "\<exists>ds. itodec v = (if sint v < 0 then [0x2D] else []) @ map dch ds \<and> conv_digits 10 (if sint v < 0 then - v else v) ds"
proof (cases "v = 0")
  case True
  then show ?thesis
    by (intro exI [of _ "[0]"]) (simp add: itodec_def conv_digits_def dch_def digit_chars_def)
qed (use dec_conv_digits [of v] dec_conv_digits [of "- v"] in \<open>auto simp: itodec_def\<close>)

text \<open>\<open>__utoa\<close>: the loop and the reversal give the digits most significant first.\<close>

lemma utoa_digits_conv:
  assumes "2 \<le> b"
  shows "\<exists>ds. utoa_digits b v = map dch (rev ds) \<and> digits_val b ds = v \<and> (\<forall>d \<in> set ds. d < b) \<and> ds \<noteq> [] \<and> (hd ds \<noteq> 0 \<or> v = 0)"
proof (induction v rule: less_induct)
  case (less v)
  show ?case
  proof (cases "v div b = 0")
    case True
    then have "v < b" using assms by (simp add: div_eq_0_iff)
    then show ?thesis using True assms
      by (intro exI [of _ "[v]"]) (auto simp: utoa_digits.simps [of b v] dch_def)
  next
    case False
    then have "v div b < v" using assms by (cases "v = 0") auto
    then obtain ds where ds: "utoa_digits b (v div b) = map dch (rev ds)" "digits_val b ds = v div b"
      "\<forall>d \<in> set ds. d < b" "ds \<noteq> []" "hd ds \<noteq> 0 \<or> v div b = 0" using less by blast
    then show ?thesis using False assms
      by (intro exI [of _ "ds @ [v mod b]"])
        (simp add: utoa_digits.simps [of b v] dch_def digits_val_snoc div_mult_mod_eq mult.commute)
  qed
qed


lemma utoa_reverse_nth:
  "i < length str \<Longrightarrow> length (utoa_reverse str j i) = length str \<and>
    (\<forall>k < length str. utoa_reverse str j i ! k = (if j \<le> k \<and> k \<le> i then str ! (i + j - k) else str ! k))"
proof (induction str j i rule: utoa_reverse.induct)
  case (1 str j i)
  show ?case
  proof (cases "j < i")
    case True
    let ?str = "str[j := str ! i, i := str ! j]"
    have IH: "length (utoa_reverse ?str (j + 1) (i - 1)) = length str"
      "\<forall>k < length str. utoa_reverse ?str (j + 1) (i - 1) ! k =
        (if j + 1 \<le> k \<and> k \<le> i - 1 then ?str ! (i - 1 + (j + 1) - k) else ?str ! k)"
      using 1 True by auto
    show ?thesis
      using True IH "1.prems" by (auto simp: utoa_reverse.simps [of str] nth_list_update)
  next
    case False
    then have "j \<le> k \<and> k \<le> i \<Longrightarrow> i + j - k = k" for k by auto
    then show ?thesis using False by (auto simp: utoa_reverse.simps [of str])
  qed
qed

lemma utoa_reverse_rev: "str \<noteq> [] \<Longrightarrow> utoa_reverse str 0 (length str - 1) = rev str"
  using utoa_reverse_nth [of "length str - 1" str 0]
  by (intro nth_equalityI) (auto simp: rev_nth)

lemma utoa_conv:
  assumes "2 \<le> b" "b \<le> 36"
  shows "\<exists>ds. utoa v (int b) = Some (map dch ds) \<and> conv_digits b v ds"
proof -
  obtain ds where "utoa_digits b (unat v) = map dch (rev ds)" "digits_val b ds = unat v"
    "\<forall>d \<in> set ds. d < b" "ds \<noteq> []" "hd ds \<noteq> 0 \<or> unat v = 0"
    using utoa_digits_conv [OF assms(1), of "unat v"] by blast
  then show ?thesis
    using assms utoa_reverse_rev [of "map dch (rev ds)"]
    by (intro exI [of _ ds]) (auto simp: utoa_def conv_digits_def Let_def rev_map unat_eq_0)
qed

section \<open>Reading a number back\<close>

lemma no_overflow_iff:
  fixes acc :: u32
  assumes "0 < b" "unat acc * b + d < 2 ^ 32" "b < 2 ^ 32" "d < b"
  shows "\<not> (acc > 0xFFFFFFFF div of_nat b \<or> acc = 0xFFFFFFFF div of_nat b \<and> int d > uint ((0xFFFFFFFF :: u32) mod of_nat b))"
    and "unat (acc * of_nat b + of_int (int d) :: u32) = unat acc * b + d"
proof -
  have b: "unat (of_nat b :: u32) = b" using assms(3) by (simp add: of_nat_inverse)
  have q: "unat (0xFFFFFFFF div of_nat b :: u32) = 0xFFFFFFFF div b"
    "unat (0xFFFFFFFF mod of_nat b :: u32) = 0xFFFFFFFF mod b"
    by (simp_all add: unat_div_distrib unat_mod_distrib b)
  have le: "unat acc * b + d \<le> 0xFFFFFFFF" using assms(2) by simp
  then have "unat acc \<le> 0xFFFFFFFF div b"
    using assms(1) by (metis add_leD1 div_le_mono nonzero_mult_div_cancel_right less_not_refl)
  moreover have "d \<le> 0xFFFFFFFF mod b" if "unat acc = 0xFFFFFFFF div b"
    using le that by (metis add_le_cancel_left div_mult_mod_eq)
  ultimately show "\<not> (acc > 0xFFFFFFFF div of_nat b \<or> acc = 0xFFFFFFFF div of_nat b \<and> int d > uint ((0xFFFFFFFF :: u32) mod of_nat b))"
    using q by (auto simp: word_less_nat_alt uint_nat word_unat_eq_iff)
  have e: "acc * of_nat b + of_int (int d) = (of_nat (unat acc * b + d) :: u32)" by simp
  show "unat (acc * of_nat b + of_int (int d) :: u32) = unat acc * b + d"
    unfolding e by (rule of_nat_inverse_u32) (use assms(2) in simp)
qed

lemma overflow_cases:
  fixes acc :: u32
  assumes "0 < b" "2 ^ 32 \<le> unat acc * b + d" "b < 2 ^ 32" "d < b"
  shows "acc > 0xFFFFFFFF div of_nat b \<or> acc = 0xFFFFFFFF div of_nat b \<and> int d > uint ((0xFFFFFFFF :: u32) mod of_nat b)"
proof -
  have b: "unat (of_nat b :: u32) = b" using assms(3) by (simp add: of_nat_inverse)
  have q: "unat (0xFFFFFFFF div of_nat b :: u32) = 0xFFFFFFFF div b"
    "unat (0xFFFFFFFF mod of_nat b :: u32) = 0xFFFFFFFF mod b"
    by (simp_all add: unat_div_distrib unat_mod_distrib b)
  have m: "0xFFFFFFFF div b * b + 0xFFFFFFFF mod b = (0xFFFFFFFF :: nat)" by (rule div_mult_mod_eq)
  have a2: "4294967296 \<le> unat acc * b + d" using assms(2) by simp
  have "\<not> unat acc < 0xFFFFFFFF div b"
  proof
    assume "unat acc < 0xFFFFFFFF div b"
    then have "Suc (unat acc) * b \<le> 0xFFFFFFFF div b * b" by (intro mult_le_mono1) simp
    then have "unat acc * b + b \<le> 0xFFFFFFFF div b * b" by simp
    moreover have "0xFFFFFFFF div b * b \<le> (0xFFFFFFFF :: nat)" by (rule div_times_less_eq_dividend)
    ultimately show False using a2 assms(4) by linarith
  qed
  moreover have "0xFFFFFFFF mod b < d" if "unat acc = 0xFFFFFFFF div b"
  proof -
    have "unat acc * b = 0xFFFFFFFF div b * b" by (simp only: that)
    then show ?thesis using m a2 by linarith
  qed
  ultimately show ?thesis
    unfolding word_less_nat_alt uint_nat word_unat_eq_iff using q
    by (cases "unat acc = 0xFFFFFFFF div b") auto
qed

lemma strtoul_loop_step:
  assumes "2 \<le> b" "b \<le> 36" "d < b" "0 \<le> any"
  shows "strtoul_loop (of_nat b) (dch d # s) any acc n =
    (if unat acc * b + d < 2 ^ 32 then strtoul_loop (of_nat b) s 1 (of_nat (unat acc * b + d)) (n + 1)
     else strtoul_loop (of_nat b) s (-1) 0xFFFFFFFF (n + 1))"
proof -
  let ?P = "acc > 0xFFFFFFFF div of_nat b \<or> acc = 0xFFFFFFFF div of_nat b \<and> int d > uint ((0xFFFFFFFF :: u32) mod of_nat b)"
  have ub: "uint (of_nat b :: u32) = int b" using assms by (simp add: uint_nat of_nat_inverse)
  have 1: "strtoul_loop (of_nat b) (dch d # s) any acc n =
      (if ?P then strtoul_loop (of_nat b) s (-1) 0xFFFFFFFF (n + 1)
       else strtoul_loop (of_nat b) s 1 (of_nat (unat acc * b + d)) (n + 1))"
    using assms ub by (simp add: digit_of_dch Let_def)
  have "?P \<longleftrightarrow> \<not> unat acc * b + d < 2 ^ 32"
    using no_overflow_iff(1) [of b acc d] overflow_cases [of b acc d] assms by force
  then show ?thesis unfolding 1 by simp
qed

lemma strtoul_loop_digits:
  assumes "2 \<le> b" "b \<le> 36"
  shows "\<forall>d \<in> set ds. d < b \<Longrightarrow> unat acc * b ^ length ds + digits_val b ds < 2 ^ 32 \<Longrightarrow> 0 \<le> any \<Longrightarrow>
    strtoul_loop (of_nat b) (map dch ds) any acc n =
      (if ds = [] then any else 1, of_nat (unat acc * b ^ length ds + digits_val b ds), n + length ds)"
proof (induction ds arbitrary: any acc n)
  case (Cons d ds)
  let ?a = "unat acc * b + d"
  have e: "unat acc * b ^ length (d # ds) + digits_val b (d # ds) = ?a * b ^ length ds + digits_val b ds"
    by (simp add: algebra_simps)
  have "?a * 1 \<le> ?a * b ^ length ds"
    using assms(1) by (intro mult_le_mono2) simp
  then have "?a \<le> ?a * b ^ length ds + digits_val b ds"
    by (metis mult.right_neutral trans_le_add1)
  then have lt: "?a < 2 ^ 32" using Cons.prems(2) unfolding e by (rule le_less_trans)
  then have un: "unat (of_nat ?a :: u32) = ?a" by (intro of_nat_inverse_u32) simp
  have "strtoul_loop (of_nat b) (map dch ds) 1 (of_nat ?a) (n + 1) =
      (1, of_nat (?a * b ^ length ds + digits_val b ds), n + 1 + length ds)"
    using Cons.prems unfolding e by (subst Cons.IH) (simp_all add: un del: of_nat_add of_nat_mult)
  then show ?case
    using strtoul_loop_step [OF assms, of d any] lt Cons.prems(1,3) unfolding e by simp
qed simp

lemma strtoul_digits:
  assumes "2 \<le> b" "b \<le> 36" "conv_digits b v ds"
  shows "strtoul (map dch ds) (of_nat b) = (v, length ds)"
proof -
  have ds: "ds \<noteq> []" "\<forall>d \<in> set ds. d < b" "digits_val b ds = unat v" using assms(3) by (auto simp: conv_digits_def)
  have loop: "strtoul_loop (of_nat b) (map dch ds) 0 0 0 = (1, v, length ds)"
    using strtoul_loop_digits [OF assms(1,2) ds(2), of 0 0 0] ds(1,3) by simp
  obtain d ds' where dds: "ds = d # ds'" using ds(1) by (cases ds) auto
  have d: "d < 36" using ds(2) assms(2) dds by auto
  have b0: "(of_nat b :: u32) \<noteq> 0" using assms by (auto simp: word_unat_eq_iff of_nat_inverse)
  have hex: "(of_nat b :: u32) = 16 \<Longrightarrow> ch (map dch ds) 1 \<notin> {0x78, 0x58}"
  proof -
    assume "(of_nat b :: u32) = 16"
    then have "b = 16" using assms(2) by (auto simp: word_unat_eq_iff of_nat_inverse)
    then show ?thesis using ds(2) dch_not_x by (cases ds') (auto simp: ch_def dds)
  qed
  have "skip_white (map dch ds) = 0" "ch (map dch ds) 0 \<noteq> 0x2D" "ch (map dch ds) 0 \<noteq> 0x2B"
    using dch_plain [OF d] by (simp_all add: dds ch_def)
  then show ?thesis
    using b0 hex loop unfolding strtoul_def Let_def by auto
qed


lemma strtoul_loop_saturated:
  "\<forall>d \<in> set ds. d < b \<Longrightarrow> b \<le> 36 \<Longrightarrow>
   strtoul_loop (of_nat b) (map dch ds) (-1) acc n = (-1, acc, n + length ds)"
proof (induction ds arbitrary: n)
  case (Cons d ds)
  have "uint (of_nat b :: u32) = int b" using Cons.prems by (simp add: uint_nat of_nat_inverse)
  then show ?case using Cons by (simp add: digit_of_dch)
qed simp

lemma strtoul_loop_overflow:
  assumes "2 \<le> b" "b \<le> 36"
  shows "\<forall>d \<in> set ds. d < b \<Longrightarrow> 2 ^ 32 \<le> unat acc * b ^ length ds + digits_val b ds \<Longrightarrow> 0 \<le> any \<Longrightarrow>
    strtoul_loop (of_nat b) (map dch ds) any acc n = (-1, 0xFFFFFFFF, n + length ds)"
proof (induction ds arbitrary: any acc n)
  case Nil
  then show ?case using unat_less_exp(3) [of acc] by simp
next
  case (Cons d ds)
  let ?a = "unat acc * b + d"
  have e: "unat acc * b ^ length (d # ds) + digits_val b (d # ds) = ?a * b ^ length ds + digits_val b ds"
    by (simp add: algebra_simps)
  show ?case
  proof (cases "?a < 2 ^ 32")
    case True
    then have un: "unat (of_nat ?a :: u32) = ?a" by (intro of_nat_inverse_u32) simp
    have "strtoul_loop (of_nat b) (map dch ds) 1 (of_nat ?a) (n + 1) = (-1, 0xFFFFFFFF, n + 1 + length ds)"
      using Cons.prems unfolding e by (intro Cons.IH) (simp_all add: un del: of_nat_add of_nat_mult)
    then show ?thesis using strtoul_loop_step [OF assms, of d any] True Cons.prems(1,3) by simp
  next
    case False
    then show ?thesis
      using strtoul_loop_step [OF assms, of d any] strtoul_loop_saturated [of ds b "0xFFFFFFFF" "n + 1"] Cons.prems assms
      by simp
  qed
qed

section \<open>Case-insensitive comparison\<close>

lemma strcasecmp_cstr:
  "cstr m p s \<Longrightarrow> cstr m q t \<Longrightarrow> \<exists>r. strcasecmp m p q = Some r \<and> (r = 0 \<longleftrightarrow> map fold_char s = map fold_char t)"
proof (induction s arbitrary: p q t)
  case Nil
  then show ?case by (cases t) (auto simp: strcasecmp.simps [of m p q] sint_cmp)
next
  case (Cons c s)
  show ?case
  proof (cases t)
    case Nil
    then show ?thesis using Cons.prems by (auto simp: strcasecmp.simps [of m p q] sint_cmp)
  next
    case (Cons d t')
    then show ?thesis
      using Cons.prems Cons.IH [of "Suc p" "Suc q" t'] by (auto simp: strcasecmp.simps [of m p q] Let_def sint_cmp)
  qed
qed

section \<open>Properties\<close>

text \<open>C40: the number converters of \<open>printf\<close> and \<open>strtoul\<close> are inverse: what \<open>itoudec\<close>, \<open>itox\<close> and
  \<open>itooct\<close> store for any 32-bit value is read back by \<open>strtoul\<close> in the same base, to the last
  character.\<close>

theorem strtoul_printf_roundtrip:
  "strtoul (itoudec v) 10 = (v, length (itoudec v)) \<and> strtoul (itox v) 16 = (v, length (itox v)) \<and>
   strtoul (itooct v) 8 = (v, length (itooct v))"
proof -
  obtain a b c where "itoudec v = map dch a" "conv_digits 10 v a" "itox v = map dch b" "conv_digits 16 v b"
    "itooct v = map dch c" "conv_digits 8 v c"
    using itoudec_digits [of v] itox_digits [of v] itooct_digits [of v] by blast
  then show ?thesis
    using strtoul_digits [of 10 v a] strtoul_digits [of 16 v b] strtoul_digits [of 8 v c] by simp
qed

text \<open>\<open>utoa\<close> and \<open>strtoul\<close> are inverse in every base from 2 to 36; outside that range \<open>utoa\<close>
  returns NULL.\<close>

theorem utoa_roundtrip:
  "(2 \<le> b \<and> b \<le> 36 \<longrightarrow> (\<exists>str. utoa v (int b) = Some str \<and> strtoul str (of_nat b) = (v, length str))) \<and>
   (b < 2 \<or> 36 < b \<longrightarrow> utoa v (int b) = None)"
proof (intro conjI impI)
  assume b: "2 \<le> b \<and> b \<le> 36"
  then obtain ds where "utoa v (int b) = Some (map dch ds)" "conv_digits b v ds" using utoa_conv by blast
  then show "\<exists>str. utoa v (int b) = Some str \<and> strtoul str (of_nat b) = (v, length str)"
    using strtoul_digits b by (intro exI [of _ "map dch ds"]) simp
qed (auto simp: utoa_def)

text \<open>A digit string whose value does not fit 32 bits makes \<open>strtoul\<close> consume all its digits and
  return \<open>ULONG_MAX\<close>.\<close>

theorem strtoul_saturates:
  assumes "2 \<le> b" "b \<le> 36" "\<forall>d \<in> set ds. d < b" "2 ^ 32 \<le> digits_val b ds"
  shows "strtoul_loop (of_nat b) (map dch ds) 0 0 0 = (-1, 0xFFFFFFFF, length ds)"
  using strtoul_loop_overflow [OF assms(1-3), of 0 0 0] assms(4) by simp

text \<open>\<open>strcasecmp\<close> returns on any two C strings, with zero exactly for strings that agree up to the
  case of the letters A to Z.\<close>

theorem strcasecmp_correct:
  assumes "cstr m p s" "cstr m q t"
  shows "\<exists>r. strcasecmp m p q = Some r \<and> (r = 0 \<longleftrightarrow> map fold_char s = map fold_char t)"
  using assms by (rule strcasecmp_cstr)

text \<open>\<open>itoa\<close> loses the sign: for a negative value in base ten the string is that of the absolute
  value, because the minus sign is overwritten by the first digit.\<close>

theorem itoa_drops_sign: "itoa v 10 = utoa (if sint v < 0 then - v else v) 10"
  by (simp add: itoa_def)

text \<open>\<open>strtoull\<close> and \<open>strtoll\<close> return zero for every string that does not start at address zero:
  the end pointer they pass to \<open>strntoumax\<close> wraps around to just before the string.\<close>

theorem strtoull_always_zero:
  assumes "nptr \<noteq> 0"
  shows "strtoull nptr str base = (0, 0) \<and> strtoll nptr str base = (0, 0)"
proof -
  have m: "(0xFFFFFFFF :: u32) = - 1" by simp
  have "\<not> nptr < nptr + 0xFFFFFFFF"
    unfolding m using assms by (simp add: word_less_nat_alt unat_minus_one not_less)
  then have "strntoumax_window nptr str 0xFFFFFFFF = []" by (simp add: strntoumax_window_def)
  then show ?thesis by (simp add: strtoull_def strtoll_def strntoumax_def Let_def)
qed

text \<open>No character at all is a digit for \<open>isdigit\<close>, whose upper bound is written 39 for 0x39.\<close>

theorem isdigit_never: "\<not> isdigit c"
  by (simp add: isdigit_def)

theorem utoa_witness: "\<exists>str. utoa 255 (int 16) = Some str \<and> strtoul str (of_nat 16) = (255, length str)"
  using utoa_roundtrip [of 16 255] by simp

theorem strtoul_saturates_witness:
  "strtoul_loop (of_nat 16) (map dch [1, 0, 0, 0, 0, 0, 0, 0, 0]) 0 0 0 = (-1, 0xFFFFFFFF, 9)"
  using strtoul_saturates [of 16 "[1, 0, 0, 0, 0, 0, 0, 0, 0]"] by simp

theorem strcasecmp_witness: "\<exists>r. strcasecmp demo_mem 10 30 = Some r \<and> r \<noteq> 0"
  using strcasecmp_correct [OF demo_mem_strings] by (auto simp: fold_char_def)

theorem strtoull_witness: "strtoull 0x2000 [0x31, 0x32] 10 = (0, 0)"
  using strtoull_always_zero [of "0x2000" "[0x31, 0x32]" 10] by simp

end
