(* ===== verification/Libc_Printf.thy ===== *)
theory Libc_Printf
  imports Libc_Conv
begin

text \<open>
  \<open>printf\<close> and \<open>sprintf\<close> (\<open>lib/libc/src/stdio\<close>). The format is the list of its characters before the
  NUL, the variable arguments are a list of tagged values, and the result is the text produced
  (printed, or stored before the final NUL) with the return value. Reading an argument that is not
  there, or of another kind, and reading the format past its NUL have no defined result in C: they
  are the values of \<open>fmt_error\<close>. The conversion buffer holds \<open>FMT_BUFFER\<close> bytes; a padded number
  that does not fit is the error \<open>Buffer_overflow\<close>.
\<close>

section \<open>The code\<close>

datatype fmt_arg = Int_arg u32 | Str_arg "u8 list option" | Double_arg

datatype fmt_error = Missing_argument | Format_overread | Buffer_overflow

type_synonym fmt_result = "fmt_error + (u8 list \<times> u32)"

definition FMT_BUFFER :: nat where "FMT_BUFFER = 32"

definition float_text :: "u8 list" where "float_text = [0x5B, 0x66, 0x6C, 0x6F, 0x61, 0x74, 0x5D]"
definition null_text :: "u8 list" where "null_text = [0x28, 0x6E, 0x75, 0x6C, 0x6C, 0x29]"

text \<open>The digits between the percent sign and the conversion: the zero flag and the width.\<close>

fun fmt_flags :: "u8 list \<Rightarrow> bool \<Rightarrow> u32 \<Rightarrow> bool \<times> u32 \<times> u8 list" where
  "fmt_flags [] zero_pad width = (zero_pad, width, [])"
| "fmt_flags (c # f) zero_pad width =
     (if schar c \<ge> 0x30 \<and> schar c \<le> 0x39 then
        (if c = 0x30 \<and> width = 0 then fmt_flags f True width
         else fmt_flags f zero_pad (width * 10 + (ucast c - 0x30)))
      else (zero_pad, width, c # f))"

definition fmt_number :: "bool \<Rightarrow> u32 \<Rightarrow> u8 list \<Rightarrow> fmt_error + u8 list" where
  "fmt_number zero_pad width digits =
     (let text = (if zero_pad \<and> sint width > 0 then pad_zeros digits (unat width) else digits)
      in if length text < FMT_BUFFER then Inr text else Inl Buffer_overflow)"

text \<open>
  One conversion: the text it produces and the remaining arguments. \<open>None\<close> is the \<open>default\<close> branch,
  which the two functions treat differently.
\<close>

definition fmt_convert ::
    "u8 \<Rightarrow> bool \<Rightarrow> u32 \<Rightarrow> fmt_arg list \<Rightarrow> (fmt_error + (u8 list \<times> fmt_arg list)) option" where
  "fmt_convert c zero_pad width args =
     (let num = (\<lambda>conv. case args of
                   Int_arg n # rest \<Rightarrow> map_sum id (\<lambda>t. (t, rest)) (fmt_number zero_pad width (conv n))
                 | _ \<Rightarrow> Inl Missing_argument)
      in if c = 0x63 then Some (case args of Int_arg n # rest \<Rightarrow> Inr ([ucast n], rest) | _ \<Rightarrow> Inl Missing_argument)
         else if c = 0x64 \<or> c = 0x69 then Some (num itodec)
         else if c = 0x75 then Some (num itoudec)
         else if c = 0x66 \<or> c = 0x46 then
           Some (case args of Double_arg # rest \<Rightarrow> Inr (float_text, rest) | _ \<Rightarrow> Inl Missing_argument)
         else if c = 0x73 then
           Some (case args of Str_arg s # rest \<Rightarrow> Inr (case s of Some t \<Rightarrow> t | None \<Rightarrow> null_text, rest)
                 | _ \<Rightarrow> Inl Missing_argument)
         else if c = 0x78 \<or> c = 0x58 then Some (num itox)
         else if c = 0x6F then Some (num itooct)
         else if c = 0x25 then Some (Inr ([0x25], args))
         else None)"

definition skip_l :: "u8 list \<Rightarrow> u8 list" where
  "skip_l f = (case f of c # f' \<Rightarrow> if c = 0x6C then f' else f | [] \<Rightarrow> [])"

text \<open>
  The flags, the width, the conversion character and the rest of the format after a percent sign;
  \<open>None\<close> when the NUL comes first. Only \<open>printf\<close> skips a length modifier.
\<close>

definition fmt_spec :: "bool \<Rightarrow> u8 list \<Rightarrow> (bool \<times> u32 \<times> u8 \<times> u8 list) option" where
  "fmt_spec modifier f =
     (case fmt_flags f False 0 of (zero_pad, width, f1) \<Rightarrow>
       (case (if modifier then skip_l f1 else f1) of
          [] \<Rightarrow> None
        | k # rest \<Rightarrow> Some (zero_pad, width, k, rest)))"

lemma fmt_flags_length: "fmt_flags f z w = (z', w', f') \<Longrightarrow> length f' \<le> length f"
  by (induction f z w rule: fmt_flags.induct) (auto split: if_splits)

lemma fmt_spec_length: "fmt_spec m f = Some (z, w, k, rest) \<Longrightarrow> length rest < length f"
  by (auto simp: fmt_spec_def skip_l_def dest!: fmt_flags_length split: prod.splits list.splits if_splits)

function printf_loop :: "u8 list \<Rightarrow> fmt_arg list \<Rightarrow> u8 list \<Rightarrow> u32 \<Rightarrow> fmt_result" where
  "printf_loop [] args out n = Inr (out, n)"
| "printf_loop (c # f) args out n =
     (if c = 0x25 then
        (case fmt_spec True f of
           None \<Rightarrow> Inl Format_overread
         | Some (zero_pad, width, k, rest) \<Rightarrow>
             (case fmt_convert k zero_pad width args of
                Some (Inl e) \<Rightarrow> Inl e
              | Some (Inr (text, args')) \<Rightarrow> printf_loop rest args' (out @ text) (n + of_nat (length text))
              | None \<Rightarrow>
                  (let num = (if sint width > 0 then itodec width else []) in
                   if length num < 10
                   then printf_loop rest args (out @ [0x25] @ (if zero_pad then [0x30] else []) @ num @ [k])
                          (n + 2 + of_nat (length num))
                   else Inl Buffer_overflow)))
      else printf_loop f args (out @ [c]) (n + 1))"
  by pat_completeness auto
termination by (relation "measure (\<lambda>(f, _). length f)") (auto dest: fmt_spec_length)

definition printf :: "u8 list \<Rightarrow> fmt_arg list \<Rightarrow> fmt_result" where
  "printf format args = printf_loop format args [] 0"

function sprintf_loop :: "u8 list \<Rightarrow> fmt_arg list \<Rightarrow> u8 list \<Rightarrow> fmt_error + u8 list" where
  "sprintf_loop [] args str = Inr str"
| "sprintf_loop (c # f) args str =
     (if c = 0x25 then
        (case fmt_spec False f of
           None \<Rightarrow> Inl Format_overread
         | Some (zero_pad, width, k, rest) \<Rightarrow>
             (case fmt_convert k zero_pad width args of
                Some (Inl e) \<Rightarrow> Inl e
              | Some (Inr (text, args')) \<Rightarrow> sprintf_loop rest args' (str @ text)
              | None \<Rightarrow> sprintf_loop rest args (str @ [0x25, k])))
      else sprintf_loop f args (str @ [c]))"
  by pat_completeness auto
termination by (relation "measure (\<lambda>(f, _). length f)") (auto dest: fmt_spec_length)

definition sprintf :: "u8 list \<Rightarrow> fmt_arg list \<Rightarrow> fmt_result" where
  "sprintf format args = map_sum id (\<lambda>str. (str, of_nat (length str))) (sprintf_loop format args [])"

section \<open>Lengths\<close>

lemma pad_zeros_length [simp]: "length (pad_zeros s w) = max (length s) w"
  by (auto simp: pad_zeros_def)

lemma emit_digits_length: "length (emit_digits f ds st) \<le> length ds"
  by (induction f ds st rule: emit_digits.induct) auto

lemma dec_digits_length: "length (dec_digits ps v) = length ps"
  by (induction ps v rule: dec_digits.induct) (auto split: prod.splits)

lemma length_dec_powers: "length (dec_digits dec_powers v) = 10"
  unfolding dec_digits_length by (simp add: dec_powers_def)

lemma converter_lengths:
  "length (itodec v) \<le> 11" "length (itoudec v) \<le> 10" "length (itox v) \<le> 8" "length (itooct v) \<le> 11"
proof -
  have dec: "length (emit_digits f (dec_digits dec_powers u) False) \<le> 10" for f u
    using emit_digits_length [of f "dec_digits dec_powers u" False] by (simp only: length_dec_powers)
  show "length (itodec v) \<le> 11" "length (itoudec v) \<le> 10"
    using dec dec [THEN le_SucI] by (simp_all add: itodec_def itoudec_def)
  show "length (itox v) \<le> 8" "length (itooct v) \<le> 11"
    unfolding itox_def itooct_def by (auto intro!: le_trans [OF emit_digits_length])
qed

lemma converter_fits:
  "length (itodec v) \<le> 11" "length (itoudec v) \<le> 11" "length (itox v) \<le> 11" "length (itooct v) \<le> 11"
  using converter_lengths [of v] by linarith+

lemma fmt_number_ok:
  "length digits \<le> 11 \<Longrightarrow> \<not> z \<or> unat w < FMT_BUFFER \<Longrightarrow>
   fmt_number z w digits = Inr (if z \<and> sint w > 0 then pad_zeros digits (unat w) else digits)"
  by (auto simp: fmt_number_def FMT_BUFFER_def Let_def)

lemma fmt_convert_no_overflow:
  assumes "\<not> z \<or> unat w < FMT_BUFFER"
  shows "fmt_convert k z w args \<noteq> Some (Inl Buffer_overflow)"
  by (simp add: fmt_convert_def Let_def fmt_number_ok [OF _ assms] converter_fits split: list.splits fmt_arg.splits)

section \<open>Formats\<close>

text \<open>
  \<open>fmt_plain\<close>: every conversion of the format is one that both functions know, without a length
  modifier. \<open>fmt_widths\<close>: every zero-padded width fits the conversion buffer, every other width has at
  most nine digits.
\<close>

function fmt_plain :: "u8 list \<Rightarrow> bool" where
  "fmt_plain [] \<longleftrightarrow> True"
| "fmt_plain (c # f) \<longleftrightarrow>
     (if c = 0x25 then fmt_spec True f = fmt_spec False f \<and>
        (case fmt_spec False f of
           None \<Rightarrow> True
         | Some (z, w, k, rest) \<Rightarrow> fmt_convert k z w [] \<noteq> None \<and> fmt_plain rest)
      else fmt_plain f)"
  by pat_completeness auto
termination by (relation "measure length") (auto dest: fmt_spec_length)

function fmt_widths :: "u8 list \<Rightarrow> bool" where
  "fmt_widths [] \<longleftrightarrow> True"
| "fmt_widths (c # f) \<longleftrightarrow>
     (if c = 0x25 then
        (case fmt_spec True f of
           None \<Rightarrow> True
         | Some (z, w, k, rest) \<Rightarrow> (\<not> z \<or> unat w < FMT_BUFFER) \<and> length (itodec w) < 10 \<and> fmt_widths rest)
      else fmt_widths f)"
  by pat_completeness auto
termination by (relation "measure length") (auto dest: fmt_spec_length)

lemma fmt_convert_None: "fmt_convert k z w args = None \<longleftrightarrow> fmt_convert k z w [] = None"
  by (simp add: fmt_convert_def Let_def)

lemma printf_sprintf_loop:
  "fmt_plain f \<Longrightarrow> n = of_nat (length out) \<Longrightarrow>
   printf_loop f args out n = map_sum id (\<lambda>str. (str, of_nat (length str))) (sprintf_loop f args out)"
proof (induction f arbitrary: args out n rule: measure_induct_rule [of length])
  case (less f)
  show ?case
  proof (cases f)
    case (Cons c f')
    show ?thesis
    proof (cases "c = 0x25 \<and> fmt_spec True f' \<noteq> None")
      case True
      then obtain z w k rest where sp: "fmt_spec True f' = Some (z, w, k, rest)" by auto
      have sf: "fmt_spec False f' = Some (z, w, k, rest)"
        using less.prems(1) True Cons sp by (auto split: if_splits)
      then have pl: "fmt_plain rest" "fmt_convert k z w args \<noteq> None"
        using less.prems(1) True Cons fmt_convert_None [of k z w args] by auto
      have len: "length rest < length f" using fmt_spec_length [OF sp] Cons by simp
      from pl(2) obtain r where r: "fmt_convert k z w args = Some r" by blast
      have ih: "printf_loop rest a (out @ t) (n + of_nat (length t)) =
          map_sum id (\<lambda>str. (str, of_nat (length str))) (sprintf_loop rest a (out @ t))" for a t
        using less.prems(2) by (intro less.IH [OF len pl(1)]) simp
      show ?thesis
        using True Cons sp sf r ih by (cases r) (auto simp: id_def split: prod.splits)
    next
      case no_spec: False
      show ?thesis
      proof (cases "c = 0x25")
        case True
        then have "fmt_spec True f' = None" using no_spec by blast
        moreover have "fmt_spec True f' = fmt_spec False f'" using True less.prems(1) Cons by simp
        ultimately have "fmt_spec True f' = None" "fmt_spec False f' = None" by simp_all
        then show ?thesis using True Cons by simp
      next
        case False
        have "printf_loop f' args (out @ [c]) (n + 1) =
            map_sum id (\<lambda>str. (str, of_nat (length str))) (sprintf_loop f' args (out @ [c]))"
          using less.prems Cons False by (intro less.IH) simp_all
        then show ?thesis using False Cons by (simp add: id_def)
      qed
    qed
  qed (use less.prems in simp)
qed

lemma printf_no_overflow: "fmt_widths f \<Longrightarrow> printf_loop f args out n \<noteq> Inl Buffer_overflow"
proof (induction f arbitrary: args out n rule: measure_induct_rule [of length])
  case (less f)
  show ?case
  proof (cases f)
    case (Cons c f')
    show ?thesis
    proof (cases "c = 0x25 \<and> fmt_spec True f' \<noteq> None")
      case True
      then obtain z w k rest where sp: "fmt_spec True f' = Some (z, w, k, rest)" by auto
      have wd: "\<not> z \<or> unat w < FMT_BUFFER" "length (itodec w) < 10" "fmt_widths rest"
        using less.prems True Cons sp by auto
      have len: "length rest < length f" using fmt_spec_length [OF sp] Cons by simp
      show ?thesis
        using True Cons sp wd(2) less.IH [OF len wd(3)] fmt_convert_no_overflow [OF wd(1), of k args]
        by (auto split: option.splits sum.splits simp: Let_def)
    next
      case False
      then show ?thesis
        using less.IH [of f'] less.prems Cons by (cases "c = 0x25"; cases "fmt_spec True f'") auto
    qed
  qed simp
qed

section \<open>Properties\<close>

text \<open>For a format whose conversions both functions know, \<open>sprintf\<close> stores exactly the characters
  \<open>printf\<close> prints for the same arguments, with the same return value and the same errors.\<close>

theorem sprintf_agrees_with_printf:
  assumes "fmt_plain format"
  shows "sprintf format args = printf format args"
  using printf_sprintf_loop [OF assms, of 0 "[]" args] by (simp add: sprintf_def printf_def)

text \<open>C39: \<open>printf\<close> does not overflow its conversion buffers when every zero-padded width is below 32
  and every other width has at most nine digits.\<close>

theorem printf_buffer_safe:
  assumes "fmt_widths format"
  shows "printf format args \<noteq> Inl Buffer_overflow"
  using printf_no_overflow [OF assms] by (simp add: printf_def)

text \<open>A zero-padded width of 32 or more overflows the conversion buffer, whatever the number; here
  the format is a percent sign, 032 and d.\<close>

theorem printf_wide_overflow: "printf [0x25, 0x30, 0x33, 0x32, 0x64] [Int_arg v] = Inl Buffer_overflow"
  by (simp add: printf_def fmt_spec_def skip_l_def fmt_convert_def fmt_number_def FMT_BUFFER_def Let_def)

definition demo_format :: "u8 list" where
  "demo_format = [0x68, 0x69, 0x20, 0x25, 0x30, 0x34, 0x78, 0x2F, 0x25, 0x64]"

lemma replicate_2: "replicate 2 x = [x, x]"
  by (simp add: numeral_2_eq_2)

lemma demo_conversions: "itodec 7 = [0x37]" "itodec 4 = [0x34]" "itodec 0 = [0x30]" "itox 255 = [0x66, 0x66]"
  by (simp_all add: itodec_def dec_powers_def count_sub_eq itox_def digit_chars_def)

lemma demo_format_ok: "fmt_plain demo_format" "fmt_widths demo_format"
  by (simp_all add: demo_format_def fmt_spec_def skip_l_def fmt_convert_def FMT_BUFFER_def demo_conversions)

theorem sprintf_witness:
  "sprintf demo_format [Int_arg 255, Int_arg 7] = Inr ([0x68, 0x69, 0x20, 0x30, 0x30, 0x66, 0x66, 0x2F, 0x37], 9)"
  unfolding sprintf_agrees_with_printf [OF demo_format_ok(1)]
  by (simp add: printf_def demo_format_def fmt_spec_def skip_l_def fmt_convert_def fmt_number_def FMT_BUFFER_def
    Let_def pad_zeros_def demo_conversions replicate_2)

theorem printf_buffer_witness: "printf demo_format [Int_arg 255] \<noteq> Inl Buffer_overflow"
  using printf_buffer_safe [OF demo_format_ok(2)] .

end
