(* ===== verification/Libc_Scanf.thy ===== *)
theory Libc_Scanf
  imports Libc_Printf
begin

text \<open>
  \<open>sscanf\<close> (\<open>lib/libc/src/stdio/sscanf.c\<close>). The input and the format are the lists of their characters
  before the NUL, \<open>ch s 0\<close> being the NUL at the end; the pointer arguments are a list of addresses
  and what is assigned goes to the flat memory, high byte first. \<open>int\<close> and \<open>long\<close> have four bytes,
  \<open>short\<close> two, \<open>long long\<close> eight. An argument that is not there has no defined result: \<open>None\<close>. The
  width of a conversion is unbounded here; beyond \<open>INT_MAX\<close> its computation is undefined in C.
\<close>

section \<open>The code\<close>

datatype sc_len = L_HH | L_H | L_N | L_L | L_LL

definition SC_INT_MAX :: nat where "SC_INT_MAX = 2147483647"

definition sc_isspace :: "u8 \<Rightarrow> bool" where
  "sc_isspace c \<longleftrightarrow> c = 0x20 \<or> 0x09 \<le> c \<and> c \<le> 0x0D"

definition sc_isdigit :: "u8 \<Rightarrow> bool" where
  "sc_isdigit c \<longleftrightarrow> 0x30 \<le> c \<and> c \<le> 0x39"

definition sc_digval :: "u8 \<Rightarrow> int" where
  "sc_digval c =
     (if 0x30 \<le> c \<and> c \<le> 0x39 then uint c - 0x30
      else if 0x61 \<le> c \<and> c \<le> 0x66 then uint c - 0x61 + 10
      else if 0x41 \<le> c \<and> c \<le> 0x46 then uint c - 0x41 + 10
      else -1)"

fun sc_skip :: "u8 list \<Rightarrow> u8 list" where
  "sc_skip [] = []"
| "sc_skip (c # s) = (if sc_isspace c then sc_skip s else c # s)"

fun sc_width :: "u8 list \<Rightarrow> nat \<Rightarrow> nat \<times> u8 list" where
  "sc_width [] width = (width, [])"
| "sc_width (c # f) width = (if sc_isdigit c then sc_width f (width * 10 + (unat c - 0x30)) else (width, c # f))"

definition sc_modifier :: "u8 list \<Rightarrow> sc_len \<times> u8 list" where
  "sc_modifier f =
     (if ch f 0 = 0x68 then (if ch f 1 = 0x68 then (L_HH, drop 2 f) else (L_H, drop 1 f))
      else if ch f 0 = 0x6C then (if ch f 1 = 0x6C then (L_LL, drop 2 f) else (L_L, drop 1 f))
      else if ch f 0 = 0x7A \<or> ch f 0 = 0x6A \<or> ch f 0 = 0x74 then (L_L, drop 1 f)
      else (L_N, f))"

text \<open>The part of a conversion before its letter: suppression, width and length modifier.\<close>

definition sc_spec :: "u8 list \<Rightarrow> bool \<times> nat \<times> sc_len \<times> u8 list" where
  "sc_spec f =
     (let suppress = (ch f 0 = 0x2A);
          f = (if suppress then drop 1 f else f);
          (width, f) = sc_width f 0;
          (len, f) = sc_modifier f
      in (suppress, width, len, f))"

fun sc_size :: "sc_len \<Rightarrow> nat" where
  "sc_size L_HH = 1"
| "sc_size L_H = 2"
| "sc_size L_N = 4"
| "sc_size L_L = 4"
| "sc_size L_LL = 8"

definition be_bytes :: "nat \<Rightarrow> u64 \<Rightarrow> u8 list" where
  "be_bytes n v = map (\<lambda>i. ucast (drop_bit (8 * i) v)) (rev [0..<n])"

definition sc_store :: "mem \<Rightarrow> nat \<Rightarrow> nat \<Rightarrow> u64 \<Rightarrow> mem" where
  "sc_store m p n v = wr_bytes m p (be_bytes n v)"

text \<open>Case \<open>c\<close>: \<open>w\<close> characters, none of them the NUL; the flag tells whether they were all there.\<close>

fun sc_chars :: "nat \<Rightarrow> nat \<Rightarrow> mem \<Rightarrow> u8 list \<Rightarrow> mem \<times> u8 list \<times> bool" where
  "sc_chars 0 p m s = (m, s, True)"
| "sc_chars (Suc w) p m [] = (m, [], False)"
| "sc_chars (Suc w) p m (c # s) =
     (if p \<noteq> 0 then sc_chars w (p + 1) (m(p := c)) s else sc_chars w p m s)"

text \<open>Case \<open>s\<close>: a word of at most \<open>remaining\<close> characters, and a NUL after it.\<close>

fun sc_word :: "nat \<Rightarrow> nat \<Rightarrow> mem \<Rightarrow> u8 list \<Rightarrow> mem \<times> u8 list" where
  "sc_word 0 p m s = (if p \<noteq> 0 then m(p := 0) else m, s)"
| "sc_word (Suc r) p m [] = (if p \<noteq> 0 then m(p := 0) else m, [])"
| "sc_word (Suc r) p m (c # s) =
     (if sc_isspace c then (if p \<noteq> 0 then m(p := 0) else m, c # s)
      else if p \<noteq> 0 then sc_word r (p + 1) (m(p := c)) s
      else sc_word r p m s)"

fun sc_digits :: "int \<Rightarrow> nat \<Rightarrow> u8 list \<Rightarrow> u64 \<Rightarrow> nat \<Rightarrow> u64 \<times> u8 list \<times> nat" where
  "sc_digits b 0 s val ndig = (val, s, ndig)"
| "sc_digits b (Suc r) [] val ndig = (val, [], ndig)"
| "sc_digits b (Suc r) (c # s) val ndig =
     (let d = sc_digval c in
      if d \<ge> 0 \<and> d < b then sc_digits b r s (val * of_int b + of_int d) (ndig + 1)
      else (val, c # s, ndig))"

text \<open>The number of a case \<open>d\<close> to \<open>p\<close>; \<open>None\<close> when there is no digit.\<close>

definition sc_number :: "u8 \<Rightarrow> nat \<Rightarrow> u8 list \<Rightarrow> (u64 \<times> u8 list) option" where
  "sc_number conv remaining s =
     (let b = (if conv = 0x64 \<or> conv = 0x75 then 10 else if conv = 0x6F then 8 else if conv = 0x69 then 0 else 16);
          sign = ((ch s 0 = 0x2D \<or> ch s 0 = 0x2B) \<and> remaining > 1);
          neg = (sign \<and> ch s 0 = 0x2D);
          remaining = (if sign then remaining - 1 else remaining);
          s = (if sign then drop 1 s else s);
          hex = ((b = 0 \<or> b = 16) \<and> remaining \<ge> 3 \<and> ch s 0 = 0x30 \<and> (ch s 1 = 0x78 \<or> ch s 1 = 0x58) \<and>
                 sc_digval (ch s 2) \<ge> 0 \<and> sc_digval (ch s 2) < 16);
          remaining = (if hex then remaining - 2 else remaining);
          b = (if hex then 16 else if b = 0 then (if ch s 0 = 0x30 then 8 else 10) else b);
          s = (if hex then drop 2 s else s);
          (val, s, ndig) = sc_digits b remaining s 0 0
      in if ndig = 0 then None else Some (if neg then - val else val, s))"

text \<open>What one conversion does with the input: go on (memory, input, arguments, counted) or stop.\<close>

datatype sc_step = Sc_go mem "u8 list" "nat list" | Sc_done mem | Sc_noarg

definition sc_arg :: "bool \<Rightarrow> nat list \<Rightarrow> (nat \<times> nat list) option" where
  "sc_arg suppress ap = (if suppress then Some (0, ap) else case ap of [] \<Rightarrow> None | p # ap' \<Rightarrow> Some (p, ap'))"

definition sc_convert ::
    "u8 \<Rightarrow> bool \<Rightarrow> nat \<Rightarrow> sc_len \<Rightarrow> u8 list \<Rightarrow> mem \<Rightarrow> nat list \<Rightarrow> sc_step" where
  "sc_convert conv suppress width len s m ap =
     (let remaining = (if width = 0 then SC_INT_MAX else width) in
      if conv = 0x63 then
        (case sc_arg suppress ap of
           None \<Rightarrow> Sc_noarg
         | Some (p, ap') \<Rightarrow>
             (let (m', s', ok) = sc_chars (if width = 0 then 1 else width) p m s
              in if ok then Sc_go m' s' ap' else Sc_done m'))
      else if conv = 0x73 then
        (case sc_arg suppress ap of
           None \<Rightarrow> Sc_noarg
         | Some (p, ap') \<Rightarrow> (let (m', s') = sc_word remaining p m s in Sc_go m' s' ap'))
      else if conv \<in> {0x64, 0x69, 0x75, 0x6F, 0x78, 0x58, 0x70} then
        (case sc_number conv remaining s of
           None \<Rightarrow> Sc_done m
         | Some (val, s') \<Rightarrow>
             (if suppress then Sc_go m s' ap
              else case ap of
                [] \<Rightarrow> Sc_noarg
              | p # ap' \<Rightarrow> Sc_go (sc_store m p (if conv = 0x70 then 4 else sc_size len) val) s' ap'))
      else Sc_done m)"

lemma sc_width_length: "length (snd (sc_width f w)) \<le> length f"
  by (induction f w rule: sc_width.induct) auto

lemma sc_modifier_length: "length (snd (sc_modifier f)) \<le> length f"
  by (auto simp: sc_modifier_def)

lemma sc_spec_length: "sc_spec f = (sp, w, len, f') \<Longrightarrow> length f' \<le> length f"
  using sc_width_length [of f 0] sc_width_length [of "drop 1 f" 0]
  by (auto simp: sc_spec_def Let_def split: prod.splits if_splits)
    (metis sc_modifier_length snd_conv order_trans diff_le_self)+

function vsscanf_loop :: "u8 list \<Rightarrow> nat \<Rightarrow> u8 list \<Rightarrow> mem \<Rightarrow> nat list \<Rightarrow> int \<Rightarrow> (int \<times> mem) option" where
  "vsscanf_loop [] str_len s m ap cnt = Some (cnt, m)"
| "vsscanf_loop (c # f) str_len s m ap cnt =
     (if sc_isspace c then vsscanf_loop f str_len (sc_skip s) m ap cnt
      else if c \<noteq> 0x25 then
        (if ch s 0 \<noteq> c then Some (cnt, m) else vsscanf_loop f str_len (drop 1 s) m ap cnt)
      else
        (case sc_spec f of
           (_, _, _, []) \<Rightarrow> Some (cnt, m)
         | (suppress, width, len, conv # f') \<Rightarrow>
             (if conv = 0x25 then
                (if ch (sc_skip s) 0 \<noteq> 0x25 then Some (cnt, m)
                 else vsscanf_loop f' str_len (drop 1 (sc_skip s)) m ap cnt)
              else if conv = 0x6E then
                (if suppress then vsscanf_loop f' str_len s m ap cnt
                 else case ap of
                   [] \<Rightarrow> None
                 | p # ap' \<Rightarrow> vsscanf_loop f' str_len s
                     (sc_store m p (sc_size len) (of_nat (str_len - length s))) ap' cnt)
              else
                (let s' = (if conv \<noteq> 0x63 then sc_skip s else s) in
                 if s' = [] then Some (if cnt = 0 then -1 else cnt, m)
                 else
                   (case sc_convert conv suppress width len s' m ap of
                      Sc_noarg \<Rightarrow> None
                    | Sc_done m' \<Rightarrow> Some (cnt, m')
                    | Sc_go m' s'' ap' \<Rightarrow> vsscanf_loop f' str_len s'' m' ap' (if suppress then cnt else cnt + 1))))))"
  by pat_completeness auto
termination
  by (relation "measure (\<lambda>(f, _). length f)") (auto dest!: sc_spec_length [OF sym])

definition vsscanf :: "u8 list \<Rightarrow> u8 list \<Rightarrow> nat list \<Rightarrow> mem \<Rightarrow> (int \<times> mem) option" where
  "vsscanf str fmt ap m = vsscanf_loop fmt (length str) str m ap 0"

definition sscanf :: "u8 list \<Rightarrow> u8 list \<Rightarrow> nat list \<Rightarrow> mem \<Rightarrow> (int \<times> mem) option" where
  "sscanf str fmt args m = vsscanf str fmt args m"


section \<open>Numbers\<close>

lemma digval_facts: "\<forall>d \<in> set [0..<16]. sc_digval (dch d) = int d \<and> \<not> sc_isspace (dch d)"
  by code_simp

lemma digval_dch: "d < 16 \<Longrightarrow> sc_digval (dch d) = int d \<and> \<not> sc_isspace (dch d)"
  using digval_facts by simp

lemma sc_digits_dch:
  "\<forall>d \<in> set ds. d < b \<Longrightarrow> b \<le> 16 \<Longrightarrow> length ds \<le> r \<Longrightarrow>
   sc_digits (int b) r (map dch ds) v n = (v * of_nat b ^ length ds + of_nat (digits_val b ds), [], n + length ds)"
proof (induction ds arbitrary: r v n)
  case Nil
  then show ?case by (cases r) simp_all
next
  case (Cons d ds)
  then obtain r' where r: "r = Suc r'" by (cases r) auto
  have d: "sc_digval (dch d) = int d" using Cons.prems digval_dch by auto
  show ?case using Cons d by (simp add: r algebra_simps)
qed

lemma sc_number_plain:
  assumes "conv \<in> {0x64, 0x75, 0x78, 0x6F}" "b = (if conv = 0x6F then 8 else if conv = 0x78 then 16 else 10)"
    "conv_digits b v ds" "length ds < SC_INT_MAX" "neg \<longrightarrow> conv = 0x64"
  shows "sc_number conv SC_INT_MAX ((if neg then [0x2D] else []) @ map dch ds) =
    Some (if neg then - of_nat (unat v) else of_nat (unat v), [])"
proof -
  have b: "b \<le> 16" "2 \<le> b" using assms(2) by auto
  have ds: "ds \<noteq> []" "\<forall>d \<in> set ds. d < b" "digits_val b ds = unat v" using assms(3) by (auto simp: conv_digits_def)
  then obtain d ds' where dds: "ds = d # ds'" by (cases ds) auto
  have d: "d < 36" using ds(2) b dds by auto
  have x: "ch (map dch ds) 1 \<notin> {0x78, 0x58}"
    using ds(2) b dch_not_x by (cases ds') (auto simp: ch_def dds)
  have plain: "ch (map dch ds) 0 \<noteq> 0x2D" "ch (map dch ds) 0 \<noteq> 0x2B" using dch_plain [OF d] by (simp_all add: dds ch_def)
  have loop: "length ds \<le> r \<Longrightarrow> sc_digits (int b) r (map dch ds) 0 0 = (of_nat (unat v), [], length ds)" for r
    using sc_digits_dch [OF ds(2) b(1)] ds(3) by simp
  have base: "(if conv = 0x64 \<or> conv = 0x75 then 10 else if conv = 0x6F then 8 else if conv = 0x69 then 0 else 16) = int b"
    using assms(1,2) by auto
  show ?thesis
  proof (cases neg)
    case True
    have "ch (0x2D # map dch ds) 0 = 0x2D" by (simp add: ch_def)
    then show ?thesis unfolding sc_number_def base using loop [of "SC_INT_MAX - 1"] ds(1) assms(4) x b True
      by (simp add: Let_def SC_INT_MAX_def)
  next
    case False
    then show ?thesis unfolding sc_number_def base using loop [of SC_INT_MAX] ds(1) assms(4) x b plain
      by (simp add: Let_def)
  qed
qed

lemma be_bytes_low:
  assumes "take_bit 32 (v :: u64) = take_bit 32 w"
  shows "be_bytes 4 v = be_bytes 4 w"
proof -
  have "(ucast (drop_bit (8 * i) v) :: u8) = ucast (drop_bit (8 * i) w)" if "i < 4" for i
  proof (rule bit_eqI)
    fix n assume "possible_bit TYPE(u8) n"
    then have n: "n < 8" by (simp add: possible_bit_word)
    have "bit (take_bit 32 v) (8 * i + n) = bit (take_bit 32 w) (8 * i + n)" using assms by simp
    then show "bit (ucast (drop_bit (8 * i) v) :: u8) n = bit (ucast (drop_bit (8 * i) w) :: u8) n"
      using that n by (simp add: bit_simps)
  qed
  then show ?thesis by (simp add: be_bytes_def)
qed

lemma low_of_nat: "take_bit 32 (of_nat (unat (v :: u32)) :: u64) = take_bit 32 (ucast v)"
  by simp

lemma low_minus: "take_bit 32 (- of_nat (unat (- v :: u32)) :: u64) = take_bit 32 (ucast v)"
proof -
  have "take_bit 32 (- ucast (- v) :: u64) = take_bit 32 (ucast v)"
    by transfer (simp add: take_bit_minus)
  then show ?thesis by simp
qed

definition conv_text :: "u8 \<Rightarrow> u32 \<Rightarrow> u8 list" where
  "conv_text k v = (if k = 0x64 then itodec v else if k = 0x75 then itoudec v else if k = 0x78 then itox v else itooct v)"

lemma conv_text_digits:
  assumes "k \<in> {0x64, 0x75, 0x78, 0x6F}"
  shows "\<exists>ds neg u. conv_text k v = (if neg then [0x2D] else []) @ map dch ds \<and> (neg \<longrightarrow> k = 0x64) \<and>
    conv_digits (if k = 0x6F then 8 else if k = 0x78 then 16 else 10) u ds \<and> u = (if neg then - v else v)"
proof (cases "k = 0x64")
  case True
  then show ?thesis using itodec_digits [of v]
    by (auto simp: conv_text_def intro!: exI [of _ "sint v < 0"])
next
  case False
  then show ?thesis using assms itoudec_digits [of v] itox_digits [of v] itooct_digits [of v]
    by (auto simp: conv_text_def intro!: exI [of _ False])
qed

lemma conv_text_length: "length (conv_text k v) < FMT_BUFFER"
  using converter_fits [of v] by (simp add: conv_text_def FMT_BUFFER_def)

lemma sprintf_number:
  assumes "k \<in> {0x64, 0x75, 0x78, 0x6F}"
  shows "sprintf [0x25, k] [Int_arg v] = Inr (conv_text k v, of_nat (length (conv_text k v)))"
  using assms conv_text_length [of k v]
  by (auto simp: sprintf_def fmt_spec_def fmt_convert_def fmt_number_def conv_text_def Let_def)

lemma sc_spec_plain: "k \<in> {0x64, 0x75, 0x78, 0x6F, 0x73} \<Longrightarrow> sc_spec [k] = (False, 0, L_N, [k])"
  by (auto simp: sc_spec_def ch_def sc_isdigit_def sc_modifier_def)

lemma sscanf_number:
  assumes "k \<in> {0x64, 0x75, 0x78, 0x6F}"
  shows "sscanf (conv_text k v) [0x25, k] [p] m = Some (1, wr_bytes m p (be_bytes 4 (ucast v)))"
proof -
  let ?b = "if k = 0x6F then 8 else if k = 0x78 then 16 else 10 :: nat"
  obtain ds neg u where t: "conv_text k v = (if neg then [0x2D] else []) @ map dch ds" "neg \<longrightarrow> k = 0x64"
    "conv_digits ?b u ds" "u = (if neg then - v else v)"
    using conv_text_digits [OF assms] by blast
  obtain d ds' where ds: "ds = d # ds'" using t(3) by (cases ds) (auto simp: conv_digits_def)
  have d: "d < 16" using t(3) ds by (auto simp: conv_digits_def split: if_splits)
  have skip: "sc_skip (conv_text k v) = conv_text k v" "conv_text k v \<noteq> []"
    using digval_dch [OF d] unfolding t(1) ds by (auto simp: sc_isspace_def)
  have "length ds < SC_INT_MAX"
    using conv_text_length [of k v] t(1) by (auto simp: FMT_BUFFER_def SC_INT_MAX_def split: if_splits)
  then have num: "sc_number k SC_INT_MAX (conv_text k v) = Some (if neg then - of_nat (unat u) else of_nat (unat u), [])"
    using sc_number_plain [OF assms refl t(3) _ t(2)] unfolding t(1) by blast
  have "take_bit 32 (if neg then - of_nat (unat u) else of_nat (unat u) :: u64) = take_bit 32 (ucast v)"
    unfolding t(4) using low_of_nat [of v] low_minus [of v] by simp
  then have st: "sc_store m p 4 (if neg then - of_nat (unat u) else of_nat (unat u)) = wr_bytes m p (be_bytes 4 (ucast v))"
    unfolding sc_store_def using be_bytes_low by metis
  have "\<not> sc_isspace 0x25" by (simp add: sc_isspace_def)
  moreover have "sc_convert k False 0 L_N (conv_text k v) m [p] = Sc_go (wr_bytes m p (be_bytes 4 (ucast v))) [] []"
    using assms num st by (auto simp: sc_convert_def)
  ultimately show ?thesis using assms skip sc_spec_plain [of k]
    by (auto simp: sscanf_def vsscanf_def)
qed

section \<open>Words\<close>

lemma sc_word_eq:
  "p \<noteq> 0 \<Longrightarrow> sc_word r p m s =
     (let w = take r (takeWhile (\<lambda>c. \<not> sc_isspace c) s) in (wr_bytes m p (w @ [0]), drop (length w) s))"
proof (induction r p m s rule: sc_word.induct)
  case (3 r p m c s)
  then show ?case by (auto simp: Let_def)
qed (auto simp: Let_def)

lemma sc_width_dch:
  "\<forall>d \<in> set ds. d < 10 \<Longrightarrow> sc_width (map dch ds @ [0x73]) w = (w * 10 ^ length ds + digits_val 10 ds, [0x73])"
proof (induction ds arbitrary: w)
  case Nil
  then show ?case by (simp add: sc_isdigit_def)
next
  case (Cons d ds)
  then have d: "d < 10" by simp
  then have "unat (of_nat d :: u8) = d" by (simp add: of_nat_inverse)
  then have "unat (0x30 + of_nat d :: u8) = 0x30 + d" using d by (simp add: unat_word_ariths)
  then have "sc_isdigit (dch d)" "unat (dch d) - 0x30 = d"
    using d dch_decimal [OF d, symmetric] by (simp_all add: sc_isdigit_def word_le_nat_alt)
  then show ?case using Cons by (simp add: algebra_simps)
qed

lemma sc_skip_head: "sc_skip s = c # t \<Longrightarrow> \<not> sc_isspace c"
  by (induction s) (auto split: if_splits)

lemma sc_skip_dropWhile: "sc_skip s = dropWhile sc_isspace s"
  by (induction s) auto

section \<open>Counts\<close>

lemma sc_convert_args:
  "sc_convert conv sp w len s m ap = Sc_go m' s' ap' \<Longrightarrow> length ap = length ap' + (if sp then 0 else 1)"
  by (auto simp: sc_convert_def sc_arg_def Let_def split: if_splits option.splits prod.splits list.splits)

lemma vsscanf_count:
  "vsscanf_loop f n s m ap cnt = Some (r, m') \<Longrightarrow> 0 \<le> cnt \<Longrightarrow>
   (cnt \<le> r \<or> cnt = 0 \<and> r = -1) \<and> r \<le> cnt + int (length ap)"
proof (induction f n s m ap cnt arbitrary: r rule: vsscanf_loop.induct)
  case (2 c f n s m ap cnt)
  obtain sp w len g where spec: "sc_spec f = (sp, w, len, g)" by (metis prod_cases4)
  show ?case
  proof (cases "sc_isspace c \<or> c \<noteq> 0x25")
    case True
    then show ?thesis using 2 by (auto split: if_splits)
  next
    case False
    show ?thesis
    proof (cases g)
      case Nil
      then show ?thesis using 2(7,8) False spec by auto
    next
      case (Cons conv f')
      note IH = 2(3-6) [OF _ _ spec [symmetric] refl refl Cons]
      let ?s = "if conv \<noteq> 0x63 then sc_skip s else s"
      consider "conv = 0x25" | "conv = 0x6E" | "conv \<noteq> 0x25" "conv \<noteq> 0x6E" "?s = []"
        | "conv \<noteq> 0x25" "conv \<noteq> 0x6E" "?s \<noteq> []" by blast
      then show ?thesis
      proof cases
        case 1
        then show ?thesis using 2(7,8) False spec Cons IH(1) by (simp split: if_splits)
      next
        case 2
        then show ?thesis using \<open>vsscanf_loop (c # f) n s m ap cnt = Some (r, m')\<close> \<open>0 \<le> cnt\<close> False spec Cons IH(2,3)
          by (fastforce split: if_splits list.splits)
      next
        case 3
        then show ?thesis using 2(7,8) False spec Cons by (auto split: if_splits)
      next
        case 4
        note go = IH(4) [OF _ _ 4(1,2) refl 4(3)]
        have "c = 0x25" "\<not> sc_isspace 0x25" using False by (auto simp: sc_isspace_def)
        then have run: "vsscanf_loop (c # f) n s m ap cnt =
            (case sc_convert conv sp w len ?s m ap of Sc_noarg \<Rightarrow> None | Sc_done m' \<Rightarrow> Some (cnt, m')
             | Sc_go m1 s1 ap1 \<Rightarrow> vsscanf_loop f' n s1 m1 ap1 (if sp then cnt else cnt + 1))"
          using 4 by (simp only: vsscanf_loop.simps spec Cons prod.case list.case if_False if_True simp_thms Let_def refl)
        show ?thesis
        proof (cases "sc_convert conv sp w len ?s m ap")
          case (Sc_go m1 s1 ap1)
          then have "vsscanf_loop f' n s1 m1 ap1 (if sp then cnt else cnt + 1) = Some (r, m')"
            using 2(7) unfolding run by simp
          then show ?thesis using go [OF _ _ Sc_go] False 2(8) sc_convert_args [OF Sc_go] by (auto split: if_splits)
        qed (use 2(7,8) run in simp_all)
      qed
    qed
  qed
qed simp

section \<open>Properties\<close>

text \<open>C27: \<open>sprintf\<close> and \<open>sscanf\<close> are inverse on the conversions \<open>%d\<close>, \<open>%u\<close>, \<open>%x\<close> and \<open>%o\<close>: what the one
  writes for any 32-bit value, the other reads back and stores at the address given to it, high byte
  first, and it counts one assignment.\<close>

theorem sprintf_sscanf_roundtrip:
  assumes "k \<in> {0x64, 0x75, 0x78, 0x6F}"
  shows "\<exists>text n. sprintf [0x25, k] [Int_arg v] = Inr (text, n) \<and>
    sscanf text [0x25, k] [p] m = Some (1, wr_bytes m p (be_bytes 4 (ucast v)))"
  using sprintf_number [OF assms] sscanf_number [OF assms] by blast

text \<open>\<open>%<w>s\<close> skips the white space and stores the next word cut to \<open>w\<close> characters with a NUL after
  it, so it writes at most \<open>w + 1\<close> bytes; with nothing but white space left it stores nothing and returns
  -1.\<close>

theorem sscanf_word_bounded:
  assumes "w \<noteq> 0" "p \<noteq> 0"
  shows "sscanf str (0x25 # itoudec w @ [0x73]) [p] m =
    (let s = dropWhile sc_isspace str; word = take (unat w) (takeWhile (\<lambda>c. \<not> sc_isspace c) s)
     in if s = [] then Some (-1, m) else Some (1, wr_bytes m p (word @ [0])))"
proof -
  obtain ds where ds: "itoudec w = map dch ds" "conv_digits 10 w ds" using itoudec_digits by blast
  have "digits_val 10 ds = unat w" "\<forall>d \<in> set ds. d < 10" using ds(2) by (auto simp: conv_digits_def)
  then have wd: "sc_width (itoudec w @ [0x73]) 0 = (unat w, [0x73])" unfolding ds(1) using sc_width_dch by simp
  obtain d ds' where dds: "ds = d # ds'" using ds(2) by (cases ds) (auto simp: conv_digits_def)
  have "d < 10" using ds(2) dds by (auto simp: conv_digits_def)
  then have "ch (itoudec w @ [0x73]) 0 = 0x30 + of_nat d" unfolding ds(1) dds using dch_decimal by (simp add: ch_def)
  moreover have "(0x30 + of_nat d :: u8) \<noteq> 0x2A"
  proof -
    have "\<forall>d \<in> set [0..<10]. (0x30 + of_nat d :: u8) \<noteq> 0x2A" by code_simp
    then show ?thesis using \<open>d < 10\<close> by simp
  qed
  ultimately have spec: "sc_spec (itoudec w @ [0x73]) = (False, unat w, L_N, [0x73])"
    using wd by (simp add: sc_spec_def sc_modifier_def ch_def)
  have "unat w \<noteq> 0" using assms(1) by (simp add: unat_eq_0)
  then show ?thesis
    using assms(2) spec
    by (auto simp: sscanf_def vsscanf_def sc_isspace_def [of "0x25"] Let_def sc_skip_dropWhile sc_convert_def sc_arg_def sc_word_eq)
qed

text \<open>\<open>sscanf\<close> never counts more assignments than it was given pointers, and the only negative value
  it returns is -1.\<close>

theorem sscanf_count_bounds:
  assumes "sscanf str fmt args m = Some (r, m')"
  shows "-1 \<le> r \<and> r \<le> int (length args)"
  using vsscanf_count [of fmt "length str" str m args 0 r m'] assms by (auto simp: sscanf_def vsscanf_def)

section \<open>Witnesses\<close>

theorem sprintf_sscanf_witness:
  "\<exists>text n. sprintf [0x25, 0x64] [Int_arg (- 42)] = Inr (text, n) \<and>
    sscanf text [0x25, 0x64] [100] (\<lambda>_. 0) = Some (1, wr_bytes (\<lambda>_. 0) 100 (be_bytes 4 (ucast (- 42 :: u32))))"
  using sprintf_sscanf_roundtrip [of "0x64" "- 42" 100 "\<lambda>_. 0"] by simp

theorem sscanf_word_witness:
  "sscanf [0x20, 0x61, 0x62, 0x63, 0x64] (0x25 # itoudec 2 @ [0x73]) [100] (\<lambda>_. 7) =
    Some (1, wr_bytes (\<lambda>_. 7) 100 [0x61, 0x62, 0])"
  using sscanf_word_bounded [of 2 100 "[0x20, 0x61, 0x62, 0x63, 0x64]" "\<lambda>_. 7"]
  by (simp add: sc_isspace_def)

theorem sscanf_count_witness: "\<exists>r m'. sscanf (conv_text 0x64 7) [0x25, 0x64] [100] (\<lambda>_. 0) = Some (r, m') \<and> r \<le> 1"
  using sscanf_count_bounds [OF sscanf_number [of "0x64" 7 100 "\<lambda>_. 0"]] sscanf_number [of "0x64" 7 100 "\<lambda>_. 0"] by auto

end
