(* ===== verification/Libc_Qsort.thy ===== *)
theory Libc_Qsort
  imports Libc_String "HOL-Library.Monad_Syntax" "HOL-Library.Multiset"
begin

text \<open>
  \<open>libc/src/stdlib/qsort.c\<close>: Bentley and McIlroy's quicksort, in the version with a stack of eight pending
  parts before it calls itself. The array is \<open>n\<close> elements of \<open>es\<close> bytes in memory. The comparison is a
  parameter, a function of the two elements; the locale \<open>comparison\<close> says that it is one for a total order
  up to equivalence, and \<open>memcmp\<close> is its instance. The array lies in the address space, so no pointer wraps.
\<close>

section \<open>Exchanging elements\<close>

type_synonym elem_cmp = "u8 list \<Rightarrow> u8 list \<Rightarrow> int"

definition sizeof_long :: nat where "sizeof_long = 4"

text \<open>\<open>swapcode\<close>: \<open>k\<close> units of \<open>u\<close> bytes; the loop of the macro tests after its body.\<close>

fun swap_units :: "nat \<Rightarrow> nat \<Rightarrow> nat \<Rightarrow> nat \<Rightarrow> mem \<Rightarrow> mem" where
  "swap_units u pi pj 0 m = m"
| "swap_units u pi pj (Suc k) m =
     (let t = rd_bytes m pi u;
          m = wr_bytes m pi (rd_bytes m pj u);
          m = wr_bytes m pj t
      in swap_units u (pi + u) (pj + u) k m)"

definition swapcode :: "nat \<Rightarrow> nat \<Rightarrow> nat \<Rightarrow> nat \<Rightarrow> mem \<Rightarrow> mem" where
  "swapcode u parmi parmj n m = swap_units u parmi parmj (if n div u = 0 then 1 else n div u) m"

definition swapfunc :: "nat \<Rightarrow> nat \<Rightarrow> nat \<Rightarrow> nat \<Rightarrow> mem \<Rightarrow> mem" where
  "swapfunc a b n swaptype m = (if swaptype \<le> 1 then swapcode sizeof_long a b n m else swapcode 1 a b n m)"

definition swap_type :: "nat \<Rightarrow> nat \<Rightarrow> nat" where
  "swap_type a es =
     (if a mod sizeof_long \<noteq> 0 \<or> es mod sizeof_long \<noteq> 0 then 2 else if es = sizeof_long then 0 else 1)"

definition swap_elems :: "nat \<Rightarrow> nat \<Rightarrow> nat \<Rightarrow> nat \<Rightarrow> mem \<Rightarrow> mem" where
  "swap_elems es swaptype a b m =
     (if swaptype = 0 then
        (let t = rd_bytes m a sizeof_long; m = wr_bytes m a (rd_bytes m b sizeof_long) in wr_bytes m b t)
      else swapfunc a b es swaptype m)"

definition vecswap :: "nat \<Rightarrow> nat \<Rightarrow> nat \<Rightarrow> nat \<Rightarrow> mem \<Rightarrow> mem" where
  "vecswap swaptype a b n m = (if n > 0 then swapfunc a b n swaptype m else m)"

section \<open>The sort\<close>

definition CMP :: "elem_cmp \<Rightarrow> nat \<Rightarrow> mem \<Rightarrow> nat \<Rightarrow> nat \<Rightarrow> int" where
  "CMP cmp es m x y = cmp (rd_bytes m x es) (rd_bytes m y es)"

definition med3 :: "elem_cmp \<Rightarrow> nat \<Rightarrow> mem \<Rightarrow> nat \<Rightarrow> nat \<Rightarrow> nat \<Rightarrow> nat" where
  "med3 cmp es m a b c =
     (if CMP cmp es m a b < 0 then
        (if CMP cmp es m b c < 0 then b else if CMP cmp es m a c < 0 then c else a)
      else
        (if CMP cmp es m b c > 0 then b else if CMP cmp es m a c < 0 then a else c))"

partial_function (option) isort_inner ::
    "elem_cmp \<Rightarrow> nat \<Rightarrow> nat \<Rightarrow> nat \<Rightarrow> nat \<Rightarrow> mem \<Rightarrow> mem option" where
  "isort_inner cmp es st a pl m =
     (if pl > a \<and> CMP cmp es m (pl - es) pl > 0
      then isort_inner cmp es st a (pl - es) (swap_elems es st pl (pl - es) m)
      else Some m)"

declare isort_inner.simps [code]

partial_function (option) isort_outer ::
    "elem_cmp \<Rightarrow> nat \<Rightarrow> nat \<Rightarrow> nat \<Rightarrow> nat \<Rightarrow> nat \<Rightarrow> mem \<Rightarrow> mem option" where
  "isort_outer cmp es st a n pm m =
     (if pm < a + n * es
      then do { m \<leftarrow> isort_inner cmp es st a pm m; isort_outer cmp es st a n (pm + es) m }
      else Some m)"

declare isort_outer.simps [code]

definition insertion_sort :: "elem_cmp \<Rightarrow> nat \<Rightarrow> nat \<Rightarrow> nat \<Rightarrow> nat \<Rightarrow> mem \<Rightarrow> mem option" where
  "insertion_sort cmp es st a n m = isort_outer cmp es st a n (a + es) m"

definition select_pivot :: "elem_cmp \<Rightarrow> nat \<Rightarrow> nat \<Rightarrow> nat \<Rightarrow> mem \<Rightarrow> nat" where
  "select_pivot cmp es a n m =
     (let pm = a + (n div 2) * es in
      if n > 7 then
        (let pl = a; pn = a + (n - 1) * es in
         if n > 40 then
           (let d = (n div 8) * es;
                pl = med3 cmp es m pl (pl + d) (pl + 2 * d);
                pm = med3 cmp es m (pm - d) pm (pm + d);
                pn = med3 cmp es m (pn - 2 * d) (pn - d) pn
            in med3 cmp es m pl pm pn)
         else med3 cmp es m pl pm pn)
      else pm)"

text \<open>The variables of the partition.\<close>

record part_state =
  pt_pa :: nat
  pt_pb :: nat
  pt_pc :: nat
  pt_pd :: nat
  swap_cnt :: nat
  pt_mem :: mem

partial_function (option) scan_left :: "elem_cmp \<Rightarrow> nat \<Rightarrow> nat \<Rightarrow> nat \<Rightarrow> part_state \<Rightarrow> part_state option" where
  "scan_left cmp es st a s =
     (if pt_pb s \<le> pt_pc s then
        (let cmp_result = CMP cmp es (pt_mem s) (pt_pb s) a in
         if cmp_result \<le> 0 then
           (let s = (if cmp_result = 0
                     then s\<lparr>swap_cnt := 1, pt_mem := swap_elems es st (pt_pa s) (pt_pb s) (pt_mem s), pt_pa := pt_pa s + es\<rparr>
                     else s)
            in scan_left cmp es st a (s\<lparr>pt_pb := pt_pb s + es\<rparr>))
         else Some s)
      else Some s)"

declare scan_left.simps [code]

partial_function (option) scan_right :: "elem_cmp \<Rightarrow> nat \<Rightarrow> nat \<Rightarrow> nat \<Rightarrow> part_state \<Rightarrow> part_state option" where
  "scan_right cmp es st a s =
     (if pt_pb s \<le> pt_pc s then
        (let cmp_result = CMP cmp es (pt_mem s) (pt_pc s) a in
         if cmp_result \<ge> 0 then
           (let s = (if cmp_result = 0
                     then s\<lparr>swap_cnt := 1, pt_mem := swap_elems es st (pt_pc s) (pt_pd s) (pt_mem s), pt_pd := pt_pd s - es\<rparr>
                     else s)
            in scan_right cmp es st a (s\<lparr>pt_pc := pt_pc s - es\<rparr>))
         else Some s)
      else Some s)"

declare scan_right.simps [code]

partial_function (option) partition_loop :: "elem_cmp \<Rightarrow> nat \<Rightarrow> nat \<Rightarrow> nat \<Rightarrow> part_state \<Rightarrow> part_state option" where
  "partition_loop cmp es st a s =
     do {
       s \<leftarrow> scan_left cmp es st a s;
       s \<leftarrow> scan_right cmp es st a s;
       if pt_pb s > pt_pc s then Some s
       else partition_loop cmp es st a
         (s\<lparr>pt_mem := swap_elems es st (pt_pb s) (pt_pc s) (pt_mem s), swap_cnt := 1,
            pt_pb := pt_pb s + es, pt_pc := pt_pc s - es\<rparr>)
     }"

declare partition_loop.simps [code]

definition partition_array :: "elem_cmp \<Rightarrow> nat \<Rightarrow> nat \<Rightarrow> nat \<Rightarrow> nat \<Rightarrow> mem \<Rightarrow> part_state option" where
  "partition_array cmp es st a n m =
     (let m = swap_elems es st a (select_pivot cmp es a n m) m in
      partition_loop cmp es st a
        \<lparr>pt_pa = a + es, pt_pb = a + es, pt_pc = a + (n - 1) * es, pt_pd = a + (n - 1) * es, swap_cnt = 0, pt_mem = m\<rparr>)"

text \<open>The equal elements go to the middle. The result: memory, and the sizes in bytes of the two outer parts.\<close>

definition gather_equal :: "nat \<Rightarrow> nat \<Rightarrow> nat \<Rightarrow> nat \<Rightarrow> part_state \<Rightarrow> mem \<times> nat \<times> nat" where
  "gather_equal es st a n s =
     (let pa = pt_pa s; pb = pt_pb s; pc = pt_pc s; pd = pt_pd s;
          pn = a + n * es;
          r = (if pa - a < pb - pa then pa - a else pb - pa);
          m = vecswap st a (pb - r) r (pt_mem s);
          r = (if pd - pc < pn - pd - es then pd - pc else pn - pd - es);
          m = vecswap st pb (pn - r) r m
      in (m, pb - pa, pd - pc))"

definition PARAMETER_STACK_LEVELS :: nat where "PARAMETER_STACK_LEVELS = 8"

text \<open>
  The label \<open>loop\<close>: the head of the list is the part being sorted, \<open>(a, n)\<close>, and the rest is
  \<open>parameter_stack\<close>, the latest first; \<open>pop\<close> goes on with the rest.
\<close>

partial_function (option) qsort_loop ::
    "elem_cmp \<Rightarrow> nat \<Rightarrow> nat \<Rightarrow> (nat \<times> nat) list \<Rightarrow> mem \<Rightarrow> mem option" where
  "qsort_loop cmp es st parts m =
     (case parts of
        [] \<Rightarrow> Some m
      | (a, n) # stack \<Rightarrow>
          if n < 7 then do { m \<leftarrow> insertion_sort cmp es st a n m; qsort_loop cmp es st stack m }
          else do {
            s \<leftarrow> partition_array cmp es st a n m;
            if swap_cnt s = 0 then do { m \<leftarrow> insertion_sort cmp es st a n (pt_mem s); qsort_loop cmp es st stack m }
            else
              (let (m, d, r) = gather_equal es st a n s;
                   pn = a + n * es - r;
                   (a, n, pa, r) = (if r > d then (pn, r, a, d) else (a, d, pn, r))
               in if r > es \<and> length stack < PARAMETER_STACK_LEVELS
                  then qsort_loop cmp es st ((pa, r div es) # (a, n div es) # stack) m
                  else do {
                    m \<leftarrow> (if r > es then qsort_loop cmp es (swap_type pa es) [(pa, r div es)] m else Some m);
                    if n > es then qsort_loop cmp es st ((a, n div es) # stack) m
                    else qsort_loop cmp es st stack m
                  })
          })"

declare qsort_loop.simps [code]

definition qsort :: "elem_cmp \<Rightarrow> nat \<Rightarrow> nat \<Rightarrow> nat \<Rightarrow> mem \<Rightarrow> mem option" where
  "qsort cmp a n es m = qsort_loop cmp es (swap_type a es) [(a, n)] m"

section \<open>Exchanges as permutations of the elements\<close>

definition blockswap :: "nat \<Rightarrow> nat \<Rightarrow> nat \<Rightarrow> mem \<Rightarrow> mem" where
  "blockswap a b n m = (\<lambda>q. if a \<le> q \<and> q < a + n then m (q - a + b)
     else if b \<le> q \<and> q < b + n then m (q - b + a) else m q)"

lemma blockswap_0 [simp]: "blockswap a b 0 m = m"
  by (rule ext) (auto simp: blockswap_def)

lemma blockswap_same [simp]: "blockswap a a n m = m"
  by (rule ext) (auto simp: blockswap_def)

lemma blockswap_add:
  assumes "apart a (u + w) b (u + w)"
  shows "blockswap (a + u) (b + u) w (blockswap a b u m) = blockswap a b (u + w) m"
proof (rule ext)
  fix q
  have "q - (x + u) + (y + u) = q - x + y" if "x + u \<le> q" for x y using that by simp
  then show "blockswap (a + u) (b + u) w (blockswap a b u m) q = blockswap a b (u + w) m q"
    using assms unfolding blockswap_def apart_def by (elim disjE) auto
qed

lemma exchange_eq:
  "a = b \<or> apart a n b n \<Longrightarrow> wr_bytes (wr_bytes m a (rd_bytes m b n)) b (rd_bytes m a n) = blockswap a b n m"
  by (rule ext) (auto simp: blockswap_def wr_bytes_apply apart_def add.commute)

lemma swap_units_eq:
  "a = b \<or> apart a (k * u) b (k * u) \<Longrightarrow> swap_units u a b k m = blockswap a b (k * u) m"
proof (induction k arbitrary: a b m)
  case 0
  then show ?case by simp
next
  case (Suc k)
  have "a = b \<or> apart a u b u" "a + u = b + u \<or> apart (a + u) (k * u) (b + u) (k * u)"
    using Suc.prems by (auto simp: apart_def)
  then have "swap_units u a b (Suc k) m = blockswap (a + u) (b + u) (k * u) (blockswap a b u m)"
    by (simp add: Let_def exchange_eq Suc.IH)
  also have "\<dots> = blockswap a b (Suc k * u) m"
    using Suc.prems blockswap_add [of a u "k * u" b m] by auto
  finally show ?case .
qed

definition valid_type :: "nat \<Rightarrow> nat \<Rightarrow> bool" where
  "valid_type st es \<longleftrightarrow> (st \<le> 1 \<longrightarrow> 4 dvd es) \<and> (st = 0 \<longrightarrow> es = 4)"

lemma swap_type_valid: "valid_type (swap_type a es) es"
  by (auto simp: valid_type_def swap_type_def sizeof_long_def)

lemma swapfunc_eq:
  assumes "valid_type st es" "0 < c" "0 < es" "a = b \<or> apart a (c * es) b (c * es)"
  shows "swapfunc a b (c * es) st m = blockswap a b (c * es) m"
proof (cases "st \<le> 1")
  case True
  then obtain k where k: "es = 4 * k" using assms(1) by (auto simp: valid_type_def)
  then show ?thesis using True assms swap_units_eq [of a b "c * k" 4]
    by (simp add: swapfunc_def swapcode_def sizeof_long_def ac_simps)
next
  case False
  then show ?thesis using assms swap_units_eq [of a b "c * es" 1]
    by (simp add: swapfunc_def swapcode_def)
qed

lemma swap_elems_eq:
  assumes "valid_type st es" "0 < es" "a = b \<or> apart a es b es"
  shows "swap_elems es st a b m = blockswap a b es m"
  using swapfunc_eq [OF assms(1) _ assms(2), of 1 a b m] assms exchange_eq [of a b 4 m]
  by (auto simp: swap_elems_def Let_def sizeof_long_def valid_type_def)

lemma vecswap_eq:
  assumes "valid_type st es" "0 < es" "a = b \<or> apart a (c * es) b (c * es)"
  shows "vecswap st a b (c * es) m = blockswap a b (c * es) m"
  using swapfunc_eq [OF assms(1) _ assms(2,3)] assms(2) by (cases "c = 0") (auto simp: vecswap_def)

definition elems :: "nat \<Rightarrow> mem \<Rightarrow> nat \<Rightarrow> nat \<Rightarrow> u8 list list" where
  "elems es m a n = map (\<lambda>i. rd_bytes m (a + i * es) es) [0..<n]"

lemma length_elems [simp]: "length (elems es m a n) = n"
  by (simp add: elems_def)

lemma nth_elems [simp]: "i < n \<Longrightarrow> elems es m a n ! i = rd_bytes m (a + i * es) es"
  by (simp add: elems_def)

lemma elems_append: "elems es m a (k + n) = elems es m a k @ elems es m (a + k * es) n"
  by (rule nth_equalityI) (auto simp: nth_append algebra_simps add_mult_distrib [symmetric])

lemma elems_cong: "(\<And>q. a \<le> q \<Longrightarrow> q < a + n * es \<Longrightarrow> m q = m' q) \<Longrightarrow> elems es m a n = elems es m' a n"
proof (rule nth_equalityI, goal_cases)
  case (2 i)
  then have "Suc i * es \<le> n * es" by (intro mult_le_mono1) simp
  then show ?case using 2 by (auto simp: rd_bytes_eq_iff)
qed simp

definition swap_ix :: "nat \<Rightarrow> nat \<Rightarrow> nat \<Rightarrow> nat \<Rightarrow> nat" where
  "swap_ix i j c k = (if i \<le> k \<and> k < i + c then k - i + j else if j \<le> k \<and> k < j + c then k - j + i else k)"

definition exch :: "nat \<Rightarrow> nat \<Rightarrow> nat \<Rightarrow> 'a list \<Rightarrow> 'a list" where
  "exch i j c xs = map (\<lambda>k. xs ! swap_ix i j c k) [0..<length xs]"

lemma length_exch [simp]: "length (exch i j c xs) = length xs"
  by (simp add: exch_def)

lemma nth_exch: "k < length xs \<Longrightarrow> exch i j c xs ! k = xs ! swap_ix i j c k"
  by (simp add: exch_def)

lemma mset_exch:
  assumes "i + c \<le> length xs" "j + c \<le> length xs" "i = j \<or> apart i c j c"
  shows "mset (exch i j c xs) = mset xs"
proof -
  let ?p = "swap_ix i j c" and ?A = "{0..<length xs}"
  have into: "?p k \<in> ?A" if "k \<in> ?A" for k using that assms by (auto simp: swap_ix_def)
  have inv: "?p (?p k) = k" for k using assms(3) by (auto simp: swap_ix_def apart_def)
  have "inj_on ?p ?A" by (rule inj_on_inverseI [of _ ?p]) (rule inv)
  moreover have "?p ` ?A = ?A" using into inv by (auto simp: image_iff) (metis atLeastLessThan_iff into zero_le)
  ultimately have "image_mset ?p (mset_set ?A) = mset_set ?A" by (simp add: image_mset_mset_set)
  then have "mset (exch i j c xs) = image_mset ((!) xs) (mset_set ?A)"
    unfolding exch_def mset_map mset_upt by (metis (no_types, lifting) image_mset.compositionality comp_def image_mset_cong)
  also have "\<dots> = mset xs" by (metis map_nth mset_map mset_upt)
  finally show ?thesis .
qed

lemma elem_addr_iff:
  fixes es :: nat
  assumes "q < es"
  shows "i * es \<le> k * es + q \<longleftrightarrow> i \<le> k" "k * es + q < i * es \<longleftrightarrow> k < i"
proof -
  have "(k * es + q) div es = k" using assms by simp
  then show "k * es + q < i * es \<longleftrightarrow> k < i" by (metis assms div_less_iff_less_mult gr_zeroI not_less_zero)
  then show "i * es \<le> k * es + q \<longleftrightarrow> i \<le> k" by linarith
qed

lemma elems_blockswap:
  assumes "i + c \<le> n" "j + c \<le> n"
  shows "elems es (blockswap (a + i * es) (a + j * es) (c * es) m) a n = exch i j c (elems es m a n)"
proof (rule nth_equalityI, goal_cases)
  case (2 k)
  then have k: "k < n" by simp
  have ix: "swap_ix i j c k < n" using assms k by (auto simp: swap_ix_def)
  have "blockswap (a + i * es) (a + j * es) (c * es) m (a + k * es + q) = m (a + swap_ix i j c k * es + q)" if q: "q < es" for q
  proof -
    have r: "a + x * es \<le> a + k * es + q \<longleftrightarrow> x \<le> k" "a + k * es + q < a + x * es + c * es \<longleftrightarrow> k < x + c" for x
      by (simp_all only: add.assoc add_le_cancel_left add_less_cancel_left add_mult_distrib [symmetric] elem_addr_iff [OF q])
    have move: "a + k * es + q - (a + x * es) + (a + y * es) = a + (k - x + y) * es + q" if le: "x \<le> k" for x y
    proof -
      obtain d where "k = x + d" using le_Suc_ex [OF le] by blast
      then show ?thesis by (simp add: add_mult_distrib)
    qed
    show ?thesis unfolding blockswap_def r swap_ix_def
      by (cases "i \<le> k \<and> k < i + c"; cases "j \<le> k \<and> k < j + c") (simp_all only: move if_True if_False simp_thms)
  qed
  then show ?case using k ix by (simp add: nth_exch rd_bytes_eq_iff)
qed simp

text \<open>\<open>permutes es a n m m'\<close>: \<open>m'\<close> has the elements of \<open>m\<close> in another order and is \<open>m\<close> outside the array.\<close>

definition permutes :: "nat \<Rightarrow> nat \<Rightarrow> nat \<Rightarrow> mem \<Rightarrow> mem \<Rightarrow> bool" where
  "permutes es a n m m' \<longleftrightarrow> mset (elems es m' a n) = mset (elems es m a n) \<and>
     (\<forall>q. q < a \<or> a + n * es \<le> q \<longrightarrow> m' q = m q)"

lemma permutes_refl [simp]: "permutes es a n m m"
  by (simp add: permutes_def)

lemma permutes_trans [trans]: "permutes es a n m m' \<Longrightarrow> permutes es a n m' m'' \<Longrightarrow> permutes es a n m m''"
  by (simp add: permutes_def)

lemma permutes_blockswap:
  assumes "i + c \<le> n" "j + c \<le> n" "i = j \<or> apart i c j c"
  shows "permutes es a n m (blockswap (a + i * es) (a + j * es) (c * es) m)"
proof -
  have "(i + c) * es \<le> n * es" "(j + c) * es \<le> n * es" using assms by (intro mult_le_mono1; simp)+
  then have "\<forall>q. q < a \<or> a + n * es \<le> q \<longrightarrow> blockswap (a + i * es) (a + j * es) (c * es) m q = m q"
    unfolding add_mult_distrib by (auto simp: blockswap_def)
  then show ?thesis using assms by (simp add: permutes_def elems_blockswap mset_exch)
qed

lemma index_apart: "i \<noteq> j \<Longrightarrow> apart (a + i * es) es (a + j * es) (es :: nat)"
proof -
  assume "i \<noteq> j"
  then have "Suc i \<le> j \<or> Suc j \<le> i" by linarith
  then have "Suc i * es \<le> j * es \<or> Suc j * es \<le> i * es" using mult_le_mono1 by blast
  then show ?thesis by (auto simp: apart_def)
qed

lemma swap_index:
  assumes "valid_type st es" "0 < es" "i < n" "j < n"
  shows "elems es (swap_elems es st (a + i * es) (a + j * es) m) a n = exch i j 1 (elems es m a n)"
    and "permutes es a n m (swap_elems es st (a + i * es) (a + j * es) m)"
proof -
  have "a + i * es = a + j * es \<or> apart (a + i * es) es (a + j * es) es" using index_apart by metis
  then have e: "swap_elems es st (a + i * es) (a + j * es) m = blockswap (a + i * es) (a + j * es) (1 * es) m"
    using swap_elems_eq [OF assms(1,2)] by simp
  show "elems es (swap_elems es st (a + i * es) (a + j * es) m) a n = exch i j 1 (elems es m a n)"
    unfolding e using assms by (intro elems_blockswap) auto
  show "permutes es a n m (swap_elems es st (a + i * es) (a + j * es) m)"
    unfolding e using assms by (intro permutes_blockswap) (auto simp: apart_def)
qed

lemma nth_exch1: "k < length xs \<Longrightarrow> exch i j (Suc 0) xs ! k = (if k = i then xs ! j else if k = j then xs ! i else xs ! k)"
  by (auto simp: nth_exch swap_ix_def)

text \<open>Two neighbouring runs \<open>[lo, mid)\<close> and \<open>[mid, hi)\<close> change places when as many elements as the shorter has
  are exchanged between the two ends.\<close>

lemma exch_ends:
  assumes "lo \<le> mid" "mid \<le> hi" "hi \<le> length xs" "c = min (mid - lo) (hi - mid)"
    "\<And>k. lo \<le> k \<Longrightarrow> k < mid \<Longrightarrow> A (xs ! k)" "\<And>k. mid \<le> k \<Longrightarrow> k < hi \<Longrightarrow> B (xs ! k)"
  shows "lo \<le> k \<Longrightarrow> k < lo + (hi - mid) \<Longrightarrow> B (exch lo (hi - c) c xs ! k)"
    "lo + (hi - mid) \<le> k \<Longrightarrow> k < hi \<Longrightarrow> A (exch lo (hi - c) c xs ! k)"
    "k < lo \<or> hi \<le> k \<Longrightarrow> k < length xs \<Longrightarrow> exch lo (hi - c) c xs ! k = xs ! k"
proof -
  show "B (exch lo (hi - c) c xs ! k)" if "lo \<le> k" "k < lo + (hi - mid)"
    using that assms(1-4) by (auto simp: nth_exch swap_ix_def min_def intro!: assms(6))
  show "A (exch lo (hi - c) c xs ! k)" if "lo + (hi - mid) \<le> k" "k < hi"
    using that assms(1-4) by (auto simp: nth_exch swap_ix_def min_def intro!: assms(5))
  show "exch lo (hi - c) c xs ! k = xs ! k" if "k < lo \<or> hi \<le> k" "k < length xs"
    using that assms(1-4) by (auto simp: nth_exch swap_ix_def min_def)
qed

lemma vecswap_index:
  assumes "valid_type st es" "0 < es" "i + c \<le> j" "j + c \<le> n"
  shows "elems es (vecswap st (a + i * es) (a + j * es) (c * es) m) a n = exch i j c (elems es m a n)"
    and "permutes es a n m (vecswap st (a + i * es) (a + j * es) (c * es) m)"
proof -
  have "i * es + c * es \<le> j * es" using mult_le_mono1 [OF assms(3), of es] by (simp add: add_mult_distrib)
  then have e: "vecswap st (a + i * es) (a + j * es) (c * es) m = blockswap (a + i * es) (a + j * es) (c * es) m"
    using assms by (intro vecswap_eq) (auto simp: apart_def)
  show "elems es (vecswap st (a + i * es) (a + j * es) (c * es) m) a n = exch i j c (elems es m a n)"
    unfolding e using assms by (intro elems_blockswap) auto
  show "permutes es a n m (vecswap st (a + i * es) (a + j * es) (c * es) m)"
    unfolding e using assms by (intro permutes_blockswap) (auto simp: apart_def)
qed

lemma min_mult: "(if i * es < j * es then i * es else j * es) = min i j * (es :: nat)"
  by (simp add: min_def)

section \<open>A comparison that orders the elements\<close>

locale comparison =
  fixes cmp :: elem_cmp and es :: nat
  assumes cmp_swap: "length x = es \<Longrightarrow> length y = es \<Longrightarrow> cmp x y < 0 \<longleftrightarrow> cmp y x > 0"
    and cmp_trans: "length x = es \<Longrightarrow> length y = es \<Longrightarrow> length z = es \<Longrightarrow> cmp x y \<le> 0 \<Longrightarrow> cmp y z \<le> 0 \<Longrightarrow> cmp x z \<le> 0"
    and elem_size: "0 < es"
begin

abbreviation els :: "mem \<Rightarrow> nat \<Rightarrow> nat \<Rightarrow> u8 list list" where
  "els \<equiv> elems es"

lemma cmp_refl: "length x = es \<Longrightarrow> cmp x x = 0"
  using cmp_swap [of x x] by linarith

lemma cmp_flip: "length x = es \<Longrightarrow> length y = es \<Longrightarrow> cmp y x \<ge> 0 \<Longrightarrow> cmp x y \<le> 0"
  using cmp_swap [of y x] by linarith

text \<open>\<open>asc\<close>: in order.\<close>

abbreviation asc :: "u8 list list \<Rightarrow> bool" where
  "asc \<equiv> sorted_wrt (\<lambda>x y. cmp x y \<le> 0)"

definition sorts :: "nat \<Rightarrow> nat \<Rightarrow> mem \<Rightarrow> mem \<Rightarrow> bool" where
  "sorts a n m m' \<longleftrightarrow> permutes es a n m m' \<and> asc (els m' a n)"

lemma CMP_index: "i < n \<Longrightarrow> j < n \<Longrightarrow> CMP cmp es m (a + i * es) (a + j * es) = cmp (els m a n ! i) (els m a n ! j)"
  by (simp add: CMP_def)

lemma length_nth_els: "i < n \<Longrightarrow> length (els m a n ! i) = es"
  by simp

text \<open>Insertion: all but the element at \<open>j\<close> is in order up to \<open>i\<close>, and that one belongs to its left.\<close>

definition ins_inv :: "u8 list list \<Rightarrow> nat \<Rightarrow> nat \<Rightarrow> bool" where
  "ins_inv xs j i \<longleftrightarrow> (\<forall>k l. k < l \<longrightarrow> l \<le> i \<longrightarrow> k \<noteq> j \<longrightarrow> l \<noteq> j \<longrightarrow> cmp (xs ! k) (xs ! l) \<le> 0) \<and>
     (\<forall>l. j < l \<longrightarrow> l \<le> i \<longrightarrow> cmp (xs ! j) (xs ! l) \<le> 0)"

lemma ins_inv_swap:
  assumes "ins_inv xs (Suc j) i" "i < length xs" "Suc j \<le> i" "cmp (xs ! j) (xs ! Suc j) > 0"
    "\<And>k. k < length xs \<Longrightarrow> length (xs ! k) = es"
  shows "ins_inv (exch (Suc j) j 1 xs) j i"
proof -
  have le: "cmp (xs ! Suc j) (xs ! j) \<le> 0" using cmp_swap [of "xs ! Suc j" "xs ! j"] assms by simp
  have nth: "exch (Suc j) j 1 xs ! k = (if k = Suc j then xs ! j else if k = j then xs ! Suc j else xs ! k)" if "k \<le> i" for k
    using nth_exch1 [of k xs "Suc j" j] that assms(2) by simp
  show ?thesis unfolding ins_inv_def
  proof (intro conjI allI impI)
    fix k l assume "k < l" "l \<le> i" "k \<noteq> j" "l \<noteq> j"
    then show "cmp (exch (Suc j) j 1 xs ! k) (exch (Suc j) j 1 xs ! l) \<le> 0"
      using assms(1) nth [of k] nth [of l] by (auto simp: ins_inv_def)
  next
    fix l assume "j < l" "l \<le> i"
    then show "cmp (exch (Suc j) j 1 xs ! j) (exch (Suc j) j 1 xs ! l) \<le> 0"
      using assms(1,3) le nth [of j] nth [of l] by (auto simp: ins_inv_def)
  qed
qed

lemma ins_inv_stop:
  assumes "ins_inv xs j i" "j \<le> i" "i < length xs" "j = 0 \<or> cmp (xs ! (j - 1)) (xs ! j) \<le> 0"
    "\<And>k. k < length xs \<Longrightarrow> length (xs ! k) = es"
  shows "asc (take (Suc i) xs)"
proof -
  have left: "cmp (xs ! k) (xs ! j) \<le> 0" if k: "k < j" for k
  proof (cases "k = j - 1")
    case False
    then have "cmp (xs ! k) (xs ! (j - 1)) \<le> 0" using assms(1,2) k by (auto simp: ins_inv_def)
    then show ?thesis using cmp_trans [of "xs ! k" "xs ! (j - 1)" "xs ! j"] assms k by auto
  qed (use assms(4) k in auto)
  have "cmp (xs ! k) (xs ! l) \<le> 0" if "k < l" "l \<le> i" for k l
    using that assms(1) left by (cases "k = j"; cases "l = j") (auto simp: ins_inv_def)
  then show ?thesis using assms(3) by (auto simp: sorted_wrt_iff_nth_less)
qed

lemma isort_inner_ok:
  assumes "valid_type st es" "i < n" "j \<le> i" "ins_inv (els m a n) j i"
  shows "\<exists>m'. isort_inner cmp es st a (a + j * es) m = Some m' \<and> permutes es a n m m' \<and> asc (take (Suc i) (els m' a n))"
  using assms(3,4)
proof (induction j arbitrary: m)
  case 0
  then have "asc (take (Suc i) (els m a n))" using assms(2) by (intro ins_inv_stop) auto
  moreover have "isort_inner cmp es st a a m = Some m" by (subst isort_inner.simps) simp
  ultimately show ?case by (auto intro!: exI [of _ m])
next
  case (Suc j)
  let ?c = "CMP cmp es m (a + j * es) (a + Suc j * es)"
  have c: "?c = cmp (els m a n ! j) (els m a n ! Suc j)" using Suc.prems assms(2) by (intro CMP_index) auto
  have run: "isort_inner cmp es st a (a + Suc j * es) m =
    (if ?c > 0 then isort_inner cmp es st a (a + j * es) (swap_elems es st (a + Suc j * es) (a + j * es) m) else Some m)"
    using elem_size by (subst isort_inner.simps) (simp add: algebra_simps)
  show ?case
  proof (cases "?c > 0")
    case True
    let ?m = "swap_elems es st (a + Suc j * es) (a + j * es) m"
    have sw: "els ?m a n = exch (Suc j) j 1 (els m a n)" "permutes es a n m ?m"
      using swap_index [OF assms(1) elem_size, of "Suc j" n j a m] Suc.prems assms(2) by auto
    have "ins_inv (els ?m a n) j i" unfolding sw(1)
      using Suc.prems assms(2) True c by (intro ins_inv_swap) auto
    then obtain m' where "isort_inner cmp es st a (a + j * es) ?m = Some m'" "permutes es a n ?m m'"
      "asc (take (Suc i) (els m' a n))" using Suc.IH [of ?m] Suc.prems by auto
    then show ?thesis using run True sw(2) permutes_trans by (intro exI [of _ m']) auto
  next
    case False
    then have "asc (take (Suc i) (els m a n))"
      using Suc.prems assms(2) c by (intro ins_inv_stop [where j = "Suc j"]) auto
    then show ?thesis using run False by auto
  qed
qed

lemma ins_inv_start: "asc (take i xs) \<Longrightarrow> i < length xs \<Longrightarrow> ins_inv xs i i"
  by (auto simp: ins_inv_def sorted_wrt_iff_nth_less)

lemma isort_outer_ok:
  assumes "valid_type st es"
  shows "i \<le> n \<Longrightarrow> asc (take i (els m a n)) \<Longrightarrow>
    \<exists>m'. isort_outer cmp es st a n (a + i * es) m = Some m' \<and> sorts a n m m'"
proof (induction "n - i" arbitrary: i m)
  case 0
  then have "isort_outer cmp es st a n (a + i * es) m = Some m" by (subst isort_outer.simps) simp
  then show ?case using 0 by (auto simp: sorts_def)
next
  case (Suc x)
  then have i: "i < n" and x: "x = n - Suc i" by simp_all
  obtain m1 where m1: "isort_inner cmp es st a (a + i * es) m = Some m1" "permutes es a n m m1"
    "asc (take (Suc i) (els m1 a n))"
    using isort_inner_ok [OF assms i le_refl ins_inv_start [OF Suc.prems(2)]] i by auto
  obtain m' where m': "isort_outer cmp es st a n (a + Suc i * es) m1 = Some m'" "sorts a n m1 m'"
    using Suc.hyps(1) [OF x _ m1(3)] i by auto
  have "isort_outer cmp es st a n (a + i * es) m = Some m'"
    using i elem_size m1(1) m'(1) by (subst isort_outer.simps) (simp add: ac_simps)
  moreover have "sorts a n m m'" using m'(2) permutes_trans [OF m1(2)] by (simp add: sorts_def)
  ultimately show ?case by blast
qed

lemma insertion_sort_ok:
  assumes "valid_type st es"
  shows "\<exists>m'. insertion_sort cmp es st a n m = Some m' \<and> sorts a n m m'"
proof (cases n)
  case 0
  then have "insertion_sort cmp es st a n m = Some m"
    unfolding insertion_sort_def by (subst isort_outer.simps) simp
  then show ?thesis using 0 by (auto simp: sorts_def elems_def)
next
  case (Suc k)
  have "asc (take 1 (els m a n))" by (simp add: Suc elems_def upt_rec)
  then show ?thesis using isort_outer_ok [OF assms, of 1 n m a] Suc by (simp add: insertion_sort_def)
qed

declare nth_elems [simp del] length_nth_els [simp]

text \<open>The partition: its pointers as indices, and what lies between them.\<close>

definition part_inv :: "nat \<Rightarrow> nat \<Rightarrow> u8 list \<Rightarrow> part_state \<Rightarrow> nat \<Rightarrow> nat \<Rightarrow> nat \<Rightarrow> nat \<Rightarrow> bool" where
  "part_inv a n p s ia ib ic ie \<longleftrightarrow>
     pt_pa s = a + ia * es \<and> pt_pb s = a + ib * es \<and> pt_pc s = a + ic * es \<and> pt_pd s = a + ie * es \<and>
     1 \<le> ia \<and> ia \<le> ib \<and> ib \<le> ic + 1 \<and> ic \<le> ie \<and> ie < n \<and>
     els (pt_mem s) a n ! 0 = p \<and>
     (\<forall>k < ia. cmp (els (pt_mem s) a n ! k) p = 0) \<and>
     (\<forall>k. ia \<le> k \<longrightarrow> k < ib \<longrightarrow> cmp (els (pt_mem s) a n ! k) p < 0) \<and>
     (\<forall>k. ic < k \<longrightarrow> k \<le> ie \<longrightarrow> cmp (els (pt_mem s) a n ! k) p > 0) \<and>
     (\<forall>k. ie < k \<longrightarrow> k < n \<longrightarrow> cmp (els (pt_mem s) a n ! k) p = 0)"

lemma part_cmp:
  assumes "part_inv a n p s ia ib ic ie" "k < n"
  shows "CMP cmp es (pt_mem s) (a + k * es) a = cmp (els (pt_mem s) a n ! k) p"
  using CMP_index [of k n 0 "pt_mem s" a] assms by (auto simp: part_inv_def)

lemma le_index: "a + ib * es \<le> a + ic * es \<longleftrightarrow> ib \<le> ic"
  using elem_size by simp

lemma scan_left_ok:
  assumes "valid_type st es" "part_inv a n p s ia ib ic ie"
  shows "\<exists>s' ia' ib'. scan_left cmp es st a s = Some s' \<and> part_inv a n p s' ia' ib' ic ie \<and>
    permutes es a n (pt_mem s) (pt_mem s') \<and> ib \<le> ib' \<and> (ib' \<le> ic \<longrightarrow> cmp (els (pt_mem s') a n ! ib') p > 0)"
  using assms(2)
proof (induction "ic + 1 - ib" arbitrary: s ia ib)
  case 0
  then have "\<not> ib \<le> ic" by simp
  then have "\<not> pt_pb s \<le> pt_pc s" using 0 elem_size by (simp add: part_inv_def)
  then have "scan_left cmp es st a s = Some s" by (subst scan_left.simps) simp
  then show ?case using 0 \<open>\<not> ib \<le> ic\<close> permutes_refl by blast
next
  case (Suc x)
  note inv = Suc.prems [unfolded part_inv_def]
  have ib: "ib \<le> ic" "ib < n" "ia < n" using Suc.hyps(2) inv by auto
  have x: "x = ic + 1 - Suc ib" using Suc.hyps(2) by simp
  let ?xs = "els (pt_mem s) a n"
  let ?c = "cmp (?xs ! ib) p"
  let ?s1 = "if ?c = 0 then s\<lparr>swap_cnt := 1, pt_mem := swap_elems es st (pt_pa s) (pt_pb s) (pt_mem s), pt_pa := pt_pa s + es\<rparr> else s"
  have run: "scan_left cmp es st a s = (if ?c \<le> 0 then scan_left cmp es st a (?s1\<lparr>pt_pb := pt_pb s + es\<rparr>) else Some s)"
    using inv ib part_cmp [OF Suc.prems ib(2)]
    by (subst scan_left.simps) (simp add: Let_def le_index)
  consider "?c > 0" | "?c < 0" | "?c = 0" by linarith
  then show ?case
  proof cases
    case 1
    then show ?thesis using run Suc.prems by (intro exI [of _ s] exI [of _ ia] exI [of _ ib]) auto
  next
    case 2
    have "part_inv a n p (?s1\<lparr>pt_pb := pt_pb s + es\<rparr>) ia (Suc ib) ic ie"
      using inv ib 2 by (auto simp: part_inv_def less_Suc_eq)
    from Suc.hyps(1) [OF x this] show ?thesis using run 2 by (auto dest: Suc_leD)
  next
    case 3
    let ?m = "swap_elems es st (pt_pa s) (pt_pb s) (pt_mem s)"
    define ys where "ys = els ?m a n"
    have sw: "ys = exch ia ib 1 ?xs" "permutes es a n (pt_mem s) ?m"
      using swap_index [OF assms(1) elem_size ib(3,2), of a "pt_mem s"] inv by (auto simp: ys_def)
    have nth: "ys ! k = (if k = ia then ?xs ! ib else if k = ib then ?xs ! ia else ?xs ! k)" if "k < n" for k
      using that nth_exch1 [of k ?xs ia ib] by (simp add: sw(1))
    have ys: "els (pt_mem (?s1\<lparr>pt_pb := pt_pb s + es\<rparr>)) a n = ys" using 3 by (simp add: ys_def)
    have "part_inv a n p (?s1\<lparr>pt_pb := pt_pb s + es\<rparr>) (Suc ia) (Suc ib) ic ie"
      unfolding part_inv_def ys using inv ib 3 nth nth [of 0] by (auto simp: less_Suc_eq)
    from Suc.hyps(1) [OF x this] obtain s' ia' ib' where "scan_left cmp es st a (?s1\<lparr>pt_pb := pt_pb s + es\<rparr>) = Some s'"
      "part_inv a n p s' ia' ib' ic ie" "permutes es a n ?m (pt_mem s')" "Suc ib \<le> ib'"
      "ib' \<le> ic \<longrightarrow> cmp (els (pt_mem s') a n ! ib') p > 0"
      using 3 by auto
    then show ?thesis using run 3 permutes_trans [OF sw(2)]
      by (intro exI [of _ s'] exI [of _ ia'] exI [of _ ib']) auto
  qed
qed

lemma scan_right_ok:
  assumes "valid_type st es" "part_inv a n p s ia ib ic ie" "ib \<le> ic \<longrightarrow> cmp (els (pt_mem s) a n ! ib) p > 0"
  shows "\<exists>s' ic' ie'. scan_right cmp es st a s = Some s' \<and> part_inv a n p s' ia ib ic' ie' \<and>
    permutes es a n (pt_mem s) (pt_mem s') \<and> ic' \<le> ic \<and>
    (ib \<le> ic' \<longrightarrow> cmp (els (pt_mem s') a n ! ib) p > 0 \<and> cmp (els (pt_mem s') a n ! ic') p < 0)"
  using assms(2,3)
proof (induction "ic + 1 - ib" arbitrary: s ic ie)
  case 0
  then have "\<not> ib \<le> ic" by simp
  then have "\<not> pt_pb s \<le> pt_pc s" using 0 elem_size by (simp add: part_inv_def)
  then have "scan_right cmp es st a s = Some s" by (subst scan_right.simps) simp
  then show ?case using 0 \<open>\<not> ib \<le> ic\<close> permutes_refl by blast
next
  case (Suc x)
  then obtain jc where jc: "ic = Suc jc" by (cases ic) (auto simp: part_inv_def)
  note inv = Suc.prems(1) [unfolded part_inv_def jc]
  have ic: "ib \<le> Suc jc" "Suc jc < n" "ie < n" using Suc.hyps(2) inv jc by auto
  have x: "x = jc + 1 - ib" using Suc.hyps(2) jc by simp
  let ?xs = "els (pt_mem s) a n"
  let ?c = "cmp (?xs ! Suc jc) p"
  let ?s1 = "if ?c = 0 then s\<lparr>swap_cnt := 1, pt_mem := swap_elems es st (pt_pc s) (pt_pd s) (pt_mem s), pt_pd := pt_pd s - es\<rparr> else s"
  let ?s2 = "?s1\<lparr>pt_pc := pt_pc s - es\<rparr>"
  have "pt_pb s \<le> pt_pc s" using inv ic(1) le_index [of a ib "Suc jc"] by metis
  moreover have "CMP cmp es (pt_mem s) (pt_pc s) a = ?c" using part_cmp [OF Suc.prems(1) ic(2)] inv by metis
  ultimately have run: "scan_right cmp es st a s = (if ?c \<ge> 0 then scan_right cmp es st a ?s2 else Some s)"
    by (subst scan_right.simps) (simp add: Let_def)
  have gt: "Suc jc \<le> k \<Longrightarrow> k \<le> ie \<Longrightarrow> 0 < cmp (?xs ! k) p" if "0 < ?c" for k
    using inv that by (cases "k = Suc jc") auto
  consider "?c < 0" | "?c > 0" | "?c = 0" by linarith
  then show ?case
  proof cases
    case 1
    then show ?thesis using run Suc.prems jc by (intro exI [of _ s] exI [of _ ic] exI [of _ ie]) auto
  next
    case 2
    have s2: "?s2 = s\<lparr>pt_pc := pt_pc s - es\<rparr>" using 2 by simp
    have "part_inv a n p ?s2 ia ib jc ie"
      unfolding part_inv_def s2 using inv ic 2 gt by (auto simp: Suc_le_eq)
    moreover have "ib \<le> jc \<longrightarrow> cmp (els (pt_mem ?s2) a n ! ib) p > 0" using Suc.prems(2) 2 jc by auto
    ultimately obtain s' ic' ie' where "scan_right cmp es st a ?s2 = Some s'" "part_inv a n p s' ia ib ic' ie'"
      "permutes es a n (pt_mem s) (pt_mem s')" "ic' \<le> jc"
      "ib \<le> ic' \<longrightarrow> cmp (els (pt_mem s') a n ! ib) p > 0 \<and> cmp (els (pt_mem s') a n ! ic') p < 0"
      using Suc.hyps(1) [OF x, of ?s2 ie] 2 by auto
    then show ?thesis using run 2 jc
      by (intro exI [of _ s'] exI [of _ ic'] exI [of _ ie']) auto
  next
    case 3
    let ?m = "swap_elems es st (pt_pc s) (pt_pd s) (pt_mem s)"
    obtain je where je: "ie = Suc je" using inv by (cases ie) auto
    have lt: "ib < Suc jc" using Suc.prems(2) 3 ic jc by (metis le_neq_implies_less less_irrefl)
    define ys where "ys = els ?m a n"
    have sw: "ys = exch (Suc jc) ie 1 ?xs" "permutes es a n (pt_mem s) ?m"
      using swap_index [OF assms(1) elem_size ic(2,3), of a "pt_mem s"] inv by (auto simp: ys_def)
    have ys: "els (pt_mem ?s2) a n = ys" using 3 by (simp add: ys_def)
    have nth: "ys ! k = (if k = Suc jc then ?xs ! ie else if k = ie then ?xs ! Suc jc else ?xs ! k)" if "k < n" for k
      using that nth_exch1 [of k ?xs "Suc jc" ie] by (simp add: sw(1))
    have eq: "cmp (ys ! k) p = 0" if "je < k" "k < n" for k
      using inv 3 je that nth [of k] by (cases "k = ie") auto
    have old: "ys ! k = ?xs ! k" if "k < Suc jc" for k using nth [of k] that ic inv by auto
    have high: "0 < cmp (ys ! k) p" if "jc < k" "k \<le> je" for k
      using inv je that nth [of k] by (cases "k = Suc jc") auto
    have "part_inv a n p ?s2 ia ib jc je"
      unfolding part_inv_def ys using inv ic 3 lt je eq old high by auto
    moreover have "ib \<le> jc \<longrightarrow> cmp (els (pt_mem ?s2) a n ! ib) p > 0"
      unfolding ys using Suc.prems(2) 3 lt ic old [of ib] jc by auto
    ultimately obtain s' ic' ie' where "scan_right cmp es st a ?s2 = Some s'" "part_inv a n p s' ia ib ic' ie'"
      "permutes es a n ?m (pt_mem s')" "ic' \<le> jc"
      "ib \<le> ic' \<longrightarrow> cmp (els (pt_mem s') a n ! ib) p > 0 \<and> cmp (els (pt_mem s') a n ! ic') p < 0"
      using Suc.hyps(1) [OF x, of ?s2 je] 3 by auto
    then show ?thesis using run 3 permutes_trans [OF sw(2)] jc
      by (intro exI [of _ s'] exI [of _ ic'] exI [of _ ie']) auto
  qed
qed

lemma partition_loop_ok:
  assumes "valid_type st es" "part_inv a n p s ia ib ic ie"
  shows "\<exists>s' ia' ib' ic' ie'. partition_loop cmp es st a s = Some s' \<and> part_inv a n p s' ia' ib' ic' ie' \<and>
    permutes es a n (pt_mem s) (pt_mem s') \<and> ib' = ic' + 1"
  using assms(2)
proof (induction "ic + 1 - ib" arbitrary: s ia ib ic ie rule: less_induct)
  case less
  obtain s1 ia1 ib1 where l: "scan_left cmp es st a s = Some s1" "part_inv a n p s1 ia1 ib1 ic ie"
    "permutes es a n (pt_mem s) (pt_mem s1)" "ib \<le> ib1" "ib1 \<le> ic \<longrightarrow> cmp (els (pt_mem s1) a n ! ib1) p > 0"
    using scan_left_ok [OF assms(1) less.prems] by blast
  obtain s2 ic2 ie2 where r: "scan_right cmp es st a s1 = Some s2" "part_inv a n p s2 ia1 ib1 ic2 ie2"
    "permutes es a n (pt_mem s1) (pt_mem s2)" "ic2 \<le> ic"
    "ib1 \<le> ic2 \<longrightarrow> cmp (els (pt_mem s2) a n ! ib1) p > 0 \<and> cmp (els (pt_mem s2) a n ! ic2) p < 0"
    using scan_right_ok [OF assms(1) l(2,5)] by blast
  let ?s3 = "s2\<lparr>pt_mem := swap_elems es st (pt_pb s2) (pt_pc s2) (pt_mem s2), swap_cnt := 1,
            pt_pb := pt_pb s2 + es, pt_pc := pt_pc s2 - es\<rparr>"
  note inv = r(2) [unfolded part_inv_def]
  have perm: "permutes es a n (pt_mem s) (pt_mem s2)" by (rule permutes_trans [OF l(3) r(3)])
  have "pt_pb s2 \<le> pt_pc s2 \<longleftrightarrow> ib1 \<le> ic2" using inv le_index by metis
  then have run: "partition_loop cmp es st a s = (if ib1 \<le> ic2 then partition_loop cmp es st a ?s3 else Some s2)"
    by (subst partition_loop.simps) (simp add: l(1) r(1) not_le [symmetric])
  show ?case
  proof (cases "ib1 \<le> ic2")
    case False
    then have "ib1 = ic2 + 1" using inv by simp
    then show ?thesis using run False r(2) perm by auto
  next
    case True
    then have "ib1 \<noteq> ic2" using r(5) by auto
    then obtain jc where jc: "ic2 = Suc jc" "ib1 \<le> jc" using True by (cases ic2) auto
    have lt: "ib1 < n" "Suc jc < n" using inv jc by auto
    define ys where "ys = els (pt_mem ?s3) a n"
    have sw: "ys = exch ib1 (Suc jc) 1 (els (pt_mem s2) a n)" "permutes es a n (pt_mem s2) (pt_mem ?s3)"
      using swap_index [OF assms(1) elem_size lt, of a "pt_mem s2"] inv jc by (auto simp: ys_def)
    have nth: "ys ! k = (if k = ib1 then els (pt_mem s2) a n ! Suc jc
      else if k = Suc jc then els (pt_mem s2) a n ! ib1 else els (pt_mem s2) a n ! k)" if "k < n" for k
      using that nth_exch1 [of k "els (pt_mem s2) a n" ib1 "Suc jc"] by (simp add: sw(1))
    have low: "cmp (ys ! k) p < 0" if "ia1 \<le> k" "k < Suc ib1" for k
      using that r(5) True inv jc nth [of k] by (cases "k = ib1") auto
    have high: "cmp (ys ! k) p > 0" if "jc < k" "k \<le> ie2" for k
      using that r(5) True inv jc nth [of k] by (cases "k = Suc jc") auto
    have old: "ys ! k = els (pt_mem s2) a n ! k" if "k < ib1 \<or> Suc jc < k" "k < n" for k
      using that nth [of k] jc by auto
    have "part_inv a n p ?s3 ia1 (Suc ib1) jc ie2"
      unfolding part_inv_def ys_def [symmetric] using inv jc low high old by auto
    moreover have "jc + 1 - Suc ib1 < ic + 1 - ib" using jc r(4) l(4) by simp
    ultimately obtain s' ia' ib' ic' ie' where "partition_loop cmp es st a ?s3 = Some s'" "part_inv a n p s' ia' ib' ic' ie'"
      "permutes es a n (pt_mem ?s3) (pt_mem s')" "ib' = ic' + 1" using less.hyps by blast
    then show ?thesis using run True permutes_trans [OF permutes_trans [OF perm sw(2)]] by auto
  qed
qed

text \<open>The pivot is an element of the array.\<close>

definition at_index :: "nat \<Rightarrow> nat \<Rightarrow> nat \<Rightarrow> bool" where
  "at_index a n q \<longleftrightarrow> (\<exists>i < n. q = a + i * es)"

lemma at_index_med3: "at_index a n x \<Longrightarrow> at_index a n y \<Longrightarrow> at_index a n z \<Longrightarrow> at_index a n (med3 cmp es m x y z)"
  by (simp add: med3_def)

lemma at_index_add: "i < n \<Longrightarrow> at_index a n (a + i * es)"
  by (auto simp: at_index_def)

lemma at_index_plus: "i + d < n \<Longrightarrow> at_index a n (a + i * es + d * es)"
  using at_index_add [of "i + d" n a] by (simp add: add_mult_distrib add.assoc)

lemma at_index_minus: "i < n \<Longrightarrow> d \<le> i \<Longrightarrow> at_index a n (a + i * es - d * es)"
  using at_index_add [of "i - d" n a] mult_le_mono1 [of d i es] by (simp add: diff_mult_distrib)

lemma select_pivot_at:
  assumes "7 \<le> n"
  shows "at_index a n (select_pivot cmp es a n m)"
proof -
  let ?d = "n div 8"
  have d: "2 * ?d < n" "?d \<le> n div 2" "n div 2 + ?d < n" "2 * ?d \<le> n - 1" "?d \<le> n - 1" using assms by auto
  have a0: "at_index a n a" using at_index_add [of 0 n a] assms by simp
  have dbl: "2 * (?d * es) = (2 * ?d) * es" by simp
  have "at_index a n (a + ?d * es)" "at_index a n (a + (2 * ?d) * es)"
    "at_index a n (a + (n div 2) * es - ?d * es)" "at_index a n (a + (n div 2) * es)" "at_index a n (a + (n div 2) * es + ?d * es)"
    "at_index a n (a + (n - 1) * es - (2 * ?d) * es)" "at_index a n (a + (n - 1) * es - ?d * es)" "at_index a n (a + (n - 1) * es)"
    using d assms by (auto intro!: at_index_add at_index_minus at_index_plus)
  then show ?thesis using a0 unfolding select_pivot_def Let_def dbl by (simp add: at_index_med3)
qed

lemma partition_array_ok:
  assumes "valid_type st es" "7 \<le> n"
  shows "\<exists>s p ia ib ic ie. partition_array cmp es st a n m = Some s \<and> part_inv a n p s ia ib ic ie \<and>
    permutes es a n m (pt_mem s) \<and> ib = ic + 1"
proof -
  obtain i where i: "i < n" "select_pivot cmp es a n m = a + i * es" using select_pivot_at [OF assms(2)] by (auto simp: at_index_def)
  let ?m = "swap_elems es st a (a + i * es) m"
  let ?s = "\<lparr>pt_pa = a + es, pt_pb = a + es, pt_pc = a + (n - 1) * es, pt_pd = a + (n - 1) * es, swap_cnt = 0, pt_mem = ?m\<rparr>"
  have perm: "permutes es a n m ?m" using swap_index(2) [OF assms(1) elem_size _ i(1), of 0 a m] assms(2) by simp
  have "part_inv a n (els ?m a n ! 0) ?s 1 1 (n - 1) (n - 1)"
    using assms(2) cmp_refl [of "els ?m a n ! 0"] by (auto simp: part_inv_def)
  from partition_loop_ok [OF assms(1) this] show ?thesis
    using perm permutes_trans [OF perm] by (simp add: partition_array_def Let_def i(2)) blast
qed

lemma gather_equal_ok:
  assumes "valid_type st es" "part_inv a n p s ia ib ic ie" "ib = ic + 1"
  defines "d \<equiv> ib - ia" and "r \<equiv> ie - ic"
  shows "\<exists>m. gather_equal es st a n s = (m, d * es, r * es) \<and> permutes es a n (pt_mem s) m \<and> d + r < n \<and>
    (\<forall>k < d. cmp (els m a n ! k) p < 0) \<and> (\<forall>k. d \<le> k \<longrightarrow> k < n - r \<longrightarrow> cmp (els m a n ! k) p = 0) \<and>
    (\<forall>k. n - r \<le> k \<longrightarrow> k < n \<longrightarrow> cmp (els m a n ! k) p > 0)"
proof -
  note inv = assms(2) [unfolded part_inv_def]
  let ?xs = "els (pt_mem s) a n"
  define c1 where "c1 = min ia (ib - ia)"
  define c2 where "c2 = min (ie + 1 - ib) (n - (ie + 1))"
  define m1 where "m1 = vecswap st a (a + (ib - c1) * es) (c1 * es) (pt_mem s)"
  define m2 where "m2 = vecswap st (a + ib * es) (a + (n - c2) * es) (c2 * es) m1"
  have b: "c1 \<le> ib - c1" "ib - c1 + c1 \<le> n" "ib + c2 \<le> n - c2" "n - c2 + c2 \<le> n" "c1 \<le> ib" "c2 \<le> n"
    using inv assms(3) by (auto simp: c1_def c2_def min_def)
  have s1: "els m1 a n = exch 0 (ib - c1) c1 ?xs" "permutes es a n (pt_mem s) m1"
    using vecswap_index [OF assms(1) elem_size, of 0 c1 "ib - c1" n a "pt_mem s"] b by (simp_all add: m1_def)
  have s2: "els m2 a n = exch ib (n - c2) c2 (els m1 a n)" "permutes es a n m1 m2"
    using vecswap_index [OF assms(1) elem_size b(3,4), of a m1] by (simp_all add: m2_def)
  note left = exch_ends [of 0 ia ib ?xs c1 "\<lambda>x. cmp x p = 0" "\<lambda>x. cmp x p < 0"]
  have low: "k < d \<Longrightarrow> cmp (els m1 a n ! k) p < 0" and mid: "d \<le> k \<Longrightarrow> k < ib \<Longrightarrow> cmp (els m1 a n ! k) p = 0"
    and rest: "ib \<le> k \<Longrightarrow> k < n \<Longrightarrow> els m1 a n ! k = ?xs ! k" for k
    unfolding s1(1) d_def using left inv assms(3) by (auto simp: c1_def)
  have hi: "ib \<le> k \<Longrightarrow> k < ie + 1 \<Longrightarrow> cmp (els m1 a n ! k) p > 0" and eq: "ie + 1 \<le> k \<Longrightarrow> k < n \<Longrightarrow> cmp (els m1 a n ! k) p = 0" for k
    using inv assms(3) rest [of k] by auto
  note right = exch_ends [of ib "ie + 1" n "els m1 a n" c2 "\<lambda>x. cmp x p > 0" "\<lambda>x. cmp x p = 0", OF _ _ _ c2_def hi eq]
  have bounds: "ib \<le> ie + 1" "ie + 1 \<le> n" "n \<le> length (els m1 a n)" using inv assms(3) by auto
  have "ie < n" "ic \<le> ie" using inv by auto
  then have n1: "n - r = ib + (n - (ie + 1))" unfolding r_def assms(3) by arith
  have "cmp (els m2 a n ! k) p < 0" if "k < d" for k
    using right(3) [OF bounds, of k] low [OF that] that inv unfolding s2(1) d_def by auto
  moreover have "cmp (els m2 a n ! k) p = 0" if "d \<le> k" "k < n - r" for k
    using right(1) [OF bounds, of k] right(3) [OF bounds, of k] mid [of k] that inv n1 unfolding s2(1) by (cases "k < ib") auto
  moreover have "cmp (els m2 a n ! k) p > 0" if "n - r \<le> k" "k < n" for k
    using right(2) [OF bounds, of k] that n1 unfolding s2(1) by auto
  moreover have "gather_equal es st a n s = (m2, d * es, r * es)"
  proof -
    have ptrs: "pt_pa s - a = ia * es" "pt_pb s - pt_pa s = (ib - ia) * es" "pt_pb s - c1 * es = a + (ib - c1) * es"
      "pt_pd s - pt_pc s = (ie + 1 - ib) * es" "a + n * es - pt_pd s - es = (n - (ie + 1)) * es"
      "a + n * es - c2 * es = a + (n - c2) * es" "pt_pb s = a + ib * es" "ie + 1 - ib = r"
      using inv b mult_le_mono1 [OF b(5), of es] mult_le_mono1 [OF b(6), of es] assms(3)
      by (simp_all add: diff_mult_distrib r_def add_mult_distrib)
    show ?thesis unfolding gather_equal_def Let_def ptrs(1,2,4,5) min_mult c1_def [symmetric] c2_def [symmetric] ptrs(3,6)
      unfolding ptrs(7) m1_def [symmetric] m2_def [symmetric] by (simp only: d_def ptrs(8))
  qed
  moreover have "d + r < n" using inv assms(3) by (auto simp: d_def r_def)
  ultimately show ?thesis using permutes_trans [OF s1(2) s2(2)] by blast
qed

text \<open>The three parts: once the outer ones are sorted, the array is.\<close>

lemma permutes_elem:
  assumes "permutes es a n m m'" "\<And>k. k < n \<Longrightarrow> P (els m a n ! k)" "k < n"
  shows "P (els m' a n ! k)"
proof -
  have "set (els m' a n) = set (els m a n)" using assms(1) by (metis permutes_def set_mset_mset)
  moreover have "els m' a n ! k \<in> set (els m' a n)" using assms(3) by simp
  ultimately show ?thesis using assms(2) by (metis in_set_conv_nth length_elems)
qed

lemma els_part: "i + k < n \<Longrightarrow> k < d \<Longrightarrow> els m (a + i * es) d ! k = els m a n ! (i + k)"
  by (simp add: nth_elems add_mult_distrib add.assoc)

text \<open>A part of the array, permuted, permutes the array.\<close>

lemma permutes_part:
  assumes "permutes es (a + i * es) d m m'" "i + d \<le> n"
  shows "permutes es a n m m'" "k < n \<Longrightarrow> k < i \<or> i + d \<le> k \<Longrightarrow> els m' a n ! k = els m a n ! k"
proof -
  obtain r where n: "n = (i + d) + r" using assms(2) le_Suc_ex by blast
  have out: "\<And>q. q < a + i * es \<or> a + (i + d) * es \<le> q \<Longrightarrow> m' q = m q"
    using assms(1) by (auto simp: permutes_def add_mult_distrib)
  have "els m' a i = els m a i" by (rule elems_cong) (auto intro!: out)
  moreover have "els m' (a + (i + d) * es) r = els m (a + (i + d) * es) r" by (rule elems_cong) (auto intro!: out)
  ultimately have "mset (els m' a n) = mset (els m a n)" unfolding n elems_append using assms(1) by (simp add: permutes_def)
  moreover have "m' q = m q" if "q < a \<or> a + n * es \<le> q" for q
    using mult_le_mono1 [OF assms(2), of es] that by (intro out) linarith
  ultimately show "permutes es a n m m'" by (simp add: permutes_def)
  assume k: "k < n" "k < i \<or> i + d \<le> k"
  have "k * es + es \<le> i * es \<or> (i + d) * es \<le> k * es"
    using k(2) mult_le_mono1 [of "Suc k" i es] mult_le_mono1 [of "i + d" k es] by (auto simp: add.commute)
  then have "m' (a + k * es + q) = m (a + k * es + q)" if "q < es" for q using that by (intro out) linarith
  then show "els m' a n ! k = els m a n ! k" using k(1) by (simp add: nth_elems rd_bytes_eq_iff)
qed

lemma sorts_three:
  assumes "d + r < n" "\<forall>k < d. cmp (els m a n ! k) p < 0" "\<forall>k. d \<le> k \<longrightarrow> k < n - r \<longrightarrow> cmp (els m a n ! k) p = 0"
    "\<forall>k. n - r \<le> k \<longrightarrow> k < n \<longrightarrow> cmp (els m a n ! k) p > 0" "length p = es"
    "permutes es a n m m'" "els m' a n = xs @ ys @ zs" "length xs = d" "length zs = r" "asc xs" "asc zs"
    "mset xs = mset (els m a d)" "mset zs = mset (els m (a + (n - r) * es) r)"
    "\<And>k. d \<le> k \<Longrightarrow> k < n - r \<Longrightarrow> els m' a n ! k = els m a n ! k"
  shows "sorts a n m m'"
proof -
  have len: "length ys = n - r - d" using arg_cong [OF assms(7), of length] assms(1,8,9) by simp
  have el: "length x = es" if "x \<in> set (els m' a n)" for x using that by (auto simp: in_set_conv_nth)
  have X: "cmp x p < 0" if "x \<in> set xs" for x
  proof -
    have "x \<in> set (els m a d)" using that assms(12) by (metis set_mset_mset)
    then obtain k where "k < d" "x = els m a d ! k" by (auto simp: in_set_conv_nth)
    then show ?thesis using assms(1,2) els_part [of 0 k n d m a] by simp
  qed
  have Z: "cmp x p > 0" if "x \<in> set zs" for x
  proof -
    have "x \<in> set (els m (a + (n - r) * es) r)" using that assms(13) by (metis set_mset_mset)
    then obtain k where "k < r" "x = els m (a + (n - r) * es) r ! k" by (auto simp: in_set_conv_nth)
    then show ?thesis using assms(1,4) els_part [of "n - r" k n r m a] by simp
  qed
  have Y: "cmp x p = 0" if y: "x \<in> set ys" for x
  proof -
    obtain k where k: "k < n - r - d" "x = ys ! k" using y len by (metis in_set_conv_nth)
    then have "x = els m' a n ! (d + k)" unfolding assms(7) using assms(8) len by (simp add: nth_append)
    then show ?thesis using assms(3,14) k(1) by auto
  qed
  have el3: "length x = es" if "x \<in> set xs \<union> set ys \<union> set zs" for x using el that by (auto simp: assms(7))
  have le: "cmp x y \<le> 0" if "cmp x p \<le> 0" "cmp y p \<ge> 0" "length x = es" "length y = es" for x y
    using cmp_trans [of x p y] cmp_flip [of p y] that assms(5) by auto
  have "asc ys" using le Y el3 by (force simp: sorted_wrt_iff_nth_less)
  then have "asc (els m' a n)" unfolding assms(7) sorted_wrt_append
    using assms(10,11) X Y Z le el3 by (auto simp: order.strict_implies_order)
  then show ?thesis using assms(6) by (simp add: sorts_def)
qed

lemma els_apart:
  assumes "permutes es b k m m'" "apart b (k * es) a (d * es)"
  shows "els m' a d = els m a d"
  using assms by (intro elems_cong) (auto simp: permutes_def apart_def)

lemma sorts_parts:
  assumes "d + r < n" "\<forall>k < d. cmp (els m a n ! k) p < 0" "\<forall>k. d \<le> k \<longrightarrow> k < n - r \<longrightarrow> cmp (els m a n ! k) p = 0"
    "\<forall>k. n - r \<le> k \<longrightarrow> k < n \<longrightarrow> cmp (els m a n ! k) p > 0" "length p = es"
    "sorts a d m m1 \<and> sorts (a + (n - r) * es) r m1 m2 \<or> sorts (a + (n - r) * es) r m m1 \<and> sorts a d m1 m2"
  shows "sorts a n m m2"
proof -
  let ?R = "a + (n - r) * es"
  have ap: "apart a (d * es) ?R (r * es)" "apart ?R (r * es) a (d * es)"
    using mult_le_mono1 [of d "n - r" es] assms(1) by (auto simp: apart_def)
  have nr: "n - r + r = n" "0 + d \<le> n" using assms(1) by auto
  have parts: "els m2 a n = els m2 a d @ els m2 (a + d * es) (n - r - d) @ els m2 ?R r" for m2
    using elems_append [of es m2 a d "n - r - d + r"] elems_append [of es m2 "a + d * es" "n - r - d" r] assms(1)
    by (simp add: add.assoc add_mult_distrib [symmetric] diff_add_assoc [symmetric])
  have R: "permutes es a n x y \<and> (\<forall>k < n - r. els y a n ! k = els x a n ! k)" if "sorts ?R r x y" for x y
    using that permutes_part [of a "n - r" r x y n] nr(1) by (simp add: sorts_def)
  have L: "permutes es a n x y \<and> (\<forall>k < n. d \<le> k \<longrightarrow> els y a n ! k = els x a n ! k)" if "sorts a d x y" for x y
    using that permutes_part [of a 0 d x y n] nr(2) by (simp add: sorts_def)
  have "permutes es a n m m2 \<and> (\<forall>k. d \<le> k \<longrightarrow> k < n - r \<longrightarrow> els m2 a n ! k = els m a n ! k) \<and>
      asc (els m2 a d) \<and> asc (els m2 ?R r) \<and> mset (els m2 a d) = mset (els m a d) \<and> mset (els m2 ?R r) = mset (els m ?R r)"
    using assms(6)
  proof
    assume s: "sorts a d m m1 \<and> sorts ?R r m1 m2"
    then have e: "els m2 a d = els m1 a d" "els m1 ?R r = els m ?R r" using els_apart ap by (auto simp: sorts_def)
    show ?thesis using s e L [of m m1] R [of m1 m2] permutes_trans [of es a n m m1 m2] by (auto simp: sorts_def permutes_def)
  next
    assume s: "sorts ?R r m m1 \<and> sorts a d m1 m2"
    then have e: "els m2 ?R r = els m1 ?R r" "els m1 a d = els m a d" using els_apart ap by (auto simp: sorts_def)
    show ?thesis using s e R [of m m1] L [of m1 m2] permutes_trans [of es a n m m1 m2] by (auto simp: sorts_def permutes_def)
  qed
  then show ?thesis
    using assms(1-5) by (intro sorts_three [OF assms(1-5) _ parts]) auto
qed

lemma sorts_trans: "permutes es a n m m1 \<Longrightarrow> sorts a n m1 m2 \<Longrightarrow> sorts a n m m2"
  using permutes_trans by (auto simp: sorts_def)

lemma sorts_short: "n \<le> 1 \<Longrightarrow> sorts a n m m"
  by (cases n) (auto simp: sorts_def elems_def)

lemma qsort_loop_Nil: "qsort_loop cmp es st [] m = Some m"
  by (subst qsort_loop.simps) simp

lemma qsort_loop_ok:
  "valid_type st es \<Longrightarrow> \<exists>m'. sorts a n m m' \<and> qsort_loop cmp es st ((a, n) # stack) m = qsort_loop cmp es st stack m'"
proof (induction n arbitrary: a stack st m rule: less_induct)
  case (less n)
  show ?case
  proof (cases "n < 7")
    case True
    obtain m' where "insertion_sort cmp es st a n m = Some m'" "sorts a n m m'" using insertion_sort_ok [OF less.prems] by blast
    then show ?thesis using True by (subst qsort_loop.simps) auto
  next
    case False
    then obtain s p ia ib ic ie where s: "partition_array cmp es st a n m = Some s" "part_inv a n p s ia ib ic ie"
      "permutes es a n m (pt_mem s)" "ib = ic + 1"
      using partition_array_ok [OF less.prems, of n a m] by force
    show ?thesis
    proof (cases "swap_cnt s = 0")
      case True
      obtain m' where "insertion_sort cmp es st a n (pt_mem s) = Some m'" "sorts a n (pt_mem s) m'"
        using insertion_sort_ok [OF less.prems] by blast
      then show ?thesis using True False s(1) sorts_trans [OF s(3)] by (subst qsort_loop.simps) auto
    next
      case cnt: False
      define d r where "d = ib - ia" and "r = ie - ic"
      obtain m1 where g: "gather_equal es st a n s = (m1, d * es, r * es)" "permutes es a n (pt_mem s) m1" "d + r < n"
        "\<forall>k < d. cmp (els m1 a n ! k) p < 0" "\<forall>k. d \<le> k \<longrightarrow> k < n - r \<longrightarrow> cmp (els m1 a n ! k) p = 0"
        "\<forall>k. n - r \<le> k \<longrightarrow> k < n \<longrightarrow> cmp (els m1 a n ! k) p > 0"
        using gather_equal_ok [OF less.prems s(2,4)] unfolding d_def r_def by blast
      have p: "length p = es" using s(2) g(3) by (auto simp: part_inv_def)
      have pn: "a + n * es - r * es = a + (n - r) * es"
        using g(3) mult_le_mono1 [of r n es] by (simp add: diff_mult_distrib)
      define b nb sm ns where "b = (if r > d then a + (n - r) * es else a)" and "nb = (if r > d then r else d)"
        and "sm = (if r > d then a else a + (n - r) * es)" and "ns = (if r > d then d else r)"
      note choice = b_def nb_def sm_def ns_def
      have small: "ns < n" "nb < n" "ns \<le> nb" using g(3) by (auto simp: choice)
      have whole: "sorts a n m m3" if "sorts sm ns m1 m2" "sorts b nb m2 m3" for m2 m3
        using that sorts_trans [OF permutes_trans [OF s(3) g(2)]] sorts_parts [OF g(3-6) p, of m2 m3]
        by (auto simp: choice split: if_splits)
      obtain m2 m3 where srt: "sorts sm ns m1 m2" "sorts b nb m2 m3"
        and run: "qsort_loop cmp es st ((a, n) # stack) m = qsort_loop cmp es st stack m3"
      proof -
        have eq: "qsort_loop cmp es st ((a, n) # stack) m =
          (if ns > 1 \<and> length stack < PARAMETER_STACK_LEVELS then qsort_loop cmp es st ((sm, ns) # (b, nb) # stack) m1
           else Option.bind (if ns > 1 then qsort_loop cmp es (swap_type sm es) [(sm, ns)] m1 else Some m1)
             (\<lambda>m. if nb > 1 then qsort_loop cmp es st ((b, nb) # stack) m else qsort_loop cmp es st stack m))"
          using False cnt s(1) g(1) elem_size by (subst qsort_loop.simps) (simp add: choice pn Let_def)
        note IH = less.IH [OF small(1)] less.IH [OF small(2) less.prems]
        show thesis
        proof (cases "ns > 1")
          case True
          obtain m2 where m2: "sorts sm ns m1 m2" "length stack < PARAMETER_STACK_LEVELS \<Longrightarrow>
              qsort_loop cmp es st ((sm, ns) # (b, nb) # stack) m1 = qsort_loop cmp es st ((b, nb) # stack) m2"
            "\<not> length stack < PARAMETER_STACK_LEVELS \<Longrightarrow> qsort_loop cmp es (swap_type sm es) [(sm, ns)] m1 = Some m2"
            using IH(1) [OF less.prems, of sm m1 "(b, nb) # stack"] IH(1) [OF swap_type_valid, of sm m1 sm "[]"] qsort_loop_Nil by metis
          obtain m3 where "sorts b nb m2 m3" "qsort_loop cmp es st ((b, nb) # stack) m2 = qsort_loop cmp es st stack m3"
            using IH(2) by blast
          then show thesis using that [OF m2(1)] eq True m2(2,3) small(3) by auto
        next
          case False
          obtain m3 where "sorts b nb m1 m3"
            "(if nb > 1 then qsort_loop cmp es st ((b, nb) # stack) m1 else qsort_loop cmp es st stack m1) = qsort_loop cmp es st stack m3"
            using IH(2) [of b m1 stack] sorts_short [of nb b m1] by (cases "nb > 1") auto
          then show thesis using that [OF sorts_short] eq False by auto
        qed
      qed
      then show ?thesis using whole by blast
    qed
  qed
qed

lemma qsort_ok: "\<exists>m'. qsort cmp a n es m = Some m' \<and> sorts a n m m'"
  using qsort_loop_ok [OF swap_type_valid, of a n m a "[]"] by (auto simp: qsort_def qsort_loop_Nil)

end

section \<open>The comparison \<open>memcmp\<close>\<close>

text \<open>\<open>memcmp\<close> on two elements; \<open>pair_mem\<close> puts them next to each other.\<close>

definition pair_mem :: "u8 list \<Rightarrow> u8 list \<Rightarrow> mem" where
  "pair_mem x y = wr_bytes (\<lambda>_. 0) 0 (x @ y)"

definition memcmp_elems :: "nat \<Rightarrow> elem_cmp" where
  "memcmp_elems es x y = memcmp (pair_mem x y) 0 es (of_nat es)"

lemma memcmp_elems_loop:
  assumes "es < 2 ^ 31" "length x = es" "length y = es"
  shows "memcmp_elems es x y < 0 \<longleftrightarrow> ord_class.lexordp x y" "memcmp_elems es x y = 0 \<longleftrightarrow> x = y"
proof -
  have r: "rd_bytes (pair_mem x y) 0 es = x" "rd_bytes (pair_mem x y) es es = y"
    using assms(2,3) by (auto simp: pair_mem_def wr_bytes_apply nth_append intro!: nth_equalityI)
  have "nat (sint (of_nat es :: u32)) = es" using assms(1) by (simp add: signed_of_nat signed_take_bit_int_eq_self)
  then have "memcmp_elems es x y = memcmp_loop (pair_mem x y) 0 es es" by (simp add: memcmp_elems_def memcmp_def)
  then show "memcmp_elems es x y < 0 \<longleftrightarrow> ord_class.lexordp x y" "memcmp_elems es x y = 0 \<longleftrightarrow> x = y"
    by (simp_all add: memcmp_loop_less memcmp_loop_zero r)
qed

lemma memcmp_comparison:
  assumes "0 < es" "es < 2 ^ 31"
  shows "comparison (memcmp_elems es) es"
proof
  note less = memcmp_elems_loop(1) [OF assms(2)] and zero = memcmp_elems_loop(2) [OF assms(2)]
  show "memcmp_elems es x y < 0 \<longleftrightarrow> memcmp_elems es y x > 0" if "length x = es" "length y = es" for x y
    using less [OF that] zero [OF that] less [OF that(2,1)] zero [OF that(2,1)]
    by (metis lexordp_antisym lexordp_linear lexordp_irreflexive' linorder_neqE_linordered_idom not_less_iff_gr_or_eq)
  show "memcmp_elems es x z \<le> 0" if "length x = es" "length y = es" "length z = es"
    "memcmp_elems es x y \<le> 0" "memcmp_elems es y z \<le> 0" for x y z
    using less [of x y] zero [of x y] less [of y z] zero [of y z] less [of x z] zero [of x z] that lexordp_trans [of x y z] by force
qed (rule assms(1))

lemma memcmp_loop_cong:
  "rd_bytes m p n = rd_bytes m' p' n \<Longrightarrow> rd_bytes m q n = rd_bytes m' q' n \<Longrightarrow> memcmp_loop m p q n = memcmp_loop m' p' q' n"
  by (induction n arbitrary: p q p' q') auto

text \<open>What \<open>qsort\<close> sees of the comparison is \<open>memcmp\<close> on the memory.\<close>

lemma CMP_memcmp:
  assumes "es < 2 ^ 31"
  shows "CMP (memcmp_elems es) es m x y = memcmp m x y (of_nat es)"
proof -
  have "nat (sint (of_nat es :: u32)) = es" using assms by (simp add: signed_of_nat signed_take_bit_int_eq_self)
  moreover have "memcmp_loop (pair_mem (rd_bytes m x es) (rd_bytes m y es)) 0 es es = memcmp_loop m x y es"
    by (rule memcmp_loop_cong) (auto simp: pair_mem_def wr_bytes_apply nth_append intro!: nth_equalityI)
  ultimately show ?thesis by (simp add: CMP_def memcmp_elems_def memcmp_def)
qed

interpretation long_cmp: comparison "memcmp_elems 4" 4
  by (rule memcmp_comparison) simp_all

section \<open>Correctness\<close>

text \<open>C5: qsort returns for every array and every comparison that orders the elements; then the elements are the same
  ones in ascending order, and no byte outside the array has changed.\<close>

lemma qsort_correct:
  assumes "comparison cmp es"
  shows "\<exists>m'. qsort cmp a n es m = Some m' \<and> sorted_wrt (\<lambda>x y. cmp x y \<le> 0) (elems es m' a n) \<and>
    mset (elems es m' a n) = mset (elems es m a n) \<and> (\<forall>q. q < a \<or> a + n * es \<le> q \<longrightarrow> m' q = m q)"
  using comparison.qsort_ok [OF assms, of a n m] by (auto simp: comparison.sorts_def [OF assms] permutes_def)

definition demo_array :: mem where
  "demo_array = wr_bytes (\<lambda>_. 0) 0x1000 [0, 0, 0, 9, 0, 0, 0, 2, 0, 0, 1, 0]"

lemma qsort_witness:
  "\<exists>m'. qsort (memcmp_elems 4) 0x1000 3 4 demo_array = Some m' \<and>
    sorted_wrt (\<lambda>x y. memcmp_elems 4 x y \<le> 0) (elems 4 m' 0x1000 3) \<and>
    mset (elems 4 m' 0x1000 3) = {#[0, 0, 0, 9], [0, 0, 0, 2], [0, 0, 1, 0]#} \<and> m' 0x100C = 0"
proof -
  have "elems 4 demo_array 0x1000 3 = [[0, 0, 0, 9], [0, 0, 0, 2], [0, 0, 1, 0]]"
    by (simp add: elems_def demo_array_def upt_rec rd_bytes_conv wr_bytes_apply)
  moreover have "demo_array 0x100C = 0" by (simp add: demo_array_def wr_bytes_apply)
  ultimately show ?thesis
    using qsort_correct [OF long_cmp.comparison_axioms, of "0x1000" 3 demo_array] by auto
qed

end
