(* ===== verification/Kbd_Ring.thy ===== *)
theory Kbd_Ring
  imports Orion_Prelude
begin

text \<open>
  The keyboard ring buffers: \<open>drivers/kbd/ringbuffer.c\<close> on the 68000 (\<open>ring_buf_*\<close>) and
  \<open>peripheral/pico2W/ringbuffer.c\<close> in the keyboard firmware (\<open>kb_*\<close>). Both keep 256 bytes and two
  \<open>uint8_t\<close> indices that wrap around on their own, so the array is a function on bytes and every
  index is in range. The interface a client relies on is the locale \<open>byte_fifo\<close>; both rings are
  interpretations of it. The last part models the two sides that share the 68000 ring, the main
  program in \<open>ring_buf_get_char\<close> and the interrupt routine in \<open>ring_buf_put\<close>, statement by statement.
\<close>

section \<open>The ring of the 68000\<close>

record ringbuffer_t =
  rb_buffer :: "u8 \<Rightarrow> u8"
  rb_head :: u8
  rb_tail :: u8

definition ring_buf_init :: "ringbuffer_t \<Rightarrow> ringbuffer_t" where
  "ring_buf_init rb = rb\<lparr>rb_head := 0, rb_tail := 0\<rparr>"

definition ring_buf_get :: "ringbuffer_t \<Rightarrow> u8 \<times> ringbuffer_t" where
  "ring_buf_get rb = (rb_buffer rb (rb_tail rb), rb\<lparr>rb_tail := rb_tail rb + 1\<rparr>)"

definition ring_buf_put :: "u8 \<Rightarrow> ringbuffer_t \<Rightarrow> ringbuffer_t" where
  "ring_buf_put c rb =
     (let next_head = rb_head rb + 1 in
      if next_head = rb_tail rb then rb
      else rb\<lparr>rb_buffer := (rb_buffer rb)(rb_head rb := c), rb_head := next_head\<rparr>)"

definition ring_buf_is_empty :: "ringbuffer_t \<Rightarrow> bool" where
  "ring_buf_is_empty rb \<longleftrightarrow> rb_head rb = rb_tail rb"

definition ring_buf_is_full :: "ringbuffer_t \<Rightarrow> bool" where
  "ring_buf_is_full rb \<longleftrightarrow> rb_head rb + 1 = rb_tail rb"

section \<open>The ring of the keyboard firmware\<close>

definition kb_init :: "ringbuffer_t \<Rightarrow> ringbuffer_t" where
  "kb_init kb = kb\<lparr>rb_head := 0, rb_tail := 0\<rparr>"

definition kb_put :: "u8 \<Rightarrow> ringbuffer_t \<Rightarrow> bool \<times> ringbuffer_t" where
  "kb_put c kb =
     (let next_head = rb_head kb + 1 in
      if next_head = rb_tail kb then (False, kb)
      else (True, kb\<lparr>rb_buffer := (rb_buffer kb)(rb_head kb := c), rb_head := next_head\<rparr>))"

text \<open>\<open>None\<close> is the return value \<open>false\<close>, with the output argument left alone.\<close>

definition kb_get :: "ringbuffer_t \<Rightarrow> u8 option \<times> ringbuffer_t" where
  "kb_get kb =
     (if rb_head kb = rb_tail kb then (None, kb)
      else (Some (rb_buffer kb (rb_tail kb)), kb\<lparr>rb_tail := rb_tail kb + 1\<rparr>))"

definition kb_available :: "ringbuffer_t \<Rightarrow> bool" where
  "kb_available kb \<longleftrightarrow> rb_head kb \<noteq> rb_tail kb"

section \<open>The bytes a ring holds\<close>

definition ring_len :: "ringbuffer_t \<Rightarrow> nat" where
  "ring_len rb = unat (rb_head rb - rb_tail rb)"

definition ring_bytes :: "ringbuffer_t \<Rightarrow> u8 list" where
  "ring_bytes rb = map (\<lambda>i. rb_buffer rb (rb_tail rb + of_nat i)) [0..<ring_len rb]"

lemma ring_len_less: "ring_len rb < 256"
  by (simp add: ring_len_def)

lemma length_ring_bytes [simp]: "length (ring_bytes rb) = ring_len rb"
  by (simp add: ring_bytes_def)

lemma ring_len_0_iff: "ring_len rb = 0 \<longleftrightarrow> rb_head rb = rb_tail rb"
  by (simp add: ring_len_def unat_eq_0)

lemma unat_add_one_u8: "x + 1 \<noteq> 0 \<Longrightarrow> unat (x + 1) = Suc (unat x)" for x :: u8
  using unatSuc [of x] by (simp add: add.commute)

lemma diff_add_one_0_iff: "a - b + 1 = 0 \<longleftrightarrow> a + 1 = b" for a b :: u8
  by (simp only: diff_add_eq eq_iff_diff_eq_0 [of "a + 1" b])

lemma ring_len_full_iff: "ring_len rb = 255 \<longleftrightarrow> rb_head rb + 1 = rb_tail rb"
proof -
  let ?d = "rb_head rb - rb_tail rb"
  have "ring_len rb = 255 \<longleftrightarrow> ?d = 255"
    by (simp add: ring_len_def word_unat_eq_iff)
  also have "\<dots> \<longleftrightarrow> ?d + 1 = 0"
  proof -
    have m: "(255 :: u8) = - 1" by simp
    show ?thesis by (simp only: m eq_neg_iff_add_eq_0)
  qed
  also have "\<dots> \<longleftrightarrow> rb_head rb + 1 = rb_tail rb"
    by (rule diff_add_one_0_iff)
  finally show ?thesis .
qed

text \<open>Positions below the length are distinct array cells, and none is the next free cell.\<close>

lemma ring_cell_free: "i < ring_len rb \<Longrightarrow> rb_tail rb + of_nat i \<noteq> rb_head rb"
proof
  assume i: "i < ring_len rb" and "rb_tail rb + of_nat i = rb_head rb"
  then have "(of_nat i :: u8) = rb_head rb - rb_tail rb" by (simp add: algebra_simps)
  then have "unat (of_nat i :: u8) = ring_len rb" by (simp add: ring_len_def)
  moreover have "unat (of_nat i :: u8) = i" using i ring_len_less [of rb] by (simp add: of_nat_inverse)
  ultimately show False using i by simp
qed

lemma ring_len_put:
  assumes "rb_head rb + 1 \<noteq> rb_tail rb"
  shows "unat (rb_head rb + 1 - rb_tail rb) = Suc (ring_len rb)"
proof -
  have "rb_head rb - rb_tail rb + 1 \<noteq> 0"
    using assms diff_add_one_0_iff by blast
  then have "unat (rb_head rb - rb_tail rb + 1) = Suc (ring_len rb)"
    using unat_add_one_u8 by (simp add: ring_len_def)
  then show ?thesis by (simp add: add_diff_eq diff_add_eq)
qed

lemma ring_head_conv: "rb_tail rb + of_nat (ring_len rb) = rb_head rb"
  by (simp add: ring_len_def)

lemma ring_bytes_push:
  assumes "rb_head rb + 1 \<noteq> rb_tail rb"
  shows "ring_bytes (rb\<lparr>rb_buffer := (rb_buffer rb)(rb_head rb := c), rb_head := rb_head rb + 1\<rparr>)
    = ring_bytes rb @ [c]"
  using ring_len_put [OF assms] ring_cell_free [of _ rb] ring_head_conv [of rb]
  by (simp add: ring_bytes_def ring_len_def)

lemma ring_len_get:
  assumes "rb_head rb \<noteq> rb_tail rb"
  shows "Suc (unat (rb_head rb - (rb_tail rb + 1))) = ring_len rb"
proof -
  let ?d = "rb_head rb - (rb_tail rb + 1)"
  have "?d + 1 \<noteq> 0" using assms by (simp add: algebra_simps)
  then have "unat (?d + 1) = Suc (unat ?d)" by (rule unat_add_one_u8)
  then show ?thesis by (simp add: ring_len_def algebra_simps)
qed

lemma ring_bytes_pop:
  assumes "rb_head rb \<noteq> rb_tail rb"
  shows "ring_bytes rb = rb_buffer rb (rb_tail rb) # ring_bytes (rb\<lparr>rb_tail := rb_tail rb + 1\<rparr>)"
proof -
  have "[0..<ring_len rb] = 0 # map Suc [0..<unat (rb_head rb - (rb_tail rb + 1))]"
    using ring_len_get [OF assms] by (metis map_Suc_upt upt_rec zero_less_Suc)
  then show ?thesis
    by (simp add: ring_bytes_def ring_len_def [of "rb\<lparr>rb_tail := _\<rparr>"] add.assoc del: upt_Suc)
qed

section \<open>The interface of a bounded byte queue\<close>

locale byte_fifo =
  fixes put :: "u8 \<Rightarrow> 's \<Rightarrow> 's"
    and get :: "'s \<Rightarrow> u8 \<times> 's"
    and is_empty :: "'s \<Rightarrow> bool"
    and is_full :: "'s \<Rightarrow> bool"
    and contents :: "'s \<Rightarrow> u8 list"
    and capacity :: nat
  assumes put_room: "\<not> is_full s \<Longrightarrow> contents (put c s) = contents s @ [c]"
    and put_full: "is_full s \<Longrightarrow> put c s = s"
    and get_first: "\<not> is_empty s \<Longrightarrow> contents s = fst (get s) # contents (snd (get s))"
    and is_empty_iff: "is_empty s \<longleftrightarrow> contents s = []"
    and is_full_iff: "is_full s \<longleftrightarrow> length (contents s) = capacity"
    and bounded: "length (contents s) \<le> capacity"
begin

fun drain :: "nat \<Rightarrow> 's \<Rightarrow> u8 list \<times> 's" where
  "drain 0 s = ([], s)"
| "drain (Suc n) s =
     (if is_empty s then ([], s)
      else (let (c, s') = get s; (cs, s'') = drain n s' in (c # cs, s'')))"

lemma contents_put: "contents (put c s) = take capacity (contents s @ [c])"
  using put_room [of s c] put_full [of s c] is_full_iff [of s] bounded [of s]
  by (cases "is_full s") auto

lemma contents_put_list: "contents (fold put cs s) = take capacity (contents s @ cs)"
proof (induction cs arbitrary: s)
  case Nil
  then show ?case using bounded [of s] by simp
next
  case (Cons c cs)
  have "take capacity (take capacity (contents s @ [c]) @ cs) = take capacity (contents s @ c # cs)"
    by (cases "length (contents s) < capacity") (auto simp: take_Cons' not_less)
  then show ?case by (simp add: Cons.IH contents_put)
qed

lemma drain_eq: "drain n s = (cs, s') \<Longrightarrow> cs = take n (contents s) \<and> contents s' = drop n (contents s)"
proof (induction n arbitrary: s cs s')
  case 0
  then show ?case by simp
next
  case (Suc n)
  show ?case
  proof (cases "is_empty s")
    case True
    then show ?thesis using Suc.prems is_empty_iff [of s] by simp
  next
    case False
    then show ?thesis
      using Suc.prems Suc.IH get_first [OF False] by (auto split: prod.splits)
  qed
qed

text \<open>What goes in comes out in order, up to the capacity.\<close>

lemma fifo_order:
  "contents s = [] \<Longrightarrow> fst (drain (length cs) (fold put cs s)) = take capacity cs"
  using drain_eq [of "length cs" "fold put cs s"] contents_put_list [of cs s]
  by (cases "drain (length cs) (fold put cs s)") (simp add: min_def)

end

lemma ring_buf_get_first:
  "\<not> ring_buf_is_empty rb \<Longrightarrow> ring_bytes rb = fst (ring_buf_get rb) # ring_bytes (snd (ring_buf_get rb))"
  using ring_bytes_pop [of rb] by (simp add: ring_buf_get_def ring_buf_is_empty_def)

interpretation ring: byte_fifo ring_buf_put ring_buf_get ring_buf_is_empty ring_buf_is_full ring_bytes 255
proof
  show "ring_bytes (ring_buf_put c s) = ring_bytes s @ [c]" if "\<not> ring_buf_is_full s" for c s
    using that ring_bytes_push [of s c] by (simp add: ring_buf_put_def ring_buf_is_full_def Let_def)
  show "length (ring_bytes s) \<le> 255" for s
    using ring_len_less [of s] by simp
qed (simp_all add: ring_buf_put_def ring_buf_is_full_def ring_buf_is_empty_def ring_buf_get_first
  ring_len_full_iff ring_len_0_iff flip: length_0_conv)

interpretation kb: byte_fifo "\<lambda>c s. snd (kb_put c s)" "\<lambda>s. (the (fst (kb_get s)), snd (kb_get s))"
  "\<lambda>s. \<not> kb_available s" "\<lambda>s. \<not> fst (kb_put 0 s)" ring_bytes 255
proof
  show "ring_bytes (snd (kb_put c s)) = ring_bytes s @ [c]" if "\<not> \<not> fst (kb_put 0 s)" for c s
    using that ring_bytes_push [of s c] by (simp add: kb_put_def Let_def split: if_splits)
  show "length (ring_bytes s) \<le> 255" for s
    using ring_len_less [of s] by simp
  show "ring_bytes s = fst (the (fst (kb_get s)), snd (kb_get s)) #
      ring_bytes (snd (the (fst (kb_get s)), snd (kb_get s)))" if "\<not> \<not> kb_available s" for s
    using that ring_bytes_pop [of s] by (simp add: kb_get_def kb_available_def)
qed (auto simp: kb_put_def kb_available_def Let_def ring_len_full_iff ring_len_0_iff
  simp flip: length_0_conv)

section \<open>The main program and the interrupt routine\<close>

text \<open>
  \<open>ring_buf_get_char\<close> polls the ring and then takes one byte. Its machine-level steps are the read of
  \<open>head\<close>, the comparison with \<open>tail\<close>, the read of the byte and the advance of \<open>tail\<close>; the keyboard
  interrupt runs \<open>ring_buf_put\<close> to completion between any two of them. \<open>sh_accepted\<close> and \<open>sh_returned\<close>
  record the bytes the ring took and the bytes the calls returned.
\<close>

datatype get_pc = Idle | LoadHead | Compare u8 | ReadByte | Advance u8

record ring_shared =
  sh_ring :: ringbuffer_t
  sh_pc :: get_pc
  sh_accepted :: "u8 list"
  sh_returned :: "u8 list"

datatype ring_event = Isr u8 | Main

fun ring_buf_get_char_step :: "ring_shared \<Rightarrow> ring_shared" where
  "ring_buf_get_char_step s =
     (let rb = sh_ring s in
      case sh_pc s of
        Idle \<Rightarrow> s\<lparr>sh_pc := LoadHead\<rparr>
      | LoadHead \<Rightarrow> s\<lparr>sh_pc := Compare (rb_head rb)\<rparr>
      | Compare h \<Rightarrow> s\<lparr>sh_pc := (if h = rb_tail rb then LoadHead else ReadByte)\<rparr>
      | ReadByte \<Rightarrow> s\<lparr>sh_pc := Advance (rb_buffer rb (rb_tail rb))\<rparr>
      | Advance c \<Rightarrow> s\<lparr>sh_ring := rb\<lparr>rb_tail := rb_tail rb + 1\<rparr>, sh_pc := Idle,
                      sh_returned := sh_returned s @ [c]\<rparr>)"

fun ring_event_step :: "ring_event \<Rightarrow> ring_shared \<Rightarrow> ring_shared" where
  "ring_event_step (Isr c) s =
     s\<lparr>sh_ring := ring_buf_put c (sh_ring s),
       sh_accepted := sh_accepted s @ (if ring_buf_is_full (sh_ring s) then [] else [c])\<rparr>"
| "ring_event_step Main s = ring_buf_get_char_step s"

definition ring_start :: "ringbuffer_t \<Rightarrow> ring_shared" where
  "ring_start rb = \<lparr>sh_ring = ring_buf_init rb, sh_pc = Idle, sh_accepted = [], sh_returned = []\<rparr>"

text \<open>What each program point knows about the ring; the interrupt can only make it longer.\<close>

fun pc_inv :: "get_pc \<Rightarrow> ringbuffer_t \<Rightarrow> bool" where
  "pc_inv (Compare h) rb \<longleftrightarrow> h \<noteq> rb_tail rb \<longrightarrow> ring_bytes rb \<noteq> []"
| "pc_inv ReadByte rb \<longleftrightarrow> ring_bytes rb \<noteq> []"
| "pc_inv (Advance c) rb \<longleftrightarrow> (\<exists>cs. ring_bytes rb = c # cs)"
| "pc_inv _ rb \<longleftrightarrow> True"

definition ring_inv :: "ring_shared \<Rightarrow> bool" where
  "ring_inv s \<longleftrightarrow> sh_accepted s = sh_returned s @ ring_bytes (sh_ring s) \<and> pc_inv (sh_pc s) (sh_ring s)"

lemma ring_bytes_Nil_iff: "ring_bytes rb = [] \<longleftrightarrow> rb_head rb = rb_tail rb"
  using ring.is_empty_iff by (simp add: ring_buf_is_empty_def)

lemma ring_bytes_first: "ring_bytes rb \<noteq> [] \<Longrightarrow> \<exists>cs. ring_bytes rb = rb_buffer rb (rb_tail rb) # cs"
  using ring_bytes_pop [of rb] by (auto simp: ring_bytes_Nil_iff)

lemma ring_bytes_tl:
  "ring_bytes rb = c # cs \<Longrightarrow> ring_bytes (rb\<lparr>rb_tail := rb_tail rb + 1\<rparr>) = cs"
  using ring_bytes_pop [of rb] ring_bytes_Nil_iff [of rb] by auto

lemma ring_put_tail [simp]: "rb_tail (ring_buf_put c rb) = rb_tail rb"
  by (simp add: ring_buf_put_def Let_def)

lemma pc_inv_put: "pc_inv pc rb \<Longrightarrow> pc_inv pc (ring_buf_put c rb)"
  by (cases pc; cases "ring_buf_is_full rb") (auto simp: ring.put_full ring.put_room)

lemma ring_inv_main: "ring_inv s \<Longrightarrow> ring_inv (ring_buf_get_char_step s)"
  using ring_bytes_Nil_iff [of "sh_ring s"] ring_bytes_first [of "sh_ring s"]
  by (cases "sh_pc s") (auto simp: ring_inv_def Let_def ring_bytes_tl)

lemma ring_inv_event: "ring_inv s \<Longrightarrow> ring_inv (ring_event_step e s)"
proof (cases e)
  case (Isr c)
  moreover assume "ring_inv s"
  ultimately show ?thesis
    by (cases "ring_buf_is_full (sh_ring s)")
      (simp_all add: ring_inv_def pc_inv_put ring.put_full ring.put_room)
qed (simp del: ring_buf_get_char_step.simps add: ring_inv_main)

lemma ring_inv_events: "ring_inv s \<Longrightarrow> ring_inv (fold ring_event_step es s)"
  by (induction es arbitrary: s) (auto intro: ring_inv_event)

lemma ring_bytes_init [simp]: "ring_bytes (ring_buf_init rb) = []"
  by (simp add: ring_bytes_Nil_iff ring_buf_init_def)

section \<open>Properties\<close>

text \<open>Bytes put into the freshly initialised ring come out of it in the order they went in; the
  ring keeps the first 255 and drops the rest.\<close>

theorem ring_buf_fifo:
  "ring_bytes (fold ring_buf_put cs (ring_buf_init rb)) = take 255 cs \<and>
   fst (ring.drain (length cs) (fold ring_buf_put cs (ring_buf_init rb))) = take 255 cs"
  using ring.fifo_order [of "ring_buf_init rb" cs] by (simp add: ring.contents_put_list)

text \<open>C12: for every interleaving of the steps of \<open>ring_buf_get_char\<close> with keyboard interrupts, the
  bytes the ring accepted are the bytes the calls have returned followed by the bytes still in the
  ring: none is lost, duplicated or reordered.\<close>

theorem ring_isr_interleaving:
  "sh_accepted (fold ring_event_step es (ring_start rb)) =
   sh_returned (fold ring_event_step es (ring_start rb)) @
   ring_bytes (sh_ring (fold ring_event_step es (ring_start rb)))"
  using ring_inv_events [of "ring_start rb" es] by (simp add: ring_inv_def ring_start_def)

text \<open>A call of \<open>ring_buf_get_char\<close> on a ring that holds a byte returns after five steps with
  the oldest byte.\<close>

theorem ring_get_char_returns:
  assumes "sh_pc s = Idle" "ring_bytes (sh_ring s) = c # cs"
  shows "\<exists>s'. (ring_buf_get_char_step ^^ 5) s = s' \<and> sh_pc s' = Idle \<and>
    sh_returned s' = sh_returned s @ [c] \<and> ring_bytes (sh_ring s') = cs"
  using assms ring_bytes_Nil_iff [of "sh_ring s"] ring_bytes_first [of "sh_ring s"]
  by (auto simp: eval_nat_numeral Let_def ring_bytes_tl)

text \<open>\<open>ring_buf_get\<close> does not test for an empty ring: called on one, it returns a stale byte and
  leaves a ring that reports 255 bytes and is full.\<close>

theorem ring_buf_get_underflow:
  assumes "ring_buf_is_empty rb"
  shows "ring_len (snd (ring_buf_get rb)) = 255 \<and> ring_buf_is_full (snd (ring_buf_get rb))"
  using assms by (simp add: ring_buf_get_def ring_buf_is_empty_def ring_buf_is_full_def ring_len_full_iff)

definition demo_ring :: ringbuffer_t where
  "demo_ring = \<lparr>rb_buffer = (\<lambda>_. 0), rb_head = 254, rb_tail = 254\<rparr>"

lemma demo_ring_bytes: "ring_bytes (ring_buf_put 66 (ring_buf_put 65 demo_ring)) = [65, 66]"
  using ring.contents_put_list [of "[65, 66]" demo_ring] ring_bytes_Nil_iff [of demo_ring]
  by (simp add: demo_ring_def ring_len_def)

theorem ring_get_char_witness:
  "\<exists>s'. (ring_buf_get_char_step ^^ 5)
      \<lparr>sh_ring = ring_buf_put 66 (ring_buf_put 65 demo_ring), sh_pc = Idle,
       sh_accepted = [65, 66], sh_returned = []\<rparr> = s' \<and> sh_returned s' = [65] \<and>
      ring_bytes (sh_ring s') = [66]"
  using ring_get_char_returns [of "\<lparr>sh_ring = ring_buf_put 66 (ring_buf_put 65 demo_ring), sh_pc = Idle,
       sh_accepted = [65, 66], sh_returned = []\<rparr>" 65 "[66]"]
  by (simp add: demo_ring_bytes del: ring_buf_get_char_step.simps)

theorem ring_buf_get_underflow_witness: "ring_buf_is_full (snd (ring_buf_get demo_ring))"
  using ring_buf_get_underflow [of demo_ring] by (simp add: demo_ring_def ring_buf_is_empty_def)

end
