(* ===== verification/Rtc_I2c.thy ===== *)
theory Rtc_I2c
  imports Orion_Prelude
begin

text \<open>
  \<open>drivers/rtc/i2cbb.c\<close>, \<open>drivers/rtc/get_fattime.c\<close>: the I2C bus made of three pins of the DUART, and the
  clock (DS3231) and EEPROM (AT24C32) on it. The pins are a record of register accesses; the delays
  between edges are steps that change nothing on the bus. What the bus does with the edges of the two
  lines is stated from the I2C specification (\<open>bus_scl\<close>, \<open>bus_sda\<close>), for any device that takes and gives bytes;
  the locale \<open>i2c_bus\<close> says that the registers are connected to it.
\<close>

section \<open>The lines\<close>

record 's duart_pins =
  dr_ipr :: "'s \<Rightarrow> u8 \<times> 's"
  dr_sopr :: "u8 \<Rightarrow> 's \<Rightarrow> 's"
  dr_ropr :: "u8 \<Rightarrow> 's \<Rightarrow> 's"
  dr_nops :: "'s \<Rightarrow> 's"

definition SCL_BIT :: u8 where "SCL_BIT = 0x20"
definition SDA_OUT_BIT :: u8 where "SDA_OUT_BIT = 0x80"
definition SDA_IN_BIT :: u8 where "SDA_IN_BIT = 0x01"
definition DS3231_ADDR :: u8 where "DS3231_ADDR = 0x68"
definition EEPROM_ADDR :: u8 where "EEPROM_ADDR = 0x50"

definition i2c_delay :: "'s duart_pins \<Rightarrow> 's \<Rightarrow> 's" where
  "i2c_delay pins s = dr_nops pins s"

definition scl_high :: "'s duart_pins \<Rightarrow> 's \<Rightarrow> 's" where
  "scl_high pins s = dr_ropr pins SCL_BIT s"

definition scl_low :: "'s duart_pins \<Rightarrow> 's \<Rightarrow> 's" where
  "scl_low pins s = dr_sopr pins SCL_BIT s"

definition sda_high :: "'s duart_pins \<Rightarrow> 's \<Rightarrow> 's" where
  "sda_high pins s = dr_ropr pins SDA_OUT_BIT s"

definition sda_low :: "'s duart_pins \<Rightarrow> 's \<Rightarrow> 's" where
  "sda_low pins s = dr_sopr pins SDA_OUT_BIT s"

definition sda_read :: "'s duart_pins \<Rightarrow> 's \<Rightarrow> u8 \<times> 's" where
  "sda_read pins s = (let (v, s) = dr_ipr pins s in (if v AND SDA_IN_BIT \<noteq> 0 then 1 else 0, s))"

definition i2c_start :: "'s duart_pins \<Rightarrow> 's \<Rightarrow> 's" where
  "i2c_start pins s =
     (let s = sda_high pins s; s = scl_high pins s; s = i2c_delay pins s;
          s = sda_low pins s; s = i2c_delay pins s; s = scl_low pins s
      in i2c_delay pins s)"

definition i2c_stop :: "'s duart_pins \<Rightarrow> 's \<Rightarrow> 's" where
  "i2c_stop pins s =
     (let s = sda_low pins s; s = scl_high pins s; s = i2c_delay pins s; s = sda_high pins s in i2c_delay pins s)"

fun i2c_write_bits :: "'s duart_pins \<Rightarrow> nat \<Rightarrow> u8 \<Rightarrow> 's \<Rightarrow> 's" where
  "i2c_write_bits pins 0 data s = s"
| "i2c_write_bits pins (Suc n) data s =
     (let s = (if data AND 0x80 \<noteq> 0 then sda_high pins s else sda_low pins s);
          s = i2c_delay pins s; s = scl_high pins s; s = i2c_delay pins s; s = scl_low pins s
      in i2c_write_bits pins n (push_bit 1 data) s)"

definition i2c_write_byte :: "'s duart_pins \<Rightarrow> u8 \<Rightarrow> 's \<Rightarrow> u8 \<times> 's" where
  "i2c_write_byte pins data s =
     (let s = i2c_write_bits pins 8 data s;
          s = sda_high pins s; s = i2c_delay pins s; s = scl_high pins s; s = i2c_delay pins s;
          (ack, s) = sda_read pins s
      in (ack, scl_low pins s))"

fun i2c_read_bits :: "'s duart_pins \<Rightarrow> nat \<Rightarrow> u8 \<Rightarrow> 's \<Rightarrow> u8 \<times> 's" where
  "i2c_read_bits pins 0 data s = (data, s)"
| "i2c_read_bits pins (Suc n) data s =
     (let data = push_bit 1 data; s = scl_high pins s; s = i2c_delay pins s;
          (v, s) = sda_read pins s; data = (if v \<noteq> 0 then data OR 1 else data);
          s = scl_low pins s; s = i2c_delay pins s
      in i2c_read_bits pins n data s)"

definition i2c_read_byte :: "'s duart_pins \<Rightarrow> u8 \<Rightarrow> 's \<Rightarrow> u8 \<times> 's" where
  "i2c_read_byte pins ack s =
     (let s = sda_high pins s;
          (data, s) = i2c_read_bits pins 8 0 s;
          s = (if ack \<noteq> 0 then sda_low pins s else sda_high pins s);
          s = i2c_delay pins s; s = scl_high pins s; s = i2c_delay pins s; s = scl_low pins s
      in (data, sda_high pins s))"

section \<open>The clock\<close>

definition bcd2bin :: "u8 \<Rightarrow> u8" where
  "bcd2bin val = drop_bit 4 val * 10 + (val AND 0x0F)"

definition bin2bcd :: "u8 \<Rightarrow> u8" where
  "bin2bcd val = push_bit 4 (val div 10) OR val mod 10"

record rtc_time_t =
  rt_sec :: u8
  rt_min :: u8
  rt_hour :: u8
  rt_mday :: u8
  rt_mon :: u8
  rt_year :: u8

text \<open>\<open>None\<close> is the null pointer; the time behind the pointer is returned as the call leaves it.\<close>

definition ds3231_read_time :: "'s duart_pins \<Rightarrow> rtc_time_t option \<Rightarrow> 's \<Rightarrow> u8 \<times> rtc_time_t option \<times> 's" where
  "ds3231_read_time pins tp s =
     (case tp of None \<Rightarrow> (1, None, s)
      | Some t \<Rightarrow>
          (let s = i2c_start pins s; (nack, s) = i2c_write_byte pins (push_bit 1 DS3231_ADDR OR 0) s in
           if nack \<noteq> 0 then (1, Some t, i2c_stop pins s)
           else
             (let (_, s) = i2c_write_byte pins 0x00 s;
                  s = i2c_start pins s;
                  (_, s) = i2c_write_byte pins (push_bit 1 DS3231_ADDR OR 1) s;
                  (v, s) = i2c_read_byte pins 1 s; t = t\<lparr>rt_sec := bcd2bin (v AND 0x7F)\<rparr>;
                  (v, s) = i2c_read_byte pins 1 s; t = t\<lparr>rt_min := bcd2bin v\<rparr>;
                  (v, s) = i2c_read_byte pins 1 s; t = t\<lparr>rt_hour := bcd2bin (v AND 0x3F)\<rparr>;
                  (_, s) = i2c_read_byte pins 1 s;
                  (v, s) = i2c_read_byte pins 1 s; t = t\<lparr>rt_mday := bcd2bin v\<rparr>;
                  (v, s) = i2c_read_byte pins 1 s; t = t\<lparr>rt_mon := bcd2bin (v AND 0x1F)\<rparr>;
                  (v, s) = i2c_read_byte pins 0 s; t = t\<lparr>rt_year := bcd2bin v\<rparr>
              in (0, Some t, i2c_stop pins s))))"

definition ds3231_set_time :: "'s duart_pins \<Rightarrow> rtc_time_t option \<Rightarrow> 's \<Rightarrow> 's" where
  "ds3231_set_time pins tp s =
     (case tp of None \<Rightarrow> s
      | Some t \<Rightarrow>
          (let s = i2c_start pins s; (nack, s) = i2c_write_byte pins (push_bit 1 DS3231_ADDR OR 0) s in
           if nack \<noteq> 0 then i2c_stop pins s
           else
             (let (_, s) = i2c_write_byte pins 0x00 s;
                  (_, s) = i2c_write_byte pins (bin2bcd (rt_sec t)) s;
                  (_, s) = i2c_write_byte pins (bin2bcd (rt_min t)) s;
                  (_, s) = i2c_write_byte pins (bin2bcd (rt_hour t)) s;
                  (_, s) = i2c_write_byte pins 0x01 s;
                  (_, s) = i2c_write_byte pins (bin2bcd (rt_mday t)) s;
                  (_, s) = i2c_write_byte pins (bin2bcd (rt_mon t)) s;
                  (_, s) = i2c_write_byte pins (bin2bcd (rt_year t)) s
              in i2c_stop pins s)))"

section \<open>The EEPROM\<close>

definition eeprom_write_byte :: "'s duart_pins \<Rightarrow> u16 \<Rightarrow> u8 \<Rightarrow> 's \<Rightarrow> 's" where
  "eeprom_write_byte pins addr data s =
     (let s = i2c_start pins s; (nack, s) = i2c_write_byte pins (push_bit 1 EEPROM_ADDR OR 0) s in
      if nack \<noteq> 0 then i2c_stop pins s
      else
        (let (_, s) = i2c_write_byte pins (ucast (drop_bit 8 addr)) s;
             (_, s) = i2c_write_byte pins (ucast (addr AND 0xFF)) s;
             (_, s) = i2c_write_byte pins data s
         in i2c_stop pins s))"

definition eeprom_read_byte :: "'s duart_pins \<Rightarrow> u16 \<Rightarrow> 's \<Rightarrow> u8 \<times> 's" where
  "eeprom_read_byte pins addr s =
     (let s = i2c_start pins s; (nack, s) = i2c_write_byte pins (push_bit 1 EEPROM_ADDR OR 0) s in
      if nack \<noteq> 0 then (0xFF, i2c_stop pins s)
      else
        (let (_, s) = i2c_write_byte pins (ucast (drop_bit 8 addr)) s;
             (_, s) = i2c_write_byte pins (ucast (addr AND 0xFF)) s;
             s = i2c_start pins s;
             (_, s) = i2c_write_byte pins (push_bit 1 EEPROM_ADDR OR 1) s;
             (val, s) = i2c_read_byte pins 0 s
         in (val, i2c_stop pins s)))"

section \<open>Detection and set-up\<close>

definition ds3231_probe :: "'s duart_pins \<Rightarrow> 's \<Rightarrow> u8 \<times> 's" where
  "ds3231_probe pins s =
     (let s = i2c_start pins s; (ack, s) = i2c_write_byte pins (push_bit 1 DS3231_ADDR OR 0) s; s = i2c_stop pins s
      in (if ack = 0 then 1 else 0, s))"

definition rtc_init :: "'s duart_pins \<Rightarrow> 's \<Rightarrow> u8 \<times> 's" where
  "rtc_init pins s =
     (let s = scl_high pins s; s = sda_high pins s; s = i2c_delay pins s; (found, s) = ds3231_probe pins s in
      if found = 0 then (0, s)
      else
        (let s = i2c_start pins s;
             (ack, s) = i2c_write_byte pins (push_bit 1 DS3231_ADDR OR 0) s;
             s = (if ack = 0
                  then (let (_, s) = i2c_write_byte pins 0x0E s; (_, s) = i2c_write_byte pins 0x00 s in s)
                  else s)
         in (1, i2c_stop pins s)))"

text \<open>The time stamp of FatFs; the date comes from a function of another driver.\<close>

record RTC_Time =
  ft_year :: u16
  ft_month :: u8
  ft_day :: u8
  ft_hour :: u8
  ft_min :: u8
  ft_sec :: u8

definition get_fattime :: "RTC_Time \<Rightarrow> u32" where
  "get_fattime t =
     push_bit 25 (ucast (ft_year t) - 1980) OR push_bit 21 (ucast (ft_month t)) OR push_bit 16 (ucast (ft_day t)) OR
     push_bit 11 (ucast (ft_hour t)) OR push_bit 5 (ucast (ft_min t)) OR ucast (ft_sec t div 2)"

section \<open>The bus\<close>

text \<open>
  A device on the bus: what it does with an address byte (\<open>None\<close>: it is not meant), with a byte written to it,
  when it is asked for a byte, and at a STOP.
\<close>

record 'd i2c_dev =
  dv_addr :: "u8 \<Rightarrow> 'd \<Rightarrow> 'd option"
  dv_recv :: "u8 \<Rightarrow> 'd \<Rightarrow> 'd"
  dv_send :: "'d \<Rightarrow> u8 \<times> 'd"
  dv_stop :: "'d \<Rightarrow> 'd"

text \<open>
  The phases of a transfer: nothing for this device (\<open>Quiet\<close>); the bits of a byte come in (\<open>Recv\<close>, with whether
  it is the address); the device acknowledges (\<open>Ack\<close>, with whether it will send); it puts out bits (\<open>Send\<close>); the master
  answers (\<open>Answer\<close>).
\<close>

datatype phase = Quiet | Recv bool "bool list" | Ack bool | Send "bool list" | Answer "bool option"

record 'd bus =
  b_scl :: bool
  b_sda :: bool
  b_ph :: phase
  b_dev :: 'd

definition bits :: "u8 \<Rightarrow> bool list" where
  "bits v = map (bit v) [7, 6, 5, 4, 3, 2, 1, 0]"

definition byte_of :: "bool list \<Rightarrow> u8" where
  "byte_of bs = horner_sum of_bool 2 (rev bs)"

text \<open>The level of the data line: low when the master or the device pulls it down.\<close>

definition bus_level :: "'d bus \<Rightarrow> bool" where
  "bus_level L \<longleftrightarrow> b_sda L \<and> (case b_ph L of Ack _ \<Rightarrow> False | Send (b # _) \<Rightarrow> b | _ \<Rightarrow> True)"

definition bus_sda :: "'d i2c_dev \<Rightarrow> bool \<Rightarrow> 'd bus \<Rightarrow> 'd bus" where
  "bus_sda dev b L =
     (let L' = L\<lparr>b_sda := b\<rparr> in
      if b_scl L \<and> bus_level L \<and> \<not> bus_level L' then L'\<lparr>b_ph := Recv True []\<rparr>
      else if b_scl L \<and> \<not> bus_level L \<and> bus_level L' then L'\<lparr>b_ph := Quiet, b_dev := dv_stop dev (b_dev L)\<rparr>
      else L')"

text \<open>A byte has come in: the phase and the device after it.\<close>

definition bus_byte :: "'d i2c_dev \<Rightarrow> bool \<Rightarrow> u8 \<Rightarrow> 'd \<Rightarrow> phase \<times> 'd" where
  "bus_byte dev first v d =
     (if first then (case dv_addr dev v d of None \<Rightarrow> (Quiet, d) | Some d' \<Rightarrow> (Ack (bit v 0), d'))
      else (Ack False, dv_recv dev v d))"

definition bus_load :: "'d i2c_dev \<Rightarrow> 'd \<Rightarrow> phase \<times> 'd" where
  "bus_load dev d = (let (v, d) = dv_send dev d in (Send (bits v), d))"

definition bus_fall :: "'d i2c_dev \<Rightarrow> phase \<Rightarrow> 'd \<Rightarrow> phase \<times> 'd" where
  "bus_fall dev ph d =
     (case ph of
        Recv first bs \<Rightarrow> if length bs = 8 then bus_byte dev first (byte_of bs) d else (ph, d)
      | Ack sends \<Rightarrow> if sends then bus_load dev d else (Recv False [], d)
      | Send bs \<Rightarrow> (if tl bs = [] then Answer None else Send (tl bs), d)
      | Answer (Some True) \<Rightarrow> bus_load dev d
      | Answer (Some False) \<Rightarrow> (Quiet, d)
      | _ \<Rightarrow> (ph, d))"

definition bus_rise :: "bool \<Rightarrow> phase \<Rightarrow> phase" where
  "bus_rise level ph =
     (case ph of Recv first bs \<Rightarrow> Recv first (bs @ [level]) | Answer _ \<Rightarrow> Answer (Some (\<not> level)) | _ \<Rightarrow> ph)"

definition bus_scl :: "'d i2c_dev \<Rightarrow> bool \<Rightarrow> 'd bus \<Rightarrow> 'd bus" where
  "bus_scl dev b L =
     (if b = b_scl L then L
      else if b then L\<lparr>b_scl := True, b_ph := bus_rise (bus_level L) (b_ph L)\<rparr>
      else (let (ph, d) = bus_fall dev (b_ph L) (b_dev L) in L\<lparr>b_scl := False, b_ph := ph, b_dev := d\<rparr>))"

text \<open>The pins are connected to the bus.\<close>

locale i2c_bus =
  fixes pins :: "'s duart_pins" and dev :: "'d i2c_dev" and lines :: "'s \<Rightarrow> 'd bus"
  assumes scl_up: "lines (dr_ropr pins SCL_BIT s) = bus_scl dev True (lines s)"
    and scl_down: "lines (dr_sopr pins SCL_BIT s) = bus_scl dev False (lines s)"
    and sda_up: "lines (dr_ropr pins SDA_OUT_BIT s) = bus_sda dev True (lines s)"
    and sda_down: "lines (dr_sopr pins SDA_OUT_BIT s) = bus_sda dev False (lines s)"
    and nops: "lines (dr_nops pins s) = lines s"
    and pin_read: "lines (snd (dr_ipr pins s)) = lines s"
    and pin_level: "fst (dr_ipr pins s) AND SDA_IN_BIT \<noteq> 0 \<longleftrightarrow> bus_level (lines s)"
begin

lemmas line_defs = scl_high_def scl_low_def sda_high_def sda_low_def i2c_delay_def

lemmas line_laws = scl_up scl_down sda_up sda_down nops pin_read

lemma sda_read_level: "sda_read pins s = (if bus_level (lines s) then 1 else 0, snd (dr_ipr pins s))"
  using pin_level [of s] by (simp add: sda_read_def split_def)

lemma start_ok:
  assumes "lines s = \<lparr>b_scl = c, b_sda = x, b_ph = ph, b_dev = d\<rparr>"
    and "c \<longrightarrow> x" "ph = Quiet \<or> (\<exists>f bs. ph = Recv f bs)"
  shows "lines (i2c_start pins s) = \<lparr>b_scl = False, b_sda = False, b_ph = Recv True [], b_dev = d\<rparr>"
  using assms(2,3)
  by (auto simp: i2c_start_def line_defs line_laws assms(1) Let_def bus_scl_def bus_sda_def bus_level_def bus_rise_def bus_fall_def)

lemma stop_ok:
  assumes "lines s = \<lparr>b_scl = False, b_sda = x, b_ph = ph, b_dev = d\<rparr>" "ph = Quiet \<or> (\<exists>f bs. ph = Recv f bs)"
  shows "lines (i2c_stop pins s) = \<lparr>b_scl = True, b_sda = True, b_ph = Quiet, b_dev = dv_stop dev d\<rparr>"
  using assms(2)
  by (auto simp: i2c_stop_def line_defs line_laws assms(1) Let_def bus_scl_def bus_sda_def bus_level_def bus_rise_def bus_fall_def)

lemma write_bit_recv:
  assumes "lines s = \<lparr>b_scl = False, b_sda = x, b_ph = Recv f bs, b_dev = d\<rparr>"
  shows "lines (scl_low pins (i2c_delay pins (scl_high pins (i2c_delay pins (if b then sda_high pins s else sda_low pins s))))) =
    (let (ph, d') = (if length bs = 7 then bus_byte dev f (byte_of (bs @ [b])) d else (Recv f (bs @ [b]), d))
     in \<lparr>b_scl = False, b_sda = b, b_ph = ph, b_dev = d'\<rparr>)"
  by (auto simp: line_defs line_laws assms Let_def bus_scl_def bus_sda_def bus_level_def bus_rise_def bus_fall_def split: prod.splits)

lemma write_bit_quiet:
  assumes "lines s = \<lparr>b_scl = False, b_sda = x, b_ph = Quiet, b_dev = d\<rparr>"
  shows "lines (scl_low pins (i2c_delay pins (scl_high pins (i2c_delay pins (if b then sda_high pins s else sda_low pins s))))) =
    \<lparr>b_scl = False, b_sda = b, b_ph = Quiet, b_dev = d\<rparr>"
  by (auto simp: line_defs line_laws assms Let_def bus_scl_def bus_sda_def bus_level_def bus_rise_def bus_fall_def split: prod.splits)

lemma top_bit: "data AND 0x80 \<noteq> 0 \<longleftrightarrow> bit (data :: u8) 7"
  using and_exp_eq_0_iff_not_bit [of data 7] by simp

lemma shl_bit: "bit (data * 2 :: u8) j \<longleftrightarrow> 0 < j \<and> j < 8 \<and> bit data (j - 1)"
  using bit_push_bit_iff [of 1 data j] by (auto simp: Suc_le_eq)

lemma write_bits_recv:
  "lines s = \<lparr>b_scl = False, b_sda = x, b_ph = Recv f bs, b_dev = d\<rparr> \<Longrightarrow> length bs + Suc n = 8 \<Longrightarrow>
   \<exists>y. lines (i2c_write_bits pins (Suc n) data s) =
     (let (ph, d') = bus_byte dev f (byte_of (bs @ map (\<lambda>i. bit data (7 - i)) [0..<Suc n])) d
      in \<lparr>b_scl = False, b_sda = y, b_ph = ph, b_dev = d'\<rparr>)"
proof (induction n arbitrary: s x bs data)
  case 0
  have "length bs = 7" using 0 by simp
  then show ?case using write_bit_recv [OF 0(1), of "bit data 7"] by (auto simp: top_bit Let_def split: prod.splits)
next
  case (Suc n)
  let ?s = "scl_low pins (i2c_delay pins (scl_high pins (i2c_delay pins (if bit data 7 then sda_high pins s else sda_low pins s))))"
  have "length bs \<noteq> 7" using Suc.prems(2) by simp
  then have "lines ?s = \<lparr>b_scl = False, b_sda = bit data 7, b_ph = Recv f (bs @ [bit data 7]), b_dev = d\<rparr>"
    unfolding write_bit_recv [OF Suc.prems(1)] by simp
  from Suc.IH [OF this, of "push_bit 1 data"] Suc.prems(2) obtain y where
    y: "lines (i2c_write_bits pins (Suc n) (push_bit 1 data) ?s) =
      (let (ph, d') = bus_byte dev f (byte_of ((bs @ [bit data 7]) @ map (\<lambda>i. bit (push_bit 1 data) (7 - i)) [0..<Suc n])) d
       in \<lparr>b_scl = False, b_sda = y, b_ph = ph, b_dev = d'\<rparr>)" by auto
  have "map (\<lambda>i. bit (push_bit 1 data) (7 - i)) [0..<Suc n] = map (\<lambda>i. bit data (7 - Suc i)) [0..<Suc n]"
    using Suc.prems(2) by (intro map_cong) (auto simp: shl_bit)
  then have "(bs @ [bit data 7]) @ map (\<lambda>i. bit (push_bit 1 data) (7 - i)) [0..<Suc n] =
    bs @ map (\<lambda>i. bit data (7 - i)) [0..<Suc (Suc n)]"
    by (simp only: map_upt_Suc) simp
  then show ?case using y by (auto simp: top_bit Let_def simp del: upt_Suc)
qed

lemma byte_of_bits: "byte_of (map (\<lambda>i. bit data (7 - i)) [0..<8]) = data"
proof -
  have "rev (map (\<lambda>i. bit data (7 - i)) [0..<8]) = map (bit data) [0..<8]"
    by (rule nth_equalityI) (auto simp: rev_nth)
  then show ?thesis unfolding byte_of_def using take_bit_length_eq [of data] by (simp add: horner_sum_bit_eq_take_bit)
qed

lemma write_byte_ok:
  assumes "lines s = \<lparr>b_scl = False, b_sda = x, b_ph = Recv f [], b_dev = d\<rparr>"
  shows "\<exists>s'. i2c_write_byte pins data s = (if f \<and> dv_addr dev data d = None then 1 else 0, s') \<and>
    lines s' = (let (ph, d') = (if f then (case dv_addr dev data d of None \<Rightarrow> (Quiet, d) | Some d' \<Rightarrow> bus_fall dev (Ack (bit data 0)) d')
                                else (Recv False [], dv_recv dev data d))
      in \<lparr>b_scl = False, b_sda = True, b_ph = ph, b_dev = d'\<rparr>)"
proof -
  obtain y where y: "lines (i2c_write_bits pins 8 data s) = (let (ph, d') = bus_byte dev f data d in \<lparr>b_scl = False, b_sda = y, b_ph = ph, b_dev = d'\<rparr>)"
    using write_bits_recv [OF assms, of 7 data] byte_of_bits [of data] by (auto simp del: upt_Suc)
  show ?thesis
    by (cases f; cases "dv_addr dev data d")
      (auto simp: i2c_write_byte_def line_defs line_laws sda_read_level y Let_def bus_byte_def bus_scl_def bus_sda_def bus_level_def
        bus_rise_def bus_fall_def split: prod.splits)
qed

lemma write_bits_quiet:
  "lines s = \<lparr>b_scl = False, b_sda = x, b_ph = Quiet, b_dev = d\<rparr> \<Longrightarrow>
   \<exists>y. lines (i2c_write_bits pins n data s) = \<lparr>b_scl = False, b_sda = y, b_ph = Quiet, b_dev = d\<rparr>"
proof (induction n arbitrary: s x data)
  case (Suc n)
  then show ?case using write_bit_quiet [OF Suc.prems] by (auto simp: Let_def)
qed auto

lemma write_byte_quiet:
  assumes "lines s = \<lparr>b_scl = False, b_sda = x, b_ph = Quiet, b_dev = d\<rparr>"
  shows "\<exists>s'. i2c_write_byte pins data s = (1, s') \<and> lines s' = \<lparr>b_scl = False, b_sda = True, b_ph = Quiet, b_dev = d\<rparr>"
proof -
  obtain y where y: "lines (i2c_write_bits pins 8 data s) = \<lparr>b_scl = False, b_sda = y, b_ph = Quiet, b_dev = d\<rparr>"
    using write_bits_quiet [OF assms] by blast
  show ?thesis
    by (auto simp: i2c_write_byte_def line_defs line_laws sda_read_level y Let_def bus_scl_def bus_sda_def bus_level_def
      bus_rise_def bus_fall_def split: prod.splits)
qed

lemma read_bits_send:
  "lines s = \<lparr>b_scl = False, b_sda = True, b_ph = Send bs, b_dev = d\<rparr> \<Longrightarrow> length bs = Suc n \<Longrightarrow>
   \<exists>s'. i2c_read_bits pins (Suc n) v s = (fold (\<lambda>b v. push_bit 1 v OR of_bool b) bs v, s') \<and>
     lines s' = \<lparr>b_scl = False, b_sda = True, b_ph = Answer None, b_dev = d\<rparr>"
proof (induction n arbitrary: s bs v)
  case 0
  then obtain b where b: "bs = [b]" by (cases bs) auto
  show ?case by (auto simp: line_defs line_laws sda_read_level 0(1) b Let_def bus_scl_def bus_level_def bus_rise_def bus_fall_def)
next
  case (Suc n)
  obtain b bs' where b: "bs = b # bs'" "length bs' = Suc n" using Suc.prems(2) by (cases bs) auto
  then have ne: "bs' \<noteq> []" by auto
  let ?t = "scl_high pins s"
  let ?s = "i2c_delay pins (scl_low pins (snd (dr_ipr pins (i2c_delay pins ?t))))"
  have lv: "bus_level (lines (i2c_delay pins ?t)) = b"
    by (simp add: line_defs line_laws Suc.prems(1) b bus_scl_def bus_level_def bus_rise_def)
  have "lines ?s = \<lparr>b_scl = False, b_sda = True, b_ph = Send bs', b_dev = d\<rparr>"
    using b(1) ne by (simp add: line_defs line_laws Suc.prems(1) Let_def bus_scl_def bus_level_def bus_rise_def bus_fall_def)
  from Suc.IH [OF this b(2), of "push_bit 1 v OR of_bool b"] obtain s' where
    s': "i2c_read_bits pins (Suc n) (push_bit 1 v OR of_bool b) ?s = (fold (\<lambda>b v. push_bit 1 v OR of_bool b) bs' (push_bit 1 v OR of_bool b), s')"
    "lines s' = \<lparr>b_scl = False, b_sda = True, b_ph = Answer None, b_dev = d\<rparr>" by blast
  have "i2c_read_bits pins (Suc (Suc n)) v s = i2c_read_bits pins (Suc n) (push_bit 1 v OR of_bool b) ?s"
    by (subst i2c_read_bits.simps(2)) (simp add: Let_def sda_read_level lv del: i2c_read_bits.simps)
  then show ?case unfolding s'(1) b(1) using s'(2) by auto
qed

lemma fold_byte_of: "fold (\<lambda>b v. push_bit 1 v OR of_bool b) bs 0 = byte_of bs"
proof (induction bs rule: rev_induct)
  case (snoc b bs)
  then show ?case by (cases b) (simp_all add: byte_of_def or_one_eq)
qed (simp add: byte_of_def)

lemma byte_of_bits': "byte_of (bits v) = v"
proof -
  have "bits v = map (\<lambda>i. bit v (7 - i)) [0..<8]" by (simp add: bits_def upt_rec)
  then show ?thesis using byte_of_bits by metis
qed

lemma read_byte_ok:
  assumes "lines s = \<lparr>b_scl = False, b_sda = x, b_ph = Send (bits v), b_dev = d\<rparr>"
  shows "\<exists>s'. i2c_read_byte pins ack s = (v, s') \<and>
    lines s' = (let (ph, d') = (if ack \<noteq> 0 then bus_load dev d else (Quiet, d)) in \<lparr>b_scl = False, b_sda = True, b_ph = ph, b_dev = d'\<rparr>)"
proof -
  have "lines (sda_high pins s) = \<lparr>b_scl = False, b_sda = True, b_ph = Send (bits v), b_dev = d\<rparr>"
    by (simp add: line_defs line_laws assms bus_sda_def)
  moreover have "length (bits v) = Suc 7" by (simp add: bits_def)
  ultimately obtain t where t: "i2c_read_bits pins 8 0 (sda_high pins s) = (v, t)"
    "lines t = \<lparr>b_scl = False, b_sda = True, b_ph = Answer None, b_dev = d\<rparr>"
    using read_bits_send [of "sda_high pins s" "bits v" d 7 0] fold_byte_of [of "bits v"] byte_of_bits' [of v]
    by (metis Suc_numeral eval_nat_numeral(3) numeral_eq_iff semiring_norm)
  have "i2c_read_byte pins ack s =
    (v, sda_high pins (scl_low pins (i2c_delay pins (scl_high pins (i2c_delay pins (if ack \<noteq> 0 then sda_low pins t else sda_high pins t))))))"
    unfolding i2c_read_byte_def Let_def t prod.case by (rule refl)
  then show ?thesis
    by (auto simp: t(2) line_defs line_laws Let_def bus_scl_def bus_sda_def bus_level_def bus_rise_def bus_fall_def
      split: prod.splits)
qed

text \<open>The steps of a transfer: the bus is free; the device listens; it sends.\<close>

definition free :: "'d \<Rightarrow> 's \<Rightarrow> bool" where
  "free d s \<longleftrightarrow> lines s = \<lparr>b_scl = True, b_sda = True, b_ph = Quiet, b_dev = d\<rparr>"

definition held :: "phase \<Rightarrow> 'd \<Rightarrow> 's \<Rightarrow> bool" where
  "held ph d s \<longleftrightarrow> (\<exists>x. lines s = \<lparr>b_scl = False, b_sda = x, b_ph = ph, b_dev = d\<rparr>)"

lemma start_free: "free d s \<Longrightarrow> held (Recv True []) d (i2c_start pins s)"
  using start_ok by (auto simp: free_def held_def)

lemma start_again: "held (Recv f bs) d s \<Longrightarrow> held (Recv True []) d (i2c_start pins s)"
  using start_ok by (fastforce simp: held_def)

lemma stop_listening: "held (Recv f bs) d s \<Longrightarrow> free (dv_stop dev d) (i2c_stop pins s)"
  using stop_ok by (auto simp: free_def held_def)

lemma stop_quiet: "held Quiet d s \<Longrightarrow> free (dv_stop dev d) (i2c_stop pins s)"
  using stop_ok by (auto simp: free_def held_def)

lemma addr_refused:
  "held (Recv True []) d s \<Longrightarrow> dv_addr dev v d = None \<Longrightarrow> \<exists>s'. i2c_write_byte pins v s = (1, s') \<and> held Quiet d s'"
  by (auto simp: held_def dest!: write_byte_ok [where data = v])

lemma addr_write:
  "held (Recv True []) d s \<Longrightarrow> dv_addr dev v d = Some d' \<Longrightarrow> \<not> bit v 0 \<Longrightarrow>
   \<exists>s'. i2c_write_byte pins v s = (0, s') \<and> held (Recv False []) d' s'"
  by (auto simp: held_def bus_fall_def dest!: write_byte_ok [where data = v])

lemma addr_read:
  "held (Recv True []) d s \<Longrightarrow> dv_addr dev v d = Some d' \<Longrightarrow> bit v 0 \<Longrightarrow> dv_send dev d' = (w, d'') \<Longrightarrow>
   \<exists>s'. i2c_write_byte pins v s = (0, s') \<and> held (Send (bits w)) d'' s'"
  by (auto simp: held_def bus_fall_def bus_load_def dest!: write_byte_ok [where data = v])

lemma send_byte:
  "held (Recv False []) d s \<Longrightarrow> \<exists>s'. i2c_write_byte pins v s = (0, s') \<and> held (Recv False []) (dv_recv dev v d) s'"
  by (auto simp: held_def dest!: write_byte_ok [where data = v])

lemma get_byte:
  "held (Send (bits v)) d s \<Longrightarrow> dv_send dev d = (w, d') \<Longrightarrow>
   \<exists>s'. i2c_read_byte pins 1 s = (v, s') \<and> held (Send (bits w)) d' s'"
  by (auto simp: held_def bus_load_def dest!: read_byte_ok [where ack = 1])

lemma get_last: "held (Send (bits v)) d s \<Longrightarrow> \<exists>s'. i2c_read_byte pins 0 s = (v, s') \<and> held Quiet d s'"
  by (auto simp: held_def dest!: read_byte_ok [where ack = 0])

end

end
