(* ===== verification/Rtc_Board.thy ===== *)
theory Rtc_Board
  imports Rtc_I2c
begin

text \<open>
  The clock and the EEPROM of \<open>drivers/rtc/i2cbb.c\<close> as devices on the bus of \<open>Rtc_I2c\<close>, after their data sheets,
  and what the driver does with them: the time set is the time read, a byte written is the byte read.
  The locale \<open>rtc_board\<close> says that the two devices are behind the pins; the simulated board is its instance. The
  clock does not advance during a call.
\<close>

section \<open>The two devices\<close>

text \<open>
  DS3231: 19 registers behind a pointer that the first byte of a write sets and every further access
  advances. AT24C32: 4096 bytes behind a two-byte address; after the STOP of a write the chip is busy with
  its cells and answers no address.
\<close>

datatype sel = SelNone | RtcPtr | RtcData | EeHigh | EeLow u8 | EeData

record board =
  bd_rtc :: bool
  bd_regs :: "nat \<Rightarrow> u8"
  bd_ptr :: nat
  bd_cells :: "nat \<Rightarrow> u8"
  bd_adr :: nat
  bd_busy :: bool
  bd_wrote :: bool
  bd_sel :: sel

definition board_addr :: "u8 \<Rightarrow> board \<Rightarrow> board option" where
  "board_addr v d =
     (if v = 0xD0 \<and> bd_rtc d then Some (d\<lparr>bd_sel := RtcPtr\<rparr>)
      else if v = 0xD1 \<and> bd_rtc d then Some (d\<lparr>bd_sel := RtcData\<rparr>)
      else if v = 0xA0 \<and> \<not> bd_busy d then Some (d\<lparr>bd_sel := EeHigh\<rparr>)
      else if v = 0xA1 \<and> \<not> bd_busy d then Some (d\<lparr>bd_sel := EeData\<rparr>)
      else None)"

definition next_reg :: "nat \<Rightarrow> nat" where
  "next_reg p = (if p < 18 then p + 1 else 0)"

definition board_recv :: "u8 \<Rightarrow> board \<Rightarrow> board" where
  "board_recv v d =
     (case bd_sel d of
        RtcPtr \<Rightarrow> d\<lparr>bd_ptr := unat v mod 19, bd_sel := RtcData\<rparr>
      | RtcData \<Rightarrow> d\<lparr>bd_regs := (bd_regs d)(bd_ptr d := v), bd_ptr := next_reg (bd_ptr d)\<rparr>
      | EeHigh \<Rightarrow> d\<lparr>bd_sel := EeLow v\<rparr>
      | EeLow h \<Rightarrow> d\<lparr>bd_adr := (unat h * 256 + unat v) mod 4096, bd_sel := EeData\<rparr>
      | EeData \<Rightarrow> d\<lparr>bd_cells := (bd_cells d)(bd_adr d := v), bd_adr := bd_adr d div 32 * 32 + (bd_adr d + 1) mod 32, bd_wrote := True\<rparr>
      | SelNone \<Rightarrow> d)"

definition board_send :: "board \<Rightarrow> u8 \<times> board" where
  "board_send d =
     (case bd_sel d of
        RtcData \<Rightarrow> (bd_regs d (bd_ptr d), d\<lparr>bd_ptr := next_reg (bd_ptr d)\<rparr>)
      | EeData \<Rightarrow> (bd_cells d (bd_adr d), d\<lparr>bd_adr := (bd_adr d + 1) mod 4096\<rparr>)
      | _ \<Rightarrow> (0xFF, d))"

definition board_stop :: "board \<Rightarrow> board" where
  "board_stop d = d\<lparr>bd_busy := (bd_busy d \<or> bd_wrote d), bd_wrote := False, bd_sel := SelNone\<rparr>"

definition board_dev :: "board i2c_dev" where
  "board_dev = \<lparr>dv_addr = board_addr, dv_recv = board_recv, dv_send = board_send, dv_stop = board_stop\<rparr>"

lemma board_dev_simps [simp]:
  "dv_addr board_dev = board_addr" "dv_recv board_dev = board_recv" "dv_send board_dev = board_send" "dv_stop board_dev = board_stop"
  by (simp_all add: board_dev_def)

text \<open>The simulated board: the pins act on the bus with the two devices.\<close>

definition sim_pins :: "board bus duart_pins" where
  "sim_pins = \<lparr>
     dr_ipr = (\<lambda>L. (if bus_level L then 0x01 else 0x00, L)),
     dr_sopr = (\<lambda>v L. if v = SCL_BIT then bus_scl board_dev False L else if v = SDA_OUT_BIT then bus_sda board_dev False L else L),
     dr_ropr = (\<lambda>v L. if v = SCL_BIT then bus_scl board_dev True L else if v = SDA_OUT_BIT then bus_sda board_dev True L else L),
     dr_nops = (\<lambda>L. L)\<rparr>"

text \<open>The cell that an address means.\<close>

definition cell_of :: "u16 \<Rightarrow> nat" where
  "cell_of addr = unat addr mod 4096"

text \<open>The devices behind the pins.\<close>

locale rtc_board = i2c_bus pins board_dev lines for pins :: "'s duart_pins" and lines :: "'s \<Rightarrow> board bus"
begin

definition put_bytes :: "u8 list \<Rightarrow> 's \<Rightarrow> 's" where
  "put_bytes vs s = fold (\<lambda>v s. snd (i2c_write_byte pins v s)) vs s"

lemma put_bytes_ok: "held (Recv False []) d s \<Longrightarrow> held (Recv False []) (fold board_recv vs d) (put_bytes vs s)"
proof (induction vs arbitrary: d s)
  case (Cons v vs)
  obtain s' where "i2c_write_byte pins v s = (0, s')" "held (Recv False []) (board_recv v d) s'"
    using send_byte [OF Cons.prems, of v] by auto
  then show ?case using Cons.IH by (simp add: put_bytes_def)
qed (simp add: put_bytes_def)

lemma select_write:
  assumes "free d s" "board_addr v d = r" "\<not> bit v 0"
  shows "\<exists>s'. i2c_write_byte pins v (i2c_start pins s) = (if r = None then 1 else 0, s') \<and>
    (case r of None \<Rightarrow> held Quiet d s' | Some d' \<Rightarrow> held (Recv False []) d' s')"
  using addr_refused [OF start_free [OF assms(1)], of v] addr_write [OF start_free [OF assms(1)], of v] assms(2,3)
  by (cases r) auto

lemma addr_bits: "\<not> bit (0xD0 :: u8) 0" "\<not> bit (0xA0 :: u8) 0" "bit (0xD1 :: u8) 0" "bit (0xA1 :: u8) 0"
  by simp_all

lemma addr_bytes: "push_bit 1 DS3231_ADDR OR 0 = 0xD0" "push_bit 1 DS3231_ADDR OR 1 = 0xD1"
  "push_bit 1 EEPROM_ADDR OR 0 = 0xA0" "push_bit 1 EEPROM_ADDR OR 1 = 0xA1"
  "DS3231_ADDR * 2 = 0xD0" "DS3231_ADDR * 2 OR 1 = 0xD1" "EEPROM_ADDR * 2 = 0xA0" "EEPROM_ADDR * 2 OR 1 = 0xA1"
  by (simp_all add: DS3231_ADDR_def EEPROM_ADDR_def)

lemma set_time_ok:
  assumes "free d s"
  shows "free (if bd_rtc d then board_stop (fold board_recv [0, bin2bcd (rt_sec t), bin2bcd (rt_min t), bin2bcd (rt_hour t), 1,
      bin2bcd (rt_mday t), bin2bcd (rt_mon t), bin2bcd (rt_year t)] (d\<lparr>bd_sel := RtcPtr\<rparr>)) else board_stop d)
    (ds3231_set_time pins (Some t) s)"
proof -
  obtain s1 where s1: "i2c_write_byte pins 0xD0 (i2c_start pins s) = (if bd_rtc d then 0 else 1, s1)"
    "if bd_rtc d then held (Recv False []) (d\<lparr>bd_sel := RtcPtr\<rparr>) s1 else held Quiet d s1"
    using select_write [OF assms refl addr_bits(1)] by (auto simp: board_addr_def split: if_splits)
  show ?thesis
  proof (cases "bd_rtc d")
    case False
    then show ?thesis using s1 stop_quiet by (simp add: ds3231_set_time_def addr_bytes)
  next
    case True
    let ?vs = "[0, bin2bcd (rt_sec t), bin2bcd (rt_min t), bin2bcd (rt_hour t), 1, bin2bcd (rt_mday t), bin2bcd (rt_mon t), bin2bcd (rt_year t)]"
    have "ds3231_set_time pins (Some t) s = i2c_stop pins (put_bytes ?vs s1)"
      using s1(1) True by (simp add: ds3231_set_time_def put_bytes_def split_def addr_bytes)
    then show ?thesis using stop_listening [OF put_bytes_ok, of "d\<lparr>bd_sel := RtcPtr\<rparr>" s1 ?vs] s1(2) True by (simp only: board_dev_simps if_True)
  qed
qed

text \<open>A read of the clock: each byte that is acknowledged loads the next register.\<close>

lemma read_time_absent:
  assumes "free d s" "\<not> bd_rtc d"
  shows "\<exists>s'. ds3231_read_time pins (Some t) s = (1, Some t, s') \<and> free (board_stop d) s'"
proof -
  obtain s1 where "i2c_write_byte pins 0xD0 (i2c_start pins s) = (1, s1)" "held Quiet d s1"
    using select_write [OF assms(1) refl addr_bits(1)] assms(2) by (auto simp: board_addr_def)
  then show ?thesis using stop_quiet by (simp add: ds3231_read_time_def addr_bytes)
qed

lemma read_time_ok:
  assumes "free d s" "bd_rtc d"
  defines "r \<equiv> bd_regs d"
  shows "\<exists>s'. ds3231_read_time pins (Some t) s =
      (0, Some \<lparr>rt_sec = bcd2bin (r 0 AND 0x7F), rt_min = bcd2bin (r 1), rt_hour = bcd2bin (r 2 AND 0x3F), rt_mday = bcd2bin (r 4),
         rt_mon = bcd2bin (r 5 AND 0x1F), rt_year = bcd2bin (r 6)\<rparr>, s') \<and>
    free (board_stop (d\<lparr>bd_ptr := 7\<rparr>)) s'"
proof -
  obtain s1 where s1: "i2c_write_byte pins 0xD0 (i2c_start pins s) = (0, s1)" "held (Recv False []) (d\<lparr>bd_sel := RtcPtr\<rparr>) s1"
    using select_write [OF assms(1) refl addr_bits(1)] assms(2) by (auto simp: board_addr_def)
  define d2 where "d2 = d\<lparr>bd_ptr := 0, bd_sel := RtcData\<rparr>"
  have "board_recv 0 (d\<lparr>bd_sel := RtcPtr\<rparr>) = d2" by (simp add: d2_def board_recv_def)
  then obtain s2 where s2: "i2c_write_byte pins 0 s1 = (0, s2)" "held (Recv False []) d2 s2" using send_byte [OF s1(2), of 0] by auto
  have "dv_addr board_dev 0xD1 d2 = Some d2" "dv_send board_dev d2 = (r 0, d2\<lparr>bd_ptr := 1\<rparr>)"
    using assms(2) by (simp_all add: board_addr_def board_send_def d2_def next_reg_def r_def)
  from addr_read [OF start_again [OF s2(2)] this(1) addr_bits(3) this(2)] obtain s3 where
    s3: "i2c_write_byte pins 0xD1 (i2c_start pins s2) = (0, s3)" "held (Send (bits (r 0))) (d2\<lparr>bd_ptr := 1\<rparr>) s3" by blast
  have get: "\<exists>t'. i2c_read_byte pins 1 u = (v, t') \<and> held (Send (bits (r k))) (d2\<lparr>bd_ptr := k + 1\<rparr>) t'"
    if "held (Send (bits v)) (d2\<lparr>bd_ptr := k\<rparr>) u" "k < 18" for u v k
    using get_byte [OF that(1), of "r k"] that(2) by (simp add: board_send_def d2_def r_def next_reg_def)
  obtain s4 where s4: "i2c_read_byte pins 1 s3 = (r 0, s4)" "held (Send (bits (r 1))) (d2\<lparr>bd_ptr := 2\<rparr>) s4"
    using get [OF s3(2)] by (auto simp: numeral_2_eq_2)
  obtain s5 where s5: "i2c_read_byte pins 1 s4 = (r 1, s5)" "held (Send (bits (r 2))) (d2\<lparr>bd_ptr := 3\<rparr>) s5" using get [OF s4(2)] by auto
  obtain s6 where s6: "i2c_read_byte pins 1 s5 = (r 2, s6)" "held (Send (bits (r 3))) (d2\<lparr>bd_ptr := 4\<rparr>) s6" using get [OF s5(2)] by auto
  obtain s7 where s7: "i2c_read_byte pins 1 s6 = (r 3, s7)" "held (Send (bits (r 4))) (d2\<lparr>bd_ptr := 5\<rparr>) s7" using get [OF s6(2)] by auto
  obtain s8 where s8: "i2c_read_byte pins 1 s7 = (r 4, s8)" "held (Send (bits (r 5))) (d2\<lparr>bd_ptr := 6\<rparr>) s8" using get [OF s7(2)] by auto
  obtain s9 where s9: "i2c_read_byte pins 1 s8 = (r 5, s9)" "held (Send (bits (r 6))) (d2\<lparr>bd_ptr := 7\<rparr>) s9" using get [OF s8(2)] by auto
  obtain s10 where s10: "i2c_read_byte pins 0 s9 = (r 6, s10)" "held Quiet (d2\<lparr>bd_ptr := 7\<rparr>) s10" using get_last [OF s9(2)] by blast
  have "board_stop (d2\<lparr>bd_ptr := 7\<rparr>) = board_stop (d\<lparr>bd_ptr := 7\<rparr>)" by (simp add: board_stop_def d2_def)
  then show ?thesis
    using stop_quiet [OF s10(2)]
    by (simp add: ds3231_read_time_def addr_bytes s1 s2 s3 s4 s5 s6 s7 s8 s9 s10 Let_def)
qed

text \<open>The EEPROM.\<close>

lemma addr_halves: "(unat (ucast (drop_bit 8 addr) :: u8) * 256 + unat (ucast (addr AND 0xFF) :: u8)) mod 4096 = cell_of (addr :: u16)"
proof -
  have "unat (addr AND 0xFF) = unat addr mod 256"
  proof -
    have "(0xFF :: u16) = Bit_Operations.mask 8" by (simp add: mask_eq_exp_minus_1)
    then show ?thesis by (simp only: take_bit_eq_mask [symmetric] unsigned_take_bit_eq) (simp add: take_bit_eq_mod)
  qed
  moreover have "unat (drop_bit 8 addr) = unat addr div 256" by (simp add: unat_div drop_bit_eq_div)
  moreover have "unat addr div 256 < 256" using unat_less_exp(2) [of addr] by (intro less_mult_imp_div_less) simp
  ultimately have "unat (ucast (drop_bit 8 addr) :: u8) * 256 + unat (ucast (addr AND 0xFF) :: u8) = unat addr"
    by (simp add: unsigned_ucast_eq take_bit_nat_eq_self)
  then show ?thesis by (simp add: cell_of_def)
qed

lemma ee_address:
  assumes "free d s" "\<not> bd_busy d"
  shows "\<exists>s1 s2 s3. i2c_write_byte pins 0xA0 (i2c_start pins s) = (0, s1) \<and>
    i2c_write_byte pins (ucast (drop_bit 8 addr)) s1 = (0, s2) \<and> i2c_write_byte pins (ucast (addr AND 0xFF)) s2 = (0, s3) \<and>
    held (Recv False []) (d\<lparr>bd_adr := cell_of addr, bd_sel := EeData\<rparr>) s3"
proof -
  obtain s1 where s1: "i2c_write_byte pins 0xA0 (i2c_start pins s) = (0, s1)" "held (Recv False []) (d\<lparr>bd_sel := EeHigh\<rparr>) s1"
    using select_write [OF assms(1) refl addr_bits(2)] assms(2) by (auto simp: board_addr_def)
  obtain s2 where s2: "i2c_write_byte pins (ucast (drop_bit 8 addr)) s1 = (0, s2)"
    "held (Recv False []) (d\<lparr>bd_sel := EeLow (ucast (drop_bit 8 addr))\<rparr>) s2"
    using send_byte [OF s1(2)] by (auto simp: board_recv_def)
  obtain s3 where s3: "i2c_write_byte pins (ucast (addr AND 0xFF)) s2 = (0, s3)"
    "held (Recv False []) (board_recv (ucast (addr AND 0xFF)) (d\<lparr>bd_sel := EeLow (ucast (drop_bit 8 addr))\<rparr>)) s3"
    using send_byte [OF s2(2)] by auto
  have "board_recv (ucast (addr AND 0xFF)) (d\<lparr>bd_sel := EeLow (ucast (drop_bit 8 addr))\<rparr>) = d\<lparr>bd_adr := cell_of addr, bd_sel := EeData\<rparr>"
    using addr_halves [of addr] by (simp add: board_recv_def)
  then show ?thesis using s1(1) s2(1) s3 by auto
qed

lemma ee_busy:
  assumes "free d s" "bd_busy d"
  shows "\<exists>s1. i2c_write_byte pins 0xA0 (i2c_start pins s) = (1, s1) \<and> held Quiet d s1"
  using select_write [OF assms(1) refl addr_bits(2)] assms(2) by (auto simp: board_addr_def)

lemma eeprom_write_ok:
  assumes "free d s" "\<not> bd_busy d"
  shows "\<exists>d'. free d' (eeprom_write_byte pins addr v s) \<and> bd_cells d' = (bd_cells d)(cell_of addr := v) \<and> bd_busy d' \<and>
    bd_regs d' = bd_regs d \<and> bd_rtc d' = bd_rtc d"
proof -
  obtain s1 s2 s3 where a: "i2c_write_byte pins 0xA0 (i2c_start pins s) = (0, s1)"
    "i2c_write_byte pins (ucast (drop_bit 8 addr)) s1 = (0, s2)" "i2c_write_byte pins (ucast (addr AND 0xFF)) s2 = (0, s3)"
    "held (Recv False []) (d\<lparr>bd_adr := cell_of addr, bd_sel := EeData\<rparr>) s3"
    using ee_address [OF assms] by blast
  let ?d = "board_recv v (d\<lparr>bd_adr := cell_of addr, bd_sel := EeData\<rparr>)"
  obtain s4 where s4: "i2c_write_byte pins v s3 = (0, s4)" "held (Recv False []) ?d s4" using send_byte [OF a(4), of v] by auto
  have "eeprom_write_byte pins addr v s = i2c_stop pins s4"
    by (simp add: eeprom_write_byte_def addr_bytes a(1-3) s4(1) Let_def)
  then show ?thesis using stop_listening [OF s4(2)] by (intro exI [of _ "board_stop ?d"]) (simp add: board_stop_def board_recv_def)
qed

lemma eeprom_write_busy: "free d s \<Longrightarrow> bd_busy d \<Longrightarrow> free (board_stop d) (eeprom_write_byte pins addr v s)"
  using ee_busy [of d s] stop_quiet by (auto simp: eeprom_write_byte_def addr_bytes)

lemma eeprom_read_ok:
  assumes "free d s" "\<not> bd_busy d"
  shows "\<exists>s'. eeprom_read_byte pins addr s = (bd_cells d (cell_of addr), s') \<and>
    free (board_stop (d\<lparr>bd_adr := (cell_of addr + 1) mod 4096\<rparr>)) s'"
proof -
  obtain s1 s2 s3 where a: "i2c_write_byte pins 0xA0 (i2c_start pins s) = (0, s1)"
    "i2c_write_byte pins (ucast (drop_bit 8 addr)) s1 = (0, s2)" "i2c_write_byte pins (ucast (addr AND 0xFF)) s2 = (0, s3)"
    "held (Recv False []) (d\<lparr>bd_adr := cell_of addr, bd_sel := EeData\<rparr>) s3"
    using ee_address [OF assms] by blast
  let ?d = "d\<lparr>bd_adr := cell_of addr, bd_sel := EeData\<rparr>"
  have "dv_addr board_dev 0xA1 ?d = Some ?d"
    "dv_send board_dev ?d = (bd_cells d (cell_of addr), ?d\<lparr>bd_adr := (cell_of addr + 1) mod 4096\<rparr>)"
    using assms(2) by (simp_all add: board_addr_def board_send_def)
  from addr_read [OF start_again [OF a(4)] this(1) addr_bits(4) this(2)] obtain s4 where
    s4: "i2c_write_byte pins 0xA1 (i2c_start pins s3) = (0, s4)"
      "held (Send (bits (bd_cells d (cell_of addr)))) (?d\<lparr>bd_adr := (cell_of addr + 1) mod 4096\<rparr>) s4" by blast
  obtain s5 where s5: "i2c_read_byte pins 0 s4 = (bd_cells d (cell_of addr), s5)" "held Quiet (?d\<lparr>bd_adr := (cell_of addr + 1) mod 4096\<rparr>) s5"
    using get_last [OF s4(2)] by blast
  have "eeprom_read_byte pins addr s = (bd_cells d (cell_of addr), i2c_stop pins s5)"
    by (simp add: eeprom_read_byte_def addr_bytes a(1-3) s4(1) s5(1) Let_def)
  then show ?thesis using stop_quiet [OF s5(2)] by (simp add: board_stop_def)
qed

lemma eeprom_read_busy: "free d s \<Longrightarrow> bd_busy d \<Longrightarrow> fst (eeprom_read_byte pins addr s) = 0xFF"
  using ee_busy [of d s] by (auto simp: eeprom_read_byte_def addr_bytes)

lemma probe_ok:
  assumes "free d s"
  shows "\<exists>d' s'. ds3231_probe pins s = (if bd_rtc d then 1 else 0, s') \<and> free d' s' \<and> bd_rtc d' = bd_rtc d \<and>
    bd_regs d' = bd_regs d \<and> bd_cells d' = bd_cells d"
proof (cases "bd_rtc d")
  case True
  obtain s1 where "i2c_write_byte pins 0xD0 (i2c_start pins s) = (0, s1)" "held (Recv False []) (d\<lparr>bd_sel := RtcPtr\<rparr>) s1"
    using select_write [OF assms refl addr_bits(1)] True by (auto simp: board_addr_def)
  with True stop_listening [of False "[]" "d\<lparr>bd_sel := RtcPtr\<rparr>" s1] show ?thesis
    by (intro exI [of _ "board_stop (d\<lparr>bd_sel := RtcPtr\<rparr>)"]) (simp add: ds3231_probe_def addr_bytes board_stop_def)
next
  case False
  obtain s1 where "i2c_write_byte pins 0xD0 (i2c_start pins s) = (1, s1)" "held Quiet d s1"
    using select_write [OF assms refl addr_bits(1)] False by (auto simp: board_addr_def)
  with False stop_quiet [of d s1] show ?thesis
    by (intro exI [of _ "board_stop d"]) (simp add: ds3231_probe_def addr_bytes board_stop_def)
qed

lemma init_ok:
  assumes "free d s"
  shows "\<exists>d' s'. rtc_init pins s = (if bd_rtc d then 1 else 0, s') \<and> free d' s' \<and> bd_cells d' = bd_cells d \<and>
    bd_regs d' = (if bd_rtc d then (bd_regs d)(14 := 0) else bd_regs d)"
proof -
  have "free d (i2c_delay pins (sda_high pins (scl_high pins s)))"
    using assms by (simp add: free_def line_defs line_laws bus_scl_def bus_sda_def bus_level_def)
  from probe_ok [OF this] obtain d1 s1 where p: "ds3231_probe pins (i2c_delay pins (sda_high pins (scl_high pins s))) = (if bd_rtc d then 1 else 0, s1)"
    "free d1 s1" "bd_rtc d1 = bd_rtc d" "bd_regs d1 = bd_regs d" "bd_cells d1 = bd_cells d" by blast
  show ?thesis
  proof (cases "bd_rtc d")
    case False
    then show ?thesis using p by (intro exI [of _ d1]) (simp add: rtc_init_def)
  next
    case True
    obtain s2 where s2: "i2c_write_byte pins 0xD0 (i2c_start pins s1) = (0, s2)" "held (Recv False []) (d1\<lparr>bd_sel := RtcPtr\<rparr>) s2"
      using select_write [OF p(2) refl addr_bits(1)] True p(3) by (auto simp: board_addr_def)
    let ?d = "fold board_recv [0x0E, 0x00] (d1\<lparr>bd_sel := RtcPtr\<rparr>)"
    have "held (Recv False []) ?d (put_bytes [0x0E, 0x00] s2)" by (rule put_bytes_ok [OF s2(2)])
    from stop_listening [OF this] have "free (board_stop ?d) (i2c_stop pins (put_bytes [0x0E, 0x00] s2))" by simp
    moreover have "rtc_init pins s = (1, i2c_stop pins (put_bytes [0x0E, 0x00] s2))"
      using True p(1) s2(1) by (simp add: rtc_init_def addr_bytes put_bytes_def split_def)
    moreover have "bd_cells (board_stop ?d) = bd_cells d" "bd_regs (board_stop ?d) = (bd_regs d)(14 := 0)"
      using p(4,5) by (simp_all add: board_stop_def board_recv_def)
    ultimately show ?thesis using True by auto
  qed
qed

end

interpretation bus: i2c_bus sim_pins board_dev "\<lambda>L. L"
  by unfold_locales (simp_all add: sim_pins_def SCL_BIT_def SDA_OUT_BIT_def SDA_IN_BIT_def)

interpretation board: rtc_board sim_pins "\<lambda>L. L"
  by unfold_locales

section \<open>Properties\<close>

definition bus_free :: "board \<Rightarrow> board bus \<Rightarrow> bool" where
  "bus_free d L \<longleftrightarrow> L = \<lparr>b_scl = True, b_sda = True, b_ph = Quiet, b_dev = d\<rparr>"

lemma free_iff: "rtc_board pins lines \<Longrightarrow> i2c_bus.free lines d s \<longleftrightarrow> bus_free d (lines s)"
  using i2c_bus.free_def [of pins board_dev lines d s] by (simp add: rtc_board_def bus_free_def)

definition valid_time :: "rtc_time_t \<Rightarrow> bool" where
  "valid_time t \<longleftrightarrow> rt_sec t < 60 \<and> rt_min t < 60 \<and> rt_hour t < 24 \<and> 1 \<le> rt_mday t \<and> rt_mday t \<le> 31 \<and>
     1 \<le> rt_mon t \<and> rt_mon t \<le> 12 \<and> rt_year t < 100"

definition bcd_fits :: "u8 \<Rightarrow> bool" where
  "bcd_fits v \<longleftrightarrow> bcd2bin (bin2bcd v) = v \<and> (v < 80 \<longrightarrow> bin2bcd v AND 0x7F = bin2bcd v) \<and>
     (v < 40 \<longrightarrow> bin2bcd v AND 0x3F = bin2bcd v) \<and> (v < 20 \<longrightarrow> bin2bcd v AND 0x1F = bin2bcd v)"

lemma unat_bin2bcd:
  assumes "v < 100"
  shows "unat (bin2bcd v) = unat v div 10 * 16 + unat v mod 10"
proof -
  have "unat v < 100" using assms by (simp add: word_less_nat_alt)
  then have "unat v div 10 < 10" by (simp add: less_mult_imp_div_less)
  then show ?thesis using unat_push_or [of "v mod 10" 4 "v div 10"] by (simp add: bin2bcd_def unat_div unat_mod)
qed

lemma bcd_bound: "n < 10 * k \<Longrightarrow> n div 10 * 16 + n mod 10 < (16 * k :: nat)"
  using less_mult_imp_div_less [of n k 10] mod_less_divisor [of 10 n] by (simp add: mult.commute)

lemma mask_small: "unat (v :: u8) < 2 ^ k \<Longrightarrow> v AND Bit_Operations.mask k = v"
  by (simp only: take_bit_eq_mask [symmetric] word_unat_eq_iff unsigned_take_bit_eq take_bit_nat_eq_self)

lemma bcd_roundtrip:
  assumes "v < 100"
  shows "bcd_fits v"
proof -
  have v: "unat v < 100" using assms by (simp add: word_less_nat_alt)
  note b = unat_bin2bcd [OF assms]
  have low: "unat (x AND 0x0F) = unat x mod 16" for x :: u8
  proof -
    have "(0x0F :: u8) = Bit_Operations.mask 4" by (simp add: mask_eq_exp_minus_1)
    then show ?thesis by (simp only: take_bit_eq_mask [symmetric] unsigned_take_bit_eq) (simp only: take_bit_eq_mod, simp)
  qed
  have "unat (drop_bit 4 (bin2bcd v)) = unat v div 10" "unat (bin2bcd v AND 0x0F) = unat v mod 10"
    unfolding low b by (simp_all add: unat_div drop_bit_eq_div b)
  moreover have "unat v div 10 * 10 + unat v mod 10 = unat v" by simp
  ultimately have "bcd2bin (bin2bcd v) = v"
    using v by (simp add: bcd2bin_def word_unat_eq_iff unat_word_ariths)
  moreover have m: "(0x7F :: u8) = Bit_Operations.mask 7" "(0x3F :: u8) = Bit_Operations.mask 6" "(0x1F :: u8) = Bit_Operations.mask 5"
    by (simp_all add: mask_eq_exp_minus_1)
  moreover have "unat v div 10 * 16 + unat v mod 10 < 2 ^ 7" if "v < 80"
    using that bcd_bound [of "unat v" 8] by (simp add: word_less_nat_alt)
  moreover have "unat v div 10 * 16 + unat v mod 10 < 2 ^ 6" if "v < 40"
    using that bcd_bound [of "unat v" 4] by (simp add: word_less_nat_alt)
  moreover have "unat v div 10 * 16 + unat v mod 10 < 2 ^ 5" if "v < 20"
    using that bcd_bound [of "unat v" 2] by (simp add: word_less_nat_alt)
  ultimately show ?thesis unfolding bcd_fits_def m by (auto intro!: mask_small simp: b)
qed

text \<open>The registers hold the time, in the code of the chip.\<close>

definition shows_time :: "board \<Rightarrow> rtc_time_t \<Rightarrow> bool" where
  "shows_time d t \<longleftrightarrow> map (bd_regs d) [0, 1, 2, 4, 5, 6] =
     map bin2bcd [rt_sec t, rt_min t, rt_hour t, rt_mday t, rt_mon t, rt_year t]"

lemma set_shows:
  assumes "bd_rtc d" and "d' = board_stop (fold board_recv [0, bin2bcd (rt_sec t), bin2bcd (rt_min t), bin2bcd (rt_hour t), 1,
      bin2bcd (rt_mday t), bin2bcd (rt_mon t), bin2bcd (rt_year t)] (d\<lparr>bd_sel := RtcPtr\<rparr>))"
  shows "shows_time d' t \<and> bd_rtc d' \<and> bd_cells d' = bd_cells d \<and> (\<forall>i. 7 \<le> i \<longrightarrow> bd_regs d' i = bd_regs d i)"
  using assms(1) unfolding assms(2)
  by (simp_all add: shows_time_def board_stop_def board_recv_def next_reg_def fun_upd_apply)

lemma decoded_time:
  assumes "shows_time d t" "valid_time t"
  defines "r \<equiv> bd_regs d"
  shows "\<lparr>rt_sec = bcd2bin (r 0 AND 0x7F), rt_min = bcd2bin (r 1), rt_hour = bcd2bin (r 2 AND 0x3F), rt_mday = bcd2bin (r 4),
    rt_mon = bcd2bin (r 5 AND 0x1F), rt_year = bcd2bin (r 6)\<rparr> = t"
proof -
  have r: "r 0 = bin2bcd (rt_sec t)" "r 1 = bin2bcd (rt_min t)" "r 2 = bin2bcd (rt_hour t)" "r 4 = bin2bcd (rt_mday t)"
    "r 5 = bin2bcd (rt_mon t)" "r 6 = bin2bcd (rt_year t)"
    using assms(1) by (simp_all add: shows_time_def r_def)
  have lt: "x < 100 \<and> x < 80" if "x < 60" for x :: u8 using that by (simp add: word_less_nat_alt)
  have lt': "x < 100 \<and> x < 40" if "x < 24" for x :: u8 using that by (simp add: word_less_nat_alt)
  have le: "x < 100" if "x \<le> 31" for x :: u8 using that by (simp add: word_less_nat_alt word_le_nat_alt)
  have le': "x < 100 \<and> x < 20" if "x \<le> 12" for x :: u8 using that by (simp add: word_less_nat_alt word_le_nat_alt)
  have "bcd_fits (rt_sec t)" "rt_sec t < 80" "bcd_fits (rt_min t)" "bcd_fits (rt_hour t)" "rt_hour t < 40" "bcd_fits (rt_mday t)"
    "bcd_fits (rt_mon t)" "rt_mon t < 20" "bcd_fits (rt_year t)"
    using assms(2) lt lt' le le' by (auto simp: valid_time_def intro!: bcd_roundtrip)
  then show ?thesis unfolding r by (cases t) (simp add: bcd_fits_def)
qed

text \<open>C20: the clock keeps the time it is set to: on a free bus with the chip, a valid time that was set is read back, with
  success; the bus is free again, and neither call touches the other registers or the EEPROM.\<close>

theorem rtc_set_read:
  assumes "rtc_board pins lines" "bus_free d (lines s)" "bd_rtc d" "valid_time t"
  shows "\<exists>d1 s2 d2. bus_free d1 (lines (ds3231_set_time pins (Some t) s)) \<and> shows_time d1 t \<and>
    ds3231_read_time pins (Some t0) (ds3231_set_time pins (Some t) s) = (0, Some t, s2) \<and> bus_free d2 (lines s2) \<and>
    bd_regs d2 = bd_regs d1 \<and> bd_cells d2 = bd_cells d \<and> (\<forall>i. 7 \<le> i \<longrightarrow> bd_regs d2 i = bd_regs d i)"
proof -
  note free = free_iff [OF assms(1)]
  obtain d1 where d1: "bus_free d1 (lines (ds3231_set_time pins (Some t) s))" "shows_time d1 t" "bd_rtc d1"
    "bd_cells d1 = bd_cells d" "\<forall>i. 7 \<le> i \<longrightarrow> bd_regs d1 i = bd_regs d i"
    using rtc_board.set_time_ok [OF assms(1), unfolded free, OF assms(2), of t] assms(3) set_shows [OF assms(3) refl, of t] by (simp only: if_True) blast
  obtain s2 where "ds3231_read_time pins (Some t0) (ds3231_set_time pins (Some t) s) = (0, Some t, s2)"
    "bus_free (board_stop (d1\<lparr>bd_ptr := 7\<rparr>)) (lines s2)"
    using rtc_board.read_time_ok [OF assms(1), unfolded free, OF d1(1,3), of t0] unfolding decoded_time [OF d1(2) assms(4)] by blast
  moreover have "bd_regs (board_stop (d1\<lparr>bd_ptr := 7\<rparr>)) = bd_regs d1" "bd_cells (board_stop (d1\<lparr>bd_ptr := 7\<rparr>)) = bd_cells d"
    using d1(4) by (simp_all add: board_stop_def)
  ultimately show ?thesis using d1 by metis
qed

definition demo_board :: board where
  "demo_board = \<lparr>bd_rtc = True, bd_regs = (\<lambda>_. 0), bd_ptr = 0, bd_cells = (\<lambda>_. 0xFF), bd_adr = 0, bd_busy = False,
     bd_wrote = False, bd_sel = SelNone\<rparr>"

definition demo_bus :: "board bus" where
  "demo_bus = \<lparr>b_scl = True, b_sda = True, b_ph = Quiet, b_dev = demo_board\<rparr>"

lemma demo_bus_free: "bus_free demo_board demo_bus"
  by (simp add: bus_free_def demo_bus_def)

theorem rtc_set_read_witness:
  "\<exists>s. ds3231_read_time sim_pins (Some (rtc_time_t.make 0 0 0 0 0 0))
     (ds3231_set_time sim_pins (Some (rtc_time_t.make 59 30 23 31 12 99)) demo_bus) = (0, Some (rtc_time_t.make 59 30 23 31 12 99), s)"
proof -
  have "bd_rtc demo_board" "valid_time (rtc_time_t.make 59 30 23 31 12 99)"
    by (simp_all add: demo_board_def valid_time_def rtc_time_t.make_def)
  from rtc_set_read [OF board.rtc_board_axioms demo_bus_free this] show ?thesis by blast
qed

text \<open>Without the chip both calls end with the bus free: the time is not touched and the error is returned.\<close>

lemma rtc_absent:
  assumes "rtc_board pins lines" "bus_free d (lines s)" "\<not> bd_rtc d"
  shows "\<exists>s'. ds3231_read_time pins (Some t) s = (1, Some t, s') \<and> bus_free (board_stop d) (lines s')"
    and "bus_free (board_stop d) (lines (ds3231_set_time pins (Some t) s))"
  using rtc_board.read_time_absent [OF assms(1), unfolded free_iff [OF assms(1)], OF assms(2,3), of t]
    rtc_board.set_time_ok [OF assms(1), unfolded free_iff [OF assms(1)], OF assms(2), of t] assms(3) by simp_all



text \<open>The time stamp has the fields that FatFs takes from it.\<close>

lemma get_fattime_fields:
  assumes "1980 \<le> unat (ft_year t)" "unat (ft_year t) < 2108" "unat (ft_month t) < 16" "unat (ft_day t) < 32" "unat (ft_hour t) < 32"
    "unat (ft_min t) < 64" "unat (ft_sec t) < 64"
  shows "unat (get_fattime t) = ((((((unat (ft_year t) - 1980) * 16 + unat (ft_month t)) * 32 + unat (ft_day t)) * 32 + unat (ft_hour t)) * 64
    + unat (ft_min t)) * 32) + unat (ft_sec t) div 2"
proof -
  have u8: "unat (ucast x :: u32) = unat x" for x :: u8 by (simp add: unsigned_ucast_eq take_bit_nat_eq_self less_trans [OF unat_less_exp(1)])
  have y16: "unat (ucast (ft_year t) :: u32) = unat (ft_year t)"
    by (simp add: unsigned_ucast_eq take_bit_nat_eq_self less_trans [OF unat_less_exp(2)])
  then have y: "unat (ucast (ft_year t) - 1980 :: u32) = unat (ft_year t) - 1980"
    using assms(1) by (subst unat_sub) (simp_all add: word_le_nat_alt)
  define Y M D H I S :: u32 where "Y = ucast (ft_year t) - 1980" and "M = ucast (ft_month t)" and "D = ucast (ft_day t)"
    and "H = ucast (ft_hour t)" and "I = ucast (ft_min t)" and "S = ucast (ft_sec t div 2)"
  note fields = Y_def M_def D_def H_def I_def S_def
  have b: "unat Y < 128" "unat M < 16" "unat D < 32" "unat H < 32" "unat I < 64" "unat S < 32"
    using assms by (auto simp: fields y u8 unat_div intro: less_mult_imp_div_less)
  have "get_fattime t = push_bit 5 (push_bit 6 (push_bit 5 (push_bit 5 (push_bit 4 Y OR M) OR D) OR H) OR I) OR S"
    by (simp add: get_fattime_def push_bit_or or.assoc flip: fields)
  moreover have e1: "unat (push_bit 4 Y OR M) = unat Y * 16 + unat M" using unat_push_or [of M 4 Y] b by simp
  moreover have e2: "unat (push_bit 5 (push_bit 4 Y OR M) OR D) = (unat Y * 16 + unat M) * 32 + unat D"
    using unat_push_or [of D 5 "push_bit 4 Y OR M"] b unfolding e1 by simp
  moreover have e3: "unat (push_bit 5 (push_bit 5 (push_bit 4 Y OR M) OR D) OR H) = ((unat Y * 16 + unat M) * 32 + unat D) * 32 + unat H"
    using unat_push_or [of H 5 "push_bit 5 (push_bit 4 Y OR M) OR D"] b unfolding e2 by simp
  moreover have e4: "unat (push_bit 6 (push_bit 5 (push_bit 5 (push_bit 4 Y OR M) OR D) OR H) OR I) =
      (((unat Y * 16 + unat M) * 32 + unat D) * 32 + unat H) * 64 + unat I"
    using unat_push_or [of I 6 "push_bit 5 (push_bit 5 (push_bit 4 Y OR M) OR D) OR H"] b unfolding e3 by simp
  ultimately have "unat (get_fattime t) = ((((unat Y * 16 + unat M) * 32 + unat D) * 32 + unat H) * 64 + unat I) * 32 + unat S"
    using unat_push_or [of S 5 "push_bit 6 (push_bit 5 (push_bit 5 (push_bit 4 Y OR M) OR D) OR H) OR I"] b by simp
  then show ?thesis unfolding fields y u8 unat_div by simp
qed

end
