(* ===== verification/Dhcp_Packet.thy ===== *)
theory Dhcp_Packet
  imports Libc_String "HOL-Library.Monad_Syntax"
begin

text \<open>
  The messages of \<open>bios/sys/ethernet/dhcp_client.c\<close>: \<open>enviar_pacote_dhcp\<close> up to the sending, and
  \<open>parse_dhcp_options\<close>, on bytes in memory, against the layout of RFC 2131 as lists of bytes.
\<close>

section \<open>Definitions\<close>

definition DHCP_DISCOVER :: u8 where "DHCP_DISCOVER = 1"
definition DHCP_OFFER :: u8 where "DHCP_OFFER = 2"
definition DHCP_REQUEST :: u8 where "DHCP_REQUEST = 3"
definition DHCP_ACK :: u8 where "DHCP_ACK = 5"
definition DHCP_NAK :: u8 where "DHCP_NAK = 6"

definition OFF_OP :: nat where "OFF_OP = 0"
definition OFF_HTYPE :: nat where "OFF_HTYPE = 1"
definition OFF_HLEN :: nat where "OFF_HLEN = 2"
definition OFF_HOPS :: nat where "OFF_HOPS = 3"
definition OFF_XID :: nat where "OFF_XID = 4"
definition OFF_SECS :: nat where "OFF_SECS = 8"
definition OFF_FLAGS :: nat where "OFF_FLAGS = 10"
definition OFF_YIADDR :: nat where "OFF_YIADDR = 16"
definition OFF_SIADDR :: nat where "OFF_SIADDR = 20"
definition OFF_CHADDR :: nat where "OFF_CHADDR = 28"
definition OFF_MAGIC :: nat where "OFF_MAGIC = 236"
definition OFF_OPTIONS :: nat where "OFF_OPTIONS = 240"

definition DHCP_PKT_MIN_SIZE :: u16 where "DHCP_PKT_MIN_SIZE = 300"
definition DHCP_PKT_BUF_SIZE :: nat where "DHCP_PKT_BUF_SIZE = 320"

definition put_u32_be :: "mem \<Rightarrow> nat \<Rightarrow> u32 \<Rightarrow> mem" where
  "put_u32_be m p v =
     (let m = m(p := ucast (drop_bit 24 v AND 0xFF));
          m = m(p + 1 := ucast (drop_bit 16 v AND 0xFF));
          m = m(p + 2 := ucast (drop_bit 8 v AND 0xFF))
      in m(p + 3 := ucast (v AND 0xFF)))"

text \<open>\<open>*opt++ = b\<close> for the bytes of a list.\<close>

fun put_opt :: "u8 list \<Rightarrow> mem \<times> nat \<Rightarrow> mem \<times> nat" where
  "put_opt [] (m, opt) = (m, opt)"
| "put_opt (b # bs) (m, opt) = put_opt bs (m(opt := b), opt + 1)"

definition dhcp_header :: "mem \<Rightarrow> nat \<Rightarrow> u32 \<Rightarrow> nat \<Rightarrow> mem" where
  "dhcp_header m pkt xid mac =
     (let m = memset m pkt 0 (of_nat DHCP_PKT_BUF_SIZE);
          m = m(pkt + OFF_OP := 1, pkt + OFF_HTYPE := 1, pkt + OFF_HLEN := 6, pkt + OFF_HOPS := 0);
          m = put_u32_be m (pkt + OFF_XID) xid;
          m = m(pkt + OFF_SECS := 0, pkt + OFF_SECS + 1 := 0, pkt + OFF_FLAGS := 0x80, pkt + OFF_FLAGS + 1 := 0);
          m = fst (memcpy m (pkt + OFF_CHADDR) mac 6)
      in put_u32_be m (pkt + OFF_MAGIC) 0x63825363)"

definition dhcp_request_options :: "nat \<Rightarrow> nat \<Rightarrow> mem \<times> nat \<Rightarrow> mem \<times> nat" where
  "dhcp_request_options req_ip server_ip =
     (\<lambda>(m, opt). let (m, opt) = put_opt [50, 4] (m, opt); m = fst (memcpy m opt req_ip 4); opt = opt + 4;
                     (m, opt) = put_opt [54, 4] (m, opt); m = fst (memcpy m opt server_ip 4)
                 in (m, opt + 4))"

text \<open>\<open>enviar_pacote_dhcp\<close> without the call that sends: the memory and \<open>total_len\<close>. A null pointer is 0.\<close>

definition build_dhcp :: "mem \<Rightarrow> nat \<Rightarrow> u8 \<Rightarrow> u32 \<Rightarrow> nat \<Rightarrow> nat \<Rightarrow> nat \<Rightarrow> nat \<Rightarrow> (mem \<times> u16) option" where
  "build_dhcp m pkt msg_type xid mac hostname req_ip server_ip =
     (let m = dhcp_header m pkt xid mac;
          (m, opt) = put_opt [53, 1, msg_type] (m, pkt + OFF_OPTIONS);
          (m, opt) = (if msg_type = DHCP_REQUEST \<and> req_ip \<noteq> 0 \<and> server_ip \<noteq> 0
                      then dhcp_request_options req_ip server_ip (m, opt) else (m, opt))
      in do {
        n \<leftarrow> strlen m hostname;
        let len = (ucast n :: u8);
        let (m, opt) = put_opt [12, len] (m, opt);
        let m = fst (memcpy m opt hostname (unat len));
        let opt = opt + unat len;
        let (m, opt) = put_opt [55, 3, 1, 3, 6] (m, opt);
        let (m, opt) = put_opt [0xFF] (m, opt);
        let total_len = (of_nat (opt - pkt) :: u16);
        Some (m, if total_len < DHCP_PKT_MIN_SIZE then DHCP_PKT_MIN_SIZE else total_len)
      })"

partial_function (option) parse_options_loop ::
    "nat \<Rightarrow> u16 \<Rightarrow> nat \<Rightarrow> u16 \<Rightarrow> u8 \<Rightarrow> mem \<Rightarrow> (u8 \<times> mem) option" where
  "parse_options_loop raw raw_len out_server_ip i msg_type m =
     (if \<not> (i < raw_len \<and> m (raw + unat i) \<noteq> 0xFF) then Some (msg_type, m)
      else
        (let code = m (raw + unat i) in
         if code = 0 then parse_options_loop raw raw_len out_server_ip (i + 1) msg_type m
         else
           (let opt_len = m (raw + unat i + 1);
                (msg_type, m) =
                  (if code = 53 \<and> opt_len = 1 then (m (raw + unat i + 2), m)
                   else if code = 54 \<and> opt_len = 4 \<and> out_server_ip \<noteq> 0
                   then (msg_type, fst (memcpy m out_server_ip (raw + unat i + 2) 4))
                   else (msg_type, m))
            in parse_options_loop raw raw_len out_server_ip (i + (2 + ucast opt_len)) msg_type m)))"

declare parse_options_loop.simps [code]

definition parse_dhcp_options :: "mem \<Rightarrow> nat \<Rightarrow> u16 \<Rightarrow> nat \<Rightarrow> (u8 \<times> mem) option" where
  "parse_dhcp_options m raw raw_len out_server_ip =
     parse_options_loop raw raw_len out_server_ip (of_nat OFF_OPTIONS) 0 m"

text \<open>The transaction identifiers: the static counter and the value.\<close>

definition next_xid :: "u32 \<Rightarrow> u32 \<times> u32" where
  "next_xid counter = (let counter = counter + 1 in (0x39000000 OR (counter AND 0x00FFFFFF), counter))"

section \<open>Layout\<close>

datatype dhcp_opt = Pad | Opt u8 "u8 list"

fun opt_bytes :: "dhcp_opt \<Rightarrow> u8 list" where
  "opt_bytes Pad = [0]"
| "opt_bytes (Opt c d) = c # of_nat (length d) # d"

definition opts_bytes :: "dhcp_opt list \<Rightarrow> u8 list" where
  "opts_bytes os = concat (map opt_bytes os)"

fun opt_ok :: "dhcp_opt \<Rightarrow> bool" where
  "opt_ok Pad \<longleftrightarrow> True"
| "opt_ok (Opt c d) \<longleftrightarrow> c \<noteq> 0 \<and> c \<noteq> 0xFF \<and> length d < 256"

definition be32 :: "u32 \<Rightarrow> u8 list" where
  "be32 v = [ucast (drop_bit 24 v), ucast (drop_bit 16 v), ucast (drop_bit 8 v), ucast v]"

definition packet_header :: "u32 \<Rightarrow> u8 list \<Rightarrow> u8 list" where
  "packet_header xid mac =
     [1, 1, 6, 0] @ be32 xid @ [0, 0, 0x80, 0] @ replicate 16 0 @ mac @ replicate 10 0 @ replicate 192 0 @ [0x63, 0x82, 0x53, 0x63]"

definition request_opts :: "u8 \<Rightarrow> (u8 list \<times> u8 list) option \<Rightarrow> u8 list \<Rightarrow> dhcp_opt list" where
  "request_opts t req host =
     Opt 53 [t] # (case req of None \<Rightarrow> [] | Some (ip, srv) \<Rightarrow> [Opt 50 ip, Opt 54 srv]) @ [Opt 12 host, Opt 55 [1, 3, 6]]"

definition dhcp_packet :: "u8 \<Rightarrow> u32 \<Rightarrow> u8 list \<Rightarrow> (u8 list \<times> u8 list) option \<Rightarrow> u8 list \<Rightarrow> u8 list" where
  "dhcp_packet t xid mac req host =
     (let p = packet_header xid mac @ opts_bytes (request_opts t req host) @ [0xFF] in p @ replicate (300 - length p) 0)"

section \<open>Building\<close>

lemma wr_into:
  "i + length ys \<le> length xs \<Longrightarrow>
   wr_bytes (wr_bytes m p xs) (p + i) ys = wr_bytes m p (take i xs @ ys @ drop (i + length ys) xs)"
  by (rule ext) (auto simp: wr_bytes_apply nth_append)

lemma wr_zeros:
  assumes "length xs \<le> i" "i + length ys \<le> length xs + k"
  shows "wr_bytes (wr_bytes m p (xs @ replicate k 0)) (p + i) ys =
    wr_bytes m p ((xs @ replicate (i - length xs) 0 @ ys) @ replicate (length xs + k - i - length ys) 0)"
  using assms by (subst wr_into) (auto simp: min_def add.commute)

lemma put_opt_eq: "put_opt bs (m, opt) = (wr_bytes m opt bs, opt + length bs)"
  by (induction bs arbitrary: m opt) simp_all

lemma wr4: "m(p := a, p + 1 := b, p + 2 := c, p + 3 := d) = wr_bytes m p [a, b, c, d]"
  by (simp add: eval_nat_numeral)

lemma be32_bytes: "put_u32_be m p v = wr_bytes m p (be32 v)"
proof -
  have "ucast (w AND 0xFF) = (ucast w :: u8)" for w :: u32
  proof -
    have "(0xFF :: u32) = Bit_Operations.mask 8" by (simp add: mask_eq_exp_minus_1)
    then show ?thesis unfolding take_bit_eq_mask [symmetric] by (simp only: take_bit_eq_mask [symmetric]) (rule bit_eqI, auto simp: bit_simps)
  qed
  then show ?thesis by (simp add: put_u32_be_def be32_def Let_def numeral_3_eq_3)
qed

lemma memcpy_apart: "apart d n q n \<Longrightarrow> fst (memcpy m d q n) = wr_bytes m d (rd_bytes m q n)"
  by (auto simp: memcpy_def memcpy_loop_eq apart_def)

lemma memset_eq0: "unat n = k \<Longrightarrow> memset m p 0 n = wr_bytes m p ([] @ replicate k 0)"
  by (simp add: memset_def memset_loop_eq)

lemma header_bytes:
  assumes "apart mac 6 p 320"
  shows "dhcp_header m p xid mac = wr_bytes m p (packet_header xid (rd_bytes m mac 6) @ replicate 80 0)"
proof -
  let ?mac = "rd_bytes m mac 6"
  have src: "rd_bytes (wr_bytes m p xs) mac 6 = ?mac" if "length xs = 320" for xs
    using assms that by (intro rd_wr_bytes_apart) simp
  have ap: "apart (p + 28) 6 mac 6" using assms by (auto simp: apart_def)
  have 0: "memset m p 0 (of_nat 320) = wr_bytes m p ([] @ replicate 320 0)" by (rule memset_eq0) simp
  have 1: "wr_bytes (memset m p 0 (of_nat 320)) (p + 0) [1, 1, 6, 0] = wr_bytes m p ([1, 1, 6, 0] @ replicate 316 0)"
    unfolding 0 by (subst wr_zeros) simp_all
  have 2: "wr_bytes (wr_bytes m p ([1, 1, 6, 0] @ replicate 316 0)) (p + 4) (be32 xid) = wr_bytes m p (([1, 1, 6, 0] @ be32 xid) @ replicate 312 0)"
    by (subst wr_zeros) (simp_all add: be32_def)
  have 3: "wr_bytes (wr_bytes m p (([1, 1, 6, 0] @ be32 xid) @ replicate 312 0)) (p + 8) [0, 0, 0x80, 0] =
    wr_bytes m p (([1, 1, 6, 0] @ be32 xid @ [0, 0, 0x80, 0]) @ replicate 308 0)"
    by (subst wr_zeros) (simp_all add: be32_def)
  have 4: "wr_bytes (wr_bytes m p (([1, 1, 6, 0] @ be32 xid @ [0, 0, 0x80, 0]) @ replicate 308 0)) (p + 28) ?mac =
    wr_bytes m p (([1, 1, 6, 0] @ be32 xid @ [0, 0, 0x80, 0] @ replicate 16 0 @ ?mac) @ replicate 286 0)"
    by (subst wr_zeros) (simp_all add: be32_def)
  have 5: "wr_bytes (wr_bytes m p (([1, 1, 6, 0] @ be32 xid @ [0, 0, 0x80, 0] @ replicate 16 0 @ ?mac) @ replicate 286 0)) (p + 236) (be32 0x63825363) =
    wr_bytes m p ((([1, 1, 6, 0] @ be32 xid @ [0, 0, 0x80, 0] @ replicate 16 0 @ ?mac) @ replicate 202 0 @ be32 0x63825363) @ replicate 80 0)"
    by (subst wr_zeros) (simp_all add: be32_def)
  have mac: "fst (memcpy (wr_bytes m p (([1, 1, 6, 0] @ be32 xid @ [0, 0, 0x80, 0]) @ replicate 308 0)) (p + 28) mac 6) =
    wr_bytes (wr_bytes m p (([1, 1, 6, 0] @ be32 xid @ [0, 0, 0x80, 0]) @ replicate 308 0)) (p + 28) ?mac"
    unfolding memcpy_apart [OF ap] by (subst src) (simp_all add: be32_def)
  have 6: "replicate 10 (0 :: u8) @ replicate 192 0 = replicate 202 0" by (simp flip: replicate_add)
  have q: "f(p + 0 := a, p + 1 := b, p + 2 := c, p + 3 := d) = wr_bytes f (p + 0) [a, b, c, d]"
    "f(p + 8 := a, p + 8 + 1 := b, p + 10 := c, p + 10 + 1 := d) = wr_bytes f (p + 8) [a, b, c, d]" for f :: mem and a b c d
    by (simp_all add: eval_nat_numeral)
  have magic: "be32 0x63825363 = [0x63, 0x82, 0x53, 0x63]" by (simp add: be32_def)
  show ?thesis
    unfolding dhcp_header_def Let_def DHCP_PKT_BUF_SIZE_def OFF_OP_def OFF_HTYPE_def OFF_HLEN_def OFF_HOPS_def OFF_XID_def OFF_SECS_def
      OFF_FLAGS_def OFF_CHADDR_def OFF_MAGIC_def
      q 1 be32_bytes 2 3 mac 4 5
    by (simp add: packet_header_def magic flip: 6)
qed

lemma length_header: "length mac = 6 \<Longrightarrow> length (packet_header xid mac) = 240"
  by (simp add: packet_header_def be32_def)

text \<open>The buffer holds \<open>xs\<close> and zeros; the options go behind while there is room.\<close>

definition filled :: "mem \<Rightarrow> nat \<Rightarrow> u8 list \<Rightarrow> mem" where
  "filled m p xs = wr_bytes m p (xs @ replicate (320 - length xs) 0)"

lemma filled_append: "length xs + length bs \<le> 320 \<Longrightarrow> wr_bytes (filled m p xs) (p + length xs) bs = filled m p (xs @ bs)"
  using wr_zeros [of xs "length xs" bs "320 - length xs" m p] by (simp add: filled_def)

lemma filled_put:
  "length xs + length bs \<le> 320 \<Longrightarrow> put_opt bs (filled m p xs, p + length xs) = (filled m p (xs @ bs), p + length (xs @ bs))"
  using filled_append [of xs bs m p] by (simp add: put_opt_eq add.assoc)

lemma filled_copy:
  assumes "length xs + n \<le> 320" "apart q n p 320"
  shows "fst (memcpy (filled m p xs) (p + length xs) q n) = filled m p (xs @ rd_bytes m q n)"
proof -
  have "apart (p + length xs) n q n" using assms by (auto simp: apart_def)
  moreover have "rd_bytes (filled m p xs) q n = rd_bytes m q n"
    using assms unfolding filled_def by (intro rd_wr_bytes_apart) simp
  ultimately show ?thesis using filled_append [of xs "rd_bytes m q n" m p] assms(1) by (simp add: memcpy_apart)
qed

lemma filled_header: "apart mac 6 p 320 \<Longrightarrow> dhcp_header m p xid mac = filled m p (packet_header xid (rd_bytes m mac 6))"
  by (simp add: filled_def length_header header_bytes)

lemma filled_request:
  assumes "length xs + 12 \<le> 320" "apart ip 4 p 320" "apart srv 4 p 320"
  shows "dhcp_request_options ip srv (filled m p xs, p + length xs) =
    (filled m p (xs @ opts_bytes [Opt 50 (rd_bytes m ip 4), Opt 54 (rd_bytes m srv 4)]),
     p + length (xs @ opts_bytes [Opt 50 (rd_bytes m ip 4), Opt 54 (rd_bytes m srv 4)]))"
proof -
  let ?a = "xs @ [50, 4]" and ?b = "(xs @ [50, 4] @ rd_bytes m ip 4) @ [54, 4]"
  have 1: "put_opt [50, 4] (filled m p xs, p + length xs) = (filled m p ?a, p + length ?a)" by (rule filled_put) (use assms in simp)
  have 2: "fst (memcpy (filled m p ?a) (p + length ?a) ip 4) = filled m p (?a @ rd_bytes m ip 4)"
    by (rule filled_copy) (use assms in simp_all)
  have e: "p + length (?a @ rd_bytes m ip 4) = p + length ?a + 4" "(?a @ rd_bytes m ip 4) @ [54, 4] = ?b" by simp_all
  have "length (?a @ rd_bytes m ip 4) + length [54 :: u8, 4] \<le> 320" using assms by simp
  from filled_put [OF this, of m p, unfolded e]
  have 3: "put_opt [54, 4] (filled m p (?a @ rd_bytes m ip 4), p + length ?a + 4) = (filled m p ?b, p + length ?b)" .
  have 4: "fst (memcpy (filled m p ?b) (p + length ?b) srv 4) = filled m p (?b @ rd_bytes m srv 4)"
    by (rule filled_copy) (use assms in simp_all)
  show ?thesis unfolding dhcp_request_options_def prod.case Let_def 1 2 3 4 by (simp add: opts_bytes_def)
qed

lemma build_filled:
  assumes "apart mac 6 p 320" "cstr m hostname host" "apart hostname (Suc (length host)) p 320"
    and ptrs: "req_ip \<noteq> 0 \<Longrightarrow> apart req_ip 4 p 320" "server_ip \<noteq> 0 \<Longrightarrow> apart server_ip 4 p 320"
    and req: "req = (if t = DHCP_REQUEST \<and> req_ip \<noteq> 0 \<and> server_ip \<noteq> 0
                then Some (rd_bytes m req_ip 4, rd_bytes m server_ip 4) else None)"
    and room: "length (opts_bytes (request_opts t req host)) < 80"
    and raw_def: "raw = packet_header xid (rd_bytes m mac 6) @ opts_bytes (request_opts t req host) @ [0xFF]"
  shows "build_dhcp m p t xid mac hostname req_ip server_ip =
    Some (filled m p raw, if of_nat (length raw) < DHCP_PKT_MIN_SIZE then DHCP_PKT_MIN_SIZE else of_nat (length raw))"
proof -
  let ?h = "packet_header xid (rd_bytes m mac 6)"
  define o2 where "o2 = (case req of None \<Rightarrow> [] | Some (ip, srv) \<Rightarrow> opts_bytes [Opt 50 ip, Opt 54 srv])"
  have ro: "opts_bytes (request_opts t req host) = [53, 1, t] @ o2 @ (12 # of_nat (length host) # host) @ [55, 3, 1, 3, 6]"
    by (auto simp: opts_bytes_def request_opts_def o2_def split: option.splits)
  have h: "length ?h = 240" by (simp add: length_header)
  have n: "length host < 256" "length o2 + length host < 70" using room unfolding ro by simp_all
  define x1 where "x1 = ?h @ [53, 1, t]"
  define x2 where "x2 = x1 @ o2"
  define x3 where "x3 = x2 @ [12, of_nat (length host)]"
  define x4 where "x4 = x3 @ host"
  have len: "length x1 = 243" "length x2 = 243 + length o2" "length x3 = 245 + length o2" "length x4 = 245 + length o2 + length host"
    using h by (simp_all add: x1_def x2_def x3_def x4_def)
  have 1: "put_opt [53, 1, t] (filled m p ?h, p + OFF_OPTIONS) = (filled m p x1, p + length x1)"
    using filled_put [of ?h "[53, 1, t]" m p] h by (simp add: x1_def OFF_OPTIONS_def)
  have 2: "(if t = DHCP_REQUEST \<and> req_ip \<noteq> 0 \<and> server_ip \<noteq> 0 then dhcp_request_options req_ip server_ip (filled m p x1, p + length x1)
      else (filled m p x1, p + length x1)) = (filled m p x2, p + length x2)"
    using filled_request [of x1 req_ip p server_ip m] ptrs len(1) req by (simp add: x2_def o2_def)
  have "cstr (filled m p x2) hostname host"
    using assms(2,3) len n unfolding filled_def by (subst cstr_wr_apart) simp_all
  then have 3: "strlen (filled m p x2) hostname = Some (of_nat (length host))" by (rule strlen_cstr)
  have u: "ucast (of_nat (length host) :: u32) = (of_nat (length host) :: u8)"
    using n by (simp add: word_unat_eq_iff unsigned_ucast_eq unat_of_nat take_bit_eq_mod)
  have un: "unat (of_nat (length host) :: u8) = length host" using n by (simp add: of_nat_inverse_u8)
  have 4: "put_opt [12, of_nat (length host)] (filled m p x2, p + length x2) = (filled m p x3, p + length x3)"
    using filled_put [of x2 "[12, of_nat (length host)]" m p] len n by (simp add: x3_def)
  have "apart hostname (length host) p 320" using assms(3) by (auto simp: apart_def)
  moreover have "rd_bytes m hostname (length host) = host" using assms(2) by (simp add: cstr_iff)
  ultimately have 5: "fst (memcpy (filled m p x3) (p + length x3) hostname (length host)) = filled m p x4"
    using filled_copy [of x3 "length host" hostname p m] len n by (simp add: x4_def)
  have 6: "put_opt [55, 3, 1, 3, 6] (filled m p x4, p + length x3 + length host) = (filled m p (x4 @ [55, 3, 1, 3, 6]), p + length (x4 @ [55, 3, 1, 3, 6]))"
    using filled_put [of x4 "[55, 3, 1, 3, 6]" m p] len n by (simp add: x4_def add.assoc)
  have 7: "put_opt [0xFF] (filled m p (x4 @ [55, 3, 1, 3, 6]), p + length (x4 @ [55, 3, 1, 3, 6])) = (filled m p raw, p + length raw)"
  proof -
    have "raw = (x4 @ [55, 3, 1, 3, 6]) @ [0xFF]" unfolding raw_def ro by (simp add: x4_def x3_def x2_def x1_def)
    then show ?thesis using filled_put [of "x4 @ [55, 3, 1, 3, 6]" "[0xFF]" m p] len n by simp
  qed
  show ?thesis
    unfolding build_dhcp_def Let_def filled_header [OF assms(1)] 1 prod.case 2 3 bind.bind_lunit u 4 un 5 6 7
    by simp
qed

lemma filled_read: "length xs \<le> n \<Longrightarrow> n \<le> 320 \<Longrightarrow> rd_bytes (filled m p xs) p n = xs @ replicate (n - length xs) 0"
proof -
  assume "length xs \<le> n" "n \<le> 320"
  moreover have "rd_bytes (filled m p xs) p 320 = xs @ replicate (320 - length xs) 0"
    if "length xs \<le> 320" unfolding filled_def using that by (intro rd_wr_bytes_same) simp
  ultimately show ?thesis using take_rd_bytes [of n 320 "filled m p xs" p] by (simp add: min_def diff_le_mono)
qed

lemma filled_outside: "length xs \<le> 320 \<Longrightarrow> a < p \<or> p + 320 \<le> a \<Longrightarrow> filled m p xs a = m a"
  by (auto simp: filled_def wr_bytes_apply)

section \<open>Parsing\<close>

definition opt_type :: "dhcp_opt \<Rightarrow> u8 \<Rightarrow> u8" where
  "opt_type x t = (case x of Opt c [v] \<Rightarrow> if c = 53 then v else t | _ \<Rightarrow> t)"

definition opt_server :: "dhcp_opt \<Rightarrow> u8 list \<Rightarrow> u8 list" where
  "opt_server x srv = (case x of Opt c d \<Rightarrow> if c = 54 \<and> length d = 4 then d else srv | Pad \<Rightarrow> srv)"

lemma parse_end: "\<not> (i < n \<and> m (raw + unat i) \<noteq> 0xFF) \<Longrightarrow> parse_options_loop raw n out i t m = Some (t, m)"
  by (subst parse_options_loop.simps) simp

lemma parse_pad: "i < n \<Longrightarrow> m (raw + unat i) = 0 \<Longrightarrow> parse_options_loop raw n out i t m = parse_options_loop raw n out (i + 1) t m"
  by (subst parse_options_loop.simps) simp

text \<open>One option: it is taken when it is of interest, and skipped in any case.\<close>

lemma parse_opt:
  assumes "i < n" "m (raw + unat i) = c" "c \<noteq> 0" "c \<noteq> 0xFF" "m (raw + unat i + 1) = of_nat (length d)" "length d < 256"
    and "rd_bytes m (raw + unat i + 2) (length d) = d" "out \<noteq> 0" "apart out 4 (raw + unat i + 2) (length d)" "rd_bytes m out 4 = srv"
  shows "\<exists>m'. parse_options_loop raw n out i t m =
      parse_options_loop raw n out (i + (2 + of_nat (length d))) (opt_type (Opt c d) t) m' \<and>
    rd_bytes m' out 4 = opt_server (Opt c d) srv \<and> (\<forall>a. a < out \<or> out + 4 \<le> a \<longrightarrow> m' a = m a)"
proof -
  have u: "ucast (of_nat (length d) :: u8) = (of_nat (length d) :: u16)"
    using assms(6) by (simp add: word_unat_eq_iff unsigned_ucast_eq unat_of_nat take_bit_eq_mod)
  have l: "(of_nat (length d) :: u8) = 1 \<longleftrightarrow> length d = 1" "(of_nat (length d) :: u8) = 4 \<longleftrightarrow> length d = 4"
    using assms(6) by (auto simp: word_unat_eq_iff unat_of_nat)
  have v: "m (raw + unat i + 2) = hd d" if "length d = 1"
    using assms(7) that by (cases d) auto
  have ot: "opt_type (Opt c d) t = (if c = 53 \<and> length d = 1 then hd d else t)"
    by (auto simp: opt_type_def split: list.splits)
  let ?m = "if c = 54 \<and> length d = 4 then wr_bytes m out d else m"
  have cp: "fst (memcpy m out (raw + unat i + 2) 4) = wr_bytes m out d" if "length d = 4"
    using memcpy_apart [of out 4 "raw + unat i + 2" m] assms(7,9) that by simp
  have "parse_options_loop raw n out i t m = parse_options_loop raw n out (i + (2 + of_nat (length d))) (opt_type (Opt c d) t) ?m"
    using assms(1-5,8) v cp by (subst parse_options_loop.simps) (simp add: Let_def u l ot)
  moreover have "rd_bytes ?m out 4 = opt_server (Opt c d) srv"
    using assms(10) by (auto simp: opt_server_def rd_wr_bytes_same)
  ultimately show ?thesis by (intro exI [of _ ?m]) (auto simp: wr_bytes_apply)
qed

lemma parse_opts:
  "list_all opt_ok os \<Longrightarrow> rd_bytes m (raw + k) (length (opts_bytes os) + 1) = opts_bytes os @ [0xFF] \<Longrightarrow>
   k + length (opts_bytes os) \<le> unat n \<Longrightarrow> out \<noteq> 0 \<Longrightarrow> apart out 4 raw (k + length (opts_bytes os) + 1) \<Longrightarrow>
   rd_bytes m out 4 = srv \<Longrightarrow>
   \<exists>m'. parse_options_loop raw n out (of_nat k) t m = Some (fold opt_type os t, m') \<and>
     rd_bytes m' out 4 = fold opt_server os srv \<and> (\<forall>a. a < out \<or> out + 4 \<le> a \<longrightarrow> m' a = m a)"
proof (induction os arbitrary: k t m srv)
  case Nil
  have k: "unat (of_nat k :: u16) = k" using Nil.prems(3) le_less_trans [OF _ unat_less_exp(2)] by (intro of_nat_inverse_u16) (simp add: opts_bytes_def)
  have "m (raw + k) = 0xFF" using Nil.prems(2) by (simp add: opts_bytes_def)
  then show ?case using parse_end [of "of_nat k" n m raw out t] Nil.prems(6) k by auto
next
  case (Cons x os)
  have lt: "k + length (opts_bytes (x # os)) < 65536" using le_less_trans [OF Cons.prems(3) unat_less_exp(2)] by simp
  then have k: "unat (of_nat k :: u16) = k" by (intro of_nat_inverse_u16) simp
  have pos: "0 < length (opt_bytes x)" by (cases x) auto
  have split: "length (opts_bytes (x # os)) = length (opt_bytes x) + length (opts_bytes os)" by (simp add: opts_bytes_def)
  have kn: "(of_nat k :: u16) < n" unfolding word_less_nat_alt using Cons.prems(3) pos k split by linarith
  have all: "rd_bytes m (raw + k) (length (opt_bytes x) + (length (opts_bytes os) + 1)) = opt_bytes x @ opts_bytes os @ [0xFF]"
    using Cons.prems(2) split by (simp add: opts_bytes_def add.assoc)
  have hd: "rd_bytes m (raw + k) (length (opt_bytes x)) = opt_bytes x"
    and tl: "rd_bytes m (raw + (k + length (opt_bytes x))) (length (opts_bytes os) + 1) = opts_bytes os @ [0xFF]"
    using all unfolding rd_bytes_append by (simp_all add: add.assoc)
  have room: "k + length (opt_bytes x) + length (opts_bytes os) \<le> unat n" "apart out 4 raw (k + length (opt_bytes x) + length (opts_bytes os) + 1)"
    using Cons.prems(3,5) split by (simp_all add: add.assoc)
  show ?case
  proof (cases x)
    case Pad
    have "m (raw + k) = 0" using hd Pad by simp
    then have "parse_options_loop raw n out (of_nat k) t m = parse_options_loop raw n out (of_nat (k + length (opt_bytes x))) t m"
      using parse_pad [OF kn, of m raw] k Pad by (simp add: add.commute)
    then show ?thesis using Cons.IH [OF _ tl room(1) Cons.prems(4) room(2) Cons.prems(6), of t] Cons.prems(1) Pad
      by (simp add: opt_type_def opt_server_def)
  next
    case (Opt c d)
    have ok: "c \<noteq> 0" "c \<noteq> 0xFF" "length d < 256" using Cons.prems(1) Opt by auto
    have b: "m (raw + k) = c" "m (raw + k + 1) = of_nat (length d)" "rd_bytes m (raw + k + 2) (length d) = d"
      using hd Opt by (simp_all add: eval_nat_numeral)
    have ap: "apart out 4 (raw + k + 2) (length d)" using room(2) Opt by (auto simp: apart_def)
    obtain m1 where m1: "parse_options_loop raw n out (of_nat k) t m =
        parse_options_loop raw n out (of_nat k + (2 + of_nat (length d))) (opt_type (Opt c d) t) m1"
      "rd_bytes m1 out 4 = opt_server (Opt c d) srv" "\<forall>a. a < out \<or> out + 4 \<le> a \<longrightarrow> m1 a = m a"
      using parse_opt [OF kn, of m raw c d out srv t] k b ok ap Cons.prems(4,6) by auto
    have next_at: "(of_nat k + (2 + of_nat (length d)) :: u16) = of_nat (k + length (opt_bytes x))" using Opt by simp
    have "rd_bytes m1 (raw + (k + length (opt_bytes x))) (length (opts_bytes os) + 1) = opts_bytes os @ [0xFF]"
      unfolding tl [symmetric] rd_bytes_eq_iff using m1(3) room(2) by (auto simp: apart_def)
    from Cons.IH [OF _ this room(1) Cons.prems(4) room(2) m1(2), of "opt_type (Opt c d) t"] Cons.prems(1) obtain m' where
      "parse_options_loop raw n out (of_nat (k + length (opt_bytes x))) (opt_type (Opt c d) t) m1 = Some (fold opt_type os (opt_type (Opt c d) t), m')"
      "rd_bytes m' out 4 = fold opt_server os (opt_server (Opt c d) srv)" "\<forall>a. a < out \<or> out + 4 \<le> a \<longrightarrow> m' a = m1 a"
      by auto
    then show ?thesis using m1(1,3) Opt unfolding next_at by (intro exI [of _ m']) auto
  qed
qed

text \<open>Whatever the bytes are, only the four bytes of the server change.\<close>

lemma memcpy_loop_outside: "a < d \<or> d + n \<le> a \<Longrightarrow> memcpy_loop m d q n a = m a"
  by (induction n arbitrary: m d q) (auto simp: fun_upd_apply)

lemma parse_frame:
  "parse_options_loop raw n out i t m = Some (t', m') \<Longrightarrow> a < out \<or> out + 4 \<le> a \<Longrightarrow> m' a = m a"
proof -
  assume run: "parse_options_loop raw n out i t m = Some (t', m')" and a: "a < out \<or> out + 4 \<le> a"
  have "out = out \<longrightarrow> snd (t', m') a = m a"
  proof (rule parse_options_loop.raw_induct [where P = "\<lambda>raw n out' i t m y. out' = out \<longrightarrow> snd y a = m a", OF _ run], rule impI)
    fix f raw n out' i t m y
    assume IH: "\<And>raw n out' i t m y. f raw n out' i t m = Some y \<Longrightarrow> out' = out \<longrightarrow> snd y a = m a" and o: "out' = out"
      and run: "(if \<not> (i < n \<and> m (raw + unat i) \<noteq> 0xFF) then Some (t, m)
        else (let code = m (raw + unat i) in
          if code = 0 then f raw n out' (i + 1) t m
          else (let opt_len = m (raw + unat i + 1);
                    (t, m) = (if code = 53 \<and> opt_len = 1 then (m (raw + unat i + 2), m)
                       else if code = 54 \<and> opt_len = 4 \<and> out' \<noteq> 0 then (t, fst (memcpy m out' (raw + unat i + 2) 4))
                       else (t, m))
                in f raw n out' (i + (2 + ucast opt_len)) t m))) = Some y"
    show "snd y a = m a"
      using run IH o a memcpy_loop_outside [OF a] by (auto simp: Let_def memcpy_def split: if_splits)
  qed
  then show ?thesis by simp
qed

text \<open>Whatever the bytes are, the loop ends when the buffer is at most 65,279 bytes long: the index cannot wrap.\<close>

lemma parse_returns: "unat n + 257 \<le> 65536 \<Longrightarrow> \<exists>r. parse_options_loop raw n out i t m = Some r"
proof (induction "unat n - unat i" arbitrary: i t m rule: less_induct)
  case less
  show ?case
  proof (cases "i < n \<and> m (raw + unat i) \<noteq> 0xFF")
    case False
    then show ?thesis using parse_end [of i n m raw] by blast
  next
    case True
    have adv: "unat (i + d) = unat i + unat d \<and> unat n - unat (i + d) < unat n - unat i" if "0 < unat d" "unat d \<le> 257" for d
    proof -
      have "unat i < unat n" using True by (simp add: word_less_nat_alt)
      moreover then have "unat (i + d) = unat i + unat d" using that less.prems by (subst unat_add_lem [symmetric]) simp
      ultimately show ?thesis using that by linarith
    qed
    show ?thesis
    proof (cases "m (raw + unat i) = 0")
      case True
      have "0 < unat (1 :: u16)" "unat (1 :: u16) \<le> 257" by simp_all
      from adv [OF this] have "unat n - unat (i + 1) < unat n - unat i" by blast
      from less.hyps [OF this less.prems] show ?thesis
        using parse_pad [of i n m raw] True \<open>i < n \<and> _\<close> by simp
    next
      case nz: False
      let ?d = "2 + ucast (m (raw + unat i + 1)) :: u16"
      have "unat (ucast (m (raw + unat i + 1)) :: u16) < 256"
        using unat_less_exp(1) [of "m (raw + unat i + 1)"]
        by (simp add: unsigned_ucast_eq take_bit_nat_eq_self less_trans [OF unat_less_exp(1)])
      then have "0 < unat ?d" "unat ?d \<le> 257" by (simp_all add: unat_word_ariths)
      from adv [OF this] have "unat n - unat (i + ?d) < unat n - unat i" by blast
      note go = less.hyps [OF this less.prems]
      show ?thesis
        using True nz go by (subst parse_options_loop.simps) (auto simp: Let_def split: prod.splits)
    qed
  qed
qed

section \<open>Properties\<close>

definition orion_host :: "u8 list" where
  "orion_host = [0x6F, 0x72, 0x69, 0x6F, 0x6E, 0x36, 0x38, 0x6B]"

definition demo_net_mem :: mem where
  "demo_net_mem = wr_bytes (wr_bytes (wr_bytes (\<lambda>_. 0) 0x100 (orion_host @ [0])) 0x120 [192, 168, 1, 77]) 0x130 [192, 168, 1, 1]"

lemma demo_net_host: "cstr demo_net_mem 0x100 orion_host" "rd_bytes demo_net_mem 0x120 4 = [192, 168, 1, 77]"
  "rd_bytes demo_net_mem 0x130 4 = [192, 168, 1, 1]"
  by (simp_all add: demo_net_mem_def orion_host_def rd_bytes_conv upt_rec fun_upd_apply)

lemma build_ok:
  assumes "apart mac 6 p 320" "cstr m hostname host" "apart hostname (Suc (length host)) p 320"
    and "req_ip \<noteq> 0 \<Longrightarrow> apart req_ip 4 p 320" "server_ip \<noteq> 0 \<Longrightarrow> apart server_ip 4 p 320"
    and "req = (if t = DHCP_REQUEST \<and> req_ip \<noteq> 0 \<and> server_ip \<noteq> 0
                then Some (rd_bytes m req_ip 4, rd_bytes m server_ip 4) else None)"
    and "length (opts_bytes (request_opts t req host)) < 80"
    and "pk = dhcp_packet t xid (rd_bytes m mac 6) req host"
  shows "\<exists>m' n. build_dhcp m p t xid mac hostname req_ip server_ip = Some (m', n) \<and>
    300 \<le> unat n \<and> unat n \<le> 320 \<and> rd_bytes m' p (unat n) = pk \<and> (\<forall>a. a < p \<or> p + 320 \<le> a \<longrightarrow> m' a = m a)"
proof -
  define raw where "raw = packet_header xid (rd_bytes m mac 6) @ opts_bytes (request_opts t req host) @ [0xFF]"
  have len: "length raw \<le> 320" using assms(7) by (simp add: raw_def length_header)
  let ?n = "if (of_nat (length raw) :: u16) < DHCP_PKT_MIN_SIZE then DHCP_PKT_MIN_SIZE else of_nat (length raw)"
  have n: "unat ?n = max 300 (length raw)"
    using len by (auto simp: DHCP_PKT_MIN_SIZE_def word_less_nat_alt unat_of_nat)
  have "rd_bytes (filled m p raw) p (unat ?n) = pk"
    unfolding n using len by (subst filled_read) (auto simp: assms(8) dhcp_packet_def Let_def raw_def max_def)
  then show ?thesis
    using build_filled [OF assms(1-7) raw_def] n len filled_outside [OF len]
    by (intro exI [of _ "filled m p raw"] exI [of _ ?n]) auto
qed

text \<open>C18: When the options fit the packet, which is when the host name has at most 57 characters in a REQUEST with
  an address and a server, and when the inputs lie apart from the buffer: what \<open>enviar_pacote_dhcp\<close> hands to the chip
  is the message of RFC 2131, header, options and padding, and no byte outside the 320 bytes of the buffer changes.\<close>

theorem build_dhcp_correct:
  assumes "apart mac 6 p 320" "cstr m hostname host" "apart hostname (Suc (length host)) p 320"
    and "req_ip \<noteq> 0 \<Longrightarrow> apart req_ip 4 p 320" "server_ip \<noteq> 0 \<Longrightarrow> apart server_ip 4 p 320"
    and "req = (if t = DHCP_REQUEST \<and> req_ip \<noteq> 0 \<and> server_ip \<noteq> 0
                then Some (rd_bytes m req_ip 4, rd_bytes m server_ip 4) else None)"
    and "length (opts_bytes (request_opts t req host)) < 80"
    and "pk = dhcp_packet t xid (rd_bytes m mac 6) req host"
  shows "\<exists>m' n. build_dhcp m p t xid mac hostname req_ip server_ip = Some (m', n) \<and>
    300 \<le> unat n \<and> unat n \<le> 320 \<and> rd_bytes m' p (unat n) = pk \<and> (\<forall>a. a < p \<or> p + 320 \<le> a \<longrightarrow> m' a = m a)"
  by (rule build_ok [OF assms])

theorem build_dhcp_witness:
  "\<exists>m' n. build_dhcp demo_net_mem 0x1000 DHCP_REQUEST 0x39000001 0x140 0x100 0x120 0x130 = Some (m', n) \<and>
    rd_bytes m' 0x1000 (unat n) = dhcp_packet DHCP_REQUEST 0x39000001 (rd_bytes demo_net_mem 0x140 6)
      (Some ([192, 168, 1, 77], [192, 168, 1, 1])) orion_host"
proof -
  have "apart 0x140 6 0x1000 320" "apart 0x100 (Suc (length orion_host)) 0x1000 320" "apart 0x120 4 0x1000 320" "apart 0x130 4 0x1000 320"
    "length (opts_bytes (request_opts DHCP_REQUEST (Some ([192, 168, 1, 77], [192, 168, 1, 1])) orion_host)) < 80"
    by (simp_all add: apart_def orion_host_def opts_bytes_def request_opts_def)
  from build_dhcp_correct [OF this(1) demo_net_host(1) this(2) this(3,4) _ this(5) refl, of "0x39000001"] show ?thesis
    using demo_net_host(2,3) by auto
qed

text \<open>C19: the options of a message are read as RFC 2131 writes them: the type is the value of the last option 53 of length one,
  the server that of the last option 54 of length four; options in between are skipped, and only the four
  bytes of the server change.\<close>

theorem parse_dhcp_correct:
  assumes "rd_bytes m (raw + 240) (length (opts_bytes os) + 1) = opts_bytes os @ [0xFF]" "list_all opt_ok os"
    and "240 + length (opts_bytes os) \<le> unat n" "out \<noteq> 0" "apart out 4 raw (240 + length (opts_bytes os) + 1)"
  shows "\<exists>m'. parse_dhcp_options m raw n out = Some (fold opt_type os 0, m') \<and>
    rd_bytes m' out 4 = fold opt_server os (rd_bytes m out 4) \<and> (\<forall>a. a < out \<or> out + 4 \<le> a \<longrightarrow> m' a = m a)"
  using parse_opts [OF assms(2,1,3-5) refl, of 0] by (simp add: parse_dhcp_options_def OFF_OPTIONS_def)

theorem parse_dhcp_witness:
  "\<exists>m'. parse_dhcp_options (wr_bytes (\<lambda>_. 0) 0x1000 (replicate 240 0 @ [53, 1, 2, 54, 4, 10, 0, 0, 1, 0xFF])) 0x1000 320 0x500 = Some (2, m') \<and>
    rd_bytes m' 0x500 4 = [10, 0, 0, 1]"
proof -
  let ?m = "wr_bytes (\<lambda>_. 0) 0x1000 (replicate 240 0 @ [53, 1, 2, 54, 4, 10, 0, 0, 1, 0xFF])"
  let ?os = "[Opt 53 [2], Opt 54 [10, 0, 0, 1]]"
  have "rd_bytes ?m (0x1000 + 240) (length (opts_bytes ?os) + 1) = opts_bytes ?os @ [0xFF]"
    by (simp add: opts_bytes_def wr_bytes_append rd_bytes_conv upt_rec fun_upd_apply)
  from parse_dhcp_correct [OF this, of 320 "0x500"] show ?thesis
    by (auto simp: opts_bytes_def apart_def opt_type_def opt_server_def)
qed

text \<open>The loop tests the index of an option only against its first byte: with the last byte of the buffer in use it
  reads the length and the value behind the end.\<close>

lemma parse_reads_past_end:
  assumes "m (raw + 319) = 53" "m (raw + 320) = 1"
  shows "parse_options_loop raw 320 out 319 t m = Some (m (raw + 321), m)"
proof -
  have a: "m (320 + raw) = 1" "m (raw + 321) = m (321 + raw)" using assms(2) by (simp_all add: add.commute)
  have "parse_options_loop raw 320 out 319 t m = parse_options_loop raw 320 out 322 (m (raw + 321)) m"
    using assms(1) a by (subst parse_options_loop.simps) (simp add: Let_def)
  then show ?thesis using parse_end [of 322 320 m raw out] by simp
qed

text \<open>A long host name overruns the buffer: 58 characters in a REQUEST need 321 bytes.\<close>

lemma long_host_overruns:
  "length ip = 4 \<Longrightarrow> length srv = 4 \<Longrightarrow> length mac = 6 \<Longrightarrow>
   length (dhcp_packet DHCP_REQUEST xid mac (Some (ip, srv)) (replicate 58 c)) = 321"
  by (simp add: dhcp_packet_def Let_def length_header opts_bytes_def request_opts_def)

end
