(* ===== verification/Shell_Receiver.thy ===== *)
theory Shell_Receiver
  imports Libc_String "HOL-Library.Monad_Syntax"
begin

text \<open>
  \<open>bios/shell/receiver.c\<close>: the command that receives a file over TCP through the socket 0 of a W5100. The
  chip is reached through its registers only, a record of accesses with a state of their own; what the
  program expects of it is the locale \<open>w5100_socket\<close>: received bytes appear in a ring of 2 KB, in order,
  and are released by advancing the read pointer. Polls of the command register and of the size
  register are loops that the chip ends. FatFs is a parameter of \<open>saving_file\<close>; the messages are left out.
\<close>

section \<open>Registers\<close>

record 's w5100 =
  w5100_read :: "u16 \<Rightarrow> 's \<Rightarrow> u8 \<times> 's"
  w5100_write :: "u16 \<Rightarrow> u8 \<Rightarrow> 's \<Rightarrow> 's"

definition W5100_GAR :: u16 where "W5100_GAR = 0x0001"
definition W5100_SUBR :: u16 where "W5100_SUBR = 0x0005"
definition W5100_RMSR :: u16 where "W5100_RMSR = 0x001A"
definition W5100_TMSR :: u16 where "W5100_TMSR = 0x001B"
definition S0_MR :: u16 where "S0_MR = 0x0400"
definition S0_CR :: u16 where "S0_CR = 0x0401"
definition S0_SR :: u16 where "S0_SR = 0x0403"
definition S0_PORT :: u16 where "S0_PORT = 0x0404"
definition S0_TX_WR :: u16 where "S0_TX_WR = 0x0424"
definition S0_RX_RSR :: u16 where "S0_RX_RSR = 0x0426"
definition S0_RX_RD :: u16 where "S0_RX_RD = 0x0428"
definition S0_TX_BASE :: u16 where "S0_TX_BASE = 0x4000"
definition S0_RX_BASE :: u16 where "S0_RX_BASE = 0x6000"
definition S0_MASK :: u16 where "S0_MASK = 0x07FF"

definition CR_OPEN :: u8 where "CR_OPEN = 0x01"
definition CR_LISTEN :: u8 where "CR_LISTEN = 0x02"
definition CR_DISCON :: u8 where "CR_DISCON = 0x08"
definition CR_SEND :: u8 where "CR_SEND = 0x20"
definition CR_RECV :: u8 where "CR_RECV = 0x40"

definition SOCK_CLOSED :: u8 where "SOCK_CLOSED = 0x00"
definition SOCK_INIT :: u8 where "SOCK_INIT = 0x13"
definition SOCK_ESTABLISHED :: u8 where "SOCK_ESTABLISHED = 0x17"
definition SOCK_CLOSE_WAIT :: u8 where "SOCK_CLOSE_WAIT = 0x1C"

lemmas w5100_regs = S0_MR_def S0_CR_def S0_SR_def S0_PORT_def S0_TX_WR_def S0_RX_RSR_def S0_RX_RD_def
  S0_TX_BASE_def S0_RX_BASE_def S0_MASK_def
lemmas w5100_status = SOCK_CLOSED_def SOCK_INIT_def SOCK_ESTABLISHED_def SOCK_CLOSE_WAIT_def

section \<open>Access to the chip\<close>

definition w5100_write16 :: "'s w5100 \<Rightarrow> u16 \<Rightarrow> u16 \<Rightarrow> 's \<Rightarrow> 's" where
  "w5100_write16 chip reg val s =
     w5100_write chip (reg + 1) (ucast val) (w5100_write chip reg (ucast (drop_bit 8 val)) s)"

definition w5100_read16 :: "'s w5100 \<Rightarrow> u16 \<Rightarrow> 's \<Rightarrow> u16 \<times> 's" where
  "w5100_read16 chip reg s =
     (let (hi, s) = w5100_read chip reg s; (lo, s) = w5100_read chip (reg + 1) s
      in (push_bit 8 (ucast hi) OR ucast lo, s))"

text \<open>The size is read until two reads agree, because it may change between its two bytes.\<close>

partial_function (option) w5100_get_rx_size :: "'s w5100 \<Rightarrow> 's \<Rightarrow> (u16 \<times> 's) option" where
  "w5100_get_rx_size chip s =
     (let (val1, s) = w5100_read16 chip S0_RX_RSR s;
          (val2, s) = (if val1 \<noteq> 0 then w5100_read16 chip S0_RX_RSR s else (0, s))
      in if val1 \<noteq> val2 then w5100_get_rx_size chip s else Some (val1, s))"

declare w5100_get_rx_size.simps [code]

partial_function (option) w5100_cmd_wait :: "'s w5100 \<Rightarrow> 's \<Rightarrow> 's option" where
  "w5100_cmd_wait chip s =
     (let (v, s) = w5100_read chip S0_CR s in if v \<noteq> 0 then w5100_cmd_wait chip s else Some s)"

declare w5100_cmd_wait.simps [code]

definition w5100_cmd :: "'s w5100 \<Rightarrow> u8 \<Rightarrow> 's \<Rightarrow> 's option" where
  "w5100_cmd chip cmd s = w5100_cmd_wait chip (w5100_write chip S0_CR cmd s)"

fun recv_loop :: "'s w5100 \<Rightarrow> u16 \<Rightarrow> nat \<Rightarrow> nat \<Rightarrow> nat \<Rightarrow> mem \<Rightarrow> 's \<Rightarrow> mem \<times> 's" where
  "recv_loop chip ptr buf i 0 m s = (m, s)"
| "recv_loop chip ptr buf i (Suc n) m s =
     (let (v, s) = w5100_read chip (S0_RX_BASE + ((ptr + of_nat i) AND S0_MASK)) s
      in recv_loop chip ptr buf (i + 1) n (m(buf + i := v)) s)"

definition w5100_recv_bytes :: "'s w5100 \<Rightarrow> nat \<Rightarrow> u16 \<Rightarrow> mem \<Rightarrow> 's \<Rightarrow> (mem \<times> 's) option" where
  "w5100_recv_bytes chip buf len m s =
     (let (ptr, s) = w5100_read16 chip S0_RX_RD s;
          (m, s) = recv_loop chip ptr buf 0 (unat len) m s;
          s = w5100_write16 chip S0_RX_RD (ptr + len) s
      in do { s \<leftarrow> w5100_cmd chip CR_RECV s; Some (m, s) })"

fun send_loop :: "'s w5100 \<Rightarrow> u16 \<Rightarrow> nat \<Rightarrow> u8 list \<Rightarrow> 's \<Rightarrow> 's" where
  "send_loop chip ptr i [] s = s"
| "send_loop chip ptr i (b # bs) s =
     send_loop chip ptr (i + 1) bs (w5100_write chip (S0_TX_BASE + ((ptr + of_nat i) AND S0_MASK)) b s)"

definition w5100_send_bytes :: "'s w5100 \<Rightarrow> u8 list \<Rightarrow> 's \<Rightarrow> 's option" where
  "w5100_send_bytes chip bs s =
     (let (ptr, s) = w5100_read16 chip S0_TX_WR s;
          s = send_loop chip ptr 0 bs s;
          s = w5100_write16 chip S0_TX_WR (ptr + of_nat (length bs)) s
      in w5100_cmd chip CR_SEND s)"

text \<open>The gateway, the network mask and the buffer sizes; the other settings are commented out.\<close>

definition w5100_init :: "'s w5100 \<Rightarrow> 's \<Rightarrow> 's" where
  "w5100_init chip s =
     (let s = fold (\<lambda>i. w5100_write chip (W5100_GAR + of_nat i) ([192, 168, 1, 1] ! i)) [0..<4] s;
          s = fold (\<lambda>i. w5100_write chip (W5100_SUBR + of_nat i) ([255, 255, 255, 0] ! i)) [0..<4] s
      in w5100_write chip W5100_TMSR 0x55 (w5100_write chip W5100_RMSR 0x55 s))"

section \<open>The receiver\<close>

datatype estado_t = ESTADO_HEADER | ESTADO_PAYLOAD

text \<open>The static variables, and the memory with the file buffer. \<open>cabecalho_raw\<close> is an array of its own.\<close>

record receiver =
  rc_mem :: mem
  cabecalho_raw :: nat
  estado :: estado_t
  bytes_recebidos :: u32
  tamanho_total :: u32

definition BUFFER_ARQUIVO :: nat where "BUFFER_ARQUIVO = 0x82000"

definition ack_text :: "u8 list" where
  "ack_text = [0x41, 0x72, 0x71, 0x20, 0x6C, 0x69, 0x64, 0x6F]"

definition le32_of :: "mem \<Rightarrow> nat \<Rightarrow> u32" where
  "le32_of m p = push_bit 24 (ucast (m (p + 3))) OR push_bit 16 (ucast (m (p + 2))) OR
     push_bit 8 (ucast (m (p + 1))) OR ucast (m p)"

definition receive_header :: "'s w5100 \<Rightarrow> receiver \<Rightarrow> 's \<Rightarrow> (receiver \<times> 's) option" where
  "receive_header chip rc s =
     do {
       (m, s) \<leftarrow> w5100_recv_bytes chip (cabecalho_raw rc) 21 (rc_mem rc) s;
       Some (rc\<lparr>tamanho_total := le32_of m (cabecalho_raw rc), bytes_recebidos := 21, estado := ESTADO_PAYLOAD,
                rc_mem := fst (memcpy m BUFFER_ARQUIVO (cabecalho_raw rc) 21)\<rparr>, s)
     }"

text \<open>The result is that of the function: 0 when the transfer is over.\<close>

definition receive_payload :: "'s w5100 \<Rightarrow> u16 \<Rightarrow> receiver \<Rightarrow> 's \<Rightarrow> (nat \<times> receiver \<times> 's) option" where
  "receive_payload chip rx_avail rc s =
     (let restante = tamanho_total rc - bytes_recebidos rc;
          bloco = (if ucast rx_avail < restante then rx_avail else ucast restante)
      in do {
        (m, s) \<leftarrow> w5100_recv_bytes chip (BUFFER_ARQUIVO + unat (bytes_recebidos rc)) bloco (rc_mem rc) s;
        let rc = rc\<lparr>rc_mem := m, bytes_recebidos := bytes_recebidos rc + ucast bloco\<rparr>;
        if bytes_recebidos rc \<ge> tamanho_total rc then do {
          s \<leftarrow> w5100_send_bytes chip ack_text s;
          s \<leftarrow> w5100_cmd chip CR_DISCON s;
          Some (0, rc\<lparr>estado := ESTADO_HEADER\<rparr>, s)
        }
        else Some (1, rc, s)
      })"

definition w5100_getter_loop :: "'s w5100 \<Rightarrow> receiver \<Rightarrow> 's \<Rightarrow> (nat \<times> receiver \<times> 's) option" where
  "w5100_getter_loop chip rc s =
     (let (status, s) = w5100_read chip S0_SR s in
      if status = SOCK_CLOSED then do {
        s \<leftarrow> w5100_cmd chip CR_OPEN (w5100_write16 chip S0_PORT 4243 (w5100_write chip S0_MR 0x01 s));
        Some (1, rc\<lparr>estado := ESTADO_HEADER, bytes_recebidos := 0\<rparr>, s)
      }
      else if status = SOCK_INIT then do { s \<leftarrow> w5100_cmd chip CR_LISTEN s; Some (1, rc, s) }
      else if status = SOCK_ESTABLISHED then do {
        (rx_avail, s) \<leftarrow> w5100_get_rx_size chip s;
        if estado rc = ESTADO_HEADER then
          (if rx_avail \<ge> 21 then do { (rc, s) \<leftarrow> receive_header chip rc s; Some (1, rc, s) } else Some (1, rc, s))
        else if rx_avail > 0 then receive_payload chip rx_avail rc s
        else Some (1, rc, s)
      }
      else if status = SOCK_CLOSE_WAIT then do { s \<leftarrow> w5100_cmd chip CR_DISCON s; Some (0, rc, s) }
      else Some (1, rc, s))"

partial_function (option) receive_loop :: "'s w5100 \<Rightarrow> receiver \<Rightarrow> 's \<Rightarrow> (receiver \<times> 's) option" where
  "receive_loop chip rc s =
     Option.bind (w5100_getter_loop chip rc s) (\<lambda>(resp, rc, s).
       if resp \<noteq> 0 then receive_loop chip rc s else Some (rc, s))"

declare receive_loop.simps [code]

text \<open>
  \<open>saving_file\<close>: the results of \<open>fopen\<close>, \<open>fwrite\<close> and \<open>fclose\<close> are parameters; the value is what was asked of
  the file system, in order, and how it ended. The file name is the C string at offset 8.
\<close>

datatype save_call = Save_open nat | Save_write "u8 list" | Save_close

datatype save_result = Saved | Bad_parameters | Cannot_open nat | Cannot_write nat u32 | Cannot_close nat

definition saving_file :: "(nat \<Rightarrow> nat) \<Rightarrow> (u8 list \<Rightarrow> nat \<times> u32) \<Rightarrow> nat \<Rightarrow> receiver \<Rightarrow> save_call list \<times> save_result" where
  "saving_file fopen fwrite fclose rc =
     (let tamanho = tamanho_total rc; dado = BUFFER_ARQUIVO + 21; nome_arquivo = BUFFER_ARQUIVO + 8;
          bs = rd_bytes (rc_mem rc) dado (unat tamanho)
      in if tamanho = 0 then ([], Bad_parameters)
         else if fopen nome_arquivo \<noteq> 0 then ([Save_open nome_arquivo], Cannot_open (fopen nome_arquivo))
         else
           (let (fr, bytes_escritos) = fwrite bs; calls = [Save_open nome_arquivo, Save_write bs, Save_close] in
            if fr \<noteq> 0 \<or> bytes_escritos \<noteq> tamanho then (calls, Cannot_write fr bytes_escritos)
            else if fclose \<noteq> 0 then (calls, Cannot_close fclose)
            else (calls, Saved)))"

definition do_receiver ::
    "'s w5100 \<Rightarrow> (nat \<Rightarrow> nat) \<Rightarrow> (u8 list \<Rightarrow> nat \<times> u32) \<Rightarrow> nat \<Rightarrow> receiver \<Rightarrow> 's \<Rightarrow> ((save_call list \<times> save_result) \<times> receiver \<times> 's) option" where
  "do_receiver chip fopen fwrite fclose rc s =
     do { (rc, s) \<leftarrow> receive_loop chip rc s; Some (saving_file fopen fwrite fclose rc, rc, s) }"


section \<open>What the chip promises\<close>

lemma unat_be_word: "unat (push_bit 8 (ucast hi) OR ucast lo :: u16) = unat (hi :: u8) * 256 + unat (lo :: u8)"
proof -
  have "push_bit 8 (ucast hi) + ucast lo = (push_bit 8 (ucast hi) OR ucast lo :: u16)"
    by (rule disjunctive_add_eq_or) (auto simp: bit_eq_iff bit_simps dest: bit_imp_le_length)
  moreover have "push_bit 8 (ucast hi) + ucast lo = (of_nat (unat hi * 256 + unat lo) :: u16)"
    by (simp add: push_bit_eq_mult)
  moreover
  have "unat hi < 256" "unat lo < 256" using unat_less_exp(1) [of hi] unat_less_exp(1) [of lo] by simp_all
  then have "unat (of_nat (unat hi * 256 + unat lo) :: u16) = unat hi * 256 + unat lo"
    by (intro of_nat_inverse_u16) linarith
  ultimately show ?thesis by metis
qed

lemma unat_u16_u32: "unat (ucast (w :: u16) :: u32) = unat w"
  by (simp add: unsigned_ucast_eq take_bit_nat_eq_self less_trans [OF unat_less_exp(2)])

lemma be_word_split: "push_bit 8 (ucast (ucast (drop_bit 8 w) :: u8)) OR ucast (ucast w :: u8) = (w :: u16)"
  by (rule bit_eqI) (auto simp: bit_simps not_le)

text \<open>
  \<open>rx arr pos ptr s\<close>: on an open connection the bytes \<open>arr\<close> have arrived, the first \<open>pos\<close> of them have been
  released, and the read pointer is \<open>ptr\<close>. \<open>sent\<close> is what the peer sends. More bytes may arrive at any access.
\<close>

lemma torn_size_le: "a \<le> b \<Longrightarrow> a div 256 * 256 + b mod 256 \<le> (b :: nat)"
proof -
  assume "a \<le> b"
  then have "a div 256 * 256 \<le> b div 256 * 256" by (intro mult_le_mono1 div_le_mono)
  then show ?thesis using div_mult_mod_eq [of b 256] by linarith
qed

locale w5100_socket =
  fixes chip :: "'s w5100" and rx :: "u8 list \<Rightarrow> nat \<Rightarrow> u16 \<Rightarrow> 's \<Rightarrow> bool" and sent :: "u8 list"
  assumes rx_bound: "rx arr pos ptr s \<Longrightarrow> pos \<le> length arr \<and> length arr - pos \<le> 2048"
    and rx_sent: "rx arr pos ptr s \<Longrightarrow> prefix arr sent"
    and rx_read: "rx arr pos ptr s \<Longrightarrow> w5100_read chip a s = (v, s') \<Longrightarrow> \<exists>new. rx (arr @ new) pos ptr s'"
    and rx_status: "rx arr pos ptr s \<Longrightarrow> w5100_read chip S0_SR s = (v, s') \<Longrightarrow> v = SOCK_ESTABLISHED"
    and rx_size_hi: "rx arr pos ptr s \<Longrightarrow> w5100_read chip S0_RX_RSR s = (v, s') \<Longrightarrow> unat v = (length arr - pos) div 256"
    and rx_size_lo: "rx arr pos ptr s \<Longrightarrow> w5100_read chip (S0_RX_RSR + 1) s = (v, s') \<Longrightarrow> unat v = (length arr - pos) mod 256"
    and rx_ptr_hi: "rx arr pos ptr s \<Longrightarrow> w5100_read chip S0_RX_RD s = (v, s') \<Longrightarrow> v = ucast (drop_bit 8 ptr)"
    and rx_ptr_lo: "rx arr pos ptr s \<Longrightarrow> w5100_read chip (S0_RX_RD + 1) s = (v, s') \<Longrightarrow> v = ucast ptr"
    and rx_data: "rx arr pos ptr s \<Longrightarrow> i < length arr - pos \<Longrightarrow>
      w5100_read chip (S0_RX_BASE + ((ptr + of_nat i) AND S0_MASK)) s = (v, s') \<Longrightarrow> v = arr ! (pos + i)"
    and rx_release: "rx arr pos ptr s \<Longrightarrow> n \<le> length arr - pos \<Longrightarrow>
      \<exists>new. rx (arr @ new) (pos + n) (ptr + of_nat n)
        (w5100_write chip S0_CR CR_RECV (w5100_write16 chip S0_RX_RD (ptr + of_nat n) s))"
begin

lemma read_ptr:
  assumes "rx arr pos ptr s" "w5100_read16 chip S0_RX_RD s = (v, s')"
  shows "v = ptr \<and> (\<exists>new. rx (arr @ new) pos ptr s')"
proof -
  obtain h s1 l s2 where h: "w5100_read chip S0_RX_RD s = (h, s1)" and l: "w5100_read chip (S0_RX_RD + 1) s1 = (l, s2)"
    by fastforce
  then obtain new where s1: "rx (arr @ new) pos ptr s1" using rx_read assms(1) by blast
  obtain new' where s2: "rx ((arr @ new) @ new') pos ptr s2" using rx_read [OF s1 l] by blast
  have "v = ptr" "s' = s2"
    using assms(2) h l rx_ptr_hi [OF assms(1) h] rx_ptr_lo [OF s1 l] be_word_split [of ptr]
    by (auto simp: w5100_read16_def)
  then show ?thesis using s2 by auto
qed

text \<open>A size that is read while bytes arrive is never too large.\<close>

lemma read_size:
  assumes "rx arr pos ptr s" "w5100_read16 chip S0_RX_RSR s = (v, s')"
  shows "\<exists>new. rx (arr @ new) pos ptr s' \<and> unat v \<le> length (arr @ new) - pos"
proof -
  obtain h s1 l s2 where h: "w5100_read chip S0_RX_RSR s = (h, s1)" and l: "w5100_read chip (S0_RX_RSR + 1) s1 = (l, s2)"
    by fastforce
  then obtain new where s1: "rx (arr @ new) pos ptr s1" using rx_read assms(1) by blast
  obtain new' where s2: "rx ((arr @ new) @ new') pos ptr s2" using rx_read [OF s1 l] by blast
  let ?a = "length arr - pos" and ?b = "length (arr @ new) - pos"
  have v: "unat v = ?a div 256 * 256 + ?b mod 256" "s' = s2"
    using assms(2) h l rx_size_hi [OF assms(1) h] rx_size_lo [OF s1 l] unat_be_word [of h l]
    by (auto simp: w5100_read16_def)
  have "unat v \<le> ?b" unfolding v(1) by (rule torn_size_le) simp
  moreover have "?b \<le> length (arr @ new @ new') - pos" by (rule diff_le_mono) simp
  ultimately have "unat v \<le> length (arr @ new @ new') - pos" by (rule order_trans)
  then show ?thesis using s2 v by (intro exI [of _ "new @ new'"]) auto
qed

lemma rx_size_ok:
  assumes "w5100_get_rx_size chip s = Some (n, s')" "rx arr pos ptr s"
  shows "\<exists>new. rx (arr @ new) pos ptr s' \<and> unat n \<le> length (arr @ new) - pos"
proof -
  have "\<forall>arr. rx arr pos ptr s \<longrightarrow> (\<exists>new. rx (arr @ new) pos ptr s' \<and> unat n \<le> length (arr @ new) - pos)"
  proof -
    define Q where "Q = (\<lambda>s y. \<forall>arr. rx arr pos ptr s \<longrightarrow>
      (\<exists>new. rx (arr @ new) pos ptr (snd y) \<and> unat (fst y :: u16) \<le> length (arr @ new) - pos))"
    have "chip = chip \<longrightarrow> Q s (n, s')"
    proof (rule w5100_get_rx_size.raw_induct [where P = "\<lambda>c s y. c = chip \<longrightarrow> Q s y", OF _ assms(1)], rule impI)
      fix f c s y
      assume IH: "\<And>c s y. f c s = Some y \<Longrightarrow> c = chip \<longrightarrow> Q s y" and c: "c = chip"
        and run0: "(let (val1, s) = w5100_read16 c S0_RX_RSR s;
          (val2, s) = (if val1 \<noteq> 0 then w5100_read16 c S0_RX_RSR s else (0, s))
        in if val1 \<noteq> val2 then f c s else Some (val1, s)) = Some y"
      obtain n s' where y: "y = (n, s')" by (cases y)
      note run = run0 [unfolded c y]
      have "\<exists>new. rx (arr @ new) pos ptr s' \<and> unat n \<le> length (arr @ new) - pos" if rx: "rx arr pos ptr s" for arr
      proof -
    obtain v1 s1 where v1: "w5100_read16 chip S0_RX_RSR s = (v1, s1)" by fastforce
    obtain new where n1: "rx (arr @ new) pos ptr s1" "unat v1 \<le> length (arr @ new) - pos" using read_size [OF rx v1] by blast
    obtain v2 s2 where v2: "(if v1 \<noteq> 0 then w5100_read16 chip S0_RX_RSR s1 else (0, s1)) = (v2, s2)" by fastforce
    have "\<exists>new2. rx ((arr @ new) @ new2) pos ptr s2"
    proof (cases "v1 = 0")
      case True
      then show ?thesis using n1(1) v2 by (intro exI [of _ "[]"]) simp
    next
      case False
      then show ?thesis using read_size [OF n1(1)] v2 by auto
    qed
    then obtain new2 where n2: "rx ((arr @ new) @ new2) pos ptr s2" by blast
    show ?thesis
    proof (cases "v1 = v2")
      case True
      then have e: "n = v1" "s' = s2" using run v1 v2 by auto
      have "length (arr @ new) - pos \<le> length (arr @ new @ new2) - pos" by (rule diff_le_mono) simp
      then show ?thesis using n1(2) n2 e by (intro exI [of _ "new @ new2"]) (auto intro: order_trans)
    next
      case False
      then have "f chip s2 = Some (n, s')" using run v1 v2 by auto
      then have "Q s2 (n, s')" using IH by blast
      then obtain new3 where "rx (((arr @ new) @ new2) @ new3) pos ptr s'" "unat n \<le> length (((arr @ new) @ new2) @ new3) - pos"
        using n2 unfolding Q_def by auto
      then show ?thesis by (intro exI [of _ "new @ new2 @ new3"]) auto
    qed
      qed
      then show "Q s y" by (simp add: Q_def y)
    qed
    then show ?thesis by (simp add: Q_def)
  qed
  then show ?thesis using assms(2) by blast
qed

lemma rx_wait:
  assumes "w5100_cmd_wait chip s = Some s'" "rx arr pos ptr s"
  shows "\<exists>new. rx (arr @ new) pos ptr s'"
proof -
  have "chip = chip \<longrightarrow> (\<forall>arr. rx arr pos ptr s \<longrightarrow> (\<exists>new. rx (arr @ new) pos ptr s'))"
  proof (rule w5100_cmd_wait.raw_induct [where P = "\<lambda>c s s'. c = chip \<longrightarrow>
      (\<forall>arr. rx arr pos ptr s \<longrightarrow> (\<exists>new. rx (arr @ new) pos ptr s'))", OF _ assms(1)], safe)
    fix f s s' arr
    assume IH: "\<And>c s s'. f c s = Some s' \<Longrightarrow> c = chip \<longrightarrow>
        (\<forall>arr. rx arr pos ptr s \<longrightarrow> (\<exists>new. rx (arr @ new) pos ptr s'))"
      and run: "(let (v, s) = w5100_read chip S0_CR s in if v \<noteq> 0 then f chip s else Some s) = Some s'"
      and rx: "rx arr pos ptr s"
    obtain v s1 where v: "w5100_read chip S0_CR s = (v, s1)" by fastforce
    then obtain new where n: "rx (arr @ new) pos ptr s1" using rx_read rx by blast
    show "\<exists>new. rx (arr @ new) pos ptr s'"
    proof (cases "v = 0")
      case True
      then show ?thesis using run v n by auto
    next
      case False
      then have "f chip s1 = Some s'" using run v by auto
      then obtain new2 where "rx ((arr @ new) @ new2) pos ptr s'" using IH n by blast
      then show ?thesis by (intro exI [of _ "new @ new2"]) simp
    qed
  qed
  then show ?thesis using assms(2) by blast
qed

lemma rx_loop:
  "rx arr pos ptr s \<Longrightarrow> i + n \<le> length arr - pos \<Longrightarrow> recv_loop chip ptr buf i n m s = (m', s') \<Longrightarrow>
   m' = wr_bytes m (buf + i) (take n (drop (pos + i) arr)) \<and> (\<exists>new. rx (arr @ new) pos ptr s')"
proof (induction n arbitrary: i m s arr)
  case 0
  then show ?case by (auto intro: exI [of _ "[]"])
next
  case (Suc n)
  obtain v s1 where v: "w5100_read chip (S0_RX_BASE + ((ptr + of_nat i) AND S0_MASK)) s = (v, s1)" by fastforce
  have i: "i < length arr - pos" using Suc.prems(2) by simp
  obtain new where n: "rx (arr @ new) pos ptr s1" using rx_read [OF Suc.prems(1) v] by blast
  have val: "v = arr ! (pos + i)" by (rule rx_data [OF Suc.prems(1) i v])
  have rest: "recv_loop chip ptr buf (i + 1) n (m(buf + i := v)) s1 = (m', s')" using Suc.prems(3) v by simp
  have le: "i + 1 + n \<le> length (arr @ new) - pos" using Suc.prems(2) by simp
  note IH = Suc.IH [OF n le rest]
  have "take (Suc n) (drop (pos + i) arr) = v # take n (drop (pos + (i + 1)) (arr @ new))"
    using Suc.prems(2) val by (simp add: Cons_nth_drop_Suc [symmetric])
  then have "m' = wr_bytes m (buf + i) (take (Suc n) (drop (pos + i) arr))"
    using conjunct1 [OF IH] by (simp only: wr_bytes.simps add_Suc_right add_0_right One_nat_def)
  moreover obtain new2 where "rx ((arr @ new) @ new2) pos ptr s'" using conjunct2 [OF IH] by blast
  ultimately show ?case by (intro conjI exI [of _ "new @ new2"]) simp_all
qed

lemma rx_bytes:
  assumes "rx arr pos ptr s" "unat len \<le> length arr - pos" "w5100_recv_bytes chip buf len m s = Some (m', s')"
  shows "m' = wr_bytes m buf (take (unat len) (drop pos arr)) \<and> (\<exists>new. rx (arr @ new) (pos + unat len) (ptr + len) s')"
proof -
  obtain q s1 where q: "w5100_read16 chip S0_RX_RD s = (q, s1)" by fastforce
  obtain new where n: "q = ptr" "rx (arr @ new) pos ptr s1" using read_ptr [OF assms(1) q] by blast
  obtain m2 s2 where l: "recv_loop chip ptr buf 0 (unat len) m s1 = (m2, s2)" by fastforce
  have le: "0 + unat len \<le> length (arr @ new) - pos" using assms(2) by simp
  have m2: "m2 = wr_bytes m buf (take (unat len) (drop pos (arr @ new)))" using rx_loop [OF n(2) le l] by simp
  obtain new2 where n2: "rx ((arr @ new) @ new2) pos ptr s2" using rx_loop [OF n(2) le l] by auto
  have "unat len \<le> length ((arr @ new) @ new2) - pos" using assms(2) by simp
  from rx_release [OF n2 this] obtain new3 where
    n3: "rx (((arr @ new) @ new2) @ new3) (pos + unat len) (ptr + len) (w5100_write chip S0_CR CR_RECV (w5100_write16 chip S0_RX_RD (ptr + len) s2))"
    by auto
  have c: "w5100_cmd chip CR_RECV (w5100_write16 chip S0_RX_RD (ptr + len) s2) = Some s'" "m' = m2"
    using assms(3) q n(1) l by (auto simp: w5100_recv_bytes_def bind_eq_Some_conv)
  obtain new4 where "rx ((((arr @ new) @ new2) @ new3) @ new4) (pos + unat len) (ptr + len) s'"
    using rx_wait [OF c(1) [unfolded w5100_cmd_def] n3] by blast
  moreover have "take (unat len) (drop pos (arr @ new)) = take (unat len) (drop pos arr)" using assms(2) by simp
  ultimately show ?thesis using m2 c(2) by (auto intro!: exI [of _ "new @ new2 @ new3 @ new4"])
qed

text \<open>The state between two calls of \<open>w5100_getter_loop\<close>, for a message of \<open>T\<close> bytes.\<close>

definition recv_inv :: "nat \<Rightarrow> receiver \<Rightarrow> nat \<Rightarrow> bool" where
  "recv_inv T rc pos \<longleftrightarrow> (case estado rc of
     ESTADO_HEADER \<Rightarrow> pos = 0
   | ESTADO_PAYLOAD \<Rightarrow> 21 \<le> pos \<and> pos < T \<and> unat (bytes_recebidos rc) = pos \<and> unat (tamanho_total rc) = T \<and>
       rd_bytes (rc_mem rc) BUFFER_ARQUIVO pos = take pos sent)"

lemma prefix_take: "prefix arr sent \<Longrightarrow> n \<le> length arr \<Longrightarrow> take n arr = take n sent"
  by (auto simp: prefix_def)

lemma header_step:
  assumes "rx arr 0 ptr s" "21 \<le> length arr" "receive_header chip rc s = Some (rc', s')"
    "apart (cabecalho_raw rc) 21 BUFFER_ARQUIVO 21" "unat (le32_of (\<lambda>i. sent ! i) 0) = T" "21 < T"
  shows "(\<exists>new. rx (arr @ new) 21 (ptr + 21) s' \<and> recv_inv T rc' 21) \<and> cabecalho_raw rc' = cabecalho_raw rc"
proof -
  obtain m where m: "w5100_recv_bytes chip (cabecalho_raw rc) 21 (rc_mem rc) s = Some (m, s')"
      "rc' = rc\<lparr>tamanho_total := le32_of m (cabecalho_raw rc), bytes_recebidos := 21, estado := ESTADO_PAYLOAD,
                rc_mem := fst (memcpy m BUFFER_ARQUIVO (cabecalho_raw rc) 21)\<rparr>"
    using assms(3) by (auto simp: receive_header_def bind_eq_Some_conv)
  have le: "unat (21 :: u16) \<le> length arr - 0" using assms(2) by simp
  obtain new where r: "m = wr_bytes (rc_mem rc) (cabecalho_raw rc) (take 21 arr)" "rx (arr @ new) 21 (ptr + 21) s'"
    using rx_bytes [OF assms(1) le m(1)] by auto
  have pre: "take 21 arr = take 21 sent" using rx_sent [OF assms(1)] assms(2) by (rule prefix_take)
  have len: "length (take 21 sent) = 21" using assms(2) pre by (metis length_take min.absorb2)
  have byte: "m (cabecalho_raw rc + i) = sent ! i" if "i < 21" for i
    using that len by (simp add: r(1) pre wr_bytes_apply)
  have "le32_of m (cabecalho_raw rc) = le32_of (\<lambda>i. sent ! i) 0"
    using byte [of 0] byte [of 1] byte [of 2] byte [of 3] by (simp add: le32_of_def numeral_2_eq_2)
  moreover have "rd_bytes (fst (memcpy m BUFFER_ARQUIVO (cabecalho_raw rc) 21)) BUFFER_ARQUIVO 21 = take 21 sent"
  proof -
    have "fst (memcpy m BUFFER_ARQUIVO (cabecalho_raw rc) 21) = wr_bytes m BUFFER_ARQUIVO (rd_bytes m (cabecalho_raw rc) 21)"
      using assms(4) by (auto simp: memcpy_def apart_def intro!: memcpy_loop_eq)
    moreover have "rd_bytes m (cabecalho_raw rc) 21 = take 21 sent"
      using len by (intro nth_equalityI) (simp_all add: byte)
    ultimately show ?thesis using len by (simp add: rd_wr_bytes_same)
  qed
  ultimately show ?thesis using r(2) m(2) assms(5,6) by (auto simp: recv_inv_def)
qed

lemma payload_step:
  assumes "rx arr pos ptr s" "unat avail \<le> length arr - pos" "0 < unat avail" "recv_inv T rc pos" "estado rc = ESTADO_PAYLOAD"
    "receive_payload chip avail rc s = Some (r, rc', s')" "apart (cabecalho_raw rc) 21 BUFFER_ARQUIVO T"
  shows "cabecalho_raw rc' = cabecalho_raw rc \<and>
    (r \<noteq> 0 \<and> (\<exists>new pos' ptr'. rx (arr @ new) pos' ptr' s' \<and> pos < pos' \<and> recv_inv T rc' pos') \<or>
     r = 0 \<and> rd_bytes (rc_mem rc') BUFFER_ARQUIVO T = take T sent \<and> unat (tamanho_total rc') = T)"
proof -
  have inv: "21 \<le> pos" "pos < T" "unat (bytes_recebidos rc) = pos" "unat (tamanho_total rc) = T"
      "rd_bytes (rc_mem rc) BUFFER_ARQUIVO pos = take pos sent"
    using assms(4,5) by (auto simp: recv_inv_def)
  have T: "T < 2 ^ 32" using inv(4) unat_less_exp(3) [of "tamanho_total rc"] by simp
  define bloco where "bloco = (if ucast avail < tamanho_total rc - bytes_recebidos rc then avail
    else ucast (tamanho_total rc - bytes_recebidos rc))"
  have rest: "unat (tamanho_total rc - bytes_recebidos rc) = T - pos"
    using inv by (subst unat_sub) (auto simp: word_le_nat_alt)
  note ua = unat_u16_u32 [of avail]
  have b: "unat bloco = min (unat avail) (T - pos)"
  proof (cases "ucast avail < tamanho_total rc - bytes_recebidos rc")
    case True
    then show ?thesis using ua rest by (auto simp: bloco_def word_less_nat_alt)
  next
    case False
    then have "T - pos \<le> unat avail" using ua rest by (auto simp: word_less_nat_alt)
    moreover have "unat (ucast (tamanho_total rc - bytes_recebidos rc) :: u16) = T - pos"
      using le_less_trans [OF \<open>T - pos \<le> unat avail\<close> unat_less_exp(2)] rest
      by (simp add: unsigned_ucast_eq take_bit_nat_eq_self)
    ultimately show ?thesis using False by (simp add: bloco_def)
  qed
  let ?n = "unat bloco"
  have n: "0 < ?n" "?n \<le> length arr - pos" "pos + ?n \<le> T" using b assms(2,3) inv(2) by auto
  have R: "receive_payload chip avail rc s = do {
      (m, s) \<leftarrow> w5100_recv_bytes chip (BUFFER_ARQUIVO + unat (bytes_recebidos rc)) bloco (rc_mem rc) s;
      if bytes_recebidos rc + ucast bloco \<ge> tamanho_total rc then do {
        s \<leftarrow> w5100_send_bytes chip ack_text s;
        s \<leftarrow> w5100_cmd chip CR_DISCON s;
        Some (0, rc\<lparr>rc_mem := m, bytes_recebidos := bytes_recebidos rc + ucast bloco, estado := ESTADO_HEADER\<rparr>, s)
      }
      else Some (1, rc\<lparr>rc_mem := m, bytes_recebidos := bytes_recebidos rc + ucast bloco\<rparr>, s)
    }"
    unfolding receive_payload_def bloco_def Let_def by simp
  obtain m s1 where m: "w5100_recv_bytes chip (BUFFER_ARQUIVO + pos) bloco (rc_mem rc) s = Some (m, s1)"
    using assms(6) inv(3) by (auto simp: R bind_eq_Some_conv)
  obtain new where r: "m = wr_bytes (rc_mem rc) (BUFFER_ARQUIVO + pos) (take ?n (drop pos arr))"
      "rx (arr @ new) (pos + ?n) (ptr + bloco) s1"
    using rx_bytes [OF assms(1) n(2) m] by blast
  have "pos + ?n \<le> length arr" using n(2) rx_bound [OF assms(1)] by linarith
  then have pre: "take (pos + ?n) arr = take (pos + ?n) sent" by (rule prefix_take [OF rx_sent [OF assms(1)]])
  have mem: "rd_bytes m BUFFER_ARQUIVO (pos + ?n) = take (pos + ?n) sent"
  proof -
    have "length (take ?n (drop pos arr)) = ?n" using n(2) by simp
    then have "rd_bytes m BUFFER_ARQUIVO (pos + ?n) = take pos sent @ take ?n (drop pos arr)"
      unfolding rd_bytes_append r(1) using inv(5) by (simp add: mem_simps apart_def)
    also have "take pos sent = take pos arr"
      using prefix_take [OF rx_sent [OF assms(1)]] rx_bound [OF assms(1)] by metis
    also have "take pos arr @ take ?n (drop pos arr) = take (pos + ?n) arr" by (simp add: take_add)
    finally show ?thesis using pre by simp
  qed
  have ub: "unat (bytes_recebidos rc + ucast bloco) = pos + ?n"
  proof -
    show ?thesis using unat_u16_u32 [of bloco] inv(3) n(3) T by (simp add: unat_word_ariths)
  qed
  let ?rc = "rc\<lparr>rc_mem := m, bytes_recebidos := bytes_recebidos rc + ucast bloco\<rparr>"
  have run: "(if bytes_recebidos ?rc \<ge> tamanho_total ?rc then
       Option.bind (w5100_send_bytes chip ack_text s1) (\<lambda>s. Option.bind (w5100_cmd chip CR_DISCON s)
         (\<lambda>s. Some (0, ?rc\<lparr>estado := ESTADO_HEADER\<rparr>, s)))
     else Some (1, ?rc, s1)) = Some (r, rc', s')"
    using assms(6) m inv(3) by (simp add: R)
  show ?thesis
  proof (cases "pos + ?n = T")
    case True
    then have "bytes_recebidos ?rc \<ge> tamanho_total ?rc" using ub inv(4) by (simp add: word_le_nat_alt)
    then have "r = 0" "rc' = ?rc\<lparr>estado := ESTADO_HEADER\<rparr>" using run by (auto simp: bind_eq_Some_conv)
    then show ?thesis using mem True inv(4) by simp
  next
    case False
    then have "\<not> bytes_recebidos ?rc \<ge> tamanho_total ?rc" using ub inv(4) n(3) by (simp add: word_le_nat_alt)
    then have "r = 1" "rc' = ?rc" "s' = s1" using run by auto
    then show ?thesis using r(2) mem ub inv n False assms(5) by (auto simp: recv_inv_def intro!: exI)
  qed
qed

definition message_len :: nat where
  "message_len = unat (le32_of (\<lambda>i. sent ! i) 0)"

definition receiver_ok :: "receiver \<Rightarrow> bool" where
  "receiver_ok rc \<longleftrightarrow> 21 < message_len \<and> apart (cabecalho_raw rc) 21 BUFFER_ARQUIVO message_len"

definition received :: "receiver \<Rightarrow> bool" where
  "received rc \<longleftrightarrow> rd_bytes (rc_mem rc) BUFFER_ARQUIVO message_len = take message_len sent \<and>
     unat (tamanho_total rc) = message_len"

lemma getter_established:
  assumes "rx arr pos ptr s" "w5100_getter_loop chip rc s = Some (r, rc', s')"
  shows "\<exists>avail t new. rx (arr @ new) pos ptr t \<and> unat avail \<le> length (arr @ new) - pos \<and>
    (if estado rc = ESTADO_HEADER then
       (if avail \<ge> 21 then receive_header chip rc t = Some (rc', s') \<and> r = 1 else (r, rc', s') = (1, rc, t))
     else if avail > 0 then receive_payload chip avail rc t = Some (r, rc', s') else (r, rc', s') = (1, rc, t))"
proof -
  obtain v s1 where v: "w5100_read chip S0_SR s = (v, s1)" by fastforce
  have est: "v = SOCK_ESTABLISHED" by (rule rx_status [OF assms(1) v])
  obtain new where n: "rx (arr @ new) pos ptr s1" using rx_read [OF assms(1) v] by blast
  obtain avail t where t: "w5100_get_rx_size chip s1 = Some (avail, t)"
    and rest: "(if estado rc = ESTADO_HEADER then
       (if avail \<ge> 21 then do { (rc, s) \<leftarrow> receive_header chip rc t; Some (1, rc, s) } else Some (1, rc, t))
     else if avail > 0 then receive_payload chip avail rc t else Some (1, rc, t)) = Some (r, rc', s')"
    using assms(2) v est by (auto simp: w5100_getter_loop_def w5100_status bind_eq_Some_conv)
  obtain new2 where "rx ((arr @ new) @ new2) pos ptr t" "unat avail \<le> length ((arr @ new) @ new2) - pos"
    using rx_size_ok [OF t n] by blast
  then show ?thesis using rest
    by (intro exI [of _ avail] exI [of _ t] exI [of _ "new @ new2"]) (auto simp: bind_eq_Some_conv split: if_splits)
qed

lemma getter_step:
  assumes "rx arr pos ptr s" "recv_inv message_len rc pos" "receiver_ok rc" "w5100_getter_loop chip rc s = Some (r, rc', s')"
  shows "receiver_ok rc' \<and>
    (if r = 0 then received rc'
     else \<exists>new pos' ptr'. rx (arr @ new) pos' ptr' s' \<and> recv_inv message_len rc' pos')"
proof -
  obtain avail t new where g: "rx (arr @ new) pos ptr t" "unat avail \<le> length (arr @ new) - pos"
    "if estado rc = ESTADO_HEADER then
       (if avail \<ge> 21 then receive_header chip rc t = Some (rc', s') \<and> r = 1 else (r, rc', s') = (1, rc, t))
     else if avail > 0 then receive_payload chip avail rc t = Some (r, rc', s') else (r, rc', s') = (1, rc, t)"
    using getter_established [OF assms(1,4)] by blast
  have ok: "21 < message_len" "apart (cabecalho_raw rc) 21 BUFFER_ARQUIVO message_len"
    "apart (cabecalho_raw rc) 21 BUFFER_ARQUIVO 21"
    using assms(3) by (auto simp: receiver_ok_def apart_def)
  have idle: "recv_inv message_len rc pos" using assms(2) by (simp add: recv_inv_def)
  show ?thesis
  proof (cases "estado rc")
    case ESTADO_HEADER
    then have pos: "pos = 0" using assms(2) by (simp add: recv_inv_def)
    show ?thesis
    proof (cases "avail \<ge> 21")
      case True
      then have "21 \<le> length (arr @ new)" using g(2) by (simp add: pos word_le_nat_alt)
      then show ?thesis
        using header_step [OF g(1) [unfolded pos] _ _ ok(3) message_len_def [symmetric] ok(1), of rc' s'] g(3) ESTADO_HEADER True assms(3)
        by (auto simp: receiver_ok_def)
    qed (use g ESTADO_HEADER idle assms(3) in auto)
  next
    case ESTADO_PAYLOAD
    show ?thesis
    proof (cases "avail > 0")
      case True
      then have "0 < unat avail" by (simp add: word_less_nat_alt)
      then show ?thesis
        using payload_step [OF g(1,2) _ idle ESTADO_PAYLOAD _ ok(2), of r rc' s'] g(3) ESTADO_PAYLOAD True assms(3)
        by (auto simp: receiver_ok_def received_def)
    qed (use g ESTADO_PAYLOAD idle assms(3) in auto)
  qed
qed

lemma receive_loop_ok:
  assumes "receive_loop chip rc s = Some (rc', s')" "rx arr pos ptr s" "recv_inv message_len rc pos" "receiver_ok rc"
  shows "received rc'"
proof -
  have "chip = chip \<longrightarrow> (\<forall>arr pos ptr. rx arr pos ptr s \<longrightarrow> recv_inv message_len rc pos \<longrightarrow> receiver_ok rc \<longrightarrow>
      received (fst (rc', s')))"
  proof (rule receive_loop.raw_induct [where P = "\<lambda>c rc s y. c = chip \<longrightarrow> (\<forall>arr pos ptr. rx arr pos ptr s \<longrightarrow>
      recv_inv message_len rc pos \<longrightarrow> receiver_ok rc \<longrightarrow> received (fst y))", OF _ assms(1)], intro impI allI)
    fix f c rc s y arr pos ptr
    assume IH: "\<And>c rc s y. f c rc s = Some y \<Longrightarrow> c = chip \<longrightarrow> (\<forall>arr pos ptr. rx arr pos ptr s \<longrightarrow>
        recv_inv message_len rc pos \<longrightarrow> receiver_ok rc \<longrightarrow> received (fst y))"
      and run: "Option.bind (w5100_getter_loop c rc s) (\<lambda>(resp, rc, s).
        if resp \<noteq> 0 then f c rc s else Some (rc, s)) = Some y" and c: "c = chip"
      and st: "rx arr pos ptr s" "recv_inv message_len rc pos" "receiver_ok rc"
    obtain r rc1 s1 where g: "w5100_getter_loop chip rc s = Some (r, rc1, s1)"
      and rest: "(if r \<noteq> 0 then f chip rc1 s1 else Some (rc1, s1)) = Some y"
      using run c by (auto simp: bind_eq_Some_conv)
    note step = getter_step [OF st g]
    show "received (fst y)"
    proof (cases "r = 0")
      case True
      then show ?thesis using rest step by auto
    next
      case False
      then show ?thesis using rest step IH [of chip rc1 s1 y] by auto
    qed
  qed
  then show ?thesis using assms(2-4) by auto
qed

text \<open>A message that is its header only is never completed: the end is looked for when further bytes are there.\<close>

lemma header_taken:
  assumes "rx arr 0 ptr s" "21 \<le> length arr" "receive_header chip rc s = Some (rc', s')"
  shows "\<exists>new. rx (arr @ new) 21 (ptr + 21) s' \<and> estado rc' = ESTADO_PAYLOAD"
proof -
  obtain m where m: "w5100_recv_bytes chip (cabecalho_raw rc) 21 (rc_mem rc) s = Some (m, s')" "estado rc' = ESTADO_PAYLOAD"
    using assms(3) by (auto simp: receive_header_def bind_eq_Some_conv)
  have "unat (21 :: u16) \<le> length arr - 0" using assms(2) by simp
  from rx_bytes [OF assms(1) this m(1)] show ?thesis using m(2) by auto
qed

definition empty_inv :: "receiver \<Rightarrow> nat \<Rightarrow> bool" where
  "empty_inv rc pos \<longleftrightarrow> pos = (case estado rc of ESTADO_HEADER \<Rightarrow> 0 | ESTADO_PAYLOAD \<Rightarrow> 21)"

lemma empty_getter:
  assumes "length sent = 21" "rx arr pos ptr s" "empty_inv rc pos" "w5100_getter_loop chip rc s = Some (r, rc', s')"
  shows "r = 1 \<and> (\<exists>arr' pos' ptr'. rx arr' pos' ptr' s' \<and> empty_inv rc' pos')"
proof -
  obtain avail t new where g: "rx (arr @ new) pos ptr t" "unat avail \<le> length (arr @ new) - pos"
    "if estado rc = ESTADO_HEADER then
       (if avail \<ge> 21 then receive_header chip rc t = Some (rc', s') \<and> r = 1 else (r, rc', s') = (1, rc, t))
     else if avail > 0 then receive_payload chip avail rc t = Some (r, rc', s') else (r, rc', s') = (1, rc, t)"
    using getter_established [OF assms(2,4)] by blast
  have len: "length (arr @ new) \<le> 21" using prefix_length_le [OF rx_sent [OF g(1)]] assms(1) by simp
  show ?thesis
  proof (cases "estado rc")
    case ESTADO_HEADER
    then have pos: "pos = 0" using assms(3) by (simp add: empty_inv_def)
    show ?thesis
    proof (cases "avail \<ge> 21")
      case True
      then have h: "receive_header chip rc t = Some (rc', s')" "r = 1" using g(3) ESTADO_HEADER by auto
      have "21 \<le> length (arr @ new)" using True g(2) pos by (simp add: word_le_nat_alt)
      from header_taken [OF g(1) [unfolded pos] this h(1)] obtain new2 where
        "rx ((arr @ new) @ new2) 21 (ptr + 21) s'" "empty_inv rc' 21" by (auto simp: empty_inv_def)
      then show ?thesis using h(2) by blast
    qed (use g(1,3) ESTADO_HEADER assms(3) in auto)
  next
    case ESTADO_PAYLOAD
    then have "unat avail = 0" using g(2) len assms(3) by (simp add: empty_inv_def)
    then have "\<not> avail > 0" by (simp add: word_less_nat_alt)
    then show ?thesis using g(1,3) ESTADO_PAYLOAD assms(3) by auto
  qed
qed

lemma empty_never_returns:
  assumes "length sent = 21" "rx arr pos ptr s" "empty_inv rc pos"
  shows "receive_loop chip rc s = None"
proof (cases "receive_loop chip rc s")
  case (Some y)
  have "chip = chip \<longrightarrow> (\<forall>arr pos ptr. rx arr pos ptr s \<longrightarrow> empty_inv rc pos \<longrightarrow> False)"
  proof (rule receive_loop.raw_induct [where P = "\<lambda>c rc s y. c = chip \<longrightarrow> (\<forall>arr pos ptr. rx arr pos ptr s \<longrightarrow>
      empty_inv rc pos \<longrightarrow> False)", OF _ Some], intro impI allI)
    fix f c rc s y arr pos ptr
    assume IH: "\<And>c rc s y. f c rc s = Some y \<Longrightarrow> c = chip \<longrightarrow> (\<forall>arr pos ptr. rx arr pos ptr s \<longrightarrow> empty_inv rc pos \<longrightarrow> False)"
      and run: "Option.bind (w5100_getter_loop c rc s) (\<lambda>(resp, rc, s).
        if resp \<noteq> 0 then f c rc s else Some (rc, s)) = Some y" and c: "c = chip"
      and st: "rx arr pos ptr s" "empty_inv rc pos"
    obtain r rc1 s1 where g: "w5100_getter_loop chip rc s = Some (r, rc1, s1)"
      and rest: "(if r \<noteq> 0 then f chip rc1 s1 else Some (rc1, s1)) = Some y"
      using run c by (auto simp: bind_eq_Some_conv)
    show False using empty_getter [OF assms(1) st g] rest IH [of chip rc1 s1 y] by auto
  qed
  then show ?thesis using assms(2,3) by blast
qed

end

text \<open>
  A chip that makes progress: a command is carried out, and while the peer has more to send and the ring
  has room, an access either brings bytes or brings the next ones nearer.
\<close>

locale w5100_live = w5100_socket chip rx sent for chip :: "'s w5100" and rx sent +
  fixes busy :: "'s \<Rightarrow> nat" and lag :: "'s \<Rightarrow> nat"
  assumes command_done: "w5100_read chip S0_CR s = (v, s') \<Longrightarrow> v \<noteq> 0 \<Longrightarrow> busy s' < busy s"
    and arrives: "rx arr pos ptr s \<Longrightarrow> w5100_read chip a s = (v, s') \<Longrightarrow> arr \<noteq> sent \<Longrightarrow> length arr - pos < 2048 \<Longrightarrow>
      (\<exists>b new. rx (arr @ b # new) pos ptr s') \<or> rx arr pos ptr s' \<and> lag s' < lag s"
begin

lemma wait_returns: "\<exists>s'. w5100_cmd_wait chip s = Some s'"
proof (induction "busy s" arbitrary: s rule: less_induct)
  case less
  obtain v t where v: "w5100_read chip S0_CR s = (v, t)" by fastforce
  then show ?case using less [of t] command_done [OF v]
    by (subst w5100_cmd_wait.simps) (auto simp: v)
qed

lemma cmd_returns: "\<exists>s'. w5100_cmd chip c s = Some s'"
  using wait_returns by (simp add: w5100_cmd_def)

lemma recv_returns: "\<exists>m' s'. w5100_recv_bytes chip buf len m s = Some (m', s')"
proof -
  obtain ptr s1 where p: "w5100_read16 chip S0_RX_RD s = (ptr, s1)" by fastforce
  obtain m' s2 where l: "recv_loop chip ptr buf 0 (unat len) m s1 = (m', s2)" by fastforce
  obtain t where "w5100_cmd chip CR_RECV (w5100_write16 chip S0_RX_RD (ptr + len) s2) = Some t"
    using cmd_returns by blast
  then show ?thesis by (simp add: w5100_recv_bytes_def p l)
qed

lemma send_returns: "\<exists>s'. w5100_send_bytes chip bs s = Some s'"
  using cmd_returns by (auto simp: w5100_send_bytes_def split: prod.splits)

lemma payload_returns: "\<exists>r rc' s'. receive_payload chip avail rc s = Some (r, rc', s')"
proof -
  define n where "n = (if ucast avail < tamanho_total rc - bytes_recebidos rc then avail
    else ucast (tamanho_total rc - bytes_recebidos rc))"
  obtain m t where "w5100_recv_bytes chip (BUFFER_ARQUIVO + unat (bytes_recebidos rc)) n (rc_mem rc) s = Some (m, t)"
    using recv_returns by blast
  moreover obtain u where "w5100_send_bytes chip ack_text t = Some u" using send_returns by blast
  moreover obtain v where "w5100_cmd chip CR_DISCON u = Some v" using cmd_returns by blast
  ultimately show ?thesis unfolding receive_payload_def Let_def n_def by simp
qed

lemma header_returns: "\<exists>rc' s'. receive_header chip rc s = Some (rc', s')"
  using recv_returns by (fastforce simp: receive_header_def bind_eq_Some_conv)

text \<open>\<open>nearer arr pos s new s'\<close>: no byte came, so the chip is closer to the next one, if there is one.\<close>

definition nearer :: "u8 list \<Rightarrow> nat \<Rightarrow> 's \<Rightarrow> u8 list \<Rightarrow> 's \<Rightarrow> bool" where
  "nearer arr pos s new s' \<longleftrightarrow> (new = [] \<and> arr \<noteq> sent \<and> length arr - pos < 2048 \<longrightarrow> lag s' < lag s)"

lemma read_nearer:
  assumes "rx arr pos ptr s" "w5100_read chip a s = (v, s')"
  shows "\<exists>new. rx (arr @ new) pos ptr s' \<and> nearer arr pos s new s'"
proof (cases "arr \<noteq> sent \<and> length arr - pos < 2048")
  case True
  then have "(\<exists>b new. rx (arr @ b # new) pos ptr s') \<or> rx arr pos ptr s' \<and> lag s' < lag s"
    using arrives [OF assms] by blast
  then show ?thesis by (auto simp: nearer_def intro: exI [of _ "[]"] exI [of _ "_ # _"])
next
  case False
  then show ?thesis using rx_read [OF assms] by (auto simp: nearer_def)
qed

lemma nearer_trans:
  "nearer arr pos s new t \<Longrightarrow> nearer (arr @ new) pos t new' u \<Longrightarrow> nearer arr pos s (new @ new') u"
  by (auto simp: nearer_def)

lemma size_nearer:
  assumes "rx arr pos ptr s" "w5100_read16 chip S0_RX_RSR s = (v, s')"
  shows "\<exists>new. rx (arr @ new) pos ptr s' \<and> nearer arr pos s new s' \<and>
    unat v \<le> length (arr @ new) - pos \<and> (new = [] \<longrightarrow> unat v = length arr - pos)"
proof -
  obtain h s1 l s2 where h: "w5100_read chip S0_RX_RSR s = (h, s1)" and l: "w5100_read chip (S0_RX_RSR + 1) s1 = (l, s2)"
    by fastforce
  obtain new where s1: "rx (arr @ new) pos ptr s1" "nearer arr pos s new s1" using read_nearer [OF assms(1) h] by blast
  obtain new' where s2: "rx ((arr @ new) @ new') pos ptr s2" "nearer (arr @ new) pos s1 new' s2" using read_nearer [OF s1(1) l] by blast
  have v: "unat v = (length arr - pos) div 256 * 256 + (length (arr @ new) - pos) mod 256" "s' = s2"
    using assms(2) h l rx_size_hi [OF assms(1) h] rx_size_lo [OF s1(1) l] unat_be_word [of h l]
    by (auto simp: w5100_read16_def)
  have "new @ new' = [] \<longrightarrow> unat v = length arr - pos" using v(1) by simp
  moreover have "unat v \<le> length (arr @ new) - pos" unfolding v(1) by (rule torn_size_le) simp
  then have "unat v \<le> length (arr @ new @ new') - pos" by simp
  ultimately show ?thesis using s2(1) nearer_trans [OF s1(2) s2(2)] v(2) by (intro exI [of _ "new @ new'"]) simp
qed

lemma size_returns:
  "rx arr pos ptr s \<Longrightarrow> \<exists>n s' new. w5100_get_rx_size chip s = Some (n, s') \<and> rx (arr @ new) pos ptr s' \<and>
     nearer arr pos s new s' \<and> unat n \<le> length (arr @ new) - pos \<and> (new = [] \<longrightarrow> unat n = length arr - pos)"
proof (induction "length sent - length arr" arbitrary: arr s rule: less_induct)
  case less
  obtain v1 s1 where v1: "w5100_read16 chip S0_RX_RSR s = (v1, s1)" by fastforce
  obtain new where n1: "rx (arr @ new) pos ptr s1" "nearer arr pos s new s1" "new = [] \<longrightarrow> unat v1 = length arr - pos"
      "unat v1 \<le> length (arr @ new) - pos"
    using size_nearer [OF less.prems v1] by blast
  obtain v2 s2 where v2: "(if v1 \<noteq> 0 then w5100_read16 chip S0_RX_RSR s1 else (0, s1)) = (v2, s2)" by fastforce
  have "\<exists>new2. rx ((arr @ new) @ new2) pos ptr s2 \<and> (v1 = 0 \<and> s2 = s1 \<and> new2 = [] \<or> nearer (arr @ new) pos s1 new2 s2) \<and>
      (v1 \<noteq> 0 \<and> new2 = [] \<longrightarrow> unat v2 = length (arr @ new) - pos)"
  proof (cases "v1 = 0")
    case True
    then show ?thesis using n1(1) v2 by (intro exI [of _ "[]"]) simp
  next
    case False
    then show ?thesis using size_nearer [OF n1(1)] v2 by auto
  qed
  then obtain new2 where n2: "rx ((arr @ new) @ new2) pos ptr s2"
      "v1 = 0 \<and> s2 = s1 \<and> new2 = [] \<or> nearer (arr @ new) pos s1 new2 s2"
      "v1 \<noteq> 0 \<and> new2 = [] \<longrightarrow> unat v2 = length (arr @ new) - pos" by blast
  have near: "nearer arr pos s (new @ new2) s2" using n1(2) n2(2) nearer_trans by auto
  show ?case
  proof (cases "v1 = v2")
    case True
    have "w5100_get_rx_size chip s = (if v1 \<noteq> v2 then w5100_get_rx_size chip s2 else Some (v1, s2))"
      by (subst w5100_get_rx_size.simps) (simp only: Let_def v1 v2 prod.case)
    then have "w5100_get_rx_size chip s = Some (v1, s2)" using True by simp
    then show ?thesis using n2(1) near n1(3,4) by (intro exI [of _ v1] exI [of _ s2] exI [of _ "new @ new2"]) auto
  next
    case False
    have "w5100_get_rx_size chip s = (if v1 \<noteq> v2 then w5100_get_rx_size chip s2 else Some (v1, s2))"
      by (subst w5100_get_rx_size.simps) (simp only: Let_def v1 v2 prod.case)
    then have eq: "w5100_get_rx_size chip s = w5100_get_rx_size chip s2" using False by simp
    have grown: "new @ new2 \<noteq> []"
    proof
      assume e: "new @ new2 = []"
      then have "v1 \<noteq> 0" using False v2 by (cases "v1 = 0") auto
      then have "unat v1 = unat v2" using e n1(3) n2(3) by auto
      then have "v1 = v2" by (simp only: unsigned_word_eqI)
      then show False using False by simp
    qed
    have "prefix (arr @ new @ new2) sent" using rx_sent [OF n2(1)] by simp
    then have "length (arr @ new @ new2) \<le> length sent" by (rule prefix_length_le)
    then have "length sent - length ((arr @ new) @ new2) < length sent - length arr" using grown by (cases new; cases new2) auto
    then obtain n s' new3 where "w5100_get_rx_size chip s2 = Some (n, s')" "rx (((arr @ new) @ new2) @ new3) pos ptr s'"
        "unat n \<le> length (((arr @ new) @ new2) @ new3) - pos"
      using less.hyps [OF _ n2(1)] by blast
    then show ?thesis using eq grown
      by (intro exI [of _ n] exI [of _ s'] exI [of _ "new @ new2 @ new3"]) (auto simp: nearer_def)
  qed
qed

text \<open>What a call that goes on has done: bytes were taken, bytes arrived, or the next ones are nearer.\<close>

definition less_work :: "(u8 list \<times> nat \<times> 's) rel" where
  "less_work = inv_image (less_than <*lex*> less_than <*lex*> less_than)
     (\<lambda>(arr, pos, s). (length sent - pos, length sent - length arr, lag s))"

lemma wf_less_work: "wf less_work"
  by (auto simp: less_work_def)

lemma arrived_le: "rx arr pos ptr s \<Longrightarrow> pos \<le> length arr \<and> length arr \<le> length sent"
  using rx_bound rx_sent prefix_length_le by blast

lemma taken_less_work:
  assumes "rx arr' pos' ptr' s'" "pos < pos'"
  shows "((arr', pos', s'), (arr, pos, s)) \<in> less_work"
  using arrived_le [OF assms(1)] assms(2) by (auto simp: less_work_def)

lemma idle_less_work:
  assumes "rx (arr @ new) pos ptr s'" "nearer arr pos s new s'" "new = [] \<Longrightarrow> arr \<noteq> sent \<and> length arr - pos < 2048"
  shows "((arr @ new, pos, s'), (arr, pos, s)) \<in> less_work"
  using arrived_le [OF assms(1)] assms(2,3) by (cases new) (auto simp: less_work_def nearer_def)

text \<open>What the loop keeps, with the work that is left.\<close>

definition on_the_way :: "receiver \<Rightarrow> u8 list \<times> nat \<times> 's \<Rightarrow> bool" where
  "on_the_way rc p \<longleftrightarrow> (case p of (arr, pos, s) \<Rightarrow> (\<exists>ptr. rx arr pos ptr s) \<and> recv_inv message_len rc pos \<and> receiver_ok rc)"

lemma getter_live:
  assumes "on_the_way rc (arr, pos, s)" "message_len \<le> length sent"
  shows "\<exists>r rc' s'. w5100_getter_loop chip rc s = Some (r, rc', s') \<and>
    (if r = 0 then received rc'
     else \<exists>arr' pos'. on_the_way rc' (arr', pos', s') \<and> ((arr', pos', s'), (arr, pos, s)) \<in> less_work)"
proof -
  obtain ptr where rx: "rx arr pos ptr s" and inv: "recv_inv message_len rc pos" and ok: "receiver_ok rc"
    using assms(1) by (auto simp: on_the_way_def)
  have sizes: "21 < message_len" "apart (cabecalho_raw rc) 21 BUFFER_ARQUIVO message_len"
    "apart (cabecalho_raw rc) 21 BUFFER_ARQUIVO 21"
    using ok by (auto simp: receiver_ok_def apart_def)
  obtain v s1 where v: "w5100_read chip S0_SR s = (v, s1)" by fastforce
  have est: "v = SOCK_ESTABLISHED" by (rule rx_status [OF rx v])
  obtain new1 where n1: "rx (arr @ new1) pos ptr s1" "nearer arr pos s new1 s1" using read_nearer [OF rx v] by blast
  obtain n t new2 where t: "w5100_get_rx_size chip s1 = Some (n, t)" "rx ((arr @ new1) @ new2) pos ptr t"
    "nearer (arr @ new1) pos s1 new2 t" "unat n \<le> length ((arr @ new1) @ new2) - pos"
    "new2 = [] \<longrightarrow> unat n = length (arr @ new1) - pos"
    using size_returns [OF n1(1)] by blast
  define new where "new = new1 @ new2"
  have st: "rx (arr @ new) pos ptr t" "nearer arr pos s new t" "unat n \<le> length (arr @ new) - pos"
    "new = [] \<Longrightarrow> unat n = length arr - pos"
    using t(2,4,5) nearer_trans [OF n1(2) t(3)] by (simp_all add: new_def)
  have run: "w5100_getter_loop chip rc s =
    (if estado rc = ESTADO_HEADER then
       (if n \<ge> 21 then do { (rc, s) \<leftarrow> receive_header chip rc t; Some (1, rc, s) } else Some (1, rc, t))
     else if n > 0 then receive_payload chip n rc t else Some (1, rc, t))"
    by (simp add: w5100_getter_loop_def v est t(1) w5100_status)
  have idle: "on_the_way rc (arr @ new, pos, t) \<and> ((arr @ new, pos, t), (arr, pos, s)) \<in> less_work"
    if "unat n < 21" "pos < message_len - unat n"
  proof -
    have "arr \<noteq> sent \<and> length arr - pos < 2048" if "new = []"
      using st(4) [OF that] \<open>unat n < 21\<close> \<open>pos < message_len - unat n\<close> assms(2) arrived_le [OF rx] by auto
    then show ?thesis using idle_less_work [OF st(1,2)] st(1) inv ok by (auto simp: on_the_way_def)
  qed
  show ?thesis
  proof (cases "estado rc")
    case ESTADO_HEADER
    then have pos: "pos = 0" using inv by (simp add: recv_inv_def)
    show ?thesis
    proof (cases "n \<ge> 21")
      case True
      obtain rc' s' where h: "receive_header chip rc t = Some (rc', s')" using header_returns by blast
      have "21 \<le> length (arr @ new)" using True st(3) pos by (simp add: word_le_nat_alt)
      then obtain new3 where h3: "rx ((arr @ new) @ new3) 21 (ptr + 21) s'" "recv_inv message_len rc' 21" "cabecalho_raw rc' = cabecalho_raw rc"
        using header_step [OF st(1) [unfolded pos] _ h sizes(3) message_len_def [symmetric] sizes(1)] by blast
      then have "on_the_way rc' ((arr @ new) @ new3, 21, s') \<and> (((arr @ new) @ new3, 21, s'), (arr, pos, s)) \<in> less_work"
        using taken_less_work [OF h3(1)] ok by (auto simp: on_the_way_def receiver_ok_def pos)
      then show ?thesis using run h True ESTADO_HEADER by auto
    next
      case False
      then have "unat n < 21" by (simp add: word_le_nat_alt)
      then show ?thesis using idle sizes(1) run False ESTADO_HEADER by (auto simp: pos)
    qed
  next
    case ESTADO_PAYLOAD
    show ?thesis
    proof (cases "n > 0")
      case True
      obtain r rc' s' where h: "receive_payload chip n rc t = Some (r, rc', s')" using payload_returns by blast
      have "0 < unat n" using True by (simp add: word_less_nat_alt)
      note step = payload_step [OF st(1,3) this inv ESTADO_PAYLOAD h sizes(2)]
      show ?thesis
      proof (cases "r = 0")
        case True
        then show ?thesis using step run h \<open>n > 0\<close> ESTADO_PAYLOAD by (auto simp: received_def)
      next
        case False
        then obtain new3 pos' ptr' where t3: "rx ((arr @ new) @ new3) pos' ptr' s'" "pos < pos'" "recv_inv message_len rc' pos'"
          and cab: "cabecalho_raw rc' = cabecalho_raw rc"
          using step by blast
        have "on_the_way rc' ((arr @ new) @ new3, pos', s')" using t3(1,3) cab ok by (auto simp: on_the_way_def receiver_ok_def)
        moreover have "(((arr @ new) @ new3, pos', s'), (arr, pos, s)) \<in> less_work" by (rule taken_less_work [OF t3(1,2)])
        ultimately show ?thesis using run h \<open>n > 0\<close> ESTADO_PAYLOAD False by auto
      qed
    next
      case False
      then have "unat n = 0" by (simp add: word_less_nat_alt)
      then show ?thesis using idle inv run False ESTADO_PAYLOAD by (auto simp: recv_inv_def)
    qed
  qed
qed

lemma receive_loop_returns:
  assumes "on_the_way rc (arr, pos, s)" "message_len \<le> length sent"
  shows "\<exists>rc' s'. receive_loop chip rc s = Some (rc', s') \<and> received rc'"
proof -
  have "\<forall>rc. on_the_way rc p \<longrightarrow> (\<exists>rc' s'. receive_loop chip rc (snd (snd p)) = Some (rc', s') \<and> received rc')" for p
  proof (induction p rule: wf_induct_rule [OF wf_less_work])
    case (1 p)
    show ?case
    proof (intro allI impI)
      fix rc assume way: "on_the_way rc p"
      obtain arr pos s where p: "p = (arr, pos, s)" by (cases p)
      obtain r rc' s' where g: "w5100_getter_loop chip rc s = Some (r, rc', s')"
        and step: "if r = 0 then received rc'
          else \<exists>arr' pos'. on_the_way rc' (arr', pos', s') \<and> ((arr', pos', s'), p) \<in> less_work"
        using getter_live [OF way [unfolded p] assms(2)] p by auto
      show "\<exists>rc' s'. receive_loop chip rc (snd (snd p)) = Some (rc', s') \<and> received rc'"
      proof (cases "r = 0")
        case True
        then show ?thesis using step by (subst receive_loop.simps) (simp add: p g)
      next
        case False
        then obtain arr' pos' where "on_the_way rc' (arr', pos', s')" "((arr', pos', s'), p) \<in> less_work" using step by auto
        then obtain rc2 s2 where "receive_loop chip rc' s' = Some (rc2, s2)" "received rc2" using "1.IH" by fastforce
        then show ?thesis using False by (subst receive_loop.simps) (simp add: p g)
      qed
    qed
  qed
  then show ?thesis using assms(1) by fastforce
qed

end

section \<open>A chip\<close>

text \<open>
  A W5100 with a peer: after \<open>period\<close> accesses the next byte of the wire enters the ring, if there is room;
  the ring is freed by the command RECV, and a command register reads back its command for two accesses.
\<close>

record w5100_sim =
  sim_wire :: "u8 list"
  sim_ring :: "nat \<Rightarrow> u8"
  sim_wr :: u16
  sim_base :: u16
  sim_rd :: u16
  sim_sr :: u8
  sim_cr :: u8
  sim_busy :: nat
  sim_gap :: nat
  sim_regs :: "u16 \<Rightarrow> u8"

definition sim_size :: "w5100_sim \<Rightarrow> u16" where
  "sim_size s = sim_wr s - sim_base s"

definition sim_tick :: "nat \<Rightarrow> w5100_sim \<Rightarrow> w5100_sim" where
  "sim_tick period s =
     (case sim_wire s of
        [] \<Rightarrow> s
      | b # bs \<Rightarrow>
          if 2048 \<le> unat (sim_size s) then s
          else if sim_gap s > 0 then s\<lparr>sim_gap := sim_gap s - 1\<rparr>
          else s\<lparr>sim_wire := bs, sim_ring := (sim_ring s)(unat (sim_wr s AND S0_MASK) := b),
                 sim_wr := sim_wr s + 1, sim_gap := period\<rparr>)"

definition sim_value :: "w5100_sim \<Rightarrow> u16 \<Rightarrow> u8" where
  "sim_value s a =
     (if a = S0_SR then sim_sr s
      else if a = S0_RX_RSR then ucast (drop_bit 8 (sim_size s))
      else if a = S0_RX_RSR + 1 then ucast (sim_size s)
      else if a = S0_RX_RD then ucast (drop_bit 8 (sim_rd s))
      else if a = S0_RX_RD + 1 then ucast (sim_rd s)
      else if a = S0_CR then (if sim_busy s > 0 then sim_cr s else 0)
      else if S0_RX_BASE \<le> a \<and> a \<le> S0_RX_BASE + S0_MASK then sim_ring s (unat (a - S0_RX_BASE))
      else sim_regs s a)"

definition sim_read :: "nat \<Rightarrow> u16 \<Rightarrow> w5100_sim \<Rightarrow> u8 \<times> w5100_sim" where
  "sim_read period a s =
     (sim_value s a, sim_tick period (if a = S0_CR then s\<lparr>sim_busy := sim_busy s - 1\<rparr> else s))"

definition sim_store :: "u16 \<Rightarrow> u8 \<Rightarrow> w5100_sim \<Rightarrow> w5100_sim" where
  "sim_store a v s =
     (if a = S0_RX_RD then s\<lparr>sim_rd := push_bit 8 (ucast v) OR (sim_rd s AND 0xFF)\<rparr>
      else if a = S0_RX_RD + 1 then s\<lparr>sim_rd := (sim_rd s AND 0xFF00) OR ucast v\<rparr>
      else if a = S0_CR then
        (let s = s\<lparr>sim_cr := v, sim_busy := 2\<rparr> in
         if v = CR_RECV then s\<lparr>sim_base := sim_rd s\<rparr>
         else if v = CR_DISCON then s\<lparr>sim_sr := SOCK_CLOSED\<rparr>
         else s)
      else s\<lparr>sim_regs := (sim_regs s)(a := v)\<rparr>)"

definition w5100_demo :: "nat \<Rightarrow> w5100_sim w5100" where
  "w5100_demo period = \<lparr>w5100_read = sim_read period, w5100_write = \<lambda>a v s. sim_tick period (sim_store a v s)\<rparr>"

definition sim_open :: "u8 list \<Rightarrow> u8 list \<Rightarrow> nat \<Rightarrow> u16 \<Rightarrow> w5100_sim \<Rightarrow> bool" where
  "sim_open sent arr pos ptr s \<longleftrightarrow> sim_sr s = SOCK_ESTABLISHED \<and> arr @ sim_wire s = sent \<and> sim_base s = ptr \<and>
     pos \<le> length arr \<and> length arr - pos \<le> 2048 \<and> sim_wr s = ptr + of_nat (length arr - pos) \<and>
     (\<forall>i < length arr - pos. sim_ring s ((unat ptr + i) mod 2048) = arr ! (pos + i))"

lemma S0_MASK_mod: "unat (w AND S0_MASK) = unat w mod 2048" for w :: u16
proof -
  have "S0_MASK = Bit_Operations.mask 11" by (simp add: S0_MASK_def mask_eq_exp_minus_1)
  then have "unat (w AND S0_MASK) = unat (take_bit 11 w)" by (simp add: take_bit_eq_mask)
  also have "\<dots> = take_bit 11 (unat w)" by (rule unsigned_take_bit_eq)
  finally show ?thesis by (simp add: take_bit_eq_mod)
qed

lemma ring_index: "unat ((ptr + of_nat i) AND S0_MASK) = (unat ptr + i) mod 2048" for ptr :: u16
proof -
  have "unat (ptr + of_nat i) mod 2048 = (unat ptr + i) mod 65536 mod 2048"
    by (simp add: unat_word_ariths unsigned_of_nat take_bit_eq_mod mod_simps)
  also have "\<dots> = (unat ptr + i) mod 2048" by (rule mod_mod_cancel) simp
  finally show ?thesis by (simp only: S0_MASK_mod)
qed

lemma sim_size_eq: "sim_open sent arr pos ptr s \<Longrightarrow> unat (sim_size s) = length arr - pos"
  using of_nat_inverse_u16 [of "length arr - pos"] by (auto simp: sim_open_def sim_size_def simp del: of_nat_diff)

lemma sim_tick_keeps [simp]:
  "sim_rd (sim_tick period s) = sim_rd s" "sim_base (sim_tick period s) = sim_base s"
  "sim_busy (sim_tick period s) = sim_busy s"
  by (simp_all add: sim_tick_def split: list.split)

lemma sim_open_cong:
  "sim_open sent arr pos ptr (s\<lparr>sim_rd := r\<rparr>) = sim_open sent arr pos ptr s"
  "sim_open sent arr pos ptr (s\<lparr>sim_busy := n\<rparr>) = sim_open sent arr pos ptr s"
  "sim_open sent arr pos ptr (s\<lparr>sim_cr := v\<rparr>) = sim_open sent arr pos ptr s"
  "sim_open sent arr pos ptr (s\<lparr>sim_gap := n\<rparr>) = sim_open sent arr pos ptr s"
  by (simp_all add: sim_open_def)

lemma sim_open_arrive:
  assumes "sim_open sent arr pos ptr s" "sim_wire s = b # bs" "length arr - pos < 2048"
  shows "sim_open sent (arr @ [b]) pos ptr
    (s\<lparr>sim_wire := bs, sim_ring := (sim_ring s)(unat (sim_wr s AND S0_MASK) := b), sim_wr := sim_wr s + 1, sim_gap := g\<rparr>)"
proof -
  let ?n = "length arr - pos"
  note rx = assms(1) [unfolded sim_open_def]
  have idx: "unat (sim_wr s AND S0_MASK) = (unat ptr + ?n) mod 2048" using rx ring_index [of ptr ?n] by simp
  have "((sim_ring s)(unat (sim_wr s AND S0_MASK) := b)) ((unat ptr + i) mod 2048) = (arr @ [b]) ! (pos + i)" if "i < Suc ?n" for i
  proof (cases "i = ?n")
    case True
    then show ?thesis unfolding idx using rx by simp
  next
    case False
    then have i: "i < ?n" using that by simp
    have "(unat ptr + i) mod 2048 \<noteq> (unat ptr + ?n) mod 2048"
    proof
      assume "(unat ptr + i) mod 2048 = (unat ptr + ?n) mod 2048"
      then have "2048 dvd (unat ptr + ?n) - (unat ptr + i)" by (metis mod_eq_dvd_iff_nat i add_le_mono less_imp_le le_refl)
      then have "2048 dvd ?n - i" by simp
      then show False using i assms(3) by (auto dest: dvd_imp_le)
    qed
    then show ?thesis unfolding idx using i rx by (auto simp: nth_append fun_upd_apply)
  qed
  then show ?thesis using rx assms(2,3) by (auto simp: sim_open_def Suc_diff_le)
qed

lemma sim_tick_open:
  assumes "sim_open sent arr pos ptr s"
  shows "(\<exists>b. sim_open sent (arr @ [b]) pos ptr (sim_tick period s)) \<or>
    sim_open sent arr pos ptr (sim_tick period s) \<and>
      (arr \<noteq> sent \<longrightarrow> length arr - pos < 2048 \<longrightarrow> sim_gap (sim_tick period s) < sim_gap s)"
proof (cases "sim_wire s")
  case Nil
  then show ?thesis using assms by (auto simp: sim_tick_def sim_open_def)
next
  case (Cons b bs)
  note size = sim_size_eq [OF assms]
  consider "2048 \<le> length arr - pos" | "length arr - pos < 2048" "sim_gap s > 0" | "length arr - pos < 2048" "sim_gap s = 0"
    by linarith
  then show ?thesis
  proof cases
    case 1
    then have "sim_tick period s = s" using size Cons by (simp add: sim_tick_def)
    then show ?thesis using assms 1 by simp
  next
    case 2
    then have "sim_tick period s = s\<lparr>sim_gap := sim_gap s - 1\<rparr>" using size Cons by (simp add: sim_tick_def)
    then show ?thesis using assms 2 by (simp add: sim_open_cong)
  next
    case 3
    then show ?thesis using sim_open_arrive [OF assms Cons 3(1), of period] size Cons by (auto simp: sim_tick_def)
  qed
qed

lemma sim_tick_grows: "sim_open sent arr pos ptr s \<Longrightarrow> \<exists>new. sim_open sent (arr @ new) pos ptr (sim_tick period s)"
  using sim_tick_open [of sent arr pos ptr s period] by (metis append_Nil2)

lemma sim_open_release:
  assumes "sim_open sent arr pos ptr s" "n \<le> length arr - pos"
  shows "sim_open sent arr (pos + n) (ptr + of_nat n) (s\<lparr>sim_base := ptr + of_nat n\<rparr>)"
proof -
  have "sim_ring s ((unat (ptr + of_nat n) + i) mod 2048) = arr ! (pos + n + i)" if "i < length arr - (pos + n)" for i
  proof -
    have "(unat (ptr + of_nat n) + i) mod 2048 = (unat ptr + (n + i)) mod 2048"
      using ring_index [of "ptr + of_nat n" i] ring_index [of ptr "n + i"] by (simp add: add.assoc)
    then show ?thesis using assms that by (simp add: sim_open_def add.assoc)
  qed
  then show ?thesis using assms by (auto simp: sim_open_def of_nat_diff)
qed

lemma rd_halves: "(push_bit 8 (ucast (ucast (drop_bit 8 w) :: u8)) OR (v AND 0xFF)) AND 0xFF00 OR ucast (ucast w :: u8) = (w :: u16)"
proof -
  have m: "(0xFF00 :: u16) = push_bit 8 (Bit_Operations.mask 8)" "(0xFF :: u16) = Bit_Operations.mask 8"
    by (simp_all add: mask_eq_exp_minus_1 push_bit_eq_mult)
  show ?thesis unfolding m by (rule bit_eqI) (auto simp: bit_simps not_le)
qed

lemma sim_write_rd:
  assumes "sim_open sent arr pos ptr s" "a = S0_RX_RD \<or> a = S0_RX_RD + 1"
  shows "\<exists>new. sim_open sent (arr @ new) pos ptr (w5100_write (w5100_demo period) a v s)"
proof -
  have "\<exists>r. sim_store a v s = s\<lparr>sim_rd := r\<rparr>" using assms(2) by (auto simp: sim_store_def)
  then have "sim_open sent arr pos ptr (sim_store a v s)" using assms(1) by (auto simp: sim_open_cong)
  from sim_tick_grows [OF this, of period] show ?thesis by (simp add: w5100_demo_def)
qed

lemma sim_write_pointer:
  assumes "sim_open sent arr pos ptr s"
  shows "sim_rd (w5100_write16 (w5100_demo period) S0_RX_RD w s) = w \<and>
    (\<exists>new. sim_open sent (arr @ new) pos ptr (w5100_write16 (w5100_demo period) S0_RX_RD w s))"
proof -
  obtain new where n: "sim_open sent (arr @ new) pos ptr (w5100_write (w5100_demo period) S0_RX_RD (ucast (drop_bit 8 w)) s)"
    using sim_write_rd [OF assms, where a = S0_RX_RD] by blast
  obtain new' where "sim_open sent ((arr @ new) @ new') pos ptr (w5100_write16 (w5100_demo period) S0_RX_RD w s)"
    using sim_write_rd [OF n, where a = "S0_RX_RD + 1"] by (auto simp: w5100_write16_def)
  moreover have "S0_RX_RD + 1 \<noteq> S0_RX_RD" by (simp add: w5100_regs)
  then have "sim_rd (w5100_write16 (w5100_demo period) S0_RX_RD w s) = w"
    by (simp add: w5100_write16_def w5100_demo_def sim_store_def rd_halves)
  ultimately show ?thesis by auto
qed

lemma sim_read_open:
  assumes "sim_open sent arr pos ptr s" "w5100_read (w5100_demo period) a s = (v, s')"
  shows "v = sim_value s a" "\<exists>t. s' = sim_tick period t \<and> sim_open sent arr pos ptr t \<and> sim_gap t = sim_gap s \<and> sim_rd t = sim_rd s"
  using assms by (auto simp: w5100_demo_def sim_read_def sim_open_cong)

lemma sim_data_value:
  assumes "sim_open sent arr pos ptr s" "i < length arr - pos"
  shows "sim_value s (S0_RX_BASE + ((ptr + of_nat i) AND S0_MASK)) = arr ! (pos + i)"
proof -
  let ?k = "(ptr + of_nat i) AND S0_MASK"
  have k: "unat ?k < 2048" by (simp add: ring_index)
  have base: "unat (S0_RX_BASE + ?k) = 24576 + unat ?k"
    using k by (subst unat_word_ariths) (simp add: S0_RX_BASE_def)
  have "unat (S0_RX_BASE + S0_MASK) = 26623" by (simp add: S0_RX_BASE_def S0_MASK_def)
  then have le: "S0_RX_BASE \<le> S0_RX_BASE + ?k" "S0_RX_BASE + ?k \<le> S0_RX_BASE + S0_MASK"
    using base k by (simp_all add: word_le_nat_alt S0_RX_BASE_def)
  have ne: "S0_RX_BASE + ?k \<noteq> r" if "unat r < 24576" for r using base that by auto
  have "sim_value s (S0_RX_BASE + ?k) = sim_ring s (unat ?k)"
    using le ne [of S0_SR] ne [of S0_RX_RSR] ne [of "S0_RX_RSR + 1"] ne [of S0_RX_RD] ne [of "S0_RX_RD + 1"] ne [of S0_CR]
    by (simp add: sim_value_def w5100_regs(2-7))
  then show ?thesis using assms by (simp add: ring_index sim_open_def)
qed

lemma size_bytes: "unat (ucast (drop_bit 8 w) :: u8) = unat w div 256" "unat (ucast w :: u8) = unat w mod 256" for w :: u16
proof -
  have "unat w div 256 < 256" using unat_less_exp(2) [of w] by (simp add: less_mult_imp_div_less)
  moreover have "unat (drop_bit 8 w) = unat w div 256" by (simp add: unat_div drop_bit_eq_div)
  ultimately show "unat (ucast (drop_bit 8 w) :: u8) = unat w div 256"
    by (simp only: unsigned_ucast_eq take_bit_nat_eq_self_iff) (simp add: take_bit_eq_mod del: unat_div)
  show "unat (ucast w :: u8) = unat w mod 256" by (simp add: unsigned_ucast_eq take_bit_eq_mod)
qed

text \<open>Between two calls of the driver the register holds the pointer of the last RECV.\<close>

definition sim_rx :: "u8 list \<Rightarrow> u8 list \<Rightarrow> nat \<Rightarrow> u16 \<Rightarrow> w5100_sim \<Rightarrow> bool" where
  "sim_rx sent arr pos ptr s \<longleftrightarrow> sim_open sent arr pos ptr s \<and> sim_rd s = ptr"

lemma sim_rx_value:
  assumes "sim_rx sent arr pos ptr s" "w5100_read (w5100_demo period) a s = (v, s')"
  shows "sim_open sent arr pos ptr s" "v = sim_value s a" "sim_rd s = ptr" "unat (sim_size s) = length arr - pos"
  using assms sim_read_open(1) sim_size_eq by (auto simp: sim_rx_def)

interpretation demo: w5100_live "w5100_demo period" "sim_rx sent" sent sim_busy sim_gap for period sent
proof (unfold_locales, goal_cases)
  case (3 arr pos ptr s a v s')
  then obtain t where t: "s' = sim_tick period t" "sim_open sent arr pos ptr t" "sim_rd t = sim_rd s"
    using sim_read_open(2) by (fastforce simp: sim_rx_def)
  then show ?case using sim_tick_grows [OF t(2), of period] 3(1) by (auto simp: sim_rx_def)
next
  case (4 arr pos ptr s v s')
  then show ?case using sim_rx_value [OF 4] by (simp add: sim_value_def sim_open_def)
next
  case (5 arr pos ptr s v s')
  have "sim_value s S0_RX_RSR = ucast (drop_bit 8 (sim_size s))" by (simp add: sim_value_def w5100_regs)
  then show ?case using sim_rx_value [OF 5] by (metis size_bytes(1))
next
  case (6 arr pos ptr s v s')
  then show ?case using sim_rx_value [OF 6] by (simp add: sim_value_def w5100_regs size_bytes)
next
  case (7 arr pos ptr s v s')
  then show ?case using sim_rx_value [OF 7] by (simp add: sim_value_def w5100_regs)
next
  case (8 arr pos ptr s v s')
  then show ?case using sim_rx_value [OF 8] by (simp add: sim_value_def w5100_regs)
next
  case (9 arr pos ptr s i v s')
  then show ?case using sim_rx_value [OF 9(1,3)] sim_data_value by simp
next
  case (10 arr pos ptr s n)
  let ?t = "w5100_write16 (w5100_demo period) S0_RX_RD (ptr + of_nat n) s"
  obtain new where t: "sim_rd ?t = ptr + of_nat n" "sim_open sent (arr @ new) pos ptr ?t"
    using sim_write_pointer 10(1) unfolding sim_rx_def by blast
  have "n \<le> length (arr @ new) - pos" using 10(2) by simp
  from sim_open_release [OF t(2) this]
  have "sim_open sent (arr @ new) (pos + n) (ptr + of_nat n) (sim_store S0_CR CR_RECV ?t)"
    by (simp add: sim_store_def t(1) [unfolded w5100_regs] sim_open_def w5100_regs Let_def)
  moreover have "sim_rd (sim_store S0_CR CR_RECV ?t) = ptr + of_nat n"
    by (simp add: sim_store_def t(1) [unfolded w5100_regs] w5100_regs Let_def)
  ultimately show ?case using sim_tick_grows [where period = period] by (fastforce simp: w5100_demo_def sim_rx_def)
next
  case (12 arr pos ptr s a v s')
  then obtain t where t: "s' = sim_tick period t" "sim_open sent arr pos ptr t" "sim_gap t = sim_gap s" "sim_rd t = sim_rd s"
    using sim_read_open(2) by (fastforce simp: sim_rx_def)
  then show ?case using sim_tick_open [OF t(2), of period] 12(1,3,4) by (auto simp: sim_rx_def)
qed (auto simp: sim_rx_def sim_open_def w5100_demo_def sim_read_def sim_value_def w5100_regs split: if_splits)


section \<open>The command\<close>

text \<open>C16: While the connection stays established, on every chip that makes progress and for a message whose
  length field \<open>n\<close> is above 21 (the header) and covered by the bytes the peer sends: when the file opens and the
  write succeeds, the command returns, with the \<open>n\<close> bytes of the message in the buffer. The file gets the bytes
  behind the header, and then 21 bytes more: what the memory holds right behind the message.\<close>

lemma do_receiver_correct:
  assumes "w5100_live chip rx sent busy lag" "rx [] 0 ptr s" "estado rc = ESTADO_HEADER"
    "unat (le32_of (\<lambda>i. sent ! i) 0) = n" "21 < n" "n \<le> length sent"
    "apart (cabecalho_raw rc) 21 BUFFER_ARQUIVO n" "fopen (BUFFER_ARQUIVO + 8) = 0"
    "\<And>bs. fwrite bs = (0, of_nat (length bs))"
  shows "\<exists>rc' s'. do_receiver chip fopen fwrite 0 rc s =
      Some (([Save_open (BUFFER_ARQUIVO + 8),
        Save_write (drop 21 (take n sent) @ rd_bytes (rc_mem rc') (BUFFER_ARQUIVO + n) 21), Save_close], Saved), rc', s') \<and>
    rd_bytes (rc_mem rc') BUFFER_ARQUIVO n = take n sent"
proof -
  note live = assms(1)
  have sock: "w5100_socket chip rx sent" using live by (simp add: w5100_live_def)
  note defs = w5100_socket.message_len_def [OF sock] w5100_socket.receiver_ok_def [OF sock]
    w5100_socket.recv_inv_def [OF sock] w5100_socket.received_def [OF sock]
  have "w5100_live.on_the_way rx sent rc ([], 0, s)"
    using assms(2-7) by (auto simp: w5100_live.on_the_way_def [OF live] defs)
  then obtain rc' s' where r: "receive_loop chip rc s = Some (rc', s')" "w5100_socket.received sent rc'"
    using w5100_live.receive_loop_returns [OF live] assms(4,6) by (fastforce simp: defs)
  then have m: "rd_bytes (rc_mem rc') BUFFER_ARQUIVO n = take n sent" "unat (tamanho_total rc') = n"
    using assms(4) by (auto simp: defs)
  define extra where "extra = rd_bytes (rc_mem rc') (BUFFER_ARQUIVO + n) 21"
  have "rd_bytes (rc_mem rc') BUFFER_ARQUIVO (n + 21) = take n sent @ extra"
    by (simp only: rd_bytes_append m(1) extra_def)
  moreover have "rd_bytes (rc_mem rc') BUFFER_ARQUIVO (21 + n) = rd_bytes (rc_mem rc') BUFFER_ARQUIVO 21 @ rd_bytes (rc_mem rc') (BUFFER_ARQUIVO + 21) n"
    by (rule rd_bytes_append)
  ultimately have "drop 21 (take n sent @ extra) = rd_bytes (rc_mem rc') (BUFFER_ARQUIVO + 21) n"
    by (metis add.commute append_eq_conv_conj length_rd_bytes)
  moreover have "tamanho_total rc' \<noteq> 0" using m(2) assms(5) by auto
  moreover have "of_nat n = tamanho_total rc'" using m(2) by auto
  ultimately have "saving_file fopen fwrite 0 rc' =
      ([Save_open (BUFFER_ARQUIVO + 8), Save_write (drop 21 (take n sent) @ extra), Save_close], Saved)"
    using assms(5,6,8,9) m(2) by (simp add: saving_file_def Let_def)
  then show ?thesis using r(1) m(1) by (auto simp: do_receiver_def extra_def)
qed

text \<open>The chip with a peer that has sent nothing yet; the file \<open>A\<close> with four bytes, and an empty one.\<close>

definition sim_connected :: "u8 list \<Rightarrow> w5100_sim" where
  "sim_connected sent =
     \<lparr>sim_wire = sent, sim_ring = (\<lambda>_. 0), sim_wr = 0xFFF0, sim_base = 0xFFF0, sim_rd = 0xFFF0, sim_sr = SOCK_ESTABLISHED,
      sim_cr = 0, sim_busy = 0, sim_gap = 2, sim_regs = (\<lambda>_. 0)\<rparr>"

lemma sim_connected_rx: "sim_rx sent [] 0 0xFFF0 (sim_connected sent)"
  by (simp add: sim_rx_def sim_open_def sim_connected_def)

definition demo_receiver :: receiver where
  "demo_receiver = \<lparr>rc_mem = (\<lambda>_. 0xAA), cabecalho_raw = 0x1000, estado = ESTADO_HEADER, bytes_recebidos = 0, tamanho_total = 0\<rparr>"

definition demo_message :: "u8 list" where
  "demo_message = [25, 0, 0, 0, 0, 0, 0, 0, 0x41, 0, 0, 0, 0, 0, 0, 0, 0, 0, 0, 0, 0, 1, 2, 3, 4]"

definition demo_empty_message :: "u8 list" where
  "demo_empty_message = [21, 0, 0, 0, 0, 0, 0, 0, 0x41, 0, 0, 0, 0, 0, 0, 0, 0, 0, 0, 0, 0]"

lemma do_receiver_witness:
  "\<exists>rc' s'. do_receiver (w5100_demo 3) (\<lambda>_. 0) (\<lambda>bs. (0, of_nat (length bs))) 0 demo_receiver (sim_connected demo_message) =
      Some (([Save_open (BUFFER_ARQUIVO + 8),
        Save_write ([1, 2, 3, 4] @ rd_bytes (rc_mem rc') (BUFFER_ARQUIVO + 25) 21), Save_close], Saved), rc', s') \<and>
    rd_bytes (rc_mem rc') BUFFER_ARQUIVO 25 = demo_message"
proof -
  have "unat (le32_of (\<lambda>i. demo_message ! i) 0) = 25" by (simp add: le32_of_def demo_message_def)
  from do_receiver_correct [OF demo.w5100_live_axioms sim_connected_rx, of demo_receiver demo_message 25
      "\<lambda>_. 0" "\<lambda>bs. (0, of_nat (length bs))" 3, OF _ this]
  show ?thesis by (simp add: demo_receiver_def demo_message_def apart_def BUFFER_ARQUIVO_def)
qed

text \<open>An empty file, whose message is the header alone, keeps the command in its loop for ever.\<close>

lemma receive_empty_file_hangs:
  assumes "w5100_socket chip rx sent" "length sent = 21" "rx [] 0 ptr s" "estado rc = ESTADO_HEADER"
  shows "do_receiver chip fopen fwrite fclose rc s = None"
  using w5100_socket.empty_never_returns [OF assms(1,2,3)] assms(4)
  by (simp add: do_receiver_def w5100_socket.empty_inv_def [OF assms(1)])

lemma receive_empty_file_witness:
  "do_receiver (w5100_demo 3) (\<lambda>_. 0) (\<lambda>bs. (0, of_nat (length bs))) 0 demo_receiver (sim_connected demo_empty_message) = None"
  by (rule receive_empty_file_hangs [OF demo.w5100_socket_axioms _ sim_connected_rx])
     (simp_all add: demo_empty_message_def demo_receiver_def)

end
