(* ===== verification/Dhcp_Client.thy ===== *)
theory Dhcp_Client
  imports Dhcp_Packet Shell_Receiver "HOL-Library.Sublist"
begin

text \<open>
  \<open>bios/sys/ethernet/dhcp_client.c\<close>: the exchange with the server, DISCOVER - OFFER - REQUEST - ACK, through
  the socket 0 of a W5100 in UDP mode. Register access is that of \<open>Shell_Receiver\<close>, whose code the file
  repeats (\<open>w5100_read16\<close>, \<open>w5100_write16\<close>, \<open>w5100_get_rx_size\<close>, and the loops over the buffers); commands and
  waits are bounded by the clock here. The chip is the locale \<open>udp_chip\<close>. The messages are left out.
\<close>

section \<open>Definitions\<close>

definition W5100_SHAR :: u16 where "W5100_SHAR = 0x0009"
definition W5100_SIPR :: u16 where "W5100_SIPR = 0x000F"
definition S0_DIPR :: u16 where "S0_DIPR = 0x040C"
definition S0_DPORT :: u16 where "S0_DPORT = 0x0410"
definition S0_TX_RD :: u16 where "S0_TX_RD = 0x0422"
definition CR_CLOSE :: u8 where "CR_CLOSE = 0x10"

definition DHCP_WAIT_TIMEOUT_MS :: u32 where "DHCP_WAIT_TIMEOUT_MS = 30000"

text \<open>\<open>read_systick\<close> is the parameter \<open>clock\<close>: a tick is ten milliseconds.\<close>

definition get_tick_ms :: "('s \<Rightarrow> u32 \<times> 's) \<Rightarrow> 's \<Rightarrow> u32 \<times> 's" where
  "get_tick_ms clock s = (let (t, s) = clock s in (t * 10, s))"

text \<open>The message for a command that hangs reads the status register.\<close>

partial_function (option) timed_cmd_loop :: "'s w5100 \<Rightarrow> ('s \<Rightarrow> u32 \<times> 's) \<Rightarrow> u32 \<Rightarrow> 's \<Rightarrow> (bool \<times> 's) option" where
  "timed_cmd_loop chip clock start s =
     (let (v, s) = w5100_read chip S0_CR s in
      if v \<noteq> 0 then
        (let (t, s) = get_tick_ms clock s in
         if t - start > 500 then Some (False, snd (w5100_read chip S0_SR s)) else timed_cmd_loop chip clock start s)
      else Some (True, s))"

declare timed_cmd_loop.simps [code]

definition timed_cmd :: "'s w5100 \<Rightarrow> ('s \<Rightarrow> u32 \<times> 's) \<Rightarrow> u8 \<Rightarrow> 's \<Rightarrow> (bool \<times> 's) option" where
  "timed_cmd chip clock cmd s =
     (let (start, s) = get_tick_ms clock s in timed_cmd_loop chip clock start (w5100_write chip S0_CR cmd s))"

definition udp_recv_bytes :: "'s w5100 \<Rightarrow> ('s \<Rightarrow> u32 \<times> 's) \<Rightarrow> nat \<Rightarrow> u16 \<Rightarrow> mem \<Rightarrow> 's \<Rightarrow> (mem \<times> 's) option" where
  "udp_recv_bytes chip clock buf len m s =
     (let (ptr, s) = w5100_read16 chip S0_RX_RD s;
          (m, s) = recv_loop chip ptr buf 0 (unat len) m s;
          s = w5100_write16 chip S0_RX_RD (ptr + len) s
      in do { (_, s) \<leftarrow> timed_cmd chip clock CR_RECV s; Some (m, s) })"

text \<open>The rest of a datagram that is longer than the buffer is read into \<open>scratch\<close> in pieces of 32 bytes.\<close>

partial_function (option) udp_discard :: "'s w5100 \<Rightarrow> ('s \<Rightarrow> u32 \<times> 's) \<Rightarrow> nat \<Rightarrow> u16 \<Rightarrow> mem \<Rightarrow> 's \<Rightarrow> (mem \<times> 's) option" where
  "udp_discard chip clock scratch remaining m s =
     (if remaining > 0 then
        (let chunk = (if remaining < 32 then remaining else 32) in
         do { (m, s) \<leftarrow> udp_recv_bytes chip clock scratch chunk m s; udp_discard chip clock scratch (remaining - chunk) m s })
      else Some (m, s))"

declare udp_discard.simps [code]

text \<open>The local arrays, and \<open>pkt\<close>, by their addresses.\<close>

record dhcp_vars =
  v_pkt :: nat
  v_udp_header :: nat
  v_scratch :: nat
  v_mac :: nat
  v_rx_buf :: nat
  v_offered_ip :: nat
  v_server_ip :: nat
  v_server_ip2 :: nat

definition w5100_recv_udp_packet :: "'s w5100 \<Rightarrow> ('s \<Rightarrow> u32 \<times> 's) \<Rightarrow> dhcp_vars \<Rightarrow> nat \<Rightarrow> u16 \<Rightarrow> mem \<Rightarrow> 's \<Rightarrow> (u16 \<times> mem \<times> 's) option" where
  "w5100_recv_udp_packet chip clock v buf buf_cap m s =
     do {
       (m, s) \<leftarrow> udp_recv_bytes chip clock (v_udp_header v) 8 m s;
       let data_len = push_bit 8 (ucast (m (v_udp_header v + 6))) OR ucast (m (v_udp_header v + 7));
       let to_copy = (if data_len < buf_cap then data_len else buf_cap);
       (m, s) \<leftarrow> (if to_copy > 0 then udp_recv_bytes chip clock buf to_copy m s else Some (m, s));
       (m, s) \<leftarrow> udp_discard chip clock (v_scratch v) (data_len - to_copy) m s;
       Some (data_len, m, s)
     }"

definition udp_send_bytes :: "'s w5100 \<Rightarrow> ('s \<Rightarrow> u32 \<times> 's) \<Rightarrow> u8 list \<Rightarrow> 's \<Rightarrow> 's option" where
  "udp_send_bytes chip clock bs s =
     (let (tx_rd, s) = w5100_read16 chip S0_TX_RD s;
          (ptr, s) = w5100_read16 chip S0_TX_WR s;
          s = send_loop chip ptr 0 bs s;
          s = w5100_write16 chip S0_TX_WR (ptr + of_nat (length bs)) s
      in do {
        (ok, s) \<leftarrow> timed_cmd chip clock CR_SEND s;
        Some (if \<not> ok then snd (w5100_read chip S0_SR s) else s)
      })"

partial_function (option) wait_rx_loop :: "'s w5100 \<Rightarrow> ('s \<Rightarrow> u32 \<times> 's) \<Rightarrow> u16 \<Rightarrow> u32 \<Rightarrow> u32 \<Rightarrow> 's \<Rightarrow> (bool \<times> 's) option" where
  "wait_rx_loop chip clock min_bytes timeout_ms start s =
     do {
       (n, s) \<leftarrow> w5100_get_rx_size chip s;
       if n < min_bytes then
         (let (t, s) = get_tick_ms clock s in
          if t - start \<ge> timeout_ms then Some (False, s) else wait_rx_loop chip clock min_bytes timeout_ms start s)
       else Some (True, s)
     }"

declare wait_rx_loop.simps [code]

definition wait_rx_at_least :: "'s w5100 \<Rightarrow> ('s \<Rightarrow> u32 \<times> 's) \<Rightarrow> u16 \<Rightarrow> u32 \<Rightarrow> 's \<Rightarrow> (bool \<times> 's) option" where
  "wait_rx_at_least chip clock min_bytes timeout_ms s =
     (let (start, s) = get_tick_ms clock s in wait_rx_loop chip clock min_bytes timeout_ms start s)"

definition enviar_pacote_dhcp ::
    "'s w5100 \<Rightarrow> ('s \<Rightarrow> u32 \<times> 's) \<Rightarrow> dhcp_vars \<Rightarrow> u8 \<Rightarrow> u32 \<Rightarrow> nat \<Rightarrow> nat \<Rightarrow> nat \<Rightarrow> nat \<Rightarrow> mem \<Rightarrow> 's \<Rightarrow> (mem \<times> 's) option" where
  "enviar_pacote_dhcp chip clock v msg_type xid mac hostname req_ip server_ip m s =
     do {
       (m, total_len) \<leftarrow> build_dhcp m (v_pkt v) msg_type xid mac hostname req_ip server_ip;
       s \<leftarrow> udp_send_bytes chip clock (rd_bytes m (v_pkt v) (unat total_len)) s;
       Some (m, s)
     }"

text \<open>Successive registers.\<close>

fun write_regs :: "'s w5100 \<Rightarrow> u16 \<Rightarrow> u8 list \<Rightarrow> 's \<Rightarrow> 's" where
  "write_regs chip reg [] s = s"
| "write_regs chip reg (b # bs) s = write_regs chip (reg + 1) bs (w5100_write chip reg b s)"

definition w5100_set_mac :: "'s w5100 \<Rightarrow> nat \<Rightarrow> mem \<Rightarrow> 's \<Rightarrow> 's" where
  "w5100_set_mac chip mac m s = write_regs chip W5100_SHAR (rd_bytes m mac 6) s"

definition dhcp_mac :: "u8 list" where "dhcp_mac = [0x00, 0x23, 0x69, 0x44, 0x52, 0x5C]"
definition dhcp_ip :: "u8 list" where "dhcp_ip = [192, 168, 1, 48]"

text \<open>The preparation of both phases: the socket is opened for UDP, to the broadcast address.\<close>

definition dhcp_prepare :: "'s w5100 \<Rightarrow> ('s \<Rightarrow> u32 \<times> 's) \<Rightarrow> dhcp_vars \<Rightarrow> mem \<Rightarrow> 's \<Rightarrow> 's option" where
  "dhcp_prepare chip clock v m s =
     (let s = w5100_set_mac chip (v_mac v) m s;
          s = write_regs chip W5100_SIPR dhcp_ip s;
          s = w5100_write chip S0_MR 0x02 s;
          s = w5100_write16 chip S0_PORT 68 s
      in do {
        (_, s) \<leftarrow> timed_cmd chip clock CR_OPEN s;
        let s = write_regs chip S0_DIPR [255, 255, 255, 255] s;
        Some (w5100_write16 chip S0_DPORT 67 s)
      })"

text \<open>Closing, and the result.\<close>

definition dhcp_close :: "'s w5100 \<Rightarrow> ('s \<Rightarrow> u32 \<times> 's) \<Rightarrow> nat \<Rightarrow> u32 \<Rightarrow> mem \<Rightarrow> 's \<Rightarrow> (nat \<times> u32 \<times> mem \<times> 's) option" where
  "dhcp_close chip clock r counter m s = do { (_, s) \<leftarrow> timed_cmd chip clock CR_CLOSE s; Some (r, counter, m, s) }"

definition dhcp_request_phase ::
    "'s w5100 \<Rightarrow> ('s \<Rightarrow> u32 \<times> 's) \<Rightarrow> dhcp_vars \<Rightarrow> nat \<Rightarrow> u32 \<Rightarrow> u32 \<Rightarrow> mem \<Rightarrow> 's \<Rightarrow> (nat \<times> u32 \<times> mem \<times> 's) option" where
  "dhcp_request_phase chip clock v hostname xid counter m s =
     do {
       s \<leftarrow> dhcp_prepare chip clock v m s;
       (m, s) \<leftarrow> enviar_pacote_dhcp chip clock v DHCP_REQUEST xid (v_mac v) hostname (v_offered_ip v) (v_server_ip v) m s;
       (ready, s) \<leftarrow> wait_rx_at_least chip clock (of_nat OFF_OPTIONS) 50000 s;
       if \<not> ready then dhcp_close chip clock 0 counter m s
       else do {
         (_, m, s) \<leftarrow> w5100_recv_udp_packet chip clock v (v_rx_buf v) (of_nat DHCP_PKT_BUF_SIZE) m s;
         let m = wr_bytes m (v_server_ip2 v) [0, 0, 0, 0];
         (msg_type, m) \<leftarrow> parse_dhcp_options m (v_rx_buf v) (of_nat DHCP_PKT_BUF_SIZE) (v_server_ip2 v);
         if msg_type = DHCP_NAK then dhcp_close chip clock 0 counter m s
         else if msg_type \<noteq> DHCP_ACK then dhcp_close chip clock 0 counter m s
         else dhcp_close chip clock 1 counter m (write_regs chip W5100_SIPR (rd_bytes m (v_rx_buf v + OFF_YIADDR) 4) s)
       }
     }"

definition w5100_dhcp_request ::
    "'s w5100 \<Rightarrow> ('s \<Rightarrow> u32 \<times> 's) \<Rightarrow> dhcp_vars \<Rightarrow> nat \<Rightarrow> u32 \<Rightarrow> mem \<Rightarrow> 's \<Rightarrow> (nat \<times> u32 \<times> mem \<times> 's) option" where
  "w5100_dhcp_request chip clock v hostname counter m s =
     (let m = wr_bytes m (v_mac v) dhcp_mac;
          m = wr_bytes m (v_offered_ip v) [0, 0, 0, 0];
          m = wr_bytes m (v_server_ip v) [0, 0, 0, 0]
      in do {
        s \<leftarrow> dhcp_prepare chip clock v m s;
        let (xid, counter) = next_xid counter;
        (m, s) \<leftarrow> enviar_pacote_dhcp chip clock v DHCP_DISCOVER xid (v_mac v) hostname 0 0 m s;
        (ready, s) \<leftarrow> wait_rx_at_least chip clock (of_nat OFF_OPTIONS) DHCP_WAIT_TIMEOUT_MS s;
        if \<not> ready then dhcp_close chip clock 0 counter m s
        else do {
          (_, m, s) \<leftarrow> w5100_recv_udp_packet chip clock v (v_rx_buf v) (of_nat DHCP_PKT_BUF_SIZE) m s;
          let m = fst (memcpy m (v_offered_ip v) (v_rx_buf v + OFF_YIADDR) 4);
          (msg_type, m) \<leftarrow> parse_dhcp_options m (v_rx_buf v) (of_nat DHCP_PKT_BUF_SIZE) (v_server_ip v);
          if msg_type \<noteq> DHCP_OFFER then dhcp_close chip clock 0 counter m s
          else do {
            let m = (if rd_bytes m (v_server_ip v) 4 = [0, 0, 0, 0]
                     then fst (memcpy m (v_server_ip v) (v_rx_buf v + OFF_SIADDR) 4) else m);
            dhcp_request_phase chip clock v hostname xid counter m s
          }
        }
      })"

text \<open>\<open>dhcp_client\<close>: the address is read back for the message.\<close>

fun read_regs :: "'s w5100 \<Rightarrow> u16 \<Rightarrow> nat \<Rightarrow> 's \<Rightarrow> u8 list \<times> 's" where
  "read_regs chip reg 0 s = ([], s)"
| "read_regs chip reg (Suc n) s =
     (let (b, s) = w5100_read chip reg s; (bs, s) = read_regs chip (reg + 1) n s in (b # bs, s))"

definition dhcp_client ::
    "'s w5100 \<Rightarrow> ('s \<Rightarrow> u32 \<times> 's) \<Rightarrow> dhcp_vars \<Rightarrow> nat \<Rightarrow> u32 \<Rightarrow> mem \<Rightarrow> 's \<Rightarrow> (nat \<times> u8 list option \<times> u32 \<times> mem \<times> 's) option" where
  "dhcp_client chip clock v hostname counter m s =
     do {
       (r, counter, m, s) \<leftarrow> w5100_dhcp_request chip clock v hostname counter m s;
       if r \<noteq> 0 then (let (ip, s) = read_regs chip W5100_SIPR 4 s in Some (1, Some ip, counter, m, s))
       else Some (0, None, counter, m, s)
     }"

section \<open>Memory\<close>

text \<open>The arrays and the host name do not meet.\<close>

fun separate :: "(nat \<times> nat) list \<Rightarrow> bool" where
  "separate [] \<longleftrightarrow> True"
| "separate ((p, n) # xs) \<longleftrightarrow> list_all (\<lambda>(q, k). apart p n q k) xs \<and> separate xs"

definition dhcp_layout :: "dhcp_vars \<Rightarrow> nat \<Rightarrow> nat \<Rightarrow> bool" where
  "dhcp_layout v hostname n \<longleftrightarrow>
     separate [(v_pkt v, 320), (v_udp_header v, 8), (v_scratch v, 32), (v_mac v, 6), (v_rx_buf v, 320), (v_offered_ip v, 4),
       (v_server_ip v, 4), (v_server_ip2 v, 4), (hostname, Suc n)] \<and>
     v_offered_ip v \<noteq> 0 \<and> v_server_ip v \<noteq> 0 \<and> v_server_ip2 v \<noteq> 0"

lemma apart_commute: "apart p n q k \<longleftrightarrow> apart q k p n"
  by (auto simp: apart_def)

lemma layout_apart:
  assumes "dhcp_layout v hostname n"
  shows "apart (v_udp_header v) 8 (v_rx_buf v) 320" "apart (v_scratch v) 32 (v_rx_buf v) 320" "apart (v_mac v) 6 (v_pkt v) 320"
    "apart hostname (Suc n) (v_pkt v) 320" "apart (v_offered_ip v) 4 (v_pkt v) 320" "apart (v_server_ip v) 4 (v_pkt v) 320"
    "apart (v_rx_buf v) 320 (v_pkt v) 320" "apart (v_mac v) 6 (v_udp_header v) 8" "apart (v_mac v) 6 (v_scratch v) 32"
    "apart (v_mac v) 6 (v_rx_buf v) 320" "apart hostname (Suc n) (v_udp_header v) 8" "apart hostname (Suc n) (v_scratch v) 32"
    "apart hostname (Suc n) (v_rx_buf v) 320" "apart (v_mac v) 6 (v_offered_ip v) 4" "apart (v_mac v) 6 (v_server_ip v) 4"
    "apart hostname (Suc n) (v_mac v) 6" "apart hostname (Suc n) (v_offered_ip v) 4" "apart hostname (Suc n) (v_server_ip v) 4"
    "apart (v_rx_buf v) 320 (v_offered_ip v) 4" "apart (v_rx_buf v) 320 (v_server_ip v) 4" "apart (v_rx_buf v) 320 (v_server_ip2 v) 4"
    "apart (v_offered_ip v) 4 (v_server_ip v) 4" "apart (v_rx_buf v) 320 (v_mac v) 6"
    "apart (v_server_ip v) 4 (v_udp_header v) 8" "apart (v_server_ip v) 4 (v_scratch v) 32" "apart (v_server_ip v) 4 (v_rx_buf v) 320"
    "apart (v_server_ip v) 4 (v_offered_ip v) 4"
  using assms by (simp_all add: dhcp_layout_def apart_commute)

text \<open>\<open>same_but qs m m'\<close>: only bytes of the areas \<open>qs\<close> differ.\<close>

definition same_but :: "(nat \<times> nat) list \<Rightarrow> mem \<Rightarrow> mem \<Rightarrow> bool" where
  "same_but qs m m' \<longleftrightarrow> (\<forall>a. (\<forall>(q, k) \<in> set qs. a < q \<or> q + k \<le> a) \<longrightarrow> m' a = m a)"

lemma same_rd: "same_but qs m m' \<Longrightarrow> list_all (\<lambda>(q, k). apart p n q k) qs \<Longrightarrow> rd_bytes m' p n = rd_bytes m p n"
proof -
  assume s: "same_but qs m m'" and a: "list_all (\<lambda>(q, k). apart p n q k) qs"
  have "m' (p + i) = m (p + i)" if "i < n" for i
  proof -
    have "\<forall>(q, k) \<in> set qs. p + i < q \<or> q + k \<le> p + i" using a that by (fastforce simp: list_all_iff apart_def)
    then show ?thesis using s by (simp add: same_but_def)
  qed
  then show ?thesis by (simp add: rd_bytes_eq_iff)
qed

lemma same_wr: "length xs \<le> k \<Longrightarrow> same_but [(q, k)] m (wr_bytes m q xs)"
  by (auto simp: same_but_def wr_bytes_apply)

lemma same_copy: "same_but [(d, n)] m (fst (memcpy m d q n))"
  using memcpy_loop_outside by (auto simp: same_but_def memcpy_def)

lemma same_parse: "parse_dhcp_options m raw n out = Some (t, m') \<Longrightarrow> same_but [(out, 4)] m m'"
  using parse_frame by (auto simp: same_but_def parse_dhcp_options_def)

text \<open>What every step leaves alone: the hardware address and the host name.\<close>

definition given :: "dhcp_vars \<Rightarrow> nat \<Rightarrow> u8 list \<Rightarrow> mem \<Rightarrow> bool" where
  "given v hostname host m \<longleftrightarrow> rd_bytes m (v_mac v) 6 = dhcp_mac \<and> rd_bytes m hostname (Suc (length host)) = host @ [0] \<and> 0 \<notin> set host"

lemma given_cstr: "given v hostname host m \<Longrightarrow> cstr m hostname host"
proof -
  assume g: "given v hostname host m"
  then have "rd_bytes m hostname (length host) @ [m (hostname + length host)] = host @ [0]" unfolding given_def rd_bytes_snoc by blast
  then show ?thesis using g by (simp add: cstr_iff given_def)
qed

lemma given_same:
  "given v hostname host m \<Longrightarrow> same_but qs m m' \<Longrightarrow> list_all (\<lambda>(q, k). apart (v_mac v) 6 q k) qs \<Longrightarrow>
   list_all (\<lambda>(q, k). apart hostname (Suc (length host)) q k) qs \<Longrightarrow> given v hostname host m'"
  using same_rd [of qs m m' "v_mac v" 6] same_rd [of qs m m' hostname "Suc (length host)"] by (simp add: given_def)

lemma dhcp_mac_length: "length dhcp_mac = 6"
  by (simp add: dhcp_mac_def)

lemma given_start:
  assumes lay: "dhcp_layout v hostname (length host)" and host: "cstr m hostname host"
  shows "given v hostname host (wr_bytes (wr_bytes (wr_bytes m (v_mac v) dhcp_mac) (v_offered_ip v) [0, 0, 0, 0]) (v_server_ip v) [0, 0, 0, 0])"
proof -
  note ap = layout_apart [OF lay]
  let ?n = "wr_bytes m (v_mac v) dhcp_mac"
  let ?m = "wr_bytes (wr_bytes ?n (v_offered_ip v) [0, 0, 0, 0]) (v_server_ip v) [0, 0, 0, 0]"
  have s: "same_but [(v_mac v, 6)] m ?n" "same_but [(v_offered_ip v, 4), (v_server_ip v, 4)] ?n ?m"
    by (auto simp: same_but_def wr_bytes_apply dhcp_mac_length)
  have "rd_bytes ?m hostname (Suc (length host)) = rd_bytes m hostname (Suc (length host))"
    using same_rd [OF s(2), of hostname "Suc (length host)"] same_rd [OF s(1), of hostname "Suc (length host)"] ap(16-18)
    by (simp del: wr_bytes.simps rd_bytes.simps)
  moreover have "rd_bytes ?m (v_mac v) 6 = rd_bytes ?n (v_mac v) (length dhcp_mac)"
    using same_rd [OF s(2)] ap(14,15) by (simp add: dhcp_mac_length del: wr_bytes.simps)
  then have "rd_bytes ?m (v_mac v) 6 = dhcp_mac" by (simp only: rd_wr_bytes_same)
  ultimately show ?thesis using rd_cstr [OF host] cstr_nonzero [OF host] by (simp add: given_def del: wr_bytes.simps)
qed

section \<open>The chip\<close>

text \<open>
  What the chip holds for an open UDP socket: the bytes that have come in and are not released (\<open>u_in\<close>), up to which
  pointer it has released (\<open>u_ptr\<close>) and the register with the next one (\<open>u_rd\<close>), the transmit memory with its
  two pointers, the registers of the configuration, and the datagrams sent, each with its destination. \<open>u_log\<close>
  holds what has ever come in, each datagram with its sender.
\<close>

record udp =
  u_in :: "u8 list"
  u_ptr :: u16
  u_rd :: u16
  u_txr :: u16
  u_txw :: u16
  u_tx :: "u16 \<Rightarrow> u8"
  u_cfg :: "u16 \<Rightarrow> u8"
  u_sent :: "(u8 list \<times> u8 list) list"
  u_log :: "(u8 list \<times> u8 list) list"

text \<open>A datagram as it comes in: address and port of the sender, the length, and the data.\<close>

definition udp_frame :: "u8 list \<times> u8 list \<Rightarrow> u8 list" where
  "udp_frame d = fst d @ [ucast (drop_bit 8 (of_nat (length (snd d)) :: u16)), ucast (of_nat (length (snd d)) :: u16)] @ snd d"

definition frame_ok :: "u8 list \<times> u8 list \<Rightarrow> bool" where
  "frame_ok d \<longleftrightarrow> length (fst d) = 6 \<and> length (snd d) < 65536"

definition frames :: "(u8 list \<times> u8 list) list \<Rightarrow> u8 list" where
  "frames ds = concat (map udp_frame ds)"

definition arrived :: "udp \<Rightarrow> (u8 list \<times> u8 list) list \<Rightarrow> udp" where
  "arrived u ds = u\<lparr>u_in := u_in u @ frames ds, u_log := u_log u @ ds\<rparr>"

text \<open>\<open>came u u' ds\<close>: between the two states the datagrams \<open>ds\<close> came in, in this order, perhaps among others.\<close>

definition came :: "udp \<Rightarrow> udp \<Rightarrow> (u8 list \<times> u8 list) list \<Rightarrow> bool" where
  "came u u' ds \<longleftrightarrow> (\<exists>xs. u_log u' = u_log u @ xs \<and> subseq ds xs)"

lemma came_trans: "came u v ds \<Longrightarrow> came v w es \<Longrightarrow> came u w (ds @ es)"
  by (auto simp: came_def intro: list_emb_append_mono)

lemma came_same [simp]: "u_log u' = u_log u \<Longrightarrow> came u u' []"
  by (simp add: came_def)

lemma came_after: "came u v [] \<Longrightarrow> came v w ds \<Longrightarrow> came u w ds" "came u v ds \<Longrightarrow> came v w [] \<Longrightarrow> came u w ds"
  using came_trans by fastforce+

lemma came_any: "came u w ds \<Longrightarrow> came u w []"
  by (auto simp: came_def)

lemma came_log: "u_log v = u_log u \<Longrightarrow> came u w ds = came v w ds" "u_log v = u_log w \<Longrightarrow> came u w ds = came u v ds"
  by (simp_all add: came_def)

definition cfg_regs :: "u16 set" where
  "cfg_regs = {0x0009, 0x000A, 0x000B, 0x000C, 0x000D, 0x000E, 0x000F, 0x0010, 0x0011, 0x0012, 0x0400, 0x0404, 0x0405,
     0x040C, 0x040D, 0x040E, 0x040F, 0x0410, 0x0411}"

definition u_dest :: "udp \<Rightarrow> u8 list" where
  "u_dest u = map (u_cfg u) [0x040C, 0x040D, 0x040E, 0x040F, 0x0410, 0x0411]"

definition u_address :: "udp \<Rightarrow> u8 list" where
  "u_address u = map (u_cfg u) [0x000F, 0x0010, 0x0011, 0x0012]"

definition u_payload :: "udp \<Rightarrow> u8 list" where
  "u_payload u = map (\<lambda>i. u_tx u ((u_txr u + of_nat i) AND S0_MASK)) [0..<unat (u_txw u - u_txr u)]"

text \<open>What the client makes of a datagram: its first 320 bytes stand in \<open>rx_buf\<close>, before what stood there behind them, no server
  is known yet, and \<open>parse_dhcp_options\<close> finds the type \<open>t\<close>.\<close>

definition answer :: "dhcp_vars \<Rightarrow> u8 list \<Rightarrow> nat \<Rightarrow> mem \<Rightarrow> mem \<Rightarrow> u8 \<Rightarrow> mem \<Rightarrow> bool" where
  "answer v d out m ma t mb \<longleftrightarrow>
     rd_bytes ma (v_rx_buf v) 320 = take 320 d @ drop (length d) (rd_bytes m (v_rx_buf v) 320) \<and> rd_bytes ma out 4 = [0, 0, 0, 0] \<and>
     parse_dhcp_options ma (v_rx_buf v) 320 out = Some (t, mb)"

definition bcast :: "u8 list" where "bcast = [255, 255, 255, 255, 0, 67]"

lemma apart_sub: "apart p n q k \<Longrightarrow> i + j \<le> n \<Longrightarrow> apart (p + i) j q k"
  by (auto simp: apart_def)

text \<open>The server that an offer names: in its options, or else in its header.\<close>

definition offer_server :: "dhcp_vars \<Rightarrow> mem \<Rightarrow> mem \<Rightarrow> u8 list" where
  "offer_server v ma mb =
     (let srv = rd_bytes mb (v_server_ip v) 4 in if srv = [0, 0, 0, 0] then rd_bytes ma (v_rx_buf v + 20) 4 else srv)"

text \<open>The exchange: what has been sent, and what address the chip has in the end. An address is taken (\<open>r = 1\<close>) only
  from an ACK that came in, after an OFFER was answered with a REQUEST for the address and the server that it named;
  without one (\<open>r = 0\<close>) the time ran out (\<open>late\<close>, in ticks) or a datagram came that was no such message.\<close>

definition ack_outcome :: "dhcp_vars \<Rightarrow> (nat \<Rightarrow> bool) \<Rightarrow> mem \<Rightarrow> udp \<Rightarrow> (u8 list \<times> u8 list) list \<Rightarrow> nat \<Rightarrow> udp \<Rightarrow> bool" where
  "ack_outcome v late m u before r u' \<longleftrightarrow>
     r = 0 \<and> u_address u' = dhcp_ip \<and>
       (late 5000 \<or> (\<exists>d t ma mb. came u u' (before @ [d]) \<and> answer v (snd d) (v_server_ip2 v) m ma t mb \<and> t \<noteq> DHCP_ACK)) \<or>
     r = 1 \<and> (\<exists>d ma mb. came u u' (before @ [d]) \<and> answer v (snd d) (v_server_ip2 v) m ma DHCP_ACK mb \<and>
       u_address u' = rd_bytes ma (v_rx_buf v + 16) 4)"

definition dhcp_outcome :: "dhcp_vars \<Rightarrow> (nat \<Rightarrow> bool) \<Rightarrow> u32 \<Rightarrow> u8 list \<Rightarrow> mem \<Rightarrow> udp \<Rightarrow> nat \<Rightarrow> udp \<Rightarrow> bool" where
  "dhcp_outcome v late xid host m u r u' \<longleftrightarrow>
     (let disc = (bcast, dhcp_packet DHCP_DISCOVER xid dhcp_mac None host) in
      r = 0 \<and> u_address u' = dhcp_ip \<and> u_sent u' = u_sent u @ [disc] \<and>
        (late 3000 \<or> (\<exists>d t ma mb. came u u' [d] \<and> answer v (snd d) (v_server_ip v) m ma t mb \<and> t \<noteq> DHCP_OFFER)) \<or>
      (\<exists>d ma mb. came u u' [d] \<and> answer v (snd d) (v_server_ip v) m ma DHCP_OFFER mb \<and>
         u_sent u' = u_sent u @ [disc, (bcast, dhcp_packet DHCP_REQUEST xid dhcp_mac
           (Some (rd_bytes ma (v_rx_buf v + 16) 4, offer_server v ma mb)) host)] \<and>
         ack_outcome v late ma u [d] r u'))"

lemma ack_outcome_after:
  assumes "came u w before" "ack_outcome v late m w [] r u'" "rd_bytes m (v_rx_buf v) 320 = rd_bytes m' (v_rx_buf v) 320"
  shows "ack_outcome v late m' u before r u'"
proof -
  have c: "came u u' (before @ [d])" if "came w u' [d]" for d using came_trans [OF assms(1) that] .
  have "answer v d out m ma t mb = answer v d out m' ma t mb" for d out ma t mb using assms(3) by (simp add: answer_def)
  then show ?thesis using assms(2) c unfolding ack_outcome_def by fastforce
qed

text \<open>More datagrams may come in at any access.\<close>

locale udp_chip =
  fixes chip :: "'s w5100" and clock :: "'s \<Rightarrow> u32 \<times> 's" and st :: "udp \<Rightarrow> 's \<Rightarrow> bool"
    and near :: "udp \<Rightarrow> 's \<Rightarrow> bool"
  assumes near_def: "near u s \<longleftrightarrow> (\<exists>ds. list_all frame_ok ds \<and> st (arrived u ds) s)"
    and in_bound: "st u s \<Longrightarrow> length (u_in u) \<le> 2048"
    and read_any: "st u s \<Longrightarrow> w5100_read chip a s = (v, s') \<Longrightarrow> near u s'"
    and clock_any: "st u s \<Longrightarrow> clock s = (t, s') \<Longrightarrow> near u s'"
    and size_hi: "st u s \<Longrightarrow> w5100_read chip S0_RX_RSR s = (v, s') \<Longrightarrow> unat v = length (u_in u) div 256"
    and size_lo: "st u s \<Longrightarrow> w5100_read chip (S0_RX_RSR + 1) s = (v, s') \<Longrightarrow> unat v = length (u_in u) mod 256"
    and rd_hi: "st u s \<Longrightarrow> w5100_read chip S0_RX_RD s = (v, s') \<Longrightarrow> v = ucast (drop_bit 8 (u_rd u))"
    and rd_lo: "st u s \<Longrightarrow> w5100_read chip (S0_RX_RD + 1) s = (v, s') \<Longrightarrow> v = ucast (u_rd u)"
    and wr_hi: "st u s \<Longrightarrow> w5100_read chip S0_TX_WR s = (v, s') \<Longrightarrow> v = ucast (drop_bit 8 (u_txw u))"
    and wr_lo: "st u s \<Longrightarrow> w5100_read chip (S0_TX_WR + 1) s = (v, s') \<Longrightarrow> v = ucast (u_txw u)"
    and read_data: "st u s \<Longrightarrow> i < length (u_in u) \<Longrightarrow>
      w5100_read chip (S0_RX_BASE + ((u_ptr u + of_nat i) AND S0_MASK)) s = (v, s') \<Longrightarrow> v = u_in u ! i"
    and read_cfg: "st u s \<Longrightarrow> a \<in> cfg_regs \<Longrightarrow> w5100_read chip a s = (v, s') \<Longrightarrow> v = u_cfg u a"
    and write_rd: "st u s \<Longrightarrow> near (u\<lparr>u_rd := x\<rparr>) (w5100_write16 chip S0_RX_RD x s)"
    and write_txw: "st u s \<Longrightarrow> near (u\<lparr>u_txw := x\<rparr>) (w5100_write16 chip S0_TX_WR x s)"
    and write_tx: "st u s \<Longrightarrow> near (u\<lparr>u_tx := (u_tx u)(k AND S0_MASK := b)\<rparr>) (w5100_write chip (S0_TX_BASE + (k AND S0_MASK)) b s)"
    and write_cfg: "st u s \<Longrightarrow> a \<in> cfg_regs \<Longrightarrow> near (u\<lparr>u_cfg := (u_cfg u)(a := b)\<rparr>) (w5100_write chip a b s)"
    and do_recv: "st u s \<Longrightarrow> unat (u_rd u - u_ptr u) \<le> length (u_in u) \<Longrightarrow>
      near (u\<lparr>u_in := drop (unat (u_rd u - u_ptr u)) (u_in u), u_ptr := u_rd u\<rparr>) (w5100_write chip S0_CR CR_RECV s)"
    and do_send: "st u s \<Longrightarrow> unat (u_txw u - u_txr u) \<le> 2048 \<Longrightarrow>
      near (u\<lparr>u_txr := u_txw u, u_sent := u_sent u @ [(u_dest u, u_payload u)]\<rparr>) (w5100_write chip S0_CR CR_SEND s)"
    and do_open: "st u s \<Longrightarrow>
      \<exists>x y. near (u\<lparr>u_in := [], u_ptr := x, u_rd := x, u_txr := y, u_txw := y\<rparr>) (w5100_write chip S0_CR CR_OPEN s)"
    and do_close: "st u s \<Longrightarrow> \<exists>u'. st u' (w5100_write chip S0_CR CR_CLOSE s) \<and> u_cfg u' = u_cfg u \<and> u_sent u' = u_sent u \<and> u_log u' = u_log u"
begin

lemma arrived_Nil [simp]: "arrived u [] = u"
  by (simp add: arrived_def frames_def)

lemma arrived_append: "arrived (arrived u ds) ds' = arrived u (ds @ ds')"
  by (simp add: arrived_def frames_def)

lemma arrived_sel [simp]:
  "u_in (arrived u ds) = u_in u @ frames ds" "u_ptr (arrived u ds) = u_ptr u" "u_rd (arrived u ds) = u_rd u"
  "u_txr (arrived u ds) = u_txr u" "u_txw (arrived u ds) = u_txw u" "u_tx (arrived u ds) = u_tx u"
  "u_log (arrived u ds) = u_log u @ ds" "u_cfg (arrived u ds) = u_cfg u" "u_sent (arrived u ds) = u_sent u" "u_dest (arrived u ds) = u_dest u"
  "u_payload (arrived u ds) = u_payload u"
  by (simp_all add: arrived_def u_dest_def u_payload_def)

lemma st_near: "st u s \<Longrightarrow> near u s"
  unfolding near_def by (intro exI [of _ "[]"]) simp

lemma near_arrived: "near (arrived u ds) s \<Longrightarrow> list_all frame_ok ds \<Longrightarrow> near u s"
  unfolding near_def arrived_append by (metis list_all_append)

lemma nearE:
  assumes "near u s" obtains ds where "list_all frame_ok ds" "st (arrived u ds) s"
  using assms by (auto simp: near_def)

text \<open>An access that does the same to the state with more bytes come in.\<close>

lemma near_access:
  assumes "near u s" "\<And>ds. list_all frame_ok ds \<Longrightarrow> st (arrived u ds) s \<Longrightarrow> near (arrived u' ds) s'"
  shows "near u' s'"
proof -
  obtain ds where "list_all frame_ok ds" "st (arrived u ds) s" using assms(1) by (rule nearE)
  then show ?thesis using assms(2) near_arrived by blast
qed

lemma near_read: "near u s \<Longrightarrow> w5100_read chip a s = (v, s') \<Longrightarrow> near u s'"
  by (erule near_access) (rule read_any)

lemma near_clock: "near u s \<Longrightarrow> clock s = (t, s') \<Longrightarrow> near u s'"
  by (erule near_access) (rule clock_any)

lemma near_tick: "near u s \<Longrightarrow> get_tick_ms clock s = (t, s') \<Longrightarrow> near u s'"
  using near_clock by (auto simp: get_tick_ms_def split: prod.splits)

lemma arrived_upd:
  "arrived (u\<lparr>u_rd := x\<rparr>) ds = (arrived u ds)\<lparr>u_rd := x\<rparr>" "arrived (u\<lparr>u_txw := x\<rparr>) ds = (arrived u ds)\<lparr>u_txw := x\<rparr>"
  "arrived (u\<lparr>u_tx := f\<rparr>) ds = (arrived u ds)\<lparr>u_tx := f\<rparr>" "arrived (u\<lparr>u_cfg := g\<rparr>) ds = (arrived u ds)\<lparr>u_cfg := g\<rparr>"
  "arrived (u\<lparr>u_ptr := x\<rparr>) ds = (arrived u ds)\<lparr>u_ptr := x\<rparr>" "arrived (u\<lparr>u_txr := x\<rparr>) ds = (arrived u ds)\<lparr>u_txr := x\<rparr>"
  "arrived (u\<lparr>u_sent := z\<rparr>) ds = (arrived u ds)\<lparr>u_sent := z\<rparr>"
  by (cases u, simp add: arrived_def)+

lemma near_write_rd: "near u s \<Longrightarrow> near (u\<lparr>u_rd := x\<rparr>) (w5100_write16 chip S0_RX_RD x s)"
  by (erule near_access) (drule write_rd [where x = x], simp add: arrived_upd)

lemma near_write_txw: "near u s \<Longrightarrow> near (u\<lparr>u_txw := x\<rparr>) (w5100_write16 chip S0_TX_WR x s)"
  by (erule near_access) (drule write_txw [where x = x], simp add: arrived_upd)

lemma near_write_tx:
  "near u s \<Longrightarrow> near (u\<lparr>u_tx := (u_tx u)(k AND S0_MASK := b)\<rparr>) (w5100_write chip (S0_TX_BASE + (k AND S0_MASK)) b s)"
  by (erule near_access) (drule write_tx [where k = k and b = b], simp add: arrived_upd)

lemma near_write_cfg: "near u s \<Longrightarrow> a \<in> cfg_regs \<Longrightarrow> near (u\<lparr>u_cfg := (u_cfg u)(a := b)\<rparr>) (w5100_write chip a b s)"
  by (erule near_access) (drule write_cfg [where a = a and b = b], simp_all add: arrived_upd)

lemma near_do_recv:
  assumes "near u s" "unat (u_rd u - u_ptr u) \<le> length (u_in u)"
  shows "near (u\<lparr>u_in := drop (unat (u_rd u - u_ptr u)) (u_in u), u_ptr := u_rd u\<rparr>) (w5100_write chip S0_CR CR_RECV s)"
  using assms(1)
proof (rule near_access)
  fix ds
  assume "st (arrived u ds) s"
  from do_recv [OF this] assms(2)
  show "near (arrived (u\<lparr>u_in := drop (unat (u_rd u - u_ptr u)) (u_in u), u_ptr := u_rd u\<rparr>) ds) (w5100_write chip S0_CR CR_RECV s)"
    by (cases u) (simp add: arrived_def)
qed

lemma near_do_send:
  assumes "near u s" "unat (u_txw u - u_txr u) \<le> 2048"
  shows "near (u\<lparr>u_txr := u_txw u, u_sent := u_sent u @ [(u_dest u, u_payload u)]\<rparr>) (w5100_write chip S0_CR CR_SEND s)"
  using assms(1)
proof (rule near_access)
  fix ds
  assume "st (arrived u ds) s"
  from do_send [OF this] assms(2)
  show "near (arrived (u\<lparr>u_txr := u_txw u, u_sent := u_sent u @ [(u_dest u, u_payload u)]\<rparr>) ds) (w5100_write chip S0_CR CR_SEND s)"
    by (simp add: arrived_upd)
qed

lemma near_do_open:
  assumes "near u s"
  shows "\<exists>x y xs. near (u\<lparr>u_in := [], u_ptr := x, u_rd := x, u_txr := y, u_txw := y, u_log := u_log u @ xs\<rparr>) (w5100_write chip S0_CR CR_OPEN s)"
proof -
  obtain ds where "st (arrived u ds) s" using assms by (rule nearE)
  from do_open [OF this] show ?thesis by (cases u) (fastforce simp: arrived_def)
qed

lemma near_do_close:
  assumes "near u s"
  shows "\<exists>u'. near u' (w5100_write chip S0_CR CR_CLOSE s) \<and> u_cfg u' = u_cfg u \<and> u_sent u' = u_sent u \<and> came u u' []"
proof -
  obtain ds where "st (arrived u ds) s" using assms by (rule nearE)
  from do_close [OF this] show ?thesis using st_near by (fastforce simp: came_def)
qed

text \<open>A command: the clock, the write, and polls that change nothing but what comes in.\<close>

lemma cmd_loop_near: "timed_cmd_loop chip clock start s = Some (b, s') \<Longrightarrow> near u s \<Longrightarrow> near u s'"
proof -
  assume run: "timed_cmd_loop chip clock start s = Some (b, s')"
  have "chip = chip \<and> clock = clock \<longrightarrow> near u s \<longrightarrow> near u (snd (b, s'))"
  proof (rule timed_cmd_loop.raw_induct [where P = "\<lambda>c k start s y. c = chip \<and> k = clock \<longrightarrow> near u s \<longrightarrow> near u (snd y)", OF _ run],
      intro impI)
    fix f c k start s y
    assume IH: "\<And>c k start s y. f c k start s = Some y \<Longrightarrow> c = chip \<and> k = clock \<longrightarrow> near u s \<longrightarrow> near u (snd y)"
      and ck: "c = chip \<and> k = clock" and n: "near u s"
      and run: "(let (v, s) = w5100_read c S0_CR s in
        if v \<noteq> 0 then (let (t, s) = get_tick_ms k s in
          if t - start > 500 then Some (False, snd (w5100_read c S0_SR s)) else f c k start s)
        else Some (True, s)) = Some y"
    obtain v s1 where v: "w5100_read chip S0_CR s = (v, s1)" by fastforce
    obtain t s2 where t: "get_tick_ms clock s1 = (t, s2)" by fastforce
    obtain w s3 where w: "w5100_read chip S0_SR s2 = (w, s3)" by fastforce
    have n1: "near u s1" by (rule near_read [OF n v])
    have n2: "near u s2" by (rule near_tick [OF n1 t])
    have n3: "near u s3" by (rule near_read [OF n2 w])
    show "near u (snd y)" using run ck v t w n1 n2 n3 IH [of chip clock start s2 y] by (auto split: if_splits)
  qed
  then show "near u s \<Longrightarrow> near u s'" by simp
qed

lemma cmd_near:
  assumes "timed_cmd chip clock cmd s = Some (b, s')" "near u s" "\<And>t. near u t \<Longrightarrow> near u' (w5100_write chip S0_CR cmd t)"
  shows "near u' s'"
proof -
  obtain t s1 where t: "get_tick_ms clock s = (t, s1)" by fastforce
  then have "near u' (w5100_write chip S0_CR cmd s1)" using near_tick assms(2,3) by blast
  then show ?thesis using cmd_loop_near assms(1) t by (auto simp: timed_cmd_def)
qed

lemma read16_value:
  assumes "near u s" "w5100_read16 chip a s = (v, s')"
    and "\<And>ds s w t. st (arrived u ds) s \<Longrightarrow> w5100_read chip a s = (w, t) \<Longrightarrow> w = ucast (drop_bit 8 x)"
    and "\<And>ds s w t. st (arrived u ds) s \<Longrightarrow> w5100_read chip (a + 1) s = (w, t) \<Longrightarrow> w = ucast x"
  shows "v = (x :: u16) \<and> near u s'"
proof -
  obtain h s1 l s2 where h: "w5100_read chip a s = (h, s1)" and l: "w5100_read chip (a + 1) s1 = (l, s2)" by fastforce
  have n1: "near u s1" by (rule near_read [OF assms(1) h])
  have "h = ucast (drop_bit 8 x)" using assms(1) assms(3) [OF _ h] by (auto elim!: nearE)
  moreover have "l = ucast x" using n1 assms(4) [OF _ l] by (auto elim!: nearE)
  ultimately show ?thesis using assms(2) h l near_read [OF n1 l] be_word_split [of x] by (simp add: w5100_read16_def)
qed

lemma read16_any: "near u s \<Longrightarrow> w5100_read16 chip a s = (v, s') \<Longrightarrow> near u s'"
proof -
  assume n: "near u s" and r: "w5100_read16 chip a s = (v, s')"
  obtain h s1 l s2 where h: "w5100_read chip a s = (h, s1)" and l: "w5100_read chip (a + 1) s1 = (l, s2)" by fastforce
  show "near u s'" using r h l near_read [OF near_read [OF n h] l] by (simp add: w5100_read16_def)
qed

lemma read_rd: "near u s \<Longrightarrow> w5100_read16 chip S0_RX_RD s = (v, s') \<Longrightarrow> v = u_rd u \<and> near u s'"
  by (rule read16_value) (auto dest: rd_hi rd_lo)

lemma read_txw: "near u s \<Longrightarrow> w5100_read16 chip S0_TX_WR s = (v, s') \<Longrightarrow> v = u_txw u \<and> near u s'"
  by (rule read16_value) (auto dest: wr_hi wr_lo)

text \<open>Waiting for bytes: a size that is read while bytes come in is never too large.\<close>

definition holds_in :: "udp \<Rightarrow> nat \<Rightarrow> 's \<Rightarrow> bool" where
  "holds_in u n s \<longleftrightarrow> (\<exists>ds. list_all frame_ok ds \<and> st (arrived u ds) s \<and> n \<le> length (u_in u @ frames ds))"

lemma holds_near: "holds_in u n s \<Longrightarrow> near u s"
  by (auto simp: holds_in_def near_def)

lemma holds_later:
  assumes "holds_in u n s" "\<And>v. near v s \<Longrightarrow> near v s'"
  shows "holds_in u n s'"
proof -
  obtain ds where ds: "list_all frame_ok ds" "st (arrived u ds) s" "n \<le> length (u_in u @ frames ds)"
    using assms(1) by (auto simp: holds_in_def)
  from assms(2) [OF st_near [OF ds(2)]] obtain ds' where "list_all frame_ok ds'" "st (arrived u (ds @ ds')) s'"
    by (auto simp: arrived_append elim!: nearE)
  then show ?thesis using ds(1,3) by (auto simp: holds_in_def frames_def intro!: exI [of _ "ds @ ds'"])
qed

lemma size_read:
  assumes "near u s" "w5100_read16 chip S0_RX_RSR s = (v, s')"
  shows "holds_in u (unat v) s'"
proof -
  obtain h s1 l s2 where h: "w5100_read chip S0_RX_RSR s = (h, s1)" and l: "w5100_read chip (S0_RX_RSR + 1) s1 = (l, s2)" by fastforce
  obtain ds1 where d1: "list_all frame_ok ds1" "st (arrived u ds1) s" using assms(1) by (rule nearE)
  obtain ds2 where d2: "list_all frame_ok ds2" "st (arrived u (ds1 @ ds2)) s1"
    using near_read [OF st_near [OF d1(2)] h] by (auto simp: arrived_append elim!: nearE)
  let ?a = "length (u_in u @ frames ds1)" and ?b = "length (u_in u @ frames (ds1 @ ds2))"
  have v: "unat v = ?a div 256 * 256 + ?b mod 256" "s' = s2"
    using assms(2) h l size_hi [OF d1(2) h] size_lo [OF d2(2) l] unat_be_word [of h l]
    by (auto simp: w5100_read16_def)
  have "unat v \<le> ?b" unfolding v(1) by (rule torn_size_le) (simp add: frames_def)
  then have "holds_in u (unat v) s1" using d1(1) d2 by (auto simp: holds_in_def intro!: exI [of _ "ds1 @ ds2"])
  then show ?thesis unfolding v(2) by (rule holds_later) (rule near_read [OF _ l])
qed

lemma size_ok: "w5100_get_rx_size chip s = Some (n, s') \<Longrightarrow> near u s \<Longrightarrow> holds_in u (unat n) s'"
proof -
  assume run: "w5100_get_rx_size chip s = Some (n, s')"
  have "chip = chip \<longrightarrow> near u s \<longrightarrow> holds_in u (unat (fst (n, s'))) (snd (n, s'))"
  proof (rule w5100_get_rx_size.raw_induct [where P = "\<lambda>c s y. c = chip \<longrightarrow> near u s \<longrightarrow> holds_in u (unat (fst y)) (snd y)", OF _ run],
      intro impI)
    fix f c s y
    assume IH: "\<And>c s y. f c s = Some y \<Longrightarrow> c = chip \<longrightarrow> near u s \<longrightarrow> holds_in u (unat (fst y)) (snd y)"
      and c: "c = chip" and nr: "near u s"
      and run: "(let (val1, s) = w5100_read16 c S0_RX_RSR s;
          (val2, s) = (if val1 \<noteq> 0 then w5100_read16 c S0_RX_RSR s else (0, s))
        in if val1 \<noteq> val2 then f c s else Some (val1, s)) = Some y"
    obtain v1 s1 where v1: "w5100_read16 chip S0_RX_RSR s = (v1, s1)" by fastforce
    obtain v2 s2 where v2: "(if v1 \<noteq> 0 then w5100_read16 chip S0_RX_RSR s1 else (0, s1)) = (v2, s2)" by fastforce
    have h1: "holds_in u (unat v1) s1" by (rule size_read [OF nr v1])
    have step: "near w s1 \<Longrightarrow> near w s2" for w using v2 read16_any by (auto split: if_splits)
    have h2: "holds_in u (unat v1) s2" by (rule holds_later [OF h1 step])
    show "holds_in u (unat (fst y)) (snd y)"
    proof (cases "v1 = v2")
      case True
      then show ?thesis using run c v1 v2 h2 by auto
    next
      case False
      then have "f chip s2 = Some y" using run c v1 v2 by auto
      then show ?thesis using IH holds_near [OF h2] by blast
    qed
  qed
  then show "near u s \<Longrightarrow> holds_in u (unat n) s'" by simp
qed

lemma wait_loop_ok:
  "wait_rx_loop chip clock k timeout start s = Some (b, s') \<Longrightarrow> near u s \<Longrightarrow> near u s' \<and> (b \<longrightarrow> holds_in u (unat k) s')"
proof -
  assume run: "wait_rx_loop chip clock k timeout start s = Some (b, s')"
  have "chip = chip \<and> clock = clock \<and> k = k \<longrightarrow> near u s \<longrightarrow> near u (snd (b, s')) \<and> (fst (b, s') \<longrightarrow> holds_in u (unat k) (snd (b, s')))"
  proof (rule wait_rx_loop.raw_induct [where P = "\<lambda>c ck n t0 t1 s y. c = chip \<and> ck = clock \<and> n = k \<longrightarrow> near u s \<longrightarrow>
      near u (snd y) \<and> (fst y \<longrightarrow> holds_in u (unat n) (snd y))", OF _ run], intro impI)
    fix f c ck n t0 t1 s y
    assume IH: "\<And>c ck n t0 t1 s y. f c ck n t0 t1 s = Some y \<Longrightarrow> c = chip \<and> ck = clock \<and> n = k \<longrightarrow> near u s \<longrightarrow>
        near u (snd y) \<and> (fst y \<longrightarrow> holds_in u (unat n) (snd y))"
      and c: "c = chip \<and> ck = clock \<and> n = k" and nr: "near u s"
      and run: "do {
         (sz, s) \<leftarrow> w5100_get_rx_size c s;
         if sz < n then (let (t, s) = get_tick_ms ck s in if t - t1 \<ge> t0 then Some (False, s) else f c ck n t0 t1 s)
         else Some (True, s)
       } = Some y"
    obtain sz s1 where sz: "w5100_get_rx_size chip s = Some (sz, s1)"
      using run c by (cases "w5100_get_rx_size chip s") auto
    have h: "holds_in u (unat sz) s1" by (rule size_ok [OF sz nr])
    obtain t s2 where t: "get_tick_ms clock s1 = (t, s2)" by fastforce
    have n2: "near u s2" by (rule near_tick [OF holds_near [OF h] t])
    show "near u (snd y) \<and> (fst y \<longrightarrow> holds_in u (unat n) (snd y))"
    proof (cases "sz < n")
      case True
      then show ?thesis using run c sz t n2 IH [of chip clock k t0 t1 s2 y] by (auto split: if_splits)
    next
      case False
      then have "unat n \<le> unat sz" by (simp add: word_less_nat_alt)
      then have "holds_in u (unat n) s1" using h unfolding holds_in_def by (blast intro: le_trans)
      then show ?thesis using False run c sz holds_near [OF h] by auto
    qed
  qed
  then show "near u s \<Longrightarrow> near u s' \<and> (b \<longrightarrow> holds_in u (unat k) s')" by simp
qed

lemma wait_ok:
  assumes "wait_rx_at_least chip clock k timeout s = Some (b, s')" "near u s"
  shows "near u s' \<and> (b \<longrightarrow> holds_in u (unat k) s')"
proof -
  obtain t s1 where t: "get_tick_ms clock s = (t, s1)" by fastforce
  show ?thesis using assms(1) t wait_loop_ok near_tick [OF assms(2) t] by (auto simp: wait_rx_at_least_def)
qed

text \<open>Reading bytes that have come in.\<close>

lemma recv_loop_ok:
  "near u s \<Longrightarrow> i + n \<le> length (u_in u) \<Longrightarrow> recv_loop chip (u_ptr u) buf i n m s = (m', s') \<Longrightarrow>
   m' = wr_bytes m (buf + i) (take n (drop i (u_in u))) \<and> near u s'"
proof (induction n arbitrary: i m s)
  case (Suc n)
  obtain v s1 where v: "w5100_read chip (S0_RX_BASE + ((u_ptr u + of_nat i) AND S0_MASK)) s = (v, s1)" by fastforce
  have i: "i < length (u_in u)" using Suc.prems(2) by simp
  obtain ds where ds: "st (arrived u ds) s" using Suc.prems(1) by (rule nearE)
  have "v = u_in u ! i" using read_data [OF ds, of i v s1] v i by (simp add: nth_append)
  moreover have "take (Suc n) (drop i (u_in u)) = u_in u ! i # take n (drop (Suc i) (u_in u))"
    using i by (simp add: Cons_nth_drop_Suc [symmetric])
  moreover have r: "recv_loop chip (u_ptr u) buf (Suc i) n (m(buf + i := v)) s1 = (m', s')"
    using Suc.prems(3) v by simp
  have "Suc i + n \<le> length (u_in u)" using Suc.prems(2) by simp
  from Suc.IH [OF near_read [OF Suc.prems(1) v] this r]
  have m': "m' = wr_bytes (m(buf + i := v)) (buf + Suc i) (take n (drop (Suc i) (u_in u)))" and "near u s'" by blast+
  moreover have "wr_bytes (m(buf + i := v)) (buf + Suc i) xs = wr_bytes m (buf + i) (v # xs)" for xs by simp
  ultimately show ?case by metis
qed simp

lemma recv_ok:
  assumes "udp_recv_bytes chip clock buf len m s = Some (m', s')" "near u s" "u_rd u = u_ptr u" "unat len \<le> length (u_in u)"
  shows "m' = wr_bytes m buf (take (unat len) (u_in u)) \<and>
    near (u\<lparr>u_in := drop (unat len) (u_in u), u_ptr := u_ptr u + len, u_rd := u_ptr u + len\<rparr>) s'"
proof -
  obtain ptr s1 where p: "w5100_read16 chip S0_RX_RD s = (ptr, s1)" by fastforce
  have pv: "ptr = u_ptr u" "near u s1" using read_rd [OF assms(2) p] assms(3) by simp_all
  obtain m1 s2 where l: "recv_loop chip ptr buf 0 (unat len) m s1 = (m1, s2)" by fastforce
  have lv: "m1 = wr_bytes m buf (take (unat len) (u_in u))" "near u s2"
    using recv_loop_ok [OF pv(2), of 0 "unat len" buf m m1 s2] l pv(1) assms(4) by simp_all
  let ?u = "u\<lparr>u_rd := u_ptr u + len\<rparr>"
  have n3: "near ?u (w5100_write16 chip S0_RX_RD (ptr + len) s2)" using near_write_rd [OF lv(2)] pv(1) by simp
  obtain b where c: "timed_cmd chip clock CR_RECV (w5100_write16 chip S0_RX_RD (ptr + len) s2) = Some (b, s')" and m': "m' = m1"
    using assms(1) p l by (auto simp: udp_recv_bytes_def bind_eq_Some_conv)
  have "near (?u\<lparr>u_in := drop (unat len) (u_in u), u_ptr := u_ptr u + len\<rparr>) s'"
    using near_do_recv [of ?u] assms(4) by (intro cmd_near [OF c n3]) simp
  moreover have "?u\<lparr>u_in := drop (unat len) (u_in u), u_ptr := u_ptr u + len\<rparr> =
      u\<lparr>u_in := drop (unat len) (u_in u), u_ptr := u_ptr u + len, u_rd := u_ptr u + len\<rparr>"
    by (cases u) simp
  ultimately show ?thesis using m' lv(1) by simp
qed

definition taken :: "udp \<Rightarrow> u16 \<Rightarrow> udp" where
  "taken u k = u\<lparr>u_in := drop (unat k) (u_in u), u_ptr := u_ptr u + k, u_rd := u_ptr u + k\<rparr>"

lemma taken_sel [simp]: "u_rd (taken u k) = u_ptr (taken u k)" "u_in (taken u k) = drop (unat k) (u_in u)"
  by (simp_all add: taken_def)

lemma taken_taken: "unat (j + k) = unat j + unat k \<Longrightarrow> taken (taken u j) k = taken u (j + k)"
  by (simp add: taken_def add.commute add.left_commute)

lemma discard_ok:
  "udp_discard chip clock scr rem m s = Some (m', s') \<Longrightarrow> near (taken u k) s \<Longrightarrow> unat k + unat rem \<le> length (u_in u) \<Longrightarrow>
   unat k + unat rem < 65536 \<Longrightarrow> near (taken u (k + rem)) s' \<and> (\<forall>a. a < scr \<or> scr + 32 \<le> a \<longrightarrow> m' a = m a)"
proof (induction "unat rem" arbitrary: k rem m s rule: less_induct)
  case less
  show ?case
  proof (cases "rem > 0")
    case False
    then have "rem = 0" by (simp add: word_less_nat_alt word_unat_eq_iff)
    then show ?thesis using less.prems(1,2) by (auto simp: udp_discard.simps)
  next
    case True
    define c where "c = (if rem < 32 then rem else 32)"
    obtain m1 s1 where r: "udp_recv_bytes chip clock scr c m s = Some (m1, s1)"
      and d: "udp_discard chip clock scr (rem - c) m1 s1 = Some (m', s')"
      using less.prems(1) True unfolding udp_discard.simps [of chip clock scr rem m s] by (auto simp: c_def [symmetric] Let_def bind_eq_Some_conv)
    have c: "unat c \<le> unat rem" "0 < unat c" "unat c \<le> 32"
      using True by (auto simp: c_def word_less_nat_alt)
    have rem: "unat (rem - c) = unat rem - unat c" using c(1) by (intro unat_sub) (simp add: word_le_nat_alt)
    have kc: "unat (k + c) = unat k + unat c" using less.prems(4) c(1) by (subst unat_add_lem [symmetric]) simp
    have "unat c \<le> length (u_in (taken u k))" using less.prems(3) c(1) by simp
    from recv_ok [OF r less.prems(2) _ this]
    have m1: "m1 = wr_bytes m scr (take (unat c) (u_in (taken u k)))" and n1: "near (taken (taken u k) c) s1" by (simp_all add: taken_def)
    have out: "m1 a = m a" if "a < scr \<or> scr + 32 \<le> a" for a using that c(3) unfolding m1 by (auto simp: wr_bytes_apply)
    have "unat (rem - c) < unat rem" using rem c(2,1) by simp
    from less.hyps [OF this d, of "k + c"] n1 rem kc c less.prems(3,4) taken_taken [OF kc]
    have "near (taken u (k + c + (rem - c))) s'" "\<forall>a. a < scr \<or> scr + 32 \<le> a \<longrightarrow> m' a = m1 a" by simp_all
    then show ?thesis using out by simp
  qed
qed

text \<open>One datagram is read whole; what does not fit the buffer is dropped, and a short one leaves the rest of it.\<close>

lemma packet_ok:
  assumes "w5100_recv_udp_packet chip clock v buf cap m s = Some (n, m', s')" "near u s" "u_rd u = u_ptr u"
    and "u_in u = udp_frame d @ rest" "frame_ok d" "length (u_in u) \<le> 2048"
    and "apart (v_udp_header v) 8 buf (unat cap)" "apart (v_scratch v) 32 buf (unat cap)"
  shows "(\<exists>x. near (u\<lparr>u_in := rest, u_ptr := x, u_rd := x\<rparr>) s') \<and>
    rd_bytes m' buf (unat cap) = take (unat cap) (snd d) @ drop (length (snd d)) (rd_bytes m buf (unat cap)) \<and>
    (\<forall>a. (a < v_udp_header v \<or> v_udp_header v + 8 \<le> a) \<and> (a < v_scratch v \<or> v_scratch v + 32 \<le> a) \<and> (a < buf \<or> buf + unat cap \<le> a) \<longrightarrow>
      m' a = m a)"
proof -
  let ?h = "v_udp_header v" and ?len = "of_nat (length (snd d)) :: u16"
  have dl: "length (fst d) = 6" "length (snd d) < 65536" "length (u_in u) = 8 + length (snd d) + length rest"
    using assms(4,5) by (simp_all add: frame_ok_def udp_frame_def)
  have ul: "unat ?len = length (snd d)" using dl(2) by (rule of_nat_inverse_u16)
  have h8: "take 8 (u_in u) = fst d @ [ucast (drop_bit 8 ?len), ucast ?len]" using dl(1) by (simp add: assms(4) udp_frame_def)
  obtain m1 s1 where r1: "udp_recv_bytes chip clock ?h 8 m s = Some (m1, s1)"
    using assms(1) by (cases "udp_recv_bytes chip clock ?h 8 m s") (auto simp: w5100_recv_udp_packet_def)
  have "unat (8 :: u16) \<le> length (u_in u)" using dl(3) by simp
  from recv_ok [OF r1 assms(2,3) this] have m1: "m1 = wr_bytes m ?h (take 8 (u_in u))" and n1: "near (taken u 8) s1"
    by (simp_all add: taken_def)
  have b: "m1 (?h + 6) = ucast (drop_bit 8 ?len)" "m1 (?h + 7) = ucast ?len"
    using dl(1) unfolding m1 h8 by (simp_all add: wr_bytes_apply nth_append)
  have len: "push_bit 8 (ucast (m1 (?h + 6))) OR ucast (m1 (?h + 7)) = ?len" unfolding b by (rule be_word_split)
  define c where "c = (if ?len < cap then ?len else cap)"
  have c: "unat c = min (length (snd d)) (unat cap)" using ul by (auto simp: c_def word_less_nat_alt)
  obtain m2 s2 where r2: "(if c > 0 then udp_recv_bytes chip clock buf c m1 s1 else Some (m1, s1)) = Some (m2, s2)"
    and r3: "udp_discard chip clock (v_scratch v) (?len - c) m2 s2 = Some (m', s')"
    using assms(1) r1 unfolding w5100_recv_udp_packet_def r1 bind.bind_lunit prod.case Let_def len c_def [symmetric]
    by (auto simp: bind_eq_Some_conv)
  have kc: "unat (8 + c) = 8 + unat c" using c dl(3) assms(6) by (subst unat_add_lem [THEN iffD1]) simp_all
  have "m2 = wr_bytes m1 buf (take (unat c) (snd d)) \<and> near (taken u (8 + c)) s2"
  proof (cases "c > 0")
    case True
    then have r: "udp_recv_bytes chip clock buf c m1 s1 = Some (m2, s2)" using r2 by simp
    have "unat c \<le> length (u_in (taken u 8))" using c dl(3) by simp
    from recv_ok [OF r n1 _ this] have "m2 = wr_bytes m1 buf (take (unat c) (drop 8 (u_in u)))" "near (taken (taken u 8) c) s2"
      by (simp_all add: taken_def)
    moreover have "drop 8 (u_in u) = snd d @ rest" using dl(1) by (simp add: assms(4) udp_frame_def)
    ultimately show ?thesis using taken_taken [of 8 c u] kc c by simp
  next
    case False
    then have "c = 0" by (simp add: word_less_nat_alt word_unat_eq_iff)
    then show ?thesis using r2 n1 by simp
  qed
  then have m2: "m2 = wr_bytes m1 buf (take (unat c) (snd d))" and n2: "near (taken u (8 + c)) s2" by blast+
  have rem: "unat (?len - c) = length (snd d) - unat c" using c ul by (subst unat_sub) (simp_all add: word_le_nat_alt)
  have "near (taken u (8 + c + (?len - c))) s'" and out: "\<forall>a. a < v_scratch v \<or> v_scratch v + 32 \<le> a \<longrightarrow> m' a = m2 a"
    using discard_ok [OF r3 n2] kc rem c dl(3) assms(6) by simp_all
  then have n3: "near (taken u (8 + ?len)) s'" by simp
  have "unat (8 + ?len) = 8 + length (snd d)" using ul dl(3) assms(6) by (subst unat_add_lem [THEN iffD1]) simp_all
  then have "taken u (8 + ?len) = u\<lparr>u_in := rest, u_ptr := u_ptr u + (8 + ?len), u_rd := u_ptr u + (8 + ?len)\<rparr>"
    using dl(1) by (simp add: taken_def assms(4) udp_frame_def)
  with n3 have st': "\<exists>x. near (u\<lparr>u_in := rest, u_ptr := x, u_rd := x\<rparr>) s'" by metis
  have tc: "take (unat c) (snd d) = take (unat cap) (snd d)" unfolding c by (simp add: min_def)
  have l8: "length (take 8 (u_in u)) = 8" using dl(3) by simp
  have m1a: "m1 a = m a" if "a < ?h \<or> ?h + 8 \<le> a" for a using that l8 unfolding m1 by (auto simp: wr_bytes_apply)
  have m2a: "m2 a = m1 a" if "a < buf \<or> buf + unat cap \<le> a" for a
    using that c unfolding m2 by (auto simp: wr_bytes_apply)
  have "rd_bytes m' buf (unat cap) = take (unat cap) (snd d) @ drop (length (snd d)) (rd_bytes m buf (unat cap))"
  proof (rule nth_equalityI)
    fix j
    assume "j < length (rd_bytes m' buf (unat cap))"
    then have j: "j < unat cap" by simp
    have "m' (buf + j) = m2 (buf + j)" using out j assms(8) by (auto simp: apart_def)
    moreover have "m1 (buf + j) = m (buf + j)" using m1a j assms(7) by (auto simp: apart_def)
    ultimately show "rd_bytes m' buf (unat cap) ! j = (take (unat cap) (snd d) @ drop (length (snd d)) (rd_bytes m buf (unat cap))) ! j"
      using j unfolding m2 tc by (auto simp: wr_bytes_apply nth_append min_def)
  qed simp
  then show ?thesis using st' m1a m2a out by auto
qed

text \<open>Sending: the bytes go into the transmit memory in a circle of 2 KB.\<close>

lemma ring_inj: "(ptr + of_nat a) AND S0_MASK = (ptr + of_nat b) AND S0_MASK \<Longrightarrow> a < 2048 \<Longrightarrow> b < 2048 \<Longrightarrow> a = b"
proof -
  assume "(ptr + of_nat a) AND S0_MASK = (ptr + of_nat b) AND S0_MASK" and ab: "a < 2048" "b < 2048"
  then have e: "(unat ptr + a) mod 2048 = (unat ptr + b) mod 2048" using ring_index [of ptr a] ring_index [of ptr b] by simp
  have "a \<le> b \<or> b \<le> a" by linarith
  then show "a = b"
  proof
    assume "a \<le> b"
    then have "2048 dvd b - a" using e mod_eq_dvd_iff_nat [of "unat ptr + a" "unat ptr + b" 2048] by simp
    then show ?thesis using \<open>a \<le> b\<close> ab nat_dvd_not_less [of "b - a" 2048] by (cases "a = b") auto
  next
    assume "b \<le> a"
    then have "2048 dvd a - b" using e mod_eq_dvd_iff_nat [of "unat ptr + b" "unat ptr + a" 2048] by simp
    then show ?thesis using \<open>b \<le> a\<close> ab nat_dvd_not_less [of "a - b" 2048] by (cases "a = b") auto
  qed
qed

lemma send_loop_ok:
  "near u s \<Longrightarrow> i + length bs \<le> 2048 \<Longrightarrow> \<exists>f. near (u\<lparr>u_tx := f\<rparr>) (send_loop chip ptr i bs s) \<and>
    (\<forall>j < length bs. f ((ptr + of_nat (i + j)) AND S0_MASK) = bs ! j) \<and>
    (\<forall>j < i. f ((ptr + of_nat j) AND S0_MASK) = u_tx u ((ptr + of_nat j) AND S0_MASK))"
proof (induction bs arbitrary: i u s)
  case Nil
  have "u = u\<lparr>u_tx := u_tx u\<rparr>" by simp
  then show ?case using Nil(1) by (intro exI [of _ "u_tx u"]) simp
next
  case (Cons b bs)
  let ?k = "ptr + of_nat i" and ?f = "(u_tx u)((ptr + of_nat i) AND S0_MASK := b)"
  have n: "near (u\<lparr>u_tx := ?f\<rparr>) (w5100_write chip (S0_TX_BASE + (?k AND S0_MASK)) b s)" by (rule near_write_tx [OF Cons.prems(1)])
  have "Suc i + length bs \<le> 2048" using Cons.prems(2) by simp
  from Cons.IH [OF n this] obtain f where
    f: "near (u\<lparr>u_tx := ?f, u_tx := f\<rparr>) (send_loop chip ptr (Suc i) bs (w5100_write chip (S0_TX_BASE + (?k AND S0_MASK)) b s))"
    "\<forall>j < length bs. f ((ptr + of_nat (Suc i + j)) AND S0_MASK) = bs ! j"
    "\<forall>j < Suc i. f ((ptr + of_nat j) AND S0_MASK) = ?f ((ptr + of_nat j) AND S0_MASK)"
    by auto
  have "f ((ptr + of_nat (i + j)) AND S0_MASK) = (b # bs) ! j" if "j < length (b # bs)" for j
    using that f(2,3) by (cases j) (auto simp: fun_upd_apply)
  moreover have "f ((ptr + of_nat j) AND S0_MASK) = u_tx u ((ptr + of_nat j) AND S0_MASK)" if "j < i" for j
  proof -
    have "(ptr + of_nat j) AND S0_MASK \<noteq> ?k AND S0_MASK" using ring_inj [of ptr j i] that Cons.prems(2) by auto
    then show ?thesis using f(3) that by (simp add: fun_upd_apply)
  qed
  ultimately show ?case using f(1) by (intro exI [of _ f]) simp
qed

lemma send_ok:
  assumes "udp_send_bytes chip clock bs s = Some s'" "near u s" "u_txr u = u_txw u" "length bs \<le> 2048"
  shows "\<exists>u'. near u' s' \<and> u_sent u' = u_sent u @ [(u_dest u, bs)] \<and> u_in u' = u_in u \<and> u_ptr u' = u_ptr u \<and> u_rd u' = u_rd u \<and>
    u_cfg u' = u_cfg u \<and> u_log u' = u_log u"
proof -
  obtain t s1 where t: "w5100_read16 chip S0_TX_RD s = (t, s1)" by fastforce
  obtain ptr s2 where p: "w5100_read16 chip S0_TX_WR s1 = (ptr, s2)" by fastforce
  have n1: "near u s1" by (rule read16_any [OF assms(2) t])
  have pv: "ptr = u_txw u" "near u s2" using read_txw [OF n1 p] by simp_all
  obtain f where f: "near (u\<lparr>u_tx := f\<rparr>) (send_loop chip ptr 0 bs s2)" "\<forall>j < length bs. f ((ptr + of_nat j) AND S0_MASK) = bs ! j"
    using send_loop_ok [OF pv(2), of 0 bs ptr] assms(4) by auto
  let ?u = "u\<lparr>u_tx := f, u_txw := ptr + of_nat (length bs)\<rparr>"
  have n3: "near ?u (w5100_write16 chip S0_TX_WR (ptr + of_nat (length bs)) (send_loop chip ptr 0 bs s2))"
    using near_write_txw [OF f(1)] by simp
  obtain b s4 where c: "timed_cmd chip clock CR_SEND (w5100_write16 chip S0_TX_WR (ptr + of_nat (length bs)) (send_loop chip ptr 0 bs s2)) = Some (b, s4)"
    and s': "s' = (if \<not> b then snd (w5100_read chip S0_SR s4) else s4)"
    using assms(1) t p by (auto simp: udp_send_bytes_def bind_eq_Some_conv)
  have len: "unat (u_txw ?u - u_txr ?u) = length bs"
    using assms(3,4) pv(1) by (simp add: of_nat_inverse_u16)
  then have pay: "u_payload ?u = bs"
    unfolding u_payload_def using f(2) assms(3) pv(1) by (intro nth_equalityI) auto
  have "near (?u\<lparr>u_txr := u_txw ?u, u_sent := u_sent ?u @ [(u_dest ?u, u_payload ?u)]\<rparr>) s4"
    using near_do_send [of ?u] len assms(4) by (intro cmd_near [OF c n3]) simp
  then have "near (?u\<lparr>u_txr := u_txw ?u, u_sent := u_sent ?u @ [(u_dest ?u, u_payload ?u)]\<rparr>) s'"
    unfolding s' using near_read by (cases "w5100_read chip S0_SR s4") auto
  then show ?thesis
    using pay by (intro exI [of _ "?u\<lparr>u_txr := u_txw ?u, u_sent := u_sent ?u @ [(u_dest ?u, u_payload ?u)]\<rparr>"]) (simp add: u_dest_def)
qed

text \<open>Configuration.\<close>

fun cfg_write :: "(u16 \<Rightarrow> u8) \<Rightarrow> u16 \<Rightarrow> u8 list \<Rightarrow> u16 \<Rightarrow> u8" where
  "cfg_write f reg [] = f"
| "cfg_write f reg (b # bs) = cfg_write (f(reg := b)) (reg + 1) bs"

lemma write_regs_ok:
  "near u s \<Longrightarrow> \<forall>j < length bs. reg + of_nat j \<in> cfg_regs \<Longrightarrow> near (u\<lparr>u_cfg := cfg_write (u_cfg u) reg bs\<rparr>) (write_regs chip reg bs s)"
proof (induction bs arbitrary: reg u s)
  case Nil
  have "u = u\<lparr>u_cfg := u_cfg u\<rparr>" by simp
  then show ?case using Nil by simp
next
  case (Cons b bs)
  have "reg \<in> cfg_regs" using Cons.prems(2) by force
  define f where "f = (u_cfg u)(reg := b)"
  have n: "near (u\<lparr>u_cfg := f\<rparr>) (w5100_write chip reg b s)"
    unfolding f_def using near_write_cfg [OF Cons.prems(1) \<open>reg \<in> cfg_regs\<close>] .
  have "reg + 1 + of_nat j \<in> cfg_regs" if "j < length bs" for j
  proof -
    have e: "reg + 1 + of_nat j = reg + of_nat (Suc j)" by simp
    show ?thesis unfolding e using Cons.prems(2) that by (intro Cons.prems(2) [rule_format]) simp
  qed
  with Cons.IH [OF n, of "reg + 1"] show ?case by (simp flip: f_def)
qed

lemma near_write16_cfg:
  assumes "near u s" "reg \<in> cfg_regs" "reg + 1 \<in> cfg_regs"
  shows "near (u\<lparr>u_cfg := (u_cfg u)(reg := ucast (drop_bit 8 x), reg + 1 := ucast x)\<rparr>) (w5100_write16 chip reg x s)"
  using near_write_cfg [OF near_write_cfg [OF assms(1,2)] assms(3)] by (simp add: w5100_write16_def)

lemma prepare_ok:
  assumes "dhcp_prepare chip clock v m s = Some s'" "near u s"
  shows "\<exists>u'. near u' s' \<and> u_in u' = [] \<and> u_rd u' = u_ptr u' \<and> u_txr u' = u_txw u' \<and> u_sent u' = u_sent u \<and> came u u' [] \<and>
    u_address u' = dhcp_ip \<and> u_dest u' = [255, 255, 255, 255, 0, 67]"
proof -
  let ?f1 = "cfg_write (u_cfg u) W5100_SHAR (rd_bytes m (v_mac v) 6)"
  let ?f2 = "cfg_write ?f1 W5100_SIPR dhcp_ip"
  let ?f4 = "?f2(S0_MR := 0x02, S0_PORT := 0, S0_PORT + 1 := 68)"
  have n1: "near (u\<lparr>u_cfg := ?f1\<rparr>) (w5100_set_mac chip (v_mac v) m s)"
    unfolding w5100_set_mac_def by (rule write_regs_ok [OF assms(2)])
      (auto simp: cfg_regs_def W5100_SHAR_def less_Suc_eq eval_nat_numeral)
  have n2: "near (u\<lparr>u_cfg := ?f2\<rparr>) (write_regs chip W5100_SIPR dhcp_ip (w5100_set_mac chip (v_mac v) m s))"
    using write_regs_ok [OF n1, of dhcp_ip W5100_SIPR]
    by (auto simp: cfg_regs_def W5100_SIPR_def dhcp_ip_def less_Suc_eq eval_nat_numeral)
  obtain b s4 where c: "timed_cmd chip clock CR_OPEN (w5100_write16 chip S0_PORT 68 (w5100_write chip S0_MR 0x02
      (write_regs chip W5100_SIPR dhcp_ip (w5100_set_mac chip (v_mac v) m s)))) = Some (b, s4)"
    and s': "s' = w5100_write16 chip S0_DPORT 67 (write_regs chip S0_DIPR [255, 255, 255, 255] s4)"
    using assms(1) by (auto simp: dhcp_prepare_def Let_def bind_eq_Some_conv)
  have n3: "near (u\<lparr>u_cfg := ?f2(S0_MR := 0x02)\<rparr>) (w5100_write chip S0_MR 0x02 (write_regs chip W5100_SIPR dhcp_ip (w5100_set_mac chip (v_mac v) m s)))"
    using near_write_cfg [OF n2, of S0_MR 2] by (simp add: cfg_regs_def S0_MR_def)
  define f4 where "f4 = ?f2(S0_MR := 0x02, S0_PORT := 0, S0_PORT + 1 := 68)"
  have n4: "near (u\<lparr>u_cfg := f4\<rparr>) (w5100_write16 chip S0_PORT 68 (w5100_write chip S0_MR 0x02
      (write_regs chip W5100_SIPR dhcp_ip (w5100_set_mac chip (v_mac v) m s))))"
    using near_write16_cfg [OF n3, of S0_PORT 68] by (simp add: cfg_regs_def S0_PORT_def f4_def)
  obtain t t1 where t: "get_tick_ms clock (w5100_write16 chip S0_PORT 68 (w5100_write chip S0_MR 0x02
      (write_regs chip W5100_SIPR dhcp_ip (w5100_set_mac chip (v_mac v) m s)))) = (t, t1)" by fastforce
  obtain x y xs where o: "near (u\<lparr>u_cfg := f4, u_in := [], u_ptr := x, u_rd := x, u_txr := y, u_txw := y, u_log := u_log u @ xs\<rparr>) (w5100_write chip S0_CR CR_OPEN t1)"
    using near_do_open [OF near_tick [OF n4 t]] by auto
  let ?u5 = "u\<lparr>u_cfg := f4, u_in := [], u_ptr := x, u_rd := x, u_txr := y, u_txw := y, u_log := u_log u @ xs\<rparr>"
  have n5: "near ?u5 s4" using c t cmd_loop_near [OF _ o] by (auto simp: timed_cmd_def)
  have n6: "near (?u5\<lparr>u_cfg := cfg_write f4 S0_DIPR [255, 255, 255, 255]\<rparr>) (write_regs chip S0_DIPR [255, 255, 255, 255] s4)"
    using write_regs_ok [OF n5, of "[255, 255, 255, 255]" S0_DIPR]
    by (auto simp: cfg_regs_def S0_DIPR_def less_Suc_eq eval_nat_numeral)
  define f7 where "f7 = (cfg_write f4 S0_DIPR [255, 255, 255, 255])(S0_DPORT := 0, S0_DPORT + 1 := 67)"
  have n7: "near (?u5\<lparr>u_cfg := f7\<rparr>) s'"
    unfolding s' using near_write16_cfg [OF n6, of S0_DPORT 67] by (simp add: cfg_regs_def S0_DPORT_def f7_def)
  have "map f7 [0x000F, 0x0010, 0x0011, 0x0012] = dhcp_ip" "map f7 [0x040C, 0x040D, 0x040E, 0x040F, 0x0410, 0x0411] = [255, 255, 255, 255, 0, 67]"
    by (simp_all add: f7_def f4_def fun_upd_apply S0_DIPR_def S0_DPORT_def S0_PORT_def S0_MR_def W5100_SIPR_def dhcp_ip_def)
  then show ?thesis using n7 by (intro exI [of _ "?u5\<lparr>u_cfg := f7\<rparr>"]) (simp add: u_address_def u_dest_def came_def)
qed

lemma close_ok:
  assumes "dhcp_close chip clock r counter m s = Some (r', counter', m', s')" "near u s"
  shows "r' = r \<and> counter' = counter \<and> m' = m \<and> (\<exists>u'. near u' s' \<and> u_cfg u' = u_cfg u \<and> u_sent u' = u_sent u \<and> came u u' [])"
proof -
  obtain t t1 where t: "get_tick_ms clock s = (t, t1)" by fastforce
  obtain u' where u': "near u' (w5100_write chip S0_CR CR_CLOSE t1)" "u_cfg u' = u_cfg u" "u_sent u' = u_sent u" "came u u' []"
    using near_do_close [OF near_tick [OF assms(2) t]] by blast
  then show ?thesis using assms(1) t cmd_loop_near [OF _ u'(1)] by (auto simp: dhcp_close_def timed_cmd_def bind_eq_Some_conv)
qed

text \<open>A message goes out as one datagram.\<close>

lemma enviar_ok:
  assumes "enviar_pacote_dhcp chip clock v t xid (v_mac v) hostname ip srv m s = Some (m', s')" "near u s" "u_txr u = u_txw u"
    and "dhcp_layout v hostname (length host)" "given v hostname host m" "length host \<le> 57"
    and ptrs: "ip \<in> {0, v_offered_ip v}" "srv \<in> {0, v_server_ip v}"
    and req: "req = (if t = DHCP_REQUEST \<and> ip \<noteq> 0 \<and> srv \<noteq> 0 then Some (rd_bytes m ip 4, rd_bytes m srv 4) else None)"
  shows "same_but [(v_pkt v, 320)] m m' \<and> (\<exists>u'. near u' s' \<and> u_sent u' = u_sent u @ [(u_dest u, dhcp_packet t xid dhcp_mac req host)] \<and>
    u_in u' = u_in u \<and> u_ptr u' = u_ptr u \<and> u_rd u' = u_rd u \<and> u_cfg u' = u_cfg u \<and> u_log u' = u_log u)"
proof -
  note ap = layout_apart [OF assms(4)]
  have mac: "rd_bytes m (v_mac v) 6 = dhcp_mac" using assms(5) by (simp add: given_def)
  have room: "length (opts_bytes (request_opts t req host)) < 80"
    using assms(6) req by (auto simp: opts_bytes_def request_opts_def)
  have "ip \<noteq> 0 \<Longrightarrow> apart ip 4 (v_pkt v) 320" "srv \<noteq> 0 \<Longrightarrow> apart srv 4 (v_pkt v) 320" using ptrs ap(5,6) by auto
  from build_ok [OF ap(3) given_cstr [OF assms(5)] ap(4) this req room refl, of xid] obtain m1 n where
    b: "build_dhcp m (v_pkt v) t xid (v_mac v) hostname ip srv = Some (m1, n)" "unat n \<le> 320"
      "rd_bytes m1 (v_pkt v) (unat n) = dhcp_packet t xid dhcp_mac req host"
      "\<forall>a. a < v_pkt v \<or> v_pkt v + 320 \<le> a \<longrightarrow> m1 a = m a"
    unfolding mac by blast
  have e: "udp_send_bytes chip clock (dhcp_packet t xid dhcp_mac req host) s = Some s'" "m' = m1"
    using assms(1) b(1,3) by (auto simp: enviar_pacote_dhcp_def bind_eq_Some_conv)
  have "length (dhcp_packet t xid dhcp_mac req host) \<le> 2048"
    using b(2) unfolding b(3) [symmetric] by simp
  from send_ok [OF e(1) assms(2,3) this] show ?thesis using e(2) b(4) by (auto simp: same_but_def)
qed

text \<open>An answer: a wait that succeeds, and the datagram that was first.\<close>

lemma answer_ok:
  assumes "holds_in u (unat (of_nat OFF_OPTIONS :: u16)) s" "u_in u = []" "u_rd u = u_ptr u" "dhcp_layout v hostname k"
    and "w5100_recv_udp_packet chip clock v (v_rx_buf v) (of_nat DHCP_PKT_BUF_SIZE) m s = Some (n, m', s')"
  shows "same_but [(v_udp_header v, 8), (v_scratch v, 32), (v_rx_buf v, 320)] m m' \<and>
    (\<exists>d u'. rd_bytes m' (v_rx_buf v) 320 = take 320 (snd d) @ drop (length (snd d)) (rd_bytes m (v_rx_buf v) 320) \<and>
       near u' s' \<and> u_cfg u' = u_cfg u \<and> u_sent u' = u_sent u \<and> came u u' [d])"
proof -
  note ap = layout_apart [OF assms(4)]
  obtain ds where ds: "list_all frame_ok ds" "st (arrived u ds) s" "240 \<le> length (frames ds)"
    using assms(1,2) by (auto simp: holds_in_def OFF_OPTIONS_def)
  then obtain d ds' where d: "ds = d # ds'" by (cases ds) (auto simp: frames_def)
  have cap: "unat (of_nat DHCP_PKT_BUF_SIZE :: u16) = 320" by (simp add: DHCP_PKT_BUF_SIZE_def)
  have "u_in (arrived u ds) = udp_frame d @ frames ds'" using assms(2) d by (simp add: frames_def)
  from packet_ok [OF assms(5) st_near [OF ds(2)] _ this _ in_bound [OF ds(2)]] assms(3) ds(1) d ap(1,2)
  obtain x where "near ((arrived u ds)\<lparr>u_in := frames ds', u_ptr := x, u_rd := x\<rparr>) s'"
    "rd_bytes m' (v_rx_buf v) 320 = take 320 (snd d) @ drop (length (snd d)) (rd_bytes m (v_rx_buf v) 320)"
    "\<forall>a. (a < v_udp_header v \<or> v_udp_header v + 8 \<le> a) \<and> (a < v_scratch v \<or> v_scratch v + 32 \<le> a) \<and>
      (a < v_rx_buf v \<or> v_rx_buf v + 320 \<le> a) \<longrightarrow> m' a = m a"
    unfolding cap by auto
  moreover have "came u ((arrived u ds)\<lparr>u_in := frames ds', u_ptr := x, u_rd := x\<rparr>) [d]" by (auto simp: came_def d)
  ultimately show ?thesis
    by (intro conjI exI [of _ d] exI [of _ "(arrived u ds)\<lparr>u_in := frames ds', u_ptr := x, u_rd := x\<rparr>"]) (auto simp: same_but_def)
qed

lemma set_address:
  assumes "near u s" "length ip = 4"
  shows "\<exists>u'. near u' (write_regs chip W5100_SIPR ip s) \<and> u_address u' = ip \<and> u_sent u' = u_sent u \<and> u_log u' = u_log u"
proof -
  obtain a b c d where ip: "ip = [a, b, c, d]" using assms(2) by (auto simp: length_Suc_conv eval_nat_numeral)
  define g where "g = cfg_write (u_cfg u) W5100_SIPR ip"
  have "near (u\<lparr>u_cfg := g\<rparr>) (write_regs chip W5100_SIPR ip s)"
    unfolding g_def using write_regs_ok [OF assms(1), of ip W5100_SIPR]
    by (auto simp: ip cfg_regs_def W5100_SIPR_def less_Suc_eq eval_nat_numeral)
  moreover have "map g [0x000F, 0x0010, 0x0011, 0x0012] = ip" by (simp add: g_def ip fun_upd_apply W5100_SIPR_def)
  ultimately show ?thesis by (intro exI [of _ "u\<lparr>u_cfg := g\<rparr>"]) (simp add: u_address_def)
qed

text \<open>A wait that failed, at the end of a run: what is known of such a run holds.\<close>

definition late_by :: "'s \<Rightarrow> (nat \<Rightarrow> bool) \<Rightarrow> bool" where
  "late_by s' late \<longleftrightarrow> (\<forall>L w k a b c m r c' m'. near w a \<and> L \<le> 5000 \<and>
     wait_rx_at_least chip clock k (of_nat (10 * L)) a = Some (False, b) \<and>
     dhcp_close chip clock 0 c m b = Some (r, c', m', s') \<longrightarrow> late L)"

lemma late_byD:
  "late_by s' late \<Longrightarrow> near w a \<Longrightarrow> L \<le> 5000 \<Longrightarrow> wait_rx_at_least chip clock k (of_nat (10 * L)) a = Some (False, b) \<Longrightarrow>
   dhcp_close chip clock 0 c m b = Some (r, c', m', s') \<Longrightarrow> late L"
  unfolding late_by_def by blast

lemma request_phase_ok:
  assumes "dhcp_request_phase chip clock v hostname xid counter m s = Some (r, counter', m', s')" "near u s"
    and lay: "dhcp_layout v hostname (length host)" and given: "given v hostname host m" and host: "length host \<le> 57"
    and ips: "ip = rd_bytes m (v_offered_ip v) 4" "srv = rd_bytes m (v_server_ip v) 4"
    and late: "late_by s' late"
  shows "\<exists>u'. near u' s' \<and> u_sent u' = u_sent u @ [(bcast, dhcp_packet DHCP_REQUEST xid dhcp_mac (Some (ip, srv)) host)] \<and>
    came u u' [] \<and> ack_outcome v late m u [] r u'"
proof -
  note ap = layout_apart [OF lay]
  have nz: "v_offered_ip v \<noteq> 0" "v_server_ip v \<noteq> 0" using lay by (simp_all add: dhcp_layout_def)
  obtain s1 where p: "dhcp_prepare chip clock v m s = Some s1"
    using assms(1) by (auto simp: dhcp_request_phase_def bind_eq_Some_conv)
  obtain u1 where u1: "near u1 s1" "u_in u1 = []" "u_rd u1 = u_ptr u1" "u_txr u1 = u_txw u1" "u_sent u1 = u_sent u"
    "u_address u1 = dhcp_ip" "u_dest u1 = bcast" "came u u1 []"
    using prepare_ok [OF p assms(2)] by (auto simp: bcast_def)
  obtain m2 s2 where e: "enviar_pacote_dhcp chip clock v DHCP_REQUEST xid (v_mac v) hostname (v_offered_ip v) (v_server_ip v) m s1 = Some (m2, s2)"
    using assms(1) p by (auto simp: dhcp_request_phase_def bind_eq_Some_conv)
  from enviar_ok [OF e u1(1,4) lay given host, of "Some (ip, srv)"] nz ips u1(2,3,5,7) obtain u2 where
    m2: "same_but [(v_pkt v, 320)] m m2" and u2: "near u2 s2" "u_in u2 = []" "u_rd u2 = u_ptr u2" "u_cfg u2 = u_cfg u1"
      "u_sent u2 = u_sent u @ [(bcast, dhcp_packet DHCP_REQUEST xid dhcp_mac (Some (ip, srv)) host)]"
      "u_log u2 = u_log u1"
    by auto
  have c2: "came u u2 []" using u1(8) by (simp add: came_def u2(6))
  have addr: "u_address w = dhcp_ip" if "u_cfg w = u_cfg u2" for w using u1(6) u2(4) that by (simp add: u_address_def)
  obtain b s3 where w: "wait_rx_at_least chip clock (of_nat OFF_OPTIONS) 50000 s2 = Some (b, s3)"
    using assms(1) p e by (auto simp: dhcp_request_phase_def bind_eq_Some_conv)
  have w': "near u2 s3" "b \<Longrightarrow> holds_in u2 (unat (of_nat OFF_OPTIONS :: u16)) s3" using wait_ok [OF w u2(1)] by blast+
  have closed: ?thesis if cl: "dhcp_close chip clock 0 counter ma t = Some (r, counter', m', s')" and nw: "near w t"
    and sw: "u_cfg w = u_cfg u2" "u_sent w = u_sent u2" "came u2 w before"
    and why: "late 5000 \<or> (\<exists>d t ma mb. before = [d] \<and> answer v (snd d) (v_server_ip2 v) m ma t mb \<and> t \<noteq> DHCP_ACK)" for ma t w before
  proof -
    obtain u' where u': "r = 0" "near u' s'" "u_cfg u' = u_cfg u2" "u_sent u' = u_sent u2" "came w u' []"
      using close_ok [OF cl nw] sw by auto
    have "came u u' before" by (rule came_after(2) [OF came_after(1) [OF c2 sw(3)] u'(5)])
    then show ?thesis using addr u2(5) u' why came_any unfolding ack_outcome_def by fastforce
  qed
  show ?thesis
  proof (cases b)
    case False
    then have cl: "dhcp_close chip clock 0 counter m2 s3 = Some (r, counter', m', s')"
      using assms(1) p e w by (simp add: dhcp_request_phase_def)
    have "wait_rx_at_least chip clock (of_nat OFF_OPTIONS) (of_nat (10 * 5000)) s2 = Some (False, s3)" using w False by simp
    then have "late 5000" by (rule late_byD [OF late u2(1) order_refl _ cl])
    then show ?thesis using closed [OF cl w'(1) refl refl came_same [OF refl]] by blast
  next
    case True
    obtain n m3 s4 where k: "w5100_recv_udp_packet chip clock v (v_rx_buf v) (of_nat DHCP_PKT_BUF_SIZE) m2 s3 = Some (n, m3, s4)"
      using assms(1) p e w True by (auto simp: dhcp_request_phase_def bind_eq_Some_conv)
    from answer_ok [OF w'(2) [OF True] u2(2,3) lay k] obtain d u4 where
      d: "rd_bytes m3 (v_rx_buf v) 320 = take 320 (snd d) @ drop (length (snd d)) (rd_bytes m2 (v_rx_buf v) 320)"
      and u4: "near u4 s4" "u_cfg u4 = u_cfg u2" "u_sent u4 = u_sent u2" "came u2 u4 [d]" by blast
    define ma where "ma = wr_bytes m3 (v_server_ip2 v) [0, 0, 0, 0]"
    have "rd_bytes ma (v_rx_buf v) 320 = rd_bytes m3 (v_rx_buf v) 320"
      using same_rd [OF same_wr [of "[0, 0, 0, 0]" 4 "v_server_ip2 v" m3]] ap(21) by (simp add: ma_def)
    moreover have "rd_bytes m2 (v_rx_buf v) 320 = rd_bytes m (v_rx_buf v) 320" using same_rd [OF m2] ap(7) by simp
    ultimately have da: "rd_bytes ma (v_rx_buf v) 320 = take 320 (snd d) @ drop (length (snd d)) (rd_bytes m (v_rx_buf v) 320)" using d by simp
    have cap: "of_nat DHCP_PKT_BUF_SIZE = (320 :: u16)" by (simp add: DHCP_PKT_BUF_SIZE_def)
    obtain t mb where q: "parse_dhcp_options ma (v_rx_buf v) 320 (v_server_ip2 v) = Some (t, mb)"
      and fin: "(if t = DHCP_NAK then dhcp_close chip clock 0 counter mb s4
         else if t \<noteq> DHCP_ACK then dhcp_close chip clock 0 counter mb s4
         else dhcp_close chip clock 1 counter mb (write_regs chip W5100_SIPR (rd_bytes mb (v_rx_buf v + OFF_YIADDR) 4) s4)) = Some (r, counter', m', s')"
      using assms(1) p e w True k unfolding dhcp_request_phase_def cap
      by (auto simp: bind_eq_Some_conv Let_def ma_def)
    have "rd_bytes ma (v_server_ip2 v) 4 = [0, 0, 0, 0]" unfolding ma_def by (rule rd_wr_bytes_same) simp
    then have ans: "answer v (snd d) (v_server_ip2 v) m ma t mb" using da q by (simp add: answer_def)
    show ?thesis
    proof (cases "t = DHCP_ACK")
      case False
      then have "dhcp_close chip clock 0 counter mb s4 = Some (r, counter', m', s')" using fin by (auto split: if_splits)
      then show ?thesis using closed [OF _ u4] ans False by blast
    next
      case ack: True
      let ?ip = "rd_bytes mb (v_rx_buf v + OFF_YIADDR) 4"
      have "same_but [(v_server_ip2 v, 4)] ma mb" by (rule same_parse [OF q])
      then have yi: "?ip = rd_bytes ma (v_rx_buf v + 16) 4"
        using same_rd apart_sub [OF ap(21), of 16 4] by (simp add: OFF_YIADDR_def)
      obtain u5 where u5: "near u5 (write_regs chip W5100_SIPR ?ip s4)" "u_address u5 = ?ip" "u_sent u5 = u_sent u2" "u_log u5 = u_log u4"
        using set_address [OF u4(1), of ?ip] u4(3) by auto
      have "dhcp_close chip clock 1 counter mb (write_regs chip W5100_SIPR ?ip s4) = Some (r, counter', m', s')"
        using fin ack by (simp add: DHCP_ACK_def DHCP_NAK_def)
      from close_ok [OF this u5(1)] obtain u' where u': "r = 1" "near u' s'" "u_cfg u' = u_cfg u5" "u_sent u' = u_sent u5" "came u5 u' []" by blast
      have ad: "u_address u' = rd_bytes ma (v_rx_buf v + 16) 4" using u'(3) u5(2) yi by (simp add: u_address_def)
      have cd: "came u u' [d]"
        using came_after(2) [OF came_after(1) [OF c2 u4(4)]] u'(5) came_log(1) [OF u5(4)] by blast
      then have "ack_outcome v late m u [] r u'"
        unfolding ack_outcome_def using u'(1) ad ans [unfolded ack] by (metis append_Nil)
      then show ?thesis using u' u5(3) u2(5) came_any [OF cd] by auto
    qed
  qed
qed

lemma request_ok:
  assumes "w5100_dhcp_request chip clock v hostname counter m s = Some (r, counter', m', s')" "near u s"
    and lay: "dhcp_layout v hostname (length host)" and host: "cstr m hostname host" "length host \<le> 57"
    and late: "late_by s' late"
  shows "\<exists>u'. near u' s' \<and> dhcp_outcome v late (fst (next_xid counter)) host m u r u'"
proof -
  note ap = layout_apart [OF lay]
  have nz: "v_offered_ip v \<noteq> 0" "v_server_ip v \<noteq> 0" using lay by (simp_all add: dhcp_layout_def)
  let ?xid = "fst (next_xid counter)"
  define m1 where "m1 = wr_bytes (wr_bytes (wr_bytes m (v_mac v) dhcp_mac) (v_offered_ip v) [0, 0, 0, 0]) (v_server_ip v) [0, 0, 0, 0]"
  note run = assms(1) [unfolded w5100_dhcp_request_def Let_def, folded m1_def]
  have s1: "same_but [(v_mac v, 6), (v_offered_ip v, 4), (v_server_ip v, 4)] m m1"
    by (auto simp: same_but_def m1_def wr_bytes_apply dhcp_mac_def)
  have rx1: "rd_bytes m1 (v_rx_buf v) 320 = rd_bytes m (v_rx_buf v) 320" using same_rd [OF s1] ap(19,20,23) by simp
  have g1: "given v hostname host m1" unfolding m1_def by (rule given_start [OF lay host(1)])
  obtain t1 where p: "dhcp_prepare chip clock v m1 s = Some t1"
    using run by (auto simp: bind_eq_Some_conv)
  obtain u1 where u1: "near u1 t1" "u_in u1 = []" "u_rd u1 = u_ptr u1" "u_txr u1 = u_txw u1" "u_sent u1 = u_sent u"
    "u_address u1 = dhcp_ip" "u_dest u1 = bcast" "came u u1 []"
    using prepare_ok [OF p assms(2)] by (auto simp: bcast_def)
  obtain xid c1 where x: "next_xid counter = (xid, c1)" by fastforce
  obtain m2 t2 where e: "enviar_pacote_dhcp chip clock v DHCP_DISCOVER xid (v_mac v) hostname 0 0 m1 t1 = Some (m2, t2)"
    using run p x by (auto simp: bind_eq_Some_conv)
  let ?disc = "(bcast, dhcp_packet DHCP_DISCOVER xid dhcp_mac None host)"
  from enviar_ok [OF e u1(1,4) lay g1 host(2), of None] u1(2,3,5,7) obtain u2 where
    m2: "same_but [(v_pkt v, 320)] m1 m2" and u2: "near u2 t2" "u_in u2 = []" "u_rd u2 = u_ptr u2" "u_cfg u2 = u_cfg u1"
      "u_sent u2 = u_sent u @ [?disc]" "u_log u2 = u_log u1"
    by auto
  have c2: "came u u2 []" using u1(8) by (simp add: came_def u2(6))
  have addr: "u_address w = dhcp_ip" if "u_cfg w = u_cfg u2" for w using u1(6) u2(4) that by (simp add: u_address_def)
  obtain b t3 where w: "wait_rx_at_least chip clock (of_nat OFF_OPTIONS) DHCP_WAIT_TIMEOUT_MS t2 = Some (b, t3)"
    using run p x e by (auto simp: bind_eq_Some_conv)
  have w': "near u2 t3" "b \<Longrightarrow> holds_in u2 (unat (of_nat OFF_OPTIONS :: u16)) t3" using wait_ok [OF w u2(1)] by blast+
  have closed: ?thesis if cl: "dhcp_close chip clock 0 c1 ma t = Some (r, counter', m', s')" and nw: "near w t"
    and sw: "u_cfg w = u_cfg u2" "u_sent w = u_sent u2" "came u2 w before"
    and why: "late 3000 \<or> (\<exists>d t ma mb. before = [d] \<and> answer v (snd d) (v_server_ip v) m ma t mb \<and> t \<noteq> DHCP_OFFER)" for ma t w before
  proof -
    obtain u' where u': "r = 0" "near u' s'" "u_cfg u' = u_cfg u2" "u_sent u' = u_sent u2" "came w u' []"
      using close_ok [OF cl nw] sw by auto
    have "came u u' before" by (rule came_after(2) [OF came_after(1) [OF c2 sw(3)] u'(5)])
    then have "dhcp_outcome v late xid host m u r u'"
      using addr u2(5) u' why unfolding dhcp_outcome_def Let_def by fastforce
    then show ?thesis using u'(2) x by auto
  qed
  show ?thesis
  proof (cases b)
    case False
    then have cl: "dhcp_close chip clock 0 c1 m2 t2' = Some (r, counter', m', s')" if "t3 = t2'" for t2'
      using run p x e w that by simp
    have "wait_rx_at_least chip clock (of_nat OFF_OPTIONS) (of_nat (10 * 3000)) t2 = Some (False, t3)"
      using w False by (simp add: DHCP_WAIT_TIMEOUT_MS_def)
    from late_byD [OF late u2(1) _ this cl [OF refl]] have "late 3000" by simp
    then show ?thesis using closed [OF cl [OF refl] w'(1) refl refl came_same [OF refl]] by blast
  next
    case True
    obtain n m3 t4 where k: "w5100_recv_udp_packet chip clock v (v_rx_buf v) (of_nat DHCP_PKT_BUF_SIZE) m2 t3 = Some (n, m3, t4)"
      using run p x e w True by (auto simp: bind_eq_Some_conv)
    from answer_ok [OF w'(2) [OF True] u2(2,3) lay k] obtain d u4 where
      m3: "same_but [(v_udp_header v, 8), (v_scratch v, 32), (v_rx_buf v, 320)] m2 m3"
      and d: "rd_bytes m3 (v_rx_buf v) 320 = take 320 (snd d) @ drop (length (snd d)) (rd_bytes m2 (v_rx_buf v) 320)"
      and u4: "near u4 t4" "u_cfg u4 = u_cfg u2" "u_sent u4 = u_sent u2" "came u2 u4 [d]" by blast
    define ma where "ma = fst (memcpy m3 (v_offered_ip v) (v_rx_buf v + OFF_YIADDR) 4)"
    have sa: "same_but [(v_offered_ip v, 4)] m3 ma" unfolding ma_def by (rule same_copy)
    have rxa: "rd_bytes ma (v_rx_buf v) 320 = rd_bytes m3 (v_rx_buf v) 320" using same_rd [OF sa] ap(19) by simp
    have rx2: "rd_bytes m2 (v_rx_buf v) 320 = rd_bytes m1 (v_rx_buf v) 320" using same_rd [OF m2] ap(7) by simp
    have cap: "of_nat DHCP_PKT_BUF_SIZE = (320 :: u16)" by (simp add: DHCP_PKT_BUF_SIZE_def)
    obtain t mb where q: "parse_dhcp_options ma (v_rx_buf v) 320 (v_server_ip v) = Some (t, mb)"
      and fin: "(if t \<noteq> DHCP_OFFER then dhcp_close chip clock 0 c1 mb t4
         else dhcp_request_phase chip clock v hostname xid c1 (if rd_bytes mb (v_server_ip v) 4 = [0, 0, 0, 0]
           then fst (memcpy mb (v_server_ip v) (v_rx_buf v + OFF_SIADDR) 4) else mb) t4) = Some (r, counter', m', s')"
      using run p x e w True k unfolding cap
      by (auto simp: bind_eq_Some_conv Let_def ma_def)
    have "rd_bytes m1 (v_server_ip v) 4 = [0, 0, 0, 0]" unfolding m1_def by (rule rd_wr_bytes_same) simp
    then have "rd_bytes ma (v_server_ip v) 4 = [0, 0, 0, 0]" using same_rd [OF sa] same_rd [OF m3] same_rd [OF m2] ap(6,24-27) by simp
    then have ans: "answer v (snd d) (v_server_ip v) m ma t mb" using d rxa rx1 rx2 q by (simp add: answer_def)
    show ?thesis
    proof (cases "t = DHCP_OFFER")
      case False
      then have "dhcp_close chip clock 0 c1 mb t4 = Some (r, counter', m', s')" using fin by auto
      then show ?thesis using closed [OF _ u4] ans False by blast
    next
      case offer: True
      have sb: "same_but [(v_server_ip v, 4)] ma mb" by (rule same_parse [OF q])
      define m6 where "m6 = (if rd_bytes mb (v_server_ip v) 4 = [0, 0, 0, 0]
           then fst (memcpy mb (v_server_ip v) (v_rx_buf v + OFF_SIADDR) 4) else mb)"
      have s6: "same_but [(v_server_ip v, 4)] mb m6"
        unfolding m6_def using same_copy by (auto simp: same_but_def)
      have g6: "given v hostname host m6"
        using given_same [OF given_same [OF given_same [OF given_same [OF given_same [OF g1 m2] m3] sa] sb] s6] ap by simp
      have yi: "rd_bytes m6 (v_offered_ip v) 4 = rd_bytes ma (v_rx_buf v + 16) 4"
      proof -
        have "apart (v_offered_ip v) 4 (v_rx_buf v + 16) 4" "apart (v_rx_buf v + 16) 4 (v_offered_ip v) 4"
          using apart_sub [OF ap(19), of 16 4] by (simp_all add: apart_commute)
        then have "rd_bytes ma (v_offered_ip v) 4 = rd_bytes ma (v_rx_buf v + 16) 4"
          by (simp add: ma_def memcpy_apart OFF_YIADDR_def rd_wr_bytes_same rd_wr_bytes_apart)
        then show ?thesis using same_rd [OF s6, of "v_offered_ip v" 4] same_rd [OF sb, of "v_offered_ip v" 4] ap(22) by simp
      qed
      have srv: "rd_bytes m6 (v_server_ip v) 4 = offer_server v ma mb"
      proof -
        have a: "apart (v_server_ip v) 4 (v_rx_buf v + 20) 4" "apart (v_rx_buf v + 20) 4 (v_server_ip v) 4"
          using apart_sub [OF ap(20), of 20 4] by (simp_all add: apart_commute)
        then have "rd_bytes mb (v_rx_buf v + 20) 4 = rd_bytes ma (v_rx_buf v + 20) 4" using same_rd [OF sb] by simp
        then show ?thesis using a
          by (simp add: m6_def offer_server_def Let_def memcpy_apart OFF_SIADDR_def rd_wr_bytes_same)
      qed
      have "dhcp_request_phase chip clock v hostname xid c1 m6 t4 = Some (r, counter', m', s')"
        using fin offer by (simp flip: m6_def)
      from request_phase_ok [OF this u4(1) lay g6 host(2) refl refl late] obtain u' where
        u': "near u' s'" "u_sent u' = u_sent u4 @ [(bcast, dhcp_packet DHCP_REQUEST xid dhcp_mac
          (Some (rd_bytes m6 (v_offered_ip v) 4, rd_bytes m6 (v_server_ip v) 4)) host)]"
        "ack_outcome v late m6 u4 [] r u'" "came u4 u' []"
        by blast
      have cd: "came u u' [d]" by (rule came_after(2) [OF came_after(1) [OF c2 u4(4)] u'(4)])
      have "rd_bytes m6 (v_rx_buf v) 320 = rd_bytes ma (v_rx_buf v) 320"
        using same_rd [OF s6] same_rd [OF sb] ap(20) by simp
      from ack_outcome_after [OF came_after(1) [OF c2 u4(4)] u'(3) this]
      have out: "ack_outcome v late ma u [d] r u'" .
      have sent: "u_sent u' = u_sent u @ [?disc, (bcast, dhcp_packet DHCP_REQUEST xid dhcp_mac
          (Some (rd_bytes ma (v_rx_buf v + 16) 4, offer_server v ma mb)) host)]"
        using u'(2) u4(3) u2(5) yi srv by simp
      have "dhcp_outcome v late xid host m u r u'"
        unfolding dhcp_outcome_def Let_def using ans offer sent out cd by blast
      then show ?thesis using u'(1) x by auto
    qed
  qed
qed

lemma read_regs_ok:
  "near u s \<Longrightarrow> \<forall>i < n. reg + of_nat i \<in> cfg_regs \<Longrightarrow> read_regs chip reg n s = (bs, s') \<Longrightarrow>
   bs = map (\<lambda>i. u_cfg u (reg + of_nat i)) [0..<n] \<and> near u s'"
proof (induction n arbitrary: reg bs s)
  case (Suc n)
  obtain b s1 where b: "w5100_read chip reg s = (b, s1)" by fastforce
  obtain ds where ds: "st (arrived u ds) s" using Suc.prems(1) by (rule nearE)
  have "b = u_cfg u reg" using read_cfg [OF ds _ b] Suc.prems(2) by fastforce
  moreover have "\<forall>i < n. reg + 1 + of_nat i \<in> cfg_regs" using Suc.prems(2) by (auto simp: add.assoc dest: spec [of _ "Suc _"])
  moreover have "map (\<lambda>i. u_cfg u (reg + of_nat i)) [0..<Suc n] = u_cfg u reg # map (\<lambda>i. u_cfg u (reg + 1 + of_nat i)) [0..<n]"
    by (simp add: upt_conv_Cons map_Suc_upt [symmetric] add.assoc del: upt_Suc)
  ultimately show ?case
    using Suc.IH [OF near_read [OF Suc.prems(1) b], of "reg + 1"] Suc.prems(3) b by (auto simp del: upt_Suc split: prod.splits)
qed simp

lemma read_address: "near u s \<Longrightarrow> read_regs chip W5100_SIPR 4 s = (bs, s') \<Longrightarrow> bs = u_address u \<and> near u s'"
  using read_regs_ok [of u s 4 W5100_SIPR bs s']
  by (auto simp: u_address_def cfg_regs_def W5100_SIPR_def less_Suc_eq eval_nat_numeral)

end

end
