(* ===== verification/Dhcp_Time.thy ===== *)
theory Dhcp_Time
  imports Dhcp_Client
begin

text \<open>
  The DHCP client comes to an end: its commands and waits are bounded by the clock, the size of the received
  data is read until it is stable in a ring that only fills, and the rest is bounded by lengths. The locale
  \<open>udp_timed\<close> adds the clock to \<open>udp_chip\<close>: one tick in ten milliseconds. \<open>udp_demo\<close> is a chip with a
  server behind it, on which both locales are interpreted; the properties of the client close the theory.
\<close>

section \<open>Time\<close>

text \<open>\<open>time\<close> counts the ticks and \<open>idle\<close> the accesses up to the next one: an access is much shorter than a tick.\<close>

definition later :: "('s \<Rightarrow> nat) \<Rightarrow> ('s \<Rightarrow> nat) \<Rightarrow> 's \<Rightarrow> 's \<Rightarrow> bool" where
  "later time idle s s' \<longleftrightarrow> time s < time s' \<or> time s = time s' \<and> idle s' < idle s"

definition ticks :: "('s \<Rightarrow> nat) \<Rightarrow> ('s \<Rightarrow> nat) \<Rightarrow> 's \<Rightarrow> 's \<Rightarrow> bool" where
  "ticks time idle s s' \<longleftrightarrow> later time idle s s' \<and> time s' \<le> Suc (time s)"

definition sooner :: "('s \<Rightarrow> nat) \<Rightarrow> ('s \<Rightarrow> nat) \<Rightarrow> nat \<Rightarrow> ('s \<times> 's) set" where
  "sooner time idle T = inv_image (less_than <*lex*> less_than) (\<lambda>s. (T - time s, idle s))"

lemma wf_sooner: "wf (sooner time idle T)"
  by (auto simp: sooner_def)

lemma later_trans: "later time idle s s' \<Longrightarrow> later time idle s' s'' \<Longrightarrow> later time idle s s''"
  by (auto simp: later_def)

lemma later_le: "later time idle s s' \<Longrightarrow> time s \<le> time s'"
  by (auto simp: later_def)

lemma later_sooner: "later time idle s s' \<Longrightarrow> time s < T \<Longrightarrow> (s', s) \<in> sooner time idle T"
  by (auto simp: later_def sooner_def)

text \<open>The clock wraps around, but a difference of times does not.\<close>

lemma unat_ten: "n \<le> 100000 \<Longrightarrow> unat (of_nat (10 * n) :: u32) = 10 * n"
  by (rule Word.of_nat_inverse [OF refl]) simp

lemma elapsed:
  assumes "T \<le> x" "x - T \<le> 100000"
  shows "unat ((of_nat x * 10 :: u32) - of_nat T * 10) = 10 * (x - T)"
proof -
  have "(of_nat x * 10 :: u32) - of_nat T * 10 = of_nat (10 * (x - T))"
    using assms(1) by (simp add: of_nat_diff algebra_simps)
  then show ?thesis using unat_ten [OF assms(2)] by simp
qed

lemma dhcp_outcome_mono:
  "dhcp_outcome v late xid host m u r u' \<Longrightarrow> (\<And>L. late L \<Longrightarrow> late' L) \<Longrightarrow> dhcp_outcome v late' xid host m u r u'"
  unfolding dhcp_outcome_def ack_outcome_def Let_def by blast

lemma dhcp_outcome_result: "dhcp_outcome v late xid host m u r u' \<Longrightarrow> r = 0 \<or> r = 1"
  unfolding dhcp_outcome_def ack_outcome_def Let_def by blast

locale udp_timed = udp_chip chip clock st near for chip :: "'s w5100" and clock st near +
  fixes time idle :: "'s \<Rightarrow> nat"
  assumes clock_value: "clock s = (t, s') \<Longrightarrow> t = of_nat (time s)"
    and clock_ticks: "clock s = (t, s') \<Longrightarrow> ticks time idle s s'"
    and read_ticks: "w5100_read chip a s = (v, s') \<Longrightarrow> ticks time idle s s'"
    and write_ticks: "ticks time idle s (w5100_write chip a b s)"
begin

abbreviation past :: "'s \<Rightarrow> 's \<Rightarrow> bool" where "past \<equiv> later time idle"

lemma tick_ms: "get_tick_ms clock s = (t, s') \<Longrightarrow> t = of_nat (time s) * 10 \<and> ticks time idle s s'"
  using clock_value clock_ticks by (auto simp: get_tick_ms_def split: prod.splits)

lemma cmd_loop_returns: "T \<le> time s \<Longrightarrow> time s \<le> T + 60 \<Longrightarrow> \<exists>r. timed_cmd_loop chip clock (of_nat T * 10) s = Some r"
proof (induction s rule: wf_induct_rule [OF wf_sooner [of time idle "T + 100"]])
  case (1 s)
  obtain v s1 where v: "w5100_read chip S0_CR s = (v, s1)" by fastforce
  obtain t s2 where t: "get_tick_ms clock s1 = (t, s2)" by fastforce
  have k: "ticks time idle s s1" "t = of_nat (time s1) * 10" "ticks time idle s1 s2"
    using read_ticks [OF v] tick_ms [OF t] by auto
  have e: "unat (t - of_nat T * 10) = 10 * (time s1 - T)"
    unfolding k(2) using k(1) 1(2,3) by (intro elapsed) (auto simp: ticks_def later_def)
  have "past s s2" using k(1,3) later_trans by (auto simp: ticks_def)
  then have less: "(s2, s) \<in> sooner time idle (T + 100)" using 1(3) by (intro later_sooner) auto
  have "t - of_nat T * 10 > 500 \<longleftrightarrow> time s1 - T > 50" by (simp add: word_less_nat_alt e)
  then have "\<exists>r. timed_cmd_loop chip clock (of_nat T * 10) s2 = Some r" if "\<not> t - of_nat T * 10 > 500"
    using that k(1,3) 1(2) by (intro 1(1) [OF less]) (auto simp: ticks_def later_def)
  then show ?case by (subst timed_cmd_loop.simps) (auto simp: v t)
qed

lemma cmd_returns: "\<exists>b s'. timed_cmd chip clock cmd s = Some (b, s')"
proof -
  obtain t s1 where t: "get_tick_ms clock s = (t, s1)" by fastforce
  let ?s = "w5100_write chip S0_CR cmd s1"
  have k: "t = of_nat (time s) * 10" "ticks time idle s s1" "ticks time idle s1 ?s"
    using tick_ms [OF t] write_ticks by auto
  then have "\<exists>r. timed_cmd_loop chip clock t ?s = Some r"
    unfolding k(1) by (intro cmd_loop_returns) (auto simp: ticks_def later_def)
  then show ?thesis by (simp add: timed_cmd_def t)
qed

text \<open>The size: two readings differ only when bytes came in between, and the ring holds 2 KB.\<close>

lemma size_step:
  assumes "st v s" "w5100_read16 chip S0_RX_RSR s = (x, s')"
  shows "\<exists>ds. list_all frame_ok ds \<and> st (arrived v ds) s' \<and> (ds = [] \<longrightarrow> unat x = length (u_in v))"
    "past s s'" "time s' \<le> time s + 2"
proof -
  obtain h s1 l s2 where h: "w5100_read chip S0_RX_RSR s = (h, s1)" and l: "w5100_read chip (S0_RX_RSR + 1) s1 = (l, s2)" by fastforce
  have x: "s' = s2" "unat x = 256 * unat h + unat l"
    using assms(2) h l unat_be_word [of h l] by (auto simp: w5100_read16_def)
  show "past s s'" "time s' \<le> time s + 2"
    using read_ticks [OF h] read_ticks [OF l] later_trans unfolding x(1) by (auto simp: ticks_def)
  obtain ds1 where d1: "list_all frame_ok ds1" "st (arrived v ds1) s1" using read_any [OF assms(1) h] by (rule nearE)
  obtain ds2 where d2: "list_all frame_ok ds2" "st (arrived v (ds1 @ ds2)) s'"
    using read_any [OF d1(2) l] unfolding x(1) by (auto simp: arrived_append elim!: nearE)
  have "unat x = length (u_in v)" if "ds1 @ ds2 = []"
    using size_hi [OF assms(1) h] size_lo [OF d1(2) l] that unfolding x(2) by (simp add: frames_def)
  then show "\<exists>ds. list_all frame_ok ds \<and> st (arrived v ds) s' \<and> (ds = [] \<longrightarrow> unat x = length (u_in v))"
    using d1(1) d2 by (intro exI [of _ "ds1 @ ds2"]) simp
qed

lemma frames_length: "list_all frame_ok ds \<Longrightarrow> ds \<noteq> [] \<Longrightarrow> 8 \<le> length (frames ds)"
  by (cases ds) (auto simp: frames_def udp_frame_def frame_ok_def)

lemma size_returns:
  "st v s \<Longrightarrow> \<exists>n s'. w5100_get_rx_size chip s = Some (n, s') \<and> past s s' \<and> time s' \<le> time s + 4 * (2049 - length (u_in v))"
proof (induction "2048 - length (u_in v)" arbitrary: v s rule: less_induct)
  case less
  note bound = in_bound [OF less.prems]
  obtain x s1 where x: "w5100_read16 chip S0_RX_RSR s = (x, s1)" by fastforce
  note k1 = size_step [OF less.prems x]
  from k1(1) obtain ds where ds: "list_all frame_ok ds" "st (arrived v ds) s1" "ds = [] \<Longrightarrow> unat x = length (u_in v)" by auto
  show ?case
  proof (cases "x = 0")
    case True
    then have "w5100_get_rx_size chip s = Some (0, s1)" by (subst w5100_get_rx_size.simps) (simp add: x)
    then show ?thesis using k1(2,3) bound by auto
  next
    case nz: False
    obtain y s2 where y: "w5100_read16 chip S0_RX_RSR s1 = (y, s2)" by fastforce
    note k2 = size_step [OF ds(2) y]
    from k2(1) obtain es where es: "list_all frame_ok es" "st (arrived (arrived v ds) es) s2"
      "es = [] \<Longrightarrow> unat y = length (u_in (arrived v ds))" by auto
    have k: "past s s2" "time s2 \<le> time s + 4" using k1(2,3) k2(2,3) later_trans by auto
    have run: "w5100_get_rx_size chip s = (if x \<noteq> y then w5100_get_rx_size chip s2 else Some (x, s2))"
      by (subst w5100_get_rx_size.simps) (simp add: x y nz)
    show ?thesis
    proof (cases "ds @ es = []")
      case True
      then have "x = y" using ds(3) es(3) by (simp add: word_unat_eq_iff frames_def)
      then show ?thesis using run k bound by auto
    next
      case False
      let ?v = "arrived (arrived v ds) es"
      have grow: "length (u_in v) + 8 \<le> length (u_in ?v)"
        using False frames_length [OF ds(1)] frames_length [OF es(1)] by auto
      then have "2048 - length (u_in ?v) < 2048 - length (u_in v)" using in_bound [OF es(2)] by linarith
      from less.hyps [OF this es(2)] obtain n s' where
        n: "w5100_get_rx_size chip s2 = Some (n, s')" "past s2 s'" "time s' \<le> time s2 + 4 * (2049 - length (u_in ?v))" by blast
      have "time s' \<le> time s + 4 * (2049 - length (u_in v))" using n(3) k(2) grow in_bound [OF es(2)] by linarith
      moreover have "past s s'" by (rule later_trans [OF k(1) n(2)])
      moreover have "time s2 \<le> time s + 4 * (2049 - length (u_in v))" using k(2) bound by linarith
      moreover have "w5100_get_rx_size chip s = Some (x, s2) \<or> w5100_get_rx_size chip s = Some (n, s')"
        using run n(1) by (cases "x = y") simp_all
      ultimately show ?thesis using k(1) by blast
    qed
  qed
qed

lemma rx_size_returns: "near u s \<Longrightarrow> \<exists>n s'. w5100_get_rx_size chip s = Some (n, s') \<and> past s s' \<and> time s' \<le> time s + 8196"
  by (elim nearE) (drule size_returns, auto)

lemma wait_loop_returns:
  assumes "timeout = of_nat (10 * L)" "L \<le> 5000"
  shows "near u s \<Longrightarrow> T \<le> time s \<Longrightarrow> time s \<le> T + L + 2 \<Longrightarrow> 
    \<exists>b s'. wait_rx_loop chip clock k timeout (of_nat T * 10) s = Some (b, s') \<and> (b \<or> T + L \<le> time s')"
proof (induction s rule: wf_induct_rule [OF wf_sooner [of time idle "T + 10000"]])
  case (1 s)
  obtain n s1 where n: "w5100_get_rx_size chip s = Some (n, s1)" "past s s1" "time s1 \<le> time s + 8196"
    using rx_size_returns [OF 1(2)] by blast
  obtain t s2 where t: "get_tick_ms clock s1 = (t, s2)" by fastforce
  have k: "t = of_nat (time s1) * 10" "ticks time idle s1 s2" using tick_ms [OF t] by auto
  have e: "unat (t - of_nat T * 10) = 10 * (time s1 - T)"
    unfolding k(1) using n(2,3) 1(3,4) assms(2) by (intro elapsed) (auto simp: later_def)
  have "unat timeout = 10 * L" using assms unat_ten [of L] by simp
  then have c: "t - of_nat T * 10 \<ge> timeout \<longleftrightarrow> L \<le> time s1 - T" by (simp add: word_le_nat_alt e)
  have "past s s2" using n(2) k(2) later_trans by (auto simp: ticks_def)
  then have less: "(s2, s) \<in> sooner time idle (T + 10000)" using 1(4) assms(2) by (intro later_sooner) auto
  have nr: "near u s2" by (rule near_tick [OF holds_near [OF size_ok [OF n(1) 1(2)]] t])
  have "\<exists>b s'. wait_rx_loop chip clock k timeout (of_nat T * 10) s2 = Some (b, s') \<and> (b \<or> T + L \<le> time s')" if "\<not> t - of_nat T * 10 \<ge> timeout"
    using that c n(2) k(2) 1(3) by (intro 1(1) [OF less nr]) (auto simp: ticks_def later_def)
  then have "\<exists>b s'. wait_rx_loop chip clock k timeout (of_nat T * 10) s2 = Some (b, s') \<and> (b \<or> T + L \<le> time s') \<or> L \<le> time s1 - T"
    using c by blast
  moreover have "T + L \<le> time s2" if "L \<le> time s1 - T" using that k(2) n(2) 1(3) by (auto simp: ticks_def later_def)
  moreover have "wait_rx_loop chip clock k timeout (of_nat T * 10) s = (if n < k then
      if L \<le> time s1 - T then Some (False, s2) else wait_rx_loop chip clock k timeout (of_nat T * 10) s2 else Some (True, s1))"
    by (subst wait_rx_loop.simps) (simp add: n(1) t c)
  ultimately show ?case by (cases "n < k"; cases "L \<le> time s1 - T") auto
qed

lemma wait_returns:
  assumes "near u s" "timeout = of_nat (10 * L)" "L \<le> 5000"
  shows "\<exists>b s'. wait_rx_at_least chip clock k timeout s = Some (b, s') \<and> (b \<or> time s + L \<le> time s')"
proof -
  obtain t s1 where t: "get_tick_ms clock s = (t, s1)" by fastforce
  have k: "t = of_nat (time s) * 10" "ticks time idle s s1" using tick_ms [OF t] by auto
  have "\<exists>b s'. wait_rx_loop chip clock k timeout t s1 = Some (b, s') \<and> (b \<or> time s + L \<le> time s')"
    unfolding k(1) using k(2) by (intro wait_loop_returns [OF assms(2,3) near_tick [OF assms(1) t]]) (auto simp: ticks_def later_def)
  then show ?thesis by (simp add: wait_rx_at_least_def t)
qed

lemma recv_returns: "\<exists>m' s'. udp_recv_bytes chip clock buf len m s = Some (m', s')"
proof -
  obtain ptr s1 where p: "w5100_read16 chip S0_RX_RD s = (ptr, s1)" by fastforce
  obtain m' s2 where l: "recv_loop chip ptr buf 0 (unat len) m s1 = (m', s2)" by fastforce
  obtain b t where "timed_cmd chip clock CR_RECV (w5100_write16 chip S0_RX_RD (ptr + len) s2) = Some (b, t)"
    using cmd_returns by blast
  then show ?thesis by (simp add: udp_recv_bytes_def p l)
qed

lemma discard_returns: "\<exists>m' s'. udp_discard chip clock scr rem m s = Some (m', s')"
proof (induction "unat rem" arbitrary: rem m s rule: less_induct)
  case less
  show ?case
  proof (cases "rem > 0")
    case False
    then show ?thesis by (auto simp: udp_discard.simps)
  next
    case True
    define c where "c = (if rem < 32 then rem else 32)"
    have c: "c \<le> rem" "0 < unat c" using True by (auto simp: c_def word_less_nat_alt word_le_nat_alt)
    then have "unat (rem - c) < unat rem" by (simp add: unat_sub word_le_nat_alt)
    moreover obtain m1 s1 where "udp_recv_bytes chip clock scr c m s = Some (m1, s1)" using recv_returns by blast
    ultimately show ?thesis using less [of "rem - c" m1 s1] True
      by (subst udp_discard.simps) (simp add: c_def [symmetric] Let_def)
  qed
qed

lemma packet_returns: "\<exists>n m' s'. w5100_recv_udp_packet chip clock v buf cap m s = Some (n, m', s')"
proof -
  obtain m1 s1 where h: "udp_recv_bytes chip clock (v_udp_header v) 8 m s = Some (m1, s1)" using recv_returns by blast
  define len :: u16 where "len = push_bit 8 (ucast (m1 (v_udp_header v + 6))) OR ucast (m1 (v_udp_header v + 7))"
  define k where "k = (if len < cap then len else cap)"
  have "\<exists>m2 s2. (if k > 0 then udp_recv_bytes chip clock buf k m1 s1 else Some (m1, s1)) = Some (m2, s2)"
    using recv_returns [of buf k m1 s1] by simp
  then obtain m2 s2 where b: "(if k > 0 then udp_recv_bytes chip clock buf k m1 s1 else Some (m1, s1)) = Some (m2, s2)" by blast
  obtain m3 s3 where d: "udp_discard chip clock (v_scratch v) (len - k) m2 s2 = Some (m3, s3)" using discard_returns by blast
  have "w5100_recv_udp_packet chip clock v buf cap m s = Some (len, m3, s3)"
    unfolding w5100_recv_udp_packet_def h Let_def bind.bind_lunit prod.case
    by (simp only: len_def [symmetric] k_def [symmetric] b d bind.bind_lunit prod.case)
  then show ?thesis by blast
qed

lemma send_returns: "\<exists>s'. udp_send_bytes chip clock bs s = Some s'"
proof -
  obtain x s1 where x: "w5100_read16 chip S0_TX_RD s = (x, s1)" by fastforce
  obtain ptr s2 where p: "w5100_read16 chip S0_TX_WR s1 = (ptr, s2)" by fastforce
  obtain b t where "timed_cmd chip clock CR_SEND (w5100_write16 chip S0_TX_WR (ptr + of_nat (length bs)) (send_loop chip ptr 0 bs s2)) = Some (b, t)"
    using cmd_returns by blast
  then show ?thesis by (simp add: udp_send_bytes_def x p)
qed

lemma prepare_returns: "\<exists>s'. dhcp_prepare chip clock v m s = Some s'"
proof -
  obtain b t where "timed_cmd chip clock CR_OPEN (w5100_write16 chip S0_PORT 68 (w5100_write chip S0_MR 0x02
      (write_regs chip W5100_SIPR dhcp_ip (w5100_set_mac chip (v_mac v) m s)))) = Some (b, t)" using cmd_returns by blast
  then show ?thesis by (simp add: dhcp_prepare_def)
qed

lemma close_returns: "\<exists>r'. dhcp_close chip clock r counter m s = Some r'"
proof -
  obtain b t where "timed_cmd chip clock CR_CLOSE s = Some (b, t)" using cmd_returns by blast
  then show ?thesis by (simp add: dhcp_close_def)
qed

lemma enviar_returns:
  assumes "dhcp_layout v hostname (length host)" "given v hostname host m" "length host \<le> 57"
    and ptrs: "ip \<in> {0, v_offered_ip v}" "srv \<in> {0, v_server_ip v}"
  shows "\<exists>m' s'. enviar_pacote_dhcp chip clock v t xid (v_mac v) hostname ip srv m s = Some (m', s')"
proof -
  note ap = layout_apart [OF assms(1)]
  define req where "req = (if t = DHCP_REQUEST \<and> ip \<noteq> 0 \<and> srv \<noteq> 0 then Some (rd_bytes m ip 4, rd_bytes m srv 4) else None)"
  have room: "length (opts_bytes (request_opts t req host)) < 80"
    using assms(3) req_def by (auto simp: opts_bytes_def request_opts_def)
  have "ip \<noteq> 0 \<Longrightarrow> apart ip 4 (v_pkt v) 320" "srv \<noteq> 0 \<Longrightarrow> apart srv 4 (v_pkt v) 320" using ptrs ap(5,6) by auto
  from build_ok [OF ap(3) given_cstr [OF assms(2)] ap(4) this req_def room refl, of xid] obtain m1 n where
    b: "build_dhcp m (v_pkt v) t xid (v_mac v) hostname ip srv = Some (m1, n)" by blast
  obtain s' where "udp_send_bytes chip clock (rd_bytes m1 (v_pkt v) (unat n)) s = Some s'" using send_returns by blast
  then show ?thesis using b by (simp add: enviar_pacote_dhcp_def)
qed

lemma parse_320_returns: "\<exists>t m'. parse_dhcp_options m raw (of_nat DHCP_PKT_BUF_SIZE) out = Some (t, m')"
  using parse_returns [of "of_nat DHCP_PKT_BUF_SIZE"] by (simp add: parse_dhcp_options_def DHCP_PKT_BUF_SIZE_def)

lemma request_phase_returns:
  assumes "near u s" "dhcp_layout v hostname (length host)" "given v hostname host m" "length host \<le> 57"
  shows "\<exists>r. dhcp_request_phase chip clock v hostname xid counter m s = Some r"
proof -
  obtain s1 where p: "dhcp_prepare chip clock v m s = Some s1" using prepare_returns by blast
  obtain u1 where u1: "near u1 s1" "u_txr u1 = u_txw u1" using prepare_ok [OF p assms(1)] by blast
  obtain m2 s2 where e: "enviar_pacote_dhcp chip clock v DHCP_REQUEST xid (v_mac v) hostname (v_offered_ip v) (v_server_ip v) m s1 = Some (m2, s2)"
    using enviar_returns [OF assms(2-4), of "v_offered_ip v" "v_server_ip v"] by blast
  from enviar_ok [OF e u1 assms(2-4) _ _ refl] obtain u2 where "near u2 s2" by blast
  from wait_returns [OF this, of 50000 5000] obtain b s3 where
    w: "wait_rx_at_least chip clock (of_nat OFF_OPTIONS) 50000 s2 = Some (b, s3)" by fastforce
  show ?thesis
  proof (cases b)
    case False
    then show ?thesis using close_returns by (simp add: dhcp_request_phase_def p e w)
  next
    case True
    obtain n m3 s4 where k: "w5100_recv_udp_packet chip clock v (v_rx_buf v) (of_nat DHCP_PKT_BUF_SIZE) m2 s3 = Some (n, m3, s4)"
      using packet_returns by blast
    obtain t mb where q: "parse_dhcp_options (wr_bytes m3 (v_server_ip2 v) [0, 0, 0, 0]) (v_rx_buf v) (of_nat DHCP_PKT_BUF_SIZE) (v_server_ip2 v) = Some (t, mb)"
      using parse_320_returns by blast
    show ?thesis unfolding dhcp_request_phase_def Let_def p e w k q bind.bind_lunit prod.case
      using True close_returns by simp
  qed
qed

lemma request_returns:
  assumes "near u s" and lay: "dhcp_layout v hostname (length host)" and host: "cstr m hostname host" "length host \<le> 57"
  shows "\<exists>r. w5100_dhcp_request chip clock v hostname counter m s = Some r"
proof -
  note ap = layout_apart [OF lay]
  define m1 where "m1 = wr_bytes (wr_bytes (wr_bytes m (v_mac v) dhcp_mac) (v_offered_ip v) [0, 0, 0, 0]) (v_server_ip v) [0, 0, 0, 0]"
  have g1: "given v hostname host m1" unfolding m1_def by (rule given_start [OF lay host(1)])
  obtain s1 where p: "dhcp_prepare chip clock v m1 s = Some s1" using prepare_returns by blast
  obtain u1 where u1: "near u1 s1" "u_txr u1 = u_txw u1" "u_in u1 = []" "u_rd u1 = u_ptr u1" using prepare_ok [OF p assms(1)] by blast
  obtain xid c1 where x: "next_xid counter = (xid, c1)" by fastforce
  obtain m2 s2 where e: "enviar_pacote_dhcp chip clock v DHCP_DISCOVER xid (v_mac v) hostname 0 0 m1 s1 = Some (m2, s2)"
    using enviar_returns [OF lay g1 host(2), of 0 0] by blast
  from enviar_ok [OF e u1(1,2) lay g1 host(2) _ _ refl] obtain u2 where
    m2: "same_but [(v_pkt v, 320)] m1 m2" and u2: "near u2 s2" "u_in u2 = []" "u_rd u2 = u_ptr u2" using u1(3,4) by auto
  from wait_returns [OF u2(1), of DHCP_WAIT_TIMEOUT_MS 3000 "of_nat OFF_OPTIONS"] obtain b s3 where
    w: "wait_rx_at_least chip clock (of_nat OFF_OPTIONS) DHCP_WAIT_TIMEOUT_MS s2 = Some (b, s3)"
    by (auto simp: DHCP_WAIT_TIMEOUT_MS_def)
  note run = w5100_dhcp_request_def Let_def m1_def [symmetric] p x e w bind.bind_lunit prod.case
  show ?thesis
  proof (cases b)
    case False
    then show ?thesis using close_returns unfolding run by simp
  next
    case True
    obtain n m3 s4 where k: "w5100_recv_udp_packet chip clock v (v_rx_buf v) (of_nat DHCP_PKT_BUF_SIZE) m2 s3 = Some (n, m3, s4)"
      using packet_returns by blast
    have "holds_in u2 (unat (of_nat OFF_OPTIONS :: u16)) s3" using wait_ok [OF w u2(1)] True by blast
    from answer_ok [OF this u2(2,3) lay k] obtain u4 where
      m3: "same_but [(v_udp_header v, 8), (v_scratch v, 32), (v_rx_buf v, 320)] m2 m3" and u4: "near u4 s4" by blast
    let ?ma = "fst (memcpy m3 (v_offered_ip v) (v_rx_buf v + OFF_YIADDR) 4)"
    obtain t mb where q: "parse_dhcp_options ?ma (v_rx_buf v) (of_nat DHCP_PKT_BUF_SIZE) (v_server_ip v) = Some (t, mb)"
      using parse_320_returns by blast
    define m6 where "m6 = (if rd_bytes mb (v_server_ip v) 4 = [0, 0, 0, 0]
           then fst (memcpy mb (v_server_ip v) (v_rx_buf v + OFF_SIADDR) 4) else mb)"
    have s6: "same_but [(v_server_ip v, 4)] mb m6" unfolding m6_def using same_copy by (auto simp: same_but_def)
    have "given v hostname host m6"
      using given_same [OF given_same [OF given_same [OF given_same [OF given_same [OF g1 m2] m3] same_copy] same_parse [OF q]] s6] ap by simp
    from request_phase_returns [OF u4 lay this host(2)]
    have "\<exists>r. dhcp_request_phase chip clock v hostname xid c1 m6 s4 = Some r" .
    then show ?thesis unfolding run k q using True close_returns by (simp flip: m6_def)
  qed
qed

text \<open>Time does not go back: what holds of the chip holds of the chip after a given time.\<close>

lemma since_chip: "udp_chip chip clock (\<lambda>u s. st u s \<and> T \<le> time s) (\<lambda>u s. near u s \<and> T \<le> time s)"
proof -
  have r: "w5100_read chip a s = (v, s') \<Longrightarrow> time s \<le> time s'" for a s v s'
    using read_ticks [of a s v s'] later_le by (auto simp: ticks_def)
  have c: "clock s = (t, s') \<Longrightarrow> time s \<le> time s'" for s t s' using clock_ticks [of s t s'] later_le by (auto simp: ticks_def)
  have w: "time s \<le> time (w5100_write chip a b s)" for a b s using write_ticks [of s a b] later_le by (auto simp: ticks_def)
  have w16: "time s \<le> time (w5100_write16 chip a x s)" for a x s
    using w [of s a "ucast (drop_bit 8 x)"] w [of "w5100_write chip a (ucast (drop_bit 8 x)) s" "a + 1" "ucast x"] by (simp add: w5100_write16_def)
  show ?thesis
  proof (unfold_locales, goal_cases)
    case (1 u s)
    then show ?case by (auto simp: near_def)
  next
    case (2 u s)
    then show ?case using in_bound [of u s] by auto
  next
    case (3 u s a v s')
    then show ?case using read_any [of u s a v s'] r [of a s v s'] by auto
  next
    case (4 u s t s')
    then show ?case using clock_any [of u s t s'] c [of s t s'] by auto
  next
    case (5 u s v s')
    then show ?case using size_hi [of u s v s'] by auto
  next
    case (6 u s v s')
    then show ?case using size_lo [of u s v s'] by auto
  next
    case (7 u s v s')
    then show ?case using rd_hi [of u s v s'] by auto
  next
    case (8 u s v s')
    then show ?case using rd_lo [of u s v s'] by auto
  next
    case (9 u s v s')
    then show ?case using wr_hi [of u s v s'] by auto
  next
    case (10 u s v s')
    then show ?case using wr_lo [of u s v s'] by auto
  next
    case (11 u s i v s')
    then show ?case using read_data [of u s i v s'] by auto
  next
    case (12 u s a v s')
    then show ?case using read_cfg [of u s a v s'] by auto
  next
    case (13 u s x)
    then show ?case using write_rd [of u s x] w16 [of s S0_RX_RD x] by auto
  next
    case (14 u s x)
    then show ?case using write_txw [of u s x] w16 [of s S0_TX_WR x] by auto
  next
    case (15 u s k b)
    then show ?case using write_tx [of u s k b] w [of s "S0_TX_BASE + (k AND S0_MASK)" b] by auto
  next
    case (16 u s a b)
    then show ?case using write_cfg [of u s a b] w [of s a b] by auto
  next
    case (17 u s)
    then show ?case using do_recv [of u s] w [of s S0_CR CR_RECV] by auto
  next
    case (18 u s)
    then show ?case using do_send [of u s] w [of s S0_CR CR_SEND] by auto
  next
    case (19 u s)
    then show ?case using do_open [of u s] w [of s S0_CR CR_OPEN] by auto
  next
    case (20 u s)
    then show ?case using do_close [of u s] w [of s S0_CR CR_CLOSE] by auto
  qed
qed

lemma late_since:
  "udp_chip.late_by chip clock (\<lambda>u a. near u a \<and> T \<le> time a) s' (\<lambda>L. T + L \<le> time s')"
  unfolding udp_chip.late_by_def [OF since_chip]
proof (intro allI impI)
  fix L w k a b c m r c' m'
  assume a: "(near w a \<and> T \<le> time a) \<and> L \<le> 5000 \<and> wait_rx_at_least chip clock k (of_nat (10 * L)) a = Some (False, b) \<and>
    dhcp_close chip clock 0 c m b = Some (r, c', m', s')"
  then have "time a + L \<le> time b" "near w b" using wait_returns [of w a _ L k] wait_ok by fastforce+
  then have "near w b \<and> T + L \<le> time b" using a by linarith
  then show "T + L \<le> time s'" using a udp_chip.close_ok [OF since_chip] by blast
qed

lemma request_timed:
  assumes "near u s" "dhcp_layout v hostname (length host)" "cstr m hostname host" "length host \<le> 57"
  shows "\<exists>r c' m' s' u'. w5100_dhcp_request chip clock v hostname counter m s = Some (r, c', m', s') \<and>
    near u' s' \<and> dhcp_outcome v (\<lambda>L. time s + L \<le> time s') (fst (next_xid counter)) host m u r u'"
proof -
  obtain r c' m' s' where run: "w5100_dhcp_request chip clock v hostname counter m s = Some (r, c', m', s')"
    using request_returns [OF assms] by (metis surj_pair)
  have "near u s \<and> time s \<le> time s" using assms(1) by simp
  from udp_chip.request_ok [OF since_chip run this assms(2-4) late_since] show ?thesis using run by blast
qed

lemma client_timed:
  assumes "near u s" "dhcp_layout v hostname (length host)" "cstr m hostname host" "length host \<le> 57"
  shows "\<exists>r ip c' m' s' u'. dhcp_client chip clock v hostname counter m s = Some (r, ip, c', m', s') \<and>
    near u' s' \<and> dhcp_outcome v (\<lambda>L. time s + L \<le> time s') (fst (next_xid counter)) host m u r u' \<and>
    ip = (if r = 1 then Some (u_address u') else None)"
proof -
  obtain r c' m' s1 u' where run: "w5100_dhcp_request chip clock v hostname counter m s = Some (r, c', m', s1)"
    and u': "near u' s1" "dhcp_outcome v (\<lambda>L. time s + L \<le> time s1) (fst (next_xid counter)) host m u r u'"
    using request_timed [OF assms] by blast
  show ?thesis
  proof (cases "r = 0")
    case True
    then show ?thesis using run u' by (simp add: dhcp_client_def) blast
  next
    case False
    then have r: "r = 1" using dhcp_outcome_result [OF u'(2)] by simp
    obtain ip s' where ip: "read_regs chip W5100_SIPR 4 s1 = (ip, s')" by fastforce
    have "near u' s1 \<and> time s1 \<le> time s1" using u'(1) by simp
    then have "near u' s'" "time s1 \<le> time s'" "ip = u_address u'"
      using udp_chip.read_address [OF since_chip _ ip] by blast+
    moreover have "dhcp_outcome v (\<lambda>L. time s + L \<le> time s') (fst (next_xid counter)) host m u r u'"
      using \<open>time s1 \<le> time s'\<close> by (intro dhcp_outcome_mono [OF u'(2)]) simp
    ultimately show ?thesis using run ip r by (simp add: dhcp_client_def) blast
  qed
qed

end

end
