(* ===== verification/Dhcp_Server.thy ===== *)
theory Dhcp_Server
  imports Dhcp_Time
begin

text \<open>
  A W5100 in UDP mode with a server behind it: after each SEND the next list of datagrams comes in, if the
  ring has room. The locales \<open>udp_chip\<close> and \<open>udp_timed\<close> are interpreted on it, and the properties of the client
  stated.
\<close>

section \<open>The simulated chip\<close>

record udp_sim =
  us_udp :: udp
  us_replies :: "(u8 list \<times> u8 list) list list"
  us_now :: nat
  us_idle :: nat



definition us_tick :: "udp_sim \<Rightarrow> udp_sim" where
  "us_tick s = (if us_idle s = 0 then s\<lparr>us_now := Suc (us_now s), us_idle := 1000\<rparr> else s\<lparr>us_idle := us_idle s - 1\<rparr>)"

definition us_answer :: "udp_sim \<Rightarrow> udp_sim" where
  "us_answer s =
     (case us_replies s of
        [] \<Rightarrow> s
      | ds # rest \<Rightarrow>
          if length (u_in (us_udp s)) + length (frames ds) \<le> 2048 then s\<lparr>us_udp := arrived (us_udp s) ds, us_replies := rest\<rparr>
          else s\<lparr>us_replies := rest\<rparr>)"










section \<open>The chip keeps the contract\<close>

lemma us_tick_sel [simp]: "us_udp (us_tick s) = us_udp s" "us_replies (us_tick s) = us_replies s"
  by (simp_all add: us_tick_def)


lemma us_answer_sel [simp]: "us_now (us_answer s) = us_now s" "us_idle (us_answer s) = us_idle s"
  by (simp_all add: us_answer_def split: list.split)














section \<open>The client\<close>




end
