(* ===== verification/Bios_Crc32.thy ===== *)
theory Bios_Crc32
  imports Orion_Prelude
begin

text \<open>
  \<open>bios/shell/crc32.c\<close>: the table-driven CRC-32 with which the shell checks a received image. The
  table is computed at run time and the update loop handles four bytes per turn. The reference is
  the bit-serial reflected division by the IEEE 802.3 polynomial; the table, the byte loop and the
  unrolled loop are all shown to compute it.
\<close>

section \<open>The code\<close>

definition CRC32_POLYNOMIAL :: u32 where
  "CRC32_POLYNOMIAL = 0xEDB88320"

text \<open>One turn of the inner loop of \<open>crc32_init\<close>.\<close>

definition crc32_bit :: "u32 \<Rightarrow> u32" where
  "crc32_bit c = (if c AND 1 \<noteq> 0 then CRC32_POLYNOMIAL XOR drop_bit 1 c else drop_bit 1 c)"

fun crc32_init_entry :: "nat \<Rightarrow> u32 \<Rightarrow> u32" where
  "crc32_init_entry 0 c = c"
| "crc32_init_entry (Suc k) c = crc32_init_entry k (crc32_bit c)"

definition crc32_init :: "u32 list" where
  "crc32_init = map (\<lambda>i. crc32_init_entry 8 (of_nat i)) [0..<256]"

text \<open>The statement the update loops repeat; \<open>table\<close> is \<open>crc32_table\<close>.\<close>

definition crc32_byte :: "u32 list \<Rightarrow> u32 \<Rightarrow> u8 \<Rightarrow> u32" where
  "crc32_byte table crc b = table ! unat ((crc XOR ucast b) AND 0xFF) XOR drop_bit 8 crc"

fun crc32_rest :: "u32 list \<Rightarrow> u32 \<Rightarrow> mem \<Rightarrow> nat \<Rightarrow> nat \<Rightarrow> u32" where
  "crc32_rest table crc m buffer 0 = crc"
| "crc32_rest table crc m buffer (Suc len) =
     crc32_rest table (crc32_byte table crc (m buffer)) m (buffer + 1) len"

fun crc32_update :: "u32 list \<Rightarrow> u32 \<Rightarrow> mem \<Rightarrow> nat \<Rightarrow> nat \<Rightarrow> u32" where
  "crc32_update table crc m buffer len =
     (if len \<ge> 4 then
        (let crc = crc32_byte table crc (m buffer);
             crc = crc32_byte table crc (m (buffer + 1));
             crc = crc32_byte table crc (m (buffer + 2));
             crc = crc32_byte table crc (m (buffer + 3))
         in crc32_update table crc m (buffer + 4) (len - 4))
      else crc32_rest table crc m buffer len)"

declare crc32_update.simps [simp del]

definition crc32_calculate :: "u32 list \<Rightarrow> mem \<Rightarrow> nat \<Rightarrow> nat \<Rightarrow> u32" where
  "crc32_calculate table m buffer len = crc32_update table 0xFFFFFFFF m buffer len XOR 0xFFFFFFFF"

section \<open>The bit-serial reference\<close>

text \<open>A byte enters the low end of the register and is divided out bit by bit.\<close>

definition crc_ref_byte :: "u32 \<Rightarrow> u8 \<Rightarrow> u32" where
  "crc_ref_byte crc b = (crc32_bit ^^ 8) (crc XOR ucast b)"

definition crc_ref :: "u32 \<Rightarrow> u8 list \<Rightarrow> u32" where
  "crc_ref crc bs = foldl crc_ref_byte crc bs"

lemma crc32_init_entry_eq: "crc32_init_entry k c = (crc32_bit ^^ k) c"
  by (induction k arbitrary: c) (simp_all add: funpow_swap1)

text \<open>The register step is linear over exclusive or, and shifting only moves zero bits out.\<close>

lemma crc32_bit_xor: "crc32_bit (a XOR b) = crc32_bit a XOR crc32_bit b"
proof -
  have and1: "x AND 1 \<noteq> 0 \<longleftrightarrow> bit x 0" for x :: u32
    by (simp add: and_one_eq odd_iff_mod_2_eq_one bit_0)
  show ?thesis
    unfolding crc32_bit_def and1 bit_xor_iff drop_bit_xor by (auto simp: xor.assoc xor.left_commute)
qed

lemma crc32_bits_xor: "(crc32_bit ^^ k) (a XOR b) = (crc32_bit ^^ k) a XOR (crc32_bit ^^ k) b"
  by (induction k arbitrary: a b) (simp_all add: crc32_bit_xor)

lemma crc32_bits_shift: "(\<And>i. i < k \<Longrightarrow> \<not> bit x i) \<Longrightarrow> (crc32_bit ^^ k) x = drop_bit k x"
proof (induction k)
  case 0
  then show ?case by simp
next
  case (Suc k)
  have "drop_bit k x AND 1 = 0"
    using Suc.prems [of k] by (simp add: and_one_eq bit_iff_odd_drop_bit mod2_eq_if)
  then show ?case using Suc by (simp add: crc32_bit_def)
qed

lemma mask_FF: "(0xFF :: u32) = mask 8"
  by (simp add: mask_eq_exp_minus_1)

lemma split_low_byte: "x = (x AND 0xFF) XOR (x AND NOT 0xFF)" for x :: u32
  unfolding mask_FF by (rule bit_eqI) (auto simp: bit_simps)

lemma high_bytes_xor_byte: "drop_bit 8 ((crc XOR ucast b) AND NOT 0xFF) = drop_bit 8 crc"
  for crc :: u32 and b :: u8
  unfolding mask_FF by (rule bit_eqI) (auto simp: bit_simps dest: bit_imp_le_length)

lemma low_byte_index: "unat (x AND 0xFF :: u32) < 256"
proof -
  have "x AND 0xFF \<le> 0xFF" by (rule word_and_le1)
  then show ?thesis by (simp add: word_le_nat_alt)
qed

lemma crc32_table_lookup: "crc32_init ! unat (x AND 0xFF :: u32) = (crc32_bit ^^ 8) (x AND 0xFF)"
  using low_byte_index [of x] by (simp add: crc32_init_def crc32_init_entry_eq)

lemma crc32_byte_ref: "crc32_byte crc32_init crc b = crc_ref_byte crc b"
proof -
  let ?x = "crc XOR ucast b"
  have "(crc32_bit ^^ 8) (?x AND NOT 0xFF) = drop_bit 8 crc"
    using crc32_bits_shift [of 8 "?x AND NOT 0xFF"] high_bytes_xor_byte [of crc b]
    unfolding mask_FF by (simp add: bit_simps)
  then show ?thesis
    using crc32_bits_xor [of 8 "?x AND 0xFF" "?x AND NOT 0xFF"] split_low_byte [of ?x]
    by (simp add: crc32_byte_def crc_ref_byte_def crc32_table_lookup)
qed

lemma crc32_rest_ref: "crc32_rest crc32_init crc m p n = crc_ref crc (rd_bytes m p n)"
  by (induction n arbitrary: crc p) (simp_all add: crc_ref_def crc32_byte_ref)

lemma crc32_update_ref: "crc32_update crc32_init crc m p n = crc_ref crc (rd_bytes m p n)"
proof (induction n arbitrary: crc p rule: less_induct)
  case (less n)
  show ?case
  proof (cases "n \<ge> 4")
    case True
    then obtain k where n: "n = Suc (Suc (Suc (Suc k)))"
      by (auto simp: le_iff_add eval_nat_numeral)
    have p: "p + 3 = Suc (Suc (Suc p))" "p + 4 = Suc (Suc (Suc (Suc p)))"
      by simp_all
    show ?thesis
      using less [of k] n by (simp add: crc32_update.simps [of _ _ _ p] crc_ref_def crc32_byte_ref p)
  qed (simp add: crc32_update.simps [of _ _ _ p] crc32_rest_ref)
qed

lemma crc_ref_append: "crc_ref crc (xs @ ys) = crc_ref (crc_ref crc xs) ys"
  by (simp add: crc_ref_def)

lemma crc_ref_Cons: "crc_ref crc (x # xs) = crc_ref (crc_ref_byte crc x) xs"
  by (simp add: crc_ref_def)

lemma crc_ref_Nil [simp]: "crc_ref crc [] = crc"
  by (simp add: crc_ref_def)

section \<open>Error detection\<close>

lemma xor_eq_0_iff: "a XOR b = 0 \<longleftrightarrow> a = b" for a b :: "'a::len word"
  by (auto simp: bit_eq_iff bit_simps)

lemma crc32_bit_0_iff: "crc32_bit c = 0 \<longleftrightarrow> c = 0"
proof
  assume z: "crc32_bit c = 0"
  have no31: "\<not> bit (drop_bit 1 c) 31" by (auto simp: bit_simps dest: bit_imp_le_length)
  have low: "\<not> bit c 0"
  proof
    assume "bit c 0"
    then have "CRC32_POLYNOMIAL XOR drop_bit 1 c = 0"
      using z by (simp add: crc32_bit_def and_one_eq bit_0 odd_iff_mod_2_eq_one)
    then have "drop_bit 1 c = CRC32_POLYNOMIAL" by (simp add: xor_eq_0_iff)
    with no31 show False by (simp add: CRC32_POLYNOMIAL_def)
  qed
  then have "drop_bit 1 c = 0"
    using z by (simp add: crc32_bit_def and_one_eq bit_0 even_iff_mod_2_eq_zero)
  then have "\<not> bit c (Suc n)" for n
    using bit_drop_bit_eq [of 1 c] by (simp add: fun_eq_iff)
  then have "\<not> bit c n" for n using low by (cases n) auto
  then show "c = 0" by (simp add: bit_eq_iff)
qed (simp add: crc32_bit_def)

lemma crc32_bit_inj: "crc32_bit a = crc32_bit b \<longleftrightarrow> a = b"
  by (metis crc32_bit_0_iff crc32_bit_xor xor_eq_0_iff)

lemma crc32_bits_inj: "(crc32_bit ^^ k) a = (crc32_bit ^^ k) b \<longleftrightarrow> a = b"
  by (induction k arbitrary: a b) (simp_all add: crc32_bit_inj)

lemma xor_cancel: "a XOR b = a XOR c \<longleftrightarrow> b = c" "b XOR a = c XOR a \<longleftrightarrow> b = c"
  for a b c :: "'a::len word"
  by (metis xor_eq_0_iff xor.assoc xor.commute xor.left_neutral xor_self_eq)+

lemma crc_ref_inj: "crc_ref a bs = crc_ref b bs \<longleftrightarrow> a = b"
  by (induction bs arbitrary: a b)
    (simp_all add: crc_ref_def crc_ref_byte_def crc32_bits_inj xor_cancel)

lemma crc_ref_byte_inj: "crc_ref_byte crc b = crc_ref_byte crc c \<longleftrightarrow> b = c"
  by (simp add: crc_ref_byte_def crc32_bits_inj xor_cancel)

section \<open>Properties\<close>

text \<open>C24: with the table \<open>crc32_init\<close> builds, the unrolled table-driven \<open>crc32_update\<close> computes the
  bit-serial CRC of the bytes in the buffer, for every buffer length and starting register.\<close>

theorem crc32_update_reference:
  "crc32_update crc32_init crc m buffer len = crc_ref crc (rd_bytes m buffer len)"
  by (rule crc32_update_ref)

text \<open>\<open>crc32_update\<close> may be fed a file in pieces: updating with two adjacent pieces, of any
  lengths, equals one update over both.\<close>

theorem crc32_update_incremental:
  "crc32_update crc32_init (crc32_update crc32_init crc m p a) m (p + a) b =
   crc32_update crc32_init crc m p (a + b)"
  by (simp add: crc32_update_ref rd_bytes_append crc_ref_append)

text \<open>Two images of the same length that differ in exactly one byte never have the same
  CRC-32.\<close>

theorem crc32_detects_byte_error:
  assumes "k < len" "m' = m(buffer + k := v)" "v \<noteq> m (buffer + k)"
  shows "crc32_calculate crc32_init m' buffer len \<noteq> crc32_calculate crc32_init m buffer len"
proof -
  obtain j where len: "len = k + Suc j" using assms(1) less_imp_Suc_add by auto
  let ?xs = "rd_bytes m buffer k" and ?ys = "rd_bytes m (Suc (buffer + k)) j"
  have "rd_bytes m buffer len = ?xs @ m (buffer + k) # ?ys"
    unfolding len rd_bytes_append by simp
  moreover have "rd_bytes m' buffer len = ?xs @ v # ?ys"
    unfolding len rd_bytes_append by (simp add: assms(2) rd_bytes_upd_other)
  ultimately show ?thesis
    using assms(3) by (simp add: crc32_calculate_def crc32_update_ref crc_ref_append crc_ref_Cons
      xor_cancel crc_ref_inj crc_ref_byte_inj)
qed

theorem crc32_byte_error_witness:
  "crc32_calculate crc32_init (\<lambda>a. if a = 5 then 1 else 0) 3 7 \<noteq> crc32_calculate crc32_init (\<lambda>_. 0) 3 7"
  by (rule crc32_detects_byte_error [of 2 _ _ _ _ 1]) (auto simp: fun_upd_apply)

text \<open>The published check value of CRC-32 for the text 123456789.\<close>

lemma crc32_check_value:
  assumes "rd_bytes m p 9 = [0x31, 0x32, 0x33, 0x34, 0x35, 0x36, 0x37, 0x38, 0x39]"
  shows "crc32_calculate crc32_init m p 9 = 0xCBF43926"
proof -
  have bits: "(crc32_bit ^^ 8) x =
      crc32_bit (crc32_bit (crc32_bit (crc32_bit (crc32_bit (crc32_bit (crc32_bit (crc32_bit x)))))))" for x
    by (simp add: eval_nat_numeral)
  show ?thesis
    by (simp add: crc32_calculate_def crc32_update_ref assms crc_ref_Cons crc_ref_byte_def bits
      crc32_bit_def CRC32_POLYNOMIAL_def)
qed

end
