(* ===== verification/Bios_Timers.thy ===== *)
theory Bios_Timers
  imports Libc_String
begin

text \<open>
  \<open>bios/timers.c\<close>: the table of \<open>MAX_TIMERS\<close> software timers. A slot is \<open>None\<close> for a NULL pointer. An
  index outside the table, and a store through the NULL that \<open>malloc\<close> returns when the heap is
  exhausted, have no defined behaviour in C and are the two values of \<open>timer_error\<close>. A callback is
  a value of any type; the calls \<open>update_timers\<close> makes are returned in order.
\<close>

section \<open>The code\<close>

definition MAX_TIMERS :: nat where "MAX_TIMERS = 5"

record 'cb event_timer_t =
  interval :: u32
  count :: u32
  remaining :: u32
  enabled :: bool
  callback :: 'cb

record 'cb timers =
  g_timers :: "'cb event_timer_t option list"
  g_tick_count :: u32
  last_tick :: u32

datatype timer_error = Index_out_of_range | Null_store

text \<open>\<open>malloc_ok\<close> says whether the call of \<open>malloc\<close> in \<open>add_timer\<close> finds room.\<close>

fun add_timer_scan ::
    "bool \<Rightarrow> nat \<Rightarrow> u16 \<Rightarrow> bool \<Rightarrow> 'cb \<Rightarrow> 'cb event_timer_t option list \<Rightarrow>
     timer_error + (int \<times> 'cb event_timer_t option list)" where
  "add_timer_scan malloc_ok i iv start cb [] = Inr (-1, [])"
| "add_timer_scan malloc_ok i iv start cb (t # ts) =
     (case t of
        None \<Rightarrow>
          if malloc_ok
          then Inr (int i, Some \<lparr>interval = ucast iv, count = 0, remaining = ucast iv, enabled = start, callback = cb\<rparr> # ts)
          else Inl Null_store
      | Some _ \<Rightarrow> map_sum id (\<lambda>(r, ts'). (r, t # ts')) (add_timer_scan malloc_ok (i + 1) iv start cb ts))"

definition add_timer ::
    "bool \<Rightarrow> u16 \<Rightarrow> bool \<Rightarrow> 'cb \<Rightarrow> 'cb timers \<Rightarrow> timer_error + (int \<times> 'cb timers)" where
  "add_timer malloc_ok iv start cb s =
     map_sum id (\<lambda>(r, ts). (r, s\<lparr>g_timers := ts\<rparr>)) (add_timer_scan malloc_ok 0 iv start cb (g_timers s))"

definition with_timer ::
    "u16 \<Rightarrow> ('cb event_timer_t \<Rightarrow> 'cb event_timer_t option) \<Rightarrow> 'cb timers \<Rightarrow> timer_error + 'cb timers" where
  "with_timer i f s =
     (if unat i \<ge> length (g_timers s) then Inl Index_out_of_range
      else case g_timers s ! unat i of
        None \<Rightarrow> Inr s
      | Some t \<Rightarrow> Inr (s\<lparr>g_timers := (g_timers s)[unat i := f t]\<rparr>))"

definition delete_timer :: "u16 \<Rightarrow> 'cb timers \<Rightarrow> timer_error + 'cb timers" where
  "delete_timer i = with_timer i (\<lambda>t. None)"

definition start_timer :: "u16 \<Rightarrow> 'cb timers \<Rightarrow> timer_error + 'cb timers" where
  "start_timer i = with_timer i (\<lambda>t. Some (t\<lparr>remaining := interval t, count := 0, enabled := True\<rparr>))"

definition stop_timer :: "u16 \<Rightarrow> 'cb timers \<Rightarrow> timer_error + 'cb timers" where
  "stop_timer i = with_timer i (\<lambda>t. Some (t\<lparr>enabled := False\<rparr>))"

definition reset_timer :: "u16 \<Rightarrow> 'cb timers \<Rightarrow> timer_error + 'cb timers" where
  "reset_timer i = with_timer i (\<lambda>t. Some (t\<lparr>remaining := interval t\<rparr>))"

definition set_interval :: "u16 \<Rightarrow> u32 \<Rightarrow> 'cb timers \<Rightarrow> timer_error + 'cb timers" where
  "set_interval i iv = with_timer i (\<lambda>t. Some (t\<lparr>interval := iv\<rparr>))"

definition get_tick_count :: "'cb timers \<Rightarrow> u32" where
  "get_tick_count s = g_tick_count s"

definition tick_timer :: "'cb event_timer_t \<Rightarrow> 'cb event_timer_t \<times> ('cb \<times> u32) list" where
  "tick_timer t =
     (if enabled t then
        (let t = t\<lparr>remaining := remaining t - 1\<rparr> in
         if remaining t = 0 then
           (let t = t\<lparr>count := count t + 1\<rparr> in (t\<lparr>remaining := interval t\<rparr>, [(callback t, count t)]))
         else (t, []))
      else (t, []))"

fun update_slots ::
    "'cb event_timer_t option list \<Rightarrow> 'cb event_timer_t option list \<times> ('cb \<times> u32) list" where
  "update_slots [] = ([], [])"
| "update_slots (t # ts) =
     (let (t', calls) = (case t of None \<Rightarrow> (None, []) | Some t0 \<Rightarrow> map_prod Some id (tick_timer t0));
          (ts', calls') = update_slots ts
      in (t' # ts', calls @ calls'))"

definition update_timers :: "'cb timers \<Rightarrow> 'cb timers \<times> ('cb \<times> u32) list" where
  "update_timers s =
     (if last_tick s \<noteq> g_tick_count s then
        (let (ts, calls) = update_slots (g_timers s)
         in (s\<lparr>last_tick := g_tick_count s, g_timers := ts\<rparr>, calls))
      else (s, []))"

text \<open>
  \<open>init_timer\<close> clears the table in memory. The table is \<open>MAX_TIMERS\<close> pointers of four bytes; an
  \<open>event_timer_t\<close> is three 32-bit fields, a \<open>bool\<close> and a pointer, 18 bytes with the two-byte
  alignment of the tool chain.
\<close>

definition sizeof_event_timer :: nat where "sizeof_event_timer = 18"

definition init_timer :: "nat \<Rightarrow> 'cb timers \<Rightarrow> mem \<Rightarrow> 'cb timers \<times> mem" where
  "init_timer g_timers_addr s m =
     (s\<lparr>g_tick_count := 0, g_timers := replicate MAX_TIMERS None\<rparr>,
      memset m g_timers_addr 0 (of_nat (sizeof_event_timer * MAX_TIMERS)))"

section \<open>Lemmas\<close>

lemma add_timer_scan_length:
  "add_timer_scan ok i iv st cb ts = Inr (r, ts') \<Longrightarrow> length ts' = length ts"
  by (induction ts arbitrary: i r ts') (auto split: option.splits if_splits sum.splits simp: map_sum_def)

lemma add_timer_scan_full: "None \<notin> set ts \<Longrightarrow> add_timer_scan ok i iv st cb ts = Inr (-1, ts)"
proof (induction ts arbitrary: i)
  case (Cons t ts)
  then show ?case by (cases t) auto
qed simp

lemma add_timer_scan_free:
  "k < length ts \<Longrightarrow> ts ! k = None \<Longrightarrow> \<forall>j<k. ts ! j \<noteq> None \<Longrightarrow>
   add_timer_scan True i iv st cb ts =
     Inr (int (i + k), ts[k := Some \<lparr>interval = ucast iv, count = 0, remaining = ucast iv, enabled = st, callback = cb\<rparr>])"
proof (induction ts arbitrary: i k)
  case (Cons t ts)
  show ?case
  proof (cases k)
    case 0
    then show ?thesis using Cons.prems by simp
  next
    case (Suc j)
    then have "t \<noteq> None" using Cons.prems(3) by auto
    moreover have "\<forall>m<j. ts ! m \<noteq> None" using Cons.prems(3) Suc by force
    ultimately show ?thesis using Cons.IH [of j "i + 1"] Cons.prems Suc by (auto split: option.splits)
  qed
qed simp

lemma length_update_slots: "length (fst (update_slots ts)) = length ts"
  by (induction ts) (auto simp: Let_def split: prod.splits)

lemma update_slots_nth:
  "i < length ts \<Longrightarrow> fst (update_slots ts) ! i = map_option (fst \<circ> tick_timer) (ts ! i)"
  by (induction ts arbitrary: i) (auto simp: nth_Cons map_prod_def split: prod.splits option.splits nat.splits)

definition slot_calls :: "'cb event_timer_t option \<Rightarrow> ('cb \<times> u32) list" where
  "slot_calls t = (case t of None \<Rightarrow> [] | Some t0 \<Rightarrow> snd (tick_timer t0))"

lemma update_slots_calls: "snd (update_slots ts) = concat (map slot_calls ts)"
  by (induction ts) (auto simp: slot_calls_def map_prod_def split: prod.splits option.splits)

text \<open>\<open>run_ticks n\<close>: the clock advances and the timers are updated, \<open>n\<close> times, for one timer.\<close>

fun run_ticks :: "nat \<Rightarrow> 'cb event_timer_t \<Rightarrow> 'cb event_timer_t \<times> ('cb \<times> u32) list" where
  "run_ticks 0 t = (t, [])"
| "run_ticks (Suc n) t = (let (t', c) = tick_timer t; (t'', c') = run_ticks n t' in (t'', c @ c'))"

lemma run_ticks_add:
  "run_ticks (a + b) t = (let (t', c) = run_ticks a t; (t'', c') = run_ticks b t' in (t'', c @ c'))"
  by (induction a arbitrary: t) (auto simp: Let_def split: prod.splits)

lemma run_ticks_before:
  assumes "enabled t" "n < unat (remaining t)"
  shows "run_ticks n t = (t\<lparr>remaining := remaining t - of_nat n\<rparr>, [])"
  using assms
proof (induction n arbitrary: t)
  case (Suc n)
  let ?t = "t\<lparr>remaining := remaining t - 1\<rparr>"
  have r: "unat (remaining t - 1) = unat (remaining t) - 1"
    using Suc.prems(2) by (subst unat_minus_one) auto
  then have nz: "remaining t - 1 \<noteq> 0" using Suc.prems(2) by (auto simp flip: unat_eq_0)
  have "run_ticks n ?t = (?t\<lparr>remaining := remaining ?t - of_nat n\<rparr>, [])"
    using Suc.prems r by (intro Suc.IH) auto
  then show ?case using Suc.prems(1) nz by (simp add: tick_timer_def Let_def algebra_simps)
qed simp

lemma run_ticks_period:
  assumes "enabled t" "0 < unat (remaining t)"
  shows "run_ticks (unat (remaining t)) t =
    (t\<lparr>count := count t + 1, remaining := interval t\<rparr>, [(callback t, count t + 1)])"
proof -
  obtain n where n: "unat (remaining t) = Suc n" using assms(2) gr0_conv_Suc by blast
  have "run_ticks (n + 1) t = (t\<lparr>count := count t + 1, remaining := interval t\<rparr>, [(callback t, count t + 1)])"
  proof -
    have "remaining t = of_nat (unat (remaining t))" by simp
    then have r: "remaining t = of_nat (Suc n)" by (simp only: n)
    have "remaining t - of_nat n - 1 = 0" by (simp add: r)
    then show ?thesis
      using run_ticks_before [of t n] assms(1) n
      by (subst run_ticks_add) (simp add: tick_timer_def Let_def)
  qed
  then show ?thesis by (simp add: n)
qed

text \<open>\<open>timer_rounds n\<close>: \<open>n\<close> times, the tick interrupt counts and the main loop calls \<open>update_timers\<close>.\<close>

fun timer_rounds :: "nat \<Rightarrow> 'cb timers \<Rightarrow> 'cb timers \<times> ('cb \<times> u32) list" where
  "timer_rounds 0 s = (s, [])"
| "timer_rounds (Suc n) s =
     (let (s', c) = update_timers (s\<lparr>g_tick_count := g_tick_count s + 1\<rparr>);
          (s'', c') = timer_rounds n s'
      in (s'', c @ c'))"

lemma update_round:
  "last_tick s = g_tick_count s \<Longrightarrow> update_timers (s\<lparr>g_tick_count := g_tick_count s + 1\<rparr>) =
     (s\<lparr>g_tick_count := g_tick_count s + 1, last_tick := g_tick_count s + 1, g_timers := fst (update_slots (g_timers s))\<rparr>,
      snd (update_slots (g_timers s)))"
  by (simp add: update_timers_def split: prod.splits)

lemma timer_rounds_slot:
  "last_tick s = g_tick_count s \<Longrightarrow> i < length (g_timers s) \<Longrightarrow>
   g_timers (fst (timer_rounds n s)) ! i = map_option (fst \<circ> run_ticks n) (g_timers s ! i)"
proof (induction n arbitrary: s)
  case 0
  then show ?case by (simp add: option.map_ident_strong)
next
  case (Suc n)
  let ?s = "s\<lparr>g_tick_count := g_tick_count s + 1, last_tick := g_tick_count s + 1,
    g_timers := fst (update_slots (g_timers s))\<rparr>"
  have "g_timers (fst (timer_rounds n ?s)) ! i = map_option (fst \<circ> run_ticks n) (g_timers ?s ! i)"
    using Suc.prems by (intro Suc.IH) (simp_all add: length_update_slots)
  then show ?case
    using Suc.prems by (cases "g_timers s ! i")
      (simp_all add: update_round update_slots_nth case_prod_unfold Let_def)
qed

lemma run_ticks_periods:
  assumes "enabled t" "remaining t = interval t" "interval t \<noteq> 0"
  shows "run_ticks (k * unat (interval t)) t =
    (t\<lparr>count := count t + of_nat k\<rparr>, map (\<lambda>j. (callback t, count t + of_nat (Suc j))) [0..<k])"
  using assms
proof (induction k)
  case (Suc k)
  have "run_ticks (unat (interval t)) (t\<lparr>count := count t + of_nat k\<rparr>) =
      (t\<lparr>count := count t + of_nat (Suc k)\<rparr>, [(callback t, count t + of_nat (Suc k))])"
    using run_ticks_period [of "t\<lparr>count := count t + of_nat k\<rparr>"] assms
    by (simp add: unat_gt_0 algebra_simps)
  moreover have "Suc k * unat (interval t) = k * unat (interval t) + unat (interval t)" by simp
  ultimately show ?case using Suc by (simp only: run_ticks_add) (simp add: Let_def)
qed simp

section \<open>Properties\<close>

text \<open>\<open>add_timer\<close> puts the new timer into the first free slot of the table and returns its index;
  with no free slot it returns -1 and changes nothing.\<close>

theorem add_timer_correct:
  assumes "length (g_timers s) = MAX_TIMERS"
  shows "(\<forall>k. k < MAX_TIMERS \<longrightarrow> g_timers s ! k = None \<longrightarrow> (\<forall>j<k. g_timers s ! j \<noteq> None) \<longrightarrow>
      add_timer True iv start cb s = Inr (int k, s\<lparr>g_timers := (g_timers s)[k :=
        Some \<lparr>interval = ucast iv, count = 0, remaining = ucast iv, enabled = start, callback = cb\<rparr>]\<rparr>)) \<and>
    (None \<notin> set (g_timers s) \<longrightarrow> add_timer ok iv start cb s = Inr (-1, s))"
  using assms by (auto simp: add_timer_def add_timer_scan_free add_timer_scan_full)

text \<open>A running timer with a non-zero interval fires once per interval: after \<open>k\<close> times
  \<open>interval\<close> ticks its count has grown by exactly \<open>k\<close> and it is again a full interval away from the
  next call, whatever the other timers do.\<close>

theorem timer_periodic:
  assumes "last_tick s = g_tick_count s" "i < length (g_timers s)" "g_timers s ! i = Some t"
    and "enabled t" "remaining t = interval t" "interval t \<noteq> 0"
  shows "g_timers (fst (timer_rounds (k * unat (interval t)) s)) ! i = Some (t\<lparr>count := count t + of_nat k\<rparr>)"
  using timer_rounds_slot [OF assms(1,2)] run_ticks_periods [OF assms(4-6)] assms(3) by simp

text \<open>\<open>init_timer\<close> clears more memory than its table has: the 70 bytes that follow the array
  \<open>g_timers\<close> are overwritten with zero too.\<close>

theorem init_timer_overrun:
  assumes "4 * MAX_TIMERS \<le> i" "i < 90"
  shows "snd (init_timer p s m) (p + i) = 0"
  using assms
  by (simp add: init_timer_def sizeof_event_timer_def MAX_TIMERS_def memset_def memset_loop_eq wr_bytes_apply)

definition demo_timers :: "nat timers" where
  "demo_timers = \<lparr>g_timers = [Some \<lparr>interval = 3, count = 0, remaining = 3, enabled = True, callback = 7\<rparr>, None, None, None, None],
     g_tick_count = 9, last_tick = 9\<rparr>"

theorem add_timer_witness:
  "\<exists>s'. add_timer True 10 True 8 demo_timers = Inr (1, s') \<and> length (g_timers s') = 5"
proof -
  have "(\<forall>j<Suc 0. g_timers demo_timers ! j \<noteq> None)" by (simp add: demo_timers_def)
  then show ?thesis
    using add_timer_correct [of demo_timers 10 True 8 True]
    by (auto simp: demo_timers_def MAX_TIMERS_def dest!: spec [of _ "Suc 0"])
qed

theorem timer_periodic_witness:
  "g_timers (fst (timer_rounds 6 demo_timers)) ! 0 =
     Some \<lparr>interval = 3, count = 2, remaining = 3, enabled = True, callback = 7\<rparr>"
  using timer_periodic [of demo_timers 0 "\<lparr>interval = 3, count = 0, remaining = 3, enabled = True, callback = 7\<rparr>" 2]
  by (simp add: demo_timers_def)

theorem init_timer_overrun_witness: "snd (init_timer 100 demo_timers (\<lambda>_. 0xAA)) (100 + 20) = 0"
  using init_timer_overrun [of 20 100 demo_timers "\<lambda>_. 0xAA"] by (simp add: MAX_TIMERS_def)

end
