(* ===== verification/Ide_Device.thy ===== *)
theory Ide_Device
  imports Orion_Prelude
begin

text \<open>
  \<open>peripheral/RP2350B/ide_interface.c\<close>: the firmware that emulates an IDE disk on the 68000 bus and
  keeps its sectors on an SD card. The record has the file's static variables under their names, then
  the two DMA channels and the FIFOs of the data state machine. One function per helper and handler;
  the step relation at the end lets the host, the two DMA channels, their interrupt handlers and the
  task of the second core take turns in any order.

  The DMA channels are hardware: an armed channel moves one 16-bit word at a time between its buffer
  and a FIFO (with the two bytes swapped, as \<open>channel_config_set_bswap\<close> asks), stops after
  \<open>IDE_SECTOR_SIZE_WORDS\<close> words and then raises its interrupt. The SD hooks of \<open>main.c\<close> are inputs of
  the task: whether the call succeeded and the bytes it read.
\<close>

section \<open>State\<close>

datatype ide_dir_t = DIR_NONE | DIR_READ | DIR_WRITE

record ide_dev =
  g_dir :: ide_dir_t
  g_lba :: u32
  g_remaining_sectors :: u16
  g_active_buf :: nat
  g_buf_ready :: "nat \<Rightarrow> bool"
  g_buf :: "nat \<Rightarrow> u8 list"
  g_need_fetch :: bool
  g_fetch_buf :: nat
  g_fetch_lba :: u32
  g_need_flush :: bool
  g_flush_buf :: nat
  g_flush_lba :: u32
  g_reg_error_features :: u8
  g_reg_sector_count :: u8
  g_reg_lba_low :: u8
  g_reg_lba_mid :: u8
  g_reg_lba_high :: u8
  g_reg_device_head :: u8
  g_reg_status :: u8
  g_sd_sectors :: u32
  dma_b :: "(nat \<times> nat) option"
  dma_b_irq :: bool
  tx_fifo :: "u16 list"
  dma_c :: "(nat \<times> nat) option"
  dma_c_irq :: bool
  rx_fifo :: "u16 list"

definition IDE_STATUS_BSY :: u8 where "IDE_STATUS_BSY = 0x80"
definition IDE_STATUS_DRDY :: u8 where "IDE_STATUS_DRDY = 0x40"
definition IDE_STATUS_DRQ :: u8 where "IDE_STATUS_DRQ = 0x08"
definition IDE_STATUS_ERR :: u8 where "IDE_STATUS_ERR = 0x01"

lemmas ide_status_defs = IDE_STATUS_BSY_def IDE_STATUS_DRDY_def IDE_STATUS_DRQ_def IDE_STATUS_ERR_def

section \<open>Helpers\<close>

definition set_busy :: "ide_dev \<Rightarrow> ide_dev" where
  "set_busy d = d\<lparr>g_reg_status := (g_reg_status d OR IDE_STATUS_BSY) AND NOT IDE_STATUS_DRQ\<rparr>"

definition set_drq :: "ide_dev \<Rightarrow> ide_dev" where
  "set_drq d = d\<lparr>g_reg_status := (g_reg_status d OR IDE_STATUS_DRQ) AND NOT IDE_STATUS_BSY\<rparr>"

definition clear_drq :: "ide_dev \<Rightarrow> ide_dev" where
  "clear_drq d = d\<lparr>g_reg_status := g_reg_status d AND NOT IDE_STATUS_DRQ\<rparr>"

definition set_ready_idle :: "ide_dev \<Rightarrow> ide_dev" where
  "set_ready_idle d = d\<lparr>g_reg_status := IDE_STATUS_DRDY\<rparr>"

definition reset_data_path :: "ide_dev \<Rightarrow> ide_dev" where
  "reset_data_path d =
     d\<lparr>dma_b := None, dma_c := None, dma_b_irq := False, dma_c_irq := False, tx_fifo := [], rx_fifo := []\<rparr>"

definition arm_dma_b_from_buffer :: "nat \<Rightarrow> ide_dev \<Rightarrow> ide_dev" where
  "arm_dma_b_from_buffer b d = d\<lparr>dma_b := Some (b, 0)\<rparr>"

definition arm_dma_c_into_buffer :: "nat \<Rightarrow> ide_dev \<Rightarrow> ide_dev" where
  "arm_dma_c_into_buffer b d = d\<lparr>dma_c := Some (b, 0)\<rparr>"

definition current_lba_from_regs :: "ide_dev \<Rightarrow> u32" where
  "current_lba_from_regs d =
     push_bit 24 (ucast (g_reg_device_head d AND 0x0F)) OR
     push_bit 16 (ucast (g_reg_lba_high d)) OR
     push_bit 8 (ucast (g_reg_lba_mid d)) OR
     ucast (g_reg_lba_low d)"

definition sector_count_from_reg :: "ide_dev \<Rightarrow> u16" where
  "sector_count_from_reg d = (if g_reg_sector_count d = 0 then 256 else ucast (g_reg_sector_count d))"

definition abort_command :: "ide_dev \<Rightarrow> ide_dev" where
  "abort_command d = d\<lparr>g_reg_error_features := 0x04, g_reg_status := IDE_STATUS_DRDY OR IDE_STATUS_ERR\<rparr>"

section \<open>Commands\<close>

definition begin_read_sequence :: "ide_dev \<Rightarrow> ide_dev" where
  "begin_read_sequence d0 =
     (let d = reset_data_path d0;
          d = d\<lparr>g_dir := DIR_READ, g_lba := current_lba_from_regs d,
                g_remaining_sectors := sector_count_from_reg d, g_active_buf := 0,
                g_buf_ready := (g_buf_ready d)(0 := False, 1 := False)\<rparr>;
          d = set_busy d
      in d\<lparr>g_fetch_buf := 0, g_fetch_lba := g_lba d, g_need_fetch := True\<rparr>)"

definition begin_write_sequence :: "ide_dev \<Rightarrow> ide_dev" where
  "begin_write_sequence d0 =
     (let d = reset_data_path d0;
          d = d\<lparr>g_dir := DIR_WRITE, g_lba := current_lba_from_regs d,
                g_remaining_sectors := sector_count_from_reg d, g_active_buf := 0,
                g_buf_ready := (g_buf_ready d)(0 := False, 1 := False)\<rparr>
      in set_drq (arm_dma_c_into_buffer 0 d))"

text \<open>The identify block is built as 256 little-endian words in the first buffer.\<close>

fun id_put_string :: "u16 list \<Rightarrow> nat \<Rightarrow> nat \<Rightarrow> u8 list \<Rightarrow> u16 list" where
  "id_put_string w first_word 0 s = w"
| "id_put_string w first_word (Suc n) s =
     (let (c0, s) = (case s of [] \<Rightarrow> (0x20, []) | c # s' \<Rightarrow> (c, s'));
          (c1, s) = (case s of [] \<Rightarrow> (0x20, []) | c # s' \<Rightarrow> (c, s'))
      in id_put_string (w[first_word := push_bit 8 (ucast c0) OR ucast c1]) (first_word + 1) n s)"

definition ascii :: "string \<Rightarrow> u8 list" where
  "ascii s = map (\<lambda>c. of_nat (of_char c)) s"

definition le_bytes16 :: "u16 list \<Rightarrow> u8 list" where
  "le_bytes16 w = concat (map (\<lambda>x. [ucast x, ucast (drop_bit 8 x)]) w)"

definition build_identify_fields :: "u32 \<Rightarrow> u16 list" where
  "build_identify_fields sectors =
     (let total = (if sectors > 0x0FFFFFFF then 0x0FFFFFFF else sectors);
          cyl = 16383; hd = 16; spt = 63;
          chs = (cyl * hd * spt :: u32);
          chs = (if chs > total then total else chs);
          w = replicate 256 (0 :: u16);
          w = w[0 := 0x0040, 1 := ucast cyl, 3 := ucast hd, 6 := ucast spt];
          w = id_put_string w 10 10 (ascii ''ORION68-0001'');
          w = id_put_string w 23 4 (ascii ''2.3.0'');
          w = id_put_string w 27 20 (ascii ''picoIDE RP2350B SD'')
      in w[47 := 0, 49 := 0x0200, 53 := 0x0001, 54 := ucast cyl, 55 := ucast hd, 56 := ucast spt,
           57 := ucast (chs AND 0xFFFF), 58 := ucast (drop_bit 16 chs),
           60 := ucast (total AND 0xFFFF), 61 := ucast (drop_bit 16 total),
           80 := 0x007E, 83 := 0x4000, 84 := 0x4000, 87 := 0x4000, 255 := 0x00A5])"

definition build_identify :: "u32 \<Rightarrow> u16 list" where
  "build_identify sectors =
     (let w = build_identify_fields sectors;
          sum = foldl (+) 0 (le_bytes16 w)
      in w[255 := w ! 255 OR push_bit 8 (ucast (0 - sum))])"

definition begin_identify :: "ide_dev \<Rightarrow> ide_dev" where
  "begin_identify d0 =
     (if g_sd_sectors d0 = 0 then abort_command d0
      else
        (let d = set_busy (reset_data_path d0);
             d = d\<lparr>g_dir := DIR_READ, g_remaining_sectors := 1, g_active_buf := 0,
                   g_buf := (g_buf d)(0 := le_bytes16 (build_identify (g_sd_sectors d))),
                   g_buf_ready := (g_buf_ready d)(0 := True, 1 := False)\<rparr>
         in set_drq (arm_dma_b_from_buffer 0 d)))"

definition dispatch_command :: "u8 \<Rightarrow> ide_dev \<Rightarrow> ide_dev" where
  "dispatch_command cmd d0 =
     (let d = d0\<lparr>g_reg_error_features := 0, g_reg_status := IDE_STATUS_DRDY OR IDE_STATUS_BSY\<rparr> in
      if cmd = 0x20 then begin_read_sequence d
      else if cmd = 0x30 then begin_write_sequence d
      else if cmd = 0xEC then begin_identify d
      else if cmd = 0x90 then
        set_ready_idle ((reset_data_path d)\<lparr>g_dir := DIR_NONE, g_reg_error_features := 0x01\<rparr>)
      else if cmd \<in> {0x91, 0xEF, 0xE7, 0xE0, 0xE1, 0xE2} \<or> 0x10 \<le> cmd \<and> cmd \<le> 0x1F then
        set_ready_idle ((reset_data_path d)\<lparr>g_dir := DIR_NONE, g_reg_error_features := 0x00\<rparr>)
      else abort_command d)"

section \<open>Interrupt handlers\<close>

definition decode_taskfile_write :: "u32 \<Rightarrow> u8 \<times> u8" where
  "decode_taskfile_write raw = (ucast (drop_bit 16 raw AND 0x7), ucast (raw AND 0xFF))"

text \<open>One turn of the loop of \<open>pio_taskfile_write_irq_handler\<close>; the loop runs it for every queued word.\<close>

definition taskfile_write :: "u32 \<Rightarrow> ide_dev \<Rightarrow> ide_dev" where
  "taskfile_write raw d =
     (let (addr, data) = decode_taskfile_write raw in
      if addr = 1 then d\<lparr>g_reg_error_features := data\<rparr>
      else if addr = 2 then d\<lparr>g_reg_sector_count := data\<rparr>
      else if addr = 3 then d\<lparr>g_reg_lba_low := data\<rparr>
      else if addr = 4 then d\<lparr>g_reg_lba_mid := data\<rparr>
      else if addr = 5 then d\<lparr>g_reg_lba_high := data\<rparr>
      else if addr = 6 then d\<lparr>g_reg_device_head := data\<rparr>
      else if addr = 7 then dispatch_command data d
      else d)"

definition pio_taskfile_write_irq_handler :: "u32 list \<Rightarrow> ide_dev \<Rightarrow> ide_dev" where
  "pio_taskfile_write_irq_handler raws d = fold taskfile_write raws d"

definition taskfile_read :: "u32 \<Rightarrow> ide_dev \<Rightarrow> u8 \<times> ide_dev" where
  "taskfile_read raw d =
     (let addr = (ucast (drop_bit 16 raw AND 0x7) :: u8) in
      if addr = 1 then (g_reg_error_features d, d)
      else if addr = 2 then (g_reg_sector_count d, d)
      else if addr = 3 then (g_reg_lba_low d, d)
      else if addr = 4 then (g_reg_lba_mid d, d)
      else if addr = 5 then (g_reg_lba_high d, d)
      else if addr = 6 then (g_reg_device_head d, d)
      else if addr = 7 then
        (let d = (if g_dir d = DIR_WRITE \<and> g_reg_status d AND IDE_STATUS_DRQ \<noteq> 0 \<and> dma_c d = None
                  then set_busy d else d)
         in (g_reg_status d, d))
      else (0xFF, d))"

fun pio_taskfile_read_irq_handler :: "u32 list \<Rightarrow> ide_dev \<Rightarrow> u8 list \<times> ide_dev" where
  "pio_taskfile_read_irq_handler [] d = ([], d)"
| "pio_taskfile_read_irq_handler (raw # raws) d =
     (let (v, d) = taskfile_read raw d;
          (vs, d) = pio_taskfile_read_irq_handler raws d
      in (v # vs, d))"

definition dma_b_irq_handler :: "ide_dev \<Rightarrow> ide_dev" where
  "dma_b_irq_handler d0 =
     (let d = d0\<lparr>dma_b_irq := False\<rparr>;
          d = d\<lparr>g_buf_ready := (g_buf_ready d)(g_active_buf d := False), g_lba := g_lba d + 1,
                g_remaining_sectors := g_remaining_sectors d - 1\<rparr>
      in if g_remaining_sectors d = 0 then (set_ready_idle d)\<lparr>g_dir := DIR_NONE\<rparr>
         else
           (let d = set_busy (d\<lparr>g_active_buf := g_active_buf d XOR 1\<rparr>)
            in d\<lparr>g_fetch_buf := g_active_buf d, g_fetch_lba := g_lba d, g_need_fetch := True\<rparr>))"

definition dma_c_irq_handler :: "ide_dev \<Rightarrow> ide_dev" where
  "dma_c_irq_handler d0 =
     (let d = set_busy (d0\<lparr>dma_c_irq := False\<rparr>)
      in d\<lparr>g_buf_ready := (g_buf_ready d)(0 := True), g_flush_buf := 0, g_flush_lba := g_lba d,
           g_need_flush := True\<rparr>)"

section \<open>The task of the second core\<close>

text \<open>
  Each branch of \<open>ide_interface_task\<close> takes a request, makes the blocking call of the SD hook and
  publishes the result. \<open>ok\<close> is the hook's return value, \<open>data\<close> what it left in the buffer.
\<close>

definition task_fetch_done :: "nat \<Rightarrow> bool \<Rightarrow> u8 list \<Rightarrow> ide_dev \<Rightarrow> ide_dev" where
  "task_fetch_done b ok data d0 =
     (let d = d0\<lparr>g_buf := (g_buf d0)(b := data)\<rparr> in
      if ok then
        (let d = d\<lparr>g_buf_ready := (g_buf_ready d)(b := True)\<rparr> in
         if g_dir d = DIR_READ \<and> g_active_buf d = b \<and> g_reg_status d AND IDE_STATUS_BSY \<noteq> 0
         then set_drq (arm_dma_b_from_buffer b d) else d)
      else (abort_command d)\<lparr>g_dir := DIR_NONE\<rparr>)"

definition task_flush_done :: "nat \<Rightarrow> u32 \<Rightarrow> bool \<Rightarrow> ide_dev \<Rightarrow> ide_dev" where
  "task_flush_done b lba ok d0 =
     (let d = d0\<lparr>g_buf_ready := (g_buf_ready d0)(b := False)\<rparr> in
      if \<not> ok then (abort_command d)\<lparr>g_dir := DIR_NONE\<rparr>
      else
        (let d = d\<lparr>g_remaining_sectors := g_remaining_sectors d - 1\<rparr> in
         if g_remaining_sectors d = 0 then (set_ready_idle d)\<lparr>g_dir := DIR_NONE\<rparr>
         else set_drq (arm_dma_c_into_buffer 0 (d\<lparr>g_lba := lba + 1\<rparr>))))"

text \<open>A whole call of the task; the hooks are functions of the block address.\<close>

definition ide_interface_task ::
    "(u32 \<Rightarrow> bool \<times> u8 list) \<Rightarrow> (u32 \<Rightarrow> u8 list \<Rightarrow> bool) \<Rightarrow> ide_dev \<Rightarrow> ide_dev" where
  "ide_interface_task sd_read sd_write d0 =
     (let d = (if g_need_fetch d0
               then (let (ok, data) = sd_read (g_fetch_lba d0)
                     in task_fetch_done (g_fetch_buf d0) ok data (d0\<lparr>g_need_fetch := False\<rparr>))
               else d0)
      in if g_need_flush d
         then task_flush_done (g_flush_buf d) (g_flush_lba d)
                (sd_write (g_flush_lba d) (g_buf d (g_flush_buf d))) (d\<lparr>g_need_flush := False\<rparr>)
         else d)"

definition ide_interface_init :: "ide_dev \<Rightarrow> ide_dev" where
  "ide_interface_init d = set_ready_idle (d\<lparr>g_buf_ready := (g_buf_ready d)(0 := False, 1 := False)\<rparr>)"

section \<open>The disk seen from the bus\<close>

text \<open>Sector bytes and bus words: the byte at the lower address is the high half of the word.\<close>

definition be_word :: "u8 \<Rightarrow> u8 \<Rightarrow> u16" where
  "be_word a b = push_bit 8 (ucast a) OR ucast b"

definition word_hi :: "u16 \<Rightarrow> u8" where
  "word_hi w = ucast (drop_bit 8 w)"

definition word_lo :: "u16 \<Rightarrow> u8" where
  "word_lo w = ucast w"

definition buf_word :: "u8 list \<Rightarrow> nat \<Rightarrow> u16" where
  "buf_word bs i = be_word (bs ! (2 * i)) (bs ! (2 * i + 1))"

definition sector_words :: "u8 list \<Rightarrow> u16 list" where
  "sector_words bs = map (buf_word bs) [0..<256]"

definition dma_b_move :: "nat \<Rightarrow> nat \<Rightarrow> ide_dev \<Rightarrow> ide_dev" where
  "dma_b_move b i d =
     d\<lparr>tx_fifo := tx_fifo d @ [buf_word (g_buf d b) i],
       dma_b := (if i = 255 then None else Some (b, i + 1)), dma_b_irq := (i = 255)\<rparr>"

definition dma_c_move :: "nat \<Rightarrow> nat \<Rightarrow> u16 \<Rightarrow> u16 list \<Rightarrow> ide_dev \<Rightarrow> ide_dev" where
  "dma_c_move b i w ws d =
     d\<lparr>rx_fifo := ws, g_buf := (g_buf d)(b := (g_buf d b)[2 * i := word_hi w, 2 * i + 1 := word_lo w]),
       dma_c := (if i = 255 then None else Some (b, i + 1)), dma_c_irq := (i = 255)\<rparr>"

record ide_sys =
  sy_dev :: ide_dev
  sy_card :: "u32 \<Rightarrow> u8 list"
  sy_fetch :: "(nat \<times> u32) option"
  sy_flush :: "(nat \<times> u32) option"
  sy_got :: "u16 list"
  sy_put :: "u16 list"

datatype ide_label =
    HostWriteReg u32 | HostReadReg u32 u8 | HostReadData u16 | HostWriteData u16
  | DmaB | IrqB | DmaC | IrqC | TakeFetch | FetchDone bool | TakeFlush | FlushDone bool

text \<open>
  \<open>sy_got\<close> and \<open>sy_put\<close> are the data words the host has read and written. The FIFOs are four words
  deep; a host access to an empty or full FIFO waits (the state machine withholds DTACK), so it is no
  step. A failing SD read leaves anything in the buffer, a failing SD write anything in the block.
\<close>

inductive ide_step :: "ide_sys \<Rightarrow> ide_label \<Rightarrow> ide_sys \<Rightarrow> bool" where
  host_write_reg: "ide_step s (HostWriteReg raw) (s\<lparr>sy_dev := taskfile_write raw (sy_dev s)\<rparr>)"
| host_read_reg: "taskfile_read raw (sy_dev s) = (v, d) \<Longrightarrow> ide_step s (HostReadReg raw v) (s\<lparr>sy_dev := d\<rparr>)"
| host_read_data: "tx_fifo (sy_dev s) = w # ws \<Longrightarrow>
    ide_step s (HostReadData w) (s\<lparr>sy_dev := (sy_dev s)\<lparr>tx_fifo := ws\<rparr>, sy_got := sy_got s @ [w]\<rparr>)"
| host_write_data: "length (rx_fifo (sy_dev s)) < 4 \<Longrightarrow>
    ide_step s (HostWriteData w)
      (s\<lparr>sy_dev := (sy_dev s)\<lparr>rx_fifo := rx_fifo (sy_dev s) @ [w]\<rparr>, sy_put := sy_put s @ [w]\<rparr>)"
| dma_b_word: "dma_b (sy_dev s) = Some (b, i) \<Longrightarrow> length (tx_fifo (sy_dev s)) < 4 \<Longrightarrow>
    ide_step s DmaB (s\<lparr>sy_dev := dma_b_move b i (sy_dev s)\<rparr>)"
| dma_b_interrupt: "dma_b_irq (sy_dev s) \<Longrightarrow>
    ide_step s IrqB (s\<lparr>sy_dev := dma_b_irq_handler (sy_dev s)\<rparr>)"
| dma_c_word: "dma_c (sy_dev s) = Some (b, i) \<Longrightarrow> rx_fifo (sy_dev s) = w # ws \<Longrightarrow>
    ide_step s DmaC (s\<lparr>sy_dev := dma_c_move b i w ws (sy_dev s)\<rparr>)"
| dma_c_interrupt: "dma_c_irq (sy_dev s) \<Longrightarrow>
    ide_step s IrqC (s\<lparr>sy_dev := dma_c_irq_handler (sy_dev s)\<rparr>)"
| take_fetch: "g_need_fetch (sy_dev s) \<Longrightarrow> sy_fetch s = None \<Longrightarrow> sy_flush s = None \<Longrightarrow>
    ide_step s TakeFetch (s\<lparr>sy_dev := (sy_dev s)\<lparr>g_need_fetch := False\<rparr>,
      sy_fetch := Some (g_fetch_buf (sy_dev s), g_fetch_lba (sy_dev s))\<rparr>)"
| fetch_ok: "sy_fetch s = Some (b, lba) \<Longrightarrow>
    ide_step s (FetchDone True) (s\<lparr>sy_dev := task_fetch_done b True (sy_card s lba) (sy_dev s), sy_fetch := None\<rparr>)"
| fetch_fail: "sy_fetch s = Some (b, lba) \<Longrightarrow> length data = 512 \<Longrightarrow>
    ide_step s (FetchDone False) (s\<lparr>sy_dev := task_fetch_done b False data (sy_dev s), sy_fetch := None\<rparr>)"
| take_flush: "g_need_flush (sy_dev s) \<Longrightarrow> sy_flush s = None \<Longrightarrow> sy_fetch s = None \<Longrightarrow>
    ide_step s TakeFlush (s\<lparr>sy_dev := (sy_dev s)\<lparr>g_need_flush := False\<rparr>,
      sy_flush := Some (g_flush_buf (sy_dev s), g_flush_lba (sy_dev s))\<rparr>)"
| flush_ok: "sy_flush s = Some (b, lba) \<Longrightarrow>
    ide_step s (FlushDone True) (s\<lparr>sy_card := (sy_card s)(lba := g_buf (sy_dev s) b),
      sy_dev := task_flush_done b lba True (sy_dev s), sy_flush := None\<rparr>)"
| flush_fail: "sy_flush s = Some (b, lba) \<Longrightarrow> length data = 512 \<Longrightarrow>
    ide_step s (FlushDone False) (s\<lparr>sy_card := (sy_card s)(lba := data),
      sy_dev := task_flush_done b lba False (sy_dev s), sy_flush := None\<rparr>)"

inductive ide_run :: "ide_sys \<Rightarrow> ide_label list \<Rightarrow> ide_sys \<Rightarrow> bool" where
  run_nil: "ide_run s [] s"
| run_step: "ide_run s ls s' \<Longrightarrow> ide_step s' l s'' \<Longrightarrow> ide_run s (ls @ [l]) s''"

text \<open>Nothing in progress: the state in which a host may issue a command.\<close>

definition ide_idle :: "ide_sys \<Rightarrow> bool" where
  "ide_idle s \<longleftrightarrow> \<not> g_need_fetch (sy_dev s) \<and> \<not> g_need_flush (sy_dev s) \<and> sy_fetch s = None \<and> sy_flush s = None"

lemmas ide_helper_defs = set_busy_def set_drq_def clear_drq_def set_ready_idle_def reset_data_path_def
  arm_dma_b_from_buffer_def arm_dma_c_into_buffer_def abort_command_def

lemmas ide_handler_defs = begin_read_sequence_def begin_write_sequence_def begin_identify_def
  dispatch_command_def taskfile_write_def taskfile_read_def dma_b_irq_handler_def dma_c_irq_handler_def
  task_fetch_done_def task_flush_done_def dma_b_move_def dma_c_move_def

end
