(* ===== verification/Ide_Transfer.thy ===== *)
theory Ide_Transfer
  imports Ide_Device
begin

text \<open>
  What the emulated disk does with a READ SECTORS and a WRITE SECTORS command, under every
  interleaving of the host, the DMA channels, the interrupt handlers and the SD task: the invariants
  name the phases of a command, one lemma per kind of step shows that it is kept.
\<close>

section \<open>Reading\<close>

definition read_stream :: "(u32 \<Rightarrow> u8 list) \<Rightarrow> u32 \<Rightarrow> nat \<Rightarrow> u16 list" where
  "read_stream cd lba n = concat (map (\<lambda>j. sector_words (cd (lba + of_nat j))) [0..<n])"

text \<open>
  The phases of a READ SECTORS command for \<open>n\<close> sectors from block \<open>l\<close>, when \<open>k\<close> sectors are done:
  waiting for the task, in the SD read, moving words, interrupt raised, finished, failed.
\<close>

definition read_frame :: "(u32 \<Rightarrow> u8 list) \<Rightarrow> ide_sys \<Rightarrow> bool" where
  "read_frame cd s \<longleftrightarrow> sy_card s = cd \<and> \<not> g_need_flush (sy_dev s) \<and> sy_flush s = None \<and>
     dma_c (sy_dev s) = None \<and> \<not> dma_c_irq (sy_dev s)"

definition read_active :: "u32 \<Rightarrow> nat \<Rightarrow> nat \<Rightarrow> ide_sys \<Rightarrow> bool" where
  "read_active l n k s \<longleftrightarrow> k < n \<and> g_dir (sy_dev s) = DIR_READ \<and>
     unat (g_remaining_sectors (sy_dev s)) = n - k \<and> g_lba (sy_dev s) = l + of_nat k"

definition words_out :: "ide_sys \<Rightarrow> u16 list" where
  "words_out s = sy_got s @ tx_fifo (sy_dev s)"

datatype read_phase = RWait | RFetch | RSend nat | RSent | RDone | RFail

fun read_at :: "(u32 \<Rightarrow> u8 list) \<Rightarrow> u32 \<Rightarrow> nat \<Rightarrow> nat \<Rightarrow> read_phase \<Rightarrow> ide_sys \<Rightarrow> bool" where
  "read_at cd l n k RWait s \<longleftrightarrow> read_active l n k s \<and> words_out s = read_stream cd l k \<and>
     g_need_fetch (sy_dev s) \<and> sy_fetch s = None \<and> dma_b (sy_dev s) = None \<and> \<not> dma_b_irq (sy_dev s) \<and>
     g_reg_status (sy_dev s) = 0xC0 \<and> g_fetch_buf (sy_dev s) = g_active_buf (sy_dev s) \<and>
     g_fetch_lba (sy_dev s) = g_lba (sy_dev s)"
| "read_at cd l n k RFetch s \<longleftrightarrow> read_active l n k s \<and> words_out s = read_stream cd l k \<and>
     \<not> g_need_fetch (sy_dev s) \<and> sy_fetch s = Some (g_active_buf (sy_dev s), g_lba (sy_dev s)) \<and>
     dma_b (sy_dev s) = None \<and> \<not> dma_b_irq (sy_dev s) \<and> g_reg_status (sy_dev s) = 0xC0"
| "read_at cd l n k (RSend i) s \<longleftrightarrow> read_active l n k s \<and> i < 256 \<and>
     words_out s = read_stream cd l k @ take i (sector_words (cd (l + of_nat k))) \<and>
     \<not> g_need_fetch (sy_dev s) \<and> sy_fetch s = None \<and> dma_b (sy_dev s) = Some (g_active_buf (sy_dev s), i) \<and>
     g_buf (sy_dev s) (g_active_buf (sy_dev s)) = cd (l + of_nat k) \<and> \<not> dma_b_irq (sy_dev s) \<and>
     g_reg_status (sy_dev s) = 0x48"
| "read_at cd l n k RSent s \<longleftrightarrow> read_active l n k s \<and> words_out s = read_stream cd l (Suc k) \<and>
     \<not> g_need_fetch (sy_dev s) \<and> sy_fetch s = None \<and> dma_b (sy_dev s) = None \<and> dma_b_irq (sy_dev s) \<and>
     g_reg_status (sy_dev s) = 0x48"
| "read_at cd l n k RDone s \<longleftrightarrow> k = n \<and> g_dir (sy_dev s) = DIR_NONE \<and> words_out s = read_stream cd l n \<and>
     \<not> g_need_fetch (sy_dev s) \<and> sy_fetch s = None \<and> dma_b (sy_dev s) = None \<and> \<not> dma_b_irq (sy_dev s) \<and>
     g_reg_status (sy_dev s) = 0x40"
| "read_at cd l n k RFail s \<longleftrightarrow> k < n \<and> g_dir (sy_dev s) = DIR_NONE \<and> words_out s = read_stream cd l k \<and>
     \<not> g_need_fetch (sy_dev s) \<and> sy_fetch s = None \<and> dma_b (sy_dev s) = None \<and> \<not> dma_b_irq (sy_dev s) \<and>
     g_reg_status (sy_dev s) = 0x41"

definition read_inv :: "(u32 \<Rightarrow> u8 list) \<Rightarrow> u32 \<Rightarrow> nat \<Rightarrow> ide_sys \<Rightarrow> bool" where
  "read_inv cd l n s \<longleftrightarrow> read_frame cd s \<and> (\<exists>k ph. read_at cd l n k ph s)"

lemma read_stream_Suc:
  "read_stream cd l (Suc k) = read_stream cd l k @ sector_words (cd (l + of_nat k))"
  by (simp add: read_stream_def)

lemma length_sector_words [simp]: "length (sector_words bs) = 256"
  by (simp add: sector_words_def)

lemma nth_sector_words: "i < 256 \<Longrightarrow> sector_words bs ! i = buf_word bs i"
  by (simp add: sector_words_def)

lemma take_Suc_sector_words: "i < 256 \<Longrightarrow> take (Suc i) (sector_words bs) = take i (sector_words bs) @ [buf_word bs i]"
  by (simp add: take_Suc_conv_app_nth nth_sector_words)

definition host_reads :: "ide_label \<Rightarrow> bool" where
  "host_reads l \<longleftrightarrow> (case l of HostWriteReg _ \<Rightarrow> False | HostWriteData _ \<Rightarrow> False | _ \<Rightarrow> True)"

lemmas read_simps = read_frame_def read_active_def words_out_def

lemma read_step_host:
  assumes "read_frame cd s" "read_at cd l n k ph s" "ide_step s (HostReadReg raw v) s'"
  shows "read_frame cd s' \<and> read_at cd l n k ph s'"
  using assms(3,1,2)
  by (cases ph; cases rule: ide_step.cases)
    (auto simp: read_simps taskfile_read_def Let_def split: if_splits)

lemma read_step_data:
  assumes "read_frame cd s" "read_at cd l n k ph s" "ide_step s (HostReadData w) s'"
  shows "read_frame cd s' \<and> read_at cd l n k ph s'"
  using assms(3,1,2)
  by (cases ph; cases rule: ide_step.cases) (auto simp: read_simps)

lemma read_step_fetch:
  assumes "read_frame cd s" "read_at cd l n k ph s" "ide_step s TakeFetch s'"
  shows "read_frame cd s' \<and> read_at cd l n k RFetch s'"
  using assms(3,1,2)
  by (cases ph; cases rule: ide_step.cases) (auto simp: read_simps)

lemma read_step_fetched:
  assumes "read_frame cd s" "read_at cd l n k ph s" "ide_step s (FetchDone ok) s'"
  shows "read_frame cd s' \<and> read_at cd l n k (if ok then RSend 0 else RFail) s'"
  using assms(3,1,2)
  by (cases ph; cases rule: ide_step.cases)
    (auto simp: read_simps task_fetch_done_def Let_def ide_helper_defs ide_status_defs)

lemma read_step_dma:
  assumes "read_frame cd s" "read_at cd l n k ph s" "ide_step s DmaB s'"
  shows "read_frame cd s' \<and> (\<exists>ph'. read_at cd l n k ph' s')"
proof -
  from assms obtain i where ph: "ph = RSend i" and i: "i < 256"
    by (cases ph; cases rule: ide_step.cases [OF assms(3)]) (auto simp: read_simps)
  have snoc: "a @ b = c @ d \<Longrightarrow> d @ [x] = e \<Longrightarrow> a @ b @ [x] = c @ e" for a b c d e and x :: u16
    by (metis append_assoc)
  have full: "take 255 (sector_words bs) @ [buf_word bs 255] = sector_words bs" for bs
    using take_Suc_sector_words [of 255 bs] by simp
  have "read_frame cd s' \<and> read_at cd l n k (if i = 255 then RSent else RSend (Suc i)) s'"
    using assms(3,1,2) unfolding ph
    by (cases rule: ide_step.cases)
      (auto simp: read_simps dma_b_move_def take_Suc_sector_words read_stream_Suc full intro: snoc [OF _ full])
  then show ?thesis by blast
qed


lemma read_step_irq:
  assumes "read_frame cd s" "read_at cd l n k ph s" "ide_step s IrqB s'"
  shows "read_frame cd s' \<and> (\<exists>ph'. read_at cd l n (Suc k) ph' s')"
proof -
  have sent: "ph = RSent" using assms(3,2)
    by (cases ph; cases rule: ide_step.cases) (auto simp: read_simps)
  let ?r = "g_remaining_sectors (sy_dev s)"
  have r: "unat ?r = n - k" "k < n" using assms(2) sent by (auto simp: read_simps)
  then have r1: "unat (?r - 1) = n - Suc k" by (subst unat_minus_one) auto
  then have last: "?r - 1 = 0 \<longleftrightarrow> Suc k = n" using r by (auto simp: unat_eq_0 [symmetric])
  have "read_frame cd s' \<and> read_at cd l n (Suc k) (if Suc k = n then RDone else RWait) s'"
    using assms(3,1,2) r r1 last unfolding sent
    by (cases rule: ide_step.cases)
      (auto simp: read_simps dma_b_irq_handler_def Let_def ide_helper_defs ide_status_defs)
  then show ?thesis by blast
qed

lemma read_step_other:
  assumes "read_frame cd s" "read_at cd l n k ph s" "ide_step s lb s'"
    "lb \<in> {DmaC, IrqC, TakeFlush, FlushDone True, FlushDone False}"
  shows False
  using assms(3,1,2,4) by (cases rule: ide_step.cases) (auto simp: read_simps)

lemma read_inv_step: "read_inv cd l n s \<Longrightarrow> ide_step s lb s' \<Longrightarrow> host_reads lb \<Longrightarrow> read_inv cd l n s'"
proof -
  assume inv: "read_inv cd l n s" and st: "ide_step s lb s'" and hr: "host_reads lb"
  then obtain k ph where fr: "read_frame cd s" and at: "read_at cd l n k ph s"
    by (auto simp: read_inv_def)
  show ?thesis
  proof (cases lb)
    case (HostReadReg raw v)
    then show ?thesis using read_step_host [OF fr at] st unfolding read_inv_def by blast
  next
    case (HostReadData w)
    then show ?thesis using read_step_data [OF fr at] st unfolding read_inv_def by blast
  next
    case DmaB
    then show ?thesis using read_step_dma [OF fr at] st unfolding read_inv_def by blast
  next
    case IrqB
    then show ?thesis using read_step_irq [OF fr at] st unfolding read_inv_def by blast
  next
    case TakeFetch
    then show ?thesis using read_step_fetch [OF fr at] st unfolding read_inv_def by blast
  next
    case (FetchDone b)
    then show ?thesis using read_step_fetched [OF fr at] st unfolding read_inv_def by blast
  next
    case (FlushDone b)
    then show ?thesis using read_step_other [OF fr at st] by (cases b) auto
  qed (use hr read_step_other [OF fr at st] in \<open>simp_all add: host_reads_def\<close>)
qed

lemma read_inv_run:
  "ide_run s ls s' \<Longrightarrow> read_inv cd l n s \<Longrightarrow> list_all host_reads ls \<Longrightarrow> read_inv cd l n s'"
  by (induction rule: ide_run.induct) (auto intro: read_inv_step)

lemma read_inv_begin:
  assumes "ide_idle s" "sy_got s = []"
  shows "read_inv (sy_card s) (current_lba_from_regs (sy_dev s)) (unat (sector_count_from_reg (sy_dev s)))
    (s\<lparr>sy_dev := dispatch_command 0x20 (sy_dev s)\<rparr>)"
proof -
  let ?n = "unat (sector_count_from_reg (sy_dev s))"
  have n: "0 < ?n" by (simp add: sector_count_from_reg_def unat_gt_0)
  show ?thesis
    unfolding read_inv_def using assms n
    by (intro conjI exI [of _ 0] exI [of _ RWait])
      (simp_all add: ide_idle_def read_simps dispatch_command_def begin_read_sequence_def Let_def
        ide_helper_defs ide_status_defs current_lba_from_regs_def sector_count_from_reg_def read_stream_def)
qed

lemma prefix_read_stream: "k \<le> n \<Longrightarrow> prefix (read_stream cd l k) (read_stream cd l n)"
proof (induction n)
  case (Suc n)
  then show ?case by (cases "k = Suc n") (auto simp: read_stream_Suc)
qed (simp add: read_stream_def)

lemma read_inv_prefix: "read_inv cd l n s \<Longrightarrow> prefix (words_out s) (read_stream cd l n)"
proof -
  assume "read_inv cd l n s"
  then obtain k ph where at: "read_at cd l n k ph s" by (auto simp: read_inv_def)
  have "k < n \<Longrightarrow> prefix (read_stream cd l k @ take i (sector_words (cd (l + of_nat k)))) (read_stream cd l n)" for i
    by (rule prefix_order.trans [OF _ prefix_read_stream [of "Suc k"]]) (auto simp: read_stream_Suc take_is_prefix)
  then show ?thesis
    using at prefix_read_stream [of k n cd l] prefix_read_stream [of "Suc k" n cd l]
    by (cases ph) (auto simp: read_active_def)
qed

text \<open>A schedule of the device cannot get stuck: unless the command is finished, some step is possible.\<close>

lemma read_progress:
  assumes "read_inv cd l n s" "g_dir (sy_dev s) = DIR_READ"
  shows "\<exists>lb s'. ide_step s lb s' \<and> lb \<in> {TakeFetch, FetchDone True, DmaB, IrqB} \<union> range HostReadData"
proof -
  from assms obtain k ph where at: "read_at cd l n k ph s" and fr: "read_frame cd s" by (auto simp: read_inv_def)
  show ?thesis
  proof (cases ph)
    case RWait
    then show ?thesis using take_fetch [of s] at fr by (auto simp: read_frame_def)
  next
    case RFetch
    then show ?thesis using fetch_ok [of s] at by auto
  next
    case (RSend i)
    then show ?thesis
      using dma_b_word [of s _ i] host_read_data [of s] at
      by (cases "tx_fifo (sy_dev s)"; cases "length (tx_fifo (sy_dev s)) < 4") force+
  next
    case RSent
    then show ?thesis using dma_b_interrupt [of s] at by auto
  qed (use at assms(2) in auto)
qed

definition read_work :: "ide_sys \<Rightarrow> nat" where
  "read_work s =
     (let d = sy_dev s in
      (if g_dir d = DIR_READ then
         2 * (260 * unat (g_remaining_sectors d) -
              (if g_need_fetch d then 0 else if sy_fetch s \<noteq> None then 1
               else case dma_b d of Some (_, i) \<Rightarrow> 2 + i | None \<Rightarrow> 258))
       else 0) + length (tx_fifo d))"

lemma read_at_remaining: "read_active l n k s \<Longrightarrow> 0 < unat (g_remaining_sectors (sy_dev s))"
  by (simp add: read_active_def)

lemma read_work_decreases:
  assumes "read_inv cd l n s" "ide_step s lb s'" "lb \<in> {TakeFetch, FetchDone True, FetchDone False, DmaB, IrqB} \<union> range HostReadData"
  shows "read_work s' < read_work s"
proof -
  from assms(1) obtain k ph where at: "read_at cd l n k ph s" and fr: "read_frame cd s" by (auto simp: read_inv_def)
  let ?r = "g_remaining_sectors (sy_dev s)"
  have irq: "unat (?r - 1) = unat ?r - 1" if "0 < unat ?r"
    using that by (subst unat_minus_one) (auto simp: unat_gt_0)
  have r: "ph \<notin> {RDone, RFail} \<Longrightarrow> 0 < unat ?r" using at by (cases ph) (auto simp: read_active_def)
  show ?thesis
    using assms(2,3) at r irq
    by (cases ph; cases rule: ide_step.cases)
      (auto simp: read_work_def read_active_def Let_def task_fetch_done_def dma_b_move_def
        dma_b_irq_handler_def ide_helper_defs ide_status_defs diff_less_mono2 split: if_splits)
qed

section \<open>Writing\<close>

definition word_bytes :: "u16 list \<Rightarrow> u8 list" where
  "word_bytes ws = concat (map (\<lambda>w. [word_hi w, word_lo w]) ws)"

fun write_blocks :: "(u32 \<Rightarrow> u8 list) \<Rightarrow> u32 \<Rightarrow> u16 list \<Rightarrow> nat \<Rightarrow> u32 \<Rightarrow> u8 list" where
  "write_blocks cd l ws 0 = cd"
| "write_blocks cd l ws (Suc k) =
     (write_blocks cd l ws k)(l + of_nat k := word_bytes (take 256 (drop (256 * k) ws)))"

lemma length_word_bytes [simp]: "length (word_bytes ws) = 2 * length ws"
  by (induction ws) (auto simp: word_bytes_def)

lemma word_bytes_Nil [simp]: "word_bytes [] = []"
  by (simp add: word_bytes_def)

lemma word_bytes_append: "word_bytes (xs @ ys) = word_bytes xs @ word_bytes ys"
  by (simp add: word_bytes_def)

lemma write_blocks_append: "256 * k \<le> length ws \<Longrightarrow> write_blocks cd l (ws @ xs) k = write_blocks cd l ws k"
  by (induction k) auto

text \<open>Storing the next word extends the received part of the buffer by its two bytes.\<close>

lemma take_store_word:
  assumes "2 * i + 1 < length bs" "take (2 * i) bs = word_bytes ws"
  shows "take (2 * Suc i) (bs[2 * i := word_hi w, 2 * i + 1 := word_lo w]) = word_bytes (ws @ [w])"
proof -
  let ?bs = "bs[2 * i := word_hi w, 2 * i + 1 := word_lo w]"
  have "take (2 * Suc i) ?bs = take (2 * i) ?bs @ [?bs ! (2 * i), ?bs ! (2 * i + 1)]"
    using assms(1) by (simp add: take_Suc_conv_app_nth)
  then show ?thesis using assms by (simp add: word_bytes_append) (simp add: word_bytes_def)
qed

definition write_frame :: "ide_sys \<Rightarrow> bool" where
  "write_frame s \<longleftrightarrow> \<not> g_need_fetch (sy_dev s) \<and> sy_fetch s = None \<and> dma_b (sy_dev s) = None \<and>
     \<not> dma_b_irq (sy_dev s) \<and> tx_fifo (sy_dev s) = []"

definition write_active :: "(u32 \<Rightarrow> u8 list) \<Rightarrow> u32 \<Rightarrow> nat \<Rightarrow> nat \<Rightarrow> nat \<Rightarrow> ide_sys \<Rightarrow> bool" where
  "write_active cd l n k i s \<longleftrightarrow> k < n \<and> g_dir (sy_dev s) = DIR_WRITE \<and>
     unat (g_remaining_sectors (sy_dev s)) = n - k \<and> g_lba (sy_dev s) = l + of_nat k \<and>
     sy_card s = write_blocks cd l (sy_put s) k \<and> length (g_buf (sy_dev s) 0) = 512 \<and>
     256 * k + i \<le> length (sy_put s) \<and> drop (256 * k + i) (sy_put s) = rx_fifo (sy_dev s) \<and>
     take (2 * i) (g_buf (sy_dev s) 0) = word_bytes (take i (drop (256 * k) (sy_put s)))"

datatype write_phase = WRecv nat | WFull | WPend | WFlush | WDone | WFail

fun write_at :: "(u32 \<Rightarrow> u8 list) \<Rightarrow> u32 \<Rightarrow> nat \<Rightarrow> nat \<Rightarrow> write_phase \<Rightarrow> ide_sys \<Rightarrow> bool" where
  "write_at cd l n k (WRecv i) s \<longleftrightarrow> write_active cd l n k i s \<and> i < 256 \<and> dma_c (sy_dev s) = Some (0, i) \<and>
     \<not> dma_c_irq (sy_dev s) \<and> \<not> g_need_flush (sy_dev s) \<and> sy_flush s = None \<and> g_reg_status (sy_dev s) = 0x48"
| "write_at cd l n k WFull s \<longleftrightarrow> write_active cd l n k 256 s \<and> dma_c (sy_dev s) = None \<and>
     dma_c_irq (sy_dev s) \<and> \<not> g_need_flush (sy_dev s) \<and> sy_flush s = None \<and> g_reg_status (sy_dev s) \<in> {0x48, 0xC0}"
| "write_at cd l n k WPend s \<longleftrightarrow> write_active cd l n k 256 s \<and> dma_c (sy_dev s) = None \<and>
     \<not> dma_c_irq (sy_dev s) \<and> g_need_flush (sy_dev s) \<and> sy_flush s = None \<and> g_reg_status (sy_dev s) = 0xC0 \<and>
     g_flush_buf (sy_dev s) = 0 \<and> g_flush_lba (sy_dev s) = g_lba (sy_dev s)"
| "write_at cd l n k WFlush s \<longleftrightarrow> write_active cd l n k 256 s \<and> dma_c (sy_dev s) = None \<and>
     \<not> dma_c_irq (sy_dev s) \<and> \<not> g_need_flush (sy_dev s) \<and> sy_flush s = Some (0, g_lba (sy_dev s)) \<and>
     g_reg_status (sy_dev s) = 0xC0"
| "write_at cd l n k WDone s \<longleftrightarrow> k = n \<and> g_dir (sy_dev s) = DIR_NONE \<and> dma_c (sy_dev s) = None \<and>
     \<not> dma_c_irq (sy_dev s) \<and> \<not> g_need_flush (sy_dev s) \<and> sy_flush s = None \<and> g_reg_status (sy_dev s) = 0x40 \<and>
     256 * n \<le> length (sy_put s) \<and> sy_card s = write_blocks cd l (sy_put s) n"
| "write_at cd l n k WFail s \<longleftrightarrow> k < n \<and> g_dir (sy_dev s) = DIR_NONE \<and> dma_c (sy_dev s) = None \<and>
     \<not> dma_c_irq (sy_dev s) \<and> \<not> g_need_flush (sy_dev s) \<and> sy_flush s = None \<and> g_reg_status (sy_dev s) = 0x41 \<and>
     256 * k \<le> length (sy_put s) \<and>
     (\<forall>a. a \<noteq> l + of_nat k \<longrightarrow> sy_card s a = write_blocks cd l (sy_put s) k a)"

definition write_inv :: "(u32 \<Rightarrow> u8 list) \<Rightarrow> u32 \<Rightarrow> nat \<Rightarrow> ide_sys \<Rightarrow> bool" where
  "write_inv cd l n s \<longleftrightarrow> write_frame s \<and> (\<exists>k ph. write_at cd l n k ph s)"

definition host_writes :: "ide_label \<Rightarrow> bool" where
  "host_writes l \<longleftrightarrow> (case l of HostWriteReg _ \<Rightarrow> False | _ \<Rightarrow> True)"

lemmas write_simps = write_frame_def write_active_def

lemma write_step_host:
  assumes "write_frame s" "write_at cd l n k ph s" "ide_step s (HostReadReg raw v) s'"
  shows "write_frame s' \<and> write_at cd l n k ph s'"
  using assms(3,1,2)
  by (cases ph; cases rule: ide_step.cases)
    (auto simp: write_simps taskfile_read_def Let_def set_busy_def ide_status_defs split: if_splits)

lemma write_step_put:
  assumes "write_frame s" "write_at cd l n k ph s" "ide_step s (HostWriteData w) s'"
  shows "write_frame s' \<and> write_at cd l n k ph s'"
  using assms(3,1,2)
  by (cases ph; cases rule: ide_step.cases) (auto simp: write_simps write_blocks_append)

lemma write_step_dma:
  assumes "write_frame s" "write_at cd l n k ph s" "ide_step s DmaC s'"
  shows "write_frame s' \<and> (\<exists>ph'. write_at cd l n k ph' s')"
proof -
  from assms obtain i where ph: "ph = WRecv i" and i: "i < 256"
    by (cases ph; cases rule: ide_step.cases [OF assms(3)]) auto
  from assms(3,2) obtain w ws where s': "s' = s\<lparr>sy_dev := dma_c_move 0 i w ws (sy_dev s)\<rparr>"
    and rx: "rx_fifo (sy_dev s) = w # ws" by (cases rule: ide_step.cases) (auto simp: ph)
  have act: "write_active cd l n k i s" using assms(2) ph by simp
  then have d: "drop (256 * k + i) (sy_put s) = w # ws" using rx by (simp add: write_active_def)
  then have len: "256 * k + i < length (sy_put s)" by (metis drop_eq_Nil list.distinct(1) not_less)
  have w: "take (Suc i) (drop (256 * k) (sy_put s)) = take i (drop (256 * k) (sy_put s)) @ [w]"
    using d len by (simp add: take_Suc_conv_app_nth nth_via_drop)
  have d': "drop (256 * k + Suc i) (sy_put s) = ws" using d by (metis add_Suc_right drop_Suc list.sel(3) tl_drop)
  have "take (2 * Suc i) (g_buf (sy_dev s') 0) = word_bytes (take (Suc i) (drop (256 * k) (sy_put s)))"
    using act i w take_store_word [of i "g_buf (sy_dev s) 0" _ w]
    by (simp add: s' dma_c_move_def write_active_def)
  then have "write_active cd l n k (Suc i) s'"
    using act len d' i by (simp add: write_active_def s' dma_c_move_def del: mult_Suc_right)
  moreover have "dma_c (sy_dev s') = (if i = 255 then None else Some (0, Suc i))" "dma_c_irq (sy_dev s') = (i = 255)"
    "g_need_flush (sy_dev s') = g_need_flush (sy_dev s)" "sy_flush s' = sy_flush s"
    "g_reg_status (sy_dev s') = g_reg_status (sy_dev s)"
    by (simp_all add: s' dma_c_move_def)
  ultimately have "write_at cd l n k (if i = 255 then WFull else WRecv (Suc i)) s'"
    using assms(2) i by (cases "i = 255") (simp_all add: ph)
  moreover have "write_frame s'" using assms(1) by (simp add: s' write_frame_def dma_c_move_def)
  ultimately show ?thesis by blast
qed

lemma write_step_irq:
  assumes "write_frame s" "write_at cd l n k ph s" "ide_step s IrqC s'"
  shows "write_frame s' \<and> write_at cd l n k WPend s'"
  using assms(3,1,2)
  by (cases ph; cases rule: ide_step.cases)
    (auto simp: write_simps dma_c_irq_handler_def Let_def set_busy_def ide_status_defs)

lemma write_step_take:
  assumes "write_frame s" "write_at cd l n k ph s" "ide_step s TakeFlush s'"
  shows "write_frame s' \<and> write_at cd l n k WFlush s'"
  using assms(3,1,2)
  by (cases ph; cases rule: ide_step.cases) (auto simp: write_simps)

lemma write_step_flushed:
  assumes "write_frame s" "write_at cd l n k ph s" "ide_step s (FlushDone ok) s'"
  shows "write_frame s' \<and> write_at cd l n (if ok then Suc k else k)
    (if \<not> ok then WFail else if Suc k = n then WDone else WRecv 0) s'"
proof -
  have fl: "ph = WFlush" using assms(3,2) by (cases ph; cases rule: ide_step.cases) auto
  let ?r = "g_remaining_sectors (sy_dev s)"
  have r: "unat ?r = n - k" "k < n" using assms(2) fl by (auto simp: write_simps)
  then have r1: "unat (?r - 1) = n - Suc k" by (subst unat_minus_one) auto
  then have last: "?r - 1 = 0 \<longleftrightarrow> Suc k = n" using r by (auto simp: unat_eq_0 [symmetric])
  show ?thesis
    using assms(3,1,2) r r1 last unfolding fl
    by (cases rule: ide_step.cases)
      (auto simp: write_simps task_flush_done_def Let_def ide_helper_defs ide_status_defs add.commute)
qed

lemma write_step_other:
  assumes "write_frame s" "ide_step s lb s'" "lb \<in> {DmaB, IrqB, TakeFetch, FetchDone True, FetchDone False} \<union> range HostReadData"
  shows False
  using assms(2,1,3) by (cases rule: ide_step.cases) (auto simp: write_frame_def)

lemma write_inv_step: "write_inv cd l n s \<Longrightarrow> ide_step s lb s' \<Longrightarrow> host_writes lb \<Longrightarrow> write_inv cd l n s'"
proof -
  assume inv: "write_inv cd l n s" and st: "ide_step s lb s'" and hw: "host_writes lb"
  then obtain k ph where fr: "write_frame s" and at: "write_at cd l n k ph s"
    by (auto simp: write_inv_def)
  show ?thesis
  proof (cases lb)
    case (HostReadReg raw v)
    then show ?thesis using write_step_host [OF fr at] st unfolding write_inv_def by blast
  next
    case (HostWriteData w)
    then show ?thesis using write_step_put [OF fr at] st unfolding write_inv_def by blast
  next
    case DmaC
    then show ?thesis using write_step_dma [OF fr at] st unfolding write_inv_def by blast
  next
    case IrqC
    then show ?thesis using write_step_irq [OF fr at] st unfolding write_inv_def by blast
  next
    case TakeFlush
    then show ?thesis using write_step_take [OF fr at] st unfolding write_inv_def by blast
  next
    case (FlushDone b)
    then show ?thesis using write_step_flushed [OF fr at] st unfolding write_inv_def by blast
  next
    case (FetchDone b)
    then show ?thesis using write_step_other [OF fr st] by (cases b) auto
  qed (use hw write_step_other [OF fr st] in \<open>simp_all add: host_writes_def\<close>)
qed

lemma write_inv_run:
  "ide_run s ls s' \<Longrightarrow> write_inv cd l n s \<Longrightarrow> list_all host_writes ls \<Longrightarrow> write_inv cd l n s'"
  by (induction rule: ide_run.induct) (auto intro: write_inv_step)

lemma sector_count_pos: "0 < unat (sector_count_from_reg d)"
  by (simp add: sector_count_from_reg_def unat_gt_0)

lemma write_inv_begin:
  assumes "ide_idle s" "sy_put s = []" "length (g_buf (sy_dev s) 0) = 512"
  shows "write_inv (sy_card s) (current_lba_from_regs (sy_dev s)) (unat (sector_count_from_reg (sy_dev s)))
    (s\<lparr>sy_dev := dispatch_command 0x30 (sy_dev s)\<rparr>)"
  unfolding write_inv_def using assms sector_count_pos [of "sy_dev s"]
  by (intro conjI exI [of _ 0] exI [of _ "WRecv 0"])
    (simp_all add: ide_idle_def write_simps dispatch_command_def begin_write_sequence_def Let_def
      ide_helper_defs ide_status_defs current_lba_from_regs_def sector_count_from_reg_def)

lemma write_progress:
  assumes "write_inv cd l n s" "g_dir (sy_dev s) = DIR_WRITE"
  shows "\<exists>lb s'. ide_step s lb s' \<and> lb \<in> {DmaC, IrqC, TakeFlush, FlushDone True} \<union> range HostWriteData"
proof -
  from assms obtain k ph where at: "write_at cd l n k ph s" and fr: "write_frame s" by (auto simp: write_inv_def)
  show ?thesis
  proof (cases ph)
    case (WRecv i)
    then show ?thesis using dma_c_word [of s 0 i] host_write_data [of s] at
      by (cases "rx_fifo (sy_dev s)") force+
  next
    case WFull
    then show ?thesis using dma_c_interrupt [of s] at by auto
  next
    case WPend
    then show ?thesis using take_flush [of s] at fr by (auto simp: write_frame_def)
  next
    case WFlush
    then show ?thesis using flush_ok [of s] at by auto
  qed (use at assms(2) in auto)
qed

text \<open>What was written is what is read back.\<close>

lemma word_hi_lo: "be_word (word_hi w) (word_lo w) = w"
  unfolding be_word_def word_hi_def word_lo_def
  by (rule bit_eqI) (auto simp: bit_simps)

lemma hi_lo_be_word: "word_hi (be_word a b) = a" "word_lo (be_word a b) = b"
  unfolding be_word_def word_hi_def word_lo_def
  by (rule bit_eqI, auto simp: bit_simps dest: bit_imp_le_length)+

lemma nth_word_bytes:
  "i < length ws \<Longrightarrow> word_bytes ws ! (2 * i) = word_hi (ws ! i)"
  "i < length ws \<Longrightarrow> word_bytes ws ! Suc (2 * i) = word_lo (ws ! i)"
  by (induction ws arbitrary: i) (auto simp: word_bytes_def nth_Cons split: nat.splits)

lemma sector_words_word_bytes: "length ws = 256 \<Longrightarrow> sector_words (word_bytes ws) = ws"
  by (rule nth_equalityI) (simp_all add: sector_words_def buf_word_def nth_word_bytes word_hi_lo)

lemma write_blocks_at:
  "j < k \<Longrightarrow> k \<le> 2 ^ 32 \<Longrightarrow> write_blocks cd l ws k (l + of_nat j) = word_bytes (take 256 (drop (256 * j) ws))"
proof (induction k)
  case (Suc k)
  show ?case
  proof (cases "j = k")
    case False
    have "unat (of_nat j :: u32) = j" "unat (of_nat k :: u32) = k"
      using Suc.prems by (auto intro!: of_nat_inverse_u32)
    then have "(of_nat j :: u32) \<noteq> of_nat k" using False by auto
    then show ?thesis using Suc False by simp
  qed simp
qed simp

lemma write_blocks_other:
  "(\<forall>j. j < k \<longrightarrow> a \<noteq> l + of_nat j) \<Longrightarrow> write_blocks cd l ws k a = cd a"
  by (induction k) auto

lemma read_stream_write_blocks:
  assumes "n \<le> 2 ^ 32" "256 * n \<le> length ws"
  shows "m \<le> n \<Longrightarrow> read_stream (write_blocks cd l ws n) l m = take (256 * m) ws"
proof (induction m)
  case (Suc m)
  have "sector_words (write_blocks cd l ws n (l + of_nat m)) = take 256 (drop (256 * m) ws)"
    using Suc.prems assms by (simp add: write_blocks_at sector_words_word_bytes)
  then show ?case using Suc take_add [of "256 * m" 256 ws] by (simp add: read_stream_Suc add.commute)
qed (simp add: read_stream_def)

section \<open>The status register\<close>

definition status_ok :: "ide_dev \<Rightarrow> bool" where
  "status_ok d \<longleftrightarrow> bit (g_reg_status d) 6 \<and> \<not> (bit (g_reg_status d) 7 \<and> bit (g_reg_status d) 3)"

lemma bit_status_consts [simp]:
  "bit IDE_STATUS_BSY n \<longleftrightarrow> n = 7" "bit IDE_STATUS_DRDY n \<longleftrightarrow> n = 6"
  "bit IDE_STATUS_DRQ n \<longleftrightarrow> n = 3" "bit IDE_STATUS_ERR n \<longleftrightarrow> n = 0"
proof -
  have c: "IDE_STATUS_BSY = 2 ^ 7" "IDE_STATUS_DRDY = 2 ^ 6"
    "IDE_STATUS_DRQ = 2 ^ 3" "IDE_STATUS_ERR = 2 ^ 0"
    by (simp_all add: ide_status_defs)
  show "bit IDE_STATUS_BSY n \<longleftrightarrow> n = 7" "bit IDE_STATUS_DRDY n \<longleftrightarrow> n = 6"
    "bit IDE_STATUS_DRQ n \<longleftrightarrow> n = 3" "bit IDE_STATUS_ERR n \<longleftrightarrow> n = 0"
    unfolding c bit_exp_iff by (auto simp: possible_bit_word)
qed

lemma status_ok_helpers [simp]:
  "status_ok d \<Longrightarrow> status_ok (set_busy d)" "status_ok d \<Longrightarrow> status_ok (set_drq d)"
  "status_ok (set_ready_idle d)" "status_ok (abort_command d)"
  by (auto simp: status_ok_def set_busy_def set_drq_def set_ready_idle_def abort_command_def bit_simps)

lemma status_ok_cong: "g_reg_status d = g_reg_status d' \<Longrightarrow> status_ok d = status_ok d'"
  by (simp add: status_ok_def)

lemma status_ok_dispatch: "status_ok (dispatch_command cmd d)"
  by (auto simp: dispatch_command_def begin_read_sequence_def begin_write_sequence_def begin_identify_def
    Let_def status_ok_def ide_helper_defs bit_simps)

lemma status_ok_step: "ide_step s lb s' \<Longrightarrow> status_ok (sy_dev s) \<Longrightarrow> status_ok (sy_dev s')"
proof (induction rule: ide_step.induct)
  case (host_write_reg s raw)
  then show ?case using status_ok_dispatch
    by (auto simp: taskfile_write_def status_ok_def split: prod.splits)
next
  case (host_read_reg raw s v d)
  then show ?case by (auto simp: taskfile_read_def Let_def split: if_splits)
next
  case (dma_b_interrupt s)
  then show ?case by (auto simp: dma_b_irq_handler_def Let_def status_ok_def ide_helper_defs bit_simps)
next
  case (dma_c_interrupt s)
  then show ?case by (auto simp: dma_c_irq_handler_def Let_def status_ok_def ide_helper_defs bit_simps)
next
  case (fetch_ok s b lba)
  then show ?case by (auto simp: task_fetch_done_def Let_def status_ok_def ide_helper_defs bit_simps)
next
  case (fetch_fail s b lba data)
  then show ?case by (auto simp: task_fetch_done_def Let_def status_ok_def ide_helper_defs bit_simps)
next
  case (flush_ok s b lba)
  then show ?case by (auto simp: task_flush_done_def Let_def status_ok_def ide_helper_defs bit_simps)
next
  case (flush_fail s b lba data)
  then show ?case by (auto simp: task_flush_done_def Let_def status_ok_def ide_helper_defs bit_simps)
qed (simp_all add: status_ok_def dma_b_move_def dma_c_move_def)

lemma status_ok_run: "ide_run s ls s' \<Longrightarrow> status_ok (sy_dev s) \<Longrightarrow> status_ok (sy_dev s')"
  by (induction rule: ide_run.induct) (auto dest: status_ok_step)

section \<open>Identify\<close>

lemma length_id_put_string [simp]: "length (id_put_string w p n s) = length w"
  by (induction w p n s rule: id_put_string.induct) (simp_all split: prod.splits list.splits)

lemma length_identify_fields [simp]: "length (build_identify_fields n) = 256"
  by (simp add: build_identify_fields_def Let_def)

lemma sum_bytes_update:
  "k < length w \<Longrightarrow> foldl (+) 0 (le_bytes16 (w[k := y])) =
     foldl (+) 0 (le_bytes16 w) - (ucast (w ! k) + ucast (drop_bit 8 (w ! k))) +
       (ucast y + ucast (drop_bit 8 y) :: u8)"
proof -
  have sum: "foldl (+) (a :: u8) (le_bytes16 xs) = a + (\<Sum>x\<leftarrow>xs. ucast x + ucast (drop_bit 8 x))" for a xs
    by (induction xs arbitrary: a) (simp_all add: le_bytes16_def add.assoc)
  assume "k < length w"
  then show ?thesis
    unfolding sum by (induction w arbitrary: k) (auto simp: nth_Cons algebra_simps split: nat.splits)
qed

lemma identify_fields_255: "build_identify_fields n ! 255 = 0xA5"
  by (simp add: build_identify_fields_def Let_def)

lemma high_byte_of_shift: "ucast (drop_bit 8 (push_bit 8 (ucast c :: u16))) = (c :: u8)"
  by (rule bit_eqI) (auto simp: bit_simps dest: bit_imp_le_length)

lemma low_byte_of_shift: "ucast (a OR push_bit 8 x :: u16) = (ucast a :: u8)"
  by (rule bit_eqI) (auto simp: bit_simps)

lemma high_byte_or: "ucast (drop_bit 8 (a OR b :: u16)) = (ucast (drop_bit 8 a) OR ucast (drop_bit 8 b) :: u8)"
  by (rule bit_eqI) (auto simp: bit_simps)

lemma build_identify_sum: "foldl (+) 0 (le_bytes16 (build_identify n)) = 0"
  by (simp add: build_identify_def Let_def sum_bytes_update identify_fields_255 low_byte_of_shift high_byte_or
    high_byte_of_shift)

lemma identify_capacity:
  "build_identify n ! 60 = ucast ((if n > 0x0FFFFFFF then 0x0FFFFFFF else n) AND 0xFFFF)"
  "build_identify n ! 61 = ucast (drop_bit 16 (if n > 0x0FFFFFFF then 0x0FFFFFFF else n))"
  by (simp_all add: build_identify_def build_identify_fields_def Let_def)

lemma split_word32: "push_bit 16 (ucast (ucast (drop_bit 16 t) :: u16)) OR ucast (ucast (t AND 0xFFFF) :: u16) = (t :: u32)"
proof -
  have m: "(0xFFFF :: u32) = mask 16" by (simp add: mask_eq_exp_minus_1)
  show ?thesis unfolding m by (rule bit_eqI) (auto simp: bit_simps not_le)
qed

section \<open>Properties\<close>

lemma and_status_iff:
  "x AND IDE_STATUS_BSY = 0 \<longleftrightarrow> \<not> bit x 7" "x AND IDE_STATUS_DRQ = 0 \<longleftrightarrow> \<not> bit x 3"
  "x AND IDE_STATUS_DRDY = 0 \<longleftrightarrow> \<not> bit x 6" "x AND IDE_STATUS_ERR = 0 \<longleftrightarrow> \<not> bit x 0"
  using bit_iff_and_push_bit_not_eq_0 [of x 7] bit_iff_and_push_bit_not_eq_0 [of x 3]
    bit_iff_and_push_bit_not_eq_0 [of x 6] bit_iff_and_push_bit_not_eq_0 [of x 0]
  by (simp_all add: ide_status_defs)

lemma taskfile_command: "decode_taskfile_write raw = (7, cmd) \<Longrightarrow> taskfile_write raw d = dispatch_command cmd d"
  by (simp add: taskfile_write_def)

lemma read_inv_idle: "read_inv cd l n s \<Longrightarrow> g_reg_status (sy_dev s) = 0x40 \<Longrightarrow> words_out s = read_stream cd l n"
proof -
  assume "read_inv cd l n s" "g_reg_status (sy_dev s) = 0x40"
  then obtain k ph where "read_at cd l n k ph s" by (auto simp: read_inv_def)
  then show ?thesis using \<open>g_reg_status (sy_dev s) = 0x40\<close> by (cases ph) auto
qed

lemma write_inv_idle:
  "write_inv cd l n s \<Longrightarrow> g_reg_status (sy_dev s) = 0x40 \<Longrightarrow>
   256 * n \<le> length (sy_put s) \<and> sy_card s = write_blocks cd l (sy_put s) n \<and> ide_idle s"
proof -
  assume inv: "write_inv cd l n s" and st: "g_reg_status (sy_dev s) = 0x40"
  then obtain k ph where "write_at cd l n k ph s" "write_frame s" by (auto simp: write_inv_def)
  then show ?thesis using st by (cases ph) (auto simp: ide_idle_def write_frame_def)
qed

lemma sector_count_le: "unat (sector_count_from_reg d) \<le> 2 ^ 32"
  by (rule less_imp_le, rule less_trans [OF unat_less_exp(2)]) simp

text \<open>Only the host changes the address and count registers.\<close>

fun is_HostWriteReg :: "ide_label \<Rightarrow> bool" where
  "is_HostWriteReg (HostWriteReg _) = True"
| "is_HostWriteReg _ = False"

lemma regs_dispatch:
  "current_lba_from_regs (dispatch_command c d) = current_lba_from_regs d"
  "sector_count_from_reg (dispatch_command c d) = sector_count_from_reg d"
  by (simp_all add: current_lba_from_regs_def sector_count_from_reg_def dispatch_command_def
    begin_read_sequence_def begin_write_sequence_def begin_identify_def Let_def ide_helper_defs)

lemma regs_step:
  assumes "ide_step s lb s'" "\<not> is_HostWriteReg lb"
  shows "current_lba_from_regs (sy_dev s') = current_lba_from_regs (sy_dev s) \<and>
    sector_count_from_reg (sy_dev s') = sector_count_from_reg (sy_dev s)"
  using assms
  by (cases rule: ide_step.cases)
    (auto simp: current_lba_from_regs_def sector_count_from_reg_def taskfile_read_def dma_b_move_def
      dma_c_move_def dma_b_irq_handler_def dma_c_irq_handler_def task_fetch_done_def task_flush_done_def
      Let_def ide_helper_defs split: if_splits)

lemma regs_run:
  "ide_run s ls s' \<Longrightarrow> list_all (\<lambda>lb. \<not> is_HostWriteReg lb) ls \<Longrightarrow>
   current_lba_from_regs (sy_dev s') = current_lba_from_regs (sy_dev s) \<and>
   sector_count_from_reg (sy_dev s') = sector_count_from_reg (sy_dev s)"
  by (induction rule: ide_run.induct) (auto dest: regs_step)

lemma write_run_got:
  "ide_run s ls s' \<Longrightarrow> write_inv cd l n s \<Longrightarrow> list_all host_writes ls \<Longrightarrow> sy_got s' = sy_got s"
proof (induction rule: ide_run.induct)
  case (run_step s ls s' lb s'')
  then have "write_inv cd l n s'" by (auto intro: write_inv_run)
  with run_step.hyps(2) have "sy_got s'' = sy_got s'"
    by (cases rule: ide_step.cases) (auto simp: write_inv_def write_frame_def)
  then show ?case using run_step by simp
qed simp

lemma run_single: "ide_step s l s' \<Longrightarrow> ide_run s [l] s'"
  using run_step [OF run_nil] by fastforce

lemma run_trans: "ide_run s' ls' s'' \<Longrightarrow> ide_run s ls s' \<Longrightarrow> ide_run s (ls @ ls') s''"
proof (induction rule: ide_run.induct)
  case (run_step a ms b m c)
  then show ?case using ide_run.run_step [of s "ls @ ms" b m c] by simp
qed simp

text \<open>A command can always be carried to its end.\<close>

lemma read_step_status:
  assumes "read_inv cd l n s" "g_dir (sy_dev s) = DIR_READ" "ide_step s lb s'"
    "lb \<in> {TakeFetch, FetchDone True, DmaB, IrqB} \<union> range HostReadData"
  shows "g_reg_status (sy_dev s') \<noteq> 0x41"
proof -
  from assms obtain k ph where at: "read_at cd l n k ph s" by (auto simp: read_inv_def)
  show ?thesis using assms(3,4,2) at
    by (cases ph; cases rule: ide_step.cases)
      (auto simp: task_fetch_done_def dma_b_move_def dma_b_irq_handler_def Let_def ide_helper_defs ide_status_defs)
qed

lemma read_completes:
  "read_inv cd l n s \<Longrightarrow> g_dir (sy_dev s) = DIR_READ \<Longrightarrow>
   \<exists>ls s'. ide_run s ls s' \<and> list_all host_reads ls \<and> g_reg_status (sy_dev s') = 0x40"
proof (induction "read_work s" arbitrary: s rule: less_induct)
  case less
  obtain lb s1 where st: "ide_step s lb s1"
    and lb: "lb \<in> {TakeFetch, FetchDone True, DmaB, IrqB} \<union> range HostReadData"
    using read_progress [OF less.prems] by blast
  have hr: "host_reads lb" using lb by (auto simp: host_reads_def)
  have inv: "read_inv cd l n s1" using read_inv_step [OF less.prems(1) st hr] .
  have dec: "read_work s1 < read_work s" using lb by (intro read_work_decreases [OF less.prems(1) st]) auto
  show ?case
  proof (cases "g_dir (sy_dev s1) = DIR_READ")
    case True
    then obtain ls s' where "ide_run s1 ls s'" "list_all host_reads ls" "g_reg_status (sy_dev s') = 0x40"
      using less.hyps [OF dec inv] by blast
    then show ?thesis using run_trans [OF _ run_single [OF st]] hr by (intro exI [of _ "lb # ls"]) auto
  next
    case False
    moreover obtain k ph where "read_at cd l n k ph s1" using inv by (auto simp: read_inv_def)
    ultimately have "g_reg_status (sy_dev s1) = 0x40"
      using read_step_status [OF less.prems st lb] by (cases ph) (auto simp: read_active_def)
    then show ?thesis using run_single [OF st] hr by (intro exI [of _ "[lb]"]) auto
  qed
qed

lemma write_recv_step:
  assumes "write_frame s" "write_at cd l n k (WRecv i) s"
  shows "\<exists>ls s'. ide_run s ls s' \<and> list_all host_writes ls \<and> write_frame s' \<and>
    write_at cd l n k (if i = 255 then WFull else WRecv (Suc i)) s'"
proof -
  obtain s1 ls where r1: "ide_run s ls s1" "list_all host_writes ls" "write_frame s1"
    and at: "write_at cd l n k (WRecv i) s1" and rx: "rx_fifo (sy_dev s1) \<noteq> []"
  proof (cases "rx_fifo (sy_dev s) = []")
    case True
    then have st: "ide_step s (HostWriteData 0)
        (s\<lparr>sy_dev := (sy_dev s)\<lparr>rx_fifo := [0]\<rparr>, sy_put := sy_put s @ [0]\<rparr>)"
      using host_write_data [of s 0] by simp
    show ?thesis
      using that [OF run_single [OF st]] write_step_put [OF assms st] by (simp add: host_writes_def)
  qed (use that [OF run_nil] assms in auto)
  then obtain w ws where "rx_fifo (sy_dev s1) = w # ws" by (cases "rx_fifo (sy_dev s1)") auto
  then have st: "ide_step s1 DmaC (s1\<lparr>sy_dev := dma_c_move 0 i w ws (sy_dev s1)\<rparr>)"
    using at dma_c_word by simp
  have "write_at cd l n k (if i = 255 then WFull else WRecv (Suc i)) (s1\<lparr>sy_dev := dma_c_move 0 i w ws (sy_dev s1)\<rparr>)"
  proof -
    obtain ph where "write_at cd l n k ph (s1\<lparr>sy_dev := dma_c_move 0 i w ws (sy_dev s1)\<rparr>)"
      using write_step_dma [OF r1(3) at st] by blast
    then show ?thesis using at by (cases ph) (auto simp: dma_c_move_def write_active_def split: if_splits)
  qed
  then show ?thesis
    using run_trans [OF run_single [OF st] r1(1)] r1(2) write_step_dma [OF r1(3) at st]
    by (intro exI [of _ "ls @ [DmaC]"]) (auto simp: host_writes_def)
qed

lemma write_sector_step:
  assumes "write_frame s" "write_at cd l n k WFull s"
  shows "\<exists>ls s'. ide_run s ls s' \<and> list_all host_writes ls \<and> write_frame s' \<and>
    write_at cd l n (Suc k) (if Suc k = n then WDone else WRecv 0) s'"
proof -
  obtain s1 where st1: "ide_step s IrqC s1" using dma_c_interrupt [of s] assms(2) by auto
  then have a1: "write_frame s1" "write_at cd l n k WPend s1" using write_step_irq [OF assms st1] by auto
  then obtain s2 where st2: "ide_step s1 TakeFlush s2" using take_flush [of s1] by (auto simp: write_frame_def)
  then have a2: "write_frame s2" "write_at cd l n k WFlush s2" using write_step_take [OF a1 st2] by auto
  then obtain s3 where st3: "ide_step s2 (FlushDone True) s3" using flush_ok [of s2] by auto
  have "write_frame s3 \<and> write_at cd l n (Suc k) (if Suc k = n then WDone else WRecv 0) s3"
    using write_step_flushed [OF a2 st3] by simp
  moreover have "ide_run s ([IrqC] @ [TakeFlush] @ [FlushDone True]) s3"
    by (intro run_trans [OF _ run_single [OF st1]] run_trans [OF _ run_single [OF st2]] run_single [OF st3])
  ultimately show ?thesis
    by (intro exI [of _ "[IrqC, TakeFlush, FlushDone True]"]) (auto simp: host_writes_def)
qed

lemma write_completes:
  "write_frame s \<Longrightarrow> write_at cd l n k (WRecv i) s \<Longrightarrow>
   \<exists>ls s'. ide_run s ls s' \<and> list_all host_writes ls \<and> g_reg_status (sy_dev s') = 0x40"
proof (induction "256 * (n - k) - i" arbitrary: s k i rule: less_induct)
  case less
  have i: "i < 256" "k < n" using less.prems(2) by (auto simp: write_active_def)
  obtain ls s1 where r: "ide_run s ls s1" "list_all host_writes ls" "write_frame s1"
    and at: "write_at cd l n k (if i = 255 then WFull else WRecv (Suc i)) s1"
    using write_recv_step [OF less.prems] by blast
  show ?case
  proof (cases "i = 255")
    case False
    have "256 * (n - k) - Suc i < 256 * (n - k) - i" using i by (simp add: diff_less_mono2)
    then obtain ls' s' where "ide_run s1 ls' s'" "list_all host_writes ls'" "g_reg_status (sy_dev s') = 0x40"
      using less.hyps [of k "Suc i" s1] r(3) at False by auto
    then show ?thesis using run_trans [OF _ r(1)] r(2) by (intro exI [of _ "ls @ ls'"]) auto
  next
    case True
    then have full: "write_at cd l n k WFull s1" using at by (simp only: refl if_True)
    obtain ls2 s2 where r2: "ide_run s1 ls2 s2" "list_all host_writes ls2" "write_frame s2"
      and at2: "write_at cd l n (Suc k) (if Suc k = n then WDone else WRecv 0) s2"
      using write_sector_step [OF r(3) full] by blast
    have run2: "ide_run s (ls @ ls2) s2" using run_trans [OF r2(1) r(1)] .
    show ?thesis
    proof (cases "Suc k = n")
      case True
      then show ?thesis using run2 r(2) r2(2) at2 by (intro exI [of _ "ls @ ls2"]) auto
    next
      case False
      have "256 * (n - Suc k) - 0 < 256 * (n - k) - i" using i \<open>i = 255\<close> by simp
      then obtain ls' s' where "ide_run s2 ls' s'" "list_all host_writes ls'" "g_reg_status (sy_dev s') = 0x40"
        using less.hyps [of "Suc k" 0 s2] r2(3) at2 False by auto
      then show ?thesis using run_trans [OF _ run2] r(2) r2(2) by (intro exI [of _ "(ls @ ls2) @ ls'"]) auto
    qed
  qed
qed

text \<open>C6: After a READ SECTORS command, under every interleaving of host reads, DMA transfers, interrupts and SD
  accesses, the words the host has read are a prefix of the contents of the requested blocks; and when the status
  register returns to ready, those words and the ones that are still in the FIFO are all of it.\<close>

theorem ide_read_correct:
  assumes "ide_idle s" "sy_got s = []" "decode_taskfile_write raw = (7, 0x20)"
    and "ide_run (s\<lparr>sy_dev := taskfile_write raw (sy_dev s)\<rparr>) ls s'" "list_all host_reads ls"
    and "stream = read_stream (sy_card s) (current_lba_from_regs (sy_dev s))
           (unat (sector_count_from_reg (sy_dev s)))"
  shows "prefix (sy_got s') stream \<and>
    (g_reg_status (sy_dev s') = IDE_STATUS_DRDY \<longrightarrow> sy_got s' @ tx_fifo (sy_dev s') = stream)"
proof -
  have inv: "read_inv (sy_card s) (current_lba_from_regs (sy_dev s))
      (unat (sector_count_from_reg (sy_dev s))) s'"
    using read_inv_begin [OF assms(1,2)] assms(4,5) taskfile_command [OF assms(3)]
    by (auto intro: read_inv_run)
  show ?thesis
    using read_inv_prefix [OF inv] read_inv_idle [OF inv] assms(6)
    by (auto simp: words_out_def IDE_STATUS_DRDY_def dest: append_prefixD)
qed

text \<open>C36: a READ SECTORS command cannot get stuck: until it is finished, either the device can take
  a step or a word is waiting for the host, and every such step brings it closer to the end.\<close>

theorem ide_read_terminates:
  assumes "ide_idle s" "sy_got s = []" "decode_taskfile_write raw = (7, 0x20)"
    and "ide_run (s\<lparr>sy_dev := taskfile_write raw (sy_dev s)\<rparr>) ls s'" "list_all host_reads ls"
    and "g_dir (sy_dev s') = DIR_READ"
  shows "\<exists>lb s''. ide_step s' lb s'' \<and> lb \<in> {TakeFetch, FetchDone True, DmaB, IrqB} \<union> range HostReadData \<and>
    read_work s'' < read_work s'"
proof -
  have inv: "read_inv (sy_card s) (current_lba_from_regs (sy_dev s))
      (unat (sector_count_from_reg (sy_dev s))) s'"
    using read_inv_begin [OF assms(1,2)] assms(4,5) taskfile_command [OF assms(3)]
    by (auto intro: read_inv_run)
  obtain lb s'' where st: "ide_step s' lb s''"
    and lb: "lb \<in> {TakeFetch, FetchDone True, DmaB, IrqB} \<union> range HostReadData"
    using read_progress [OF inv assms(6)] by blast
  moreover have "read_work s'' < read_work s'"
    using lb by (intro read_work_decreases [OF inv st]) auto
  ultimately show ?thesis by blast
qed

text \<open>C7: when a WRITE SECTORS command has returned to ready, the host has supplied all the words,
  each requested block of the card holds its 256 words, high byte first, and no other block has
  changed.\<close>

theorem ide_write_correct:
  assumes "ide_idle s" "sy_put s = []" "length (g_buf (sy_dev s) 0) = 512" "decode_taskfile_write raw = (7, 0x30)"
    and "ide_run (s\<lparr>sy_dev := taskfile_write raw (sy_dev s)\<rparr>) ls s'" "list_all host_writes ls"
    and "g_reg_status (sy_dev s') = IDE_STATUS_DRDY"
    and "l = current_lba_from_regs (sy_dev s)" "n = unat (sector_count_from_reg (sy_dev s))"
  shows "256 * n \<le> length (sy_put s') \<and>
    (\<forall>j. j < n \<longrightarrow> sy_card s' (l + of_nat j) = word_bytes (take 256 (drop (256 * j) (sy_put s')))) \<and>
    (\<forall>a. (\<forall>j. j < n \<longrightarrow> a \<noteq> l + of_nat j) \<longrightarrow> sy_card s' a = sy_card s a)"
proof -
  have "write_inv (sy_card s) l n s'"
    using write_inv_begin [OF assms(1-3)] assms(5,6,8,9) taskfile_command [OF assms(4)]
    by (auto intro: write_inv_run)
  then have w: "256 * n \<le> length (sy_put s')" "sy_card s' = write_blocks (sy_card s) l (sy_put s') n"
    using write_inv_idle assms(7) by (auto simp: IDE_STATUS_DRDY_def)
  have n: "n \<le> 2 ^ 32" using sector_count_le assms(9) by simp
  show ?thesis
    using w n by (simp add: write_blocks_at write_blocks_other)
qed

text \<open>Blocks written by a completed WRITE SECTORS command are read back word for word by a READ
  SECTORS command with the same registers.\<close>

theorem ide_write_read_roundtrip:
  assumes "ide_idle s" "sy_put s = []" "length (g_buf (sy_dev s) 0) = 512" "decode_taskfile_write wr = (7, 0x30)"
    and "ide_run (s\<lparr>sy_dev := taskfile_write wr (sy_dev s)\<rparr>) ls s1" "list_all host_writes ls"
    and "g_reg_status (sy_dev s1) = IDE_STATUS_DRDY" "sy_got s = []"
    and "decode_taskfile_write rd = (7, 0x20)"
    and "ide_run (s1\<lparr>sy_dev := taskfile_write rd (sy_dev s1)\<rparr>) ls' s2" "list_all host_reads ls'"
    and "g_reg_status (sy_dev s2) = IDE_STATUS_DRDY"
  shows "sy_got s2 @ tx_fifo (sy_dev s2) = take (256 * unat (sector_count_from_reg (sy_dev s))) (sy_put s1)"
proof -
  let ?l = "current_lba_from_regs (sy_dev s)" and ?n = "unat (sector_count_from_reg (sy_dev s))"
  have "write_inv (sy_card s) ?l ?n s1"
    using write_inv_begin [OF assms(1-3)] assms(5,6) taskfile_command [OF assms(4)]
    by (auto intro: write_inv_run)
  then have w: "256 * ?n \<le> length (sy_put s1)" "sy_card s1 = write_blocks (sy_card s) ?l (sy_put s1) ?n" "ide_idle s1"
    using write_inv_idle assms(7) by (auto simp: IDE_STATUS_DRDY_def)
  have "host_writes lb \<Longrightarrow> \<not> is_HostWriteReg lb" for lb by (cases lb) (auto simp: host_writes_def)
  then have "list_all (\<lambda>lb. \<not> is_HostWriteReg lb) ls" using assms(6) by (auto simp: list_all_iff)
  then have regs: "current_lba_from_regs (sy_dev s1) = ?l" "sector_count_from_reg (sy_dev s1) = sector_count_from_reg (sy_dev s)"
    using regs_run [OF assms(5)] taskfile_command [OF assms(4)] by (simp_all add: regs_dispatch)
  have got: "sy_got s1 = []"
    using write_run_got [OF assms(5) _ assms(6)] write_inv_begin [OF assms(1-3)] taskfile_command [OF assms(4)] assms(8)
    by auto
  have "read_inv (sy_card s1) ?l ?n s2"
    using read_inv_begin [OF w(3) got] regs assms(10,11) taskfile_command [OF assms(9)]
    by (auto intro: read_inv_run)
  then have "words_out s2 = read_stream (sy_card s1) ?l ?n"
    using read_inv_idle assms(12) by (auto simp: IDE_STATUS_DRDY_def)
  also have "\<dots> = take (256 * ?n) (sy_put s1)"
    using w sector_count_le by (simp add: read_stream_write_blocks)
  finally show ?thesis by (simp add: words_out_def)
qed

text \<open>C37: whatever the host writes to the registers and however the device is scheduled, the status
  register never shows BSY and DRQ together and always shows DRDY.\<close>

theorem ide_status_exclusive:
  assumes "ide_run s ls s'" "g_reg_status (sy_dev s) = IDE_STATUS_DRDY"
  shows "\<not> (g_reg_status (sy_dev s') AND IDE_STATUS_BSY \<noteq> 0 \<and> g_reg_status (sy_dev s') AND IDE_STATUS_DRQ \<noteq> 0) \<and>
    g_reg_status (sy_dev s') AND IDE_STATUS_DRDY \<noteq> 0"
proof -
  have "status_ok (sy_dev s)" using assms(2) by (simp add: status_ok_def)
  then have "status_ok (sy_dev s')" using assms(1) status_ok_run by blast
  then show ?thesis by (auto simp: status_ok_def and_status_iff)
qed

text \<open>The identify block has 256 words, its bytes add up to zero, and its words 60 and 61 hold
  the capacity of the card, capped at the 28-bit limit.\<close>

theorem build_identify_correct:
  "length (build_identify n) = 256 \<and> foldl (+) 0 (le_bytes16 (build_identify n)) = 0 \<and>
   push_bit 16 (ucast (build_identify n ! 61)) OR ucast (build_identify n ! 60) =
     (if n > 0x0FFFFFFF then 0x0FFFFFFF else n)"
proof (intro conjI)
  show "length (build_identify n) = 256" by (simp add: build_identify_def Let_def)
qed (simp_all only: build_identify_sum identify_capacity split_word32)


section \<open>Witnesses\<close>

definition demo_disk :: ide_sys where
  "demo_disk = \<lparr>
     sy_dev = \<lparr>g_dir = DIR_NONE, g_lba = 0, g_remaining_sectors = 0, g_active_buf = 0,
       g_buf_ready = (\<lambda>_. False), g_buf = (\<lambda>_. replicate 512 0), g_need_fetch = False, g_fetch_buf = 0,
       g_fetch_lba = 0, g_need_flush = False, g_flush_buf = 0, g_flush_lba = 0, g_reg_error_features = 0,
       g_reg_sector_count = 2, g_reg_lba_low = 5, g_reg_lba_mid = 0, g_reg_lba_high = 1,
       g_reg_device_head = 0xE0, g_reg_status = 0x40, g_sd_sectors = 1000, dma_b = None, dma_b_irq = False,
       tx_fifo = [], dma_c = None, dma_c_irq = False, rx_fifo = []\<rparr>,
     sy_card = (\<lambda>a. replicate 512 7), sy_fetch = None, sy_flush = None, sy_got = [], sy_put = []\<rparr>"

lemma demo_disk_idle: "ide_idle demo_disk" "sy_got demo_disk = []" "sy_put demo_disk = []"
  "length (g_buf (sy_dev demo_disk) 0) = 512" "g_reg_status (sy_dev demo_disk) = IDE_STATUS_DRDY"
  by (simp_all add: demo_disk_def ide_idle_def IDE_STATUS_DRDY_def)

lemma demo_commands: "decode_taskfile_write 0x70020 = (7, 0x20)" "decode_taskfile_write 0x70030 = (7, 0x30)"
  by (simp_all add: decode_taskfile_write_def)

lemma demo_read_dir: "g_dir (taskfile_write 0x70020 d) = DIR_READ"
  by (simp add: taskfile_command demo_commands dispatch_command_def begin_read_sequence_def Let_def ide_helper_defs)

lemma demo_read_completes:
  assumes "ide_idle s" "sy_got s = []"
  shows "\<exists>ls s'. ide_run (s\<lparr>sy_dev := taskfile_write 0x70020 (sy_dev s)\<rparr>) ls s' \<and> list_all host_reads ls \<and>
    g_reg_status (sy_dev s') = IDE_STATUS_DRDY"
  using read_completes [OF read_inv_begin [OF assms]] demo_read_dir [of "sy_dev s"]
  by (simp add: IDE_STATUS_DRDY_def taskfile_command [OF demo_commands(1)])

lemma demo_write_completes:
  "\<exists>ls s'. ide_run (demo_disk\<lparr>sy_dev := taskfile_write 0x70030 (sy_dev demo_disk)\<rparr>) ls s' \<and>
    list_all host_writes ls \<and> g_reg_status (sy_dev s') = IDE_STATUS_DRDY"
proof -
  let ?s = "demo_disk\<lparr>sy_dev := taskfile_write 0x70030 (sy_dev demo_disk)\<rparr>"
  have "write_inv (sy_card demo_disk) (current_lba_from_regs (sy_dev demo_disk))
      (unat (sector_count_from_reg (sy_dev demo_disk))) ?s"
    using write_inv_begin [OF demo_disk_idle(1,3,4)] by (simp add: taskfile_command [OF demo_commands(2)])
  then obtain k ph where "write_frame ?s" and at: "write_at (sy_card demo_disk) (current_lba_from_regs (sy_dev demo_disk))
      (unat (sector_count_from_reg (sy_dev demo_disk))) k ph ?s"
    by (auto simp: write_inv_def)
  moreover have "dma_c (sy_dev ?s) = Some (0, 0)"
    by (simp add: taskfile_command [OF demo_commands(2)] dispatch_command_def begin_write_sequence_def Let_def ide_helper_defs)
  ultimately have "\<exists>i. ph = WRecv i" by (cases ph) auto
  then show ?thesis
    using write_completes \<open>write_frame ?s\<close> at by (auto simp: IDE_STATUS_DRDY_def)
qed

theorem ide_read_witness:
  "\<exists>ls s'. ide_run (demo_disk\<lparr>sy_dev := taskfile_write 0x70020 (sy_dev demo_disk)\<rparr>) ls s' \<and>
     sy_got s' @ tx_fifo (sy_dev s') = read_stream (sy_card demo_disk) (current_lba_from_regs (sy_dev demo_disk))
       (unat (sector_count_from_reg (sy_dev demo_disk)))"
  using demo_read_completes [OF demo_disk_idle(1,2)] ide_read_correct [OF demo_disk_idle(1,2) demo_commands(1)]
  by metis

theorem ide_read_terminates_witness:
  "\<exists>lb s''. ide_step (demo_disk\<lparr>sy_dev := taskfile_write 0x70020 (sy_dev demo_disk)\<rparr>) lb s''"
  using ide_read_terminates [OF demo_disk_idle(1,2) demo_commands(1) run_nil] demo_read_dir by auto

theorem ide_write_witness:
  "\<exists>ls s'. ide_run (demo_disk\<lparr>sy_dev := taskfile_write 0x70030 (sy_dev demo_disk)\<rparr>) ls s' \<and>
     512 \<le> length (sy_put s') \<and> sy_card s' 0x10006 = word_bytes (take 256 (drop 256 (sy_put s')))"
proof -
  obtain ls s' where r: "ide_run (demo_disk\<lparr>sy_dev := taskfile_write 0x70030 (sy_dev demo_disk)\<rparr>) ls s'"
    "list_all host_writes ls" "g_reg_status (sy_dev s') = IDE_STATUS_DRDY"
    using demo_write_completes by blast
  have "current_lba_from_regs (sy_dev demo_disk) = 0x10005" "unat (sector_count_from_reg (sy_dev demo_disk)) = 2"
    by (simp_all add: demo_disk_def current_lba_from_regs_def sector_count_from_reg_def)
  with ide_write_correct [OF demo_disk_idle(1,3,4) demo_commands(2) r refl refl]
  have "512 \<le> length (sy_put s') \<and> sy_card s' 0x10006 = word_bytes (take 256 (drop 256 (sy_put s')))"
    by (auto dest!: spec [of _ 1])
  then show ?thesis using r(1) by blast
qed

theorem ide_roundtrip_witness:
  "\<exists>ls s1 ls' s2. ide_run (demo_disk\<lparr>sy_dev := taskfile_write 0x70030 (sy_dev demo_disk)\<rparr>) ls s1 \<and>
     ide_run (s1\<lparr>sy_dev := taskfile_write 0x70020 (sy_dev s1)\<rparr>) ls' s2 \<and>
     sy_got s2 @ tx_fifo (sy_dev s2) = take 512 (sy_put s1)"
proof -
  let ?s = "demo_disk\<lparr>sy_dev := taskfile_write 0x70030 (sy_dev demo_disk)\<rparr>"
  obtain ls s1 where r: "ide_run ?s ls s1" "list_all host_writes ls" "g_reg_status (sy_dev s1) = IDE_STATUS_DRDY"
    using demo_write_completes by blast
  have inv: "write_inv (sy_card demo_disk) (current_lba_from_regs (sy_dev demo_disk))
      (unat (sector_count_from_reg (sy_dev demo_disk))) ?s"
    using write_inv_begin [OF demo_disk_idle(1,3,4)] by (simp add: taskfile_command [OF demo_commands(2)])
  have "ide_idle s1"
    using write_inv_idle [OF write_inv_run [OF r(1) inv r(2)]] r(3) by (simp add: IDE_STATUS_DRDY_def)
  moreover have "sy_got s1 = []" using write_run_got [OF r(1) inv r(2)] demo_disk_idle(2) by simp
  ultimately obtain ls' s2 where r2: "ide_run (s1\<lparr>sy_dev := taskfile_write 0x70020 (sy_dev s1)\<rparr>) ls' s2"
    "list_all host_reads ls'" "g_reg_status (sy_dev s2) = IDE_STATUS_DRDY"
    using demo_read_completes by blast
  have "unat (sector_count_from_reg (sy_dev demo_disk)) = 2"
    by (simp add: demo_disk_def sector_count_from_reg_def)
  then have "sy_got s2 @ tx_fifo (sy_dev s2) = take 512 (sy_put s1)"
    using ide_write_read_roundtrip [OF demo_disk_idle(1,3,4) demo_commands(2) r demo_disk_idle(2) demo_commands(1) r2]
    by simp
  then show ?thesis using r(1) r2(1) by blast
qed

theorem ide_status_witness:
  "\<exists>s'. ide_run demo_disk [HostWriteReg 0x70020] s' \<and> g_reg_status (sy_dev s') AND IDE_STATUS_DRDY \<noteq> 0"
  using ide_status_exclusive [OF run_single [OF host_write_reg] demo_disk_idle(5)] run_single [OF host_write_reg]
  by blast

end
