(* ===== verification/Ata_Driver.thy ===== *)
theory Ata_Driver
  imports Ide_Transfer
begin

text \<open>
  \<open>drivers/picoIDE/ata.c\<close>: the polling driver of the 68000 for the IDE disk that the RP2350B emulates.
  The driver reaches the disk through the registers of the bus only, so it is written over a record
  of bus accesses with a state of its own: reading the status register, writing a register, reading
  and writing the data register. An access to the data register that the disk never acknowledges is
  \<open>None\<close>. The registers have the numbers 1 to 7 that the disk decodes (address 3, 5, .. 15 on the bus);
  \<open>ATA_SWAP_DATA_WORD\<close> is 0, and \<open>ATA_LOCK\<close>, \<open>ATA_UNLOCK\<close> and \<open>ATA_DBG\<close> are empty.

  The locale \<open>ide_bus\<close> says when such a bus leads to the emulated disk: every access is a run of the
  disk, with any steps of its DMA channels, interrupts and SD task before it. What the driver returns
  is proved from that, for every schedule of the disk. \<open>eager_bus\<close>, which lets the disk work until it
  has nothing to do before each access, is an instance.
\<close>

section \<open>The code\<close>

record 's ata_bus =
  bus_status :: "'s \<Rightarrow> u8 \<times> 's"
  bus_wreg :: "nat \<Rightarrow> u8 \<Rightarrow> 's \<Rightarrow> 's"
  bus_rdata :: "'s \<Rightarrow> (u16 \<times> 's) option"
  bus_wdata :: "u16 \<Rightarrow> 's \<Rightarrow> 's option"

datatype ata_status_t = ATA_OK | ATA_ERR_TIMEOUT_BSY | ATA_ERR_TIMEOUT_DRQ | ATA_ERR_DEVICE | ATA_ERR_BAD_ARG

definition ATA_SR_BSY :: u8 where "ATA_SR_BSY = 0x80"
definition ATA_SR_DRQ :: u8 where "ATA_SR_DRQ = 0x08"
definition ATA_SR_ERR :: u8 where "ATA_SR_ERR = 0x01"
definition ATA_CMD_READ_SECTORS :: u8 where "ATA_CMD_READ_SECTORS = 0x20"
definition ATA_CMD_WRITE_SECTORS :: u8 where "ATA_CMD_WRITE_SECTORS = 0x30"
definition ATA_CMD_IDENTIFY :: u8 where "ATA_CMD_IDENTIFY = 0xEC"
definition ATA_TIMEOUT_LOOPS :: nat where "ATA_TIMEOUT_LOOPS = 1000000"

lemmas ata_const_defs = ATA_SR_BSY_def ATA_SR_DRQ_def ATA_SR_ERR_def ATA_CMD_READ_SECTORS_def
  ATA_CMD_WRITE_SECTORS_def ATA_CMD_IDENTIFY_def

definition REG_SECTOR_COUNT :: nat where "REG_SECTOR_COUNT = 2"
definition REG_LBA_LOW :: nat where "REG_LBA_LOW = 3"
definition REG_LBA_MID :: nat where "REG_LBA_MID = 4"
definition REG_LBA_HIGH :: nat where "REG_LBA_HIGH = 5"
definition REG_DEVICE_HEAD :: nat where "REG_DEVICE_HEAD = 6"
definition REG_COMMAND :: nat where "REG_COMMAND = 7"

lemmas ata_reg_defs = REG_SECTOR_COUNT_def REG_LBA_LOW_def REG_LBA_MID_def REG_LBA_HIGH_def
  REG_DEVICE_HEAD_def REG_COMMAND_def

definition ata_400ns_delay :: "'s ata_bus \<Rightarrow> 's \<Rightarrow> 's" where
  "ata_400ns_delay bus s = snd (bus_status bus (snd (bus_status bus (snd (bus_status bus (snd (bus_status bus s)))))))"

text \<open>The loop of \<open>ata_wait_clear\<close>: \<open>timeout\<close> is decremented before it is compared with zero.\<close>

fun wait_clear_loop :: "'s ata_bus \<Rightarrow> u8 \<Rightarrow> nat \<Rightarrow> 's \<Rightarrow> bool \<times> 's" where
  "wait_clear_loop bus msk 0 s = (False, s)"
| "wait_clear_loop bus msk (Suc t) s =
     (let (v, s') = bus_status bus s in
      if v AND msk = 0 then (True, s') else if t = 0 then (False, s') else wait_clear_loop bus msk t s')"

definition ata_wait_clear :: "'s ata_bus \<Rightarrow> u8 \<Rightarrow> 's \<Rightarrow> bool \<times> 's" where
  "ata_wait_clear bus msk s = wait_clear_loop bus msk ATA_TIMEOUT_LOOPS s"

fun wait_drq_loop :: "'s ata_bus \<Rightarrow> nat \<Rightarrow> 's \<Rightarrow> ata_status_t \<times> 's" where
  "wait_drq_loop bus 0 s = (ATA_ERR_TIMEOUT_DRQ, s)"
| "wait_drq_loop bus (Suc t) s =
     (let (v, s') = bus_status bus s in
      if v AND ATA_SR_ERR \<noteq> 0 then (ATA_ERR_DEVICE, s')
      else if v AND ATA_SR_DRQ \<noteq> 0 then (ATA_OK, s')
      else if t = 0 then (ATA_ERR_TIMEOUT_DRQ, s')
      else wait_drq_loop bus t s')"

definition ata_wait_drq :: "'s ata_bus \<Rightarrow> 's \<Rightarrow> ata_status_t \<times> 's" where
  "ata_wait_drq bus s =
     (case ata_wait_clear bus ATA_SR_BSY s of
        (False, s') \<Rightarrow> (ATA_ERR_TIMEOUT_BSY, s')
      | (True, s') \<Rightarrow> wait_drq_loop bus ATA_TIMEOUT_LOOPS s')"

definition devhead :: "u8 \<Rightarrow> u32 \<Rightarrow> u8" where
  "devhead drive lba = 0xE0 OR push_bit 4 (drive AND 1) OR ucast (drop_bit 24 lba AND 0x0F)"

definition ata_select_drive :: "'s ata_bus \<Rightarrow> u8 \<Rightarrow> u32 \<Rightarrow> 's \<Rightarrow> 's" where
  "ata_select_drive bus drive lba s =
     ata_400ns_delay bus (bus_wreg bus REG_DEVICE_HEAD (devhead drive lba) s)"

definition ata_data_read16 :: "'s ata_bus \<Rightarrow> 's \<Rightarrow> (u16 \<times> 's) option" where
  "ata_data_read16 bus s = bus_rdata bus s"

definition ata_data_write16 :: "'s ata_bus \<Rightarrow> u16 \<Rightarrow> 's \<Rightarrow> 's option" where
  "ata_data_write16 bus w s = bus_wdata bus w s"

definition ata_init :: "'s ata_bus \<Rightarrow> 's \<Rightarrow> ata_status_t \<times> 's" where
  "ata_init bus s =
     (case ata_wait_clear bus ATA_SR_BSY s of
        (False, s') \<Rightarrow> (ATA_ERR_TIMEOUT_BSY, s')
      | (True, s') \<Rightarrow> (ATA_OK, s'))"

text \<open>The four address registers and the command, as both transfers write them.\<close>

definition ata_command :: "'s ata_bus \<Rightarrow> u8 \<Rightarrow> u32 \<Rightarrow> u8 \<Rightarrow> 's \<Rightarrow> 's" where
  "ata_command bus cnt lba cmd s =
     (let s = bus_wreg bus REG_SECTOR_COUNT cnt s;
          s = bus_wreg bus REG_LBA_LOW (ucast (lba AND 0xFF)) s;
          s = bus_wreg bus REG_LBA_MID (ucast (drop_bit 8 lba AND 0xFF)) s;
          s = bus_wreg bus REG_LBA_HIGH (ucast (drop_bit 16 lba AND 0xFF)) s
      in bus_wreg bus REG_COMMAND cmd s)"

text \<open>The words of a sector, stored high byte first from \<open>p\<close> on.\<close>

fun read_words :: "'s ata_bus \<Rightarrow> nat \<Rightarrow> nat \<Rightarrow> mem \<Rightarrow> 's \<Rightarrow> (mem \<times> 's) option" where
  "read_words bus 0 p m s = Some (m, s)"
| "read_words bus (Suc n) p m s =
     (case ata_data_read16 bus s of
        None \<Rightarrow> None
      | Some (data, s') \<Rightarrow>
          read_words bus n (p + 2) (m(p := ucast (drop_bit 8 data), p + 1 := ucast (data AND 0xFF))) s')"

text \<open>\<open>ata_identify\<close> fills an array of words: the 256 words in order.\<close>

fun identify_words :: "'s ata_bus \<Rightarrow> nat \<Rightarrow> 's \<Rightarrow> (u16 list \<times> 's) option" where
  "identify_words bus 0 s = Some ([], s)"
| "identify_words bus (Suc n) s =
     (case ata_data_read16 bus s of
        None \<Rightarrow> None
      | Some (data, s') \<Rightarrow> map_option (\<lambda>(ws, s''). (data # ws, s'')) (identify_words bus n s'))"

definition ata_identify :: "'s ata_bus \<Rightarrow> u8 \<Rightarrow> bool \<Rightarrow> 's \<Rightarrow> (ata_status_t \<times> u16 list \<times> 's) option" where
  "ata_identify bus drive buf_ok s =
     (if \<not> buf_ok then Some (ATA_ERR_BAD_ARG, [], s)
      else
        (let s = ata_select_drive bus drive 0 s;
             s = ata_command bus 0 0 ATA_CMD_IDENTIFY s
         in case ata_wait_drq bus s of
              (ATA_OK, s') \<Rightarrow> map_option (\<lambda>(ws, s''). (ATA_OK, ws, s'')) (identify_words bus 256 s')
            | (r, s') \<Rightarrow> Some (r, [], s')))"

fun read_sectors_loop :: "'s ata_bus \<Rightarrow> nat \<Rightarrow> nat \<Rightarrow> mem \<Rightarrow> 's \<Rightarrow> (ata_status_t \<times> mem \<times> 's) option" where
  "read_sectors_loop bus 0 p m s = Some (ATA_OK, m, s)"
| "read_sectors_loop bus (Suc k) p m s =
     (case ata_wait_drq bus s of
        (ATA_OK, s') \<Rightarrow>
          (case read_words bus 256 p m s' of
             None \<Rightarrow> None
           | Some (m', s'') \<Rightarrow> read_sectors_loop bus k (p + 512) m' s'')
      | (r, s') \<Rightarrow> Some (r, m, s'))"

definition ata_read_sectors ::
    "'s ata_bus \<Rightarrow> u8 \<Rightarrow> u32 \<Rightarrow> u8 \<Rightarrow> nat \<Rightarrow> mem \<Rightarrow> 's \<Rightarrow> (ata_status_t \<times> mem \<times> 's) option" where
  "ata_read_sectors bus drive lba cnt buf m s =
     (if buf = 0 \<or> cnt = 0 then Some (ATA_ERR_BAD_ARG, m, s)
      else if lba > 0x0FFFFFFF then Some (ATA_ERR_BAD_ARG, m, s)
      else
        (case ata_wait_clear bus ATA_SR_BSY (ata_select_drive bus drive lba s) of
           (False, s') \<Rightarrow> Some (ATA_ERR_TIMEOUT_BSY, m, s')
         | (True, s') \<Rightarrow>
             read_sectors_loop bus (unat cnt) buf m (ata_command bus cnt lba ATA_CMD_READ_SECTORS s')))"

fun write_words :: "'s ata_bus \<Rightarrow> nat \<Rightarrow> nat \<Rightarrow> mem \<Rightarrow> 's \<Rightarrow> 's option" where
  "write_words bus 0 p m s = Some s"
| "write_words bus (Suc n) p m s =
     (case ata_data_write16 bus (push_bit 8 (ucast (m p)) OR ucast (m (p + 1))) s of
        None \<Rightarrow> None
      | Some s' \<Rightarrow> write_words bus n (p + 2) m s')"

fun write_sectors_loop :: "'s ata_bus \<Rightarrow> nat \<Rightarrow> nat \<Rightarrow> mem \<Rightarrow> 's \<Rightarrow> (ata_status_t \<times> 's) option" where
  "write_sectors_loop bus 0 p m s = Some (ATA_OK, s)"
| "write_sectors_loop bus (Suc k) p m s =
     (case ata_wait_drq bus s of
        (ATA_OK, s') \<Rightarrow>
          (case write_words bus 256 p m s' of
             None \<Rightarrow> None
           | Some s'' \<Rightarrow> write_sectors_loop bus k (p + 512) m s'')
      | (r, s') \<Rightarrow> Some (r, s'))"

definition ata_write_sectors ::
    "'s ata_bus \<Rightarrow> u8 \<Rightarrow> u32 \<Rightarrow> u8 \<Rightarrow> nat \<Rightarrow> mem \<Rightarrow> 's \<Rightarrow> (ata_status_t \<times> 's) option" where
  "ata_write_sectors bus drive lba cnt buf m s =
     (if buf = 0 \<or> cnt = 0 then Some (ATA_ERR_BAD_ARG, s)
      else if lba > 0x0FFFFFFF then Some (ATA_ERR_BAD_ARG, s)
      else
        (case ata_wait_clear bus ATA_SR_BSY (ata_select_drive bus drive lba s) of
           (False, s') \<Rightarrow> Some (ATA_ERR_TIMEOUT_BSY, s')
         | (True, s') \<Rightarrow>
             (case write_sectors_loop bus (unat cnt) buf m (ata_command bus cnt lba ATA_CMD_WRITE_SECTORS s') of
                None \<Rightarrow> None
              | Some (ATA_OK, s'') \<Rightarrow>
                  (case ata_wait_clear bus ATA_SR_BSY s'' of
                     (True, t) \<Rightarrow> Some (ATA_OK, t)
                   | (False, t) \<Rightarrow> Some (ATA_ERR_TIMEOUT_BSY, t))
              | Some (r, s'') \<Rightarrow> Some (r, s''))))"

section \<open>A bus that leads to the emulated disk\<close>

fun device_step :: "ide_label \<Rightarrow> bool" where
  "device_step (HostWriteReg _) = False"
| "device_step (HostReadReg _ _) = False"
| "device_step (HostReadData _) = False"
| "device_step (HostWriteData _) = False"
| "device_step _ = True"

fun poll_step :: "ide_label \<Rightarrow> bool" where
  "poll_step (HostReadReg _ _) = True"
| "poll_step l = device_step l"

text \<open>The word that the bus latches for an access to register \<open>a\<close>.\<close>

definition reg_raw :: "nat \<Rightarrow> u8 \<Rightarrow> u32" where
  "reg_raw a v = push_bit 16 (of_nat a) OR ucast v"

locale ide_bus =
  fixes bus :: "'s ata_bus" and sys :: "'s \<Rightarrow> ide_sys"
  assumes status_run: "bus_status bus s = (v, s') \<Longrightarrow>
      \<exists>ls. list_all device_step ls \<and> ide_run (sys s) (ls @ [HostReadReg (reg_raw 7 0) v]) (sys s')"
    and wreg_run: "1 \<le> a \<Longrightarrow> a \<le> 7 \<Longrightarrow>
      \<exists>ls. list_all device_step ls \<and> ide_run (sys s) (ls @ [HostWriteReg (reg_raw a v)]) (sys (bus_wreg bus a v s))"
    and rdata_run: "bus_rdata bus s = Some (w, s') \<Longrightarrow>
      \<exists>ls. list_all device_step ls \<and> ide_run (sys s) (ls @ [HostReadData w]) (sys s')"
    and wdata_run: "bus_wdata bus w s = Some s' \<Longrightarrow>
      \<exists>ls. list_all device_step ls \<and> ide_run (sys s) (ls @ [HostWriteData w]) (sys s')"

inductive_cases ide_run_snocE: "ide_run s (ls @ [l]) s'"

lemma run_snoc: "ide_run s (ls @ [l]) s' \<Longrightarrow> \<exists>t. ide_run s ls t \<and> ide_step t l s'"
  by (erule ide_run_snocE) auto

lemma decode_reg_raw: "1 \<le> a \<Longrightarrow> a \<le> 7 \<Longrightarrow> decode_taskfile_write (reg_raw a v) = (of_nat a, v)"
proof -
  assume a: "1 \<le> a" "a \<le> 7"
  have m: "(0xFF :: u32) = mask 8" by (simp add: mask_eq_exp_minus_1)
  have "(ucast ((push_bit 16 (of_nat a) OR ucast v) AND 0xFF :: u32) :: u8) = v"
    unfolding m by (rule bit_eqI) (auto simp: bit_simps)
  moreover have v: "drop_bit 16 (ucast v :: u32) = 0"
    by (rule bit_eqI) (auto simp: bit_simps dest: bit_imp_le_length)
  have "a \<in> {1, 2, 3, 4, 5, 6, 7}" using a by auto
  then have "(ucast (drop_bit 16 (push_bit 16 (of_nat a) OR ucast v :: u32) AND 7) :: u8) = of_nat a"
    unfolding drop_bit_or v by auto
  ultimately show ?thesis by (simp add: decode_taskfile_write_def reg_raw_def)
qed

lemma status_read: "taskfile_read (reg_raw 7 0) d =
    (let d = (if g_dir d = DIR_WRITE \<and> g_reg_status d AND IDE_STATUS_DRQ \<noteq> 0 \<and> dma_c d = None then set_busy d else d)
     in (g_reg_status d, d))"
proof -
  have "(ucast (drop_bit 16 (reg_raw 7 0) AND 7) :: u8) = 7" by (simp add: reg_raw_def)
  then show ?thesis by (simp add: taskfile_read_def)
qed

lemma timeout_Suc: "\<exists>t. ATA_TIMEOUT_LOOPS = Suc t"
  by (rule exI [of _ 999999]) (simp add: ATA_TIMEOUT_LOOPS_def)

text \<open>A disk with nothing to do: only the host can change it.\<close>

definition disk_quiet :: "ide_sys \<Rightarrow> bool" where
  "disk_quiet s \<longleftrightarrow> ide_idle s \<and> dma_b (sy_dev s) = None \<and> dma_c (sy_dev s) = None \<and> \<not> dma_b_irq (sy_dev s) \<and>
     \<not> dma_c_irq (sy_dev s) \<and> g_reg_status (sy_dev s) \<in> {0x40, 0x41}"

lemma quiet_no_step: "disk_quiet s \<Longrightarrow> ide_step s lb s' \<Longrightarrow> device_step lb \<Longrightarrow> False"
  by (cases rule: ide_step.cases) (auto simp: disk_quiet_def ide_idle_def)

lemma quiet_run: "ide_run s ls s' \<Longrightarrow> disk_quiet s \<Longrightarrow> list_all device_step ls \<Longrightarrow> s' = s"
proof (induction rule: ide_run.induct)
  case (run_step s ls s' l s'')
  then show ?case using quiet_no_step [of s l s''] by auto
qed simp

text \<open>Polling leaves the data words alone, and what holds of a transfer.\<close>

lemma poll_data: "ide_step s lb s' \<Longrightarrow> poll_step lb \<Longrightarrow> sy_got s' = sy_got s \<and> sy_put s' = sy_put s"
  by (cases rule: ide_step.cases) auto

lemma poll_run_data:
  "ide_run s ls s' \<Longrightarrow> list_all poll_step ls \<Longrightarrow> sy_got s' = sy_got s \<and> sy_put s' = sy_put s"
  by (induction rule: ide_run.induct) (auto dest: poll_data)

lemma poll_labels: "poll_step l \<Longrightarrow> host_reads l \<and> host_writes l"
  by (cases l) (auto simp: host_reads_def host_writes_def)

lemma device_poll: "device_step l \<Longrightarrow> poll_step l"
  by (cases l) auto

lemma device_poll_all: "list_all device_step ls \<Longrightarrow> list_all poll_step ls \<and> list_all host_reads ls \<and> list_all host_writes ls"
  using device_poll poll_labels by (auto simp: list_all_iff)

lemma poll_all: "list_all poll_step ls \<Longrightarrow> list_all host_reads ls \<and> list_all host_writes ls"
  using poll_labels by (auto simp: list_all_iff)

context ide_bus
begin

definition polls :: "'s \<Rightarrow> 's \<Rightarrow> bool" where
  "polls s s' \<longleftrightarrow> (\<exists>ls. list_all poll_step ls \<and> ide_run (sys s) ls (sys s'))"

lemma polls_refl: "polls s s"
  unfolding polls_def by (rule exI [of _ "[]"]) (simp add: run_nil)

lemma polls_trans: "polls s t \<Longrightarrow> polls t u \<Longrightarrow> polls s u"
  unfolding polls_def using run_trans by (metis list_all_append)

lemma polls_status: "bus_status bus s = (v, s') \<Longrightarrow> polls s s'"
proof -
  assume "bus_status bus s = (v, s')"
  then obtain ls where "list_all device_step ls" "ide_run (sys s) (ls @ [HostReadReg (reg_raw 7 0) v]) (sys s')"
    using status_run by blast
  then show ?thesis unfolding polls_def using device_poll_all
    by (intro exI [of _ "ls @ [HostReadReg (reg_raw 7 0) v]"]) simp
qed

lemma polls_wait_clear_loop: "wait_clear_loop bus msk t s = (r, s') \<Longrightarrow> polls s s'"
proof (induction t arbitrary: s)
  case (Suc t)
  obtain v u where st: "bus_status bus s = (v, u)" by fastforce
  then show ?case using Suc polls_trans [OF polls_status [OF st]] polls_status [OF st] by (auto split: if_splits)
qed (simp add: polls_refl)

lemma polls_wait_clear: "ata_wait_clear bus msk s = (r, s') \<Longrightarrow> polls s s'"
  unfolding ata_wait_clear_def by (rule polls_wait_clear_loop)

lemma polls_wait_drq_loop: "wait_drq_loop bus t s = (r, s') \<Longrightarrow> polls s s'"
proof (induction t arbitrary: s)
  case (Suc t)
  obtain v u where st: "bus_status bus s = (v, u)" by fastforce
  then show ?case using Suc polls_trans [OF polls_status [OF st]] polls_status [OF st] by (auto split: if_splits)
qed (simp add: polls_refl)

lemma polls_wait_drq: "ata_wait_drq bus s = (r, s') \<Longrightarrow> polls s s'"
  unfolding ata_wait_drq_def
  using polls_trans polls_wait_clear polls_wait_drq_loop by (fastforce split: prod.splits bool.splits)

text \<open>The part of a transfer before the data: the disk is quiet until the command arrives.\<close>

lemma quiet_status: "disk_quiet (sys s) \<Longrightarrow> bus_status bus s = (v, s') \<Longrightarrow> sys s' = sys s \<and> v = g_reg_status (sy_dev (sys s))"
proof -
  assume q: "disk_quiet (sys s)" and st: "bus_status bus s = (v, s')"
  obtain ls t where ls: "list_all device_step ls" "ide_run (sys s) ls t" "ide_step t (HostReadReg (reg_raw 7 0) v) (sys s')"
    using status_run [OF st] run_snoc by blast
  then have t: "t = sys s" using quiet_run q by blast
  have "g_reg_status (sy_dev (sys s)) AND IDE_STATUS_DRQ = 0" using q by (auto simp: disk_quiet_def ide_status_defs)
  with ls(3) show ?thesis unfolding t
    by (cases rule: ide_step.cases) (auto simp: status_read Let_def)
qed

lemma quiet_wreg:
  assumes "disk_quiet (sys s)" "1 \<le> a" "a \<le> 7"
  shows "sys (bus_wreg bus a v s) = (sys s)\<lparr>sy_dev := taskfile_write (reg_raw a v) (sy_dev (sys s))\<rparr>"
proof -
  obtain ls t where ls: "list_all device_step ls" "ide_run (sys s) ls t" "ide_step t (HostWriteReg (reg_raw a v)) (sys (bus_wreg bus a v s))"
    using wreg_run [OF assms(2,3), of s v] run_snoc by blast
  then have t: "t = sys s" using quiet_run assms(1) by blast
  from ls(3) show ?thesis unfolding t by (cases rule: ide_step.cases) auto
qed

lemma quiet_wait_clear:
  assumes "disk_quiet (sys s)" "ata_wait_clear bus ATA_SR_BSY s = (r, s')"
  shows "r \<and> sys s' = sys s"
proof -
  obtain v u where st: "bus_status bus s = (v, u)" by fastforce
  have "v AND ATA_SR_BSY = 0" "sys u = sys s"
    using quiet_status [OF assms(1) st] assms(1) by (auto simp: disk_quiet_def ata_const_defs)
  moreover obtain t where t: "ATA_TIMEOUT_LOOPS = Suc t" using timeout_Suc by blast
  ultimately show ?thesis using assms(2) st unfolding ata_wait_clear_def t by simp
qed

lemma quiet_select:
  assumes "disk_quiet (sys s)"
  shows "sys (ata_select_drive bus drive lba s) = (sys s)\<lparr>sy_dev := (sy_dev (sys s))\<lparr>g_reg_device_head := devhead drive lba\<rparr>\<rparr>"
proof -
  let ?s = "bus_wreg bus REG_DEVICE_HEAD (devhead drive lba) s"
  have w: "sys ?s = (sys s)\<lparr>sy_dev := (sy_dev (sys s))\<lparr>g_reg_device_head := devhead drive lba\<rparr>\<rparr>"
    using quiet_wreg [OF assms, of REG_DEVICE_HEAD]
    by (simp add: REG_DEVICE_HEAD_def taskfile_write_def decode_reg_raw)
  have delay: "disk_quiet (sys t) \<Longrightarrow> sys (snd (bus_status bus t)) = sys t" for t
    using quiet_status [of t] by (metis prod.collapse)
  have "disk_quiet (sys ?s)" using assms by (simp add: w disk_quiet_def ide_idle_def)
  then have "sys (ata_400ns_delay bus ?s) = sys ?s" unfolding ata_400ns_delay_def by (simp add: delay)
  then show ?thesis using w by (simp add: ata_select_drive_def)
qed

lemma quiet_command:
  assumes "disk_quiet (sys s)"
  shows "sys (ata_command bus cnt lba cmd s) = (sys s)\<lparr>sy_dev := dispatch_command cmd ((sy_dev (sys s))
      \<lparr>g_reg_sector_count := cnt, g_reg_lba_low := ucast (lba AND 0xFF), g_reg_lba_mid := ucast (drop_bit 8 lba AND 0xFF),
       g_reg_lba_high := ucast (drop_bit 16 lba AND 0xFF)\<rparr>)\<rparr>"
proof -
  have keep: "disk_quiet t \<Longrightarrow> disk_quiet (t\<lparr>sy_dev := (sy_dev t)\<lparr>g_reg_sector_count := x\<rparr>\<rparr>)"
    "disk_quiet t \<Longrightarrow> disk_quiet (t\<lparr>sy_dev := (sy_dev t)\<lparr>g_reg_lba_low := x\<rparr>\<rparr>)"
    "disk_quiet t \<Longrightarrow> disk_quiet (t\<lparr>sy_dev := (sy_dev t)\<lparr>g_reg_lba_mid := x\<rparr>\<rparr>)"
    "disk_quiet t \<Longrightarrow> disk_quiet (t\<lparr>sy_dev := (sy_dev t)\<lparr>g_reg_lba_high := x\<rparr>\<rparr>)" for t x
    by (simp_all add: disk_quiet_def ide_idle_def)
  let ?s1 = "bus_wreg bus REG_SECTOR_COUNT cnt s"
  let ?s2 = "bus_wreg bus REG_LBA_LOW (ucast (lba AND 0xFF)) ?s1"
  let ?s3 = "bus_wreg bus REG_LBA_MID (ucast (drop_bit 8 lba AND 0xFF)) ?s2"
  let ?s4 = "bus_wreg bus REG_LBA_HIGH (ucast (drop_bit 16 lba AND 0xFF)) ?s3"
  note w = quiet_wreg taskfile_write_def decode_reg_raw ata_reg_defs
  have 1: "sys ?s1 = (sys s)\<lparr>sy_dev := (sy_dev (sys s))\<lparr>g_reg_sector_count := cnt\<rparr>\<rparr>" using assms by (simp add: w)
  have q1: "disk_quiet (sys ?s1)" unfolding 1 by (rule keep(1) [OF assms])
  have 2: "sys ?s2 = (sys ?s1)\<lparr>sy_dev := (sy_dev (sys ?s1))\<lparr>g_reg_lba_low := ucast (lba AND 0xFF)\<rparr>\<rparr>"
    using quiet_wreg [OF q1, of REG_LBA_LOW] by (simp add: taskfile_write_def decode_reg_raw ata_reg_defs)
  have q2: "disk_quiet (sys ?s2)" unfolding 2 by (rule keep(2) [OF q1])
  have 3: "sys ?s3 = (sys ?s2)\<lparr>sy_dev := (sy_dev (sys ?s2))\<lparr>g_reg_lba_mid := ucast (drop_bit 8 lba AND 0xFF)\<rparr>\<rparr>"
    using quiet_wreg [OF q2, of REG_LBA_MID] by (simp add: taskfile_write_def decode_reg_raw ata_reg_defs)
  have q3: "disk_quiet (sys ?s3)" unfolding 3 by (rule keep(3) [OF q2])
  have 4: "sys ?s4 = (sys ?s3)\<lparr>sy_dev := (sy_dev (sys ?s3))\<lparr>g_reg_lba_high := ucast (drop_bit 16 lba AND 0xFF)\<rparr>\<rparr>"
    using quiet_wreg [OF q3, of REG_LBA_HIGH] by (simp add: taskfile_write_def decode_reg_raw ata_reg_defs)
  have q4: "disk_quiet (sys ?s4)" unfolding 4 by (rule keep(4) [OF q3])
  have 5: "sys (ata_command bus cnt lba cmd s) = (sys ?s4)\<lparr>sy_dev := dispatch_command cmd (sy_dev (sys ?s4))\<rparr>"
    using quiet_wreg [OF q4, of REG_COMMAND] by (simp add: ata_command_def Let_def taskfile_write_def decode_reg_raw ata_reg_defs)
  show ?thesis unfolding 5 4 3 2 1 by simp
qed
end

lemma lba_split:
  assumes "(lba :: u32) \<le> 0x0FFFFFFF"
  shows "push_bit 24 (ucast (devhead drive lba AND 0x0F)) OR push_bit 16 (ucast (ucast (drop_bit 16 lba AND 0xFF) :: u8)) OR
    push_bit 8 (ucast (ucast (drop_bit 8 lba AND 0xFF) :: u8)) OR ucast (ucast (lba AND 0xFF) :: u8) = lba"
proof -
  have m: "(0xFF :: u32) = mask 8" "(0x0F :: u32) = mask 4" "(0x0F :: u8) = mask 4" "(0x0FFFFFFF :: u32) = mask 28"
    by (simp_all add: mask_eq_exp_minus_1)
  have "unat lba < 2 ^ 28" using assms by (simp add: word_le_nat_alt)
  then have "unat (take_bit 28 lba) = unat lba" by (simp add: unsigned_take_bit_eq take_bit_nat_eq_self)
  then have l: "lba AND mask 28 = lba" by (simp add: take_bit_eq_mask [symmetric] unsigned_word_eqI)
  have hi: "bit lba n \<Longrightarrow> n < 28" for n
    using l by (metis bit_and_iff bit_mask_iff)
  have d: "(devhead drive lba AND 0x0F) = ucast (drop_bit 24 lba AND 0x0F)"
  proof -
    have z: "(0xE0 :: u8) AND 0xF = 0" by simp
    have "push_bit 4 (drive AND 1) AND (mask 4 :: u8) = 0"
      by (rule bit_eqI) (auto simp: bit_simps)
    moreover have "ucast (drop_bit 24 lba AND mask 4) AND (mask 4 :: u8) = ucast (drop_bit 24 lba AND mask 4)"
      by (rule bit_eqI) (auto simp: bit_simps)
    ultimately show ?thesis using z unfolding devhead_def m(2,3) by (simp add: bit.conj_disj_distrib2)
  qed
  show ?thesis unfolding d unfolding m(1,2)
  proof (rule bit_eqI)
    fix n :: nat
    consider "n < 8" | "8 \<le> n" "n < 16" | "16 \<le> n" "n < 24" | "24 \<le> n" "n < 28" | "28 \<le> n" by linarith
    then show "bit (push_bit 24 (ucast (ucast (drop_bit 24 lba AND mask 4) :: u8)) OR
        push_bit 16 (ucast (ucast (drop_bit 16 lba AND mask 8) :: u8)) OR
        push_bit 8 (ucast (ucast (drop_bit 8 lba AND mask 8) :: u8)) OR ucast (ucast (lba AND mask 8) :: u8) :: u32) n = bit lba n"
      using hi [of n] by cases (simp_all add: bit_simps less_diff_conv2, blast)
  qed
qed

lemma word_bytes_Cons: "word_bytes (w # ws) = word_hi w # word_lo w # word_bytes ws"
  "word_bytes [] = []" "word_bytes (us @ ws) = word_bytes us @ word_bytes ws"
  by (simp_all add: word_bytes_def)

lemma word_lo_and: "ucast (w AND 0xFF) = word_lo w"
proof -
  have m: "(0xFF :: u16) = mask 8" by (simp add: mask_eq_exp_minus_1)
  show ?thesis unfolding m word_lo_def by (rule bit_eqI) (auto simp: bit_simps)
qed

lemma word_bytes_sector: "length bs = 512 \<Longrightarrow> word_bytes (sector_words bs) = bs"
proof (rule nth_equalityI)
  fix i assume bs: "length bs = 512" and "i < length (word_bytes (sector_words bs))"
  then have i: "i < 512" by (simp add: length_word_bytes)
  define j where "j = i div 2"
  have j: "j < 256" "i = 2 * j \<or> i = Suc (2 * j)" using i by (auto simp: j_def)
  then show "word_bytes (sector_words bs) ! i = bs ! i"
    using nth_word_bytes [of j "sector_words bs"] by (auto simp: sector_words_def buf_word_def hi_lo_be_word)
qed (simp add: length_word_bytes)

lemma word_bytes_stream:
  "(\<And>a. length (cd a) = 512) \<Longrightarrow> word_bytes (read_stream cd l n) = concat (map (\<lambda>j. cd (l + of_nat j)) [0..<n])"
  by (induction n) (simp_all add: read_stream_Suc word_bytes_Cons word_bytes_sector, simp add: read_stream_def word_bytes_Cons)

lemma length_read_stream: "length (read_stream cd l n) = 256 * n"
  by (induction n) (simp_all add: read_stream_Suc, simp add: read_stream_def)

text \<open>What the driver has read, when it stops: \<open>ws\<close> are the words it took and stored.\<close>

definition took :: "ide_sys \<Rightarrow> u16 list \<Rightarrow> ide_sys \<Rightarrow> bool" where
  "took s ws s' \<longleftrightarrow> (\<exists>ls. list_all host_reads ls \<and> ide_run s ls s') \<and> sy_got s' = sy_got s @ ws"

lemma took_trans: "took s ws t \<Longrightarrow> took t us u \<Longrightarrow> took s (ws @ us) u"
proof -
  assume "took s ws t" "took t us u"
  then obtain l1 l2 where "list_all host_reads l1" "ide_run s l1 t" "list_all host_reads l2" "ide_run t l2 u"
    and got: "sy_got t = sy_got s @ ws" "sy_got u = sy_got t @ us"
    unfolding took_def by blast
  then show ?thesis unfolding took_def using run_trans [of t l2 u s l1] by (auto intro!: exI [of _ "l1 @ l2"])
qed

context ide_bus
begin

lemma took_polls: "polls s s' \<Longrightarrow> took (sys s) [] (sys s')"
  unfolding polls_def took_def using poll_all poll_run_data by fastforce

lemma took_word: "bus_rdata bus s = Some (w, s') \<Longrightarrow> took (sys s) [w] (sys s')"
proof -
  assume "bus_rdata bus s = Some (w, s')"
  then obtain ls where ls: "list_all device_step ls" "ide_run (sys s) (ls @ [HostReadData w]) (sys s')"
    using rdata_run by blast
  then obtain t where "ide_run (sys s) ls t" and t: "ide_step t (HostReadData w) (sys s')" using run_snoc by blast
  then have "sy_got t = sy_got (sys s)" using poll_run_data device_poll_all ls(1) by blast
  moreover from t have "sy_got (sys s') = sy_got t @ [w]" by (cases rule: ide_step.cases) auto
  ultimately show ?thesis unfolding took_def using ls device_poll_all
    by (auto intro!: exI [of _ "ls @ [HostReadData w]"] simp: host_reads_def)
qed

lemma took_words:
  "read_words bus n p m s = Some (m', s') \<Longrightarrow>
   \<exists>ws. length ws = n \<and> took (sys s) ws (sys s') \<and> m' = wr_bytes m p (word_bytes ws)"
proof (induction n arbitrary: p m s)
  case 0
  then show ?case using took_polls [OF polls_refl] by (auto simp: word_bytes_Cons)
next
  case (Suc n)
  then obtain w t where w: "bus_rdata bus s = Some (w, t)"
    and rest: "read_words bus n (p + 2) (m(p := word_hi w, p + 1 := word_lo w)) t = Some (m', s')"
    by (auto simp: ata_data_read16_def word_hi_def word_lo_and split: option.splits)
  then obtain ws where "length ws = n" "took (sys t) ws (sys s')"
    "m' = wr_bytes (m(p := word_hi w, p + 1 := word_lo w)) (p + 2) (word_bytes ws)"
    using Suc.IH by blast
  then show ?case using took_trans [OF took_word [OF w]]
    by (intro exI [of _ "w # ws"]) (auto simp: word_bytes_Cons)
qed

lemma took_sectors:
  "read_sectors_loop bus k p m s = Some (r, m', s') \<Longrightarrow>
   \<exists>ws. took (sys s) ws (sys s') \<and> m' = wr_bytes m p (word_bytes ws) \<and> (r = ATA_OK \<longrightarrow> length ws = 256 * k)"
proof (induction k arbitrary: p m s)
  case 0
  then show ?case using took_polls [OF polls_refl] by (auto intro!: exI [of _ "[]"] simp: word_bytes_Cons)
next
  case (Suc k)
  obtain q t where wait: "ata_wait_drq bus s = (q, t)" by fastforce
  have tk: "took (sys s) [] (sys t)" by (rule took_polls [OF polls_wait_drq [OF wait]])
  show ?case
  proof (cases "q = ATA_OK")
    case True
    then obtain m1 u where rd: "read_words bus 256 p m t = Some (m1, u)"
      and rest: "read_sectors_loop bus k (p + 512) m1 u = Some (r, m', s')"
      using Suc.prems wait by (auto split: option.splits)
    obtain ws where ws: "length ws = 256" "took (sys t) ws (sys u)" "m1 = wr_bytes m p (word_bytes ws)"
      using took_words [OF rd] by blast
    obtain us where us: "took (sys u) us (sys s')" "m' = wr_bytes m1 (p + 512) (word_bytes us)"
        "r = ATA_OK \<longrightarrow> length us = 256 * k"
      using Suc.IH [OF rest] by blast
    have "m' = wr_bytes m p (word_bytes (ws @ us))"
      using us(2) ws(1,3) by (simp add: word_bytes_Cons wr_bytes_append length_word_bytes)
    then show ?thesis using took_trans [OF tk took_trans [OF ws(2) us(1)]] us(3) ws(1)
      by (intro exI [of _ "ws @ us"]) auto
  next
    case False
    then show ?thesis using Suc.prems wait tk
      by (intro exI [of _ "[]"]) (auto simp: word_bytes_Cons split: ata_status_t.splits)
  qed
qed

text \<open>The command as the disk receives it.\<close>

lemma quiet_issue:
  assumes "disk_quiet (sys s)" "cnt \<noteq> 0" "lba \<le> 0x0FFFFFFF"
    "ata_wait_clear bus ATA_SR_BSY (ata_select_drive bus drive lba s) = (r, t)"
  obtains s0 where "r" "sys (ata_command bus cnt lba cmd t) = s0\<lparr>sy_dev := dispatch_command cmd (sy_dev s0)\<rparr>"
    "ide_idle s0" "sy_card s0 = sy_card (sys s)" "sy_got s0 = sy_got (sys s)" "sy_put s0 = sy_put (sys s)"
    "g_buf (sy_dev s0) = g_buf (sy_dev (sys s))"
    "current_lba_from_regs (sy_dev s0) = lba" "unat (sector_count_from_reg (sy_dev s0)) = unat cnt"
proof -
  note sel = quiet_select [OF assms(1), of drive lba]
  have q: "disk_quiet (sys (ata_select_drive bus drive lba s))" using assms(1) by (simp add: sel disk_quiet_def ide_idle_def)
  have w: "r" "sys t = sys (ata_select_drive bus drive lba s)" using quiet_wait_clear [OF q assms(4)] by auto
  define s0 where "s0 = (sys t)\<lparr>sy_dev := ((sy_dev (sys t))
      \<lparr>g_reg_sector_count := cnt, g_reg_lba_low := ucast (lba AND 0xFF), g_reg_lba_mid := ucast (drop_bit 8 lba AND 0xFF),
       g_reg_lba_high := ucast (drop_bit 16 lba AND 0xFF)\<rparr>)\<rparr>"
  have "sys (ata_command bus cnt lba cmd t) = s0\<lparr>sy_dev := dispatch_command cmd (sy_dev s0)\<rparr>"
    using quiet_command [of t cnt lba cmd] q w by (simp add: s0_def)
  moreover have "current_lba_from_regs (sy_dev s0) = lba"
    unfolding current_lba_from_regs_def s0_def w(2) sel using lba_split [OF assms(3), of drive] by simp
  moreover have "unat (sector_count_from_reg (sy_dev s0)) = unat cnt"
    using assms(2) less_trans [OF unat_less_exp(1) [of cnt], of "2 ^ 16"]
    by (simp add: sector_count_from_reg_def s0_def unsigned_ucast_eq take_bit_nat_eq_self)
  moreover have "ide_idle s0" using assms(1) unfolding disk_quiet_def by (simp add: s0_def w(2) sel ide_idle_def)
  ultimately show ?thesis using that [of s0] w(1) by (simp add: s0_def w(2) sel)
qed

lemma quiet_read_inv:
  assumes "disk_quiet (sys s)" "cnt \<noteq> 0" "lba \<le> 0x0FFFFFFF" "sy_got (sys s) = []"
    "ata_wait_clear bus ATA_SR_BSY (ata_select_drive bus drive lba s) = (r, t)"
  shows "r \<and> read_inv (sy_card (sys s)) lba (unat cnt) (sys (ata_command bus cnt lba ATA_CMD_READ_SECTORS t)) \<and>
    sy_got (sys (ata_command bus cnt lba ATA_CMD_READ_SECTORS t)) = []"
proof -
  obtain s0 where s0: "r" "sys (ata_command bus cnt lba 0x20 t) = s0\<lparr>sy_dev := dispatch_command 0x20 (sy_dev s0)\<rparr>"
    "ide_idle s0" "sy_card s0 = sy_card (sys s)" "sy_got s0 = sy_got (sys s)"
    "current_lba_from_regs (sy_dev s0) = lba" "unat (sector_count_from_reg (sy_dev s0)) = unat cnt"
    by (rule quiet_issue [OF assms(1-3,5), of "0x20"]) blast
  then show ?thesis using read_inv_begin [of s0] assms(4) by (simp add: ATA_CMD_READ_SECTORS_def)
qed

lemma read_sectors_data:
  assumes "disk_quiet (sys s)" "sy_got (sys s) = []" "\<And>a. length (sy_card (sys s) a) = 512"
    "ata_read_sectors bus drive lba cnt buf m s = Some (ATA_OK, m', s')"
  shows "m' = wr_bytes m buf (concat (map (\<lambda>j. sy_card (sys s) (lba + of_nat j)) [0..<unat cnt])) \<and>
    sy_card (sys s') = sy_card (sys s)"
proof -
  have arg: "cnt \<noteq> 0" "lba \<le> 0x0FFFFFFF" using assms(4) by (auto simp: ata_read_sectors_def split: if_splits)
  obtain r t where w: "ata_wait_clear bus ATA_SR_BSY (ata_select_drive bus drive lba s) = (r, t)" by fastforce
  let ?c = "ata_command bus cnt lba ATA_CMD_READ_SECTORS t"
  have c: "r" "read_inv (sy_card (sys s)) lba (unat cnt) (sys ?c)" "sy_got (sys ?c) = []"
    using quiet_read_inv [OF assms(1) arg assms(2) w] by auto
  have "read_sectors_loop bus (unat cnt) buf m ?c = Some (ATA_OK, m', s')"
    using assms(4) w c(1) by (auto simp: ata_read_sectors_def split: if_splits)
  then obtain ws where ws: "took (sys ?c) ws (sys s')" "m' = wr_bytes m buf (word_bytes ws)" "length ws = 256 * unat cnt"
    using took_sectors by blast
  then have inv: "read_inv (sy_card (sys s)) lba (unat cnt) (sys s')"
    unfolding took_def using c(2) read_inv_run by blast
  have "sy_got (sys s') = ws" using ws(1) c(3) by (simp add: took_def)
  then have "prefix ws (read_stream (sy_card (sys s)) lba (unat cnt))"
    using read_inv_prefix [OF inv] by (auto simp: words_out_def dest: append_prefixD)
  then have "ws = read_stream (sy_card (sys s)) lba (unat cnt)"
    using ws(3) length_read_stream [of "sy_card (sys s)" lba "unat cnt"] by (auto simp: prefix_def)
  then show ?thesis using ws(2) word_bytes_stream [of "sy_card (sys s)", OF assms(3)] inv
    by (simp add: read_inv_def read_frame_def)
qed
end

section \<open>Writing through a bus\<close>

definition mem_words :: "mem \<Rightarrow> nat \<Rightarrow> nat \<Rightarrow> u16 list" where
  "mem_words m p n = map (\<lambda>i. be_word (m (p + 2 * i)) (m (p + 2 * i + 1))) [0..<n]"

lemma mem_words_Suc: "mem_words m p (Suc n) = be_word (m p) (m (Suc p)) # mem_words m (p + 2) n"
  unfolding mem_words_def upt_conv_Cons [OF zero_less_Suc] map_Suc_upt [symmetric]
  by (simp add: ac_simps)

lemma mem_words_0: "mem_words m p 0 = []"
  by (simp add: mem_words_def)

lemma mem_words_append: "mem_words m p (a + b) = mem_words m p a @ mem_words m (p + 2 * a) b"
  by (induction a arbitrary: p) (simp_all add: mem_words_Suc mem_words_0 ac_simps)

lemma word_bytes_mem_words: "word_bytes (mem_words m p n) = rd_bytes m p (2 * n)"
  by (induction n arbitrary: p) (simp_all add: mem_words_Suc mem_words_0 word_bytes_Cons hi_lo_be_word)

lemma length_mem_words [simp]: "length (mem_words m p n) = n"
  by (simp add: mem_words_def)

definition gave :: "ide_sys \<Rightarrow> u16 list \<Rightarrow> ide_sys \<Rightarrow> bool" where
  "gave s ws s' \<longleftrightarrow> (\<exists>ls. list_all host_writes ls \<and> ide_run s ls s') \<and> sy_put s' = sy_put s @ ws"

lemma gave_trans: "gave s ws t \<Longrightarrow> gave t us u \<Longrightarrow> gave s (ws @ us) u"
proof -
  assume "gave s ws t" "gave t us u"
  then obtain l1 l2 where "list_all host_writes l1" "ide_run s l1 t" "list_all host_writes l2" "ide_run t l2 u"
    and put: "sy_put t = sy_put s @ ws" "sy_put u = sy_put t @ us"
    unfolding gave_def by blast
  then show ?thesis unfolding gave_def using run_trans [of t l2 u s l1] by (auto intro!: exI [of _ "l1 @ l2"])
qed

lemma gave_run: "ide_run s ls s' \<Longrightarrow> list_all poll_step ls \<Longrightarrow> gave s [] s'"
  unfolding gave_def using poll_all poll_run_data by fastforce

context ide_bus
begin

lemma gave_polls: "polls s s' \<Longrightarrow> gave (sys s) [] (sys s')"
  unfolding polls_def using gave_run by blast

lemma gave_word: "bus_wdata bus w s = Some s' \<Longrightarrow> gave (sys s) [w] (sys s')"
proof -
  assume "bus_wdata bus w s = Some s'"
  then obtain ls where ls: "list_all device_step ls" "ide_run (sys s) (ls @ [HostWriteData w]) (sys s')"
    using wdata_run by blast
  then obtain t where "ide_run (sys s) ls t" and t: "ide_step t (HostWriteData w) (sys s')" using run_snoc by blast
  then have "sy_put t = sy_put (sys s)" using poll_run_data device_poll_all ls(1) by blast
  moreover from t have "sy_put (sys s') = sy_put t @ [w]" by (cases rule: ide_step.cases) auto
  ultimately show ?thesis unfolding gave_def using ls device_poll_all
    by (auto intro!: exI [of _ "ls @ [HostWriteData w]"] simp: host_writes_def)
qed

lemma gave_words: "write_words bus n p m s = Some s' \<Longrightarrow> gave (sys s) (mem_words m p n) (sys s')"
proof (induction n arbitrary: p s)
  case 0
  then show ?case using gave_polls [OF polls_refl] by (simp add: mem_words_0)
next
  case (Suc n)
  then obtain t where w: "bus_wdata bus (be_word (m p) (m (Suc p))) s = Some t"
    and rest: "write_words bus n (p + 2) m t = Some s'"
    by (auto simp: ata_data_write16_def be_word_def split: option.splits)
  then show ?case using gave_trans [OF gave_word [OF w] Suc.IH [OF rest]] by (simp add: mem_words_Suc)
qed

lemma gave_sectors:
  "write_sectors_loop bus k p m s = Some (r, s') \<Longrightarrow>
   \<exists>ws. gave (sys s) ws (sys s') \<and> (r = ATA_OK \<longrightarrow> ws = mem_words m p (256 * k))"
proof (induction k arbitrary: p s)
  case 0
  then show ?case using gave_polls [OF polls_refl] by (auto intro!: exI [of _ "[]"] simp: mem_words_0)
next
  case (Suc k)
  obtain q t where wait: "ata_wait_drq bus s = (q, t)" by fastforce
  have tk: "gave (sys s) [] (sys t)" by (rule gave_polls [OF polls_wait_drq [OF wait]])
  show ?case
  proof (cases "q = ATA_OK")
    case True
    then obtain u where wr: "write_words bus 256 p m t = Some u"
      and rest: "write_sectors_loop bus k (p + 512) m u = Some (r, s')"
      using Suc.prems wait by (auto split: option.splits)
    obtain us where us: "gave (sys u) us (sys s')" "r = ATA_OK \<longrightarrow> us = mem_words m (p + 512) (256 * k)"
      using Suc.IH [OF rest] by blast
    show ?thesis using gave_trans [OF tk gave_trans [OF gave_words [OF wr] us(1)]] us(2)
      by (intro exI [of _ "mem_words m p 256 @ us"]) (auto simp: mem_words_append)
  next
    case False
    then show ?thesis using Suc.prems wait tk
      by (intro exI [of _ "[]"]) (auto split: ata_status_t.splits)
  qed
qed

lemma quiet_write_inv:
  assumes "disk_quiet (sys s)" "cnt \<noteq> 0" "lba \<le> 0x0FFFFFFF" "sy_put (sys s) = []" "length (g_buf (sy_dev (sys s)) 0) = 512"
    "ata_wait_clear bus ATA_SR_BSY (ata_select_drive bus drive lba s) = (r, t)"
  shows "r \<and> write_inv (sy_card (sys s)) lba (unat cnt) (sys (ata_command bus cnt lba ATA_CMD_WRITE_SECTORS t)) \<and>
    sy_put (sys (ata_command bus cnt lba ATA_CMD_WRITE_SECTORS t)) = [] \<and>
    sy_got (sys (ata_command bus cnt lba ATA_CMD_WRITE_SECTORS t)) = sy_got (sys s)"
proof -
  obtain s0 where s0: "r" "sys (ata_command bus cnt lba 0x30 t) = s0\<lparr>sy_dev := dispatch_command 0x30 (sy_dev s0)\<rparr>"
    "ide_idle s0" "sy_card s0 = sy_card (sys s)" "sy_got s0 = sy_got (sys s)" "sy_put s0 = sy_put (sys s)"
    "g_buf (sy_dev s0) = g_buf (sy_dev (sys s))"
    "current_lba_from_regs (sy_dev s0) = lba" "unat (sector_count_from_reg (sy_dev s0)) = unat cnt"
    by (rule quiet_issue [OF assms(1-3,6), of "0x30"]) blast
  then show ?thesis using write_inv_begin [of s0] assms(4,5) by (simp add: ATA_CMD_WRITE_SECTORS_def)
qed

lemma write_sectors_data:
  assumes "disk_quiet (sys s)" "sy_put (sys s) = []" "length (g_buf (sy_dev (sys s)) 0) = 512"
    "ata_write_sectors bus drive lba cnt buf m s = Some (ATA_OK, s')"
  shows "write_inv (sy_card (sys s)) lba (unat cnt) (sys s') \<and> sy_put (sys s') = mem_words m buf (256 * unat cnt) \<and>
    sy_got (sys s') = sy_got (sys s)"
proof -
  have arg: "cnt \<noteq> 0" "lba \<le> 0x0FFFFFFF" using assms(4) by (auto simp: ata_write_sectors_def split: if_splits)
  obtain r t where w: "ata_wait_clear bus ATA_SR_BSY (ata_select_drive bus drive lba s) = (r, t)" by fastforce
  let ?c = "ata_command bus cnt lba ATA_CMD_WRITE_SECTORS t"
  have c: "r" "write_inv (sy_card (sys s)) lba (unat cnt) (sys ?c)" "sy_put (sys ?c) = []" "sy_got (sys ?c) = sy_got (sys s)"
    using quiet_write_inv [OF assms(1) arg assms(2,3) w] by auto
  obtain u where u: "write_sectors_loop bus (unat cnt) buf m ?c = Some (ATA_OK, u)"
      "ata_wait_clear bus ATA_SR_BSY u = (True, s')"
    using assms(4) w c(1)
    by (auto simp: ata_write_sectors_def split: if_splits option.splits ata_status_t.splits prod.splits bool.splits)
  have "gave (sys ?c) (mem_words m buf (256 * unat cnt)) (sys u)" using gave_sectors [OF u(1)] by blast
  from gave_trans [OF this gave_polls [OF polls_wait_clear [OF u(2)]]]
  obtain ls where ls: "list_all host_writes ls" "ide_run (sys ?c) ls (sys s')"
    "sy_put (sys s') = mem_words m buf (256 * unat cnt)" unfolding gave_def c(3) by auto
  then show ?thesis using write_inv_run [OF ls(2) c(2) ls(1)] write_run_got [OF ls(2) c(2) ls(1)] c(4) by simp
qed
end

text \<open>The blocks that the words of a buffer make, once the disk is ready again.\<close>

definition blocks_of :: "(u32 \<Rightarrow> u8 list) \<Rightarrow> u32 \<Rightarrow> mem \<Rightarrow> nat \<Rightarrow> nat \<Rightarrow> u32 \<Rightarrow> u8 list" where
  "blocks_of cd lba m p n a = (if unat (a - lba) < n then rd_bytes m (p + 512 * unat (a - lba)) 512 else cd a)"

lemma write_blocks_mem:
  assumes "n \<le> 2 ^ 32"
  shows "write_blocks cd lba (mem_words m p (256 * n)) n = blocks_of cd lba m p n"
proof (rule ext)
  fix a :: u32
  let ?j = "unat (a - lba)"
  show "write_blocks cd lba (mem_words m p (256 * n)) n a = blocks_of cd lba m p n a"
  proof (cases "?j < n")
    case True
    have "256 * n = 256 * ?j + (256 + 256 * (n - Suc ?j))" using True by (simp add: algebra_simps)
    then have "take 256 (drop (256 * ?j) (mem_words m p (256 * n))) = mem_words m (p + 2 * (256 * ?j)) 256"
      by (simp only: mem_words_append [of m p]) (simp add: mem_words_append)
    moreover have "a = lba + of_nat ?j" by simp
    ultimately show ?thesis using write_blocks_at [OF True assms, of cd lba] True
      by (simp add: blocks_of_def word_bytes_mem_words)
  next
    case False
    have "a \<noteq> lba + of_nat j" if "j < n" for j
    proof
      assume "a = lba + of_nat j"
      then have "?j = j" using that assms by (simp add: of_nat_inverse_u32)
      then show False using that False by simp
    qed
    then show ?thesis using write_blocks_other [of n a lba] False by (simp add: blocks_of_def)
  qed
qed

lemma write_run_done:
  assumes "write_inv cd lba n s" "sy_put s = mem_words m p (256 * n)" "n \<le> 2 ^ 32"
    "ide_run s ls s'" "list_all poll_step ls" "g_reg_status (sy_dev s') = 0x40"
  shows "sy_card s' = blocks_of cd lba m p n"
proof -
  have "write_inv cd lba n s'" using write_inv_run [OF assms(4,1)] poll_all assms(5) by blast
  moreover have "sy_put s' = sy_put s" using poll_run_data assms(4,5) by blast
  ultimately show ?thesis using write_inv_idle assms(2,6) write_blocks_mem [OF assms(3)] by simp
qed

lemma blocks_read_back:
  assumes "n \<le> 2 ^ 32"
  shows "concat (map (\<lambda>j. blocks_of cd lba m p n (lba + of_nat j)) [0..<n]) = rd_bytes m p (512 * n)"
proof -
  have "concat (map (\<lambda>j. blocks_of cd lba m p n (lba + of_nat j)) [0..<k]) = rd_bytes m p (512 * k)" if "k \<le> n" for k
    using that
  proof (induction k)
    case (Suc k)
    have "blocks_of cd lba m p n (lba + of_nat k) = rd_bytes m (p + 512 * k) 512"
      using Suc.prems assms by (simp add: blocks_of_def of_nat_inverse_u32)
    then show ?case using Suc rd_bytes_append [of m p "512 * k" 512] by (simp add: add.commute)
  qed simp
  then show ?thesis by blast
qed

end
