(* ===== verification/Ata_Bus.thy ===== *)
theory Ata_Bus
  imports Ata_Driver
begin

text \<open>
  The driver of \<open>drivers/picoIDE/ata.c\<close> and the disk of \<open>RP2350B/ide_dev.c\<close> together. \<open>eager_bus\<close> gives the
  disk time between two accesses of the host until it can do nothing more on its own, which it always
  reaches (\<open>device_work\<close>); it is an \<open>ide_bus\<close>, and the driver completes every transfer on it.
\<close>

section \<open>A bus that lets the disk work\<close>

text \<open>The next step of the disk on its own, with a card that never fails.\<close>

definition device_move :: "ide_sys \<Rightarrow> (ide_label \<times> ide_sys) option" where
  "device_move s =
     (let d = sy_dev s in
      if dma_b_irq d then Some (IrqB, s\<lparr>sy_dev := dma_b_irq_handler d\<rparr>)
      else if dma_c_irq d then Some (IrqC, s\<lparr>sy_dev := dma_c_irq_handler d\<rparr>)
      else case sy_fetch s of
        Some (b, lba) \<Rightarrow> Some (FetchDone True, s\<lparr>sy_dev := task_fetch_done b True (sy_card s lba) d, sy_fetch := None\<rparr>)
      | None \<Rightarrow>
       (case sy_flush s of
          Some (b, lba) \<Rightarrow> Some (FlushDone True, s\<lparr>sy_card := (sy_card s)(lba := g_buf d b),
            sy_dev := task_flush_done b lba True d, sy_flush := None\<rparr>)
        | None \<Rightarrow>
            if g_need_fetch d then
              Some (TakeFetch, s\<lparr>sy_dev := d\<lparr>g_need_fetch := False\<rparr>, sy_fetch := Some (g_fetch_buf d, g_fetch_lba d)\<rparr>)
            else if g_need_flush d then
              Some (TakeFlush, s\<lparr>sy_dev := d\<lparr>g_need_flush := False\<rparr>, sy_flush := Some (g_flush_buf d, g_flush_lba d)\<rparr>)
            else case dma_b d of
              Some (b, i) \<Rightarrow> if length (tx_fifo d) < 4 then Some (DmaB, s\<lparr>sy_dev := dma_b_move b i d\<rparr>) else None
            | None \<Rightarrow>
               (case dma_c d of
                  Some (b, i) \<Rightarrow> (case rx_fifo d of w # ws \<Rightarrow> Some (DmaC, s\<lparr>sy_dev := dma_c_move b i w ws d\<rparr>) | [] \<Rightarrow> None)
                | None \<Rightarrow> None)))"

lemma device_move_step: "device_move s = Some (l, t) \<Longrightarrow> ide_step s l t \<and> device_step l \<and> l \<noteq> FetchDone False \<and> l \<noteq> FlushDone False"
  unfolding device_move_def Let_def
  by (auto intro: ide_step.intros split: if_splits option.splits list.splits)

text \<open>What is left to do before the host must act: a word to move counts for ten steps, a raised interrupt
  for four, a request for three, a running SD transfer for two.\<close>

definition device_work :: "ide_sys \<Rightarrow> nat" where
  "device_work s =
     (let d = sy_dev s in
      10 * (4 - length (tx_fifo d)) + 10 * length (rx_fifo d) +
      4 * of_bool (dma_b_irq d) + 3 * of_bool (g_need_fetch d) + 2 * of_bool (sy_fetch s \<noteq> None) +
      4 * of_bool (dma_c_irq d) + 3 * of_bool (g_need_flush d) + 2 * of_bool (sy_flush s \<noteq> None))"

lemma device_step_work:
  "ide_step s l t \<Longrightarrow> device_step l \<Longrightarrow> device_work t < device_work s"
proof (induction rule: ide_step.induct)
  case (dma_b_word s b i)
  then have "10 * (4 - length (tx_fifo (sy_dev s))) = 10 + 10 * (3 - length (tx_fifo (sy_dev s)))" by simp
  moreover have "of_bool (i = 255) \<le> (1 :: nat)" by simp
  ultimately show ?case by (simp add: device_work_def Let_def dma_b_move_def)
next
  case (dma_b_interrupt s)
  then show ?case by (simp add: device_work_def Let_def dma_b_irq_handler_def ide_helper_defs)
next
  case (dma_c_word s b i w ws)
  moreover have "of_bool (i = 255) \<le> (1 :: nat)" by simp
  ultimately show ?case by (simp add: device_work_def Let_def dma_c_move_def)
next
  case (dma_c_interrupt s)
  then show ?case by (simp add: device_work_def Let_def dma_c_irq_handler_def ide_helper_defs)
next
  case (fetch_ok s b lba)
  then show ?case by (simp add: device_work_def Let_def task_fetch_done_def ide_helper_defs)
next
  case (fetch_fail s b lba data)
  then show ?case by (simp add: device_work_def Let_def task_fetch_done_def ide_helper_defs)
next
  case (flush_ok s b lba)
  then show ?case by (simp add: device_work_def Let_def task_flush_done_def ide_helper_defs)
next
  case (flush_fail s b lba data)
  then show ?case by (simp add: device_work_def Let_def task_flush_done_def ide_helper_defs)
qed (simp_all add: device_work_def Let_def)

lemma device_move_work: "device_move s = Some (l, t) \<Longrightarrow> device_work t < device_work s"
  using device_move_step device_step_work by blast

function settle :: "ide_sys \<Rightarrow> ide_sys" where
  "settle s = (case device_move s of None \<Rightarrow> s | Some (_, t) \<Rightarrow> settle t)"
  by auto
termination
  by (relation "measure device_work") (auto dest: device_move_work)

declare settle.simps [simp del]

lemma settle_run: "\<exists>ls. list_all device_step ls \<and> ide_run s ls (settle s)"
proof (induction s rule: settle.induct)
  case (1 s)
  show ?case
  proof (cases "device_move s")
    case None
    then show ?thesis by (auto simp: settle.simps [of s] intro!: exI [of _ "[]"] run_nil)
  next
    case (Some lt)
    then obtain l t where mv: "device_move s = Some (l, t)" by (cases lt) auto
    then obtain ls where "list_all device_step ls" "ide_run t ls (settle t)" using "1.IH" [OF mv refl] by blast
    then show ?thesis using device_move_step [OF mv] run_trans [OF _ run_single, of t ls "settle t" s l] mv
      by (intro exI [of _ "l # ls"]) (auto simp: settle.simps [of s])
  qed
qed

lemma settle_done: "device_move (settle s) = None"
  by (induction s rule: settle.induct) (subst settle.simps, auto split: option.splits)

lemma settle_idem: "settle (settle s) = settle s"
  by (subst settle.simps) (simp add: settle_done)

lemma settle_inv:
  assumes "P s" "\<And>s l t. P s \<Longrightarrow> device_move s = Some (l, t) \<Longrightarrow> P t"
  shows "P (settle s)"
  using assms(1)
proof (induction s rule: settle.induct)
  case (1 s)
  then show ?case using assms(2) by (subst settle.simps) (auto split: option.splits)
qed

definition eager_status :: "ide_sys \<Rightarrow> u8 \<times> ide_sys" where
  "eager_status s = (let s = settle s; (v, d) = taskfile_read (reg_raw 7 0) (sy_dev s) in (v, s\<lparr>sy_dev := d\<rparr>))"

definition eager_wreg :: "nat \<Rightarrow> u8 \<Rightarrow> ide_sys \<Rightarrow> ide_sys" where
  "eager_wreg a v s = (let s = settle s in s\<lparr>sy_dev := taskfile_write (reg_raw a v) (sy_dev s)\<rparr>)"

definition eager_rdata :: "ide_sys \<Rightarrow> (u16 \<times> ide_sys) option" where
  "eager_rdata s =
     (let s = settle s in
      case tx_fifo (sy_dev s) of
        [] \<Rightarrow> None
      | w # ws \<Rightarrow> Some (w, s\<lparr>sy_dev := (sy_dev s)\<lparr>tx_fifo := ws\<rparr>, sy_got := sy_got s @ [w]\<rparr>))"

definition eager_wdata :: "u16 \<Rightarrow> ide_sys \<Rightarrow> ide_sys option" where
  "eager_wdata w s =
     (let s = settle s in
      if length (rx_fifo (sy_dev s)) < 4
      then Some (s\<lparr>sy_dev := (sy_dev s)\<lparr>rx_fifo := rx_fifo (sy_dev s) @ [w]\<rparr>, sy_put := sy_put s @ [w]\<rparr>)
      else None)"

definition eager_bus :: "ide_sys ata_bus" where
  "eager_bus = \<lparr>bus_status = eager_status, bus_wreg = eager_wreg, bus_rdata = eager_rdata, bus_wdata = eager_wdata\<rparr>"

lemma settle_then: "ide_step (settle s) l t \<Longrightarrow> \<exists>ls. list_all device_step ls \<and> ide_run s (ls @ [l]) t"
  using settle_run [of s] run_step by blast

lemma eager_bus_sel [simp]:
  "bus_status eager_bus = eager_status" "bus_wreg eager_bus = eager_wreg"
  "bus_rdata eager_bus = eager_rdata" "bus_wdata eager_bus = eager_wdata"
  by (simp_all add: eager_bus_def)

interpretation eager: ide_bus eager_bus "\<lambda>s. s"
proof
  fix s v s' assume "bus_status eager_bus s = (v, s')"
  then show "\<exists>ls. list_all device_step ls \<and> ide_run s (ls @ [HostReadReg (reg_raw 7 0) v]) s'"
    by (intro settle_then) (auto simp: eager_status_def Let_def intro: host_read_reg split: prod.splits)
next
  fix a v s
  show "\<exists>ls. list_all device_step ls \<and> ide_run s (ls @ [HostWriteReg (reg_raw a v)]) (bus_wreg eager_bus a v s)"
    by (intro settle_then) (auto simp: eager_wreg_def Let_def intro: host_write_reg)
next
  fix s w s' assume "bus_rdata eager_bus s = Some (w, s')"
  then show "\<exists>ls. list_all device_step ls \<and> ide_run s (ls @ [HostReadData w]) s'"
    by (intro settle_then) (auto simp: eager_rdata_def Let_def intro: host_read_data split: list.splits)
next
  fix w s s' assume "bus_wdata eager_bus w s = Some s'"
  then show "\<exists>ls. list_all device_step ls \<and> ide_run s (ls @ [HostWriteData w]) s'"
    by (intro settle_then) (auto simp: eager_wdata_def Let_def intro: host_write_data split: if_splits)
qed

section \<open>The driver on this bus\<close>

lemma move_no_error: "device_move s = Some (l, t) \<Longrightarrow> \<not> bit (g_reg_status (sy_dev s)) 0 \<Longrightarrow> \<not> bit (g_reg_status (sy_dev t)) 0"
  unfolding device_move_def Let_def
  by (auto simp: dma_b_irq_handler_def dma_c_irq_handler_def task_fetch_done_def bit_simps
      task_flush_done_def dma_b_move_def dma_c_move_def ide_helper_defs Let_def split: if_splits option.splits list.splits)

lemma move_fifo: "device_move s = Some (l, t) \<Longrightarrow> length (tx_fifo (sy_dev s)) \<le> 4 \<Longrightarrow> length (tx_fifo (sy_dev t)) \<le> 4"
  unfolding device_move_def Let_def
  by (auto simp: dma_b_irq_handler_def dma_c_irq_handler_def task_fetch_done_def
      task_flush_done_def dma_b_move_def dma_c_move_def ide_helper_defs Let_def split: if_splits option.splits list.splits)

lemma move_data: "device_move s = Some (l, t) \<Longrightarrow> sy_got t = sy_got s \<and> sy_put t = sy_put s"
  using device_move_step poll_data device_poll by blast

definition read_good :: "(u32 \<Rightarrow> u8 list) \<Rightarrow> u32 \<Rightarrow> nat \<Rightarrow> nat \<Rightarrow> ide_sys \<Rightarrow> bool" where
  "read_good cd l n g s \<longleftrightarrow> read_inv cd l n s \<and> length (tx_fifo (sy_dev s)) \<le> 4 \<and> \<not> bit (g_reg_status (sy_dev s)) 0 \<and>
     length (sy_got s) = g"

lemma read_good_settle: "read_good cd l n g s \<Longrightarrow> read_good cd l n g (settle s)"
proof (erule settle_inv)
  fix s lb t assume "read_good cd l n g s" and mv: "device_move s = Some (lb, t)"
  moreover have "host_reads lb" using device_move_step [OF mv] device_poll poll_labels by blast
  ultimately show "read_good cd l n g t"
    using device_move_step [OF mv] read_inv_step move_no_error [OF mv] move_fifo [OF mv] move_data [OF mv]
    unfolding read_good_def by auto
qed

text \<open>A settled disk in a read either has a full FIFO and shows DRQ, or is done.\<close>

lemma read_settled:
  assumes "read_good cd l n g s" "device_move s = None"
  shows "g_reg_status (sy_dev s) = 0x48 \<and> tx_fifo (sy_dev s) \<noteq> [] \<and> g_dir (sy_dev s) = DIR_READ \<or>
    words_out s = read_stream cd l n"
proof -
  obtain k ph where at: "read_at cd l n k ph s" and fr: "read_frame cd s" using assms(1) by (auto simp: read_good_def read_inv_def)
  show ?thesis
    using at fr assms by (cases ph)
      (auto simp: device_move_def Let_def read_good_def read_frame_def read_active_def bit_1_0 split: if_splits option.splits)
qed

lemma eager_read_wait:
  assumes "read_good cd l n (256 * j) s" "j < n"
  shows "ata_wait_drq eager_bus s = (ATA_OK, settle s)"
proof -
  note good = read_good_settle [OF assms(1)]
  have "words_out (settle s) \<noteq> read_stream cd l n"
  proof
    assume "words_out (settle s) = read_stream cd l n"
    then have "256 * j + length (tx_fifo (sy_dev (settle s))) = 256 * n"
      using good length_read_stream [of cd l n] by (simp add: words_out_def read_good_def) (metis length_append)
    then show False using good assms(2) by (simp add: read_good_def)
  qed
  then have st: "g_reg_status (sy_dev (settle s)) = 0x48" "g_dir (sy_dev (settle s)) = DIR_READ"
    using read_settled [OF good settle_done] by auto
  then have "eager_status s = (0x48, settle s)" "eager_status (settle s) = (0x48, settle s)"
    by (simp_all add: eager_status_def settle_idem status_read)
  moreover obtain t where t: "ATA_TIMEOUT_LOOPS = Suc t" using timeout_Suc by blast
  ultimately show ?thesis by (simp add: ata_wait_drq_def ata_wait_clear_def t ata_const_defs)
qed

lemma eager_read_word:
  assumes "read_good cd l n g s" "g < 256 * n"
  shows "\<exists>w s'. eager_rdata s = Some (w, s') \<and> read_good cd l n (Suc g) s'"
proof -
  note good = read_good_settle [OF assms(1)]
  have "tx_fifo (sy_dev (settle s)) \<noteq> []"
    using read_settled [OF good settle_done] good assms(2) length_read_stream [of cd l n]
    by (auto simp: words_out_def read_good_def)
  then obtain w ws where f: "tx_fifo (sy_dev (settle s)) = w # ws" by (meson neq_Nil_conv)
  define t where "t = (settle s)\<lparr>sy_dev := (sy_dev (settle s))\<lparr>tx_fifo := ws\<rparr>, sy_got := sy_got (settle s) @ [w]\<rparr>"
  have "read_inv cd l n t"
    using read_inv_step [OF _ host_read_data [OF f]] good by (simp add: t_def read_good_def host_reads_def)
  then have "read_good cd l n (Suc g) t" using f good by (simp add: t_def read_good_def)
  moreover have "eager_rdata s = Some (w, t)" using f by (simp add: eager_rdata_def Let_def t_def)
  ultimately show ?thesis by blast
qed

lemma eager_read_words:
  "read_good cd l n g s \<Longrightarrow> g + k \<le> 256 * n \<Longrightarrow>
   \<exists>m' s'. read_words eager_bus k p m s = Some (m', s') \<and> read_good cd l n (g + k) s'"
proof (induction k arbitrary: g p m s)
  case (Suc k)
  then obtain w t where w: "eager_rdata s = Some (w, t)" and t: "read_good cd l n (Suc g) t"
    using eager_read_word [of cd l n g s] by auto
  then show ?case using Suc.IH [OF t] Suc.prems(2) by (simp add: ata_data_read16_def)
qed simp

lemma eager_read_loop:
  "read_good cd l n (256 * j) s \<Longrightarrow> j + k = n \<Longrightarrow> \<exists>m' s'. read_sectors_loop eager_bus k p m s = Some (ATA_OK, m', s')"
proof (induction k arbitrary: j p m s)
  case (Suc k)
  have "j < n" using Suc.prems(2) by simp
  note wait = eager_read_wait [OF Suc.prems(1) this]
  obtain m1 t where t: "read_words eager_bus 256 p m (settle s) = Some (m1, t)" "read_good cd l n (256 * Suc j) t"
    using eager_read_words [OF read_good_settle [OF Suc.prems(1)], of 256 p m] Suc.prems(2) by (auto simp: add.commute)
  then show ?case using Suc.IH [OF t(2), of "p + 512" m1] Suc.prems(2) wait by simp
qed simp

lemma eager_read_ok:
  assumes "disk_quiet s" "sy_got s = []" "cnt \<noteq> 0" "buf \<noteq> 0" "lba \<le> 0x0FFFFFFF"
  shows "\<exists>m' s'. ata_read_sectors eager_bus drive lba cnt buf m s = Some (ATA_OK, m', s')"
proof -
  obtain r t where w: "ata_wait_clear eager_bus ATA_SR_BSY (ata_select_drive eager_bus drive lba s) = (r, t)" by fastforce
  let ?c = "ata_command eager_bus cnt lba ATA_CMD_READ_SECTORS t"
  have c: "r" "read_inv (sy_card s) lba (unat cnt) ?c" "sy_got ?c = []"
    using eager.quiet_read_inv [OF assms(1,3,5,2) w] by auto
  have "tx_fifo (sy_dev ?c) = [] \<and> \<not> bit (g_reg_status (sy_dev ?c)) 0"
    by (simp add: ata_command_def Let_def eager_wreg_def ata_reg_defs taskfile_write_def decode_reg_raw ata_const_defs
      dispatch_command_def begin_read_sequence_def ide_helper_defs bit_simps)
  with c have "read_good (sy_card s) lba (unat cnt) (256 * 0) ?c" by (simp add: read_good_def)
  from eager_read_loop [OF this, of "unat cnt" buf m] show ?thesis
    using assms w c(1) by (simp add: ata_read_sectors_def)
qed

text \<open>The same for a write: a settled disk has an empty FIFO and shows DRQ, or is done.\<close>

definition write_good :: "(u32 \<Rightarrow> u8 list) \<Rightarrow> u32 \<Rightarrow> nat \<Rightarrow> nat \<Rightarrow> ide_sys \<Rightarrow> bool" where
  "write_good cd l n g s \<longleftrightarrow> write_inv cd l n s \<and> \<not> bit (g_reg_status (sy_dev s)) 0 \<and> length (sy_put s) = g"

lemma write_good_settle: "write_good cd l n g s \<Longrightarrow> write_good cd l n g (settle s)"
proof (erule settle_inv)
  fix s lb t assume "write_good cd l n g s" and mv: "device_move s = Some (lb, t)"
  moreover have "host_writes lb" using device_move_step [OF mv] device_poll poll_labels by blast
  ultimately show "write_good cd l n g t"
    using device_move_step [OF mv] write_inv_step move_no_error [OF mv] move_data [OF mv]
    unfolding write_good_def by auto
qed

lemma write_settled:
  assumes "write_good cd l n g s" "device_move s = None"
  shows "g < 256 * n \<and> g_reg_status (sy_dev s) = 0x48 \<and> rx_fifo (sy_dev s) = [] \<and> dma_c (sy_dev s) \<noteq> None \<or>
    256 * n \<le> g \<and> disk_quiet s \<and> g_reg_status (sy_dev s) = 0x40"
proof -
  obtain k ph where at: "write_at cd l n k ph s" and fr: "write_frame s" using assms(1) by (auto simp: write_good_def write_inv_def)
  show ?thesis
  proof (cases ph)
    case (WRecv i)
    then have "rx_fifo (sy_dev s) = []" using at fr assms(2)
      by (auto simp: device_move_def Let_def write_frame_def split: list.splits)
    moreover have "256 * k + i < 256 * n" using at WRecv by (simp add: write_active_def)
    ultimately show ?thesis using at WRecv assms(1) by (auto simp: write_active_def write_good_def)
  next
    case WDone
    then show ?thesis using at fr assms(1) by (simp add: write_good_def disk_quiet_def ide_idle_def write_frame_def)
  qed (use at fr assms in \<open>auto simp: device_move_def Let_def write_good_def write_frame_def bit_1_0 split: if_splits\<close>)
qed

lemma eager_write_wait:
  assumes "write_good cd l n (256 * j) s" "j < n"
  shows "ata_wait_drq eager_bus s = (ATA_OK, settle s)"
proof -
  have st: "g_reg_status (sy_dev (settle s)) = 0x48" "dma_c (sy_dev (settle s)) \<noteq> None"
    using write_settled [OF write_good_settle [OF assms(1)] settle_done] assms(2) by auto
  then have "eager_status s = (0x48, settle s)" "eager_status (settle s) = (0x48, settle s)"
    by (auto simp: eager_status_def settle_idem status_read Let_def)
  moreover obtain t where t: "ATA_TIMEOUT_LOOPS = Suc t" using timeout_Suc by blast
  ultimately show ?thesis by (simp add: ata_wait_drq_def ata_wait_clear_def t ata_const_defs)
qed

lemma eager_write_word:
  assumes "write_good cd l n g s" "g < 256 * n"
  shows "\<exists>s'. eager_wdata w s = Some s' \<and> write_good cd l n (Suc g) s'"
proof -
  note good = write_good_settle [OF assms(1)]
  have f: "rx_fifo (sy_dev (settle s)) = []"
    using write_settled [OF good settle_done] assms(2) by auto
  define t where "t = (settle s)\<lparr>sy_dev := (sy_dev (settle s))\<lparr>rx_fifo := rx_fifo (sy_dev (settle s)) @ [w]\<rparr>, sy_put := sy_put (settle s) @ [w]\<rparr>"
  have "write_inv cd l n t"
    using write_inv_step [OF _ host_write_data [of "settle s" w]] good f by (simp add: t_def write_good_def host_writes_def)
  then have "write_good cd l n (Suc g) t" using good by (simp add: t_def write_good_def)
  moreover have "eager_wdata w s = Some t" using f by (simp add: eager_wdata_def Let_def t_def)
  ultimately show ?thesis by blast
qed

lemma eager_write_words:
  "write_good cd l n g s \<Longrightarrow> g + k \<le> 256 * n \<Longrightarrow>
   \<exists>s'. write_words eager_bus k p m s = Some s' \<and> write_good cd l n (g + k) s'"
proof (induction k arbitrary: g p s)
  case (Suc k)
  let ?w = "push_bit 8 (ucast (m p)) OR ucast (m (p + 1))"
  obtain t where w: "eager_wdata ?w s = Some t" and t: "write_good cd l n (Suc g) t"
    using eager_write_word [OF Suc.prems(1), of ?w] Suc.prems(2) by auto
  then show ?case using Suc.IH [OF t, of "p + 2"] Suc.prems(2) by (simp add: ata_data_write16_def)
qed simp

lemma eager_write_loop:
  "write_good cd l n (256 * j) s \<Longrightarrow> j + k = n \<Longrightarrow>
   \<exists>s'. write_sectors_loop eager_bus k p m s = Some (ATA_OK, s') \<and> write_good cd l n (256 * n) s'"
proof (induction k arbitrary: j p s)
  case (Suc k)
  have "j < n" using Suc.prems(2) by simp
  note wait = eager_write_wait [OF Suc.prems(1) this]
  obtain t where t: "write_words eager_bus 256 p m (settle s) = Some t" "write_good cd l n (256 * Suc j) t"
    using eager_write_words [OF write_good_settle [OF Suc.prems(1)], of 256 p m] Suc.prems(2) by (auto simp: add.commute)
  then show ?case using Suc.IH [OF t(2), of "p + 512"] Suc.prems(2) wait by simp
qed simp

lemma eager_write_ok:
  assumes "disk_quiet s" "sy_put s = []" "length (g_buf (sy_dev s) 0) = 512" "cnt \<noteq> 0" "buf \<noteq> 0" "lba \<le> 0x0FFFFFFF"
  shows "\<exists>s'. ata_write_sectors eager_bus drive lba cnt buf m s = Some (ATA_OK, s') \<and> disk_quiet s' \<and> g_reg_status (sy_dev s') = 0x40"
proof -
  obtain r t where w: "ata_wait_clear eager_bus ATA_SR_BSY (ata_select_drive eager_bus drive lba s) = (r, t)" by fastforce
  let ?c = "ata_command eager_bus cnt lba ATA_CMD_WRITE_SECTORS t"
  have c: "r" "write_inv (sy_card s) lba (unat cnt) ?c" "sy_put ?c = []"
    using eager.quiet_write_inv [OF assms(1,4,6,2,3) w] by auto
  have "\<not> bit (g_reg_status (sy_dev ?c)) 0"
    by (simp add: ata_command_def Let_def eager_wreg_def ata_reg_defs taskfile_write_def decode_reg_raw ata_const_defs
      dispatch_command_def begin_write_sequence_def ide_helper_defs bit_simps)
  with c have "write_good (sy_card s) lba (unat cnt) (256 * 0) ?c" by (simp add: write_good_def)
  then obtain u where u: "write_sectors_loop eager_bus (unat cnt) buf m ?c = Some (ATA_OK, u)"
      "write_good (sy_card s) lba (unat cnt) (256 * unat cnt) u"
    using eager_write_loop [where j = 0 and k = "unat cnt"] by fastforce
  have fin: "disk_quiet (settle u)" "g_reg_status (sy_dev (settle u)) = 0x40"
    using write_settled [OF write_good_settle [OF u(2)] settle_done] by auto
  then have "eager_status u = (0x40, settle u)" by (simp add: eager_status_def status_read ide_status_defs)
  moreover obtain t where t: "ATA_TIMEOUT_LOOPS = Suc t" using timeout_Suc by blast
  ultimately have "ata_wait_clear eager_bus ATA_SR_BSY u = (True, settle u)"
    by (simp add: ata_wait_clear_def t ata_const_defs)
  then show ?thesis using u(1) fin assms w c(1) by (simp add: ata_write_sectors_def)
qed

section \<open>Properties\<close>

lemma read_sectors_partial:
  assumes "ide_bus bus sys" "disk_quiet (sys s)" "sy_got (sys s) = []"
    "ata_read_sectors bus drive lba cnt buf m s = Some (r, m', s')" "q < buf \<or> buf + 512 * unat cnt \<le> q"
  shows "m' q = m q"
proof (cases "buf = 0 \<or> cnt = 0 \<or> lba > 0x0FFFFFFF")
  case True
  then show ?thesis using assms(4) by (auto simp: ata_read_sectors_def split: if_splits)
next
  case False
  then have arg: "cnt \<noteq> 0" "lba \<le> 0x0FFFFFFF" by auto
  obtain b t where w: "ata_wait_clear bus ATA_SR_BSY (ata_select_drive bus drive lba s) = (b, t)" by fastforce
  let ?c = "ata_command bus cnt lba ATA_CMD_READ_SECTORS t"
  have c: "b" "read_inv (sy_card (sys s)) lba (unat cnt) (sys ?c)" "sy_got (sys ?c) = []"
    using ide_bus.quiet_read_inv [OF assms(1,2) arg assms(3) w] by auto
  have "read_sectors_loop bus (unat cnt) buf m ?c = Some (r, m', s')"
    using assms(4) w c(1) False by (auto simp: ata_read_sectors_def)
  then obtain ws where ws: "took (sys ?c) ws (sys s')" "m' = wr_bytes m buf (word_bytes ws)"
    using ide_bus.took_sectors [OF assms(1)] by blast
  then have "read_inv (sy_card (sys s)) lba (unat cnt) (sys s')" "sy_got (sys s') = ws"
    unfolding took_def using c(2,3) read_inv_run by auto
  then have "length ws \<le> 256 * unat cnt"
    using read_inv_prefix [THEN prefix_length_le] by (fastforce simp: words_out_def length_read_stream)
  then show ?thesis using ws(2) assms(5) by (auto simp: wr_bytes_apply length_word_bytes)
qed

text \<open>C2: on any bus that leads to the disk, however the disk is scheduled, \<open>ata_read_sectors\<close> changes only
  the \<open>512 * count\<close> bytes of the buffer, and when it returns \<open>ATA_OK\<close> these are the bytes of the card's
  blocks from \<open>lba\<close> on, in order.\<close>

theorem ata_read_sectors_correct:
  assumes "ide_bus bus sys" "disk_quiet (sys s)" "sy_got (sys s) = []" "\<And>a. length (sy_card (sys s) a) = 512"
    "ata_read_sectors bus drive lba cnt buf m s = Some (r, m', s')"
  shows "(q < buf \<or> buf + 512 * unat cnt \<le> q \<longrightarrow> m' q = m q) \<and>
    (r = ATA_OK \<longrightarrow>
      m' = wr_bytes m buf (concat (map (\<lambda>j. sy_card (sys s) (lba + of_nat j)) [0..<unat cnt])) \<and>
      sy_card (sys s') = sy_card (sys s))"
  using read_sectors_partial [OF assms(1-3,5)] ide_bus.read_sectors_data [OF assms(1-3), of drive lba cnt buf m m' s']
    assms(4,5) by blast

text \<open>C14: when \<open>ata_write_sectors\<close> has returned \<open>ATA_OK\<close> and the disk then becomes ready, whatever its
  schedule, the card holds the buffer's bytes in the blocks from \<open>lba\<close> on and every other block is as before.\<close>

theorem ata_write_sectors_correct:
  assumes "ide_bus bus sys" "disk_quiet (sys s)" "sy_put (sys s) = []" "length (g_buf (sy_dev (sys s)) 0) = 512"
    "ata_write_sectors bus drive lba cnt buf m s = Some (ATA_OK, s')"
    "ide_run (sys s') ls u" "list_all poll_step ls" "g_reg_status (sy_dev u) = IDE_STATUS_DRDY"
  shows "sy_card u a = (if unat (a - lba) < unat cnt then rd_bytes m (buf + 512 * unat (a - lba)) 512
    else sy_card (sys s) a)"
proof -
  have "unat cnt \<le> 2 ^ 32" by (rule less_imp_le, rule less_trans [OF unat_less_exp(1)]) simp
  then have "sy_card u = blocks_of (sy_card (sys s)) lba m buf (unat cnt)"
    using ide_bus.write_sectors_data [OF assms(1-5)] write_run_done [OF _ _ _ assms(6,7)] assms(8)
    by (auto simp: IDE_STATUS_DRDY_def)
  then show ?thesis by (simp add: blocks_of_def)
qed

text \<open>C29: on a bus that gives the disk the time to work, with a card that does not fail, both transfers
  return \<open>ATA_OK\<close> for every valid argument (no time-out, no access that is never acknowledged), and the
  disk is idle again after a write.\<close>

theorem ata_transfers_complete:
  assumes "disk_quiet s" "sy_got s = []" "sy_put s = []" "length (g_buf (sy_dev s) 0) = 512"
    "cnt \<noteq> 0" "buf \<noteq> 0" "lba \<le> 0x0FFFFFFF"
  shows "(\<exists>m' s'. ata_read_sectors eager_bus drive lba cnt buf m s = Some (ATA_OK, m', s')) \<and>
    (\<exists>s'. ata_write_sectors eager_bus drive lba cnt buf m s = Some (ATA_OK, s') \<and> disk_quiet s' \<and>
       g_reg_status (sy_dev s') = IDE_STATUS_DRDY)"
  using eager_read_ok [OF assms(1,2,5-7)] eager_write_ok [OF assms(1,3-7)] by (simp add: IDE_STATUS_DRDY_def)

text \<open>C1: What \<open>ata_write_sectors\<close> wrote, \<open>ata_read_sectors\<close> reads back, byte for byte, when both calls returned
  \<open>ATA_OK\<close> and the emulated disk had become quiet between them, that is with every word written drained to the
  card and the status at DRDY. \<open>ATA_OK\<close> alone does not promise that: the call may return while words are in the
  disk's FIFO.\<close>

theorem ata_write_read_roundtrip:
  assumes "ide_bus bus sys" "disk_quiet (sys s)" "sy_put (sys s) = []" "sy_got (sys s) = []"
    "length (g_buf (sy_dev (sys s)) 0) = 512" "\<And>a. length (sy_card (sys s) a) = 512"
    "ata_write_sectors bus drive lba cnt buf m s = Some (ATA_OK, s1)"
    "disk_quiet (sys s1)" "g_reg_status (sy_dev (sys s1)) = IDE_STATUS_DRDY"
    "ata_read_sectors bus drive lba cnt buf' m1 s1 = Some (ATA_OK, m2, s2)"
  shows "rd_bytes m2 buf' (512 * unat cnt) = rd_bytes m buf (512 * unat cnt)"
proof -
  have n: "unat cnt \<le> 2 ^ 32" by (rule less_imp_le, rule less_trans [OF unat_less_exp(1)]) simp
  note w = ide_bus.write_sectors_data [OF assms(1,2,3,5,7)]
  have card: "sy_card (sys s1) = blocks_of (sy_card (sys s)) lba m buf (unat cnt)"
    using w write_run_done [OF _ _ n run_nil] assms(9) by (auto simp: IDE_STATUS_DRDY_def)
  have len: "length (sy_card (sys s1) a) = 512" for a using assms(6) by (simp add: card blocks_of_def)
  have "m2 = wr_bytes m1 buf' (concat (map (\<lambda>j. sy_card (sys s1) (lba + of_nat j)) [0..<unat cnt]))"
    using ide_bus.read_sectors_data [OF assms(1,8) _ len assms(10)] w assms(4) by simp
  then show ?thesis using blocks_read_back [OF n] by (simp add: card mem_simps)
qed

section \<open>Witnesses\<close>

lemma demo_disk_quiet: "disk_quiet demo_disk" "length (sy_card demo_disk a) = 512"
  by (simp_all add: disk_quiet_def demo_disk_idle demo_disk_def ide_idle_def)

theorem ata_read_sectors_witness:
  "\<exists>m' s'. ata_read_sectors eager_bus 0 5 2 0x1000 (\<lambda>_. 0) demo_disk = Some (ATA_OK, m', s') \<and>
     m' = wr_bytes (\<lambda>_. 0) 0x1000 (concat (map (\<lambda>j. sy_card demo_disk (5 + of_nat j)) [0..<2]))"
proof -
  obtain m' s' where r: "ata_read_sectors eager_bus 0 5 2 0x1000 (\<lambda>_. 0) demo_disk = Some (ATA_OK, m', s')"
    using eager_read_ok [OF demo_disk_quiet(1) demo_disk_idle(2), of 2 "0x1000" 5 0 "\<lambda>_. 0"] by auto
  then show ?thesis
    using ata_read_sectors_correct [OF eager.ide_bus_axioms demo_disk_quiet(1) demo_disk_idle(2) demo_disk_quiet(2) r, of 0]
    by auto
qed

theorem ata_write_sectors_witness:
  "\<exists>s'. ata_write_sectors eager_bus 0 5 2 0x1000 (\<lambda>q. of_nat q) demo_disk = Some (ATA_OK, s') \<and>
     sy_card s' 6 = rd_bytes (\<lambda>q. of_nat q) 0x1200 512"
proof -
  obtain s' where w: "ata_write_sectors eager_bus 0 5 2 0x1000 (\<lambda>q. of_nat q) demo_disk = Some (ATA_OK, s')"
      "g_reg_status (sy_dev s') = IDE_STATUS_DRDY"
    using eager_write_ok [OF demo_disk_quiet(1) demo_disk_idle(3,4), of 2 "0x1000" 5 0 "\<lambda>q. of_nat q"]
    by (auto simp: IDE_STATUS_DRDY_def)
  then show ?thesis
    using ata_write_sectors_correct [OF eager.ide_bus_axioms demo_disk_quiet(1) demo_disk_idle(3,4) w(1) run_nil _ w(2), of 6]
    by simp
qed

theorem ata_transfers_witness:
  "(\<exists>m' s'. ata_read_sectors eager_bus 0 5 2 0x1000 (\<lambda>_. 0) demo_disk = Some (ATA_OK, m', s')) \<and>
   (\<exists>s'. ata_write_sectors eager_bus 0 5 2 0x1000 (\<lambda>_. 0) demo_disk = Some (ATA_OK, s') \<and> disk_quiet s' \<and>
       g_reg_status (sy_dev s') = IDE_STATUS_DRDY)"
  using ata_transfers_complete [OF demo_disk_quiet(1) demo_disk_idle(2,3,4), of 2 "0x1000" 5 0 "\<lambda>_. 0"] by simp

theorem ata_roundtrip_witness:
  "\<exists>s1 m2 s2. ata_write_sectors eager_bus 0 5 2 0x1000 (\<lambda>q. of_nat q) demo_disk = Some (ATA_OK, s1) \<and>
     ata_read_sectors eager_bus 0 5 2 0x8000 (\<lambda>_. 0) s1 = Some (ATA_OK, m2, s2) \<and>
     rd_bytes m2 0x8000 1024 = rd_bytes (\<lambda>q. of_nat q) 0x1000 1024"
proof -
  obtain s1 where w: "ata_write_sectors eager_bus 0 5 2 0x1000 (\<lambda>q. of_nat q) demo_disk = Some (ATA_OK, s1)"
      "disk_quiet s1" "g_reg_status (sy_dev s1) = IDE_STATUS_DRDY"
    using eager_write_ok [OF demo_disk_quiet(1) demo_disk_idle(3,4), of 2 "0x1000" 5 0 "\<lambda>q. of_nat q"]
    by (auto simp: IDE_STATUS_DRDY_def)
  have "sy_got s1 = []"
    using eager.write_sectors_data [OF demo_disk_quiet(1) demo_disk_idle(3,4) w(1)] demo_disk_idle(2) by simp
  then obtain m2 s2 where r: "ata_read_sectors eager_bus 0 5 2 0x8000 (\<lambda>_. 0) s1 = Some (ATA_OK, m2, s2)"
    using eager_read_ok [OF w(2), of 2 "0x8000" 5 0 "\<lambda>_. 0"] by auto
  then show ?thesis
    using w ata_write_read_roundtrip [OF eager.ide_bus_axioms demo_disk_quiet(1) demo_disk_idle(3,2,4)
      demo_disk_quiet(2) w r] by auto
qed

end
