(* ===== verification/Sd_Driver.thy ===== *)
theory Sd_Driver
  imports Ide_Device
begin

text \<open>
  \<open>peripheral/RP2350B/sd_driver.c\<close>: the SD card driver behind the emulated disk, in SPI mode. The bus is a record of
  accesses: a byte each way, the chip select, and the passing of time; set-up of pins and clocks and the
  messages are left out. What the card does is the locale \<open>sd_card\<close>, stated from the SD specification: it
  answers a command within eight bytes, may refuse it, and may fail a transfer. A simulated card is the
  instance.
\<close>

section \<open>The bus\<close>

record 's spi =
  spi_xfer :: "u8 \<Rightarrow> 's \<Rightarrow> u8 \<times> 's"
  spi_cs :: "bool \<Rightarrow> 's \<Rightarrow> 's"
  spi_sleep :: "nat \<Rightarrow> 's \<Rightarrow> 's"

definition CMD0 :: u8 where "CMD0 = 0"
definition CMD8 :: u8 where "CMD8 = 8"
definition CMD9 :: u8 where "CMD9 = 9"
definition CMD16 :: u8 where "CMD16 = 16"
definition CMD17 :: u8 where "CMD17 = 17"
definition CMD24 :: u8 where "CMD24 = 24"
definition CMD55 :: u8 where "CMD55 = 55"
definition CMD58 :: u8 where "CMD58 = 58"
definition ACMD41 :: u8 where "ACMD41 = 41"

definition DATA_TOKEN_SINGLE_BLOCK :: u8 where "DATA_TOKEN_SINGLE_BLOCK = 0xFE"

text \<open>\<open>g_sd_is_sdhc\<close> and \<open>g_sd_ready\<close>.\<close>

record sd_drv =
  g_sd_is_sdhc :: bool
  g_sd_ready :: bool

text \<open>\<open>spi_write_blocking\<close>: what comes in is dropped.\<close>

definition spi_send :: "'s spi \<Rightarrow> u8 list \<Rightarrow> 's \<Rightarrow> 's" where
  "spi_send spi bs s = fold (\<lambda>b s. snd (spi_xfer spi b s)) bs s"

definition sd_cs_select :: "'s spi \<Rightarrow> 's \<Rightarrow> 's" where
  "sd_cs_select spi s = spi_cs spi False s"

definition sd_cs_deselect :: "'s spi \<Rightarrow> 's \<Rightarrow> 's" where
  "sd_cs_deselect spi s = spi_send spi [0xFF] (spi_cs spi True s)"

definition sd_xfer_byte :: "'s spi \<Rightarrow> u8 \<Rightarrow> 's \<Rightarrow> u8 \<times> 's" where
  "sd_xfer_byte spi out s = spi_xfer spi out s"

fun sd_wait_ready :: "'s spi \<Rightarrow> nat \<Rightarrow> 's \<Rightarrow> bool \<times> 's" where
  "sd_wait_ready spi 0 s = (False, s)"
| "sd_wait_ready spi (Suc n) s =
     (let (v, s) = sd_xfer_byte spi 0xFF s in if v = 0xFF then (True, s) else sd_wait_ready spi n s)"

definition sd_frame :: "u8 \<Rightarrow> u32 \<Rightarrow> u8 \<Rightarrow> u8 list" where
  "sd_frame cmd arg crc =
     [0x40 OR cmd, ucast (drop_bit 24 arg), ucast (drop_bit 16 arg), ucast (drop_bit 8 arg), ucast arg, crc]"

fun sd_r1_loop :: "'s spi \<Rightarrow> nat \<Rightarrow> u8 \<Rightarrow> 's \<Rightarrow> u8 \<times> 's" where
  "sd_r1_loop spi 0 r1 s = (r1, s)"
| "sd_r1_loop spi (Suc n) r1 s =
     (let (r1, s) = sd_xfer_byte spi 0xFF s in if r1 AND 0x80 = 0 then (r1, s) else sd_r1_loop spi n r1 s)"

definition sd_send_command :: "'s spi \<Rightarrow> u8 \<Rightarrow> u32 \<Rightarrow> u8 \<Rightarrow> 's \<Rightarrow> u8 \<times> 's" where
  "sd_send_command spi cmd arg crc s =
     (let s = sd_cs_select spi (sd_cs_deselect spi s);
          (_, s) = sd_wait_ready spi 50000 s;
          s = spi_send spi (sd_frame cmd arg crc) s
      in sd_r1_loop spi 10 0xFF s)"

text \<open>\<open>n\<close> bytes from the card.\<close>

fun sd_recv :: "'s spi \<Rightarrow> nat \<Rightarrow> 's \<Rightarrow> u8 list \<times> 's" where
  "sd_recv spi 0 s = ([], s)"
| "sd_recv spi (Suc n) s =
     (let (b, s) = sd_xfer_byte spi 0xFF s; (bs, s) = sd_recv spi n s in (b # bs, s))"

section \<open>Initialisation\<close>

fun sd_acmd41_loop :: "'s spi \<Rightarrow> bool \<Rightarrow> nat \<Rightarrow> 's \<Rightarrow> bool \<times> 's" where
  "sd_acmd41_loop spi is_v2 0 s = (False, s)"
| "sd_acmd41_loop spi is_v2 (Suc n) s =
     (let (_, s) = sd_send_command spi CMD55 0 0x01 s;
          (r1, s) = sd_send_command spi ACMD41 (if is_v2 then 0x40000000 else 0) 0x01 s
      in if r1 = 0x00 then (True, s) else sd_acmd41_loop spi is_v2 n (spi_sleep spi 1 s))"

text \<open>CMD8: whether the card is of version 2. CMD58 or CMD16: how it is addressed.\<close>

definition sd_check_v2 :: "'s spi \<Rightarrow> 's \<Rightarrow> bool \<times> 's" where
  "sd_check_v2 spi s =
     (let (r1, s) = sd_send_command spi CMD8 0x1AA 0x87 s
      in if r1 = 0x01 then (let (r7, s) = sd_recv spi 4 s in (r7 ! 2 = 0x01 \<and> r7 ! 3 = 0xAA, s))
         else (False, s))"

definition sd_check_capacity :: "'s spi \<Rightarrow> bool \<Rightarrow> sd_drv \<Rightarrow> 's \<Rightarrow> sd_drv \<times> 's" where
  "sd_check_capacity spi is_v2 drv s =
     (if is_v2 then
        (let (r1, s) = sd_send_command spi CMD58 0 0x01 s; (ocr, s) = sd_recv spi 4 s
         in (if r1 = 0x00 then drv\<lparr>g_sd_is_sdhc := (ocr ! 0 AND 0x40 \<noteq> 0)\<rparr> else drv, s))
      else (let (_, s) = sd_send_command spi CMD16 512 0x01 s in (drv\<lparr>g_sd_is_sdhc := False\<rparr>, s)))"

definition your_sd_driver_init :: "'s spi \<Rightarrow> sd_drv \<Rightarrow> 's \<Rightarrow> bool \<times> sd_drv \<times> 's" where
  "your_sd_driver_init spi drv s =
     (let drv = drv\<lparr>g_sd_ready := False\<rparr>;
          s = spi_sleep spi 10 (spi_cs spi True s);
          (_, s) = sd_recv spi 10 s;
          (r1, s) = sd_send_command spi CMD0 0 0x95 s
      in if r1 \<noteq> 0x01 then (False, drv, sd_cs_deselect spi s)
         else
           (let (is_v2, s) = sd_check_v2 spi s;
                (inited, s) = sd_acmd41_loop spi is_v2 20000 s
            in if \<not> inited then (False, drv, sd_cs_deselect spi s)
               else
                 (let (drv, s) = sd_check_capacity spi is_v2 drv s
                  in (True, drv\<lparr>g_sd_ready := True\<rparr>, sd_cs_deselect spi s))))"

section \<open>Blocks\<close>

definition block_address :: "sd_drv \<Rightarrow> u32 \<Rightarrow> u32" where
  "block_address drv lba = (if g_sd_is_sdhc drv then lba else lba * 512)"

text \<open>The wait for the start of the data: the last byte that came.\<close>

fun sd_token_loop :: "'s spi \<Rightarrow> nat \<Rightarrow> u8 \<Rightarrow> 's \<Rightarrow> u8 \<times> 's" where
  "sd_token_loop spi 0 token s = (token, s)"
| "sd_token_loop spi (Suc n) token s =
     (let (token, s) = sd_xfer_byte spi 0xFF s
      in if token = DATA_TOKEN_SINGLE_BLOCK then (token, s) else sd_token_loop spi n token s)"

definition your_sd_driver_read_block :: "'s spi \<Rightarrow> sd_drv \<Rightarrow> u32 \<Rightarrow> nat \<Rightarrow> mem \<Rightarrow> 's \<Rightarrow> bool \<times> mem \<times> 's" where
  "your_sd_driver_read_block spi drv lba dst512 m s =
     (if \<not> g_sd_ready drv then (False, m, s)
      else
        (let (r1, s) = sd_send_command spi CMD17 (block_address drv lba) 0x01 s in
         if r1 \<noteq> 0x00 then (False, m, sd_cs_deselect spi s)
         else
           (let (token, s) = sd_token_loop spi 200000 0xFF s in
            if token \<noteq> DATA_TOKEN_SINGLE_BLOCK then (False, m, sd_cs_deselect spi s)
            else
              (let (bs, s) = sd_recv spi 512 s; (_, s) = sd_xfer_byte spi 0xFF s; (_, s) = sd_xfer_byte spi 0xFF s
               in (True, wr_bytes m dst512 bs, sd_cs_deselect spi s)))))"

definition your_sd_driver_write_block :: "'s spi \<Rightarrow> sd_drv \<Rightarrow> u32 \<Rightarrow> nat \<Rightarrow> mem \<Rightarrow> 's \<Rightarrow> bool \<times> 's" where
  "your_sd_driver_write_block spi drv lba src512 m s =
     (if \<not> g_sd_ready drv then (False, s)
      else
        (let (r1, s) = sd_send_command spi CMD24 (block_address drv lba) 0x01 s in
         if r1 \<noteq> 0x00 then (False, sd_cs_deselect spi s)
         else
           (let s = spi_send spi ([0xFF, DATA_TOKEN_SINGLE_BLOCK] @ rd_bytes m src512 512 @ [0xFF, 0xFF]) s;
                (resp, s) = sd_xfer_byte spi 0xFF s
            in if resp AND 0x1F \<noteq> 0x05 then (False, sd_cs_deselect spi s)
               else
                 (let (ready, s) = sd_wait_ready spi 1000000 s
                  in if \<not> ready then (False, sd_cs_deselect spi s) else (True, sd_cs_deselect spi s)))))"

section \<open>Capacity\<close>

definition csd_to_sectors :: "u8 list \<Rightarrow> u32" where
  "csd_to_sectors csd =
     (let ver = drop_bit 6 (csd ! 0) in
      if ver = 1 then
        (let c_size = push_bit 16 (ucast (csd ! 7 AND 0x3F)) OR push_bit 8 (ucast (csd ! 8)) OR ucast (csd ! 9) :: u32
         in (c_size + 1) * 1024)
      else if ver = 0 then
        (let read_bl_len = ucast (csd ! 5 AND 0x0F) :: u32;
             c_size = push_bit 10 (ucast (csd ! 6 AND 0x03)) OR push_bit 2 (ucast (csd ! 7)) OR ucast (drop_bit 6 (csd ! 8)) :: u32;
             mult = push_bit 1 (ucast (csd ! 9 AND 0x03)) OR ucast (drop_bit 7 (csd ! 10)) :: u32;
             bytes = push_bit (unat (mult + 2)) (ucast (c_size + 1)) :: u64;
             bytes = push_bit (unat read_bl_len) bytes
         in ucast (bytes div 512))
      else 0)"

text \<open>The capacity in bytes, as the SD specification defines it from the fields of the register.\<close>

definition csd_version :: "u8 list \<Rightarrow> nat" where
  "csd_version csd = unat (csd ! 0) div 64"

definition csd_capacity :: "u8 list \<Rightarrow> nat" where
  "csd_capacity csd =
     (if csd_version csd = 1 then
        ((unat (csd ! 7) mod 64) * 65536 + unat (csd ! 8) * 256 + unat (csd ! 9) + 1) * (512 * 1024)
      else if csd_version csd = 0 then
        ((unat (csd ! 6) mod 4) * 1024 + unat (csd ! 7) * 4 + unat (csd ! 8) div 64 + 1) *
          2 ^ ((unat (csd ! 9) mod 4) * 2 + unat (csd ! 10) div 128 + 2) * 2 ^ (unat (csd ! 5) mod 16)
      else 0)"

lemma u8_field:
  "unat (x AND 0x3F) = unat (x :: u8) mod 64" "unat (x AND 0x03) = unat x mod 4" "unat (x AND 0x0F) = unat x mod 16"
  "unat (drop_bit 6 x) = unat x div 64" "unat (drop_bit 7 x) = unat x div 128" "unat (ucast x :: u32) = unat x"
proof -
  have m: "unat (x AND Bit_Operations.mask k) = unat x mod 2 ^ k" for k
    by (simp only: take_bit_eq_mask [symmetric] unsigned_take_bit_eq) (simp only: take_bit_eq_mod)
  have c: "(0x3F :: u8) = Bit_Operations.mask 6" "(0x03 :: u8) = Bit_Operations.mask 2" "(0x0F :: u8) = Bit_Operations.mask 4"
    by (simp_all add: mask_eq_exp_minus_1)
  show "unat (x AND 0x3F) = unat x mod 64" "unat (x AND 0x03) = unat x mod 4" "unat (x AND 0x0F) = unat x mod 16"
    unfolding c m by simp_all
  show "unat (drop_bit 6 x) = unat x div 64" "unat (drop_bit 7 x) = unat x div 128"
    by (simp_all add: unat_div drop_bit_eq_div)
  show "unat (ucast x :: u32) = unat x"
    by (simp add: unsigned_ucast_eq take_bit_nat_eq_self less_trans [OF unat_less_exp(1)])
qed

lemma csd_version_cases:
  "drop_bit 6 (csd ! 0) = 1 \<longleftrightarrow> csd_version csd = 1" "drop_bit 6 (csd ! 0) = 0 \<longleftrightarrow> csd_version csd = 0"
  by (simp_all add: csd_version_def word_unat_eq_iff unat_div drop_bit_eq_div)

lemma csd_v2_size:
  "unat (push_bit 16 (ucast (a AND 0x3F)) OR push_bit 8 (ucast b) OR ucast c :: u32) =
     (unat (a :: u8) mod 64) * 65536 + unat (b :: u8) * 256 + unat (c :: u8)"
proof -
  have a: "unat a mod 64 < 64" by simp
  note l = unat_less_exp(1) [of b] unat_less_exp(1) [of c]
  have "push_bit 16 (ucast (a AND 0x3F)) OR push_bit 8 (ucast b) = (push_bit 8 (push_bit 8 (ucast (a AND 0x3F)) OR ucast b) :: u32)"
    by (simp add: push_bit_or)
  moreover have e: "unat (push_bit 8 (ucast (a AND 0x3F)) OR ucast b :: u32) = (unat a mod 64) * 256 + unat b"
    using unat_push_or [of "ucast b :: u32" 8 "ucast (a AND 0x3F)", unfolded u8_field] a l by simp
  ultimately show ?thesis
    using unat_push_or [of "ucast c :: u32" 8 "push_bit 8 (ucast (a AND 0x3F)) OR ucast b", unfolded e u8_field] a l
    by (simp add: or.assoc)
qed

lemma csd_v1_size:
  "unat (push_bit 10 (ucast (a AND 0x03)) OR push_bit 2 (ucast b) OR ucast (drop_bit 6 c) :: u32) =
     (unat (a :: u8) mod 4) * 1024 + unat (b :: u8) * 4 + unat (c :: u8) div 64"
proof -
  have a: "unat a mod 4 < 4" by simp
  note l = unat_less_exp(1) [of b] unat_less_exp(1) [of c]
  have d: "unat c div 64 < 4" using l by (intro less_mult_imp_div_less) simp
  have "push_bit 10 (ucast (a AND 0x03)) OR push_bit 2 (ucast b) = (push_bit 2 (push_bit 8 (ucast (a AND 0x03)) OR ucast b) :: u32)"
    by (simp add: push_bit_or)
  moreover have e: "unat (push_bit 8 (ucast (a AND 0x03)) OR ucast b :: u32) = (unat a mod 4) * 256 + unat b"
    using unat_push_or [of "ucast b :: u32" 8 "ucast (a AND 0x03)", unfolded u8_field] a l by simp
  ultimately show ?thesis
    using unat_push_or [of "ucast (drop_bit 6 c) :: u32" 2 "push_bit 8 (ucast (a AND 0x03)) OR ucast b", unfolded e u8_field] a l d
    by (simp add: or.assoc)
qed

lemma csd_mult: "unat (push_bit 1 (ucast (a AND 0x03)) OR ucast (drop_bit 7 b) :: u32) = (unat (a :: u8) mod 4) * 2 + unat (b :: u8) div 128"
proof -
  have "unat a mod 4 < 4" "unat b div 128 < 2" using unat_less_exp(1) [of b] by (simp, intro less_mult_imp_div_less) simp
  then show ?thesis using unat_push_or [of "ucast (drop_bit 7 b) :: u32" 1 "ucast (a AND 0x03)", unfolded u8_field] by simp
qed

lemma csd_to_sectors_correct:
  assumes "csd_capacity csd < 2 ^ 41"
  shows "unat (csd_to_sectors csd) = csd_capacity csd div 512"
proof -
  consider "csd_version csd = 1" | "csd_version csd = 0" | "csd_version csd > 1" by linarith
  then show ?thesis
  proof cases
    case 1
    let ?c = "push_bit 16 (ucast (csd ! 7 AND 0x3F)) OR push_bit 8 (ucast (csd ! 8)) OR ucast (csd ! 9) :: u32"
    have e: "csd_to_sectors csd = (?c + 1) * 1024" using 1 by (simp add: csd_to_sectors_def csd_version_cases Let_def)
    have k: "csd_capacity csd = (unat ?c + 1) * (512 * 1024)" by (simp only: csd_capacity_def csd_v2_size 1 if_True simp_thms)
    then have "unat ?c + 1 < 2 ^ 22" using assms by simp
    then have "unat ((?c + 1) * 1024) = (unat ?c + 1) * 1024" by (simp add: unat_word_ariths)
    then show ?thesis unfolding e k by simp
  next
    case 2
    let ?c = "push_bit 10 (ucast (csd ! 6 AND 0x03)) OR push_bit 2 (ucast (csd ! 7)) OR ucast (drop_bit 6 (csd ! 8)) :: u32"
    let ?k = "push_bit 1 (ucast (csd ! 9 AND 0x03)) OR ucast (drop_bit 7 (csd ! 10)) :: u32"
    let ?b = "ucast (csd ! 5 AND 0x0F) :: u32"
    have e: "csd_to_sectors csd = ucast (push_bit (unat ?b) (push_bit (unat (?k + 2)) (ucast (?c + 1)) :: u64) div 512)"
      using 2 by (simp add: csd_to_sectors_def csd_version_cases Let_def)
    have cap: "csd_capacity csd = (unat ?c + 1) * 2 ^ (unat ?k + 2) * 2 ^ unat ?b"
      by (simp only: csd_capacity_def csd_v1_size csd_mult u8_field 2 if_True if_False simp_thms zero_neq_one)
    have "unat (csd ! 8) div 64 < 4" "unat (csd ! 10) div 128 < 2"
      using unat_less_exp(1) [of "csd ! 8"] unat_less_exp(1) [of "csd ! 10"] by (auto intro: less_mult_imp_div_less)
    moreover have "unat (csd ! 6) mod 4 < 4" "unat (csd ! 9) mod 4 < 4" "unat (csd ! 7) < 256" using unat_less_exp(1) [of "csd ! 7"] by auto
    ultimately have c: "unat ?c < 4096" and k: "unat ?k < 8" unfolding csd_v1_size csd_mult by linarith+
    have b: "unat ?b < 16" unfolding u8_field by simp
    define C K B where "C = unat ?c + 1" and "K = unat ?k + 2" and "B = unat ?b"
    have le: "C * 2 ^ K \<le> 2 ^ 12 * 2 ^ 9" "C * 2 ^ K * 2 ^ B \<le> 2 ^ 12 * 2 ^ 9 * 2 ^ 15"
      using c k b unfolding C_def K_def B_def by (intro mult_le_mono power_increasing; simp)+
    have w: "unat (ucast (?c + 1) :: u64) = C" "unat (?k + 2) = K"
      using c k by (simp_all add: C_def K_def unsigned_ucast_eq take_bit_nat_eq_self unat_word_ariths)
    have p1: "unat (push_bit (unat (?k + 2)) (ucast (?c + 1)) :: u64) = C * 2 ^ K"
      using le(1) unfolding w(2) by (subst unat_push) (simp_all add: w(1))
    have p2: "unat (push_bit (unat ?b) (push_bit (unat (?k + 2)) (ucast (?c + 1)) :: u64)) = C * 2 ^ K * 2 ^ B"
    proof -
      have "unat (push_bit (unat (?k + 2)) (ucast (?c + 1)) :: u64) * 2 ^ unat ?b < 2 ^ LENGTH(64)"
        unfolding p1 B_def [symmetric] using le(2) by simp
      from unat_push [OF this] show ?thesis by (simp only: p1 B_def)
    qed
    define W where "W = push_bit (unat ?b) (push_bit (unat (?k + 2)) (ucast (?c + 1)) :: u64)"
    have "unat (csd_to_sectors csd) = C * 2 ^ K * 2 ^ B div 512 mod 2 ^ 32"
      using p2 unfolding e W_def [symmetric] by (simp add: unsigned_ucast_eq take_bit_eq_mod unat_div)
    also have "\<dots> = C * 2 ^ K * 2 ^ B div 512" using le(2) by simp
    finally show ?thesis by (simp add: cap C_def K_def B_def)
  next
    case 3
    then show ?thesis by (simp add: csd_to_sectors_def csd_version_cases csd_capacity_def)
  qed
qed

fun sd_token_found :: "'s spi \<Rightarrow> nat \<Rightarrow> 's \<Rightarrow> bool \<times> 's" where
  "sd_token_found spi 0 s = (False, s)"
| "sd_token_found spi (Suc n) s =
     (let (v, s) = sd_xfer_byte spi 0xFF s in if v = 0xFE then (True, s) else sd_token_found spi n s)"

definition sd_read_sector_count :: "'s spi \<Rightarrow> 's \<Rightarrow> u32 \<times> 's" where
  "sd_read_sector_count spi s =
     (let (r1, s) = sd_send_command spi CMD9 0 0x01 s;
          (sectors, s) = (if r1 = 0x00
            then (let (ok, s) = sd_token_found spi 100000 s in
              if ok then
                (let (csd, s) = sd_recv spi 16 s; (_, s) = sd_xfer_byte spi 0xFF s; (_, s) = sd_xfer_byte spi 0xFF s
                 in (csd_to_sectors csd, s))
              else (0, s))
            else (0, s));
          (_, s) = sd_xfer_byte spi 0xFF (sd_cs_deselect spi s)
      in (sectors, s))"

section \<open>The card\<close>

text \<open>
  The states of a card: not selected (\<open>off\<close>), or selected, with bytes it is about to put out and then either
  idle (\<open>None\<close>) or waiting for the data of a block (\<open>out\<close>). \<open>up\<close>: it has left the idle state of the
  start; \<open>st\<close>: what it stores.
\<close>

type_synonym blocks = "u32 \<Rightarrow> u8 list"

text \<open>The block that an address means: cards of high capacity count blocks, the others bytes.\<close>

definition card_block :: "bool \<Rightarrow> u32 \<Rightarrow> u32" where
  "card_block hc arg = (if hc then arg else arg div 512)"

text \<open>The data phase of a read: a wait, then the data behind its token, or an error token.\<close>

definition data_phase :: "nat \<Rightarrow> u8 list \<Rightarrow> u8 list \<Rightarrow> bool" where
  "data_phase n data rest \<longleftrightarrow> (\<exists>j c1 c2. j < n \<and> rest = replicate j 0xFF @ 0xFE # data @ [c1, c2]) \<or>
     (\<exists>j e. rest = replicate j 0xFF @ [e] \<and> e AND 0xF0 = 0)"

text \<open>What follows the first byte \<open>r1\<close> of an answer, and whether the card is up then.\<close>

definition sd_reply :: "bool \<Rightarrow> bool \<Rightarrow> u8 list \<Rightarrow> blocks \<Rightarrow> u8 \<Rightarrow> u32 \<Rightarrow> bool \<Rightarrow> u8 \<Rightarrow> u8 list \<Rightarrow> bool \<Rightarrow> bool" where
  "sd_reply v2 hc csd st cmd arg up r1 rest up' \<longleftrightarrow>
     (cmd = CMD0 \<longrightarrow> rest = [] \<and> \<not> up') \<and>
     (cmd = CMD8 \<longrightarrow> up' = up \<and> (if v2 then r1 = 1 \<and> (\<exists>x y. rest = [x, y, 0x01, 0xAA]) else r1 \<noteq> 1 \<and> rest = [])) \<and>
     (cmd = CMD55 \<or> cmd = CMD16 \<longrightarrow> rest = [] \<and> up' = up) \<and>
     (cmd = ACMD41 \<longrightarrow> rest = [] \<and> (up' \<longleftrightarrow> r1 = 0)) \<and>
     (cmd = CMD58 \<longrightarrow> up' = up \<and> (up \<longrightarrow> r1 = 0) \<and> (\<exists>a b c d. rest = [a, b, c, d] \<and> (a AND 0x40 \<noteq> 0 \<longleftrightarrow> hc))) \<and>
     (cmd = CMD17 \<longrightarrow> up' = up \<and> (if r1 = 0 then data_phase 200000 (st (card_block hc arg)) rest else rest = [])) \<and>
     (cmd = CMD9 \<longrightarrow> up' = up \<and> (if r1 = 0 then data_phase 100000 csd rest else rest = []))"

text \<open>The commands without a data block from the host.\<close>

definition plain_cmds :: "u8 set" where
  "plain_cmds = {CMD0, CMD8, CMD55, ACMD41, CMD58, CMD16, CMD17, CMD9}"

lemma plain_cmds [simp]:
  "CMD0 \<in> plain_cmds" "CMD8 \<in> plain_cmds" "CMD9 \<in> plain_cmds" "CMD16 \<in> plain_cmds" "CMD17 \<in> plain_cmds"
  "CMD55 \<in> plain_cmds" "CMD58 \<in> plain_cmds" "ACMD41 \<in> plain_cmds"
  by (simp_all add: plain_cmds_def)

lemmas sd_cmds = CMD0_def CMD8_def CMD9_def CMD16_def CMD17_def CMD55_def CMD58_def ACMD41_def

text \<open>The driver knows its card, and a block has an address: a card of standard capacity has at most 2 GB.\<close>

definition drv_ok :: "bool \<Rightarrow> sd_drv \<Rightarrow> bool" where
  "drv_ok hc drv \<longleftrightarrow> g_sd_ready drv \<and> g_sd_is_sdhc drv = hc"

definition addressable :: "bool \<Rightarrow> u32 \<Rightarrow> bool" where
  "addressable hc lba \<longleftrightarrow> hc \<or> unat lba < 2 ^ 23"

lemma card_block_address: "drv_ok hc drv \<Longrightarrow> addressable hc lba \<Longrightarrow> card_block hc (block_address drv lba) = lba"
proof (cases hc)
  case False
  assume "drv_ok hc drv" "addressable hc lba"
  then have "unat lba < 8388608" using False unfolding addressable_def by simp
  then have "unat (lba * 512) = unat lba * 512" by (simp add: unat_word_ariths)
  then have "lba * 512 div 512 = lba" by (simp add: word_unat_eq_iff unat_div)
  then show ?thesis using False \<open>drv_ok hc drv\<close> by (simp add: card_block_def block_address_def drv_ok_def)
qed (auto simp: card_block_def block_address_def drv_ok_def)

locale sd_card =
  fixes spi :: "'s spi" and v2 :: bool and hc :: bool and csd :: "u8 list"
    and off :: "bool \<Rightarrow> blocks \<Rightarrow> 's \<Rightarrow> bool"
    and out :: "u8 list \<Rightarrow> u32 option \<Rightarrow> bool \<Rightarrow> blocks \<Rightarrow> 's \<Rightarrow> bool"
  assumes hc_v2: "hc \<Longrightarrow> v2"
    and block_len: "off up st s \<Longrightarrow> length (st blk) = 512"
    and csd_len: "length csd = 16"
    and off_cs: "off up st s \<Longrightarrow> off up st (spi_cs spi True s)"
    and off_xfer: "off up st s \<Longrightarrow> spi_xfer spi x s = (v, s') \<Longrightarrow> off up st s'"
    and off_sleep: "off up st s \<Longrightarrow> off up st (spi_sleep spi n s)"
    and out_sleep: "out q c up st s \<Longrightarrow> out q c up st (spi_sleep spi n s)"
    and select: "off up st s \<Longrightarrow> out [] None up st (spi_cs spi False s)"
    and deselect: "out q c up st s \<Longrightarrow> off up st (spi_cs spi True s)"
    and out_next: "out (b # q) c up st s \<Longrightarrow> spi_xfer spi 0xFF s = (v, s') \<Longrightarrow> v = b \<and> out q c up st s'"
    and out_idle: "out [] None up st s \<Longrightarrow> spi_xfer spi 0xFF s = (v, s') \<Longrightarrow> v = 0xFF \<and> out [] None up st s'"
    and command: "out [] None up st s \<Longrightarrow> cmd \<in> plain_cmds \<Longrightarrow>
      \<exists>k r1 rest up'. k \<le> 8 \<and> r1 AND 0x80 = 0 \<and> sd_reply v2 hc csd st cmd arg up r1 rest up' \<and>
        out (replicate k 0xFF @ r1 # rest) None up' st (spi_send spi (sd_frame cmd arg crc) s)"
    and write_command: "out [] None up st s \<Longrightarrow>
      \<exists>k r1. k \<le> 8 \<and> r1 AND 0x80 = 0 \<and>
        out (replicate k 0xFF @ [r1]) (if r1 = 0 then Some (card_block hc arg) else None) up st (spi_send spi (sd_frame CMD24 arg crc) s)"
    and write_data: "out [] (Some blk) up st s \<Longrightarrow> length data = 512 \<Longrightarrow>
      \<exists>resp j st'. j < 1000000 \<and> (\<forall>i. i \<noteq> blk \<longrightarrow> st' i = st i) \<and> (resp AND 0x1F = 0x05 \<longrightarrow> st' blk = data) \<and>
        out (resp # replicate j 0x00) None up st' (spi_send spi ([0xFF, 0xFE] @ data @ [0xFF, 0xFF]) s)"
begin

lemma deselected: "out q c up st s \<Longrightarrow> off up st (sd_cs_deselect spi s)"
  using off_xfer [OF deselect] by (cases "spi_xfer spi 0xFF (spi_cs spi True s)") (auto simp: sd_cs_deselect_def spi_send_def)

lemma off_deselected: "off up st s \<Longrightarrow> off up st (sd_cs_deselect spi s)"
  using off_xfer [OF off_cs] by (cases "spi_xfer spi 0xFF (spi_cs spi True s)") (auto simp: sd_cs_deselect_def spi_send_def)

lemma off_recv: "off up st s \<Longrightarrow> off up st (snd (sd_recv spi n s))"
proof (induction n arbitrary: s)
  case (Suc n)
  obtain v t where "spi_xfer spi 0xFF s = (v, t)" by fastforce
  then show ?case using Suc.IH [of t] off_xfer [OF Suc.prems] by (auto simp: sd_xfer_byte_def split: prod.splits)
qed simp

lemma wait_ready_idle: "out [] None up st s \<Longrightarrow> 0 < n \<Longrightarrow> \<exists>s'. sd_wait_ready spi n s = (True, s') \<and> out [] None up st s'"
  using out_idle by (cases n; cases "spi_xfer spi 0xFF s") (auto simp: sd_xfer_byte_def)

lemma recv_out: "out (bs @ q) c up st s \<Longrightarrow> \<exists>s'. sd_recv spi (length bs) s = (bs, s') \<and> out q c up st s'"
proof (induction bs arbitrary: s)
  case (Cons b bs)
  obtain v t where v: "spi_xfer spi 0xFF s = (v, t)" by fastforce
  then have "v = b" "out (bs @ q) c up st t" using out_next Cons.prems by auto
  then show ?case using Cons.IH [of t] v by (auto simp: sd_xfer_byte_def)
qed simp

lemma recv_all: "out bs c up st s \<Longrightarrow> length bs = n \<Longrightarrow> \<exists>s'. sd_recv spi n s = (bs, s') \<and> out [] c up st s'"
  using recv_out [of bs "[]" c up st s] by auto

lemma xfer_out: "out (b # q) c up st s \<Longrightarrow> \<exists>s'. sd_xfer_byte spi 0xFF s = (b, s') \<and> out q c up st s'"
  using out_next by (cases "spi_xfer spi 0xFF s") (auto simp: sd_xfer_byte_def)

lemma r1_out:
  "out (replicate k 0xFF @ r1 # q) c up st s \<Longrightarrow> k < n \<Longrightarrow> r1 AND 0x80 = 0 \<Longrightarrow>
   \<exists>s'. sd_r1_loop spi n r s = (r1, s') \<and> out q c up st s'"
proof (induction k arbitrary: n s r)
  case 0
  then obtain s' where "sd_xfer_byte spi 0xFF s = (r1, s')" "out q c up st s'" using xfer_out [of r1 q c up st s] by auto
  then show ?case using 0 by (cases n) auto
next
  case (Suc k)
  then obtain n' where n: "n = Suc n'" "k < n'" by (cases n) auto
  obtain t where t: "sd_xfer_byte spi 0xFF s = (0xFF, t)" "out (replicate k 0xFF @ r1 # q) c up st t"
    using Suc.prems xfer_out [of "0xFF" "replicate k 0xFF @ r1 # q" c up st s] by auto
  have "(0xFF :: u8) AND 0x80 \<noteq> 0" by simp
  then show ?case using Suc.IH [OF t(2) n(2) Suc.prems(3)] t(1) n(1) by auto
qed

text \<open>A command to an idle card, selected or not: the first byte of the answer is returned, the rest is to come.\<close>

definition idle :: "bool \<Rightarrow> blocks \<Rightarrow> 's \<Rightarrow> bool" where
  "idle up st s \<longleftrightarrow> off up st s \<or> (\<exists>q. out q None up st s)"

lemma idle_deselected: "idle up st s \<Longrightarrow> off up st (sd_cs_deselect spi s)"
  using deselected off_deselected by (auto simp: idle_def)

lemma prepared:
  assumes "idle up st s"
  shows "\<exists>t. sd_wait_ready spi 50000 (sd_cs_select spi (sd_cs_deselect spi s)) = (True, t) \<and> out [] None up st t"
  using wait_ready_idle [OF select [OF idle_deselected [OF assms]], of 50000] by (simp add: sd_cs_select_def)

lemma send_command_ok:
  assumes "idle up st s" "cmd \<in> plain_cmds"
  shows "\<exists>r1 rest up' s'. sd_send_command spi cmd arg crc s = (r1, s') \<and> sd_reply v2 hc csd st cmd arg up r1 rest up' \<and>
    out rest None up' st s'"
proof -
  obtain t where t: "sd_wait_ready spi 50000 (sd_cs_select spi (sd_cs_deselect spi s)) = (True, t)" "out [] None up st t"
    using prepared [OF assms(1)] by blast
  from command [OF t(2) assms(2), of arg crc] obtain k r1 rest up' where r: "k \<le> 8" "r1 AND 0x80 = 0"
    "sd_reply v2 hc csd st cmd arg up r1 rest up'" "out (replicate k 0xFF @ r1 # rest) None up' st (spi_send spi (sd_frame cmd arg crc) t)"
    by blast
  have "k < 10" using r(1) by simp
  from r1_out [OF r(4) this r(2), of "0xFF"] show ?thesis using t(1) r(3) by (auto simp: sd_send_command_def)
qed

lemma token_out:
  "out (replicate j 0xFF @ 0xFE # q) c up st s \<Longrightarrow> j < n \<Longrightarrow>
   \<exists>s'. sd_token_loop spi n t0 s = (DATA_TOKEN_SINGLE_BLOCK, s') \<and> out q c up st s'"
proof (induction j arbitrary: n s t0)
  case 0
  then obtain s' where "sd_xfer_byte spi 0xFF s = (0xFE, s')" "out q c up st s'" using xfer_out [of "0xFE" q c up st s] by auto
  then show ?case using 0 by (cases n) (auto simp: DATA_TOKEN_SINGLE_BLOCK_def)
next
  case (Suc j)
  then obtain n' where n: "n = Suc n'" "j < n'" by (cases n) auto
  obtain t where t: "sd_xfer_byte spi 0xFF s = (0xFF, t)" "out (replicate j 0xFF @ 0xFE # q) c up st t"
    using Suc.prems xfer_out [of "0xFF" "replicate j 0xFF @ 0xFE # q" c up st s] by auto
  then show ?case using Suc.IH [OF t(2) n(2)] t(1) n(1) by (auto simp: DATA_TOKEN_SINGLE_BLOCK_def)
qed

lemma no_token:
  "out q None up st s \<Longrightarrow> 0xFE \<notin> set q \<Longrightarrow> t0 \<noteq> 0xFE \<Longrightarrow>
   \<exists>token s' q'. sd_token_loop spi n t0 s = (token, s') \<and> token \<noteq> DATA_TOKEN_SINGLE_BLOCK \<and> out q' None up st s'"
proof (induction n arbitrary: q s t0)
  case (Suc n)
  show ?case
  proof (cases q)
    case Nil
    obtain v t where v: "spi_xfer spi 0xFF s = (v, t)" by fastforce
    then have "v = 0xFF" "out [] None up st t" using out_idle Suc.prems(1) Nil by auto
    then show ?thesis using Suc.IH [of "[]" t "0xFF"] v by (auto simp: sd_xfer_byte_def DATA_TOKEN_SINGLE_BLOCK_def)
  next
    case (Cons b q')
    then obtain t where "sd_xfer_byte spi 0xFF s = (b, t)" "out q' None up st t" using Suc.prems(1) xfer_out [of b q' None up st s] by auto
    then show ?thesis using Suc.IH [of q' t b] Suc.prems(2) Cons by (auto simp: DATA_TOKEN_SINGLE_BLOCK_def)
  qed
qed (auto simp: DATA_TOKEN_SINGLE_BLOCK_def)

lemma found_token: "t0 \<noteq> 0xFE \<Longrightarrow> sd_token_found spi n s = (let (t, s') = sd_token_loop spi n t0 s in (t = 0xFE, s'))"
  by (induction n arbitrary: s t0) (auto simp: DATA_TOKEN_SINGLE_BLOCK_def Let_def split: prod.splits)

text \<open>The data phase: with the token come the data, without it the card is idle.\<close>

lemma data_phase_out:
  assumes "out rest None up st s" "data_phase n data rest" "t0 \<noteq> 0xFE"
  shows "\<exists>token t. sd_token_loop spi n t0 s = (token, t) \<and> (\<exists>q. out q None up st t) \<and>
    (token = DATA_TOKEN_SINGLE_BLOCK \<longrightarrow> (\<exists>c1 c2. out (data @ [c1, c2]) None up st t))"
proof -
  consider j c1 c2 where "j < n" "rest = replicate j 0xFF @ 0xFE # data @ [c1, c2]"
    | j e where "rest = replicate j 0xFF @ [e]" "e AND 0xF0 = 0"
    using assms(2) by (auto simp: data_phase_def)
  then show ?thesis
  proof cases
    case (1 j c1 c2)
    then show ?thesis using token_out [of j "data @ [c1, c2]" None up st s n t0] assms(1) by auto
  next
    case (2 j e)
    have "e \<noteq> 0xFE" using 2(2) by auto
    then have "0xFE \<notin> set rest" using 2(1) by auto
    from no_token [OF assms(1) this assms(3)] show ?thesis by blast
  qed
qed

lemma data_tail:
  assumes "out (data @ [c1, c2]) None up st s"
  shows "\<exists>s1 s2 s3. sd_recv spi (length data) s = (data, s1) \<and> sd_xfer_byte spi 0xFF s1 = (c1, s2) \<and>
    sd_xfer_byte spi 0xFF s2 = (c2, s3) \<and> out [] None up st s3"
proof -
  obtain s1 where s1: "sd_recv spi (length data) s = (data, s1)" "out [c1, c2] None up st s1" using recv_out [OF assms] by auto
  obtain s2 where s2: "sd_xfer_byte spi 0xFF s1 = (c1, s2)" "out [c2] None up st s2" using xfer_out [OF s1(2)] by auto
  obtain s3 where "sd_xfer_byte spi 0xFF s2 = (c2, s3)" "out [] None up st s3" using xfer_out [OF s2(2)] by auto
  then show ?thesis using s1(1) s2(1) by blast
qed

text \<open>A block is read: only when it has arrived whole the function answers true, and then it is in the memory.\<close>

lemma read_block_ok:
  assumes "idle up st s" "drv_ok hc drv" "addressable hc lba"
  shows "\<exists>ok s'. your_sd_driver_read_block spi drv lba p m s = (ok, if ok then wr_bytes m p (st lba) else m, s') \<and> off up st s'"
proof -
  let ?arg = "block_address drv lba"
  obtain r1 rest up' s1 where c: "sd_send_command spi CMD17 ?arg 0x01 s = (r1, s1)" "sd_reply v2 hc csd st CMD17 ?arg up r1 rest up'"
    "out rest None up' st s1"
    using send_command_ok [OF assms(1) plain_cmds(5), of ?arg 1] by blast
  have up: "up' = up" and data: "r1 = 0 \<longrightarrow> data_phase 200000 (st lba) rest"
    using c(2) card_block_address [OF assms(2,3)]
    by (auto simp: sd_reply_def sd_cmds)
  have ready: "g_sd_ready drv" using assms(2) by (simp add: drv_ok_def)
  show ?thesis
  proof (cases "r1 = 0")
    case False
    then show ?thesis using c(1,3) deselected up ready by (auto simp: your_sd_driver_read_block_def)
  next
    case True
    have "(0xFF :: u8) \<noteq> 0xFE" by simp
    from data_phase_out [OF c(3) data [rule_format, OF True] this] obtain token t where
      t: "sd_token_loop spi 200000 0xFF s1 = (token, t)" "\<exists>q. out q None up' st t"
      "token = DATA_TOKEN_SINGLE_BLOCK \<longrightarrow> (\<exists>c1 c2. out (st lba @ [c1, c2]) None up' st t)" by blast
    show ?thesis
    proof (cases "token = DATA_TOKEN_SINGLE_BLOCK")
      case False
      then show ?thesis using c(1) t True deselected up ready by (auto simp: your_sd_driver_read_block_def)
    next
      case tok: True
      then obtain c1 c2 where d: "out (st lba @ [c1, c2]) None up' st t" using t(3) by blast
      have "length (st lba) = 512" using deselected [OF d] block_len by blast
      then obtain t1 t2 t3 where "sd_recv spi 512 t = (st lba, t1)" "sd_xfer_byte spi 0xFF t1 = (c1, t2)"
        "sd_xfer_byte spi 0xFF t2 = (c2, t3)" "out [] None up' st t3" using data_tail [OF d] by auto
      then show ?thesis using c(1) t(1) True tok deselected up ready by (auto simp: your_sd_driver_read_block_def)
    qed
  qed
qed

lemma wait_busy: "out (replicate j 0x00) None up st s \<Longrightarrow> j < n \<Longrightarrow> \<exists>s'. sd_wait_ready spi n s = (True, s') \<and> out [] None up st s'"
proof (induction j arbitrary: n s)
  case 0
  then show ?case using wait_ready_idle by simp
next
  case (Suc j)
  then obtain n' where n: "n = Suc n'" "j < n'" by (cases n) auto
  obtain t where t: "sd_xfer_byte spi 0xFF s = (0, t)" "out (replicate j 0x00) None up st t"
    using Suc.prems xfer_out [of 0 "replicate j 0x00" None up st s] by auto
  then show ?case using Suc.IH [OF t(2) n(2)] n(1) by auto
qed

text \<open>A block is written: other blocks stay, and if the function answers true the block holds the bytes.\<close>

lemma write_block_ok:
  assumes "idle up st s" "drv_ok hc drv" "addressable hc lba"
  shows "\<exists>ok st' s'. your_sd_driver_write_block spi drv lba p m s = (ok, s') \<and> off up st' s' \<and>
    (\<forall>i. i \<noteq> lba \<longrightarrow> st' i = st i) \<and> (ok \<longrightarrow> st' lba = rd_bytes m p 512)"
proof -
  let ?arg = "block_address drv lba"
  have ready: "g_sd_ready drv" using assms(2) by (simp add: drv_ok_def)
  obtain t where t: "sd_wait_ready spi 50000 (sd_cs_select spi (sd_cs_deselect spi s)) = (True, t)" "out [] None up st t"
    using prepared [OF assms(1)] by blast
  from write_command [OF t(2), of ?arg 1] obtain k r1 where r: "k \<le> 8" "r1 AND 0x80 = 0"
    "out (replicate k 0xFF @ [r1]) (if r1 = 0 then Some lba else None) up st (spi_send spi (sd_frame CMD24 ?arg 1) t)"
    unfolding card_block_address [OF assms(2,3)] by blast
  have "k < 10" using r(1) by simp
  from r1_out [OF r(3) this r(2), of "0xFF"] obtain s1 where
    c: "sd_send_command spi CMD24 ?arg 0x01 s = (r1, s1)" "out [] (if r1 = 0 then Some lba else None) up st s1"
    using t(1) by (auto simp: sd_send_command_def)
  show ?thesis
  proof (cases "r1 = 0")
    case False
    then show ?thesis using c deselected ready by (fastforce simp: your_sd_driver_write_block_def)
  next
    case True
    let ?s2 = "spi_send spi ([0xFF, 0xFE] @ rd_bytes m p 512 @ [0xFF, 0xFF]) s1"
    obtain resp j st' where w: "j < 1000000" "\<forall>i. i \<noteq> lba \<longrightarrow> st' i = st i" "resp AND 0x1F = 0x05 \<longrightarrow> st' lba = rd_bytes m p 512"
      "out (resp # replicate j 0x00) None up st' ?s2"
      using write_data [of lba up st s1 "rd_bytes m p 512"] c(2) True by auto
    obtain s3 where s3: "sd_xfer_byte spi 0xFF ?s2 = (resp, s3)" "out (replicate j 0x00) None up st' s3" using xfer_out [OF w(4)] by blast
    obtain s4 where s4: "sd_wait_ready spi 1000000 s3 = (True, s4)" "out [] None up st' s4" using wait_busy [OF s3(2) w(1)] by blast
    have "your_sd_driver_write_block spi drv lba p m s =
      (if resp AND 0x1F \<noteq> 0x05 then (False, sd_cs_deselect spi s3) else (True, sd_cs_deselect spi s4))"
      using c(1) True ready s3(1) s4(1) by (simp add: your_sd_driver_write_block_def DATA_TOKEN_SINGLE_BLOCK_def)
    then show ?thesis using w(2,3) deselected [OF s3(2)] deselected [OF s4(2)] by auto
  qed
qed

lemma sector_count_ok:
  assumes "idle up st s"
  shows "\<exists>n s'. sd_read_sector_count spi s = (n, s') \<and> off up st s' \<and> (n \<noteq> 0 \<longrightarrow> n = csd_to_sectors csd)"
proof -
  obtain r1 rest up' s1 where c: "sd_send_command spi CMD9 0 0x01 s = (r1, s1)" "sd_reply v2 hc csd st CMD9 0 up r1 rest up'"
    "out rest None up' st s1"
    using send_command_ok [OF assms plain_cmds(3), of 0 1] by blast
  have up: "up' = up" and data: "r1 = 0 \<longrightarrow> data_phase 100000 csd rest"
    using c(2) by (auto simp: sd_reply_def sd_cmds)
  have fin: "\<exists>v t. sd_xfer_byte spi 0xFF (sd_cs_deselect spi u) = (v, t) \<and> off up st t" if "out q None up st u" for q u
    using off_xfer [OF deselected [OF that]] by (cases "sd_xfer_byte spi 0xFF (sd_cs_deselect spi u)") (auto simp: sd_xfer_byte_def)
  show ?thesis
  proof (cases "r1 = 0")
    case False
    then show ?thesis using c fin [of rest s1] up by (auto simp: sd_read_sector_count_def)
  next
    case True
    have "(0 :: u8) \<noteq> 0xFE" by simp
    from data_phase_out [OF c(3) data [rule_format, OF True] this] obtain token t where
      t: "sd_token_loop spi 100000 0 s1 = (token, t)" "\<exists>q. out q None up' st t"
      "token = DATA_TOKEN_SINGLE_BLOCK \<longrightarrow> (\<exists>c1 c2. out (csd @ [c1, c2]) None up' st t)" by blast
    have f: "sd_token_found spi 100000 s1 = (token = 0xFE, t)" using found_token [of 0 100000 s1] t(1) by simp
    show ?thesis
    proof (cases "token = 0xFE")
      case False
      then show ?thesis using c(1) t(2) f True fin up by (fastforce simp: sd_read_sector_count_def)
    next
      case tok: True
      then obtain c1 c2 where d: "out (csd @ [c1, c2]) None up st t" using t(3) up by (auto simp: DATA_TOKEN_SINGLE_BLOCK_def)
      then obtain t1 t2 t3 where e: "sd_recv spi 16 t = (csd, t1)" "sd_xfer_byte spi 0xFF t1 = (c1, t2)"
        "sd_xfer_byte spi 0xFF t2 = (c2, t3)" "out [] None up st t3" using data_tail [OF d] csd_len by auto
      from fin [OF e(4)] show ?thesis using c(1) f True tok e(1-3) by (auto simp: sd_read_sector_count_def)
    qed
  qed
qed

lemma idle_sleep: "idle up st s \<Longrightarrow> idle up st (spi_sleep spi n s)"
  unfolding idle_def using off_sleep [of up st s n] out_sleep [of _ None up st s n] by blast

lemma acmd41_ok:
  "idle up st s \<Longrightarrow> \<exists>ok up' s'. sd_acmd41_loop spi v n s = (ok, s') \<and> idle up' st s' \<and> (ok \<longrightarrow> up')"
proof (induction n arbitrary: up s)
  case 0
  then show ?case by auto
next
  case (Suc n)
  obtain r1 rest up1 s1 where c: "sd_send_command spi CMD55 0 0x01 s = (r1, s1)" "out rest None up1 st s1"
    using send_command_ok [OF Suc.prems plain_cmds(6), of 0 1] by blast
  then have i1: "idle up1 st s1" by (auto simp: idle_def)
  obtain r2 rest2 up2 s2 where d: "sd_send_command spi ACMD41 (if v then 0x40000000 else 0) 0x01 s1 = (r2, s2)"
    "sd_reply v2 hc csd st ACMD41 (if v then 0x40000000 else 0) up1 r2 rest2 up2" "out rest2 None up2 st s2"
    using send_command_ok [OF i1 plain_cmds(8)] by blast
  have up2: "up2 \<longleftrightarrow> r2 = 0" using d(2) by (auto simp: sd_reply_def sd_cmds)
  have i2: "idle up2 st s2" using d(3) by (auto simp: idle_def)
  show ?case
  proof (cases "r2 = 0")
    case True
    then show ?thesis using c(1) d(1) i2 up2 by auto
  next
    case False
    then show ?thesis using c(1) d(1) Suc.IH [OF idle_sleep [OF i2, of 1]] by auto
  qed
qed

lemma check_v2_ok:
  assumes "idle up st s"
  shows "\<exists>up' s'. sd_check_v2 spi s = (v2, s') \<and> idle up' st s'"
proof -
  obtain r rest up' s' where c: "sd_send_command spi CMD8 0x1AA 0x87 s = (r, s')" "sd_reply v2 hc csd st CMD8 0x1AA up r rest up'"
    "out rest None up' st s'"
    using send_command_ok [OF assms plain_cmds(2)] by blast
  have r: "if v2 then r = 1 \<and> (\<exists>x y. rest = [x, y, 0x01, 0xAA]) else r \<noteq> 1 \<and> rest = []"
    using c(2) by (simp add: sd_reply_def sd_cmds)
  show ?thesis
  proof (cases v2)
    case True
    then obtain x y where xy: "r = 1" "rest = [x, y, 0x01, 0xAA]" using r by auto
    have "length rest = 4" using xy by simp
    from recv_all [OF c(3) this] obtain t where "sd_recv spi 4 s' = (rest, t)" "out [] None up' st t" by blast
    then show ?thesis using c(1) xy True by (auto simp: sd_check_v2_def idle_def)
  next
    case False
    then show ?thesis using c(1,3) r by (auto simp: sd_check_v2_def idle_def)
  qed
qed

lemma check_capacity_ok:
  assumes "idle True st s"
  shows "\<exists>drv' up' s'. sd_check_capacity spi v2 drv s = (drv', s') \<and> idle True st s' \<and> g_sd_is_sdhc drv' = hc"
proof (cases v2)
  case True
  obtain r rest up' s' where c: "sd_send_command spi CMD58 0 0x01 s = (r, s')" "sd_reply v2 hc csd st CMD58 0 True r rest up'"
    "out rest None up' st s'"
    using send_command_ok [OF assms plain_cmds(7)] by blast
  obtain x y z w where r: "up'" "r = 0" "rest = [x, y, z, w]" "x AND 0x40 \<noteq> 0 \<longleftrightarrow> hc"
    using c(2) by (auto simp: sd_reply_def sd_cmds)
  have "length rest = 4" using r by simp
  from recv_all [OF c(3) this] obtain t where "sd_recv spi 4 s' = (rest, t)" "out [] None up' st t" by blast
  then show ?thesis using c(1) r True by (auto simp: sd_check_capacity_def idle_def)
next
  case False
  obtain r rest up' s' where c: "sd_send_command spi CMD16 512 0x01 s = (r, s')" "sd_reply v2 hc csd st CMD16 512 True r rest up'"
    "out rest None up' st s'"
    using send_command_ok [OF assms plain_cmds(4)] by blast
  have "up'" using c(2) by (simp add: sd_reply_def sd_cmds)
  then show ?thesis using c(1,3) False hc_v2 by (auto simp: sd_check_capacity_def idle_def)
qed

lemma init_ok:
  assumes "off up st s"
  shows "\<exists>ok drv' up' s'. your_sd_driver_init spi drv s = (ok, drv', s') \<and> off up' st s' \<and>
    (if ok then drv_ok hc drv' \<and> up' else \<not> g_sd_ready drv')"
proof -
  let ?drv = "drv\<lparr>g_sd_ready := False\<rparr>"
  obtain bs s0 where s0: "sd_recv spi 10 (spi_sleep spi 10 (spi_cs spi True s)) = (bs, s0)" by fastforce
  then have i0: "idle up st s0" using off_recv [OF off_sleep [OF off_cs [OF assms]], of 10 10] by (simp add: idle_def)
  obtain r1 rest1 up1 s1 where c0: "sd_send_command spi CMD0 0 0x95 s0 = (r1, s1)" "out rest1 None up1 st s1"
    using send_command_ok [OF i0 plain_cmds(1)] by blast
  then have i1: "idle up1 st s1" by (auto simp: idle_def)
  obtain up2 s2 where v: "sd_check_v2 spi s1 = (v2, s2)" "idle up2 st s2" using check_v2_ok [OF i1] by blast
  obtain inited up3 s3 where a: "sd_acmd41_loop spi v2 20000 s2 = (inited, s3)" "idle up3 st s3" "inited \<longrightarrow> up3"
    using acmd41_ok [OF v(2), of v2 20000] by blast
  have run: "your_sd_driver_init spi drv s =
    (if r1 \<noteq> 1 then (False, ?drv, sd_cs_deselect spi s1)
     else if \<not> inited then (False, ?drv, sd_cs_deselect spi s3)
     else (let (drv, s) = sd_check_capacity spi v2 ?drv s3 in (True, drv\<lparr>g_sd_ready := True\<rparr>, sd_cs_deselect spi s)))"
    unfolding your_sd_driver_init_def Let_def s0 c0(1) v(1) a(1) prod.case by (rule refl)
  show ?thesis
  proof (cases "r1 = 1 \<and> inited")
    case False
    then show ?thesis using run idle_deselected [OF i1] idle_deselected [OF a(2)] by auto
  next
    case True
    then obtain drv' s4 where "sd_check_capacity spi v2 ?drv s3 = (drv', s4)" "idle True st s4" "g_sd_is_sdhc drv' = hc"
      using check_capacity_ok [of st s3 ?drv] a(2,3) by auto
    then show ?thesis using run True idle_deselected by (auto simp: drv_ok_def)
  qed
qed

end

text \<open>A card of \<open>cap\<close> blocks that serves every transfer within them.\<close>

locale sd_good = sd_card +
  fixes cap :: nat
  assumes serve_read: "out [] None True st s \<Longrightarrow> unat (card_block hc arg) < cap \<Longrightarrow>
      \<exists>k j c1 c2. k \<le> 8 \<and> j < 200000 \<and>
        out (replicate k 0xFF @ 0 # replicate j 0xFF @ 0xFE # st (card_block hc arg) @ [c1, c2]) None True st
          (spi_send spi (sd_frame CMD17 arg crc) s)"
    and serve_write: "out [] None True st s \<Longrightarrow> unat (card_block hc arg) < cap \<Longrightarrow>
      \<exists>k. k \<le> 8 \<and> out (replicate k 0xFF @ [0]) (Some (card_block hc arg)) True st (spi_send spi (sd_frame CMD24 arg crc) s)"
    and serve_data: "out [] (Some blk) True st s \<Longrightarrow> length data = 512 \<Longrightarrow>
      \<exists>resp j. resp AND 0x1F = 0x05 \<and> j < 1000000 \<and>
        out (resp # replicate j 0x00) None True (st(blk := data)) (spi_send spi ([0xFF, 0xFE] @ data @ [0xFF, 0xFF]) s)"
begin

lemma read_served:
  assumes "idle True st s" "drv_ok hc drv" "addressable hc lba" "unat lba < cap"
  shows "\<exists>s'. your_sd_driver_read_block spi drv lba p m s = (True, wr_bytes m p (st lba), s') \<and> off True st s'"
proof -
  let ?arg = "block_address drv lba"
  have blk: "card_block hc ?arg = lba" by (rule card_block_address [OF assms(2,3)])
  have ready: "g_sd_ready drv" using assms(2) by (simp add: drv_ok_def)
  obtain t where t: "sd_wait_ready spi 50000 (sd_cs_select spi (sd_cs_deselect spi s)) = (True, t)" "out [] None True st t"
    using prepared [OF assms(1)] by blast
  obtain k j c1 c2 where r: "k \<le> 8" "j < 200000"
    "out (replicate k 0xFF @ 0 # replicate j 0xFF @ 0xFE # st lba @ [c1, c2]) None True st (spi_send spi (sd_frame CMD17 ?arg 1) t)"
    using serve_read [OF t(2), of ?arg 1] assms(4) unfolding blk by blast
  have "k < 10" "(0 :: u8) AND 0x80 = 0" using r(1) by simp_all
  from r1_out [OF r(3) this, of "0xFF"] obtain s1 where
    c: "sd_send_command spi CMD17 ?arg 0x01 s = (0, s1)" "out (replicate j 0xFF @ 0xFE # st lba @ [c1, c2]) None True st s1"
    using t(1) by (auto simp: sd_send_command_def)
  obtain u where u: "sd_token_loop spi 200000 0xFF s1 = (DATA_TOKEN_SINGLE_BLOCK, u)" "out (st lba @ [c1, c2]) None True st u"
    using token_out [OF c(2) r(2)] by blast
  have "length (st lba) = 512" using deselected [OF u(2)] block_len by blast
  then obtain t1 t2 t3 where "sd_recv spi 512 u = (st lba, t1)" "sd_xfer_byte spi 0xFF t1 = (c1, t2)"
    "sd_xfer_byte spi 0xFF t2 = (c2, t3)" "out [] None True st t3" using data_tail [OF u(2)] by auto
  then show ?thesis using c(1) u(1) deselected ready by (auto simp: your_sd_driver_read_block_def)
qed

lemma write_served:
  assumes "idle True st s" "drv_ok hc drv" "addressable hc lba" "unat lba < cap"
  shows "\<exists>s'. your_sd_driver_write_block spi drv lba p m s = (True, s') \<and> off True (st(lba := rd_bytes m p 512)) s'"
proof -
  let ?arg = "block_address drv lba"
  have blk: "card_block hc ?arg = lba" by (rule card_block_address [OF assms(2,3)])
  have ready: "g_sd_ready drv" using assms(2) by (simp add: drv_ok_def)
  obtain t where t: "sd_wait_ready spi 50000 (sd_cs_select spi (sd_cs_deselect spi s)) = (True, t)" "out [] None True st t"
    using prepared [OF assms(1)] by blast
  obtain k where r: "k \<le> 8" "out (replicate k 0xFF @ [0]) (Some lba) True st (spi_send spi (sd_frame CMD24 ?arg 1) t)"
    using serve_write [OF t(2), of ?arg 1] assms(4) unfolding blk by blast
  have "k < 10" "(0 :: u8) AND 0x80 = 0" using r(1) by simp_all
  from r1_out [OF r(2) this, of "0xFF"] obtain s1 where
    c: "sd_send_command spi CMD24 ?arg 0x01 s = (0, s1)" "out [] (Some lba) True st s1"
    using t(1) by (auto simp: sd_send_command_def)
  let ?s2 = "spi_send spi ([0xFF, 0xFE] @ rd_bytes m p 512 @ [0xFF, 0xFF]) s1"
  obtain resp j where w: "resp AND 0x1F = 0x05" "j < 1000000"
    "out (resp # replicate j 0x00) None True (st(lba := rd_bytes m p 512)) ?s2"
    using serve_data [OF c(2), of "rd_bytes m p 512"] by auto
  obtain s3 where s3: "sd_xfer_byte spi 0xFF ?s2 = (resp, s3)" "out (replicate j 0x00) None True (st(lba := rd_bytes m p 512)) s3"
    using xfer_out [OF w(3)] by blast
  obtain s4 where s4: "sd_wait_ready spi 1000000 s3 = (True, s4)" "out [] None True (st(lba := rd_bytes m p 512)) s4"
    using wait_busy [OF s3(2) w(2)] by blast
  have "your_sd_driver_write_block spi drv lba p m s = (True, sd_cs_deselect spi s4)"
    using c(1) w(1) ready s3(1) s4(1) by (simp add: your_sd_driver_write_block_def DATA_TOKEN_SINGLE_BLOCK_def)
  then show ?thesis using deselected [OF s4(2)] by auto
qed

lemma write_read:
  assumes "off True st s" "drv_ok hc drv" "addressable hc lba" "unat lba < cap"
  shows "\<exists>s' s''. your_sd_driver_write_block spi drv lba p m s = (True, s') \<and>
    your_sd_driver_read_block spi drv lba q m' s' = (True, wr_bytes m' q (rd_bytes m p 512), s'') \<and>
    off True (st(lba := rd_bytes m p 512)) s''"
proof -
  have "idle True st s" using assms(1) by (simp add: idle_def)
  from write_served [OF this assms(2-4)] obtain s' where
    w: "your_sd_driver_write_block spi drv lba p m s = (True, s')" "off True (st(lba := rd_bytes m p 512)) s'" by blast
  then have "idle True (st(lba := rd_bytes m p 512)) s'" by (simp add: idle_def)
  from read_served [OF this assms(2-4), of q m'] show ?thesis using w(1) by auto
qed

end

text \<open>A card that, besides, comes up at the first request and lets its register be read.\<close>

locale sd_prompt = sd_good +
  assumes serve_reset: "out [] None up st s \<Longrightarrow>
      \<exists>k. k \<le> 8 \<and> out (replicate k 0xFF @ [1]) None False st (spi_send spi (sd_frame CMD0 0 crc) s)"
    and serve_up: "out [] None up st s \<Longrightarrow>
      \<exists>k. k \<le> 8 \<and> out (replicate k 0xFF @ [0]) None True st (spi_send spi (sd_frame ACMD41 arg crc) s)"
    and serve_csd: "out [] None True st s \<Longrightarrow>
      \<exists>k j c1 c2. k \<le> 8 \<and> j < 100000 \<and>
        out (replicate k 0xFF @ 0 # replicate j 0xFF @ 0xFE # csd @ [c1, c2]) None True st (spi_send spi (sd_frame CMD9 0 crc) s)"
begin

lemma answer_served:
  assumes "idle up st s" and r1: "r1 AND 0x80 = 0"
    and serve: "\<And>t. out [] None up st t \<Longrightarrow> \<exists>k rest. k \<le> 8 \<and> P rest \<and>
      out (replicate k 0xFF @ r1 # rest) None up' st (spi_send spi (sd_frame cmd arg crc) t)"
  shows "\<exists>rest s'. sd_send_command spi cmd arg crc s = (r1, s') \<and> P rest \<and> out rest None up' st s'"
proof -
  obtain t where t: "sd_wait_ready spi 50000 (sd_cs_select spi (sd_cs_deselect spi s)) = (True, t)" "out [] None up st t"
    using prepared [OF assms(1)] by blast
  obtain k rest where r: "k \<le> 8" "P rest" "out (replicate k 0xFF @ r1 # rest) None up' st (spi_send spi (sd_frame cmd arg crc) t)"
    using serve [OF t(2)] by blast
  have "k < 10" using r(1) by simp
  from r1_out [OF r(3) this r1, of "0xFF"] show ?thesis using t(1) r(2) by (auto simp: sd_send_command_def)
qed

lemma init_served:
  assumes "off up st s"
  shows "\<exists>drv' s'. your_sd_driver_init spi drv s = (True, drv', s') \<and> off True st s' \<and> drv_ok hc drv'"
proof -
  let ?drv = "drv\<lparr>g_sd_ready := False\<rparr>"
  obtain bs s0 where s0: "sd_recv spi 10 (spi_sleep spi 10 (spi_cs spi True s)) = (bs, s0)" by fastforce
  then have i0: "idle up st s0" using off_recv [OF off_sleep [OF off_cs [OF assms]], of 10 10] by (simp add: idle_def)
  obtain s1 where c0: "sd_send_command spi CMD0 0 0x95 s0 = (1, s1)" "out [] None False st s1"
    using answer_served [OF i0, of 1 "\<lambda>rest. rest = []" False CMD0 0 "0x95"] serve_reset by auto
  then have i1: "idle False st s1" by (auto simp: idle_def)
  obtain up2 s2 where v: "sd_check_v2 spi s1 = (v2, s2)" "idle up2 st s2" using check_v2_ok [OF i1] by blast
  obtain r1 rest up3 s3 where c: "sd_send_command spi CMD55 0 0x01 s2 = (r1, s3)" "out rest None up3 st s3"
    using send_command_ok [OF v(2) plain_cmds(6), of 0 1] by blast
  then have i3: "idle up3 st s3" by (auto simp: idle_def)
  obtain s4 where d: "sd_send_command spi ACMD41 (if v2 then 0x40000000 else 0) 0x01 s3 = (0, s4)" "out [] None True st s4"
    using answer_served [OF i3, of 0 "\<lambda>rest. rest = []" True ACMD41 "if v2 then 0x40000000 else 0" "0x01"] serve_up by auto
  have n: "20000 = Suc 19999" by simp
  have a: "sd_acmd41_loop spi v2 20000 s2 = (True, s4)"
    unfolding n sd_acmd41_loop.simps c(1) Let_def prod.case d(1) by simp
  have "idle True st s4" using d(2) by (auto simp: idle_def)
  then obtain drv' s5 where k: "sd_check_capacity spi v2 ?drv s4 = (drv', s5)" "idle True st s5" "g_sd_is_sdhc drv' = hc"
    using check_capacity_ok [of st s4 ?drv] by auto
  have "your_sd_driver_init spi drv s = (True, drv'\<lparr>g_sd_ready := True\<rparr>, sd_cs_deselect spi s5)"
    unfolding your_sd_driver_init_def Let_def s0 c0(1) v(1) a k(1) prod.case by simp
  then show ?thesis using idle_deselected [OF k(2)] k(3) by (auto simp: drv_ok_def)
qed

lemma sector_count_served:
  assumes "off True st s"
  shows "\<exists>s'. sd_read_sector_count spi s = (csd_to_sectors csd, s') \<and> off True st s'"
proof -
  have i: "idle True st s" using assms by (simp add: idle_def)
  obtain rest s1 where c: "sd_send_command spi CMD9 0 0x01 s = (0, s1)" "out rest None True st s1"
    "\<exists>j c1 c2. j < 100000 \<and> rest = replicate j 0xFF @ 0xFE # csd @ [c1, c2]"
    using answer_served [OF i, of 0 "\<lambda>rest. \<exists>j c1 c2. j < 100000 \<and> rest = replicate j 0xFF @ 0xFE # csd @ [c1, c2]" True CMD9 0 1]
      serve_csd by fastforce
  then obtain j c1 c2 where j: "j < 100000" "rest = replicate j 0xFF @ 0xFE # csd @ [c1, c2]" by blast
  obtain t where t: "sd_token_loop spi 100000 0 s1 = (DATA_TOKEN_SINGLE_BLOCK, t)" "out (csd @ [c1, c2]) None True st t"
    using token_out [OF c(2) [unfolded j(2)] j(1)] by blast
  have f: "sd_token_found spi 100000 s1 = (True, t)" using found_token [of 0 100000 s1] t(1) by (simp add: DATA_TOKEN_SINGLE_BLOCK_def)
  obtain t1 t2 t3 where e: "sd_recv spi 16 t = (csd, t1)" "sd_xfer_byte spi 0xFF t1 = (c1, t2)"
    "sd_xfer_byte spi 0xFF t2 = (c2, t3)" "out [] None True st t3" using data_tail [OF t(2)] csd_len by auto
  obtain v u where u: "sd_xfer_byte spi 0xFF (sd_cs_deselect spi t3) = (v, u)" by fastforce
  then have "off True st u" using off_xfer [OF deselected [OF e(4)]] by (simp add: sd_xfer_byte_def)
  then show ?thesis using c(1) f e u by (simp add: sd_read_sector_count_def)
qed

end

end
