(* ===== verification/Sd_Card.thy ===== *)
theory Sd_Card
  imports Sd_Driver Ide_Transfer
begin

text \<open>
  The SD card driver of the disk, \<open>peripheral/RP2350B/sd_driver.c\<close>, against its card: a simulated card of high
  capacity, on which the laws of \<open>Sd_Driver\<close> are interpreted, and the properties of the driver for every card
  that obeys those laws, among them that the driver does what the model of the disk (\<open>Ide_Device\<close>) takes its
  two hooks to do.
\<close>

section \<open>A simulated card\<close>

text \<open>
  The card collects the six bytes of a command, or the data behind the token of a write, and queues what it
  puts out: one byte of wait before each answer, two before a data block, two bytes of busy after a write.
\<close>

record sd_sim =
  sd_store :: blocks
  sd_up :: bool
  sd_sel :: bool
  sd_queue :: "u8 list"
  sd_cont :: "u32 option"
  sd_in :: "u8 list"

definition sim_csd :: "u8 list" where
  "sim_csd = [0x40, 0x0E, 0x00, 0x32, 0x5B, 0x59, 0x00, 0x00, 0x1D, 0x69, 0x7F, 0x80, 0x0A, 0x40, 0x40, 0x01]"

definition sim_cap :: nat where "sim_cap = 7710720"

definition sim_arg :: "u8 list \<Rightarrow> u32" where
  "sim_arg f = push_bit 24 (ucast (f ! 1)) OR push_bit 16 (ucast (f ! 2)) OR push_bit 8 (ucast (f ! 3)) OR ucast (f ! 4)"

definition sim_exec :: "u8 list \<Rightarrow> sd_sim \<Rightarrow> sd_sim" where
  "sim_exec f s =
     (let cmd = f ! 0 AND 0x3F; arg = sim_arg f;
          r1 = (if sd_up s then 0 else 1);
          ans = (\<lambda>bs. s\<lparr>sd_queue := 0xFF # bs, sd_in := []\<rparr>)
      in if cmd = CMD0 then (ans [1])\<lparr>sd_up := False\<rparr>
         else if cmd = CMD8 then ans [1, 0, 0, 0x01, 0xAA]
         else if cmd = ACMD41 then (ans [0])\<lparr>sd_up := True\<rparr>
         else if cmd = CMD58 then ans [r1, 0xC0, 0xFF, 0x80, 0x00]
         else if cmd = CMD9 then (if sd_up s then ans ([0, 0xFF, 0xFF, 0xFE] @ sim_csd @ [0, 0]) else ans [1])
         else if cmd = CMD17 then
           (if \<not> sd_up s then ans [1] else if unat arg < sim_cap then ans ([0, 0xFF, 0xFF, 0xFE] @ sd_store s arg @ [0, 0])
            else ans [0x40])
         else if cmd = CMD24 then
           (if \<not> sd_up s then ans [1] else if unat arg < sim_cap then (ans [0])\<lparr>sd_cont := Some arg\<rparr> else ans [0x40])
         else ans [r1])"

definition sim_xfer :: "u8 \<Rightarrow> sd_sim \<Rightarrow> u8 \<times> sd_sim" where
  "sim_xfer x s =
     (if \<not> sd_sel s then (0xFF, s)
      else case sd_queue s of
        b # q \<Rightarrow> (b, s\<lparr>sd_queue := q\<rparr>)
      | [] \<Rightarrow>
          (case sd_cont s of
             None \<Rightarrow>
               if sd_in s = [] \<and> x AND 0xC0 \<noteq> 0x40 then (0xFF, s)
               else (let f = sd_in s @ [x] in
                 (0xFF, if length f < 6 then s\<lparr>sd_in := f\<rparr> else sim_exec f s))
           | Some blk \<Rightarrow>
               if sd_in s = [] \<and> x \<noteq> 0xFE then (0xFF, s)
               else (let f = sd_in s @ [x] in
                 (0xFF, if length f < 515 then s\<lparr>sd_in := f\<rparr>
                  else s\<lparr>sd_store := (sd_store s)(blk := take 512 (drop 1 f)), sd_queue := [0xE5, 0, 0],
                         sd_cont := None, sd_in := []\<rparr>))))"

definition sim_cs :: "bool \<Rightarrow> sd_sim \<Rightarrow> sd_sim" where
  "sim_cs hi s = s\<lparr>sd_sel := \<not> hi, sd_queue := [], sd_cont := None, sd_in := []\<rparr>"

definition sim_spi :: "sd_sim spi" where
  "sim_spi = \<lparr>spi_xfer = sim_xfer, spi_cs = sim_cs, spi_sleep = (\<lambda>_ s. s)\<rparr>"

definition sim_off :: "bool \<Rightarrow> blocks \<Rightarrow> sd_sim \<Rightarrow> bool" where
  "sim_off up st s \<longleftrightarrow> sd_up s = up \<and> sd_store s = st \<and> \<not> sd_sel s \<and> (\<forall>b. length (st b) = 512)"

definition sim_out :: "u8 list \<Rightarrow> u32 option \<Rightarrow> bool \<Rightarrow> blocks \<Rightarrow> sd_sim \<Rightarrow> bool" where
  "sim_out q c up st s \<longleftrightarrow> sd_up s = up \<and> sd_store s = st \<and> sd_sel s \<and> sd_queue s = q \<and> sd_cont s = c \<and> sd_in s = [] \<and>
     (\<forall>b. length (st b) = 512)"

lemma spi_send_Nil: "spi_send spi [] s = s"
  by (simp add: spi_send_def)

lemma spi_send_Cons: "spi_send spi (b # bs) s = spi_send spi bs (snd (spi_xfer spi b s))"
  by (simp add: spi_send_def)

lemma spi_send_append: "spi_send spi (as @ bs) s = spi_send spi bs (spi_send spi as s)"
  by (simp add: spi_send_def)

lemma sim_arg_frame: "sim_arg (sd_frame cmd arg crc) = arg"
proof (rule bit_eqI)
  fix n
  assume "possible_bit TYPE(32 word) n"
  then show "bit (sim_arg (sd_frame cmd arg crc)) n \<longleftrightarrow> bit arg n"
    unfolding sim_arg_def sd_frame_def
    by (cases "8 \<le> n"; cases "16 \<le> n"; cases "24 \<le> n") (auto simp: bit_simps)
qed

lemma frame_start:
  "cmd \<in> plain_cmds \<or> cmd = CMD24 \<Longrightarrow> (0x40 OR cmd) AND 0xC0 = 0x40"
  "cmd \<in> plain_cmds \<or> cmd = CMD24 \<Longrightarrow> (0x40 OR cmd) AND 0x3F = cmd"
  by (auto simp: plain_cmds_def sd_cmds CMD24_def)

lemma sim_frame:
  assumes "sim_out [] None up st s" "cmd \<in> plain_cmds \<or> cmd = CMD24"
  shows "spi_send sim_spi (sd_frame cmd arg crc) s = sim_exec (sd_frame cmd arg crc) (s\<lparr>sd_in := take 5 (sd_frame cmd arg crc)\<rparr>)"
  using assms(1) frame_start(1) [OF assms(2)]
  by (simp add: sd_frame_def spi_send_Nil spi_send_Cons sim_spi_def sim_xfer_def sim_out_def)

lemma sim_data:
  assumes "sim_out [] (Some blk) up st s" "length xs < 514"
  shows "spi_send sim_spi xs (s\<lparr>sd_in := [0xFE]\<rparr>) = s\<lparr>sd_in := 0xFE # xs\<rparr>"
  using assms(2)
proof (induction xs rule: rev_induct)
  case (snoc x xs)
  then show ?case using assms(1)
    by (simp add: spi_send_append spi_send_Cons spi_send_Nil) (simp add: sim_spi_def sim_xfer_def sim_out_def)
qed (simp add: spi_send_Nil)


lemma sim_exec_plain:
  assumes "sim_out [] None up st s" "cmd \<in> plain_cmds"
  shows "\<exists>r1 rest up'. r1 AND 0x80 = 0 \<and> sd_reply True True sim_csd st cmd arg up r1 rest up' \<and>
    sim_out (0xFF # r1 # rest) None up' st (spi_send sim_spi (sd_frame cmd arg crc) s)"
proof -
  have cmd: "sd_frame cmd arg crc ! 0 AND 0x3F = cmd" using frame_start(2) assms(2) by (simp add: sd_frame_def)
  have data: "data_phase n bs (0xFF # 0xFF # 0xFE # bs @ [0, 0])" if "2 < n" for n and bs :: "u8 list"
    unfolding data_phase_def using that by (intro disjI1 exI [of _ "2 :: nat"] exI [of _ 0]) (simp add: numeral_2_eq_2)
  have "cmd = CMD0 \<or> cmd = CMD8 \<or> cmd = CMD55 \<or> cmd = ACMD41 \<or> cmd = CMD58 \<or> cmd = CMD16 \<or> cmd = CMD17 \<or> cmd = CMD9"
    using assms(2) by (simp add: plain_cmds_def)
  then show ?thesis
    unfolding sim_frame [OF assms(1) disjI1 [OF assms(2)]] sim_exec_def Let_def sim_arg_frame cmd
    using assms(1)
    by (elim disjE) (auto simp: sim_out_def sd_reply_def sd_cmds CMD24_def card_block_def data)
qed

lemma sim_exec_write:
  assumes "sim_out [] None up st s"
  shows "\<exists>r1. r1 AND 0x80 = 0 \<and> (up \<and> unat arg < sim_cap \<longrightarrow> r1 = 0) \<and>
    sim_out [0xFF, r1] (if r1 = 0 then Some arg else None) up st (spi_send sim_spi (sd_frame CMD24 arg crc) s)"
proof -
  have cmd: "sd_frame CMD24 arg crc ! 0 AND 0x3F = CMD24" using frame_start(2) by (simp add: sd_frame_def)
  show ?thesis
    unfolding sim_frame [OF assms disjI2 [OF refl]] sim_exec_def Let_def sim_arg_frame cmd
    using assms by (simp add: sim_out_def sd_cmds CMD24_def)
qed

lemma sim_exec_data:
  assumes "sim_out [] (Some blk) up st s" "length data = 512"
  shows "sim_out [0xE5, 0, 0] None up (st(blk := data)) (spi_send sim_spi ([0xFF, 0xFE] @ data @ [0xFF, 0xFF]) s)"
proof -
  have "spi_send sim_spi [0xFF, 0xFE] s = s\<lparr>sd_in := [0xFE]\<rparr>"
    using assms(1) by (simp add: spi_send_Nil spi_send_Cons sim_spi_def sim_xfer_def sim_out_def)
  moreover have "spi_send sim_spi (data @ [0xFF]) (s\<lparr>sd_in := [0xFE]\<rparr>) = s\<lparr>sd_in := 0xFE # data @ [0xFF]\<rparr>"
    using sim_data [OF assms(1), of "data @ [0xFF]"] assms(2) by simp
  moreover have "sim_out [0xE5, 0, 0] None up (st(blk := data)) (spi_send sim_spi [0xFF] (s\<lparr>sd_in := 0xFE # data @ [0xFF]\<rparr>))"
    using assms by (simp add: spi_send_Nil spi_send_Cons) (simp add: sim_spi_def sim_xfer_def sim_out_def fun_upd_apply)
  moreover have "[0xFF, 0xFE] @ data @ [0xFF, 0xFF] = [0xFF, 0xFE] @ (data @ [0xFF]) @ [0xFF]" by simp
  ultimately show ?thesis by (simp only: spi_send_append)
qed

interpretation sim: sd_card sim_spi True True sim_csd sim_off sim_out
proof (unfold_locales, goal_cases)
  case (12 up st s cmd arg crc)
  then obtain r1 rest up' where "r1 AND 0x80 = 0" "sd_reply True True sim_csd st cmd arg up r1 rest up'"
    "sim_out (0xFF # r1 # rest) None up' st (spi_send sim_spi (sd_frame cmd arg crc) s)"
    using sim_exec_plain by blast
  then show ?case by (intro exI [of _ "1 :: nat"] exI [of _ r1] exI [of _ rest] exI [of _ up']) simp
next
  case (13 up st s arg crc)
  then obtain r1 where "r1 AND 0x80 = 0"
    "sim_out [0xFF, r1] (if r1 = 0 then Some arg else None) up st (spi_send sim_spi (sd_frame CMD24 arg crc) s)"
    using sim_exec_write by blast
  then show ?case by (intro exI [of _ "1 :: nat"] exI [of _ r1]) (auto simp: card_block_def)
next
  case (14 blk up st s data)
  then show ?case using sim_exec_data [of blk up st s data]
    by (intro exI [of _ "0xE5"] exI [of _ "2 :: nat"] exI [of _ "st(blk := data)"]) (simp add: numeral_2_eq_2)
qed (auto simp: sim_off_def sim_out_def sim_spi_def sim_cs_def sim_xfer_def sim_csd_def)

interpretation sim: sd_good sim_spi True True sim_csd sim_off sim_out sim_cap
proof (unfold_locales, goal_cases)
  case (1 st s arg crc)
  have cmd: "sd_frame CMD17 arg crc ! 0 AND 0x3F = CMD17" using frame_start(2) by (simp add: sd_frame_def)
  have "sim_out ([0xFF, 0, 0xFF, 0xFF, 0xFE] @ st arg @ [0, 0]) None True st (spi_send sim_spi (sd_frame CMD17 arg crc) s)"
    unfolding sim_frame [OF 1(1) disjI1 [OF plain_cmds(5)]] sim_exec_def Let_def sim_arg_frame cmd
    using 1 by (simp add: sim_out_def sd_cmds CMD24_def card_block_def)
  then show ?case by (intro exI [of _ "1 :: nat"] exI [of _ "2 :: nat"] exI [of _ 0]) (simp add: card_block_def numeral_2_eq_2)
next
  case (2 st s arg crc)
  then obtain r1 where "r1 = 0"
    "sim_out [0xFF, r1] (if r1 = 0 then Some arg else None) True st (spi_send sim_spi (sd_frame CMD24 arg crc) s)"
    using sim_exec_write [of True st s arg crc] by (auto simp: card_block_def)
  then show ?case by (intro exI [of _ "1 :: nat"]) (simp add: card_block_def)
next
  case (3 blk st s data)
  then show ?case using sim_exec_data [of blk True st s data]
    by (intro exI [of _ "0xE5"] exI [of _ "2 :: nat"]) (simp add: numeral_2_eq_2)
qed


interpretation sim: sd_prompt sim_spi True True sim_csd sim_off sim_out sim_cap
proof (unfold_locales, goal_cases)
  case (1 up st s crc)
  have cmd: "sd_frame CMD0 0 crc ! 0 AND 0x3F = CMD0" using frame_start(2) by (simp add: sd_frame_def)
  have "sim_out ([0xFF, 1]) None False st (spi_send sim_spi (sd_frame CMD0 0 crc) s)"
    unfolding sim_frame [OF 1 disjI1 [OF plain_cmds(1)]] sim_exec_def Let_def sim_arg_frame cmd
    using 1 by (simp add: sim_out_def)
  then show ?case by (intro exI [of _ "1 :: nat"]) simp
next
  case (2 up st s arg crc)
  have cmd: "sd_frame ACMD41 arg crc ! 0 AND 0x3F = ACMD41" using frame_start(2) by (simp add: sd_frame_def)
  have "sim_out ([0xFF, 0]) None True st (spi_send sim_spi (sd_frame ACMD41 arg crc) s)"
    unfolding sim_frame [OF 2 disjI1 [OF plain_cmds(8)]] sim_exec_def Let_def sim_arg_frame cmd
    using 2 by (simp add: sim_out_def sd_cmds)
  then show ?case by (intro exI [of _ "1 :: nat"]) simp
next
  case (3 st s crc)
  have cmd: "sd_frame CMD9 0 crc ! 0 AND 0x3F = CMD9" using frame_start(2) by (simp add: sd_frame_def)
  have "sim_out ([0xFF, 0, 0xFF, 0xFF, 0xFE] @ sim_csd @ [0, 0]) None True st (spi_send sim_spi (sd_frame CMD9 0 crc) s)"
    unfolding sim_frame [OF 3 disjI1 [OF plain_cmds(3)]] sim_exec_def Let_def sim_arg_frame cmd
    using 3 by (simp add: sim_out_def sd_cmds)
  then show ?case by (intro exI [of _ "1 :: nat"] exI [of _ "2 :: nat"] exI [of _ 0]) (simp add: numeral_2_eq_2)
qed

section \<open>The disk on its card\<close>

text \<open>The hooks of \<open>main.c\<close>, which hand the requests of the disk to the driver, and the start of the disk:
  a card that does not come up stops the firmware.\<close>

definition ide_hook_sd_read_sector :: "'s spi \<Rightarrow> sd_drv \<Rightarrow> u32 \<Rightarrow> nat \<Rightarrow> mem \<Rightarrow> 's \<Rightarrow> bool \<times> mem \<times> 's" where
  "ide_hook_sd_read_sector spi drv lba dst512 m s = your_sd_driver_read_block spi drv lba dst512 m s"

definition ide_hook_sd_write_sector :: "'s spi \<Rightarrow> sd_drv \<Rightarrow> u32 \<Rightarrow> nat \<Rightarrow> mem \<Rightarrow> 's \<Rightarrow> bool \<times> 's" where
  "ide_hook_sd_write_sector spi drv lba src512 m s = your_sd_driver_write_block spi drv lba src512 m s"

definition ide_set_sd_sectors :: "u32 \<Rightarrow> ide_dev \<Rightarrow> ide_dev" where
  "ide_set_sd_sectors n d = d\<lparr>g_sd_sectors := n\<rparr>"

definition disk_start :: "'s spi \<Rightarrow> sd_drv \<Rightarrow> ide_dev \<Rightarrow> 's \<Rightarrow> bool \<times> sd_drv \<times> ide_dev \<times> 's" where
  "disk_start spi drv d s =
     (let (ok, drv, s) = your_sd_driver_init spi drv s in
      if \<not> ok then (False, drv, d, s)
      else (let (n, s) = sd_read_sector_count spi s in (True, drv, ide_set_sd_sectors n d, s)))"

text \<open>
  The steps of the whole disk: those of \<open>ide_step\<close>, with the two SD accesses made by the driver on the card.
  The buffer stands anywhere in memory. What \<open>ide_step\<close> keeps in \<open>sy_card\<close> is in the card here.
\<close>

inductive disk_step :: "'s spi \<Rightarrow> sd_drv \<Rightarrow> ide_sys \<times> 's \<Rightarrow> ide_label \<Rightarrow> ide_sys \<times> 's \<Rightarrow> bool" for spi drv where
  disk_other: "ide_step c l c' \<Longrightarrow> l \<notin> range FetchDone \<union> range FlushDone \<Longrightarrow> disk_step spi drv (c, s) l (c', s)"
| disk_fetch: "sy_fetch c = Some (b, lba) \<Longrightarrow> rd_bytes m p 512 = g_buf (sy_dev c) b \<Longrightarrow>
    ide_hook_sd_read_sector spi drv lba p m s = (ok, m', s') \<Longrightarrow>
    disk_step spi drv (c, s) (FetchDone ok)
      (c\<lparr>sy_dev := task_fetch_done b ok (rd_bytes m' p 512) (sy_dev c), sy_fetch := None\<rparr>, s')"
| disk_flush: "sy_flush c = Some (b, lba) \<Longrightarrow> rd_bytes m p 512 = g_buf (sy_dev c) b \<Longrightarrow>
    ide_hook_sd_write_sector spi drv lba p m s = (ok, s') \<Longrightarrow>
    disk_step spi drv (c, s) (FlushDone ok)
      (c\<lparr>sy_dev := task_flush_done b lba ok (sy_dev c), sy_flush := None\<rparr>, s')"

inductive disk_run :: "'s spi \<Rightarrow> sd_drv \<Rightarrow> ide_sys \<times> 's \<Rightarrow> ide_label list \<Rightarrow> ide_sys \<times> 's \<Rightarrow> bool" for spi drv where
  disk_nil: "disk_run spi drv x [] x"
| disk_cons: "disk_run spi drv x ls y \<Longrightarrow> disk_step spi drv y l z \<Longrightarrow> disk_run spi drv x (ls @ [l]) z"

inductive_cases disk_stepE [elim]: "disk_step spi drv x l y"

lemma hooks_ok:
  assumes "sd_card spi v2 hc csd off out" "off up st s" "drv_ok hc drv" "addressable hc lba"
  shows "ide_hook_sd_read_sector spi drv lba p m s = (ok, m', s') \<Longrightarrow> m' = (if ok then wr_bytes m p (st lba) else m) \<and> off up st s'"
    and "ide_hook_sd_write_sector spi drv lba p m s = (ok, s') \<Longrightarrow>
      \<exists>data. length data = 512 \<and> (ok \<longrightarrow> data = rd_bytes m p 512) \<and> off up (st(lba := data)) s'"
proof -
  have i: "sd_card.idle off out up st s" using assms(2) by (simp add: sd_card.idle_def [OF assms(1)])
  show "m' = (if ok then wr_bytes m p (st lba) else m) \<and> off up st s'" if "ide_hook_sd_read_sector spi drv lba p m s = (ok, m', s')"
    using sd_card.read_block_ok [OF assms(1) i assms(3,4), of p m] that by (auto simp: ide_hook_sd_read_sector_def)
  assume w: "ide_hook_sd_write_sector spi drv lba p m s = (ok, s')"
  obtain st' where st': "off up st' s'" "\<forall>i. i \<noteq> lba \<longrightarrow> st' i = st i" "ok \<longrightarrow> st' lba = rd_bytes m p 512"
    using sd_card.write_block_ok [OF assms(1) i assms(3,4), of p m] w by (auto simp: ide_hook_sd_write_sector_def)
  have "st' = st(lba := st' lba)" using st'(2) by (auto simp: fun_upd_apply)
  then have "off up (st(lba := st' lba)) s'" using st'(1) by simp
  then show "\<exists>data. length data = 512 \<and> (ok \<longrightarrow> data = rd_bytes m p 512) \<and> off up (st(lba := data)) s'"
    using sd_card.block_len [OF assms(1) st'(1), of lba] st'(3) by blast
qed

text \<open>Steps that do not end an SD access neither read nor change what the card stores.\<close>

inductive_simps ide_step_simps:
  "ide_step c (HostWriteReg raw) c'" "ide_step c (HostReadReg raw v) c'" "ide_step c (HostReadData w) c'"
  "ide_step c (HostWriteData w) c'" "ide_step c DmaB c'" "ide_step c IrqB c'" "ide_step c DmaC c'" "ide_step c IrqC c'"
  "ide_step c TakeFetch c'" "ide_step c TakeFlush c'"

lemma ide_step_card:
  "ide_step c l c' \<Longrightarrow> l \<notin> range FetchDone \<union> range FlushDone \<Longrightarrow> ide_step (c\<lparr>sy_card := st\<rparr>) l (c'\<lparr>sy_card := st\<rparr>)"
  by (cases l) (auto simp: ide_step_simps)

lemma sys_card_last:
  "c\<lparr>sy_card := st, sy_dev := d\<rparr> = c\<lparr>sy_dev := d, sy_card := st\<rparr>"
  "c\<lparr>sy_card := st, sy_fetch := f\<rparr> = c\<lparr>sy_fetch := f, sy_card := st\<rparr>"
  "c\<lparr>sy_card := st, sy_flush := f\<rparr> = c\<lparr>sy_flush := f, sy_card := st\<rparr>"
  by (cases c, simp)+

lemma disk_step_refines:
  assumes "sd_card spi v2 True csd off out" "drv_ok True drv" "off up st (snd x)" "disk_step spi drv x l y"
  shows "\<exists>st'. ide_step ((fst x)\<lparr>sy_card := st\<rparr>) l ((fst y)\<lparr>sy_card := st'\<rparr>) \<and> off up st' (snd y)"
  using assms(4)
proof cases
  case (disk_other c c' s)
  then show ?thesis using ide_step_card [of c l c' st] assms(3) by auto
next
  case (disk_fetch c b lba m p s ok m' s')
  have "addressable True lba" by (simp add: addressable_def)
  moreover have "off up st s" using assms(3) disk_fetch(1) by simp
  ultimately have h: "m' = (if ok then wr_bytes m p (st lba) else m)" "off up st s'"
    using hooks_ok(1) [OF assms(1) _ assms(2)] disk_fetch(6) by blast+
  have "length (st lba) = 512" using sd_card.block_len [OF assms(1) h(2)] .
  then have "ide_step (c\<lparr>sy_card := st\<rparr>) (FetchDone ok) ((fst y)\<lparr>sy_card := st\<rparr>)"
    using ide_step.fetch_ok [of "c\<lparr>sy_card := st\<rparr>" b lba] ide_step.fetch_fail [of "c\<lparr>sy_card := st\<rparr>" b lba "rd_bytes m p 512"]
      disk_fetch(3,4) h(1) rd_wr_bytes_same [where xs = "st lba" and m = m and p = p]
    by (cases ok) (simp_all add: disk_fetch(3) sys_card_last)
  then show ?thesis using h(2) disk_fetch by auto
next
  case (disk_flush c b lba m p s ok s')
  have "addressable True lba" by (simp add: addressable_def)
  moreover have "off up st s" using assms(3) disk_flush(1) by simp
  ultimately obtain data where h: "length data = 512" "ok \<longrightarrow> data = g_buf (sy_dev c) b" "off up (st(lba := data)) s'"
    using hooks_ok(2) [OF assms(1) _ assms(2)] disk_flush(5,6) by metis
  have "ide_step (c\<lparr>sy_card := st\<rparr>) (FlushDone ok) ((fst y)\<lparr>sy_card := st(lba := data)\<rparr>)"
    using ide_step.flush_ok [of "c\<lparr>sy_card := st\<rparr>" b lba] ide_step.flush_fail [of "c\<lparr>sy_card := st\<rparr>" b lba data] disk_flush(3,4) h
    by (cases ok) (simp_all add: sys_card_last)
  then show ?thesis using h(3) disk_flush by auto
qed

lemma disk_run_refines:
  assumes "sd_card spi v2 True csd off out" "drv_ok True drv"
  shows "disk_run spi drv x ls y \<Longrightarrow> off up st (snd x) \<Longrightarrow>
    \<exists>st'. ide_run ((fst x)\<lparr>sy_card := st\<rparr>) ls ((fst y)\<lparr>sy_card := st'\<rparr>) \<and> off up st' (snd y)"
proof (induction arbitrary: st rule: disk_run.induct)
  case (disk_nil x)
  then show ?case by (blast intro: ide_run.run_nil)
next
  case (disk_cons x ls y l z)
  from disk_cons.IH [OF disk_cons.prems] obtain st1 where
    "ide_run ((fst x)\<lparr>sy_card := st\<rparr>) ls ((fst y)\<lparr>sy_card := st1\<rparr>)" "off up st1 (snd y)" by blast
  then show ?case using disk_step_refines [OF assms _ disk_cons.hyps(2)] by (blast intro: ide_run.run_step)
qed

section \<open>Properties\<close>

definition demo_card :: sd_sim where
  "demo_card = \<lparr>sd_store = (\<lambda>_. replicate 512 7), sd_up = False, sd_sel = False, sd_queue = [], sd_cont = None, sd_in = []\<rparr>"

definition demo_drv :: sd_drv where
  "demo_drv = \<lparr>g_sd_is_sdhc = True, g_sd_ready = True\<rparr>"

lemma demo_card_off: "sim_off False (\<lambda>_. replicate 512 7) demo_card"
  "sim_off True (\<lambda>_. replicate 512 7) (demo_card\<lparr>sd_up := True\<rparr>)"
  by (simp_all add: sim_off_def demo_card_def)

lemma demo_drv_ok: "drv_ok True demo_drv"
  by (simp add: drv_ok_def demo_drv_def)

text \<open>A run of the disk on the simulated card: a sector is fetched, and the host reads its first word.\<close>

definition demo_start :: ide_sys where
  "demo_start = demo_disk\<lparr>sy_dev := taskfile_write 0x70020 (sy_dev demo_disk)\<rparr>"

definition demo_fetched :: ide_sys where
  "demo_fetched = demo_start\<lparr>sy_dev := task_fetch_done 0 True (replicate 512 7) ((sy_dev demo_start)\<lparr>g_need_fetch := False\<rparr>)\<rparr>"

lemma demo_start_fetch:
  "g_need_fetch (sy_dev demo_start)" "sy_fetch demo_start = None" "sy_flush demo_start = None"
  "g_fetch_buf (sy_dev demo_start) = 0" "length (g_buf (sy_dev demo_start) 0) = 512"
  by (simp_all add: demo_start_def demo_disk_def taskfile_command demo_commands dispatch_command_def
    begin_read_sequence_def Let_def ide_helper_defs)

lemma demo_fetched_word:
  "dma_b (sy_dev demo_fetched) = Some (0, 0)" "tx_fifo (sy_dev demo_fetched) = []" "sy_got demo_fetched = []"
  "tx_fifo (dma_b_move 0 0 (sy_dev demo_fetched)) = [0x0707]"
  by (simp_all add: demo_fetched_def demo_start_def demo_disk_def taskfile_command demo_commands dispatch_command_def
    begin_read_sequence_def Let_def ide_helper_defs task_fetch_done_def dma_b_move_def fun_upd_apply
    IDE_STATUS_DRDY_def IDE_STATUS_BSY_def IDE_STATUS_DRQ_def buf_word_def be_word_def)

lemma demo_run:
  "\<exists>c s. disk_run sim_spi demo_drv (demo_start, demo_card\<lparr>sd_up := True\<rparr>) [TakeFetch, FetchDone True, DmaB, HostReadData 0x0707]
     (c, s) \<and> sy_got c = [0x0707]"
proof -
  let ?s = "demo_card\<lparr>sd_up := True\<rparr>"
  define c1 where "c1 = demo_start\<lparr>sy_dev := (sy_dev demo_start)\<lparr>g_need_fetch := False\<rparr>,
    sy_fetch := Some (0, g_fetch_lba (sy_dev demo_start))\<rparr>"
  define d2 where "d2 = dma_b_move 0 0 (sy_dev demo_fetched)"
  have lba: "unat (g_fetch_lba (sy_dev demo_start)) < sim_cap"
    by (simp add: demo_start_def demo_disk_def taskfile_command demo_commands dispatch_command_def begin_read_sequence_def
      Let_def ide_helper_defs current_lba_from_regs_def sim_cap_def)
  have "sim.idle True (\<lambda>_. replicate 512 7) ?s" using demo_card_off(2) by (simp add: sim.idle_def)
  from sim.read_served [OF this demo_drv_ok _ lba, of 0 "wr_bytes (\<lambda>_. 0) 0 (g_buf (sy_dev demo_start) 0)"] obtain s' where
    r: "your_sd_driver_read_block sim_spi demo_drv (g_fetch_lba (sy_dev demo_start)) 0
      (wr_bytes (\<lambda>_. 0) 0 (g_buf (sy_dev demo_start) 0)) ?s =
      (True, wr_bytes (wr_bytes (\<lambda>_. 0) 0 (g_buf (sy_dev demo_start) 0)) 0 (replicate 512 7), s')"
    by (auto simp: addressable_def)
  have 1: "disk_step sim_spi demo_drv (demo_start, ?s) TakeFetch (c1, ?s)"
    using ide_step.take_fetch [of demo_start] demo_start_fetch by (auto simp: c1_def intro: disk_other)
  have "disk_step sim_spi demo_drv (c1, ?s) (FetchDone True) (c1\<lparr>sy_dev := task_fetch_done 0 True
    (rd_bytes (wr_bytes (wr_bytes (\<lambda>_. 0) 0 (g_buf (sy_dev demo_start) 0)) 0 (replicate 512 7)) 0 512) (sy_dev c1), sy_fetch := None\<rparr>, s')"
    using r demo_start_fetch
    by (intro disk_fetch [where m = "wr_bytes (\<lambda>_. 0) 0 (g_buf (sy_dev demo_start) 0)" and p = 0])
      (simp_all add: c1_def ide_hook_sd_read_sector_def rd_wr_bytes_same)
  moreover have "c1\<lparr>sy_dev := task_fetch_done 0 True (replicate 512 7) (sy_dev c1), sy_fetch := None\<rparr> = demo_fetched"
    using demo_start_fetch by (simp add: c1_def demo_fetched_def)
  ultimately have 2: "disk_step sim_spi demo_drv (c1, ?s) (FetchDone True) (demo_fetched, s')"
    by (simp add: rd_wr_bytes_same)
  have 3: "disk_step sim_spi demo_drv (demo_fetched, s') DmaB (demo_fetched\<lparr>sy_dev := d2\<rparr>, s')"
    using ide_step.dma_b_word [of demo_fetched] demo_fetched_word by (auto simp: d2_def intro: disk_other)
  have 4: "disk_step sim_spi demo_drv (demo_fetched\<lparr>sy_dev := d2\<rparr>, s') (HostReadData 0x0707)
    (demo_fetched\<lparr>sy_dev := d2\<lparr>tx_fifo := []\<rparr>, sy_got := [0x0707]\<rparr>, s')"
    using ide_step.host_read_data [of "demo_fetched\<lparr>sy_dev := d2\<rparr>" "0x0707" "[]"] demo_fetched_word
    by (auto simp: d2_def intro: disk_other)
  show ?thesis
    using disk_cons [OF disk_cons [OF disk_cons [OF disk_cons [OF disk_nil 1] 2] 3] 4] by auto
qed

text \<open>C8: On a card of high capacity, which is addressed by blocks (the byte addresses of smaller cards are not
  covered), every sequence of steps of the whole disk - host, state machines, DMA, interrupts, and the driver on the
  SPI bus, whatever the card refuses or fails - is one of the model of the disk, with the stored blocks of the card
  for its contents.\<close>

theorem disk_refines_ide:
  assumes "sd_card spi v2 True csd off out" "drv_ok True drv"
    and "off up st s" "disk_run spi drv (c, s) ls (c', s')"
  shows "\<exists>st'. ide_run (c\<lparr>sy_card := st\<rparr>) ls (c'\<lparr>sy_card := st'\<rparr>) \<and> off up st' s'"
  using disk_run_refines [OF assms(1,2,4), of up st] assms(3) by simp

theorem disk_refines_witness:
  "\<exists>c s st. ide_run (demo_start\<lparr>sy_card := (\<lambda>_. replicate 512 7)\<rparr>) [TakeFetch, FetchDone True, DmaB, HostReadData 0x0707]
     (c\<lparr>sy_card := st\<rparr>) \<and> sy_got c = [0x0707] \<and> sim_off True st s"
proof -
  obtain c s where r: "disk_run sim_spi demo_drv (demo_start, demo_card\<lparr>sd_up := True\<rparr>)
      [TakeFetch, FetchDone True, DmaB, HostReadData 0x0707] (c, s)" "sy_got c = [0x0707]"
    using demo_run by blast
  show ?thesis using disk_refines_ide [OF sim.sd_card_axioms demo_drv_ok demo_card_off(2) r(1)] r(2) by blast
qed

text \<open>A host that reads sectors gets the blocks of the SD card: after a READ SECTORS command to an idle disk, and
  whatever the order of host accesses, DMA, interrupts and SD transfers, the words read are a prefix of
  the requested blocks of the card, and all of them once the status is ready again.\<close>

theorem disk_reads_card:
  assumes "sd_card spi v2 True csd off out" "drv_ok True drv" "off up st s"
    and "ide_idle c" "sy_got c = []" "decode_taskfile_write raw = (7, 0x20)"
    and "disk_run spi drv (c\<lparr>sy_dev := taskfile_write raw (sy_dev c)\<rparr>, s) ls (c', s')" "list_all host_reads ls"
    and "stream = read_stream st (current_lba_from_regs (sy_dev c)) (unat (sector_count_from_reg (sy_dev c)))"
  shows "prefix (sy_got c') stream \<and>
    (g_reg_status (sy_dev c') = IDE_STATUS_DRDY \<longrightarrow> sy_got c' @ tx_fifo (sy_dev c') = stream)"
proof -
  let ?c = "c\<lparr>sy_card := st\<rparr>"
  from disk_run_refines [OF assms(1,2,7), of up st] assms(3) obtain st' where
    "ide_run (c\<lparr>sy_dev := taskfile_write raw (sy_dev c), sy_card := st\<rparr>) ls (c'\<lparr>sy_card := st'\<rparr>)" by auto
  then have run: "ide_run (?c\<lparr>sy_dev := taskfile_write raw (sy_dev ?c)\<rparr>) ls (c'\<lparr>sy_card := st'\<rparr>)" by (simp add: sys_card_last)
  have "ide_idle ?c" "sy_got ?c = []" using assms(4,5) by (simp_all add: ide_idle_def)
  from read_inv_begin [OF this] have inv: "read_inv st (current_lba_from_regs (sy_dev c))
      (unat (sector_count_from_reg (sy_dev c))) (c'\<lparr>sy_card := st'\<rparr>)"
    using run assms(8) taskfile_command [OF assms(6)] by (auto intro: read_inv_run)
  show ?thesis
    using read_inv_prefix [OF inv] read_inv_idle [OF inv] assms(9)
    by (auto simp: words_out_def IDE_STATUS_DRDY_def dest: append_prefixD)
qed

theorem disk_reads_witness:
  "\<exists>c s. disk_run sim_spi demo_drv (demo_start, demo_card\<lparr>sd_up := True\<rparr>) [TakeFetch, FetchDone True, DmaB, HostReadData 0x0707] (c, s) \<and>
     sy_got c = [0x0707] \<and> prefix (sy_got c) (read_stream (\<lambda>_. replicate 512 7) (current_lba_from_regs (sy_dev demo_disk)) 2)"
proof -
  obtain c s where r: "disk_run sim_spi demo_drv (demo_start, demo_card\<lparr>sd_up := True\<rparr>)
      [TakeFetch, FetchDone True, DmaB, HostReadData 0x0707] (c, s)" "sy_got c = [0x0707]"
    using demo_run by blast
  have "list_all host_reads [TakeFetch, FetchDone True, DmaB, HostReadData 0x0707]" by (simp add: host_reads_def)
  from disk_reads_card [OF sim.sd_card_axioms demo_drv_ok demo_card_off(2) demo_disk_idle(1,2) demo_commands(1)
      r(1) [unfolded demo_start_def] this refl]
  have "prefix (sy_got c) (read_stream (\<lambda>_. replicate 512 7) (current_lba_from_regs (sy_dev demo_disk))
    (unat (sector_count_from_reg (sy_dev demo_disk))))" by blast
  moreover have "unat (sector_count_from_reg (sy_dev demo_disk)) = 2" by (simp add: sector_count_from_reg_def demo_disk_def)
  ultimately show ?thesis using r by auto
qed

text \<open>C9: a block written to a card that serves its blocks is read back, by this or any later call of the
  driver's read function with no other access between, and no other block changes.\<close>

theorem sd_write_read_block:
  assumes "sd_good spi v2 hc csd off out cap" "off True st s" "drv_ok hc drv" "addressable hc lba" "unat lba < cap"
  shows "\<exists>s' s''. your_sd_driver_write_block spi drv lba p m s = (True, s') \<and>
    your_sd_driver_read_block spi drv lba q m' s' = (True, wr_bytes m' q (rd_bytes m p 512), s'') \<and>
    off True (st(lba := rd_bytes m p 512)) s''"
  using sd_good.write_read [OF assms] .

theorem sd_write_read_witness:
  "\<exists>s' s''. your_sd_driver_write_block sim_spi demo_drv 5 0 (\<lambda>a. of_nat a) (demo_card\<lparr>sd_up := True\<rparr>) = (True, s') \<and>
     your_sd_driver_read_block sim_spi demo_drv 5 0x1000 (\<lambda>_. 0) s' =
       (True, wr_bytes (\<lambda>_. 0) 0x1000 (rd_bytes (\<lambda>a. of_nat a) 0 512), s'')"
proof -
  have "addressable True 5" "unat (5 :: u32) < sim_cap" by (simp_all add: addressable_def sim_cap_def)
  from sd_write_read_block [OF sim.sd_good_axioms demo_card_off(2) demo_drv_ok this, of 0 "\<lambda>a. of_nat a" "0x1000" "\<lambda>_. 0"]
  show ?thesis by blast
qed

text \<open>C25: the start of the disk on any card either fails, and leaves the disk without a capacity, or leaves a driver
  that addresses the card as it wants to be; the capacity it then announces is the one in the card's
  register (below 2 TB), or 0 when the register could not be read.\<close>

theorem disk_start_correct:
  assumes "sd_card spi v2 hc csd off out" "off up st s" "disk_start spi drv d s = (ok, drv', d', s')"
    and "csd_capacity csd < 2 ^ 41"
  shows "\<exists>up'. off up' st s' \<and> (up' \<or> \<not> ok) \<and>
    (if ok then drv_ok hc drv' \<and> (\<exists>n. d' = d\<lparr>g_sd_sectors := n\<rparr> \<and> unat n \<in> {0, csd_capacity csd div 512})
     else \<not> g_sd_ready drv' \<and> d' = d)"
proof -
  obtain ok1 drv1 up1 s1 where i: "your_sd_driver_init spi drv s = (ok1, drv1, s1)" "off up1 st s1"
    "if ok1 then drv_ok hc drv1 \<and> up1 else \<not> g_sd_ready drv1"
    using sd_card.init_ok [OF assms(1,2), of drv] by blast
  have "sd_card.idle off out up1 st s1" using i(2) by (simp add: sd_card.idle_def [OF assms(1)])
  from sd_card.sector_count_ok [OF assms(1) this] obtain n s2 where
    n: "sd_read_sector_count spi s1 = (n, s2)" "off up1 st s2" "n \<noteq> 0 \<longrightarrow> n = csd_to_sectors csd" by blast
  have "unat n \<in> {0, csd_capacity csd div 512}" using n(3) csd_to_sectors_correct [OF assms(4)] by (cases "n = 0") auto
  then show ?thesis using assms(3) i n by (auto simp: disk_start_def ide_set_sd_sectors_def split: if_splits)
qed

theorem disk_start_witness:
  "csd_capacity sim_csd = 7710720 * 512 \<and>
   (\<exists>ok drv d s. disk_start sim_spi demo_drv (sy_dev demo_disk) demo_card = (ok, drv, d, s) \<and>
     (ok \<longrightarrow> drv_ok True drv \<and> unat (g_sd_sectors d) \<in> {0, 7710720}))"
proof -
  have cap: "csd_capacity sim_csd = 7710720 * 512" by (simp add: csd_capacity_def csd_version_def sim_csd_def)
  obtain ok drv d s where r: "disk_start sim_spi demo_drv (sy_dev demo_disk) demo_card = (ok, drv, d, s)" by (metis prod_cases4)
  have "csd_capacity sim_csd < 2 ^ 41" unfolding cap by simp
  from disk_start_correct [OF sim.sd_card_axioms demo_card_off(1) r this] show ?thesis using cap r
    by (auto split: if_splits)
qed

text \<open>On a card that comes up and serves its register the start succeeds, with the capacity of the card.\<close>

theorem disk_starts:
  assumes "sd_prompt spi v2 hc csd off out cap" "off up st s" "csd_capacity csd < 2 ^ 41"
  shows "\<exists>drv' s'. disk_start spi drv d s = (True, drv', d\<lparr>g_sd_sectors := of_nat (csd_capacity csd div 512)\<rparr>, s') \<and>
    drv_ok hc drv' \<and> off True st s'"
proof -
  obtain drv1 s1 where i: "your_sd_driver_init spi drv s = (True, drv1, s1)" "off True st s1" "drv_ok hc drv1"
    using sd_prompt.init_served [OF assms(1,2), of drv] by blast
  obtain s2 where n: "sd_read_sector_count spi s1 = (csd_to_sectors csd, s2)" "off True st s2"
    using sd_prompt.sector_count_served [OF assms(1) i(2)] by blast
  have "csd_to_sectors csd = of_nat (csd_capacity csd div 512)"
    using csd_to_sectors_correct [OF assms(3)] by (simp flip: csd_to_sectors_correct [OF assms(3)])
  then show ?thesis using i n by (simp add: disk_start_def ide_set_sd_sectors_def)
qed

theorem disk_starts_witness:
  "\<exists>drv s. disk_start sim_spi \<lparr>g_sd_is_sdhc = False, g_sd_ready = False\<rparr> (sy_dev demo_disk) demo_card =
     (True, drv, (sy_dev demo_disk)\<lparr>g_sd_sectors := 7710720\<rparr>, s) \<and> drv_ok True drv"
proof -
  have cap: "csd_capacity sim_csd = 7710720 * 512" by (simp add: csd_capacity_def csd_version_def sim_csd_def)
  then have "csd_capacity sim_csd < 2 ^ 41" by simp
  from disk_starts [OF sim.sd_prompt_axioms demo_card_off(1) this, of "\<lparr>g_sd_is_sdhc = False, g_sd_ready = False\<rparr>" "sy_dev demo_disk"]
  show ?thesis using cap by auto
qed

text \<open>Two limits of the code: on the largest card of version 2, of 2 TB, the number of sectors wraps to 0, and the
  disk then refuses to identify itself; and on a card of standard capacity the block addresses wrap, so
  that a host that reads behind the end gets blocks from the start instead of an error.\<close>

lemma csd_largest_wraps: "csd_to_sectors ([0x40, 0, 0, 0, 0, 0, 0, 0x3F, 0xFF, 0xFF] @ replicate 6 0) = 0"
  by (simp add: csd_to_sectors_def)

lemma block_address_wraps: "\<not> g_sd_is_sdhc drv \<Longrightarrow> block_address drv (lba + 2 ^ 23) = block_address drv lba"
  by (simp add: block_address_def distrib_right)

end
