(* ===== verification/Ide_Cf.thy ===== *)
theory Ide_Cf
  imports Orion_Prelude "HOL-Library.Monad_Syntax"
begin

text \<open>
  \<open>drivers/ide/ata.c\<close> and \<open>drivers/ide/diskio.c\<close>: the CompactFlash driver of the BIOS and the glue that
  FatFs calls. The card is hardware: \<open>cf_env\<close> gives its answer to a read, an arbitrary function of
  everything that happened on the bus before. \<open>cf_hist\<close> is that history. A wait loop that never ends is
  \<open>None\<close>. \<open>ATA_DELAY\<close> has no effect on the state, and the messages are left out; the read of the error
  register that a message makes is kept. Registers are numbered 0 to 7 from the data register up
  (address \<open>ATA_REG_BASE + 2 * n + 1\<close>). The word access of the 16-bit mode goes to that odd address too,
  where a 68000 takes an address error; here it is given the card's answer.
\<close>

section \<open>The machine\<close>

datatype cf_io = Rd nat u8 | Rd16 u16 | Wr nat u8 | Tick u32

record partition =
  pt_base :: u32
  pt_size :: u32
  pt_fstype :: u8
  pt_flags :: u8

record cf_sys =
  cf_mem :: mem
  ide_bus_mode :: int
  cf_hist :: "cf_io list"
  cf_masked :: bool
  drive_parts :: "partition list"

record cf_env =
  env_reg :: "cf_io list \<Rightarrow> nat \<Rightarrow> u8"
  env_data :: "cf_io list \<Rightarrow> u16"
  env_tick :: "cf_io list \<Rightarrow> u32"

definition rd_reg :: "cf_env \<Rightarrow> nat \<Rightarrow> cf_sys \<Rightarrow> u8 \<times> cf_sys" where
  "rd_reg env a s = (let v = env_reg env (cf_hist s) a in (v, s\<lparr>cf_hist := cf_hist s @ [Rd a v]\<rparr>))"

definition rd_data16 :: "cf_env \<Rightarrow> cf_sys \<Rightarrow> u16 \<times> cf_sys" where
  "rd_data16 env s = (let v = env_data env (cf_hist s) in (v, s\<lparr>cf_hist := cf_hist s @ [Rd16 v]\<rparr>))"

definition wr_reg :: "nat \<Rightarrow> u8 \<Rightarrow> cf_sys \<Rightarrow> cf_sys" where
  "wr_reg a v s = s\<lparr>cf_hist := cf_hist s @ [Wr a v]\<rparr>"

definition cf_tick :: "cf_env \<Rightarrow> cf_sys \<Rightarrow> u32 \<times> cf_sys" where
  "cf_tick env s = (let t = env_tick env (cf_hist s) in (t, s\<lparr>cf_hist := cf_hist s @ [Tick t]\<rparr>))"

section \<open>\<open>drivers/ide/ata.c\<close>\<close>

definition R_DATA :: nat where "R_DATA = 0"
definition R_FEATURE :: nat where "R_FEATURE = 1"
definition R_SECTOR_COUNT :: nat where "R_SECTOR_COUNT = 2"
definition R_SECTOR_NUM :: nat where "R_SECTOR_NUM = 3"
definition R_CYL_LOW :: nat where "R_CYL_LOW = 4"
definition R_CYL_HIGH :: nat where "R_CYL_HIGH = 5"
definition R_DRIVE_HEAD :: nat where "R_DRIVE_HEAD = 6"
definition R_STATUS :: nat where "R_STATUS = 7"

lemmas cf_regs = R_DATA_def R_FEATURE_def R_SECTOR_COUNT_def R_SECTOR_NUM_def R_CYL_LOW_def R_CYL_HIGH_def
  R_DRIVE_HEAD_def R_STATUS_def

definition CF_READ_SECTORS :: u8 where "CF_READ_SECTORS = 0x20"
definition CF_WRITE_SECTORS :: u8 where "CF_WRITE_SECTORS = 0x30"
definition CF_IDENTIFY :: u8 where "CF_IDENTIFY = 0xEC"
definition CF_SET_FEATURE :: u8 where "CF_SET_FEATURE = 0xEF"
definition ATA_ST_BUSY :: u8 where "ATA_ST_BUSY = 0x80"
definition ATA_ST_DATA_READY :: u8 where "ATA_ST_DATA_READY = 0x08"
definition ATA_ST_ERROR :: u8 where "ATA_ST_ERROR = 0x01"

lemmas cf_cmds = CF_READ_SECTORS_def CF_WRITE_SECTORS_def CF_IDENTIFY_def CF_SET_FEATURE_def
lemmas cf_bits = ATA_ST_BUSY_def ATA_ST_DATA_READY_def ATA_ST_ERROR_def

partial_function (option) ATA_WAIT :: "cf_env \<Rightarrow> cf_sys \<Rightarrow> cf_sys option" where
  "ATA_WAIT env s =
     (let (v, s') = rd_reg env R_STATUS s in
      if v AND ATA_ST_BUSY \<noteq> 0 then ATA_WAIT env s' else Some s')"

declare ATA_WAIT.simps [code]

partial_function (option) ATA_WAIT_FOR_DATA :: "cf_env \<Rightarrow> cf_sys \<Rightarrow> cf_sys option" where
  "ATA_WAIT_FOR_DATA env s =
     (let (v, s') = rd_reg env R_STATUS s in
      if v AND ATA_ST_DATA_READY = 0 then ATA_WAIT_FOR_DATA env s' else Some s')"

declare ATA_WAIT_FOR_DATA.simps [code]

definition LOCK :: "cf_sys \<Rightarrow> cf_sys" where "LOCK s = s\<lparr>cf_masked := True\<rparr>"
definition UNLOCK :: "cf_sys \<Rightarrow> cf_sys" where "UNLOCK s = s\<lparr>cf_masked := False\<rparr>"

definition set_ide_bus_mode :: "int \<Rightarrow> cf_sys \<Rightarrow> cf_sys" where
  "set_ide_bus_mode mode s = (if mode > 1 \<or> mode < 0 then s else s\<lparr>ide_bus_mode := mode\<rparr>)"

definition go_8bits_mode :: "cf_env \<Rightarrow> cf_sys \<Rightarrow> cf_sys option" where
  "go_8bits_mode env s =
     do {
       s \<leftarrow> (if ide_bus_mode s = 0 then ATA_WAIT env (wr_reg R_STATUS CF_SET_FEATURE (wr_reg R_FEATURE 0x01 s)) else Some s);
       if ide_bus_mode s = 1 then ATA_WAIT env (wr_reg R_STATUS CF_SET_FEATURE (wr_reg R_FEATURE 0x81 s)) else Some s
     }"

text \<open>\<open>get_tick_count() - start\<close> is unsigned, so the comparison is right when the counter wraps around.\<close>

partial_function (option) busy_clear_loop :: "cf_env \<Rightarrow> u32 \<Rightarrow> u32 \<Rightarrow> cf_sys \<Rightarrow> (bool \<times> cf_sys) option" where
  "busy_clear_loop env start timeout_ms s =
     (let (status, s1) = rd_reg env R_STATUS s in
      if status AND ATA_ST_BUSY = 0 then Some (True, s1)
      else (let (t, s2) = cf_tick env s1 in
            if t - start < timeout_ms div 10 then busy_clear_loop env start timeout_ms s2 else Some (False, s2)))"

declare busy_clear_loop.simps [code]

definition ata_wait_busy_clear_timed :: "cf_env \<Rightarrow> u32 \<Rightarrow> cf_sys \<Rightarrow> (bool \<times> cf_sys) option" where
  "ata_wait_busy_clear_timed env timeout_ms s =
     (let (start, s1) = cf_tick env s in busy_clear_loop env start timeout_ms s1)"

text \<open>Two registers written and read back; \<open>||\<close> does not read the second when the first differs.\<close>

definition cf_signature :: "cf_env \<Rightarrow> u8 \<Rightarrow> u8 \<Rightarrow> cf_sys \<Rightarrow> bool \<times> cf_sys" where
  "cf_signature env a b s =
     (let s = wr_reg R_SECTOR_NUM b (wr_reg R_SECTOR_COUNT a s);
          (v, s) = rd_reg env R_SECTOR_COUNT s
      in if v \<noteq> a then (False, s)
         else (let (w, s) = rd_reg env R_SECTOR_NUM s in (w = b, s)))"

definition has_master_disk3 :: "cf_env \<Rightarrow> cf_sys \<Rightarrow> bool \<times> cf_sys" where
  "has_master_disk3 env s =
     (let s = wr_reg R_DRIVE_HEAD 0xA0 s;
          (ok, s) = cf_signature env 0x55 0xAA s
      in if \<not> ok then (False, s)
         else
           (let (ok, s) = cf_signature env 0xAA 0x55 s in
            if \<not> ok then (False, s)
            else (let (status, s) = rd_reg env R_STATUS s in (status \<noteq> 0xFF, s))))"

text \<open>The first tests of \<open>has_master_disk4\<close> are those of \<open>has_master_disk3\<close>.\<close>

definition has_master_disk4 :: "cf_env \<Rightarrow> cf_sys \<Rightarrow> (bool \<times> cf_sys) option" where
  "has_master_disk4 env s =
     (let (ok, s) = has_master_disk3 env s in
      if \<not> ok then Some (False, s) else ata_wait_busy_clear_timed env 1000 s)"

definition has_master_disk :: "cf_env \<Rightarrow> cf_sys \<Rightarrow> bool \<times> cf_sys" where
  "has_master_disk env s =
     (let (v, s) = rd_reg env R_SECTOR_COUNT (wr_reg R_SECTOR_COUNT 0x55 s) in
      if v \<noteq> 0x55 then (False, s)
      else
        (let (v, s) = rd_reg env R_SECTOR_COUNT (wr_reg R_SECTOR_COUNT 0xAA s) in
         if v \<noteq> 0xAA then (False, s) else (True, s)))"

definition has_master_disk2 :: "cf_env \<Rightarrow> cf_sys \<Rightarrow> bool \<times> cf_sys" where
  "has_master_disk2 env s =
     (let (v, s) = rd_reg env R_SECTOR_COUNT (wr_reg R_SECTOR_COUNT 0xAA (wr_reg R_SECTOR_COUNT 0x55 s)) in
      if v \<noteq> 0xAA then (False, s)
      else (let (status, s) = rd_reg env R_STATUS s in (status \<noteq> 0xFF, s)))"

fun detect_loop :: "cf_env \<Rightarrow> nat \<Rightarrow> cf_sys \<Rightarrow> bool \<times> cf_sys" where
  "detect_loop env 0 s = (False, s)"
| "detect_loop env (Suc n) s =
     (let (status, s') = rd_reg env R_STATUS s in
      if status AND ATA_ST_BUSY = 0 then (status AND ATA_ST_DATA_READY \<noteq> 0, s') else detect_loop env n s')"

definition ata_detect :: "cf_env \<Rightarrow> cf_sys \<Rightarrow> bool \<times> cf_sys" where
  "ata_detect env s =
     (let (ok, s) = has_master_disk env s in
      if \<not> ok then (False, s) else detect_loop env 1000 (wr_reg R_STATUS CF_IDENTIFY s))"

fun read_data_bytes :: "cf_env \<Rightarrow> nat \<Rightarrow> nat \<Rightarrow> cf_sys \<Rightarrow> cf_sys option" where
  "read_data_bytes env 0 p s = Some s"
| "read_data_bytes env (Suc n) p s =
     (let (v, s) = rd_reg env R_DATA s in
      do { s \<leftarrow> ATA_WAIT env (s\<lparr>cf_mem := (cf_mem s)(p := v)\<rparr>); read_data_bytes env n (p + 1) s })"

text \<open>A word is stored and then rotated by eight bits in memory, so its low byte comes first.\<close>

fun read_data_words :: "cf_env \<Rightarrow> nat \<Rightarrow> nat \<Rightarrow> cf_sys \<Rightarrow> cf_sys option" where
  "read_data_words env 0 p s = Some s"
| "read_data_words env (Suc n) p s =
     (let (v, s) = rd_data16 env s in
      do { s \<leftarrow> ATA_WAIT env (s\<lparr>cf_mem := (cf_mem s)(p := ucast v, p + 1 := ucast (drop_bit 8 v))\<rparr>);
           read_data_words env n (p + 2) s })"

definition head_of :: "u32 \<Rightarrow> u8" where
  "head_of sector = 0xE0 OR ucast (drop_bit 24 sector AND 0x0F)"

definition cf_issue :: "u32 \<Rightarrow> u8 \<Rightarrow> cf_sys \<Rightarrow> cf_sys" where
  "cf_issue sector cmd s =
     (let s = wr_reg R_CYL_HIGH (ucast (drop_bit 16 sector)) s;
          s = wr_reg R_CYL_LOW (ucast (drop_bit 8 sector)) s;
          s = wr_reg R_SECTOR_NUM (ucast sector) s;
          s = wr_reg R_SECTOR_COUNT 1 s
      in wr_reg R_STATUS cmd s)"

definition ata_read_sector :: "cf_env \<Rightarrow> u32 \<Rightarrow> nat \<Rightarrow> cf_sys \<Rightarrow> (nat \<times> cf_sys) option" where
  "ata_read_sector env sector buffer s =
     do {
       s \<leftarrow> go_8bits_mode env (wr_reg R_DRIVE_HEAD (head_of sector) (LOCK s));
       s \<leftarrow> ATA_WAIT env (cf_issue sector CF_READ_SECTORS s);
       let (status, s) = rd_reg env R_STATUS s;
       if status AND 0x01 \<noteq> 0 then Some (0, UNLOCK (snd (rd_reg env R_FEATURE s)))
       else do {
         s \<leftarrow> ATA_WAIT env s;
         s \<leftarrow> ATA_WAIT_FOR_DATA env s;
         s \<leftarrow> (if ide_bus_mode s = 0 then read_data_bytes env 512 buffer s else read_data_words env 256 buffer s);
         Some (512, UNLOCK s)
       }
     }"

fun write_data_bytes :: "cf_env \<Rightarrow> nat \<Rightarrow> nat \<Rightarrow> cf_sys \<Rightarrow> cf_sys option" where
  "write_data_bytes env 0 p s = Some s"
| "write_data_bytes env (Suc n) p s =
     do { s \<leftarrow> ATA_WAIT env s; write_data_bytes env n (p + 1) (wr_reg R_DATA (cf_mem s p) s) }"

definition ata_write_sector :: "cf_env \<Rightarrow> u32 \<Rightarrow> nat \<Rightarrow> cf_sys \<Rightarrow> (nat \<times> cf_sys) option" where
  "ata_write_sector env sector buffer s =
     do {
       s \<leftarrow> go_8bits_mode env (LOCK s);
       s \<leftarrow> ATA_WAIT env (cf_issue sector CF_WRITE_SECTORS (wr_reg R_DRIVE_HEAD (head_of sector) s));
       let (status, s) = rd_reg env R_STATUS s;
       if status AND 0x01 \<noteq> 0 then Some (0, UNLOCK (snd (rd_reg env R_FEATURE s)))
       else do {
         s \<leftarrow> ATA_WAIT env s;
         s \<leftarrow> ATA_WAIT_FOR_DATA env s;
         s \<leftarrow> write_data_bytes env 512 buffer s;
         s \<leftarrow> ATA_WAIT env s;
         let (status, s) = rd_reg env R_STATUS s;
         let s = (if status AND ATA_ST_ERROR \<noteq> 0 then snd (rd_reg env R_FEATURE s) else s);
         Some (512, UNLOCK s)
       }
     }"

text \<open>The partition table: four entries of 16 bytes from offset \<open>0x1BE\<close>; \<open>le32toh\<close> of a big-endian machine.\<close>

definition le32_at :: "mem \<Rightarrow> nat \<Rightarrow> u32" where
  "le32_at m p = push_bit 24 (ucast (m (p + 3))) OR push_bit 16 (ucast (m (p + 2))) OR
     push_bit 8 (ucast (m (p + 1))) OR ucast (m p)"

definition partition_at :: "mem \<Rightarrow> nat \<Rightarrow> partition" where
  "partition_at m t = \<lparr>pt_base = le32_at m (t + 8), pt_size = le32_at m (t + 12), pt_fstype = m (t + 4), pt_flags = m t\<rparr>"

definition read_partition_table :: "nat \<Rightarrow> cf_sys \<Rightarrow> cf_sys" where
  "read_partition_table buffer s =
     s\<lparr>drive_parts := map (\<lambda>i. partition_at (cf_mem s) (buffer + 0x1BE + 16 * i)) [0..<4]\<rparr>"

definition MBR_BUFFER :: nat where "MBR_BUFFER = 0xA2000"

definition ata_init :: "cf_env \<Rightarrow> cf_sys \<Rightarrow> (nat \<times> cf_sys) option" where
  "ata_init env s =
     (let s = s\<lparr>drive_parts := map (\<lambda>q. q\<lparr>pt_base := 0\<rparr>) (drive_parts s)\<rparr>;
          (found, s) = ata_detect env s
      in if \<not> found then Some (0, s)
         else do { (_, s) \<leftarrow> ata_read_sector env 0 MBR_BUFFER s; Some (1, read_partition_table MBR_BUFFER s) })"

definition ata_disk_status :: "cf_env \<Rightarrow> cf_sys \<Rightarrow> nat \<times> cf_sys" where
  "ata_disk_status env s = (let (found, s) = ata_detect env s in (if found then 0 else 1, s))"

definition ata_disk_initialize :: "cf_env \<Rightarrow> cf_sys \<Rightarrow> (nat \<times> cf_sys) option" where
  "ata_disk_initialize env s = do { (r, s) \<leftarrow> ata_init env s; Some (if r \<noteq> 0 then 0 else 1, s) }"

text \<open>\<open>do .. while (timeout--)\<close> polls once more than \<open>ATA_TIMEOUT\<close>; both functions test the same bit.\<close>

fun not_busy_loop :: "cf_env \<Rightarrow> nat \<Rightarrow> cf_sys \<Rightarrow> nat \<times> cf_sys" where
  "not_busy_loop env n s =
     (let (status, s') = rd_reg env R_STATUS s in
      if status AND ATA_ST_BUSY = 0 then (0, s')
      else case n of 0 \<Rightarrow> (1, s') | Suc k \<Rightarrow> not_busy_loop env k s')"

definition ATA_TIMEOUT :: nat where "ATA_TIMEOUT = 100000"

definition ata_wait_not_busy :: "cf_env \<Rightarrow> cf_sys \<Rightarrow> nat \<times> cf_sys" where
  "ata_wait_not_busy env s = not_busy_loop env ATA_TIMEOUT s"

definition ata_wait_for_data :: "cf_env \<Rightarrow> cf_sys \<Rightarrow> nat \<times> cf_sys" where
  "ata_wait_for_data env s = not_busy_loop env ATA_TIMEOUT s"

fun identity_bytes :: "cf_env \<Rightarrow> nat \<Rightarrow> cf_sys \<Rightarrow> (u8 list \<times> cf_sys) option" where
  "identity_bytes env 0 s = Some ([], s)"
| "identity_bytes env (Suc n) s =
     (let (v, s) = rd_reg env R_DATA s in
      do { s \<leftarrow> ATA_WAIT env s; (vs, s) \<leftarrow> identity_bytes env n s; Some (v # vs, s) })"

fun swap_pairs :: "u8 list \<Rightarrow> u8 list" where
  "swap_pairs (a # b # xs) = b # a # swap_pairs xs"
| "swap_pairs xs = xs"

text \<open>The identity data stay in a local array; they are returned here to be visible.\<close>

definition ata_read_identity :: "cf_env \<Rightarrow> cf_sys \<Rightarrow> (nat \<times> u8 list \<times> cf_sys) option" where
  "ata_read_identity env s =
     (let (r, s) = ata_wait_not_busy env s in
      if r \<noteq> 0 then Some (1, [], s)
      else
        (let (r, s) = ata_wait_for_data env (wr_reg R_STATUS CF_IDENTIFY (wr_reg R_SECTOR_COUNT 1 s)) in
         if r \<noteq> 0 then Some (1, [], s)
         else
           (let (status, s) = rd_reg env R_STATUS s in
            if status AND ATA_ST_ERROR \<noteq> 0 then Some (1, [], s)
            else
              (let (r, s) = ata_wait_not_busy env s in
               if r \<noteq> 0 then Some (1, [], s)
               else do { (vs, s) \<leftarrow> identity_bytes env 512 s; Some (0, swap_pairs vs, s) }))))"

section \<open>\<open>drivers/ide/diskio.c\<close>\<close>

datatype DRESULT = RES_OK | RES_ERROR | RES_WRPRT | RES_NOTRDY | RES_PARERR

record STAT =
  st_sz_sector :: u16
  st_n_sectors :: u32

definition SZ_BLOCK :: u32 where "SZ_BLOCK = 128"

definition disk_status :: "cf_env \<Rightarrow> u8 \<Rightarrow> cf_sys \<Rightarrow> nat \<times> cf_sys" where
  "disk_status env pdrv s = ata_disk_status env s"

definition disk_initialize :: "cf_env \<Rightarrow> u8 \<Rightarrow> cf_sys \<Rightarrow> (nat \<times> cf_sys) option" where
  "disk_initialize env pdrv s = ata_disk_initialize env s"

fun disk_read_loop :: "cf_env \<Rightarrow> nat \<Rightarrow> u32 \<Rightarrow> nat \<Rightarrow> cf_sys \<Rightarrow> (DRESULT \<times> cf_sys) option" where
  "disk_read_loop env 0 sector buff s = Some (RES_OK, s)"
| "disk_read_loop env (Suc n) sector buff s =
     do {
       (r, s) \<leftarrow> ata_read_sector env sector buff s;
       if r = 0 then Some (RES_ERROR, s) else disk_read_loop env n (sector + 1) (buff + 512) s
     }"

definition disk_read :: "cf_env \<Rightarrow> u8 \<Rightarrow> nat \<Rightarrow> u32 \<Rightarrow> u32 \<Rightarrow> cf_sys \<Rightarrow> (DRESULT \<times> cf_sys) option" where
  "disk_read env pdrv buff sector cnt s =
     (if pdrv \<noteq> 0 then Some (RES_PARERR, s)
      else disk_read_loop env (unat cnt) (pt_base (drive_parts s ! 0) + sector) buff s)"

fun disk_write_loop :: "cf_env \<Rightarrow> nat \<Rightarrow> u32 \<Rightarrow> nat \<Rightarrow> cf_sys \<Rightarrow> (DRESULT \<times> cf_sys) option" where
  "disk_write_loop env 0 sector buff s = Some (RES_OK, s)"
| "disk_write_loop env (Suc n) sector buff s =
     do {
       (r, s) \<leftarrow> ata_write_sector env sector buff s;
       if r = 0 then Some (RES_ERROR, s) else disk_write_loop env n (sector + 1) (buff + 512) s
     }"

definition disk_write :: "cf_env \<Rightarrow> u8 \<Rightarrow> nat \<Rightarrow> u32 \<Rightarrow> u32 \<Rightarrow> cf_sys \<Rightarrow> (DRESULT \<times> cf_sys) option" where
  "disk_write env pdrv buff sector cnt s =
     (if pdrv \<noteq> 0 then Some (RES_PARERR, s)
      else disk_write_loop env (unat cnt) (pt_base (drive_parts s ! 0) + sector) buff s)"

definition CTRL_SYNC :: u8 where "CTRL_SYNC = 0"
definition GET_SECTOR_COUNT :: u8 where "GET_SECTOR_COUNT = 1"
definition GET_SECTOR_SIZE :: u8 where "GET_SECTOR_SIZE = 2"
definition GET_BLOCK_SIZE :: u8 where "GET_BLOCK_SIZE = 3"

definition be16_bytes :: "u16 \<Rightarrow> u8 list" where
  "be16_bytes w = [ucast (drop_bit 8 w), ucast w]"

definition be32_bytes :: "u32 \<Rightarrow> u8 list" where
  "be32_bytes w = [ucast (drop_bit 24 w), ucast (drop_bit 16 w), ucast (drop_bit 8 w), ucast w]"

definition disk_ioctl :: "STAT list \<Rightarrow> u8 \<Rightarrow> u8 \<Rightarrow> nat \<Rightarrow> cf_sys \<Rightarrow> DRESULT \<times> cf_sys" where
  "disk_ioctl stat pdrv cmd buff s =
     (if pdrv \<noteq> 0 then (RES_PARERR, s)
      else if cmd = CTRL_SYNC then (RES_OK, s)
      else if cmd = GET_SECTOR_COUNT then
        (RES_OK, s\<lparr>cf_mem := wr_bytes (cf_mem s) buff (be32_bytes (st_n_sectors (stat ! unat pdrv)))\<rparr>)
      else if cmd = GET_SECTOR_SIZE then
        (RES_OK, s\<lparr>cf_mem := wr_bytes (cf_mem s) buff (be16_bytes (st_sz_sector (stat ! unat pdrv)))\<rparr>)
      else if cmd = GET_BLOCK_SIZE then (RES_OK, s\<lparr>cf_mem := wr_bytes (cf_mem s) buff (be32_bytes SZ_BLOCK)\<rparr>)
      else (RES_PARERR, s))"


section \<open>What a run does on the bus\<close>

fun cf_writes :: "cf_io list \<Rightarrow> (nat \<times> u8) list" where
  "cf_writes [] = []"
| "cf_writes (Wr a v # h) = (a, v) # cf_writes h"
| "cf_writes (_ # h) = cf_writes h"

fun cf_data_in :: "cf_io list \<Rightarrow> u8 list" where
  "cf_data_in [] = []"
| "cf_data_in (Rd a v # h) = (if a = 0 then v # cf_data_in h else cf_data_in h)"
| "cf_data_in (_ # h) = cf_data_in h"

lemma cf_append [simp]: "cf_writes (g @ h) = cf_writes g @ cf_writes h" "cf_data_in (g @ h) = cf_data_in g @ cf_data_in h"
proof -
  show "cf_writes (g @ h) = cf_writes g @ cf_writes h" by (induction g rule: cf_writes.induct) simp_all
  show "cf_data_in (g @ h) = cf_data_in g @ cf_data_in h" by (induction g rule: cf_data_in.induct) simp_all
qed

text \<open>\<open>bus_run s ws ds s'\<close>: from \<open>s\<close> to \<open>s'\<close> the registers got the writes \<open>ws\<close> and the data register gave the
  bytes \<open>ds\<close>, in this order; the mode and the partitions are unchanged.\<close>

definition bus_run :: "cf_sys \<Rightarrow> (nat \<times> u8) list \<Rightarrow> u8 list \<Rightarrow> cf_sys \<Rightarrow> bool" where
  "bus_run s ws ds s' \<longleftrightarrow> (\<exists>h. cf_hist s' = cf_hist s @ h \<and> cf_writes h = ws \<and> cf_data_in h = ds) \<and>
     ide_bus_mode s' = ide_bus_mode s \<and> drive_parts s' = drive_parts s"

lemma bus_run_refl: "bus_run s [] [] s"
  by (simp add: bus_run_def)

lemma bus_run_trans: "bus_run s ws ds t \<Longrightarrow> bus_run t vs es u \<Longrightarrow> bus_run s (ws @ vs) (ds @ es) u"
proof -
  assume "bus_run s ws ds t" "bus_run t vs es u"
  then obtain h g where "cf_hist t = cf_hist s @ h" "cf_writes h = ws" "cf_data_in h = ds"
    "cf_hist u = cf_hist t @ g" "cf_writes g = vs" "cf_data_in g = es"
    "ide_bus_mode u = ide_bus_mode s" "drive_parts u = drive_parts s"
    unfolding bus_run_def by auto
  then show ?thesis unfolding bus_run_def by (auto intro!: exI [of _ "h @ g"])
qed

lemma bus_run_wr: "bus_run s [(a, v)] [] (wr_reg a v s)"
  by (simp add: bus_run_def wr_reg_def)

lemma bus_run_rd: "rd_reg env a s = (v, s') \<Longrightarrow> bus_run s [] (if a = 0 then [v] else []) s'"
  by (auto simp: bus_run_def rd_reg_def Let_def)

lemma bus_run_mem [simp]: "bus_run s ws ds (s'\<lparr>cf_mem := m\<rparr>) = bus_run s ws ds s'"
  "bus_run (s\<lparr>cf_mem := m\<rparr>) ws ds s' = bus_run s ws ds s'"
  "bus_run s ws ds (s'\<lparr>cf_masked := b\<rparr>) = bus_run s ws ds s'" "bus_run (s\<lparr>cf_masked := b\<rparr>) ws ds s' = bus_run s ws ds s'"
  "bus_run s ws ds (LOCK s') = bus_run s ws ds s'" "bus_run s ws ds (UNLOCK s') = bus_run s ws ds s'"
  "bus_run (LOCK s) ws ds s' = bus_run s ws ds s'" "bus_run (UNLOCK s) ws ds s' = bus_run s ws ds s'"
  by (simp_all add: bus_run_def LOCK_def UNLOCK_def)

text \<open>\<open>waits s s'\<close>: only the status was read.\<close>

definition waits :: "cf_sys \<Rightarrow> cf_sys \<Rightarrow> bool" where
  "waits s s' \<longleftrightarrow> bus_run s [] [] s' \<and> cf_mem s' = cf_mem s"

lemma waits_status: "rd_reg env R_STATUS s = (v, s') \<Longrightarrow> waits s s'"
  using bus_run_rd [of env R_STATUS s v s'] by (auto simp: waits_def rd_reg_def Let_def cf_regs)

lemma waits_trans: "waits s t \<Longrightarrow> waits t u \<Longrightarrow> waits s u"
  unfolding waits_def using bus_run_trans [of s "[]" "[]" t "[]" "[]" u] by simp

lemma waits_ATA_WAIT:
  assumes "ATA_WAIT env s = Some s'"
  shows "waits s s'"
proof (rule ATA_WAIT.raw_induct [where P = "\<lambda>_ s s'. waits s s'", OF _ assms])
  fix f env s s'
  assume IH: "\<And>env s s'. f env s = Some s' \<Longrightarrow> waits s s'"
    and run: "(let (v, t) = rd_reg env R_STATUS s in if v AND ATA_ST_BUSY \<noteq> 0 then f env t else Some t) = Some s'"
  obtain v t where rd: "rd_reg env R_STATUS s = (v, t)" by fastforce
  then show "waits s s'" using run IH [of env t s'] waits_trans [OF waits_status [OF rd]] waits_status [OF rd]
    by (auto split: if_splits)
qed

lemma waits_FOR_DATA:
  assumes "ATA_WAIT_FOR_DATA env s = Some s'"
  shows "waits s s'"
proof (rule ATA_WAIT_FOR_DATA.raw_induct [where P = "\<lambda>_ s s'. waits s s'", OF _ assms])
  fix f env s s'
  assume IH: "\<And>env s s'. f env s = Some s' \<Longrightarrow> waits s s'"
    and run: "(let (v, t) = rd_reg env R_STATUS s in if v AND ATA_ST_DATA_READY = 0 then f env t else Some t) = Some s'"
  obtain v t where rd: "rd_reg env R_STATUS s = (v, t)" by fastforce
  then show "waits s s'" using run IH [of env t s'] waits_trans [OF waits_status [OF rd]] waits_status [OF rd]
    by (auto split: if_splits)
qed

text \<open>\<open>polled P s s'\<close>: the status was read until a value satisfied \<open>P\<close>.\<close>

definition polled :: "(u8 \<Rightarrow> bool) \<Rightarrow> cf_sys \<Rightarrow> cf_sys \<Rightarrow> bool" where
  "polled P s s' \<longleftrightarrow> (\<exists>h v. cf_hist s' = cf_hist s @ h @ [Rd 7 v] \<and> cf_writes h = [] \<and> cf_data_in h = [] \<and> P v) \<and>
     ide_bus_mode s' = ide_bus_mode s \<and> drive_parts s' = drive_parts s \<and> cf_mem s' = cf_mem s"

lemma polled_status: "rd_reg env R_STATUS s = (v, s') \<Longrightarrow> P v \<Longrightarrow> polled P s s'"
  by (auto simp: polled_def rd_reg_def Let_def R_STATUS_def intro!: exI [of _ "[]"])

lemma polled_more:
  assumes "waits s t" "polled P t u"
  shows "polled P s u"
proof -
  obtain g h v where "cf_hist t = cf_hist s @ g" "cf_writes g = []" "cf_data_in g = []"
    "cf_hist u = cf_hist t @ h @ [Rd 7 v]" "cf_writes h = []" "cf_data_in h = []" "P v"
    using assms unfolding waits_def bus_run_def polled_def by blast
  then show ?thesis using assms unfolding polled_def waits_def bus_run_def
    by (intro conjI exI [of _ "g @ h"] exI [of _ v]) simp_all
qed

lemma polled_waits: "polled P s t \<Longrightarrow> waits s t"
  unfolding waits_def bus_run_def polled_def by fastforce

lemma polled_ATA_WAIT:
  assumes "ATA_WAIT env s = Some s'"
  shows "polled (\<lambda>v. v AND 0x80 = 0) s s'"
proof (rule ATA_WAIT.raw_induct [where P = "\<lambda>_ s s'. polled (\<lambda>v. v AND 0x80 = 0) s s'", OF _ assms])
  fix f env s s'
  assume IH: "\<And>env s s'. f env s = Some s' \<Longrightarrow> polled (\<lambda>v. v AND 0x80 = 0) s s'"
    and run: "(let (v, t) = rd_reg env R_STATUS s in if v AND ATA_ST_BUSY \<noteq> 0 then f env t else Some t) = Some s'"
  obtain v t where rd: "rd_reg env R_STATUS s = (v, t)" by fastforce
  then show "polled (\<lambda>v. v AND 0x80 = 0) s s'"
    using run IH [of env t s'] polled_more [OF waits_status [OF rd]] polled_status [OF rd]
    by (auto simp: ATA_ST_BUSY_def split: if_splits)
qed

lemma polled_FOR_DATA:
  assumes "ATA_WAIT_FOR_DATA env s = Some s'"
  shows "polled (\<lambda>v. v AND 8 \<noteq> 0) s s'"
proof (rule ATA_WAIT_FOR_DATA.raw_induct [where P = "\<lambda>_ s s'. polled (\<lambda>v. v AND 8 \<noteq> 0) s s'", OF _ assms])
  fix f env s s'
  assume IH: "\<And>env s s'. f env s = Some s' \<Longrightarrow> polled (\<lambda>v. v AND 8 \<noteq> 0) s s'"
    and run: "(let (v, t) = rd_reg env R_STATUS s in if v AND ATA_ST_DATA_READY = 0 then f env t else Some t) = Some s'"
  obtain v t where rd: "rd_reg env R_STATUS s = (v, t)" by fastforce
  then show "polled (\<lambda>v. v AND 8 \<noteq> 0) s s'"
    using run IH [of env t s'] polled_more [OF waits_status [OF rd]] polled_status [OF rd]
    by (auto simp: ATA_ST_DATA_READY_def split: if_splits)
qed

subsection \<open>The commands and the sectors, as the ATA standard writes them\<close>

text \<open>The registers by their numbers: 0 data, 1 feature, 2 sector count, 3 to 5 the low 24 bits of the block
  number, 6 the drive bits with its upper 4 bits, 7 the command. All fields are written as arithmetic on the
  block number, apart from the shifts and masks of the driver.\<close>

definition mode_8bit :: "(nat \<times> u8) list" where
  "mode_8bit = [(1, 0x01), (7, 0xEF)]"

definition drive_head :: "u32 \<Rightarrow> nat \<times> u8" where
  "drive_head sector = (6, of_nat (0xE0 + unat sector div 2 ^ 24 mod 16))"

definition address_block :: "u32 \<Rightarrow> (nat \<times> u8) list" where
  "address_block sector = [(5, of_nat (unat sector div 2 ^ 16)), (4, of_nat (unat sector div 2 ^ 8)),
     (3, of_nat (unat sector)), (2, 1)]"

definition read_command :: "u32 \<Rightarrow> (nat \<times> u8) list" where
  "read_command sector = drive_head sector # mode_8bit @ address_block sector @ [(7, 0x20)]"

definition write_command :: "u32 \<Rightarrow> (nat \<times> u8) list" where
  "write_command sector = mode_8bit @ drive_head sector # address_block sector @ [(7, 0x30)]"

definition data_out :: "mem \<Rightarrow> nat \<Rightarrow> (nat \<times> u8) list" where
  "data_out m p = map (Pair 0) (rd_bytes m p 512)"

text \<open>What the bus shows of a sector that was transferred: the command, the status polled until the card is not
  busy, the status without the error bit, the status polled until the card asks for data, and the data.\<close>

definition sector_done :: "(nat \<times> u8) list \<Rightarrow> (nat \<times> u8) list \<Rightarrow> u8 list \<Rightarrow> cf_io list \<Rightarrow> bool" where
  "sector_done cmd outs ins h \<longleftrightarrow> (\<exists>a u v b w c. h = a @ [Rd 7 u, Rd 7 v] @ b @ [Rd 7 w] @ c \<and>
     cf_writes a = cmd \<and> cf_data_in a = [] \<and> u AND 0x80 = 0 \<and> v AND 1 = 0 \<and>
     cf_writes b = [] \<and> cf_data_in b = [] \<and> w AND 8 \<noteq> 0 \<and> cf_writes c = outs \<and> cf_data_in c = ins)"

text \<open>A sector that was written: after the data the status was polled until the card had finished.\<close>

definition sector_written :: "(nat \<times> u8) list \<Rightarrow> (nat \<times> u8) list \<Rightarrow> cf_io list \<Rightarrow> bool" where
  "sector_written cmd outs h \<longleftrightarrow> (\<exists>g x t. h = g @ Rd 7 x # t \<and> sector_done cmd outs [] g \<and> x AND 0x80 = 0 \<and>
     cf_writes t = [] \<and> cf_data_in t = [])"

text \<open>A sector the card refused: the status with the error bit, and the error register.\<close>

definition sector_refused :: "(nat \<times> u8) list \<Rightarrow> cf_io list \<Rightarrow> bool" where
  "sector_refused cmd h \<longleftrightarrow> (\<exists>a u v e. h = a @ [Rd 7 u, Rd 7 v, Rd 1 e] \<and>
     cf_writes a = cmd \<and> cf_data_in a = [] \<and> u AND 0x80 = 0 \<and> v AND 1 \<noteq> 0)"

text \<open>\<open>traced s h s'\<close>: from \<open>s\<close> to \<open>s'\<close> the bus saw \<open>h\<close>; the mode and the partitions are unchanged.\<close>

definition traced :: "cf_sys \<Rightarrow> cf_io list \<Rightarrow> cf_sys \<Rightarrow> bool" where
  "traced s h s' \<longleftrightarrow> cf_hist s' = cf_hist s @ h \<and> ide_bus_mode s' = ide_bus_mode s \<and> drive_parts s' = drive_parts s"

lemma traced_refl: "traced s [] s"
  by (simp add: traced_def)

lemma traced_trans: "traced s g t \<Longrightarrow> traced t h u \<Longrightarrow> traced s (g @ h) u"
  by (simp add: traced_def)

lemma traced_done:
  assumes "bus_run s cmd [] s1" "polled (\<lambda>v. v AND 0x80 = 0) s1 s2" "rd_reg env R_STATUS s2 = (v, s3)" "v AND 1 = 0"
    "polled (\<lambda>v. v AND 8 \<noteq> 0) s3 s4" "bus_run s4 outs ins s5"
  shows "\<exists>h. traced s h s5 \<and> sector_done cmd outs ins h"
proof -
  obtain a where a: "cf_hist s1 = cf_hist s @ a" "cf_writes a = cmd" "cf_data_in a = []"
    using assms(1) unfolding bus_run_def by blast
  obtain a' u where u: "cf_hist s2 = cf_hist s1 @ a' @ [Rd 7 u]" "cf_writes a' = []" "cf_data_in a' = []" "u AND 0x80 = 0"
    using assms(2) unfolding polled_def by blast
  have v: "cf_hist s3 = cf_hist s2 @ [Rd 7 v]" using assms(3) by (auto simp: rd_reg_def Let_def R_STATUS_def)
  obtain b w where w: "cf_hist s4 = cf_hist s3 @ b @ [Rd 7 w]" "cf_writes b = []" "cf_data_in b = []" "w AND 8 \<noteq> 0"
    using assms(5) unfolding polled_def by blast
  obtain c where c: "cf_hist s5 = cf_hist s4 @ c" "cf_writes c = outs" "cf_data_in c = ins"
    using assms(6) unfolding bus_run_def by blast
  let ?h = "(a @ a') @ [Rd 7 u, Rd 7 v] @ b @ [Rd 7 w] @ c"
  have "sector_done cmd outs ins ?h" unfolding sector_done_def
    by (intro exI conjI, rule refl) (use a u w c assms(4) in simp_all)
  moreover have "traced s ?h s5"
    using a u v w c assms unfolding traced_def bus_run_def polled_def by (auto simp: rd_reg_def Let_def)
  ultimately show ?thesis by blast
qed

lemma traced_refused:
  assumes "bus_run s cmd [] s1" "polled (\<lambda>v. v AND 0x80 = 0) s1 s2" "rd_reg env R_STATUS s2 = (v, s3)" "v AND 1 \<noteq> 0"
    "rd_reg env R_FEATURE s3 = (e, s4)"
  shows "\<exists>h. traced s h s4 \<and> sector_refused cmd h"
proof -
  obtain a where a: "cf_hist s1 = cf_hist s @ a" "cf_writes a = cmd" "cf_data_in a = []"
    using assms(1) unfolding bus_run_def by blast
  obtain a' u where u: "cf_hist s2 = cf_hist s1 @ a' @ [Rd 7 u]" "cf_writes a' = []" "cf_data_in a' = []" "u AND 0x80 = 0"
    using assms(2) unfolding polled_def by blast
  have v: "cf_hist s4 = cf_hist s2 @ [Rd 7 v, Rd 1 e]"
    using assms(3,5) by (auto simp: rd_reg_def Let_def R_STATUS_def R_FEATURE_def)
  let ?h = "(a @ a') @ [Rd 7 u, Rd 7 v, Rd 1 e]"
  have "sector_refused cmd ?h" unfolding sector_refused_def
    by (intro exI conjI, rule refl) (use a u assms(4) in simp_all)
  moreover have "traced s ?h s4"
    using a u v assms unfolding traced_def bus_run_def polled_def by (auto simp: rd_reg_def Let_def)
  ultimately show ?thesis by blast
qed

lemma unat_shift: "unat (drop_bit n (w :: u32)) = unat w div 2 ^ n"
  by (metis unat_drop_bit_eq drop_bit_eq_div)

lemma byte_of: "ucast (w :: u32) = (of_nat (unat w) :: u8)"
  by (simp add: unsigned_ucast_eq word_eq_iff_unsigned)

lemma or_0xE0:
  assumes "k < 16"
  shows "(0xE0 :: u8) OR of_nat k = of_nat (0xE0 + k)"
proof -
  have "k \<in> {0, 1, 2, 3, 4, 5, 6, 7, 8, 9, 10, 11, 12, 13, 14, 15}" using assms by (simp, presburger)
  then show ?thesis by (elim insertE emptyE; simp)
qed

lemma traced_written:
  assumes "traced s g t" "sector_done cmd outs [] g" "polled (\<lambda>v. v AND 0x80 = 0) t u" "waits u s'"
  shows "\<exists>h. traced s h s' \<and> sector_written cmd outs h"
proof -
  obtain a x where x: "cf_hist u = cf_hist t @ a @ [Rd 7 x]" "cf_writes a = []" "cf_data_in a = []" "x AND 0x80 = 0"
    using assms(3) unfolding polled_def by blast
  obtain b where b: "cf_hist s' = cf_hist u @ b" "cf_writes b = []" "cf_data_in b = []"
    using assms(4) unfolding waits_def bus_run_def by blast
  obtain a' u v b' w c where "g = a' @ [Rd 7 u, Rd 7 v] @ b' @ [Rd 7 w] @ c" "cf_writes a' = cmd" "cf_data_in a' = []"
    "u AND 0x80 = 0" "v AND 1 = 0" "cf_writes b' = []" "cf_data_in b' = []" "w AND 8 \<noteq> 0" "cf_writes c = outs" "cf_data_in c = []"
    using assms(2) unfolding sector_done_def by blast
  then have "sector_done cmd outs [] (g @ a)" using x(2,3) unfolding sector_done_def
    by (intro exI [of _ a'] exI [of _ u] exI [of _ v] exI [of _ b'] exI [of _ w] exI [of _ "c @ a"]) simp
  then have "sector_written cmd outs ((g @ a) @ Rd 7 x # b)" using b x(4) unfolding sector_written_def by blast
  moreover have "traced s ((g @ a) @ Rd 7 x # b) s'"
    using assms x b unfolding traced_def polled_def waits_def bus_run_def by auto
  ultimately show ?thesis by blast
qed

lemma head_of_eq: "head_of sector = of_nat (0xE0 + unat sector div 2 ^ 24 mod 16)"
proof -
  have m: "(0x0F :: u32) = mask 4" by (simp add: mask_eq_exp_minus_1)
  have "unat (drop_bit 24 sector AND 0x0F) = unat sector div 2 ^ 24 mod 16"
    unfolding m take_bit_eq_mask [symmetric] unsigned_take_bit_eq unsigned_drop_bit_eq
    by (simp add: take_bit_eq_mod drop_bit_eq_div)
  then show ?thesis unfolding head_of_def byte_of by (simp only:) (rule or_0xE0, simp)
qed

lemma drive_head_eq: "(R_DRIVE_HEAD, head_of sector) = drive_head sector"
  by (simp add: drive_head_def head_of_eq R_DRIVE_HEAD_def)

lemma bus_run_mode:
  assumes "ide_bus_mode s = 0" "go_8bits_mode env s = Some s'"
  shows "bus_run s mode_8bit [] s' \<and> cf_mem s' = cf_mem s"
proof -
  let ?t = "wr_reg R_STATUS CF_SET_FEATURE (wr_reg R_FEATURE 0x01 s)"
  obtain u where u: "ATA_WAIT env ?t = Some u" using assms by (auto simp: go_8bits_mode_def bind_eq_Some_conv)
  note w = waits_ATA_WAIT [OF u]
  have "ide_bus_mode u = 0" using w assms(1) by (simp add: waits_def bus_run_def wr_reg_def)
  then have "u = s'" using u assms by (simp add: go_8bits_mode_def)
  then show ?thesis
    using bus_run_trans [OF bus_run_trans [OF bus_run_wr [of s R_FEATURE "0x01"] bus_run_wr], of R_STATUS CF_SET_FEATURE "[]" "[]" u] w
    by (simp add: waits_def mode_8bit_def wr_reg_def cf_regs cf_cmds)
qed

lemma bus_run_issue: "bus_run s (address_block sector @ [(7, cmd)]) [] (cf_issue sector cmd s) \<and> cf_mem (cf_issue sector cmd s) = cf_mem s"
proof -
  have "cf_writes [Wr 5 (ucast (drop_bit 16 sector)), Wr 4 (ucast (drop_bit 8 sector)), Wr 3 (ucast sector), Wr 2 1, Wr 7 cmd] =
      address_block sector @ [(7, cmd)]"
    unfolding address_block_def byte_of unat_shift by simp
  then show ?thesis by (simp add: bus_run_def cf_issue_def wr_reg_def Let_def cf_regs)
qed

lemma bus_run_bytes:
  "read_data_bytes env n p s = Some s' \<Longrightarrow>
   \<exists>ds. length ds = n \<and> bus_run s [] ds s' \<and> cf_mem s' = wr_bytes (cf_mem s) p ds"
proof (induction n arbitrary: p s)
  case 0
  then show ?case using bus_run_refl by auto
next
  case (Suc n)
  obtain v t where rd: "rd_reg env R_DATA s = (v, t)" by fastforce
  then obtain u where w: "ATA_WAIT env (t\<lparr>cf_mem := (cf_mem t)(p := v)\<rparr>) = Some u"
    and rest: "read_data_bytes env n (p + 1) u = Some s'"
    using Suc.prems by (auto simp: bind_eq_Some_conv)
  obtain ds where ds: "length ds = n" "bus_run u [] ds s'" "cf_mem s' = wr_bytes (cf_mem u) (p + 1) ds"
    using Suc.IH [OF rest] by blast
  have m: "cf_mem t = cf_mem s" using rd by (auto simp: rd_reg_def Let_def)
  have "bus_run s [] [v] u" "cf_mem u = (cf_mem t)(p := v)"
    using bus_run_trans [OF bus_run_rd [OF rd], of "[]" "[]" u] waits_ATA_WAIT [OF w] by (auto simp: waits_def R_DATA_def)
  then show ?case using bus_run_trans [of s "[]" "[v]" u "[]" ds s'] ds m
    by (intro exI [of _ "v # ds"]) simp
qed

lemma bus_run_out:
  "write_data_bytes env n p s = Some s' \<Longrightarrow>
   bus_run s (map (Pair 0) (rd_bytes (cf_mem s) p n)) [] s' \<and> cf_mem s' = cf_mem s"
proof (induction n arbitrary: p s)
  case 0
  then show ?case using bus_run_refl by auto
next
  case (Suc n)
  obtain u where w: "ATA_WAIT env s = Some u" and rest: "write_data_bytes env n (p + 1) (wr_reg R_DATA (cf_mem u p) u) = Some s'"
    using Suc.prems by (auto simp: bind_eq_Some_conv)
  have u: "bus_run s [] [] u" "cf_mem u = cf_mem s" using waits_ATA_WAIT [OF w] by (auto simp: waits_def)
  have "bus_run s [(0, cf_mem s p)] [] (wr_reg R_DATA (cf_mem u p) u)"
    using bus_run_trans [OF u(1) bus_run_wr [of u R_DATA "cf_mem u p"]] u(2) by (simp add: R_DATA_def)
  from bus_run_trans [OF this] show ?case using Suc.IH [OF rest] u(2) by (simp add: wr_reg_def)
qed

lemma waits_error: "rd_reg env R_FEATURE s = (v, s') \<Longrightarrow> waits s s'"
  using bus_run_rd [of env R_FEATURE s v s'] by (auto simp: waits_def rd_reg_def Let_def cf_regs)

lemma bus_run_waits: "bus_run s ws ds t \<Longrightarrow> waits t u \<Longrightarrow> bus_run s ws ds u \<and> cf_mem u = cf_mem t"
  unfolding waits_def using bus_run_trans [of s ws ds t "[]" "[]" u] by simp

lemma lock_simps [simp]:
  "cf_mem (LOCK s) = cf_mem s" "cf_mem (UNLOCK s) = cf_mem s" "ide_bus_mode (LOCK s) = ide_bus_mode s"
  "\<not> cf_masked (UNLOCK s)" "cf_hist (LOCK s) = cf_hist s"
  by (simp_all add: LOCK_def UNLOCK_def)

lemma traced_mem [simp]:
  "traced s h (s'\<lparr>cf_masked := b\<rparr>) = traced s h s'" "traced s h (LOCK s') = traced s h s'" "traced s h (UNLOCK s') = traced s h s'"
  by (simp_all add: traced_def LOCK_def UNLOCK_def)

lemma read_sector_run:
  assumes "ide_bus_mode s = 0" "ata_read_sector env sector buf s = Some (r, s')"
  shows "\<exists>h. traced s h s' \<and> \<not> cf_masked s' \<and>
    (r = 512 \<and> (\<exists>ds. length ds = 512 \<and> cf_mem s' = wr_bytes (cf_mem s) buf ds \<and> sector_done (read_command sector) [] ds h) \<or>
     r = 0 \<and> cf_mem s' = cf_mem s \<and> sector_refused (read_command sector) h)"
proof -
  let ?s1 = "wr_reg R_DRIVE_HEAD (head_of sector) (LOCK s)"
  obtain s2 s3 where s2: "go_8bits_mode env ?s1 = Some s2" and s3: "ATA_WAIT env (cf_issue sector CF_READ_SECTORS s2) = Some s3"
    using assms(2) by (auto simp: ata_read_sector_def bind_eq_Some_conv)
  obtain st s4 where s4: "rd_reg env R_STATUS s3 = (st, s4)" by fastforce
  have "ide_bus_mode ?s1 = 0" using assms(1) by (simp add: wr_reg_def)
  note m = bus_run_mode [OF this s2]
  have cmd: "bus_run s (read_command sector) [] (cf_issue sector CF_READ_SECTORS s2)"
    using bus_run_trans [OF bus_run_trans [OF bus_run_wr [of "LOCK s" R_DRIVE_HEAD "head_of sector"] conjunct1 [OF m]]
      conjunct1 [OF bus_run_issue]] by (simp add: read_command_def drive_head_eq cf_cmds)
  note p3 = polled_ATA_WAIT [OF s3]
  from bus_run_waits [OF cmd waits_trans [OF polled_waits [OF p3] waits_status [OF s4]]]
  have run: "bus_run s (read_command sector) [] s4" "cf_mem s4 = cf_mem s"
    using m bus_run_issue [of s2] by (auto simp: wr_reg_def)
  show ?thesis
  proof (cases "st AND 0x01 = 0")
    case False
    obtain v s5 where s5: "rd_reg env R_FEATURE s4 = (v, s5)" by fastforce
    then have "r = 0" "s' = UNLOCK s5" using assms(2) s2 s3 s4 False by (auto simp: ata_read_sector_def)
    then show ?thesis using traced_refused [OF cmd p3 s4 False s5] bus_run_waits [OF run(1) waits_error [OF s5]] run(2) by auto
  next
    case True
    then obtain s5 s6 where s5: "ATA_WAIT env s4 = Some s5" and s6: "ATA_WAIT_FOR_DATA env s5 = Some s6"
      using assms(2) s2 s3 s4 by (auto simp: ata_read_sector_def bind_eq_Some_conv)
    note w = bus_run_waits [OF run(1) waits_trans [OF waits_ATA_WAIT [OF s5] waits_FOR_DATA [OF s6]]]
    have "ide_bus_mode s6 = 0" using w assms(1) by (simp add: bus_run_def)
    then obtain s7 where s7: "read_data_bytes env 512 buf s6 = Some s7" "r = 512" "s' = UNLOCK s7"
      using assms(2) s2 s3 s4 s5 s6 True by (auto simp: ata_read_sector_def bind_eq_Some_conv)
    obtain ds where ds: "length ds = 512" "bus_run s6 [] ds s7" "cf_mem s7 = wr_bytes (cf_mem s6) buf ds"
      using bus_run_bytes [OF s7(1)] by blast
    then show ?thesis
      using traced_done [OF cmd p3 s4 True polled_more [OF waits_ATA_WAIT [OF s5] polled_FOR_DATA [OF s6]] ds(2)] w run(2) s7(2,3)
      by auto
  qed
qed

lemma write_sector_run:
  assumes "ide_bus_mode s = 0" "ata_write_sector env sector buf s = Some (r, s')"
  shows "\<exists>h. traced s h s' \<and> cf_mem s' = cf_mem s \<and> \<not> cf_masked s' \<and>
    (r = 512 \<and> sector_written (write_command sector) (data_out (cf_mem s) buf) h \<or>
     r = 0 \<and> sector_refused (write_command sector) h)"
proof -
  obtain s2 s3 where s2: "go_8bits_mode env (LOCK s) = Some s2"
    and s3: "ATA_WAIT env (cf_issue sector CF_WRITE_SECTORS (wr_reg R_DRIVE_HEAD (head_of sector) s2)) = Some s3"
    using assms(2) by (auto simp: ata_write_sector_def bind_eq_Some_conv)
  obtain st s4 where s4: "rd_reg env R_STATUS s3 = (st, s4)" by fastforce
  have "ide_bus_mode (LOCK s) = 0" using assms(1) by simp
  note m = bus_run_mode [OF this s2]
  have cmd: "bus_run s (write_command sector) [] (cf_issue sector CF_WRITE_SECTORS (wr_reg R_DRIVE_HEAD (head_of sector) s2))"
    using bus_run_trans [OF bus_run_trans [OF conjunct1 [OF m] bus_run_wr [of s2 R_DRIVE_HEAD "head_of sector"]]
      conjunct1 [OF bus_run_issue]] by (simp add: write_command_def drive_head_eq cf_cmds)
  note p3 = polled_ATA_WAIT [OF s3]
  from bus_run_waits [OF cmd waits_trans [OF polled_waits [OF p3] waits_status [OF s4]]]
  have run: "bus_run s (write_command sector) [] s4" "cf_mem s4 = cf_mem s"
    using m bus_run_issue [of "wr_reg R_DRIVE_HEAD (head_of sector) s2"] by (auto simp: wr_reg_def)
  show ?thesis
  proof (cases "st AND 0x01 = 0")
    case False
    obtain v s5 where s5: "rd_reg env R_FEATURE s4 = (v, s5)" by fastforce
    then have "r = 0" "s' = UNLOCK s5" using assms(2) s2 s3 s4 False by (auto simp: ata_write_sector_def)
    then show ?thesis using traced_refused [OF cmd p3 s4 False s5] bus_run_waits [OF run(1) waits_error [OF s5]] run(2) by auto
  next
    case True
    then obtain s5 s6 s7 s8 where s5: "ATA_WAIT env s4 = Some s5" and s6: "ATA_WAIT_FOR_DATA env s5 = Some s6"
      and s7: "write_data_bytes env 512 buf s6 = Some s7" and s8: "ATA_WAIT env s7 = Some s8"
      using assms(2) s2 s3 s4 by (auto simp: ata_write_sector_def bind_eq_Some_conv)
    obtain v s9 where s9: "rd_reg env R_STATUS s8 = (v, s9)" by fastforce
    obtain u s10 where s10: "rd_reg env R_FEATURE s9 = (u, s10)" by fastforce
    have fin: "r = 512" "s' = UNLOCK (if v AND ATA_ST_ERROR \<noteq> 0 then s10 else s9)"
      using assms(2) s2 s3 s4 s5 s6 s7 s8 s9 s10 True by (auto simp: ata_write_sector_def)
    note w = bus_run_waits [OF run(1) waits_trans [OF waits_ATA_WAIT [OF s5] waits_FOR_DATA [OF s6]]]
    have o: "bus_run s6 (data_out (cf_mem s) buf) [] s7" "cf_mem s7 = cf_mem s"
      using bus_run_out [OF s7] w run(2) by (auto simp: data_out_def)
    obtain g where g: "traced s g s7" "sector_done (write_command sector) (data_out (cf_mem s) buf) [] g"
      using traced_done [OF cmd p3 s4 True polled_more [OF waits_ATA_WAIT [OF s5] polled_FOR_DATA [OF s6]] o(1)] by blast
    have e: "waits s8 s'" unfolding fin(2)
      using waits_status [OF s9] waits_trans [OF waits_status [OF s9] waits_error [OF s10]] by (auto simp: waits_def)
    show ?thesis using traced_written [OF g polled_ATA_WAIT [OF s8] e] fin o(2) polled_waits [OF polled_ATA_WAIT [OF s8]] e
      by (auto simp: waits_def)
  qed
qed

text \<open>What the bus shows of a transfer of several sectors, one history for each sector, in order.\<close>

definition sectors_done :: "(u32 \<Rightarrow> nat \<Rightarrow> cf_io list \<Rightarrow> bool) \<Rightarrow> (u32 \<Rightarrow> cf_io list \<Rightarrow> bool) \<Rightarrow> u32 \<Rightarrow> nat \<Rightarrow>
    DRESULT \<Rightarrow> cf_io list list \<Rightarrow> bool" where
  "sectors_done good bad sector n r hs \<longleftrightarrow>
     r = RES_OK \<and> length hs = n \<and> (\<forall>i < n. good (sector + of_nat i) i (hs ! i)) \<or>
     r = RES_ERROR \<and> (\<exists>k < n. length hs = Suc k \<and> (\<forall>i < k. good (sector + of_nat i) i (hs ! i)) \<and> bad (sector + of_nat k) (hs ! k))"

lemma sectors_done_Nil: "sectors_done good bad sector 0 r hs \<longleftrightarrow> r = RES_OK \<and> hs = []"
  by (auto simp: sectors_done_def)

lemma sectors_done_stop: "bad sector h \<Longrightarrow> sectors_done good bad sector (Suc n) RES_ERROR [h]"
  by (auto simp: sectors_done_def)

lemma sectors_done_Cons:
  assumes "good sector 0 h" "sectors_done (\<lambda>s i. good s (Suc i)) bad (sector + 1) n r hs"
  shows "sectors_done good bad sector (Suc n) r (h # hs)"
proof -
  have all: "\<forall>i < Suc k. good (sector + of_nat i) i ((h # hs) ! i)"
    if "\<forall>i < k. good (sector + 1 + of_nat i) (Suc i) (hs ! i)" for k
    using that assms(1) by (auto simp: less_Suc_eq_0_disj add.assoc)
  from assms(2) consider "r = RES_OK" "length hs = n" "\<forall>i < n. good (sector + 1 + of_nat i) (Suc i) (hs ! i)"
    | k where "r = RES_ERROR" "k < n" "length hs = Suc k" "\<forall>i < k. good (sector + 1 + of_nat i) (Suc i) (hs ! i)"
        "bad (sector + 1 + of_nat k) (hs ! k)"
    unfolding sectors_done_def by blast
  then show ?thesis
  proof cases
    case 1
    then show ?thesis using all [of n] unfolding sectors_done_def by simp
  next
    case (2 k)
    then show ?thesis using all [of k] unfolding sectors_done_def
      by (intro disjI2 conjI exI [of _ "Suc k"]) (simp_all add: add.assoc)
  qed
qed

text \<open>The outcomes of one sector of a read that stores the data \<open>dss\<close>, and of a write of the buffer at \<open>buf\<close>.\<close>

definition reads_sector :: "u8 list list \<Rightarrow> u32 \<Rightarrow> nat \<Rightarrow> cf_io list \<Rightarrow> bool" where
  "reads_sector dss sector i h \<longleftrightarrow> length (dss ! i) = 512 \<and> sector_done (read_command sector) [] (dss ! i) h"

definition writes_sector :: "mem \<Rightarrow> nat \<Rightarrow> u32 \<Rightarrow> nat \<Rightarrow> cf_io list \<Rightarrow> bool" where
  "writes_sector m buf sector i h \<longleftrightarrow> sector_written (write_command sector) (data_out m (buf + 512 * i)) h"

lemma reads_sector_Cons: "reads_sector (ds # dss) sector (Suc i) h = reads_sector dss sector i h"
  by (simp add: reads_sector_def)

lemma writes_sector_Suc: "writes_sector m buf sector (Suc i) h = writes_sector m (buf + 512) sector i h"
  by (simp add: writes_sector_def add.assoc)

lemma read_loop_run:
  "ide_bus_mode s = 0 \<Longrightarrow> disk_read_loop env n sector buf s = Some (r, s') \<Longrightarrow>
   \<exists>hs dss. traced s (concat hs) s' \<and> cf_mem s' = wr_bytes (cf_mem s) buf (concat dss) \<and>
     length dss = (if r = RES_OK then n else length hs - 1) \<and>
     sectors_done (reads_sector dss) (\<lambda>sector. sector_refused (read_command sector)) sector n r hs"
proof (induction n arbitrary: sector buf s)
  case 0
  then show ?case by (intro exI [of _ "[]"]) (auto simp: traced_refl sectors_done_Nil)
next
  case (Suc n)
  obtain q t where rd: "ata_read_sector env sector buf s = Some (q, t)"
    using Suc.prems(2) by (auto simp: bind_eq_Some_conv)
  then obtain h where h: "traced s h t" "q = 512 \<and> (\<exists>ds. length ds = 512 \<and> cf_mem t = wr_bytes (cf_mem s) buf ds \<and>
      sector_done (read_command sector) [] ds h) \<or> q = 0 \<and> cf_mem t = cf_mem s \<and> sector_refused (read_command sector) h"
    using read_sector_run [OF Suc.prems(1)] by blast
  show ?case
  proof (cases "q = 0")
    case True
    then have "r = RES_ERROR" "s' = t" using Suc.prems(2) rd by auto
    then show ?thesis using h True by (intro exI [of _ "[h]"] exI [of _ "[]"]) (auto intro: sectors_done_stop)
  next
    case False
    then obtain ds where ds: "length ds = 512" "cf_mem t = wr_bytes (cf_mem s) buf ds" "sector_done (read_command sector) [] ds h"
      using h(2) by blast
    have mode: "ide_bus_mode t = 0" and rest: "disk_read_loop env n (sector + 1) (buf + 512) t = Some (r, s')"
      using Suc.prems rd h(1) False by (auto simp: traced_def)
    obtain hs dss where I: "traced t (concat hs) s'" "cf_mem s' = wr_bytes (cf_mem t) (buf + 512) (concat dss)"
      "length dss = (if r = RES_OK then n else length hs - 1)"
      "sectors_done (reads_sector dss) (\<lambda>sector. sector_refused (read_command sector)) (sector + 1) n r hs"
      using Suc.IH [OF mode rest] by blast
    have "reads_sector (ds # dss) sector 0 h" using ds by (simp add: reads_sector_def)
    from sectors_done_Cons [of "reads_sector (ds # dss)", OF this, unfolded reads_sector_Cons, OF I(4)]
    have "sectors_done (reads_sector (ds # dss)) (\<lambda>sector. sector_refused (read_command sector)) sector (Suc n) r (h # hs)" .
    moreover have "length (ds # dss) = (if r = RES_OK then Suc n else length (h # hs) - 1)"
      using I(3,4) by (auto simp: sectors_done_def)
    ultimately show ?thesis using traced_trans [OF h(1) I(1)] I(2) ds(1,2)
      by (intro exI [of _ "h # hs"] exI [of _ "ds # dss"]) (simp add: wr_bytes_append)
  qed
qed

lemma write_loop_run:
  "ide_bus_mode s = 0 \<Longrightarrow> disk_write_loop env n sector buf s = Some (r, s') \<Longrightarrow>
   cf_mem s' = cf_mem s \<and> (\<exists>hs. traced s (concat hs) s' \<and>
     sectors_done (writes_sector (cf_mem s) buf) (\<lambda>sector. sector_refused (write_command sector)) sector n r hs)"
proof (induction n arbitrary: sector buf s)
  case 0
  then show ?case by (auto simp: traced_refl sectors_done_Nil intro!: exI [of _ "[]"])
next
  case (Suc n)
  obtain q t where wr: "ata_write_sector env sector buf s = Some (q, t)"
    using Suc.prems(2) by (auto simp: bind_eq_Some_conv)
  then obtain h where h: "traced s h t" "cf_mem t = cf_mem s"
    "q = 512 \<and> sector_written (write_command sector) (data_out (cf_mem s) buf) h \<or> q = 0 \<and> sector_refused (write_command sector) h"
    using write_sector_run [OF Suc.prems(1)] by blast
  show ?case
  proof (cases "q = 0")
    case True
    then have "r = RES_ERROR" "s' = t" using Suc.prems(2) wr by auto
    then show ?thesis using h True by (auto intro!: exI [of _ "[h]"] sectors_done_stop)
  next
    case False
    have mode: "ide_bus_mode t = 0" and rest: "disk_write_loop env n (sector + 1) (buf + 512) t = Some (r, s')"
      using Suc.prems wr h(1) False by (auto simp: traced_def)
    obtain hs where I: "cf_mem s' = cf_mem t" "traced t (concat hs) s'"
      "sectors_done (writes_sector (cf_mem t) (buf + 512)) (\<lambda>sector. sector_refused (write_command sector)) (sector + 1) n r hs"
      using Suc.IH [OF mode rest] by blast
    have "writes_sector (cf_mem s) buf sector 0 h" using h False by (simp add: writes_sector_def)
    from sectors_done_Cons [of "writes_sector (cf_mem s) buf", OF this, unfolded writes_sector_Suc, OF I(3) [unfolded h(2)]]
    show ?thesis using traced_trans [OF h(1) I(2)] I(1) h(2) by (intro conjI exI [of _ "h # hs"]) simp_all
  qed
qed

section \<open>The driver returns\<close>

text \<open>The histories after \<open>n\<close> more polls of the status register.\<close>

fun poll_hist :: "cf_env \<Rightarrow> nat \<Rightarrow> cf_io list \<Rightarrow> cf_io list" where
  "poll_hist env 0 h = h"
| "poll_hist env (Suc n) h = poll_hist env n (h @ [Rd R_STATUS (env_reg env h R_STATUS)])"

text \<open>A transfer command was the last write and its data have not been touched.\<close>

definition cmd_pending :: "cf_io list \<Rightarrow> bool" where
  "cmd_pending h \<longleftrightarrow> (\<exists>a b c. h = a @ Wr R_STATUS c # b \<and> c \<in> {CF_READ_SECTORS, CF_WRITE_SECTORS} \<and>
     cf_writes b = [] \<and> cf_data_in b = [])"

text \<open>A working card: it is never busy for ever, and it asks for the data of a transfer command.\<close>

definition cf_responds :: "cf_env \<Rightarrow> bool" where
  "cf_responds env \<longleftrightarrow> (\<forall>h. \<exists>n. env_reg env (poll_hist env n h) R_STATUS AND ATA_ST_BUSY = 0) \<and>
     (\<forall>h. cmd_pending h \<longrightarrow> (\<exists>n. env_reg env (poll_hist env n h) R_STATUS AND ATA_ST_DATA_READY \<noteq> 0))"

lemma ATA_WAIT_returns:
  "env_reg env (poll_hist env n (cf_hist s)) R_STATUS AND ATA_ST_BUSY = 0 \<Longrightarrow> \<exists>s'. ATA_WAIT env s = Some s'"
proof (induction n arbitrary: s)
  case 0
  then show ?case by (subst ATA_WAIT.simps) (simp add: rd_reg_def Let_def)
next
  case (Suc n)
  then show ?case using Suc.IH [of "snd (rd_reg env R_STATUS s)"]
    by (subst ATA_WAIT.simps) (simp add: rd_reg_def Let_def)
qed

lemma FOR_DATA_returns:
  "env_reg env (poll_hist env n (cf_hist s)) R_STATUS AND ATA_ST_DATA_READY \<noteq> 0 \<Longrightarrow>
   \<exists>s'. ATA_WAIT_FOR_DATA env s = Some s'"
proof (induction n arbitrary: s)
  case 0
  then show ?case by (subst ATA_WAIT_FOR_DATA.simps) (simp add: rd_reg_def Let_def)
next
  case (Suc n)
  then show ?case using Suc.IH [of "snd (rd_reg env R_STATUS s)"]
    by (subst ATA_WAIT_FOR_DATA.simps) (simp add: rd_reg_def Let_def)
qed

lemma responds_wait: "cf_responds env \<Longrightarrow> \<exists>s'. ATA_WAIT env s = Some s'"
  using ATA_WAIT_returns unfolding cf_responds_def by blast

lemma responds_data: "cf_responds env \<Longrightarrow> cmd_pending (cf_hist s) \<Longrightarrow> \<exists>s'. ATA_WAIT_FOR_DATA env s = Some s'"
  using FOR_DATA_returns unfolding cf_responds_def by blast

lemma responds_mode: "cf_responds env \<Longrightarrow> \<exists>s'. go_8bits_mode env s = Some s'"
proof -
  assume r: "cf_responds env"
  obtain t where t: "(if ide_bus_mode s = 0 then ATA_WAIT env (wr_reg R_STATUS CF_SET_FEATURE (wr_reg R_FEATURE 0x01 s)) else Some s) = Some t"
    using responds_wait [OF r] by (cases "ide_bus_mode s = 0") auto
  then show ?thesis using responds_wait [OF r, of "wr_reg R_STATUS CF_SET_FEATURE (wr_reg R_FEATURE 0x81 t)"]
    unfolding go_8bits_mode_def t by simp
qed

lemma responds_bytes: "cf_responds env \<Longrightarrow> \<exists>s'. read_data_bytes env n p s = Some s'"
proof (induction n arbitrary: p s)
  case (Suc n)
  obtain v t where rd: "rd_reg env R_DATA s = (v, t)" by fastforce
  then show ?case using Suc.IH [OF Suc.prems] responds_wait [OF Suc.prems, of "t\<lparr>cf_mem := (cf_mem t)(p := v)\<rparr>"] by auto
qed simp

lemma responds_words: "cf_responds env \<Longrightarrow> \<exists>s'. read_data_words env n p s = Some s'"
proof (induction n arbitrary: p s)
  case (Suc n)
  obtain v t where rd: "rd_data16 env s = (v, t)" by fastforce
  then show ?case using Suc.IH [OF Suc.prems]
      responds_wait [OF Suc.prems, of "t\<lparr>cf_mem := (cf_mem t)(p := ucast v, p + 1 := ucast (drop_bit 8 v))\<rparr>"] by auto
qed simp

lemma responds_out: "cf_responds env \<Longrightarrow> \<exists>s'. write_data_bytes env n p s = Some s'"
proof (induction n arbitrary: p s)
  case (Suc n)
  then show ?case using responds_wait [OF Suc.prems, of s] by auto
qed simp

lemma pending_issue: "cmd \<in> {CF_READ_SECTORS, CF_WRITE_SECTORS} \<Longrightarrow> cmd_pending (cf_hist (cf_issue sector cmd s))"
  unfolding cmd_pending_def cf_issue_def wr_reg_def Let_def by (intro exI [of _ "_ @ [_, _, _, _]"] exI [of _ "[]"] exI [of _ cmd]) auto

lemma pending_waits: "cmd_pending (cf_hist s) \<Longrightarrow> waits s t \<Longrightarrow> cmd_pending (cf_hist t)"
proof -
  assume "cmd_pending (cf_hist s)" "waits s t"
  then obtain a b c h where "cf_hist s = a @ Wr R_STATUS c # b" "c \<in> {CF_READ_SECTORS, CF_WRITE_SECTORS}"
    "cf_writes b = []" "cf_data_in b = []" "cf_hist t = cf_hist s @ h" "cf_writes h = []" "cf_data_in h = []"
    unfolding cmd_pending_def waits_def bus_run_def by blast
  then show ?thesis unfolding cmd_pending_def by (intro exI [of _ a] exI [of _ "b @ h"] exI [of _ c]) simp
qed

lemma read_sector_returns:
  assumes "cf_responds env"
  shows "\<exists>r s'. ata_read_sector env sector buf s = Some (r, s')"
proof -
  obtain s2 where s2: "go_8bits_mode env (wr_reg R_DRIVE_HEAD (head_of sector) (LOCK s)) = Some s2"
    using responds_mode [OF assms] by blast
  obtain s3 where s3: "ATA_WAIT env (cf_issue sector CF_READ_SECTORS s2) = Some s3" using responds_wait [OF assms] by blast
  obtain st s4 where s4: "rd_reg env R_STATUS s3 = (st, s4)" by fastforce
  obtain s5 where s5: "ATA_WAIT env s4 = Some s5" using responds_wait [OF assms] by blast
  have "cmd_pending (cf_hist s5)"
    using pending_waits [OF pending_issue waits_trans [OF waits_ATA_WAIT [OF s3] waits_trans [OF waits_status [OF s4] waits_ATA_WAIT [OF s5]]]]
    by simp
  then obtain s6 where s6: "ATA_WAIT_FOR_DATA env s5 = Some s6" using responds_data [OF assms] by blast
  obtain s7 where "(if ide_bus_mode s6 = 0 then read_data_bytes env 512 buf s6 else read_data_words env 256 buf s6) = Some s7"
    using responds_bytes [OF assms] responds_words [OF assms] by meson
  then show ?thesis using s2 s3 s4 s5 s6 by (simp add: ata_read_sector_def)
qed

lemma write_sector_returns:
  assumes "cf_responds env"
  shows "\<exists>r s'. ata_write_sector env sector buf s = Some (r, s')"
proof -
  obtain s2 where s2: "go_8bits_mode env (LOCK s) = Some s2" using responds_mode [OF assms] by blast
  obtain s3 where s3: "ATA_WAIT env (cf_issue sector CF_WRITE_SECTORS (wr_reg R_DRIVE_HEAD (head_of sector) s2)) = Some s3"
    using responds_wait [OF assms] by blast
  obtain st s4 where s4: "rd_reg env R_STATUS s3 = (st, s4)" by fastforce
  obtain s5 where s5: "ATA_WAIT env s4 = Some s5" using responds_wait [OF assms] by blast
  have "cmd_pending (cf_hist s5)"
    using pending_waits [OF pending_issue waits_trans [OF waits_ATA_WAIT [OF s3] waits_trans [OF waits_status [OF s4] waits_ATA_WAIT [OF s5]]]]
    by simp
  then obtain s6 where s6: "ATA_WAIT_FOR_DATA env s5 = Some s6" using responds_data [OF assms] by blast
  obtain s7 where s7: "write_data_bytes env 512 buf s6 = Some s7" using responds_out [OF assms] by blast
  obtain s8 where "ATA_WAIT env s7 = Some s8" using responds_wait [OF assms] by blast
  then show ?thesis using s2 s3 s4 s5 s6 s7 by (auto simp: ata_write_sector_def split: prod.splits)
qed

lemma read_loop_returns: "cf_responds env \<Longrightarrow> \<exists>r s'. disk_read_loop env n sector buf s = Some (r, s')"
proof (induction n arbitrary: sector buf s)
  case (Suc n)
  then show ?case using read_sector_returns [OF Suc.prems, of sector buf s] by fastforce
qed simp

lemma write_loop_returns: "cf_responds env \<Longrightarrow> \<exists>r s'. disk_write_loop env n sector buf s = Some (r, s')"
proof (induction n arbitrary: sector buf s)
  case (Suc n)
  then show ?case using write_sector_returns [OF Suc.prems, of sector buf s] by fastforce
qed simp

section \<open>The partition table\<close>

definition le_bytes32 :: "u32 \<Rightarrow> u8 list" where
  "le_bytes32 w = [ucast w, ucast (drop_bit 8 w), ucast (drop_bit 16 w), ucast (drop_bit 24 w)]"

text \<open>A partition entry as it stands on the disk, with any CHS fields.\<close>

definition partition_bytes :: "u8 list \<Rightarrow> u8 list \<Rightarrow> partition \<Rightarrow> u8 list" where
  "partition_bytes chs1 chs2 q = [pt_flags q] @ chs1 @ [pt_fstype q] @ chs2 @ le_bytes32 (pt_base q) @ le_bytes32 (pt_size q)"

lemma le32_bytes:
  assumes "\<And>i. i < 4 \<Longrightarrow> m (p + i) = le_bytes32 w ! i"
  shows "le32_at m p = w"
proof -
  have b: "m p = ucast w" "m (p + 1) = ucast (drop_bit 8 w)" "m (p + 2) = ucast (drop_bit 16 w)" "m (p + 3) = ucast (drop_bit 24 w)"
    using assms [of 0] assms [of 1] assms [of 2] assms [of 3] by (simp_all add: le_bytes32_def)
  have "push_bit 24 (ucast (ucast (drop_bit 24 w) :: u8)) OR push_bit 16 (ucast (ucast (drop_bit 16 w) :: u8)) OR
      push_bit 8 (ucast (ucast (drop_bit 8 w) :: u8)) OR ucast (ucast w :: u8) = w"
  proof (rule bit_eqI)
    fix n assume "possible_bit TYPE(u32) n"
    then have "n < 32" by (simp add: possible_bit_word)
    then consider "n < 8" | "8 \<le> n" "n < 16" | "16 \<le> n" "n < 24" | "24 \<le> n" "n < 32" by linarith
    then show "bit (push_bit 24 (ucast (ucast (drop_bit 24 w) :: u8)) OR push_bit 16 (ucast (ucast (drop_bit 16 w) :: u8)) OR
      push_bit 8 (ucast (ucast (drop_bit 8 w) :: u8)) OR ucast (ucast w :: u8) :: u32) n = bit w n"
      by cases (simp_all add: bit_simps less_diff_conv2)
  qed
  then show ?thesis unfolding le32_at_def b .
qed

lemma partition_read:
  assumes "rd_bytes m t 16 = partition_bytes chs1 chs2 q" "length chs1 = 3" "length chs2 = 3"
  shows "partition_at m t = q"
proof -
  have nth: "m (t + i) = partition_bytes chs1 chs2 q ! i" if "i < 16" for i
    using nth_rd_bytes [OF that, of m t] assms(1) by simp
  have "le32_at m (t + 8) = pt_base q" "le32_at m (t + 12) = pt_size q"
    by (rule le32_bytes, use nth [of "8 + i" for i] nth [of "12 + i" for i] assms(2,3) in
      \<open>simp add: partition_bytes_def nth_append nth_Cons' le_bytes32_def add.assoc [symmetric] split: if_splits\<close>)+
  moreover have "m t = pt_flags q" "m (t + 4) = pt_fstype q"
    using nth [of 0] nth [of 4] assms(2,3) by (simp_all add: partition_bytes_def nth_append)
  ultimately show ?thesis by (simp add: partition_at_def)
qed

section \<open>Properties\<close>

text \<open>C26: In 8-bit mode, when \<open>disk_read\<close> of drive 0 returns: the bus saw the sectors one after the other, each with
  the register writes of the ATA read command of its block number (the partition's base plus \<open>sector\<close> plus \<open>i\<close>),
  the wait until the card is not busy, a status without the error bit, the wait for the data request, and 512
  bytes of data; memory is changed by storing the data of the sectors, in order, from \<open>buff\<close> on, and nothing else.
  On \<open>RES_OK\<close> that is all \<open>cnt\<close> sectors; on \<open>RES_ERROR\<close> it is the sectors before the failing one, for which the
  command was issued, the status had the error bit and nothing was stored.\<close>

theorem disk_read_correct:
  assumes "ide_bus_mode s = 0" "disk_read env 0 buff sector cnt s = Some (r, s')"
  shows "\<exists>hs dss. cf_hist s' = cf_hist s @ concat hs \<and> cf_mem s' = wr_bytes (cf_mem s) buff (concat dss) \<and>
    length dss = (if r = RES_OK then unat cnt else length hs - 1) \<and>
    sectors_done (reads_sector dss) (\<lambda>sec. sector_refused (read_command sec)) (pt_base (drive_parts s ! 0) + sector) (unat cnt) r hs \<and>
    ide_bus_mode s' = ide_bus_mode s \<and> drive_parts s' = drive_parts s"
proof -
  have "disk_read_loop env (unat cnt) (pt_base (drive_parts s ! 0) + sector) buff s = Some (r, s')"
    using assms(2) by (simp add: disk_read_def)
  from read_loop_run [OF assms(1) this] show ?thesis unfolding traced_def by blast
qed

text \<open>C30: In 8-bit mode, when \<open>disk_write\<close> of drive 0 returns: the bus saw the sectors one after the other, each with
  the register writes of the ATA write command of its block number, the wait until the card is not busy, a status
  without the error bit, the wait for the data request, the 512 bytes of the buffer, and the wait until the card
  has finished. On \<open>RES_OK\<close> that is all \<open>cnt\<close> sectors; on \<open>RES_ERROR\<close> the sectors before the failing one, for which
  the command was issued, the status had the error bit and no data was written. Memory is unchanged.\<close>

theorem disk_write_correct:
  assumes "ide_bus_mode s = 0" "disk_write env 0 buff sector cnt s = Some (r, s')"
  shows "\<exists>hs. cf_hist s' = cf_hist s @ concat hs \<and> cf_mem s' = cf_mem s \<and>
    sectors_done (writes_sector (cf_mem s) buff) (\<lambda>sec. sector_refused (write_command sec))
      (pt_base (drive_parts s ! 0) + sector) (unat cnt) r hs \<and>
    ide_bus_mode s' = ide_bus_mode s \<and> drive_parts s' = drive_parts s"
proof -
  have "disk_write_loop env (unat cnt) (pt_base (drive_parts s ! 0) + sector) buff s = Some (r, s')"
    using assms(2) by (simp add: disk_write_def)
  from write_loop_run [OF assms(1) this] show ?thesis unfolding traced_def by blast
qed

text \<open>C31: on a card that is never busy for ever and that asks for the data of a transfer command,
  \<open>disk_read\<close> and \<open>disk_write\<close> always return, although their wait loops have no time-out.\<close>

theorem disk_transfers_return:
  assumes "cf_responds env"
  shows "(\<exists>r s'. disk_read env pdrv buff sector cnt s = Some (r, s')) \<and>
    (\<exists>r s'. disk_write env pdrv buff sector cnt s = Some (r, s'))"
  using read_loop_returns [OF assms] write_loop_returns [OF assms] by (simp add: disk_read_def disk_write_def)

text \<open>\<open>read_partition_table\<close> inverts the on-disk format: when the four entries from offset \<open>0x1BE\<close> hold
  partitions \<open>qs\<close>, with any CHS fields, the driver's table becomes \<open>qs\<close>.\<close>

theorem read_partition_table_correct:
  assumes "length qs = 4" "\<And>i. i < 4 \<Longrightarrow> length (c1 i) = 3 \<and> length (c2 i) = 3 \<and>
    rd_bytes (cf_mem s) (buffer + 0x1BE + 16 * i) 16 = partition_bytes (c1 i) (c2 i) (qs ! i)"
  shows "drive_parts (read_partition_table buffer s) = qs"
proof (rule nth_equalityI)
  fix i assume "i < length (drive_parts (read_partition_table buffer s))"
  then have "i < 4" by (simp add: read_partition_table_def)
  then show "drive_parts (read_partition_table buffer s) ! i = qs ! i"
    using partition_read assms(2) [of i] by (simp add: read_partition_table_def)
qed (simp add: read_partition_table_def assms(1))

section \<open>Witnesses\<close>

definition demo_card :: cf_env where
  "demo_card = \<lparr>env_reg = (\<lambda>h a. if a = R_STATUS then 0x48 else 0x5A), env_data = (\<lambda>_. 0), env_tick = (\<lambda>_. 0)\<rparr>"

definition demo_partition :: partition where
  "demo_partition = \<lparr>pt_base = 63, pt_size = 80000, pt_fstype = 6, pt_flags = 0x80\<rparr>"

definition demo_cf :: cf_sys where
  "demo_cf = \<lparr>cf_mem = (\<lambda>q. partition_bytes [1, 1, 0] [0xFE, 0xFF, 0xFF] demo_partition ! ((q - 0xA21BE) mod 16)),
     ide_bus_mode = 0, cf_hist = [], cf_masked = False, drive_parts = replicate 4 demo_partition\<rparr>"

lemma demo_card_responds: "cf_responds demo_card"
  unfolding cf_responds_def by (auto simp: demo_card_def cf_bits)

lemma demo_cf_mode: "ide_bus_mode demo_cf = 0"
  by (simp add: demo_cf_def)

theorem disk_transfers_witness:
  "(\<exists>r s'. disk_read demo_card 0 0x1000 7 2 demo_cf = Some (r, s')) \<and>
   (\<exists>r s'. disk_write demo_card 0 0x1000 7 2 demo_cf = Some (r, s'))"
  using disk_transfers_return [OF demo_card_responds] by blast

lemma write_sector_no_error:
  assumes "\<And>h. env_reg env h R_STATUS AND 1 = 0" "ata_write_sector env sector buf s = Some (r, s')"
  shows "r = 512"
  using assms(2) by (auto simp: ata_write_sector_def bind_eq_Some_conv rd_reg_def Let_def assms(1) split: if_splits)

lemma write_loop_no_error:
  assumes "\<And>h. env_reg env h R_STATUS AND 1 = 0"
  shows "disk_write_loop env n sector buf s = Some (r, s') \<Longrightarrow> r = RES_OK"
  by (induction n arbitrary: sector buf s)
    (auto simp: bind_eq_Some_conv dest: write_sector_no_error [OF assms] split: if_splits)

lemma read_sector_no_error:
  assumes "\<And>h. env_reg env h R_STATUS AND 1 = 0" "ata_read_sector env sector buf s = Some (r, s')"
  shows "r = 512"
  using assms(2) by (auto simp: ata_read_sector_def bind_eq_Some_conv rd_reg_def Let_def assms(1) split: if_splits)

lemma read_loop_no_error:
  assumes "\<And>h. env_reg env h R_STATUS AND 1 = 0"
  shows "disk_read_loop env n sector buf s = Some (r, s') \<Longrightarrow> r = RES_OK"
  by (induction n arbitrary: sector buf s)
    (auto simp: bind_eq_Some_conv dest: read_sector_no_error [OF assms] split: if_splits)

lemma demo_card_no_error: "env_reg demo_card h R_STATUS AND 1 = 0"
  by (simp add: demo_card_def)

theorem disk_read_witness:
  "\<exists>s' ds es. disk_read demo_card 0 0x1000 7 2 demo_cf = Some (RES_OK, s') \<and>
     cf_mem s' = wr_bytes (cf_mem demo_cf) 0x1000 (ds @ es) \<and> length ds = 512 \<and> length es = 512"
proof -
  obtain r s' where run: "disk_read demo_card 0 0x1000 7 2 demo_cf = Some (r, s')"
    using read_loop_returns [OF demo_card_responds] by (fastforce simp: disk_read_def)
  then have r: "r = RES_OK" using read_loop_no_error [OF demo_card_no_error] by (auto simp: disk_read_def)
  obtain hs dss where d: "length dss = 2" "cf_mem s' = wr_bytes (cf_mem demo_cf) 0x1000 (concat dss)"
    "sectors_done (reads_sector dss) (\<lambda>sec. sector_refused (read_command sec)) (pt_base (drive_parts demo_cf ! 0) + 7) 2 RES_OK hs"
    using disk_read_correct [OF demo_cf_mode run] unfolding r by (elim exE conjE) (rule that; simp)
  then have "length (dss ! 0) = 512" "length (dss ! 1) = 512" by (auto simp: sectors_done_def reads_sector_def)
  moreover obtain ds es where "dss = [ds, es]" using d(1) by (auto simp: numeral_2_eq_2 length_Suc_conv)
  ultimately show ?thesis using run d(2) unfolding r by auto
qed

theorem disk_write_witness:
  "\<exists>s' hs. disk_write demo_card 0 0x1000 7 2 demo_cf = Some (RES_OK, s') \<and> cf_mem s' = cf_mem demo_cf \<and>
     cf_hist s' = concat hs \<and> length hs = 2"
proof -
  obtain r s' where run: "disk_write demo_card 0 0x1000 7 2 demo_cf = Some (r, s')"
    using write_loop_returns [OF demo_card_responds] by (fastforce simp: disk_write_def)
  then have r: "r = RES_OK" using write_loop_no_error [OF demo_card_no_error] by (auto simp: disk_write_def)
  obtain hs where "cf_hist s' = cf_hist demo_cf @ concat hs" "cf_mem s' = cf_mem demo_cf" "length hs = 2"
    using disk_write_correct [OF demo_cf_mode run] unfolding r sectors_done_def by auto
  then show ?thesis using run unfolding r by (intro exI [of _ s'] exI [of _ hs]) (simp add: demo_cf_def)
qed

lemma demo_entry: "rd_bytes (cf_mem demo_cf) (0xA2000 + 0x1BE + 16 * i) 16 = partition_bytes [1, 1, 0] [0xFE, 0xFF, 0xFF] demo_partition"
proof (rule nth_equalityI)
  fix j assume "j < length (rd_bytes (cf_mem demo_cf) (0xA2000 + 0x1BE + 16 * i) 16)"
  then have "j < 16" by simp
  moreover have "(16 * i + j) mod 16 = j" using \<open>j < 16\<close> by simp
  ultimately show "rd_bytes (cf_mem demo_cf) (0xA2000 + 0x1BE + 16 * i) 16 ! j =
      partition_bytes [1, 1, 0] [0xFE, 0xFF, 0xFF] demo_partition ! j"
    by (simp add: demo_cf_def add.commute)
qed (simp add: partition_bytes_def le_bytes32_def)

theorem read_partition_table_witness:
  "drive_parts (read_partition_table 0xA2000 demo_cf) = replicate 4 demo_partition"
  using read_partition_table_correct [of "replicate 4 demo_partition" "\<lambda>_. [1, 1, 0]" "\<lambda>_. [0xFE, 0xFF, 0xFF]" demo_cf "0xA2000"]
    demo_entry by simp

end
