(* ===== verification/Shell_History.thy ===== *)
theory Shell_History
  imports Libc_String
begin

text \<open>
  \<open>bios/shell/shell_history.c\<close>: the line editor of the shell with its command history. The array
  \<open>history\<close> and the caller's line buffer are ranges of the flat memory, so the copies are those of
  the library (\<open>strncpy\<close>, \<open>strcpy\<close>, \<open>strlen\<close>). The keys are the bytes that successive calls of
  \<open>ring_buf_get_char\<close> return; a list that ends before Enter is a call that is still waiting.
  The abstract editor below keeps a line and the list of remembered commands, latest first; the
  code is shown to refine it.
\<close>

section \<open>The code\<close>

definition HIST_SIZE :: nat where "HIST_SIZE = 16"
definition LINE_MAX :: nat where "LINE_MAX = 128"
definition KEY_UP :: u8 where "KEY_UP = 0x10"
definition KEY_DOWN :: u8 where "KEY_DOWN = 0x11"
definition KEY_BS :: u8 where "KEY_BS = 0x08"
definition KEY_ENTER :: u8 where "KEY_ENTER = 0x0D"

lemmas key_defs = KEY_UP_def KEY_DOWN_def KEY_BS_def KEY_ENTER_def

record shell_hist =
  sh_mem :: mem
  hist_count :: int
  hist_cursor :: int
  sh_out :: "u8 list"

text \<open>\<open>history[i]\<close> starts at \<open>slot h i\<close> when the array starts at \<open>h\<close>.\<close>

definition slot :: "nat \<Rightarrow> nat \<Rightarrow> nat" where
  "slot h i = h + LINE_MAX * i"

partial_function (option) puts :: "mem \<Rightarrow> nat \<Rightarrow> u8 list option" where
  "puts m str = (if m str = 0 then Some [] else Option.bind (puts m (str + 1)) (\<lambda>t. Some (m str # t)))"

declare puts.simps [code]

definition redraw_line :: "nat \<Rightarrow> nat \<Rightarrow> shell_hist \<Rightarrow> shell_hist option" where
  "redraw_line old_len text s =
     map_option (\<lambda>t. s\<lparr>sh_out := sh_out s @ replicate old_len 8 @ replicate old_len 0x20 @ replicate old_len 8 @ t\<rparr>)
       (puts (sh_mem s) text)"

definition history_add :: "nat \<Rightarrow> nat \<Rightarrow> shell_hist \<Rightarrow> shell_hist" where
  "history_add h cmd s =
     (if sh_mem s cmd = 0 then s
      else
        (let d = slot h (nat (hist_count s mod int HIST_SIZE));
             m = fst (strncpy (sh_mem s) d cmd 127);
             m = m(d + LINE_MAX - 1 := 0)
         in s\<lparr>sh_mem := m, hist_count := hist_count s + 1, hist_cursor := -1\<rparr>))"

text \<open>Showing entry \<open>idx\<close> of the history: the common part of the two arrow keys.\<close>

definition show_entry :: "nat \<Rightarrow> nat \<Rightarrow> nat \<Rightarrow> shell_hist \<Rightarrow> (nat \<times> shell_hist) option" where
  "show_entry h buf len s =
     (let idx = nat ((hist_count s - 1 - hist_cursor s + int HIST_SIZE) mod int HIST_SIZE) in
      Option.bind (redraw_line len (slot h idx) s) (\<lambda>s.
      Option.bind (strcpy (sh_mem s) buf (slot h idx)) (\<lambda>(m, _).
      map_option (\<lambda>n. (unat n, s\<lparr>sh_mem := m\<rparr>)) (strlen m buf))))"

text \<open>One turn of the loop of \<open>readline_with_history\<close> for a key other than Enter: the new length and state.\<close>

definition readline_key :: "nat \<Rightarrow> nat \<Rightarrow> u8 \<Rightarrow> nat \<Rightarrow> shell_hist \<Rightarrow> (nat \<times> shell_hist) option" where
  "readline_key h buf c len s =
     (if c = KEY_BS then
        (if len > 0 then
           Some (len - 1, s\<lparr>sh_mem := (sh_mem s)(buf + (len - 1) := 0), sh_out := sh_out s @ [8, 0x20, 8]\<rparr>)
         else Some (len, s))
      else if c = KEY_UP then
        (if hist_cursor s + 1 < hist_count s \<and> hist_cursor s + 1 < int HIST_SIZE
         then show_entry h buf len (s\<lparr>hist_cursor := hist_cursor s + 1\<rparr>)
         else Some (len, s))
      else if c = KEY_DOWN then
        (if hist_cursor s > 0 then show_entry h buf len (s\<lparr>hist_cursor := hist_cursor s - 1\<rparr>)
         else if hist_cursor s = 0 then
           Some (0, s\<lparr>hist_cursor := -1, sh_mem := (sh_mem s)(buf := 0),
             sh_out := sh_out s @ replicate len 8 @ replicate len 0x20 @ replicate len 8\<rparr>)
         else Some (len, s))
      else if len < LINE_MAX - 1 then
        Some (len + 1, s\<lparr>sh_mem := (sh_mem s)(buf + len := c, buf + (len + 1) := 0), sh_out := sh_out s @ [c]\<rparr>)
      else Some (len, s))"

fun readline_loop :: "nat \<Rightarrow> nat \<Rightarrow> u8 list \<Rightarrow> nat \<Rightarrow> shell_hist \<Rightarrow> (shell_hist \<times> u8 list) option" where
  "readline_loop h buf [] len s = None"
| "readline_loop h buf (c # keys) len s =
     (if c = KEY_ENTER then
        Some (s\<lparr>sh_out := sh_out s @ [0x0A], sh_mem := (sh_mem s)(buf + len := 0)\<rparr>, keys)
      else Option.bind (readline_key h buf c len s) (\<lambda>(len', s'). readline_loop h buf keys len' s'))"

definition readline_with_history :: "nat \<Rightarrow> nat \<Rightarrow> u8 list \<Rightarrow> shell_hist \<Rightarrow> (shell_hist \<times> u8 list) option" where
  "readline_with_history h buf keys s =
     readline_loop h buf keys 0 (s\<lparr>sh_mem := (sh_mem s)(buf := 0), hist_cursor := -1\<rparr>)"

section \<open>The abstract editor\<close>

record editor =
  ed_line :: "u8 list"
  ed_pos :: "nat option"

text \<open>\<open>cmds\<close> are the remembered commands, latest first; \<open>ed_pos\<close> is the one on display.\<close>

definition ed_key :: "u8 list list \<Rightarrow> u8 \<Rightarrow> editor \<Rightarrow> editor" where
  "ed_key cmds c e =
     (if c = KEY_BS then e\<lparr>ed_line := butlast (ed_line e)\<rparr>
      else if c = KEY_UP then
        (let j = (case ed_pos e of None \<Rightarrow> 0 | Some i \<Rightarrow> i + 1) in
         if j < length cmds then \<lparr>ed_line = cmds ! j, ed_pos = Some j\<rparr> else e)
      else if c = KEY_DOWN then
        (case ed_pos e of
           None \<Rightarrow> e
         | Some 0 \<Rightarrow> \<lparr>ed_line = [], ed_pos = None\<rparr>
         | Some (Suc j) \<Rightarrow> \<lparr>ed_line = cmds ! j, ed_pos = Some j\<rparr>)
      else if length (ed_line e) < LINE_MAX - 1 then e\<lparr>ed_line := ed_line e @ [c]\<rparr>
      else e)"

definition ed_add :: "u8 list \<Rightarrow> u8 list list \<Rightarrow> u8 list list" where
  "ed_add line cmds = (if line = [] then cmds else take HIST_SIZE (line # cmds))"

text \<open>The history part of the memory holds the commands \<open>cmds\<close>.\<close>

definition hist_rel :: "nat \<Rightarrow> u8 list list \<Rightarrow> shell_hist \<Rightarrow> bool" where
  "hist_rel h cmds s \<longleftrightarrow> hist_count s \<ge> 0 \<and> length cmds = min (nat (hist_count s)) HIST_SIZE \<and>
     (\<forall>j < length cmds. length (cmds ! j) < LINE_MAX \<and>
        cstr (sh_mem s) (slot h (nat ((hist_count s - 1 - int j) mod int HIST_SIZE))) (cmds ! j))"

definition line_rel :: "nat \<Rightarrow> nat \<Rightarrow> shell_hist \<Rightarrow> editor \<Rightarrow> bool" where
  "line_rel buf len s e \<longleftrightarrow> len = length (ed_line e) \<and> len < LINE_MAX \<and> cstr (sh_mem s) buf (ed_line e) \<and>
     hist_cursor s = (case ed_pos e of None \<Rightarrow> -1 | Some j \<Rightarrow> int j)"

definition pos_ok :: "u8 list list \<Rightarrow> editor \<Rightarrow> bool" where
  "pos_ok cmds e \<longleftrightarrow> (case ed_pos e of None \<Rightarrow> True | Some j \<Rightarrow> j < length cmds)"

text \<open>The line buffer does not overlap the history array.\<close>

definition layout :: "nat \<Rightarrow> nat \<Rightarrow> bool" where
  "layout h buf \<longleftrightarrow> apart h (LINE_MAX * HIST_SIZE) buf LINE_MAX"

section \<open>Refinement\<close>

lemma puts_cstr: "cstr m p s \<Longrightarrow> puts m p = Some s"
  by (induction s arbitrary: p) (simp_all add: puts.simps)

lemma slot_bound: "i < HIST_SIZE \<Longrightarrow> h \<le> slot h i \<and> slot h i + LINE_MAX \<le> h + LINE_MAX * HIST_SIZE"
  by (simp add: slot_def LINE_MAX_def HIST_SIZE_def)

lemma idx_less: "nat (x mod int HIST_SIZE) < HIST_SIZE"
  by (simp add: HIST_SIZE_def nat_less_iff)

text \<open>A store into the line buffer leaves the history alone.\<close>

lemma hist_rel_buf:
  assumes "hist_rel h cmds s" "layout h buf" "\<And>a. sh_mem s' a = sh_mem s a \<or> buf \<le> a \<and> a < buf + LINE_MAX"
    "hist_count s' = hist_count s"
  shows "hist_rel h cmds s'"
proof -
  have "cstr (sh_mem s') (slot h i) c = cstr (sh_mem s) (slot h i) c"
    if "i < HIST_SIZE" "length c < LINE_MAX" for i c
  proof (rule cstr_cong)
    fix k assume "k \<le> length c"
    then have "\<not> (buf \<le> slot h i + k \<and> slot h i + k < buf + LINE_MAX)"
      using that slot_bound [OF that(1), of h] assms(2) by (auto simp: layout_def apart_def)
    then show "sh_mem s' (slot h i + k) = sh_mem s (slot h i + k)" using assms(3) by blast
  qed
  then show ?thesis using assms(1,4) idx_less by (simp add: hist_rel_def)
qed


lemma hist_rel_memI:
  "hist_rel h cmds s \<Longrightarrow> sh_mem s' = sh_mem s \<Longrightarrow> hist_count s' = hist_count s \<Longrightarrow> hist_rel h cmds s'"
  by (simp add: hist_rel_def)

lemma layout_slot:
  "layout h buf \<Longrightarrow> i < HIST_SIZE \<Longrightarrow> apart buf LINE_MAX (slot h i) LINE_MAX"
  using slot_bound [of i h] by (auto simp: layout_def apart_def)

text \<open>Showing an entry puts it on the line and copies nothing outside the buffer.\<close>

lemma show_entry_rel:
  assumes "hist_rel h cmds s" "layout h buf" "hist_cursor s = int j" "j < length cmds"
  shows "\<exists>s'. show_entry h buf len s = Some (length (cmds ! j), s') \<and>
    sh_mem s' = wr_bytes (sh_mem s) buf (cmds ! j @ [0]) \<and> hist_count s' = hist_count s \<and> hist_cursor s' = int j"
proof -
  define p where "p = slot h (nat ((hist_count s - 1 - int j) mod int HIST_SIZE))"
  have c: "cstr (sh_mem s) p (cmds ! j)" and l: "length (cmds ! j) < LINE_MAX"
    using assms(1,4) by (auto simp: hist_rel_def p_def)
  have ap: "apart buf LINE_MAX p LINE_MAX"
    unfolding p_def by (rule layout_slot [OF assms(2) idx_less])
  have eq: "(hist_count s - 1 - hist_cursor s + int HIST_SIZE) mod int HIST_SIZE
      = (hist_count s - 1 - int j) mod int HIST_SIZE"
    by (simp add: assms(3))
  have "apart buf (Suc (length (cmds ! j))) p (Suc (length (cmds ! j)))"
    using ap l by (auto simp: apart_def)
  then have cp: "strcpy_loop (sh_mem s) buf p = Some (wr_bytes (sh_mem s) buf (cmds ! j @ [0]))"
    by (rule strcpy_loop_cstr [OF c])
  have "cstr (wr_bytes (sh_mem s) buf (cmds ! j @ [0])) buf (cmds ! j)"
    by (rule cstr_wr_same [OF cstr_nonzero [OF c]])
  moreover have "unat (of_nat (length (cmds ! j)) :: u32) = length (cmds ! j)"
    using l by (intro of_nat_inverse) (simp add: LINE_MAX_def)
  ultimately show ?thesis
    using l cp puts_cstr [OF c]
    by (simp add: show_entry_def Let_def eq p_def [symmetric] redraw_line_def strcpy_def strlen_cstr assms(3))
qed

definition hist_inv :: "nat \<Rightarrow> nat \<Rightarrow> u8 list list \<Rightarrow> nat \<Rightarrow> shell_hist \<Rightarrow> editor \<Rightarrow> bool" where
  "hist_inv h buf cmds len s e \<longleftrightarrow> hist_rel h cmds s \<and> line_rel buf len s e \<and> pos_ok cmds e"

text \<open>The invariant after a step: the stores stay in the buffer, the buffer holds the new line.\<close>

lemma hist_invI:
  assumes "hist_rel h cmds s" "layout h buf" "\<And>a. sh_mem s' a = sh_mem s a \<or> buf \<le> a \<and> a < buf + LINE_MAX"
    "hist_count s' = hist_count s" "line_rel buf len s' e" "pos_ok cmds e"
  shows "hist_inv h buf cmds len s' e"
  using assms hist_rel_buf [of h cmds s buf s'] by (simp add: hist_inv_def)

lemma show_entry_inv:
  assumes "hist_rel h cmds s" "layout h buf" "hist_cursor s = int j" "j < length cmds"
  shows "\<exists>len' s'. show_entry h buf len s = Some (len', s') \<and>
    (\<forall>a. sh_mem s' a = sh_mem s a \<or> buf \<le> a \<and> a < buf + LINE_MAX) \<and>
    hist_inv h buf cmds len' s' \<lparr>ed_line = cmds ! j, ed_pos = Some j\<rparr>"
proof -
  obtain s' where s': "show_entry h buf len s = Some (length (cmds ! j), s')"
      "sh_mem s' = wr_bytes (sh_mem s) buf (cmds ! j @ [0])" "hist_count s' = hist_count s" "hist_cursor s' = int j"
    using show_entry_rel [OF assms] by blast
  have c: "\<exists>p. cstr (sh_mem s) p (cmds ! j)" and l: "length (cmds ! j) < LINE_MAX"
    using assms(1,4) by (auto simp: hist_rel_def)
  have m: "sh_mem s' a = sh_mem s a \<or> buf \<le> a \<and> a < buf + LINE_MAX" for a
    using l by (auto simp: s'(2) wr_bytes_apply)
  have "line_rel buf (length (cmds ! j)) s' \<lparr>ed_line = cmds ! j, ed_pos = Some j\<rparr>"
    using c l s' by (auto simp: line_rel_def cstr_wr_same dest: cstr_nonzero)
  then have "hist_inv h buf cmds (length (cmds ! j)) s' \<lparr>ed_line = cmds ! j, ed_pos = Some j\<rparr>"
    using assms(4) m s'(3) by (intro hist_invI [OF assms(1,2)]) (auto simp: pos_ok_def)
  with s'(1) m show ?thesis by blast
qed

lemma cstr_truncate: "cstr m p s \<Longrightarrow> s \<noteq> [] \<Longrightarrow> cstr (m(p + (length s - Suc 0) := 0)) p (butlast s)"
  using cstr_append_iff [of m p "butlast s" "[last s]"] by (simp add: cstr_iff mem_simps)

lemma cstr_extend:
  assumes "cstr m p s" "c \<noteq> 0"
  shows "cstr (m(p + length s := c, p + (length s + 1) := 0)) p (s @ [c])"
proof -
  have "rd_bytes (m(p + length s := c, p + (length s + 1) := 0)) p (length s) = s"
    using assms(1) by (simp add: mem_simps cstr_iff)
  then show ?thesis using assms cstr_nonzero [OF assms(1)] by (simp add: cstr_append_iff)
qed

lemma history_key_refines:
  assumes "hist_inv h buf cmds len s e" "layout h buf" "c \<noteq> 0"
  shows "\<exists>len' s'. readline_key h buf c len s = Some (len', s') \<and>
    (\<forall>a. sh_mem s' a = sh_mem s a \<or> buf \<le> a \<and> a < buf + LINE_MAX) \<and>
    hist_inv h buf cmds len' s' (ed_key cmds c e)"
proof -
  have r: "hist_rel h cmds s" and lr: "line_rel buf len s e" and po: "pos_ok cmds e"
    using assms(1) by (auto simp: hist_inv_def)
  have lens: "len = length (ed_line e)" "len < LINE_MAX" "cstr (sh_mem s) buf (ed_line e)"
    "hist_cursor s = (case ed_pos e of None \<Rightarrow> -1 | Some j \<Rightarrow> int j)"
    using lr by (auto simp: line_rel_def)
  have same: ?thesis if "readline_key h buf c len s = Some (len, s)" "ed_key cmds c e = e"
    using that assms(1) by auto
  have step: ?thesis
    if "readline_key h buf c len s = Some (len', s')" "\<forall>a. sh_mem s' a = sh_mem s a \<or> buf \<le> a \<and> a < buf + LINE_MAX"
      "hist_count s' = hist_count s" "line_rel buf len' s' (ed_key cmds c e)" "pos_ok cmds (ed_key cmds c e)" for len' s'
    using that hist_invI [OF r assms(2), of s' len' "ed_key cmds c e"] by auto
  have show1: ?thesis
    if "readline_key h buf c len s = show_entry h buf len (s\<lparr>hist_cursor := int j\<rparr>)" "j < length cmds"
       "ed_key cmds c e = \<lparr>ed_line = cmds ! j, ed_pos = Some j\<rparr>" for j
    using show_entry_inv [OF hist_rel_memI [OF r, of "s\<lparr>hist_cursor := int j\<rparr>"] assms(2) _ that(2), of len] that(1,3) by simp
  consider "c = KEY_BS" | "c = KEY_UP" | "c = KEY_DOWN" | "c \<noteq> KEY_BS" "c \<noteq> KEY_UP" "c \<noteq> KEY_DOWN" by blast
  then show ?thesis
  proof cases
    case 1
    show ?thesis
    proof (cases "len = 0")
      case True
      with 1 lens show ?thesis by (intro same) (simp_all add: readline_key_def ed_key_def)
    next
      case False
      with 1 lens po cstr_truncate [OF lens(3)] show ?thesis
        by (intro step [of "len - 1" "s\<lparr>sh_mem := (sh_mem s)(buf + (len - 1) := 0), sh_out := sh_out s @ [8, 0x20, 8]\<rparr>"])
          (auto simp: readline_key_def ed_key_def line_rel_def pos_ok_def fun_upd_apply simp del: Nat.add_diff_assoc)
    qed
  next
    case 2
    define j where "j = (case ed_pos e of None \<Rightarrow> 0 | Some i \<Rightarrow> i + 1)"
    have j: "hist_cursor s + 1 = int j" by (simp add: lens(4) j_def split: option.splits)
    have jc: "j < length cmds \<longleftrightarrow> int j < hist_count s \<and> int j < int HIST_SIZE"
      using r by (auto simp: hist_rel_def)
    show ?thesis
    proof (cases "j < length cmds")
      case True
      with 2 jc j show ?thesis by (intro show1 [of j]) (simp_all add: readline_key_def ed_key_def j_def [symmetric] key_defs)
    next
      case False
      with 2 jc j show ?thesis by (intro same) (auto simp add: readline_key_def ed_key_def j_def [symmetric] key_defs)
    qed
  next
    case 3
    show ?thesis
    proof (cases "ed_pos e")
      case None
      with 3 lens show ?thesis by (intro same) (simp_all add: readline_key_def ed_key_def key_defs)
    next
      case (Some i)
      show ?thesis
      proof (cases i)
        case 0
        with 3 Some lens show ?thesis
          by (intro step [of 0 "s\<lparr>hist_cursor := -1, sh_mem := (sh_mem s)(buf := 0),
               sh_out := sh_out s @ replicate len 8 @ replicate len 0x20 @ replicate len 8\<rparr>"])
            (auto simp: readline_key_def ed_key_def line_rel_def pos_ok_def key_defs fun_upd_apply)
      next
        case (Suc k)
        with 3 Some lens po show ?thesis
          by (intro show1 [of k]) (simp_all add: readline_key_def ed_key_def pos_ok_def key_defs)
      qed
    qed
  next
    case 4
    show ?thesis
    proof (cases "len < LINE_MAX - 1")
      case True
      with 4 lens po assms(3) cstr_extend [of "sh_mem s" buf "ed_line e" c] show ?thesis
        by (intro step [of "len + 1"
            "s\<lparr>sh_mem := (sh_mem s)(buf + len := c, buf + (len + 1) := 0), sh_out := sh_out s @ [c]\<rparr>"])
          (auto simp: readline_key_def ed_key_def line_rel_def pos_ok_def fun_upd_apply)
    next
      case False
      with 4 lens show ?thesis by (intro same) (simp_all add: readline_key_def ed_key_def)
    qed
  qed
qed

fun ed_keys :: "u8 list list \<Rightarrow> u8 list \<Rightarrow> editor \<Rightarrow> editor" where
  "ed_keys cmds [] e = e"
| "ed_keys cmds (c # keys) e = ed_keys cmds keys (ed_key cmds c e)"

lemma readline_loop_refines:
  assumes "hist_inv h buf cmds len s e" "layout h buf" "0 \<notin> set keys" "KEY_ENTER \<notin> set keys"
  shows "\<exists>s'. readline_loop h buf (keys @ KEY_ENTER # rest) len s = Some (s', rest) \<and>
    (\<forall>a. sh_mem s' a = sh_mem s a \<or> buf \<le> a \<and> a < buf + LINE_MAX) \<and>
    (\<exists>n. hist_inv h buf cmds n s' (ed_keys cmds keys e))"
  using assms
proof (induction keys arbitrary: len s e)
  case Nil
  let ?s = "s\<lparr>sh_out := sh_out s @ [0x0A], sh_mem := (sh_mem s)(buf + len := 0)\<rparr>"
  have lr: "line_rel buf len s e" using Nil.prems(1) by (simp add: hist_inv_def)
  then have "(sh_mem s)(buf + len := 0) = sh_mem s"
    by (auto simp: line_rel_def fun_upd_idem_iff dest: cstr_end)
  moreover from this Nil.prems(1) have "hist_inv h buf cmds len ?s e"
    by (simp add: hist_inv_def line_rel_def hist_rel_def)
  ultimately show ?case by auto
next
  case (Cons c keys)
  obtain len' s' where s': "readline_key h buf c len s = Some (len', s')"
      "\<forall>a. sh_mem s' a = sh_mem s a \<or> buf \<le> a \<and> a < buf + LINE_MAX"
      "hist_inv h buf cmds len' s' (ed_key cmds c e)"
    using history_key_refines [OF Cons.prems(1,2), of c] Cons.prems(3) by auto
  then obtain t where "readline_loop h buf (keys @ KEY_ENTER # rest) len' s' = Some (t, rest)"
      "\<forall>a. sh_mem t a = sh_mem s' a \<or> buf \<le> a \<and> a < buf + LINE_MAX"
      "\<exists>n. hist_inv h buf cmds n t (ed_keys cmds keys (ed_key cmds c e))"
    using Cons.IH [OF s'(3) Cons.prems(2)] Cons.prems(3,4) by auto
  with s'(1,2) Cons.prems(4) show ?case by auto metis+
qed

definition no_line :: editor where
  "no_line = \<lparr>ed_line = [], ed_pos = None\<rparr>"

text \<open>C11: Reading a line: whatever keys are pressed before Enter (any bytes but NUL), the call returns,
  the buffer holds the line that the abstract editor would have, at most 127 characters, the
  history still holds the same commands, and no byte outside the 128 bytes of the buffer changed.\<close>

theorem readline_refines:
  assumes "hist_rel h cmds s" "layout h buf" "0 \<notin> set keys" "KEY_ENTER \<notin> set keys"
  shows "\<exists>s'. readline_with_history h buf (keys @ KEY_ENTER # rest) s = Some (s', rest) \<and>
    cstr (sh_mem s') buf (ed_line (ed_keys cmds keys no_line)) \<and>
    length (ed_line (ed_keys cmds keys no_line)) < LINE_MAX \<and> hist_rel h cmds s' \<and>
    (\<forall>a. sh_mem s' a = sh_mem s a \<or> buf \<le> a \<and> a < buf + LINE_MAX)"
proof -
  let ?s = "s\<lparr>sh_mem := (sh_mem s)(buf := 0), hist_cursor := -1\<rparr>"
  have m: "sh_mem ?s a = sh_mem s a \<or> buf \<le> a \<and> a < buf + LINE_MAX" for a
    by (auto simp: LINE_MAX_def fun_upd_apply)
  have "hist_inv h buf cmds 0 ?s no_line"
    using m by (intro hist_invI [OF assms(1,2)]) (auto simp: no_line_def line_rel_def pos_ok_def LINE_MAX_def)
  from readline_loop_refines [OF this assms(2-4), of rest] m show ?thesis
    by (auto simp: readline_with_history_def hist_inv_def line_rel_def) metis+
qed

lemma cstr_copied:
  assumes "cstr m q s" "length s < n"
  shows "cstr (wr_bytes m' p (rd_bytes m q n)) p s"
proof -
  have "rd_bytes (wr_bytes m' p (rd_bytes m q n)) p (length s) = rd_bytes m q (length s)"
    using assms(2) by (intro nth_equalityI) (auto simp: wr_bytes_apply)
  moreover have "wr_bytes m' p (rd_bytes m q n) (p + length s) = m (q + length s)"
    using assms(2) by (simp add: wr_bytes_apply)
  ultimately show ?thesis using assms(1) by (simp add: cstr_iff)
qed

lemma slot_apart: "i \<noteq> j \<Longrightarrow> apart (slot h i) LINE_MAX (slot h j) LINE_MAX"
  using mult_le_mono2 [of "Suc i" j LINE_MAX] mult_le_mono2 [of "Suc j" i LINE_MAX]
  by (cases "i < j") (auto simp: slot_def apart_def not_less)

lemma older_slot:
  assumes "j < HIST_SIZE - 1" 
  shows "nat ((n - 1 - int j) mod int HIST_SIZE) \<noteq> nat (n mod int HIST_SIZE)"
proof 
  assume "nat ((n - 1 - int j) mod int HIST_SIZE) = nat (n mod int HIST_SIZE)"
  then have "(n - 1 - int j) mod 16 = n mod 16" by (simp add: HIST_SIZE_def)
  then have "int 16 dvd (n - 1 - int j - n)" by (simp add: mod_eq_dvd_iff)
  then have "16 dvd (1 + int j)" using dvd_minus_iff [of 16 "1 + int j"] by (simp add: algebra_simps)
  then have "16 \<le> 1 + int j" by (intro zdvd_imp_le) auto
  then show False using assms by (simp add: HIST_SIZE_def)
qed

text \<open>C35: Remembering a command: after \<open>history_add\<close> the array holds the new line in front of the
  older ones and the sixteen latest commands are kept; an empty line changes nothing.\<close>

theorem history_add_refines:
  assumes "hist_rel h cmds s" "cstr (sh_mem s) cmd line" "length line < LINE_MAX"
    "apart h (LINE_MAX * HIST_SIZE) cmd LINE_MAX"
  shows "hist_rel h (ed_add line cmds) (history_add h cmd s) \<and>
    (\<forall>a. sh_mem (history_add h cmd s) a = sh_mem s a \<or> h \<le> a \<and> a < h + LINE_MAX * HIST_SIZE)"
proof (cases "line = []")
  case True
  then show ?thesis using assms by (simp add: ed_add_def history_add_def)
next
  case False
  define i where "i = nat (hist_count s mod int HIST_SIZE)"
  define d where "d = slot h i"
  define m where "m = (wr_bytes (sh_mem s) d (rd_bytes (sh_mem s) cmd 127))(d + 127 := 0)"
  have nz: "sh_mem s cmd \<noteq> 0" using False assms(2) by (cases line) auto
  have d: "h \<le> d" "d + LINE_MAX \<le> h + LINE_MAX * HIST_SIZE"
    using slot_bound [OF idx_less] by (simp_all add: d_def i_def)
  have "memcpy_loop (sh_mem s) d cmd 127 = wr_bytes (sh_mem s) d (rd_bytes (sh_mem s) cmd 127)"
    using assms(4) d by (intro memcpy_loop_eq) (auto simp: apart_def LINE_MAX_def)
  then have eq: "history_add h cmd s = s\<lparr>sh_mem := m, hist_count := hist_count s + 1, hist_cursor := -1\<rparr>"
    using nz by (simp add: history_add_def Let_def strncpy_def m_def d_def i_def LINE_MAX_def add.commute [of _ 127])
  have out: "m a = sh_mem s a \<or> d \<le> a \<and> a < d + LINE_MAX" for a
    by (auto simp: m_def LINE_MAX_def wr_bytes_apply fun_upd_apply)
  have new: "cstr m d line"
  proof (cases "length line = 127")
    case True
    have "rd_bytes (sh_mem s) cmd 127 = line" using assms(2) True by (simp add: cstr_iff)
    then have "m = wr_bytes (sh_mem s) d (line @ [0])" using True by (simp add: m_def wr_bytes_snoc)
    then show ?thesis using cstr_wr_same [OF cstr_nonzero [OF assms(2)]] by simp
  next
    case False
    then have "length line < 127" using assms(3) by (simp add: LINE_MAX_def)
    then show ?thesis using cstr_copied [OF assms(2), of 127] by (simp add: m_def mem_simps)
  qed
  have old: "cstr m (slot h k) c = cstr (sh_mem s) (slot h k) c" if "k \<noteq> i" "length c < LINE_MAX" for k c
  proof (rule cstr_cong)
    fix x assume "x \<le> length c"
    then show "m (slot h k + x) = sh_mem s (slot h k + x)"
      using out [of "slot h k + x"] slot_apart [OF that(1), of h] that(2) by (auto simp: apart_def d_def)
  qed
  have "hist_rel h (take HIST_SIZE (line # cmds)) (history_add h cmd s)"
    unfolding hist_rel_def
  proof (intro conjI allI impI)
    show "0 \<le> hist_count (history_add h cmd s)" using assms(1) by (simp add: eq hist_rel_def)
    show "length (take HIST_SIZE (line # cmds)) = min (nat (hist_count (history_add h cmd s))) HIST_SIZE"
      using assms(1) by (auto simp: eq hist_rel_def)
  next
    fix j assume j: "j < length (take HIST_SIZE (line # cmds))"
    show "length (take HIST_SIZE (line # cmds) ! j) < LINE_MAX"
      using j assms(1,3) by (cases j) (auto simp: hist_rel_def)
    show "cstr (sh_mem (history_add h cmd s)) (slot h (nat ((hist_count (history_add h cmd s) - 1 - int j) mod int HIST_SIZE)))
       (take HIST_SIZE (line # cmds) ! j)"
    proof (cases j)
      case 0
      then show ?thesis using new by (simp add: eq d_def i_def HIST_SIZE_def)
    next
      case (Suc k)
      then have k: "k < length cmds" "k < HIST_SIZE - 1" using j by auto
      then have "cstr (sh_mem s) (slot h (nat ((hist_count s - 1 - int k) mod int HIST_SIZE))) (cmds ! k)" "length (cmds ! k) < LINE_MAX"
        using assms(1) by (auto simp: hist_rel_def)
      then show ?thesis using Suc k old [OF older_slot [OF k(2), of "hist_count s", folded i_def]]
        by (simp add: eq algebra_simps)
    qed
  qed
  moreover have "sh_mem (history_add h cmd s) a = sh_mem s a \<or> h \<le> a \<and> a < h + LINE_MAX * HIST_SIZE" for a
    using out [of a] d by (auto simp: eq)
  ultimately show ?thesis using False by (simp add: ed_add_def)
qed

text \<open>A machine after the command \<open>ls\<close>: the keys cursor-up, \<open>x\<close>, backspace and \<open>a\<close> give \<open>lsa\<close>.\<close>

definition demo_hist :: shell_hist where
  "demo_hist = \<lparr>sh_mem = wr_bytes (\<lambda>_. 0) 0x1000 [0x6C, 0x73, 0], hist_count = 1, hist_cursor = -1, sh_out = []\<rparr>"

lemma demo_hist_rel: "hist_rel 0x1000 [[0x6C, 0x73]] demo_hist" and demo_layout: "layout 0x1000 0x2000"
  by (simp_all add: demo_hist_def hist_rel_def HIST_SIZE_def LINE_MAX_def slot_def layout_def apart_def fun_upd_apply)

theorem readline_witness:
  "\<exists>s'. readline_with_history 0x1000 0x2000 ([KEY_UP, 0x78, KEY_BS, 0x61] @ KEY_ENTER # []) demo_hist = Some (s', []) \<and>
     cstr (sh_mem s') 0x2000 [0x6C, 0x73, 0x61]"
  using readline_refines [OF demo_hist_rel demo_layout, of "[KEY_UP, 0x78, KEY_BS, 0x61]" "[]"]
  by (auto simp: ed_key_def no_line_def key_defs LINE_MAX_def)

theorem history_add_witness:
  "hist_rel 0x1000 [[0x63], [0x6C, 0x73]]
     (history_add 0x1000 0x3000 (demo_hist\<lparr>sh_mem := wr_bytes (sh_mem demo_hist) 0x3000 [0x63, 0]\<rparr>))"
proof -
  have "hist_rel 0x1000 [[0x6C, 0x73]] (demo_hist\<lparr>sh_mem := wr_bytes (sh_mem demo_hist) 0x3000 [0x63, 0]\<rparr>)"
    by (simp add: demo_hist_def hist_rel_def HIST_SIZE_def LINE_MAX_def slot_def fun_upd_apply)
  from history_add_refines [OF this, of "0x3000" "[0x63]"] show ?thesis
    by (simp add: ed_add_def HIST_SIZE_def LINE_MAX_def apart_def)
qed

end
