(* ===== verification/Elf_Loader.thy ===== *)
theory Elf_Loader
  imports Libc_String
begin

text \<open>
  The ELF loaders of the shell: \<open>load_elf_executable\<close> of \<open>bios/shell/shell.c\<close> and the two functions of
  \<open>bios/shell/elf_loader.c\<close>, \<open>carregar_elf32\<close> (from a buffer) and \<open>carregar_elf32_fatfs\<close> (from a file).
  All of them place the \<open>PT_LOAD\<close> segments of a big-endian 32-bit image in memory and clear the rest
  of each segment. The specification is \<open>load_all\<close>: the segments of the image stored one after the
  other; the three loaders are shown to compute it.

  The FatFs module is a parameter: \<open>rd pos n\<close> is what \<open>f_read\<close> of \<open>n\<close> bytes gives after \<open>f_lseek\<close> to
  \<open>pos\<close>, its \<open>FRESULT\<close> and the bytes it stored (as many as it reports in \<open>br\<close>). The program that is
  started is not part of the model: a successful load gives its entry point.
\<close>

section \<open>Headers\<close>

definition be16 :: "u8 list \<Rightarrow> nat \<Rightarrow> u16" where
  "be16 b i = push_bit 8 (ucast (b ! i)) + ucast (b ! (i + 1))"

definition be32 :: "u8 list \<Rightarrow> nat \<Rightarrow> u32" where
  "be32 b i = push_bit 24 (ucast (b ! i)) + push_bit 16 (ucast (b ! (i + 1))) +
     push_bit 8 (ucast (b ! (i + 2))) + ucast (b ! (i + 3))"

record elf32_header =
  h_magic :: "u8 list"
  h_class :: u8
  h_data :: u8
  h_ident_version :: u8
  h_osabi :: u8
  h_abiversion :: u8
  h_type :: u16
  h_machine :: u16
  h_version :: u32
  h_entry :: u32
  h_phoff :: u32
  h_shoff :: u32
  h_flags :: u32
  h_ehsize :: u16
  h_phentsize :: u16
  h_phnum :: u16
  h_shentsize :: u16
  h_shnum :: u16
  h_shtrndx :: u16

definition elf_header_of :: "u8 list \<Rightarrow> elf32_header" where
  "elf_header_of b = \<lparr>h_magic = take 4 b, h_class = b ! 4, h_data = b ! 5, h_ident_version = b ! 6,
     h_osabi = b ! 7, h_abiversion = b ! 8, h_type = be16 b 16, h_machine = be16 b 18, h_version = be32 b 20,
     h_entry = be32 b 24, h_phoff = be32 b 28, h_shoff = be32 b 32, h_flags = be32 b 36, h_ehsize = be16 b 40,
     h_phentsize = be16 b 42, h_phnum = be16 b 44, h_shentsize = be16 b 46, h_shnum = be16 b 48,
     h_shtrndx = be16 b 50\<rparr>"

record elf32_program_header =
  p_type :: u32
  p_offset :: u32
  p_vaddr :: u32
  p_paddr :: u32
  p_filesz :: u32
  p_memsz :: u32
  p_flags :: u32
  p_align :: u32

definition elf_phdr_of :: "u8 list \<Rightarrow> elf32_program_header" where
  "elf_phdr_of b = \<lparr>p_type = be32 b 0, p_offset = be32 b 4, p_vaddr = be32 b 8, p_paddr = be32 b 12,
     p_filesz = be32 b 16, p_memsz = be32 b 20, p_flags = be32 b 24, p_align = be32 b 28\<rparr>"

definition sizeof_header :: nat where "sizeof_header = 52"
definition sizeof_phdr :: nat where "sizeof_phdr = 32"

definition PT_NULL :: u32 where "PT_NULL = 0"
definition PT_LOAD :: u32 where "PT_LOAD = 1"
definition PT_DYNAMIC :: u32 where "PT_DYNAMIC = 2"
definition PT_INTERP :: u32 where "PT_INTERP = 3"
definition PT_NOTE :: u32 where "PT_NOTE = 4"
definition PT_SHLIB :: u32 where "PT_SHLIB = 5"
definition PT_PHDR :: u32 where "PT_PHDR = 6"
definition ET_EXEC :: u16 where "ET_EXEC = 2"
definition EM_68K :: u16 where "EM_68K = 4"
definition ID_32BIT :: u8 where "ID_32BIT = 1"
definition ID_BIG_ENDIAN :: u8 where "ID_BIG_ENDIAN = 2"

lemmas pt_defs = PT_NULL_def PT_LOAD_def PT_DYNAMIC_def PT_INTERP_def PT_NOTE_def PT_SHLIB_def PT_PHDR_def

definition g_elf_header_bytes :: "u8 list" where
  "g_elf_header_bytes = [0x7F, 0x45, 0x4C, 0x46]"

text \<open>The position of program header \<open>i\<close>, computed in 32 bits.\<close>

definition ph_pos :: "elf32_header \<Rightarrow> nat \<Rightarrow> nat" where
  "ph_pos h i = unat (of_nat i * ucast (h_phentsize h) + h_phoff h)"

section \<open>load_elf_executable\<close>

type_synonym fil_read = "nat \<Rightarrow> nat \<Rightarrow> nat \<times> u8 list"

datatype elf_error = Cannot_read_header | Bad_header | Not_32bit | Not_executable | Not_68000 |
  Cannot_read_program_header | Dynamically_linked | Cannot_read_segment | Needs_interpreter

record elf_state =
  es_mem :: mem
  memLow :: u32
  memHigh :: u32

definition check_header :: "elf32_header \<Rightarrow> elf_error option" where
  "check_header h =
     (if h_magic h \<noteq> [0x7F, 0x45, 0x4C, 0x46] \<or> h_ident_version h \<noteq> 1 then Some Bad_header
      else if h_class h \<noteq> ID_32BIT \<or> h_data h \<noteq> ID_BIG_ENDIAN \<or> h_osabi h \<noteq> 0 \<or> h_abiversion h \<noteq> 0
      then Some Not_32bit
      else if h_type h \<noteq> ET_EXEC then Some Not_executable
      else if h_machine h \<noteq> EM_68K then Some Not_68000
      else None)"

text \<open>The \<open>case PT_LOAD\<close> of the switch: what is read is stored, also when the read then counts as failed.\<close>

definition load_segment :: "fil_read \<Rightarrow> elf32_program_header \<Rightarrow> elf_state \<Rightarrow> elf_state \<times> elf_error option" where
  "load_segment rd ph st =
     (let (fr, bs) = rd (unat (p_offset ph)) (unat (p_filesz ph));
          st = st\<lparr>es_mem := wr_bytes (es_mem st) (unat (p_paddr ph)) bs\<rparr>
      in if fr \<noteq> 0 \<or> length bs \<noteq> unat (p_filesz ph) then (st, Some Cannot_read_segment)
      else
        (let st = (if p_filesz ph < p_memsz ph
               then st\<lparr>es_mem := memset (es_mem st) (unat (p_paddr ph) + unat (p_filesz ph)) 0
                                     (p_memsz ph - p_filesz ph)\<rparr>
               else st);
             st = (if p_paddr ph < memLow st then st\<lparr>memLow := p_paddr ph\<rparr> else st);
             st = (if memHigh st < p_paddr ph + p_filesz ph then st\<lparr>memHigh := p_paddr ph + p_filesz ph\<rparr> else st)
         in (st, None)))"

definition elf_segment :: "fil_read \<Rightarrow> elf32_program_header \<Rightarrow> elf_state \<Rightarrow> elf_state \<times> elf_error option" where
  "elf_segment rd ph st =
     (if p_type ph \<in> {PT_NULL, PT_NOTE, PT_PHDR} then (st, None)
      else if p_type ph \<in> {PT_SHLIB, PT_DYNAMIC} then (st, Some Dynamically_linked)
      else if p_type ph = PT_LOAD then load_segment rd ph st
      else if p_type ph = PT_INTERP then (st, Some Needs_interpreter)
      else (st, None))"

function elf_segments :: "fil_read \<Rightarrow> elf32_header \<Rightarrow> nat \<Rightarrow> elf_state \<Rightarrow> elf_state \<times> elf_error option" where
  "elf_segments rd h progIndex st =
     (if progIndex < unat (h_phnum h) then
        (let (fr, bs) = rd (ph_pos h progIndex) sizeof_phdr in
         if fr \<noteq> 0 \<or> length bs \<noteq> sizeof_phdr then (st, Some Cannot_read_program_header)
         else
           (case elf_segment rd (elf_phdr_of bs) st of
              (st', Some e) \<Rightarrow> (st', Some e)
            | (st', None) \<Rightarrow> elf_segments rd h (progIndex + 1) st'))
      else (st, None))"
  by auto
termination by (relation "measure (\<lambda>(rd, h, i, st). unat (h_phnum h) - i)") auto

declare elf_segments.simps [simp del]

text \<open>The memory at the end and either the error, for which -1 is returned, or the entry point.\<close>

definition load_elf_executable :: "fil_read \<Rightarrow> mem \<Rightarrow> mem \<times> (elf_error + u32)" where
  "load_elf_executable rd m =
     (let (fr, bs) = rd 0 sizeof_header in
      if fr \<noteq> 0 \<or> length bs \<noteq> sizeof_header then (m, Inl Cannot_read_header)
      else
        (let h = elf_header_of bs in
         case check_header h of
           Some e \<Rightarrow> (m, Inl e)
         | None \<Rightarrow>
             (case elf_segments rd h 0 \<lparr>es_mem = m, memLow = 0xFFFFFFFF, memHigh = 0\<rparr> of
                (st, Some e) \<Rightarrow> (es_mem st, Inl e)
              | (st, None) \<Rightarrow> (es_mem st, Inr (h_entry h)))))"

section \<open>elf_loader.c\<close>

text \<open>\<open>carregar_elf32\<close>: the image is at \<open>elf_buf\<close>, addresses are relative to \<open>ram_destino\<close>.\<close>

definition carregar_segment :: "nat \<Rightarrow> nat \<Rightarrow> elf32_program_header \<Rightarrow> mem \<Rightarrow> mem" where
  "carregar_segment elf_buf ram_destino ph m =
     (if p_type ph = PT_LOAD then
        (let dest_addr = ram_destino + unat (p_paddr ph);
             m = (if p_filesz ph > 0
                  then fst (memcpy m dest_addr (elf_buf + unat (p_offset ph)) (unat (p_filesz ph))) else m)
         in if p_filesz ph < p_memsz ph
            then memset m (dest_addr + unat (p_filesz ph)) 0 (p_memsz ph - p_filesz ph) else m)
      else m)"

text \<open>The header is a pointer into memory and is read again in every turn.\<close>

definition header_at :: "mem \<Rightarrow> nat \<Rightarrow> elf32_header" where
  "header_at m p = elf_header_of (rd_bytes m p sizeof_header)"

function carregar_loop :: "nat \<Rightarrow> nat \<Rightarrow> nat \<Rightarrow> mem \<Rightarrow> mem" where
  "carregar_loop elf_buf ram_destino i m =
     (if i < unat (h_phnum (header_at m elf_buf)) then
        carregar_loop elf_buf ram_destino (i + 1)
          (carregar_segment elf_buf ram_destino
             (elf_phdr_of (rd_bytes m (elf_buf + ph_pos (header_at m elf_buf) i) sizeof_phdr)) m)
      else m)"
  by auto
termination
proof (relation "measure (\<lambda>(b, r, i, m). 65536 - i)")
  fix elf_buf ram i :: nat and m
  assume "i < unat (h_phnum (header_at m elf_buf))"
  moreover have "unat (h_phnum (header_at m elf_buf)) < 65536" by simp
  ultimately have "i < 65536" by linarith
  then show "((elf_buf, ram, i + 1, carregar_segment elf_buf ram (elf_phdr_of (rd_bytes m (elf_buf +
      ph_pos (header_at m elf_buf) i) sizeof_phdr)) m), elf_buf, ram, i, m) \<in> measure (\<lambda>(b, r, i, m). 65536 - i)"
    by simp
qed simp

declare carregar_loop.simps [simp del]

definition carregar_elf32 :: "nat \<Rightarrow> nat \<Rightarrow> mem \<Rightarrow> mem \<times> u32" where
  "carregar_elf32 elf_buf ram_destino m =
     (if rd_bytes m elf_buf 4 \<noteq> [0x7F, 0x45, 0x4C, 0x46] then (m, 0)
      else (let m' = carregar_loop elf_buf ram_destino 0 m in (m', h_entry (header_at m' elf_buf))))"

text \<open>
  \<open>carregar_elf32_fatfs\<close>: \<open>rd = None\<close> when \<open>f_open\<close> failed. The result of reading a segment is ignored.
  A program header that is read only in part leaves the rest of the variable \<open>phdr\<close> as it was; its
  bytes are the argument \<open>junk\<close>.
\<close>

definition fatfs_segment :: "fil_read \<Rightarrow> elf32_program_header \<Rightarrow> mem \<Rightarrow> mem" where
  "fatfs_segment rd ph m =
     (if p_type ph = PT_LOAD then
        (let dest_ram = unat (p_paddr ph);
             m = (if p_filesz ph > 0
                  then wr_bytes m dest_ram (snd (rd (unat (p_offset ph)) (unat (p_filesz ph)))) else m)
         in if p_filesz ph < p_memsz ph
            then memset m (dest_ram + unat (p_filesz ph)) 0 (p_memsz ph - p_filesz ph) else m)
      else m)"

function fatfs_loop :: "fil_read \<Rightarrow> u8 list \<Rightarrow> elf32_header \<Rightarrow> nat \<Rightarrow> mem \<Rightarrow> mem \<times> bool" where
  "fatfs_loop rd junk h i m =
     (if i < unat (h_phnum h) then
        (let (fr, bs) = rd (ph_pos h i) sizeof_phdr in
         if fr \<noteq> 0 then (m, False)
         else fatfs_loop rd junk h (i + 1) (fatfs_segment rd (elf_phdr_of (bs @ drop (length bs) junk)) m))
      else (m, True))"
  by auto
termination by (relation "measure (\<lambda>(rd, junk, h, i, m). unat (h_phnum h) - i)") auto

declare fatfs_loop.simps [simp del]

definition carregar_elf32_fatfs :: "fil_read option \<Rightarrow> u8 list \<Rightarrow> mem \<Rightarrow> mem \<times> u32" where
  "carregar_elf32_fatfs file junk m =
     (case file of
        None \<Rightarrow> (m, 0)
      | Some rd \<Rightarrow>
          (let (fr, bs) = rd 0 sizeof_header in
           if fr \<noteq> 0 \<or> length bs < sizeof_header then (m, 0)
           else
             (let h = elf_header_of bs in
              if h_magic h \<noteq> [0x7F, 0x45, 0x4C, 0x46] \<or> h_data h \<noteq> 2 then (m, 0)
              else if h_entry h AND 1 \<noteq> 0 then (m, 0)
              else
                (case fatfs_loop rd junk h 0 m of
                   (m', False) \<Rightarrow> (m', 0)
                 | (m', True) \<Rightarrow> (m', h_entry h)))))"

section \<open>The specification\<close>

text \<open>\<open>reads_file rd data\<close>: \<open>f_read\<close> behaves as FatFs documents it on a file with the contents \<open>data\<close>.\<close>

definition reads_file :: "fil_read \<Rightarrow> u8 list \<Rightarrow> bool" where
  "reads_file rd data \<longleftrightarrow> (\<forall>pos n. rd pos n = (0, take n (drop pos data)))"

definition image_header :: "u8 list \<Rightarrow> elf32_header" where
  "image_header data = elf_header_of (take sizeof_header data)"

definition image_phdr :: "u8 list \<Rightarrow> nat \<Rightarrow> elf32_program_header" where
  "image_phdr data i = elf_phdr_of (take sizeof_phdr (drop (ph_pos (image_header data) i) data))"

definition phdrs :: "u8 list \<Rightarrow> elf32_program_header list" where
  "phdrs data = map (image_phdr data) [0..<unat (h_phnum (image_header data))]"

definition seg_image :: "u8 list \<Rightarrow> elf32_program_header \<Rightarrow> u8 list" where
  "seg_image data ph = take (unat (p_filesz ph)) (drop (unat (p_offset ph)) data) @
     replicate (unat (p_memsz ph) - unat (p_filesz ph)) 0"

definition load_one :: "u8 list \<Rightarrow> elf32_program_header \<Rightarrow> mem \<Rightarrow> mem" where
  "load_one data ph m = (if p_type ph = PT_LOAD then wr_bytes m (unat (p_paddr ph)) (seg_image data ph) else m)"

definition load_all :: "u8 list \<Rightarrow> mem \<Rightarrow> mem" where
  "load_all data m = fold (load_one data) (phdrs data) m"

definition seg_ok :: "u8 list \<Rightarrow> elf32_program_header \<Rightarrow> bool" where
  "seg_ok data ph \<longleftrightarrow> p_type ph \<notin> {PT_SHLIB, PT_DYNAMIC, PT_INTERP} \<and>
     (p_type ph = PT_LOAD \<longrightarrow> unat (p_offset ph) + unat (p_filesz ph) \<le> length data)"

text \<open>A well-formed executable: everything the headers refer to is inside the file.\<close>

definition loadable :: "u8 list \<Rightarrow> bool" where
  "loadable data \<longleftrightarrow> sizeof_header \<le> length data \<and> check_header (image_header data) = None \<and>
     (\<forall>i < unat (h_phnum (image_header data)).
        ph_pos (image_header data) i + sizeof_phdr \<le> length data \<and> seg_ok data (image_phdr data i))"

definition segs_disjoint :: "u8 list \<Rightarrow> bool" where
  "segs_disjoint data \<longleftrightarrow> (\<forall>i < length (phdrs data). \<forall>j < length (phdrs data). i \<noteq> j \<longrightarrow>
     p_type (phdrs data ! i) = PT_LOAD \<longrightarrow> p_type (phdrs data ! j) = PT_LOAD \<longrightarrow>
     apart (unat (p_paddr (phdrs data ! i))) (length (seg_image data (phdrs data ! i)))
           (unat (p_paddr (phdrs data ! j))) (length (seg_image data (phdrs data ! j))))"

section \<open>The loaders meet it\<close>

lemma memset_eq: "memset m p c n = wr_bytes m p (replicate (unat n) (ucast c))"
  by (simp add: memset_def memset_loop_eq)

text \<open>Storing the file part and clearing the rest is storing the whole segment.\<close>

lemma store_segment:
  fixes fs ms :: u32
  assumes "length bs = unat fs"
  shows "(if fs < ms then memset (wr_bytes m p bs) (p + unat fs) 0 (ms - fs) else wr_bytes m p bs)
    = wr_bytes m p (bs @ replicate (unat ms - unat fs) 0)"
proof (cases "fs < ms")
  case True
  then have "unat (ms - fs) = unat ms - unat fs" by (intro unat_sub) simp
  then show ?thesis using True assms by (simp add: memset_eq wr_bytes_append)
next
  case False
  then have "unat ms - unat fs = 0" by (simp add: not_less word_le_nat_alt)
  then show ?thesis using False by simp
qed

lemma elf_segment_ok:
  assumes "reads_file rd data" "seg_ok data ph"
  shows "\<exists>lo hi. elf_segment rd ph st = (\<lparr>es_mem = load_one data ph (es_mem st), memLow = lo, memHigh = hi\<rparr>, None)"
proof (cases "p_type ph = PT_LOAD")
  case True
  let ?bs = "take (unat (p_filesz ph)) (drop (unat (p_offset ph)) data)"
  have len: "length ?bs = unat (p_filesz ph)" using assms(2) True by (auto simp: seg_ok_def)
  have "rd (unat (p_offset ph)) (unat (p_filesz ph)) = (0, ?bs)" using assms(1) by (simp add: reads_file_def)
  moreover have "es_mem (fst (load_segment rd ph st)) = load_one data ph (es_mem st) \<and> snd (load_segment rd ph st) = None"
    if "rd (unat (p_offset ph)) (unat (p_filesz ph)) = (0, ?bs)"
    using store_segment [OF len, of "p_memsz ph" "es_mem st" "unat (p_paddr ph)"] True len that
    by (simp add: load_segment_def Let_def load_one_def seg_image_def del: length_take split: if_splits)
  ultimately show ?thesis using True
    by (cases "load_segment rd ph st", cases "fst (load_segment rd ph st)") (auto simp: elf_segment_def pt_defs)
next
  case False
  then show ?thesis using assms(2)
    by (cases st) (auto simp: elf_segment_def seg_ok_def load_one_def)
qed

lemma upt_head: "i < n \<Longrightarrow> [i..<n] = i # [Suc i..<n]"
  by (simp add: upt_conv_Cons)

lemma elf_segments_ok:
  assumes "reads_file rd data" "loadable data" "h = image_header data"
  shows "\<exists>lo hi. elf_segments rd h i st = (\<lparr>es_mem = fold (load_one data) (map (image_phdr data) [i..<unat (h_phnum h)]) (es_mem st),
    memLow = lo, memHigh = hi\<rparr>, None)"
  using assms
proof (induction rd h i st rule: elf_segments.induct)
  case (1 rd h i st)
  show ?case
  proof (cases "i < unat (h_phnum h)")
    case True
    let ?bs = "take sizeof_phdr (drop (ph_pos h i) data)"
    have rd: "rd (ph_pos h i) sizeof_phdr = (0, ?bs)" using 1(2) by (simp add: reads_file_def)
    have len: "length ?bs = sizeof_phdr" and ok: "seg_ok data (image_phdr data i)"
      using 1(3,4) True by (auto simp: loadable_def)
    obtain lo hi where seg: "elf_segment rd (elf_phdr_of ?bs) st =
        (\<lparr>es_mem = load_one data (image_phdr data i) (es_mem st), memLow = lo, memHigh = hi\<rparr>, None)"
      using elf_segment_ok [OF 1(2) ok, of st] 1(4) by (auto simp: image_phdr_def)
    show ?thesis
      using 1(1) [OF True rd [symmetric] refl _ seg [symmetric] refl 1(2-4)] True len seg rd
      by (subst elf_segments.simps) (simp add: upt_head)
  next
    case False
    then show ?thesis by (cases st) (simp add: elf_segments.simps)
  qed
qed

lemma load_elf_ok:
  assumes "reads_file rd data" "loadable data"
  shows "load_elf_executable rd m = (load_all data m, Inr (h_entry (image_header data)))"
proof -
  have "rd 0 sizeof_header = (0, take sizeof_header data)" "length (take sizeof_header data) = sizeof_header"
    using assms by (simp_all add: reads_file_def loadable_def)
  then show ?thesis
    using elf_segments_ok [OF assms refl, of 0 "\<lparr>es_mem = m, memLow = 0xFFFFFFFF, memHigh = 0\<rparr>"] assms(2)
    by (auto simp: load_elf_executable_def image_header_def [symmetric] loadable_def load_all_def phdrs_def Let_def)
qed

text \<open>Loading segments one after the other: with disjoint segments each is found whole at the end.\<close>

lemma fold_load_other:
  "(\<And>ph. ph \<in> set phs \<Longrightarrow> p_type ph = PT_LOAD \<Longrightarrow>
      a < unat (p_paddr ph) \<or> unat (p_paddr ph) + length (seg_image data ph) \<le> a) \<Longrightarrow>
     fold (load_one data) phs m a = m a"
proof (induction phs arbitrary: m)
  case (Cons ph phs)
  have "load_one data ph m a = m a"
    using Cons.prems [of ph] by (auto simp: load_one_def wr_bytes_apply)
  then show ?case using Cons.IH [of "load_one data ph m"] Cons.prems by simp
qed simp

lemma load_all_placed:
  assumes "segs_disjoint data" "ph \<in> set (phdrs data)" "p_type ph = PT_LOAD"
  shows "rd_bytes (load_all data m) (unat (p_paddr ph)) (length (seg_image data ph)) = seg_image data ph"
proof (rule nth_equalityI)
  fix k assume "k < length (rd_bytes (load_all data m) (unat (p_paddr ph)) (length (seg_image data ph)))"
  then have k: "k < length (seg_image data ph)" by simp
  let ?a = "unat (p_paddr ph) + k"
  obtain i where i: "i < length (phdrs data)" "phdrs data ! i = ph" using assms(2) by (auto simp: in_set_conv_nth)
  have "phdrs data = take i (phdrs data) @ ph # drop (Suc i) (phdrs data)"
    using i id_take_nth_drop by blast
  then have eq: "load_all data m = fold (load_one data) (drop (Suc i) (phdrs data))
      (load_one data ph (fold (load_one data) (take i (phdrs data)) m))"
    unfolding load_all_def by (metis comp_apply fold_append fold_simps(2))
  have "fold (load_one data) (drop (Suc i) (phdrs data)) m' ?a = m' ?a" for m'
  proof (rule fold_load_other)
    fix q assume q: "q \<in> set (drop (Suc i) (phdrs data))" "p_type q = PT_LOAD"
    then obtain n where "n < length (phdrs data) - Suc i" "phdrs data ! (Suc i + n) = q"
      using i(1) by (auto simp: in_set_conv_nth)
    then have "Suc i + n < length (phdrs data)" "phdrs data ! (Suc i + n) = q" "i \<noteq> Suc i + n" by auto
    then have "apart (unat (p_paddr ph)) (length (seg_image data ph)) (unat (p_paddr q)) (length (seg_image data q))"
      using assms(1,3) i q(2) by (auto simp: segs_disjoint_def)
    then show "?a < unat (p_paddr q) \<or> unat (p_paddr q) + length (seg_image data q) \<le> ?a"
      using k by (auto simp: apart_def)
  qed
  then show "rd_bytes (load_all data m) (unat (p_paddr ph)) (length (seg_image data ph)) ! k = seg_image data ph ! k"
    using k assms(3) by (simp add: eq load_one_def wr_bytes_apply)
qed simp

text \<open>C10: Loading a program: for a well-formed executable with disjoint segments \<open>load_elf_executable\<close>
  succeeds with the entry point of the header, every \<open>PT_LOAD\<close> segment is in memory at its physical
  address, its file bytes followed by zeroes up to its memory size, and no other byte has changed.\<close>

theorem load_elf_executable_correct:
  assumes "reads_file rd data" "loadable data" "segs_disjoint data"
  shows "\<exists>m'. load_elf_executable rd m = (m', Inr (h_entry (image_header data))) \<and>
    (\<forall>ph \<in> set (phdrs data). p_type ph = PT_LOAD \<longrightarrow>
       rd_bytes m' (unat (p_paddr ph)) (length (seg_image data ph)) = seg_image data ph) \<and>
    (\<forall>a. (\<forall>ph \<in> set (phdrs data). p_type ph = PT_LOAD \<longrightarrow>
         a < unat (p_paddr ph) \<or> unat (p_paddr ph) + length (seg_image data ph) \<le> a) \<longrightarrow> m' a = m a)"
  using load_elf_ok [OF assms(1,2), of m] load_all_placed [OF assms(3)]
    fold_load_other [of "phdrs data" _ data m] by (auto simp: load_all_def)

section \<open>Errors\<close>

lemma elf_segments_accepts:
  assumes "elf_segments rd h i st = (st', None)" "i \<le> j" "j < unat (h_phnum h)"
  shows "\<exists>pb. rd (ph_pos h j) sizeof_phdr = (0, pb) \<and> length pb = sizeof_phdr \<and>
    p_type (elf_phdr_of pb) \<notin> {PT_SHLIB, PT_DYNAMIC, PT_INTERP} \<and>
    (p_type (elf_phdr_of pb) = PT_LOAD \<longrightarrow>
       (\<exists>bs. rd (unat (p_offset (elf_phdr_of pb))) (unat (p_filesz (elf_phdr_of pb))) = (0, bs) \<and>
         length bs = unat (p_filesz (elf_phdr_of pb))))"
  using assms
proof (induction rd h i st arbitrary: st' rule: elf_segments.induct)
  case (1 rd h i st)
  obtain fr pb where rd: "rd (ph_pos h i) sizeof_phdr = (fr, pb)" by fastforce
  obtain s1 r where seg: "elf_segment rd (elf_phdr_of pb) st = (s1, r)" by fastforce
  have i: "i < unat (h_phnum h)" using 1(3,4) by simp
  have ok: "fr = 0" "length pb = sizeof_phdr" "r = None" "elf_segments rd h (i + 1) s1 = (st', None)"
    using 1(2) i seg unfolding elf_segments.simps [of rd h i st] rd by (auto split: if_splits option.splits)
  show ?case
  proof (cases "i = j")
    case True
    obtain fr' bs where "rd (unat (p_offset (elf_phdr_of pb))) (unat (p_filesz (elf_phdr_of pb))) = (fr', bs)" by fastforce
    then show ?thesis using seg ok rd True
      by (auto simp: elf_segment_def load_segment_def Let_def pt_defs split: if_splits)
  next
    case False
    then show ?thesis
      using 1(1) [OF i rd [symmetric] refl _ seg [symmetric] ok(3) ok(4)] ok(1,2) 1(3,4) by simp
  qed
qed

lemma elf_segments_errors:
  assumes "elf_segments rd h i st = (st', r)"
  shows "r \<notin> {Some Cannot_read_header, Some Bad_header, Some Not_32bit, Some Not_executable, Some Not_68000}"
  using assms
proof (induction rd h i st arbitrary: st' r rule: elf_segments.induct)
  case (1 rd h i st)
  obtain fr pb where rd: "rd (ph_pos h i) sizeof_phdr = (fr, pb)" by fastforce
  obtain s1 q where seg: "elf_segment rd (elf_phdr_of pb) st = (s1, q)" by fastforce
  have "q \<notin> {Some Cannot_read_header, Some Bad_header, Some Not_32bit, Some Not_executable, Some Not_68000}"
    using seg by (auto simp: elf_segment_def load_segment_def Let_def split: if_splits prod.splits)
  then show ?case
    using 1(2) 1(1) [OF _ rd [symmetric] refl _ seg [symmetric]] seg
    unfolding elf_segments.simps [of rd h i st] rd by (auto split: if_splits option.splits)
qed

text \<open>C34: Whatever the file system returns, a program is started only if its 52 header bytes were read in full and are those of an
  ELF file (magic number, 32 bits, big endian, version 1, ABI 0), executable and for the 68000, no program header asks for
  dynamic linking or an interpreter, and every segment was read to its full size; it starts at the entry point of the header.
  A file refused for its header leaves the memory as it was.\<close>

theorem load_elf_executable_checks:
  "case load_elf_executable rd m of
     (m', Inr entry) \<Rightarrow>
       (\<exists>hb. rd 0 52 = (0, hb) \<and> length hb = 52 \<and> take 9 hb = [0x7F, 0x45, 0x4C, 0x46, 1, 2, 1, 0, 0] \<and>
         be16 hb 16 = 2 \<and> be16 hb 18 = 4 \<and> entry = be32 hb 24 \<and>
         (\<forall>j < unat (be16 hb 44).
            \<exists>pb. rd (unat (of_nat j * ucast (be16 hb 42) + be32 hb 28)) 32 = (0, pb) \<and> length pb = 32 \<and> be32 pb 0 \<notin> {2, 3, 5} \<and>
              (be32 pb 0 = 1 \<longrightarrow>
                 (\<exists>bs. rd (unat (be32 pb 4)) (unat (be32 pb 16)) = (0, bs) \<and> length bs = unat (be32 pb 16)))))
   | (m', Inl e) \<Rightarrow> e \<in> {Cannot_read_header, Bad_header, Not_32bit, Not_executable, Not_68000} \<longrightarrow> m' = m"
proof -
  obtain fr hb where rd: "rd 0 sizeof_header = (fr, hb)" by fastforce
  obtain st r where seg: "elf_segments rd (elf_header_of hb) 0 \<lparr>es_mem = m, memLow = 0xFFFFFFFF, memHigh = 0\<rparr> = (st, r)"
    by fastforce
  have hdr: "take 9 hb = [0x7F, 0x45, 0x4C, 0x46, 1, 2, 1, 0, 0] \<and> be16 hb 16 = 2 \<and> be16 hb 18 = 4"
    if "length hb = 52" "check_header (elf_header_of hb) = None"
  proof -
    have "take 9 hb = take 4 hb @ [hb ! 4, hb ! 5, hb ! 6, hb ! 7, hb ! 8]"
      using that(1) take_Suc_conv_app_nth [of _ hb] by (simp add: numeral_eq_Suc)
    then show ?thesis using that(2)
      by (auto simp: check_header_def elf_header_of_def ID_32BIT_def ID_BIG_ENDIAN_def ET_EXEC_def EM_68K_def split: if_splits)
  qed
  have segs: "\<exists>pb. rd (unat (of_nat j * ucast (be16 hb 42) + be32 hb 28)) 32 = (0, pb) \<and> length pb = 32 \<and> be32 pb 0 \<notin> {2, 3, 5} \<and>
      (be32 pb 0 = 1 \<longrightarrow> (\<exists>bs. rd (unat (be32 pb 4)) (unat (be32 pb 16)) = (0, bs) \<and> length bs = unat (be32 pb 16)))"
    if "r = None" "j < unat (be16 hb 44)" for j
  proof -
    have "j < unat (h_phnum (elf_header_of hb))" using that(2) by (simp add: elf_header_of_def)
    from elf_segments_accepts [of rd "elf_header_of hb" 0 _ st, OF seg [unfolded that(1)]] this obtain pb where
      pb: "rd (ph_pos (elf_header_of hb) j) sizeof_phdr = (0, pb)" "length pb = sizeof_phdr"
        "p_type (elf_phdr_of pb) \<notin> {PT_SHLIB, PT_DYNAMIC, PT_INTERP}"
        "p_type (elf_phdr_of pb) = PT_LOAD \<longrightarrow> (\<exists>bs. rd (unat (p_offset (elf_phdr_of pb))) (unat (p_filesz (elf_phdr_of pb))) = (0, bs) \<and>
           length bs = unat (p_filesz (elf_phdr_of pb)))" by blast
    then show ?thesis
      by (intro exI [of _ pb]) (simp add: ph_pos_def elf_header_of_def elf_phdr_of_def sizeof_phdr_def PT_SHLIB_def PT_DYNAMIC_def
          PT_INTERP_def PT_LOAD_def)
  qed
  have "h_entry (elf_header_of hb) = be32 hb 24" by (simp add: elf_header_of_def)
  then show ?thesis
    using rd seg elf_segments_errors [OF seg] hdr segs
    by (auto simp: load_elf_executable_def Let_def sizeof_header_def split: option.splits)
qed

section \<open>The loaders agree\<close>

lemma check_header_magic: "check_header h = None \<Longrightarrow> h_magic h = [0x7F, 0x45, 0x4C, 0x46] \<and> h_data h = 2"
  by (simp add: check_header_def ID_BIG_ENDIAN_def split: if_splits)

lemma store_nonempty:
  "length bs = unat fs \<Longrightarrow> (if 0 < fs then wr_bytes m p bs else m) = wr_bytes m p bs" for fs :: u32
  by (cases "fs = 0") (auto simp: word_gt_0)

lemma fatfs_segment_ok:
  assumes "reads_file rd data" "seg_ok data ph"
  shows "fatfs_segment rd ph m = load_one data ph m"
proof (cases "p_type ph = PT_LOAD")
  case True
  let ?bs = "take (unat (p_filesz ph)) (drop (unat (p_offset ph)) data)"
  have len: "length ?bs = unat (p_filesz ph)" using assms(2) True by (auto simp: seg_ok_def)
  show ?thesis
    using True assms(1) store_segment [OF len, of "p_memsz ph" m "unat (p_paddr ph)"]
    by (simp add: fatfs_segment_def reads_file_def load_one_def seg_image_def Let_def store_nonempty [OF len]
      del: length_take split del: if_split cong: if_cong)
qed (simp add: fatfs_segment_def load_one_def)

lemma fatfs_loop_ok:
  assumes "reads_file rd data" "loadable data" "h = image_header data" "length junk = sizeof_phdr"
  shows "fatfs_loop rd junk h i m = (fold (load_one data) (map (image_phdr data) [i..<unat (h_phnum h)]) m, True)"
  using assms
proof (induction rd junk h i m rule: fatfs_loop.induct)
  case (1 rd junk h i m)
  show ?case
  proof (cases "i < unat (h_phnum h)")
    case True
    let ?bs = "take sizeof_phdr (drop (ph_pos h i) data)"
    have rd: "rd (ph_pos h i) sizeof_phdr = (0, ?bs)" using 1(2) by (simp add: reads_file_def)
    have len: "length ?bs = sizeof_phdr" and ok: "seg_ok data (image_phdr data i)"
      using 1(3,4) True by (auto simp: loadable_def)
    have bs: "?bs @ drop (length ?bs) junk = ?bs" using len 1(5) by simp
    show ?thesis
      using 1(1) [OF True rd [symmetric] refl _ 1(2-5)] True rd fatfs_segment_ok [OF 1(2) ok, of m] bs 1(4)
      by (subst fatfs_loop.simps) (simp add: upt_head image_phdr_def [abs_def] del: length_take length_drop)
  qed (simp add: fatfs_loop.simps)
qed

text \<open>A buffer that holds the image and is not a target of the load.\<close>

definition image_in_buffer :: "mem \<Rightarrow> nat \<Rightarrow> u8 list \<Rightarrow> bool" where
  "image_in_buffer m elf_buf data \<longleftrightarrow> rd_bytes m elf_buf (length data) = data \<and>
     (\<forall>ph \<in> set (phdrs data). p_type ph = PT_LOAD \<longrightarrow>
        apart (unat (p_paddr ph)) (length (seg_image data ph)) elf_buf (length data))"

lemma buffer_slice:
  assumes "rd_bytes m p (length data) = data" "a + n \<le> length data"
  shows "rd_bytes m (p + a) n = take n (drop a data)"
  by (rule nth_equalityI)
    (use assms nth_rd_bytes [of _ "length data" m p] in \<open>auto simp: add.assoc intro: trans [OF sym]\<close>)

lemma buffer_kept:
  assumes "image_in_buffer m elf_buf data" "ph \<in> set (phdrs data)"
  shows "image_in_buffer (load_one data ph m) elf_buf data"
proof (cases "p_type ph = PT_LOAD")
  case True
  then have "apart elf_buf (length data) (unat (p_paddr ph)) (length (seg_image data ph))"
    using assms by (auto simp: image_in_buffer_def apart_def)
  then show ?thesis using assms True by (simp add: image_in_buffer_def load_one_def rd_wr_bytes_apart)
qed (use assms in \<open>simp add: load_one_def\<close>)

lemma carregar_segment_ok:
  assumes "image_in_buffer m elf_buf data" "seg_ok data ph" "ph \<in> set (phdrs data)"
  shows "carregar_segment elf_buf 0 ph m = load_one data ph m"
proof (cases "p_type ph = PT_LOAD")
  case True
  let ?bs = "take (unat (p_filesz ph)) (drop (unat (p_offset ph)) data)"
  have fit: "unat (p_offset ph) + unat (p_filesz ph) \<le> length data" using assms(2) True by (auto simp: seg_ok_def)
  then have len: "length ?bs = unat (p_filesz ph)" by auto
  have "apart (unat (p_paddr ph)) (length (seg_image data ph)) elf_buf (length data)"
    using assms(1,3) True by (auto simp: image_in_buffer_def)
  then have "unat (p_paddr ph) \<le> elf_buf + unat (p_offset ph) \<or>
      elf_buf + unat (p_offset ph) + unat (p_filesz ph) \<le> unat (p_paddr ph)"
    using fit by (auto simp: apart_def)
  then have cp: "memcpy_loop m (unat (p_paddr ph)) (elf_buf + unat (p_offset ph)) (unat (p_filesz ph)) =
      wr_bytes m (unat (p_paddr ph)) ?bs"
    using buffer_slice [OF _ fit] assms(1) by (simp add: memcpy_loop_eq image_in_buffer_def)
  show ?thesis
    using True cp store_segment [OF len, of "p_memsz ph" m "unat (p_paddr ph)"]
    by (simp add: carregar_segment_def memcpy_def load_one_def seg_image_def Let_def store_nonempty [OF len]
      del: length_take split del: if_split cong: if_cong)
qed (simp add: carregar_segment_def load_one_def)

lemma carregar_loop_ok:
  assumes "loadable data" "image_in_buffer m elf_buf data"
  shows "carregar_loop elf_buf 0 i m = fold (load_one data) (map (image_phdr data) [i..<unat (h_phnum (image_header data))]) m \<and>
    image_in_buffer (carregar_loop elf_buf 0 i m) elf_buf data"
  using assms
proof (induction elf_buf "0 :: nat" i m rule: carregar_loop.induct)
  case (1 elf_buf i m)
  have "rd_bytes m elf_buf (length data) = data" using 1(3) by (simp add: image_in_buffer_def)
  note slice = buffer_slice [OF this]
  have h: "header_at m elf_buf = image_header data"
    using slice [of 0 sizeof_header] 1(2) by (simp add: header_at_def image_header_def loadable_def)
  show ?case
  proof (cases "i < unat (h_phnum (image_header data))")
    case True
    then have fit: "ph_pos (image_header data) i + sizeof_phdr \<le> length data" and ok: "seg_ok data (image_phdr data i)"
      and mem: "image_phdr data i \<in> set (phdrs data)"
      using 1(2) by (auto simp: loadable_def phdrs_def)
    have ph: "elf_phdr_of (rd_bytes m (elf_buf + ph_pos (image_header data) i) sizeof_phdr) = image_phdr data i"
      using slice [OF fit] by (simp add: image_phdr_def)
    show ?thesis
      using 1(1) [unfolded h ph, OF True 1(2)] carregar_segment_ok [OF 1(3) ok mem] buffer_kept [OF 1(3) mem] True
      by (subst (1 2) carregar_loop.simps) (auto simp add: h ph upt_head)
  qed (use 1(3) in \<open>simp add: carregar_loop.simps h\<close>)
qed

text \<open>C28: The three loaders agree: for a well-formed executable with an even entry point, loading it with
  \<open>load_elf_executable\<close>, with \<open>carregar_elf32_fatfs\<close> or, from a buffer no segment is loaded over, with
  \<open>carregar_elf32\<close> gives the same memory and the same entry point.\<close>

theorem elf_loaders_agree:
  assumes "reads_file rd data" "loadable data" "h_entry (image_header data) AND 1 = 0"
    and "length junk = sizeof_phdr" "image_in_buffer m elf_buf data"
  shows "\<exists>m' entry. load_elf_executable rd m = (m', Inr entry) \<and>
    carregar_elf32_fatfs (Some rd) junk m = (m', entry) \<and> carregar_elf32 elf_buf 0 m = (m', entry)"
proof -
  let ?h = "image_header data"
  have chk: "h_magic ?h = [0x7F, 0x45, 0x4C, 0x46]" "h_data ?h = 2"
    using check_header_magic assms(2) by (auto simp: loadable_def)
  have rd: "rd 0 sizeof_header = (0, take sizeof_header data)" "\<not> length (take sizeof_header data) < sizeof_header"
    using assms by (simp_all add: reads_file_def loadable_def)
  have "carregar_elf32_fatfs (Some rd) junk m = (load_all data m, h_entry ?h)"
    using rd chk assms(3) fatfs_loop_ok [OF assms(1,2) refl assms(4)]
    by (simp add: carregar_elf32_fatfs_def image_header_def [symmetric] Let_def load_all_def phdrs_def del: length_take)
  moreover have "carregar_elf32 elf_buf 0 m = (load_all data m, h_entry ?h)"
  proof -
    have buf: "rd_bytes m' elf_buf (length data) = data" if "image_in_buffer m' elf_buf data" for m'
      using that by (simp add: image_in_buffer_def)
    have hd: "header_at m' elf_buf = ?h" if "image_in_buffer m' elf_buf data" for m'
      using buffer_slice [OF buf [OF that], of 0 sizeof_header] assms(2)
      by (simp add: header_at_def image_header_def loadable_def)
    have "take 4 (take sizeof_header data) = [0x7F, 0x45, 0x4C, 0x46]"
      using chk(1) by (simp add: image_header_def elf_header_of_def)
    then have "rd_bytes m elf_buf 4 = [0x7F, 0x45, 0x4C, 0x46]"
      using buffer_slice [OF buf [OF assms(5)], of 0 4] assms(2) by (simp add: sizeof_header_def loadable_def)
    then show ?thesis
      using carregar_loop_ok [OF assms(2,5), of 0] hd [of "carregar_loop elf_buf 0 0 m"]
      by (auto simp add: carregar_elf32_def Let_def load_all_def phdrs_def)
  qed
  ultimately show ?thesis using load_elf_ok [OF assms(1,2), of m] by simp
qed

section \<open>A small executable\<close>

definition demo_elf :: "u8 list" where
  "demo_elf = [0x7F, 0x45, 0x4C, 0x46, 1, 2, 1, 0, 0, 0, 0, 0, 0, 0, 0, 0,
     0, 2, 0, 4, 0, 0, 0, 1, 0, 0, 0x20, 0, 0, 0, 0, 0x34, 0, 0, 0, 0, 0, 0, 0, 0,
     0, 0x34, 0, 0x20, 0, 1, 0, 0, 0, 0, 0, 0,
     0, 0, 0, 1, 0, 0, 0, 0x54, 0, 0, 0x20, 0, 0, 0, 0x20, 0, 0, 0, 0, 4, 0, 0, 0, 8, 0, 0, 0, 5, 0, 0, 0, 2,
     0x4E, 0x71, 0x4E, 0x75]"

definition demo_rd :: fil_read where
  "demo_rd pos n = (0, take n (drop pos demo_elf))"

lemma demo_reads: "reads_file demo_rd demo_elf"
  by (simp add: reads_file_def demo_rd_def)

lemma demo_header: "image_header demo_elf = \<lparr>h_magic = [0x7F, 0x45, 0x4C, 0x46], h_class = 1, h_data = 2,
    h_ident_version = 1, h_osabi = 0, h_abiversion = 0, h_type = 2, h_machine = 4, h_version = 1, h_entry = 0x2000,
    h_phoff = 0x34, h_shoff = 0, h_flags = 0, h_ehsize = 0x34, h_phentsize = 0x20, h_phnum = 1, h_shentsize = 0,
    h_shnum = 0, h_shtrndx = 0\<rparr>"
  by code_simp

lemma demo_phdrs: "phdrs demo_elf = [\<lparr>p_type = 1, p_offset = 0x54, p_vaddr = 0x2000, p_paddr = 0x2000, p_filesz = 4,
    p_memsz = 8, p_flags = 5, p_align = 2\<rparr>]"
  by code_simp

lemma demo_loadable: "loadable demo_elf"
  by code_simp

lemma demo_segs: "segs_disjoint demo_elf"
  by (simp add: segs_disjoint_def demo_phdrs)

theorem load_elf_executable_witness:
  "\<exists>m'. load_elf_executable demo_rd (\<lambda>_. 0xFF) = (m', Inr 0x2000) \<and>
     rd_bytes m' 0x2000 8 = [0x4E, 0x71, 0x4E, 0x75, 0, 0, 0, 0] \<and> m' 0x1FFF = 0xFF \<and> m' 0x2008 = 0xFF"
proof -
  let ?ph = "\<lparr>p_type = 1, p_offset = 0x54, p_vaddr = 0x2000, p_paddr = 0x2000, p_filesz = 4, p_memsz = 8,
    p_flags = 5, p_align = 2\<rparr>"
  have img: "seg_image demo_elf ?ph = [0x4E, 0x71, 0x4E, 0x75, 0, 0, 0, 0]" by code_simp
  have len: "length (seg_image demo_elf ?ph) = 8" by code_simp
  have mem: "?ph \<in> set (phdrs demo_elf)" "p_type ?ph = PT_LOAD" by (simp_all add: demo_phdrs PT_LOAD_def)
  obtain m' where m': "load_elf_executable demo_rd (\<lambda>_. 0xFF) = (m', Inr (h_entry (image_header demo_elf)))"
      "\<forall>ph \<in> set (phdrs demo_elf). p_type ph = PT_LOAD \<longrightarrow>
        rd_bytes m' (unat (p_paddr ph)) (length (seg_image demo_elf ph)) = seg_image demo_elf ph"
      "\<forall>a. (\<forall>ph \<in> set (phdrs demo_elf). p_type ph = PT_LOAD \<longrightarrow>
         a < unat (p_paddr ph) \<or> unat (p_paddr ph) + length (seg_image demo_elf ph) \<le> a) \<longrightarrow> m' a = 0xFF"
    using load_elf_executable_correct [OF demo_reads demo_loadable demo_segs, of "\<lambda>_. 0xFF"] by blast
  have "rd_bytes m' 0x2000 8 = [0x4E, 0x71, 0x4E, 0x75, 0, 0, 0, 0]"
    using m'(2) [rule_format, OF mem] unfolding len by (simp add: img)
  moreover have "m' 0x1FFF = 0xFF" "m' 0x2008 = 0xFF"
    using m'(3) [rule_format, of "0x1FFF"] m'(3) [rule_format, of "0x2008"] by (simp_all add: demo_phdrs img)
  ultimately show ?thesis using m'(1) by (simp add: demo_header)
qed

theorem load_elf_executable_checks_witness: "snd (load_elf_executable (\<lambda>pos n. (0, replicate n 0)) (\<lambda>_. 0)) = Inl Bad_header \<and>
   fst (load_elf_executable (\<lambda>pos n. (0, replicate n 0)) (\<lambda>_. 0)) = (\<lambda>_. 0)"
proof -
  have "snd (load_elf_executable (\<lambda>pos n. (0, replicate n 0)) (\<lambda>_. 0)) = Inl Bad_header"
    by (simp add: load_elf_executable_def elf_header_of_def sizeof_header_def check_header_def)
  then show ?thesis
    using load_elf_executable_checks [where rd = "\<lambda>pos n. (0, replicate n 0)" and m = "\<lambda>_. 0"]
    by (cases "load_elf_executable (\<lambda>pos n. (0, replicate n 0)) (\<lambda>_. 0)") auto
qed

theorem elf_loaders_witness:
  "\<exists>m' entry. load_elf_executable demo_rd (wr_bytes (\<lambda>_. 0) 0x8000 demo_elf) = (m', Inr entry) \<and>
    carregar_elf32 0x8000 0 (wr_bytes (\<lambda>_. 0) 0x8000 demo_elf) = (m', entry)"
proof -
  have len: "length demo_elf = 88" by (simp add: demo_elf_def)
  have "length (seg_image demo_elf (hd (phdrs demo_elf))) = 8" by code_simp
  then have "image_in_buffer (wr_bytes (\<lambda>_. 0) 0x8000 demo_elf) 0x8000 demo_elf"
    by (simp add: image_in_buffer_def mem_simps demo_phdrs apart_def len)
  from elf_loaders_agree [OF demo_reads demo_loadable _ _ this, of "replicate 32 0"] show ?thesis by (auto simp: demo_header sizeof_phdr_def)
qed

end
