(* ===== verification/Shell_Command.thy ===== *)
theory Shell_Command
  imports Libc_Conv Elf_Loader
begin

text \<open>
  \<open>bios/shell/shell.c\<close>: how the shell takes a command line apart and what it does with it. \<open>execute_cmd\<close>
  cuts the line in place into at most 40 arguments; \<open>process_command\<close> looks for a built-in command,
  checks the number of its arguments and calls it, and otherwise tries to load a program.

  The arguments are pointers into the line, so that part runs on the flat memory. What the command
  finally does is an event: the handler that is called with its arguments, the program that is
  started, or the message that is printed. FatFs is a parameter: \<open>chdrive\<close> and \<open>fopen\<close> are its
  \<open>f_chdrive\<close> and \<open>f_open\<close> on a path, a file that is open is its reader (see \<open>Elf_Loader\<close>).
\<close>

section \<open>The code\<close>

definition MAXARGS :: nat where "MAXARGS = 40"

subsection \<open>execute_cmd: the arguments\<close>

partial_function (option) skip_spaces :: "mem \<Rightarrow> nat \<Rightarrow> nat option" where
  "skip_spaces m ptr = (if isspace (m ptr) then skip_spaces m (ptr + 1) else Some ptr)"

declare skip_spaces.simps [code]

partial_function (option) skip_word :: "mem \<Rightarrow> nat \<Rightarrow> nat option" where
  "skip_word m ptr = (if m ptr \<noteq> 0 \<and> \<not> isspace (m ptr) then skip_word m (ptr + 1) else Some ptr)"

declare skip_word.simps [code]

partial_function (option) blank_spaces :: "mem \<Rightarrow> nat \<Rightarrow> (mem \<times> nat) option" where
  "blank_spaces m ptr = (if isspace (m ptr) then blank_spaces (m(ptr := 0)) (ptr + 1) else Some (m, ptr))"

declare blank_spaces.simps [code]

text \<open>The loop: \<open>args\<close> are the pointers stored so far, so \<open>numargs\<close> is their number.\<close>

partial_function (option) split_args :: "mem \<Rightarrow> nat \<Rightarrow> nat list \<Rightarrow> (mem \<times> nat list) option" where
  "split_args m ptr args =
     (let m = (if length args = MAXARGS then m(ptr := 0) else m) in
      if m ptr = 0 then Some (m, args)
      else
        Option.bind (skip_spaces m ptr) (\<lambda>word.
          Option.bind (skip_word m word) (\<lambda>after.
            if m after = 0 then split_args m after (args @ [word])
            else Option.bind (blank_spaces m after) (\<lambda>(m', next). split_args m' next (args @ [word])))))"

declare split_args.simps [code]

subsection \<open>The built-in commands\<close>

datatype cmd_fn = Do_cat | Do_cd | Do_copyfile | Do_dump | Do_exit | Do_help | Do_loadmem | Do_ls | Do_mkdir_shel |
  Do_rename_shel | Do_delete | Do_rmdir | Do_run | Do_save | Do_shst | Do_time | Do_uptime | Do_writemem |
  Do_writemem1 | Do_receiver

record cmd_entry_t =
  cmd_name :: "u8 list"
  min_args :: int
  max_args :: int
  cmd_function :: cmd_fn

definition bytes_of :: "string \<Rightarrow> u8 list" where
  "bytes_of s = map (\<lambda>c. word_of_nat (of_char c)) s"

definition cmd_entry :: "string \<Rightarrow> int \<Rightarrow> int \<Rightarrow> cmd_fn \<Rightarrow> cmd_entry_t" where
  "cmd_entry n a b f = \<lparr>cmd_name = bytes_of n, min_args = a, max_args = b, cmd_function = f\<rparr>"

definition g_cmd_table :: "cmd_entry_t list" where
  "g_cmd_table =
     [cmd_entry ''cat'' 1 1 Do_cat, cmd_entry ''cd'' 1 1 Do_cd, cmd_entry ''cp'' 2 2 Do_copyfile,
      cmd_entry ''dump'' 2 2 Do_dump, cmd_entry ''exit'' 0 0 Do_exit, cmd_entry ''help'' 0 0 Do_help,
      cmd_entry ''loadmem'' 1 2 Do_loadmem, cmd_entry ''ls'' 0 1 Do_ls, cmd_entry ''mkdir'' 1 1 Do_mkdir_shel,
      cmd_entry ''mv'' 2 2 Do_rename_shel, cmd_entry ''rm'' 1 1 Do_delete, cmd_entry ''rmdir'' 1 1 Do_rmdir,
      cmd_entry ''run'' 1 1 Do_run, cmd_entry ''save'' 3 3 Do_save, cmd_entry ''shst'' 0 0 Do_shst,
      cmd_entry ''time'' 0 6 Do_time, cmd_entry ''uptime'' 0 0 Do_uptime, cmd_entry ''writemem'' 2 0 Do_writemem,
      cmd_entry ''writemem1'' 2 0 Do_writemem1, cmd_entry ''recv'' 0 0 Do_receiver]"

datatype shell_event =
    Drive_changed
  | Drive_not_found nat
  | Run_builtin cmd_fn "nat list"
  | Requires_arguments int
  | Requires_between int int
  | Program_started u32 "nat list"
  | Program_refused elf_error
  | Unknown_format
  | Cannot_read nat
  | Unknown_command

text \<open>The call of a command that was found, if the number of arguments is right.\<close>

definition call_builtin :: "cmd_entry_t \<Rightarrow> nat list \<Rightarrow> shell_event" where
  "call_builtin cmd argv =
     (if int (length argv) - 1 \<ge> min_args cmd \<and> (max_args cmd = 0 \<or> int (length argv) - 1 \<le> max_args cmd)
      then Run_builtin (cmd_function cmd) (tl argv)
      else if min_args cmd = max_args cmd then Requires_arguments (min_args cmd)
      else Requires_between (min_args cmd) (max_args cmd))"

text \<open>The search of \<open>g_cmd_table\<close>: entry \<open>k\<close> has its name at the address \<open>nm k\<close>.\<close>

fun find_builtin :: "mem \<Rightarrow> (nat \<Rightarrow> nat) \<Rightarrow> nat \<Rightarrow> cmd_entry_t list \<Rightarrow> nat list \<Rightarrow> shell_event option option" where
  "find_builtin m nm k [] argv = Some None"
| "find_builtin m nm k (cmd # tab) argv =
     Option.bind (strcasecmp m (argv ! 0) (nm k)) (\<lambda>r.
       if r = 0 then Some (Some (call_builtin cmd argv))
       else find_builtin m nm (k + 1) tab argv)"

text \<open>The inner option is the return value: \<open>None\<close> for 0, the event for 1.\<close>

definition process_command_builtin ::
    "mem \<Rightarrow> (nat \<Rightarrow> nat) \<Rightarrow> (nat \<Rightarrow> nat) \<Rightarrow> nat list \<Rightarrow> shell_event option option" where
  "process_command_builtin m nm chdrive argv =
     (if length argv = 1 \<and> m (argv ! 0 + 1) = 0x3A then
        (let fr = chdrive (argv ! 0) in
         Some (Some (if fr \<noteq> 0 then Drive_not_found fr else Drive_changed)))
      else find_builtin m nm 0 g_cmd_table argv)"

subsection \<open>Programs\<close>

definition FF_MAX_LFN :: nat where "FF_MAX_LFN = 255"

definition orion_extensions :: "u8 list list" where
  "orion_extensions = [bytes_of ''.elf'', bytes_of ''.bat'']"

fun try_extensions :: "(u8 list \<Rightarrow> nat + fil_read) \<Rightarrow> u8 list \<Rightarrow> u8 list list \<Rightarrow> fil_read option" where
  "try_extensions fopen filename [] = None"
| "try_extensions fopen filename (ext # exts) =
     (if length filename + length ext < FF_MAX_LFN then
        (case fopen (filename @ ext @ [0x0A]) of
           Inr file \<Rightarrow> Some file
         | Inl fr \<Rightarrow> try_extensions fopen filename exts)
      else try_extensions fopen filename exts)"

definition open_executable_file :: "(u8 list \<Rightarrow> nat + fil_read) \<Rightarrow> u8 list \<Rightarrow> fil_read option" where
  "open_executable_file fopen filename =
     (case fopen filename of
        Inr file \<Rightarrow> Some file
      | Inl fr \<Rightarrow> try_extensions fopen filename orion_extensions)"

definition HEADER_EXAMINE_SIZE :: nat where "HEADER_EXAMINE_SIZE = 4"

text \<open>The memory at the end, and the event unless the function returns 0.\<close>

definition process_command_executable ::
    "mem \<Rightarrow> (u8 list \<Rightarrow> nat + fil_read) \<Rightarrow> nat list \<Rightarrow> (mem \<times> shell_event option) option" where
  "process_command_executable m fopen argv =
     Option.bind (strlen m (argv ! 0)) (\<lambda>n.
       case open_executable_file fopen (rd_bytes m (argv ! 0) (unat n)) of
         None \<Rightarrow> Some (m, None)
       | Some file \<Rightarrow>
           (let (fr, bs) = file 0 HEADER_EXAMINE_SIZE;
                buffer = bs @ drop (length bs) (replicate HEADER_EXAMINE_SIZE 0)
            in if fr = 0 then
                 (if buffer = g_elf_header_bytes then
                    (case load_elf_executable file m of
                       (m', Inl e) \<Rightarrow> Some (m', Some (Program_refused e))
                     | (m', Inr entry) \<Rightarrow> Some (m', Some (Program_started entry argv)))
                  else Some (m, Some Unknown_format))
               else Some (m, Some (Cannot_read fr))))"

text \<open>\<open>process_command\<close>: no event when there is no argument.\<close>

definition process_command ::
    "mem \<Rightarrow> (nat \<Rightarrow> nat) \<Rightarrow> (nat \<Rightarrow> nat) \<Rightarrow> (u8 list \<Rightarrow> nat + fil_read) \<Rightarrow> nat list \<Rightarrow> (mem \<times> shell_event option) option" where
  "process_command m nm chdrive fopen argv =
     (if argv = [] then Some (m, None)
      else
        Option.bind (process_command_builtin m nm chdrive argv) (\<lambda>r.
          case r of
            Some e \<Rightarrow> Some (m, Some e)
          | None \<Rightarrow>
              Option.bind (process_command_executable m fopen argv) (\<lambda>(m', r').
                case r' of
                  Some e \<Rightarrow> Some (m', Some e)
                | None \<Rightarrow> Some (m', Some Unknown_command))))"

text \<open>\<open>execute_cmd\<close>: whether the shell goes on (the return value), and the rest as above.\<close>

definition execute_cmd ::
    "(nat \<Rightarrow> nat) \<Rightarrow> (nat \<Rightarrow> nat) \<Rightarrow> (u8 list \<Rightarrow> nat + fil_read) \<Rightarrow> nat \<Rightarrow> mem \<Rightarrow> (bool \<times> mem \<times> shell_event option) option" where
  "execute_cmd nm chdrive fopen linebuffer m =
     (if m linebuffer = 0x1B then Some (False, m, None)
      else
        Option.bind (split_args m linebuffer []) (\<lambda>(m', args).
          map_option (\<lambda>(m'', r). (True, m'', r)) (process_command m' nm chdrive fopen args)))"

section \<open>The arguments\<close>

text \<open>The specification: the words of a line, separated by spaces.\<close>

function words :: "u8 list \<Rightarrow> u8 list list" where
  "words s =
     (let t = dropWhile isspace s in
      if t = [] then [] else takeWhile (\<lambda>c. \<not> isspace c) t # words (dropWhile (\<lambda>c. \<not> isspace c) t))"
  by auto
termination
proof (relation "measure length")
  fix s t :: "u8 list"
  assume t: "t = dropWhile isspace s" "t \<noteq> []"
  then have "\<not> isspace (hd t)" by (metis hd_dropWhile)
  then have "length (dropWhile (\<lambda>c. \<not> isspace c) t) < length t"
    using t(2) by (cases t) (auto simp: length_dropWhile_le less_Suc_eq_le)
  then show "(dropWhile (\<lambda>c. \<not> isspace c) t, s) \<in> measure length"
    using length_dropWhile_le [of isspace s] t(1) by (simp only: in_measure)
qed simp

declare words.simps [simp del]

text \<open>A line of spaces only counts as one empty argument.\<close>

definition line_args :: "u8 list \<Rightarrow> u8 list list" where
  "line_args line = (if line \<noteq> [] \<and> list_all isspace line then [[]] else take MAXARGS (words line))"

lemma isspace_0 [simp]: "\<not> isspace 0"
  by (simp add: isspace_def)

lemma isspace_nonzero: "isspace c \<Longrightarrow> c \<noteq> 0"
  by (auto simp: isspace_def)

lemma skip_spaces_cstr:
  "cstr m p s \<Longrightarrow> skip_spaces m p = Some (p + length (takeWhile isspace s))"
  by (induction s arbitrary: p) (auto simp: skip_spaces.simps)

lemma skip_word_cstr:
  "cstr m p s \<Longrightarrow> skip_word m p = Some (p + length (takeWhile (\<lambda>c. \<not> isspace c) s))"
  by (induction s arbitrary: p) (auto simp: skip_word.simps)

lemma blank_spaces_cstr:
  "cstr m p s \<Longrightarrow> blank_spaces m p =
     Some (wr_bytes m p (replicate (length (takeWhile isspace s)) 0), p + length (takeWhile isspace s))"
proof (induction s arbitrary: m p)
  case Nil
  then show ?case by (simp add: blank_spaces.simps)
next
  case (Cons c s)
  then show ?case
    using Cons.IH [of "m(p := 0)" "Suc p"] by (simp add: blank_spaces.simps [of m p] cstr_upd_other)
qed

lemma cstr_dropWhile: "cstr m p s \<Longrightarrow> cstr m (p + length (takeWhile P s)) (dropWhile P s)"
  using cstr_drop [of m p s "length (takeWhile P s)"]
  by (simp add: dropWhile_eq_drop length_takeWhile_le)

lemma words_Nil [simp]: "words [] = []"
  by (simp add: words.simps)

lemma words_word:
  "c \<noteq> 0x20 \<Longrightarrow> words (c # s) = takeWhile (\<lambda>c. \<not> isspace c) (c # s) # words (dropWhile (\<lambda>c. \<not> isspace c) (c # s))"
  by (simp add: words.simps [of "c # s"] isspace_def)

lemma words_spaces: "words (dropWhile isspace s) = words s"
  by (simp add: words.simps [of s] words.simps [of "dropWhile isspace s"] Let_def dropWhile_idem)

text \<open>One turn of the loop at the first character of a word: the word becomes an argument, the spaces
  behind it become NULs, and the rest \<open>u\<close> of the line is untouched.\<close>

lemma split_args_word:
  assumes "cstr m p s" "s \<noteq> []" "\<not> isspace (hd s)" "length args < MAXARGS"
  obtains m1 w u q where "split_args m p args = split_args m1 q (args @ [p])" "words s = w # words u"
    "cstr m1 p w" "cstr m1 q u" "u = [] \<or> \<not> isspace (hd u)" "length u < length s" "q + length u = p + length s"
    "q > p" "u = [] \<or> p + length w < q" "\<And>a. a < p \<or> p + length s \<le> a \<Longrightarrow> m1 a = m a"
proof -
  define w where "w = takeWhile (\<lambda>c. \<not> isspace c) s"
  define r where "r = dropWhile (\<lambda>c. \<not> isspace c) s"
  define sp where "sp = takeWhile isspace r"
  define u where "u = dropWhile isspace r"
  define m1 where "m1 = wr_bytes m (p + length w) (replicate (length sp) 0)"
  have wr: "s = w @ r" "r = sp @ u" by (simp_all add: w_def r_def sp_def u_def)
  have w0: "w \<noteq> []" using assms(2,3) by (cases s) (simp_all add: w_def)
  have ws: "words s = w # words u" using assms(2,3) words_word [of "hd s" "tl s"] words_spaces [of r]
    by (simp add: w_def r_def u_def isspace_def)
  have r: "cstr m (p + length w) r" using cstr_dropWhile [OF assms(1)] by (simp add: w_def r_def)
  have "r \<noteq> [] \<Longrightarrow> isspace (hd r)" using hd_dropWhile [of "\<lambda>c. \<not> isspace c" s] unfolding r_def by blast
  then have rh: "r = [] \<or> sp \<noteq> []" by (cases r) (auto simp: sp_def)
  have m1o: "m1 a = m a" if "a < p + length w \<or> p + length w + length sp \<le> a" for a
    using that by (auto simp: m1_def wr_bytes_apply)
  have u: "cstr m1 (p + length w + length sp) u"
    using cstr_dropWhile [OF r, of isspace] m1o by (subst cstr_cong [of u m1 _ m]) (auto simp: sp_def u_def)
  have z: "m1 (p + length w) = 0" using r rh by (cases "sp = []") (auto simp: m1_def wr_bytes_apply)
  have "rd_bytes m1 p (length w) = rd_bytes m p (length w)" using m1o by (simp add: rd_bytes_eq_iff)
  then have wc: "cstr m1 p w" using assms(1) z by (simp add: wr(1) cstr_append_iff cstr_iff [of m1])
  have nz: "m p \<noteq> 0" "\<not> isspace (m p)" using assms(1-3) by (cases s; auto)+
  have skip: "skip_spaces m p = Some p" "skip_word m p = Some (p + length w)"
    using skip_word_cstr [OF assms(1)] nz by (simp_all add: skip_spaces.simps w_def)
  have step: "split_args m p args = split_args m1 (p + length w + length sp) (args @ [p])"
  proof (cases "r = []")
    case True
    then show ?thesis using r skip nz assms(4) by (simp add: split_args.simps [of m p args] m1_def sp_def)
  next
    case False
    then have "m (p + length w) \<noteq> 0" using r by (cases r) auto
    then show ?thesis using skip nz assms(4) blank_spaces_cstr [OF r]
      by (simp add: split_args.simps [of m p args] m1_def sp_def)
  qed
  have "u = [] \<or> \<not> isspace (hd u)" using hd_dropWhile [of isspace r] by (auto simp: u_def)
  moreover have "u = [] \<or> p + length w < p + length w + length sp" using rh wr(2) by auto
  moreover have "m1 a = m a" if "a < p \<or> p + length s \<le> a" for a using that m1o [of a] by (auto simp: wr)
  moreover have "length u < length s" "p + length w + length sp + length u = p + length s" "p + length w + length sp > p"
    using w0 by (simp_all add: wr)
  ultimately show thesis using that [OF step ws wc u] by blast
qed

lemma split_args_rest:
  assumes "cstr m p s" "s = [] \<or> \<not> isspace (hd s)" "length args \<le> MAXARGS"
  shows "\<exists>m' ptrs. split_args m p args = Some (m', args @ ptrs) \<and>
    list_all2 (cstr m') ptrs (take (MAXARGS - length args) (words s)) \<and>
    (\<forall>a. a < p \<or> p + length s \<le> a \<longrightarrow> m' a = m a)"
  using assms
proof (induction "length s" arbitrary: m p s args rule: less_induct)
  case less
  show ?case
  proof (cases "length args = MAXARGS \<or> s = []")
    case True
    have end0: "m (p + length s) = 0" using cstr_end [OF less.prems(1)] .
    have "(if length args = MAXARGS then m(p := 0) else m) p = 0" using True end0 by auto
    moreover have "(m(p := 0)) a = m a" if "a < p \<or> p + length s \<le> a" for a
      using that end0 by (cases "s = []") (auto simp: fun_upd_apply)
    ultimately show ?thesis using True by (auto simp: split_args.simps [of m p args] Let_def)
  next
    case False
    then have "s \<noteq> []" "\<not> isspace (hd s)" "length args < MAXARGS" using less.prems(2,3) by auto
    from split_args_word [OF less.prems(1) this]
    obtain m1 w u q where st: "split_args m p args = split_args m1 q (args @ [p])" "words s = w # words u"
      "cstr m1 p w" "cstr m1 q u" "u = [] \<or> \<not> isspace (hd u)" "length u < length s" "q + length u = p + length s"
      "q > p" "u = [] \<or> p + length w < q" "\<And>a. a < p \<or> p + length s \<le> a \<Longrightarrow> m1 a = m a" by metis
    obtain m' ptrs where IH: "split_args m1 q (args @ [p]) = Some (m', (args @ [p]) @ ptrs)"
        "list_all2 (cstr m') ptrs (take (MAXARGS - length (args @ [p])) (words u))"
        "\<And>a. a < q \<or> q + length u \<le> a \<Longrightarrow> m' a = m1 a"
      using less.hyps [OF st(6,4,5), of "args @ [p]"] \<open>length args < MAXARGS\<close> by auto
    have "cstr m' p w = cstr m1 p w" using st(9) IH(3) by (intro cstr_cong) force
    moreover have "MAXARGS - length args = Suc (MAXARGS - length (args @ [p]))" using \<open>length args < MAXARGS\<close> by simp
    moreover have "m' a = m a" if "a < p \<or> p + length s \<le> a" for a
      using that IH(3) [of a] st(7,8,10) by auto
    ultimately show ?thesis using IH(1,2) st(1-3) by auto
  qed
qed

lemma split_args_ok:
  assumes "cstr m p line"
  shows "\<exists>m' ptrs. split_args m p [] = Some (m', ptrs) \<and> list_all2 (cstr m') ptrs (line_args line) \<and>
    (\<forall>a. a < p \<or> p + length line \<le> a \<longrightarrow> m' a = m a)"
proof (cases "line = [] \<or> \<not> isspace (hd line)")
  case True
  then have "line_args line = take MAXARGS (words line)" by (cases line) (auto simp: line_args_def)
  then show ?thesis using split_args_rest [OF assms True, of "[]"] by simp
next
  case False
  define q where "q = p + length (takeWhile isspace line)"
  define s where "s = dropWhile isspace line"
  have s: "cstr m q s" and sh: "s = [] \<or> \<not> isspace (hd s)"
    using cstr_dropWhile [OF assms, of isspace] hd_dropWhile [of isspace line] by (auto simp: q_def s_def)
  have "length (takeWhile isspace line) + length s = length line"
    using length_append [of "takeWhile isspace line" s] by (simp add: s_def)
  moreover have "takeWhile isspace line \<noteq> []" using False by (cases line) auto
  ultimately have len: "q + length s = p + length line" "p < q" by (simp_all add: q_def)
  have nz: "m p \<noteq> 0" using False assms by (cases line) auto
  have skip: "skip_spaces m p = Some q" using skip_spaces_cstr [OF assms] by (simp add: q_def)
  show ?thesis
  proof (cases "s = []")
    case True
    then have "line_args line = [[]]" using False by (simp add: line_args_def s_def dropWhile_eq_Nil_conv list_all_iff)
    moreover have "split_args m p [] = Some (m, [q])"
      using s True nz skip by (simp add: split_args.simps [of m p] split_args.simps [of m q] skip_word.simps MAXARGS_def)
    ultimately show ?thesis using s True by simp
  next
    case False
    then have sh: "\<not> isspace (hd s)" using sh by simp
    have "split_args m p [] = split_args m q []"
      using nz skip skip_spaces.simps [of m q] s sh False
      by (cases s) (simp_all add: split_args.simps [of m p] split_args.simps [of m q] MAXARGS_def)
    moreover have "line_args line = take MAXARGS (words s)"
      using False by (auto simp: line_args_def s_def words_spaces dropWhile_eq_Nil_conv list_all_iff)
    moreover have "\<forall>a. a < p \<or> p + length line \<le> a \<longrightarrow> a < q \<or> q + length s \<le> a" using len by auto
    ultimately show ?thesis using split_args_rest [OF s, of "[]"] sh by fastforce
  qed
qed

text \<open>C33: Taking a command line apart: \<open>split_args\<close>, the first loop of \<open>execute_cmd\<close> on a line that does not start with ESC, cuts the
  line into its space-separated words, the first 40 of them if there are more, each a NUL-terminated string in place, and changes no
  byte outside the line; a line that has only spaces gives one empty argument.\<close>

theorem split_args_correct:
  assumes "cstr m p line"
  shows "\<exists>m' ptrs. split_args m p [] = Some (m', ptrs) \<and> list_all2 (cstr m') ptrs (line_args line) \<and>
    (\<forall>a. a < p \<or> p + length line \<le> a \<longrightarrow> m' a = m a)"
  by (rule split_args_ok [OF assms])

section \<open>Finding the command\<close>

definition same_name :: "u8 list \<Rightarrow> cmd_entry_t \<Rightarrow> bool" where
  "same_name w cmd \<longleftrightarrow> map fold_char (cmd_name cmd) = map fold_char w"

lemma find_builtin_find:
  assumes "cstr m (argv ! 0) w" "\<And>i. i < length tab \<Longrightarrow> cstr m (nm (k + i)) (cmd_name (tab ! i))"
  shows "find_builtin m nm k tab argv = Some (map_option (\<lambda>c. call_builtin c argv) (List.find (same_name w) tab))"
  using assms(2)
proof (induction tab arbitrary: k)
  case Nil
  then show ?case by simp
next
  case (Cons c tab)
  obtain r where r: "strcasecmp m (argv ! 0) (nm k) = Some r" "r = 0 \<longleftrightarrow> map fold_char w = map fold_char (cmd_name c)"
    using strcasecmp_cstr [OF assms(1), of "nm k" "cmd_name c"] Cons.prems [of 0] by auto
  have "find_builtin m nm (k + 1) tab argv = Some (map_option (\<lambda>c. call_builtin c argv) (List.find (same_name w) tab))"
    using Cons.prems [of "Suc i" for i] by (intro Cons.IH) simp
  moreover have "r = 0 \<longleftrightarrow> same_name w c" using r(2) by (auto simp: same_name_def)
  ultimately show ?case using r(1) by simp
qed

text \<open>The names of the commands are in memory, away from the command line.\<close>

definition names_at :: "mem \<Rightarrow> (nat \<Rightarrow> nat) \<Rightarrow> nat \<Rightarrow> nat \<Rightarrow> bool" where
  "names_at m nm p n \<longleftrightarrow> (\<forall>k < length g_cmd_table. cstr m (nm k) (cmd_name (g_cmd_table ! k)) \<and>
     apart (nm k) (Suc (length (cmd_name (g_cmd_table ! k)))) p n)"

lemma names_at_kept:
  assumes "names_at m nm p n" "\<forall>a. a < p \<or> p + n \<le> a \<longrightarrow> m' a = m a" "k < length g_cmd_table"
  shows "cstr m' (nm k) (cmd_name (g_cmd_table ! k))"
proof -
  have "cstr m' (nm k) (cmd_name (g_cmd_table ! k)) = cstr m (nm k) (cmd_name (g_cmd_table ! k))"
    using assms by (intro cstr_cong) (auto simp: names_at_def apart_def)
  then show ?thesis using assms(1,3) by (simp add: names_at_def)
qed

lemma second_char: "list_all (\<lambda>c. length (cmd_name c) \<ge> 2 \<and> fold_char (cmd_name c ! 1) \<noteq> 0x3A) g_cmd_table"
  by code_simp

lemma fold_char_colon: "fold_char 0x3A = 0x3A"
  by code_simp

lemma no_drive:
  assumes "cstr m p w" "List.find (same_name w) g_cmd_table = Some c"
  shows "m (p + 1) \<noteq> 0x3A"
proof
  assume colon: "m (p + 1) = 0x3A"
  have c: "c \<in> set g_cmd_table" "same_name w c" using assms(2) by (auto simp: find_Some_iff)
  then have n2: "length (cmd_name c) \<ge> 2" "fold_char (cmd_name c ! 1) \<noteq> 0x3A" and len: "length w = length (cmd_name c)"
    using second_char by (auto simp: list_all_iff same_name_def dest: arg_cong [where f = length])
  have "map fold_char (cmd_name c) ! 1 = map fold_char w ! 1" using c(2) by (simp add: same_name_def)
  then have f: "fold_char (w ! 1) = fold_char (cmd_name c ! 1)" using n2(1) len by simp
  have "w ! 1 = 0x3A" using colon cstr_nth [OF assms(1), of 1] n2(1) len by simp
  then show False using f n2(2) by (simp add: fold_char_colon)
qed

lemma words_length: "w \<in> set (words s) \<Longrightarrow> length w \<le> length s"
proof (induction s rule: words.induct)
  case (1 s)
  let ?t = "dropWhile isspace s"
  have t: "length ?t \<le> length s" by (rule length_dropWhile_le)
  from 1(2) consider "?t \<noteq> []" "w = takeWhile (\<lambda>c. \<not> isspace c) ?t"
    | "?t \<noteq> []" "w \<in> set (words (dropWhile (\<lambda>c. \<not> isspace c) ?t))"
    unfolding words.simps [of s] Let_def by (auto simp del: dropWhile_eq_Nil_conv split: if_splits)
  then show ?case
  proof cases
    case 1
    then show ?thesis using t length_takeWhile_le [of "\<lambda>c. \<not> isspace c" ?t] by simp
  next
    case 2
    then show ?thesis using "1.IH" [OF refl 2] t length_dropWhile_le [of "\<lambda>c. \<not> isspace c" ?t] by linarith
  qed
qed

lemma line_args_length: "line_args line = w # ws \<Longrightarrow> length w \<le> length line"
  using words_length [of w line] in_set_takeD [of w MAXARGS "words line"]
  by (auto simp: line_args_def split: if_splits)

text \<open>C15: Running a command line that does not start with ESC: when the first of its (first 40) words is the name of a built-in
  command, in upper or lower case, exactly that command is called with the remaining words as its arguments if their number is
  not below the minimum of its table entry and not above its maximum, where 0 is no maximum; else nothing is called and the message
  names the number, or the two bounds. No byte outside the line changes.\<close>

theorem execute_cmd_builtin:
  assumes "cstr m p line" "names_at m nm p (length line)" "m p \<noteq> 0x1B"
    and "line_args line = w # ws" "List.find (same_name w) g_cmd_table = Some cmd"
  shows "\<exists>m' argv. execute_cmd nm chdrive fopen p m = Some (True, m', Some
      (if min_args cmd \<le> int (length ws) \<and> (max_args cmd = 0 \<or> int (length ws) \<le> max_args cmd)
       then Run_builtin (cmd_function cmd) (tl argv)
       else if min_args cmd = max_args cmd then Requires_arguments (min_args cmd)
       else Requires_between (min_args cmd) (max_args cmd))) \<and>
    list_all2 (cstr m') argv (w # ws) \<and> (\<forall>a. a < p \<or> p + length line \<le> a \<longrightarrow> m' a = m a)"
proof -
  obtain m' argv where sp: "split_args m p [] = Some (m', argv)" "list_all2 (cstr m') argv (w # ws)"
      "\<forall>a. a < p \<or> p + length line \<le> a \<longrightarrow> m' a = m a"
    using split_args_ok [OF assms(1)] assms(4) by auto
  then have av: "argv \<noteq> []" "cstr m' (argv ! 0) w" by (cases argv; auto)+
  have n: "length argv = Suc (length ws)" using list_all2_lengthD [OF sp(2)] by simp
  have "find_builtin m' nm 0 g_cmd_table argv = Some (Some (call_builtin cmd argv))"
    using find_builtin_find [OF av(2), of g_cmd_table nm 0] names_at_kept [OF assms(2) sp(3)] assms(5) by simp
  then have "process_command_builtin m' nm chdrive argv = Some (Some (call_builtin cmd argv))"
    using no_drive [OF av(2) assms(5)] by (simp add: process_command_builtin_def)
  then have "execute_cmd nm chdrive fopen p m = Some (True, m', Some (call_builtin cmd argv))"
    using assms(3) sp(1) av(1) by (simp add: execute_cmd_def process_command_def)
  then show ?thesis using sp(2,3) unfolding call_builtin_def n by auto
qed

text \<open>A first word that is neither a built-in command nor, with or without one of the two extensions,
  a file that can be opened is answered with the message for unknown commands.\<close>

theorem execute_cmd_unknown:
  assumes "cstr m p line" "names_at m nm p (length line)" "m p \<noteq> 0x1B" "length line < 2 ^ 32"
    and "line_args line = w # ws" "List.find (same_name w) g_cmd_table = None" "ws \<noteq> []"
    and "\<And>f. f \<in> {w, w @ bytes_of ''.elf'' @ [0x0A], w @ bytes_of ''.bat'' @ [0x0A]} \<Longrightarrow> \<exists>fr. fopen f = Inl fr"
  shows "\<exists>m'. execute_cmd nm chdrive fopen p m = Some (True, m', Some Unknown_command) \<and>
    (\<forall>a. a < p \<or> p + length line \<le> a \<longrightarrow> m' a = m a)"
proof -
  obtain m' argv where sp: "split_args m p [] = Some (m', argv)" "list_all2 (cstr m') argv (w # ws)"
      "\<forall>a. a < p \<or> p + length line \<le> a \<longrightarrow> m' a = m a"
    using split_args_ok [OF assms(1)] assms(5) by auto
  then have av: "argv \<noteq> []" "length argv \<noteq> 1" "cstr m' (argv ! 0) w" using assms(7) by (cases argv; auto)+
  have "find_builtin m' nm 0 g_cmd_table argv = Some None"
    using find_builtin_find [OF av(3), of g_cmd_table nm 0] names_at_kept [OF assms(2) sp(3)] assms(6) by simp
  then have b: "process_command_builtin m' nm chdrive argv = Some None"
    using av(2) by (simp add: process_command_builtin_def)
  have "rd_bytes m' (argv ! 0) (unat (of_nat (length w) :: u32)) = w"
    using av(3) line_args_length [OF assms(5)] assms(4) by (simp add: cstr_iff of_nat_inverse)
  moreover have "open_executable_file fopen w = None"
    using assms(8) [of w] assms(8) [of "w @ bytes_of ''.elf'' @ [0x0A]"] assms(8) [of "w @ bytes_of ''.bat'' @ [0x0A]"]
    by (auto simp: open_executable_file_def orion_extensions_def)
  ultimately have "process_command_executable m' fopen argv = Some (m', None)"
    using strlen_cstr [OF av(3)] by (simp add: process_command_executable_def)
  then show ?thesis using b assms(3) sp av(1) by (simp add: execute_cmd_def process_command_def)
qed

section \<open>Two command lines\<close>

text \<open>The names are sixteen bytes apart from 0x5000 on, the line is at 0x4000.\<close>

definition demo_nm :: "nat \<Rightarrow> nat" where
  "demo_nm k = 0x5000 + 16 * k"

definition demo_shell_mem :: "u8 list \<Rightarrow> mem" where
  "demo_shell_mem line a =
     (if a < 0x5000 then (if 0x4000 \<le> a \<and> a < 0x4000 + length line then line ! (a - 0x4000) else 0)
      else
        (let k = (a - 0x5000) div 16; i = (a - 0x5000) mod 16 in
         if k < length g_cmd_table \<and> i < length (cmd_name (g_cmd_table ! k)) then cmd_name (g_cmd_table ! k) ! i else 0))"

lemma demo_names:
  assumes "length line < 0x1000"
  shows "names_at (demo_shell_mem line) demo_nm 0x4000 (length line)"
  unfolding names_at_def
proof (intro allI impI conjI)
  fix k assume k: "k < length g_cmd_table"
  have tab: "list_all (\<lambda>c. length (cmd_name c) < 16 \<and> 0 \<notin> set (cmd_name c)) g_cmd_table" by code_simp
  then have n: "length (cmd_name (g_cmd_table ! k)) < 16" "0 \<notin> set (cmd_name (g_cmd_table ! k))"
    using k by (auto simp: list_all_iff)
  show "cstr (demo_shell_mem line) (demo_nm k) (cmd_name (g_cmd_table ! k))"
    unfolding cstr_iff
  proof (intro conjI nth_equalityI)
    fix i assume "i < length (rd_bytes (demo_shell_mem line) (demo_nm k) (length (cmd_name (g_cmd_table ! k))))"
    then show "rd_bytes (demo_shell_mem line) (demo_nm k) (length (cmd_name (g_cmd_table ! k))) ! i = cmd_name (g_cmd_table ! k) ! i"
      using n(1) k by (simp add: demo_shell_mem_def demo_nm_def)
  qed (use n k in \<open>simp_all add: demo_shell_mem_def demo_nm_def\<close>)
  show "apart (demo_nm k) (Suc (length (cmd_name (g_cmd_table ! k)))) 0x4000 (length line)"
    using assms by (simp add: apart_def demo_nm_def)
qed

lemma demo_line: "length line < 0x1000 \<Longrightarrow> 0 \<notin> set line \<Longrightarrow> cstr (demo_shell_mem line) 0x4000 line"
  unfolding cstr_iff by (auto simp: demo_shell_mem_def intro!: nth_equalityI)

theorem split_args_witness:
  "\<exists>m' ptrs. split_args (demo_shell_mem (bytes_of '' cp  a b '')) 0x4000 [] = Some (m', ptrs) \<and>
     list_all2 (cstr m') ptrs [bytes_of ''cp'', bytes_of ''a'', bytes_of ''b'']"
proof -
  have "line_args (bytes_of '' cp  a b '') = [bytes_of ''cp'', bytes_of ''a'', bytes_of ''b'']"
    "length (bytes_of '' cp  a b '') < 0x1000" "0 \<notin> set (bytes_of '' cp  a b '')" by code_simp+
  then show ?thesis using split_args_correct [OF demo_line, of "bytes_of '' cp  a b ''"] by auto
qed

theorem execute_cmd_builtin_witness:
  "\<exists>m' argv. execute_cmd demo_nm (\<lambda>_. 0) (\<lambda>_. Inl 4) 0x4000 (demo_shell_mem (bytes_of ''CAT f'')) =
     Some (True, m', Some (Run_builtin Do_cat (tl argv))) \<and> list_all2 (cstr m') argv [bytes_of ''CAT'', bytes_of ''f'']"
proof -
  let ?l = "bytes_of ''CAT f''"
  have l: "length ?l < 0x1000" "0 \<notin> set ?l" "line_args ?l = [bytes_of ''CAT'', bytes_of ''f'']"
    and f: "List.find (same_name (bytes_of ''CAT'')) g_cmd_table = Some (cmd_entry ''cat'' 1 1 Do_cat)"
    and h: "?l \<noteq> []" "?l ! 0 \<noteq> 0x1B" by code_simp+
  have e: "demo_shell_mem ?l 0x4000 \<noteq> 0x1B" using h by (simp add: demo_shell_mem_def)
  show ?thesis
    using execute_cmd_builtin [OF demo_line [OF l(1,2)] demo_names [OF l(1)] e l(3) f, of "\<lambda>_. 0" "\<lambda>_. Inl 4"]
    by (auto simp: cmd_entry_def)
qed

theorem execute_cmd_unknown_witness:
  "\<exists>m'. execute_cmd demo_nm (\<lambda>_. 0) (\<lambda>_. Inl 4) 0x4000 (demo_shell_mem (bytes_of ''foo x'')) = Some (True, m', Some Unknown_command)"
proof -
  let ?l = "bytes_of ''foo x''"
  have l: "length ?l < 0x1000" "0 \<notin> set ?l" "line_args ?l = [bytes_of ''foo'', bytes_of ''x'']"
    and f: "List.find (same_name (bytes_of ''foo'')) g_cmd_table = None"
    and h: "?l \<noteq> []" "?l ! 0 \<noteq> 0x1B" by code_simp+
  have e: "demo_shell_mem ?l 0x4000 \<noteq> 0x1B" using h by (simp add: demo_shell_mem_def)
  show ?thesis
    using execute_cmd_unknown [OF demo_line [OF l(1,2)] demo_names [OF l(1)] e less_trans [OF l(1)] l(3) f, of "\<lambda>_. Inl 4" "\<lambda>_. 0"] by simp blast
qed

end
