(* ===== verification/Libc_Malloc.thy ===== *)
theory Libc_Malloc
  imports Orion_Prelude
begin

text \<open>
  \<open>lib/libc/src/string/malloc.c\<close>: the allocator. Its block descriptors are an array behind the heap
  header, linked into three lists: the free blocks in the order of their addresses, the blocks in
  use, and the descriptors that are not in use. A pointer to a descriptor is its index in the array
  and \<open>NULL\<close> is \<open>None\<close>; addresses and sizes of the memory that is handed out are 32-bit words, so the
  sums and the rounding of the code can wrap around.

  The lists are read off the \<open>next\<close> fields by \<open>blist\<close>; \<open>heap_ok\<close> is the invariant of the allocator.
\<close>

section \<open>The code\<close>

record block =
  b_addr :: u32
  b_next :: "nat option"
  b_size :: u32

record heap =
  blk :: "nat \<Rightarrow> block"
  h_free :: "nat option"
  h_used :: "nat option"
  h_fresh :: "nat option"
  h_top :: u32
  heap_limit :: u32
  heap_split_thresh :: u32
  heap_alignment :: u32
  heap_max_blocks :: nat

definition set_next :: "nat \<Rightarrow> nat option \<Rightarrow> heap \<Rightarrow> heap" where
  "set_next p n hp = hp\<lparr>blk := (blk hp)(p := (blk hp p)\<lparr>b_next := n\<rparr>)\<rparr>"

definition set_size :: "nat \<Rightarrow> u32 \<Rightarrow> heap \<Rightarrow> heap" where
  "set_size p n hp = hp\<lparr>blk := (blk hp)(p := (blk hp p)\<lparr>b_size := n\<rparr>)\<rparr>"

definition set_addr :: "nat \<Rightarrow> u32 \<Rightarrow> heap \<Rightarrow> heap" where
  "set_addr p n hp = hp\<lparr>blk := (blk hp)(p := (blk hp p)\<lparr>b_addr := n\<rparr>)\<rparr>"

text \<open>The search of \<open>insert_block\<close>: the values of \<open>prev\<close> and \<open>ptr\<close> at its end.\<close>

partial_function (option) insert_scan ::
    "(nat \<Rightarrow> block) \<Rightarrow> u32 \<Rightarrow> nat option \<Rightarrow> nat option \<Rightarrow> (nat option \<times> nat option) option" where
  "insert_scan b addr prev ptr =
     (case ptr of
        None \<Rightarrow> Some (prev, ptr)
      | Some p \<Rightarrow>
          if addr \<le> b_addr (b p) then Some (prev, ptr) else insert_scan b addr (Some p) (b_next (b p)))"

declare insert_scan.simps [code]

definition insert_block :: "nat \<Rightarrow> heap \<Rightarrow> heap option" where
  "insert_block block hp =
     map_option (\<lambda>(prev, ptr).
       set_next block ptr
         (case prev of
            Some p \<Rightarrow> set_next p (Some block) hp
          | None \<Rightarrow> hp\<lparr>h_free := Some block\<rparr>))
       (insert_scan (blk hp) (b_addr (blk hp block)) None (h_free hp))"

text \<open>Running into \<open>NULL\<close> before \<open>to\<close> would be a crash.\<close>

partial_function (option) release_blocks :: "nat option \<Rightarrow> nat option \<Rightarrow> heap \<Rightarrow> heap option" where
  "release_blocks scan to hp =
     (if scan = to then Some hp
      else
        (case scan of
           None \<Rightarrow> None
         | Some s \<Rightarrow>
             release_blocks (b_next (blk hp s)) to
               (set_size s 0 (set_addr s 0 ((set_next s (h_fresh hp) hp)\<lparr>h_fresh := Some s\<rparr>)))))"

declare release_blocks.simps [code]

text \<open>The inner loop of \<open>compact\<close>: the last of the adjoining blocks.\<close>

partial_function (option) merge_scan :: "(nat \<Rightarrow> block) \<Rightarrow> nat \<Rightarrow> nat option" where
  "merge_scan b prev =
     (case b_next (b prev) of
        None \<Rightarrow> Some prev
      | Some scan \<Rightarrow>
          if b_addr (b prev) + b_size (b prev) = b_addr (b scan) then merge_scan b scan else Some prev)"

declare merge_scan.simps [code]

partial_function (option) compact_loop :: "nat option \<Rightarrow> heap \<Rightarrow> heap option" where
  "compact_loop ptr hp =
     (case ptr of
        None \<Rightarrow> Some hp
      | Some p \<Rightarrow>
          Option.bind (merge_scan (blk hp) p) (\<lambda>prev.
            if prev \<noteq> p then
              (let new_size = b_addr (blk hp prev) - b_addr (blk hp p) + b_size (blk hp prev);
                   hp = set_size p new_size hp;
                   next = b_next (blk hp prev)
               in Option.bind (release_blocks (b_next (blk hp p)) next hp) (\<lambda>hp.
                    let hp = set_next p next hp in compact_loop (b_next (blk hp p)) hp))
            else compact_loop (b_next (blk hp p)) hp))"

declare compact_loop.simps [code]

definition compact :: "heap \<Rightarrow> heap option" where
  "compact hp = compact_loop (h_free hp) hp"

text \<open>
  \<open>malloc_init\<close>: \<open>top\<close> is the address behind the descriptors, which \<open>base\<close> and their number give
  (16 bytes of header and 12 bytes for each descriptor).
\<close>

definition malloc_init :: "u32 \<Rightarrow> u32 \<Rightarrow> nat \<Rightarrow> u32 \<Rightarrow> u32 \<Rightarrow> (nat \<Rightarrow> block) \<Rightarrow> heap" where
  "malloc_init base limit heap_blocks split_thresh alignment old =
     \<lparr>blk = (\<lambda>i. if i + 1 < heap_blocks then (old i)\<lparr>b_next := Some (i + 1)\<rparr>
                 else if i + 1 = heap_blocks then (old i)\<lparr>b_next := None\<rparr> else old i),
      h_free = None, h_used = None, h_fresh = Some 0, h_top = base + 16 + 12 * of_nat heap_blocks,
      heap_limit = limit, heap_split_thresh = split_thresh, heap_alignment = alignment,
      heap_max_blocks = heap_blocks\<rparr>"

text \<open>The search of \<open>free\<close>: the block and its predecessor.\<close>

partial_function (option) free_scan ::
    "(nat \<Rightarrow> block) \<Rightarrow> u32 \<Rightarrow> nat option \<Rightarrow> nat option \<Rightarrow> (nat option \<times> nat option) option" where
  "free_scan b addr prev block =
     (case block of
        None \<Rightarrow> Some (prev, block)
      | Some p \<Rightarrow> if addr = b_addr (b p) then Some (prev, block) else free_scan b addr (Some p) (b_next (b p)))"

declare free_scan.simps [code]

definition free_mem :: "u32 \<Rightarrow> heap \<Rightarrow> (heap \<times> bool) option" where
  "free_mem addr hp =
     Option.bind (free_scan (blk hp) addr None (h_used hp)) (\<lambda>(prev, block).
       case block of
         None \<Rightarrow> Some (hp, False)
       | Some x \<Rightarrow>
           (let hp = (case prev of
                  Some p \<Rightarrow> set_next p (b_next (blk hp x)) hp
                | None \<Rightarrow> hp\<lparr>h_used := b_next (blk hp x)\<rparr>)
            in Option.bind (insert_block x hp) (\<lambda>hp. map_option (\<lambda>hp. (hp, True)) (compact hp))))"

definition round_up :: "u32 \<Rightarrow> u32 \<Rightarrow> u32" where
  "round_up al num = (num + al - 1) AND (- al)"

definition is_top :: "heap \<Rightarrow> u32 \<Rightarrow> nat \<Rightarrow> bool" where
  "is_top hp num p \<longleftrightarrow> b_addr (blk hp p) + b_size (blk hp p) \<ge> h_top hp \<and> b_addr (blk hp p) + num \<le> heap_limit hp"

text \<open>The search of \<open>alloc_block\<close> through the free list.\<close>

partial_function (option) fit_scan ::
    "heap \<Rightarrow> u32 \<Rightarrow> nat option \<Rightarrow> nat option \<Rightarrow> (nat option \<times> nat option) option" where
  "fit_scan hp num prev ptr =
     (case ptr of
        None \<Rightarrow> Some (prev, ptr)
      | Some p \<Rightarrow>
          if is_top hp num p \<or> b_size (blk hp p) \<ge> num then Some (prev, ptr)
          else fit_scan hp num (Some p) (b_next (blk hp p)))"

declare fit_scan.simps [code]

text \<open>Taking block \<open>p\<close> of the free list: unlink it, make it a used block, and resize or split it.\<close>

definition take_free :: "u32 \<Rightarrow> nat option \<Rightarrow> nat \<Rightarrow> heap \<Rightarrow> heap option" where
  "take_free num prev p hp0 =
     (let hp = (case prev of
            Some q \<Rightarrow> set_next q (b_next (blk hp0 p)) hp0
          | None \<Rightarrow> hp0\<lparr>h_free := b_next (blk hp0 p)\<rparr>);
          hp = (set_next p (h_used hp) hp)\<lparr>h_used := Some p\<rparr>
      in if is_top hp0 num p then
           Some ((set_size p num hp)\<lparr>h_top := b_addr (blk hp p) + num\<rparr>)
         else
           (case h_fresh hp of
              None \<Rightarrow> Some hp
            | Some split \<Rightarrow>
                (let excess = b_size (blk hp p) - num in
                 if excess \<ge> heap_split_thresh hp then
                   (let hp = set_size p num hp;
                        hp = hp\<lparr>h_fresh := b_next (blk hp split)\<rparr>;
                        hp = set_addr split (b_addr (blk hp p) + num) hp;
                        hp = set_size split excess hp
                    in Option.bind (insert_block split hp) compact)
                 else Some hp)))"

definition alloc_block :: "u32 \<Rightarrow> heap \<Rightarrow> (heap \<times> nat option) option" where
  "alloc_block n hp =
     (let num = round_up (heap_alignment hp) n in
      Option.bind (fit_scan hp num None (h_free hp)) (\<lambda>(prev, ptr).
        case ptr of
          Some p \<Rightarrow> map_option (\<lambda>hp'. (hp', Some p)) (take_free num prev p hp)
        | None \<Rightarrow>
            (let new_top = h_top hp + num in
             case h_fresh hp of
               Some p \<Rightarrow>
                 if new_top \<le> heap_limit hp then
                   (let hp' = hp\<lparr>h_fresh := b_next (blk hp p)\<rparr>;
                        hp' = set_addr p (h_top hp) hp';
                        hp' = set_next p (h_used hp) hp';
                        hp' = set_size p num hp'
                    in Some (hp'\<lparr>h_used := Some p, h_top := new_top\<rparr>, Some p))
                 else Some (hp, None)
             | None \<Rightarrow> Some (hp, None))))"

definition malloc :: "u32 \<Rightarrow> heap \<Rightarrow> (heap \<times> u32 option) option" where
  "malloc num hp = map_option (\<lambda>(hp', r). (hp', map_option (\<lambda>p. b_addr (blk hp' p)) r)) (alloc_block num hp)"

text \<open>\<open>memclear\<close> on the flat memory: words of four bytes, then the rest.\<close>

fun clear_words :: "nat \<Rightarrow> nat \<Rightarrow> mem \<Rightarrow> mem" where
  "clear_words p 0 m = m"
| "clear_words p (Suc k) m = clear_words (p + 4) k (wr_bytes m p [0, 0, 0, 0])"

fun clear_bytes :: "nat \<Rightarrow> nat \<Rightarrow> mem \<Rightarrow> mem" where
  "clear_bytes p 0 m = m"
| "clear_bytes p (Suc k) m = clear_bytes (p + 1) k (m(p := 0))"

definition memclear :: "nat \<Rightarrow> u32 \<Rightarrow> mem \<Rightarrow> mem" where
  "memclear ptr num m =
     (let numw = unat ((num AND (- 4)) div 4) in
      clear_bytes (ptr + 4 * numw) (unat (num AND 3)) (clear_words ptr numw m))"

definition calloc :: "u32 \<Rightarrow> u32 \<Rightarrow> heap \<Rightarrow> mem \<Rightarrow> (heap \<times> mem \<times> u32 option) option" where
  "calloc n sz hp m =
     (let num = n * sz in
      map_option (\<lambda>(hp', r).
        case r of
          Some p \<Rightarrow> (hp', memclear (unat (b_addr (blk hp' p))) num m, Some (b_addr (blk hp' p)))
        | None \<Rightarrow> (hp', m, None))
        (alloc_block num hp))"

partial_function (option) count_blocks :: "(nat \<Rightarrow> block) \<Rightarrow> nat option \<Rightarrow> nat option" where
  "count_blocks b ptr =
     (case ptr of None \<Rightarrow> Some 0 | Some p \<Rightarrow> Option.bind (count_blocks b (b_next (b p))) (\<lambda>n. Some (n + 1)))"

declare count_blocks.simps [code]

definition malloc_num_free :: "heap \<Rightarrow> nat option" where
  "malloc_num_free hp = count_blocks (blk hp) (h_free hp)"

definition malloc_num_used :: "heap \<Rightarrow> nat option" where
  "malloc_num_used hp = count_blocks (blk hp) (h_used hp)"

definition malloc_num_fresh :: "heap \<Rightarrow> nat option" where
  "malloc_num_fresh hp = count_blocks (blk hp) (h_fresh hp)"

definition malloc_check :: "heap \<Rightarrow> bool option" where
  "malloc_check hp =
     Option.bind (malloc_num_free hp) (\<lambda>f. Option.bind (malloc_num_used hp) (\<lambda>u.
       Option.bind (malloc_num_fresh hp) (\<lambda>r. Some (heap_max_blocks hp = f + u + r))))"

section \<open>Lists of blocks\<close>

text \<open>\<open>chain_to b xs q\<close>: the blocks \<open>xs\<close> are linked in this order and the last one points to \<open>q\<close>.\<close>

fun hdp :: "nat list \<Rightarrow> nat option" where
  "hdp [] = None"
| "hdp (x # xs) = Some x"

fun chain_to :: "(nat \<Rightarrow> block) \<Rightarrow> nat list \<Rightarrow> nat option \<Rightarrow> bool" where
  "chain_to b [] q \<longleftrightarrow> True"
| "chain_to b [x] q \<longleftrightarrow> b_next (b x) = q"
| "chain_to b (x # y # xs) q \<longleftrightarrow> b_next (b x) = Some y \<and> chain_to b (y # xs) q"

abbreviation chain :: "(nat \<Rightarrow> block) \<Rightarrow> nat list \<Rightarrow> bool" where
  "chain b xs \<equiv> chain_to b xs None"

definition ptr_to :: "nat list \<Rightarrow> nat option \<Rightarrow> nat option" where
  "ptr_to ys q = (if ys = [] then q else hdp ys)"

lemma ptr_to_simps [simp]: "ptr_to [] q = q" "ptr_to (y # ys) q = Some y" "ptr_to ys None = hdp ys"
  by (auto simp: ptr_to_def)

lemma hdp_None [simp]: "hdp xs = None \<longleftrightarrow> xs = []" "None = hdp xs \<longleftrightarrow> xs = []"
  by (cases xs; simp)+

lemma hdp_append: "hdp (xs @ ys) = ptr_to xs (hdp ys)"
  by (cases xs) auto

lemma chain_Cons: "chain_to b (x # xs) q \<longleftrightarrow> b_next (b x) = ptr_to xs q \<and> chain_to b xs q"
  by (cases xs) auto

lemma chain_append: "chain_to b (xs @ ys) q \<longleftrightarrow> chain_to b xs (ptr_to ys q) \<and> chain_to b ys q"
proof (induction xs)
  case (Cons x xs)
  have "ptr_to (xs @ ys) q = ptr_to xs (ptr_to ys q)" by (cases xs) auto
  with Cons show ?case by (simp add: chain_Cons)
qed simp

lemma chain_last: "chain_to b xs q \<Longrightarrow> xs \<noteq> [] \<Longrightarrow> b_next (b (last xs)) = q"
  by (induction xs) (auto simp: chain_Cons)

lemma chain_cong: "(\<And>x. x \<in> set xs \<Longrightarrow> b_next (b' x) = b_next (b x)) \<Longrightarrow> chain_to b' xs q = chain_to b xs q"
  by (induction xs) (auto simp: chain_Cons)

lemma chain_relink:
  assumes "chain_to b xs q" "xs \<noteq> []" "distinct xs"
  shows "chain_to (b(last xs := (b (last xs))\<lparr>b_next := q'\<rparr>)) xs q'"
  using assms
proof (induction xs)
  case (Cons x xs)
  show ?case
  proof (cases "xs = []")
    case False
    then have "last xs \<noteq> x" using Cons.prems(3) last_in_set by force
    then show ?thesis using Cons False by (cases xs) (auto simp: chain_Cons)
  qed simp
qed simp

text \<open>The parts of a heap that a store to a block does not touch.\<close>

lemma set_simps [simp]:
  "h_free (set_next p n hp) = h_free hp" "h_used (set_next p n hp) = h_used hp" "h_fresh (set_next p n hp) = h_fresh hp"
  "h_top (set_next p n hp) = h_top hp" "heap_limit (set_next p n hp) = heap_limit hp"
  "heap_split_thresh (set_next p n hp) = heap_split_thresh hp" "heap_alignment (set_next p n hp) = heap_alignment hp"
  "heap_max_blocks (set_next p n hp) = heap_max_blocks hp"
  "h_free (set_size p s hp) = h_free hp" "h_used (set_size p s hp) = h_used hp" "h_fresh (set_size p s hp) = h_fresh hp"
  "h_top (set_size p s hp) = h_top hp" "heap_limit (set_size p s hp) = heap_limit hp"
  "heap_split_thresh (set_size p s hp) = heap_split_thresh hp" "heap_alignment (set_size p s hp) = heap_alignment hp"
  "heap_max_blocks (set_size p s hp) = heap_max_blocks hp"
  "h_free (set_addr p s hp) = h_free hp" "h_used (set_addr p s hp) = h_used hp" "h_fresh (set_addr p s hp) = h_fresh hp"
  "h_top (set_addr p s hp) = h_top hp" "heap_limit (set_addr p s hp) = heap_limit hp"
  "heap_split_thresh (set_addr p s hp) = heap_split_thresh hp" "heap_alignment (set_addr p s hp) = heap_alignment hp"
  "heap_max_blocks (set_addr p s hp) = heap_max_blocks hp"
  by (simp_all add: set_next_def set_size_def set_addr_def)

lemma blk_set:
  "blk (set_next p n hp) x = (if x = p then (blk hp p)\<lparr>b_next := n\<rparr> else blk hp x)"
  "blk (set_size p s hp) x = (if x = p then (blk hp p)\<lparr>b_size := s\<rparr> else blk hp x)"
  "blk (set_addr p s hp) x = (if x = p then (blk hp p)\<lparr>b_addr := s\<rparr> else blk hp x)"
  by (simp_all add: set_next_def set_size_def set_addr_def fun_upd_apply)

text \<open>Two heaps with the same registers that differ at most in the blocks of \<open>S\<close>.\<close>

definition frame :: "nat set \<Rightarrow> heap \<Rightarrow> heap \<Rightarrow> bool" where
  "frame S hp hp' \<longleftrightarrow> (\<forall>x. x \<notin> S \<longrightarrow> blk hp' x = blk hp x) \<and> h_used hp' = h_used hp \<and> h_top hp' = h_top hp \<and>
     heap_limit hp' = heap_limit hp \<and> heap_split_thresh hp' = heap_split_thresh hp \<and>
     heap_alignment hp' = heap_alignment hp \<and> heap_max_blocks hp' = heap_max_blocks hp"

lemma frame_refl [simp]: "frame S hp hp"
  by (simp add: frame_def)

lemma frame_trans: "frame S a b \<Longrightarrow> frame T b c \<Longrightarrow> frame (S \<union> T) a c"
  by (simp add: frame_def)

lemma frame_mono: "frame S a b \<Longrightarrow> S \<subseteq> T \<Longrightarrow> frame T a b"
  by (auto simp: frame_def)

lemma frame_chain: "frame S hp hp' \<Longrightarrow> set xs \<inter> S = {} \<Longrightarrow> chain_to (blk hp') xs q = chain_to (blk hp) xs q"
  by (rule chain_cong) (auto simp: frame_def)

text \<open>The memory a block stands for.\<close>

definition iv :: "heap \<Rightarrow> nat \<Rightarrow> u32 \<times> u32" where
  "iv hp x = (b_addr (blk hp x), b_size (blk hp x))"

lemma frame_iv: "frame S hp hp' \<Longrightarrow> set xs \<inter> S = {} \<Longrightarrow> map (iv hp') xs = map (iv hp) xs"
  by (auto simp: frame_def iv_def)

section \<open>What the list operations do\<close>

lemma insert_scan_chain:
  "chain b ys \<Longrightarrow> insert_scan b a prev (hdp ys) =
     Some (let pre = takeWhile (\<lambda>x. b_addr (b x) < a) ys in if pre = [] then prev else Some (last pre),
           hdp (dropWhile (\<lambda>x. b_addr (b x) < a) ys))"
proof (induction ys arbitrary: prev)
  case Nil
  then show ?case by (simp add: insert_scan.simps)
next
  case (Cons y ys)
  then show ?case by (subst insert_scan.simps) (auto simp: chain_Cons Let_def not_less)
qed

definition ins_before :: "heap \<Rightarrow> nat \<Rightarrow> nat list \<Rightarrow> nat list" where
  "ins_before hp x F = takeWhile (\<lambda>y. b_addr (blk hp y) < b_addr (blk hp x)) F @
     x # dropWhile (\<lambda>y. b_addr (blk hp y) < b_addr (blk hp x)) F"

lemma insert_block_ok:
  assumes "chain (blk hp) F" "h_free hp = hdp F" "x \<notin> set F" "distinct F"
  obtains hp' where "insert_block x hp = Some hp'" "chain (blk hp') (ins_before hp x F)"
    "h_free hp' = hdp (ins_before hp x F)" "h_fresh hp' = h_fresh hp" "frame (insert x (set F)) hp hp'"
    "\<And>y. iv hp' y = iv hp y"
proof -
  define pre where "pre = takeWhile (\<lambda>y. b_addr (blk hp y) < b_addr (blk hp x)) F"
  define rest where "rest = dropWhile (\<lambda>y. b_addr (blk hp y) < b_addr (blk hp x)) F"
  have F: "F = pre @ rest" by (simp add: pre_def rest_def)
  have res: "ins_before hp x F = pre @ x # rest" by (simp add: ins_before_def pre_def rest_def)
  define hp' where "hp' = set_next x (hdp rest)
      (if pre = [] then hp\<lparr>h_free := Some x\<rparr> else set_next (last pre) (Some x) hp)"
  have "insert_block x hp = Some hp'"
    using insert_scan_chain [OF assms(1), of "b_addr (blk hp x)" None] assms(2)
    by (simp add: insert_block_def hp'_def pre_def [symmetric] rest_def [symmetric] Let_def)
  moreover have "chain (blk hp') (pre @ x # rest)"
  proof -
    have c: "chain_to (blk hp) pre (hdp rest)" "chain (blk hp) rest" using assms(1) by (auto simp: F chain_append)
    have "pre \<noteq> [] \<Longrightarrow> last pre \<notin> set rest" using assms(4) unfolding F by (metis disjoint_iff distinct_append last_in_set)
    then have "chain_to (blk hp') rest None"
      using c(2) assms(3) by (subst chain_cong) (auto simp: hp'_def blk_set F)
    moreover have "chain_to (blk hp') pre (Some x)"
    proof (cases "pre = []")
      case False
      have "chain_to (blk hp') pre (Some x) = chain_to ((blk hp)(last pre := (blk hp (last pre))\<lparr>b_next := Some x\<rparr>)) pre (Some x)"
        using assms(3) False by (intro chain_cong) (auto simp: hp'_def blk_set F fun_upd_apply)
      then show ?thesis using chain_relink [OF c(1) False] assms(4) F by simp
    qed simp
    ultimately show ?thesis by (simp add: chain_append chain_Cons hp'_def blk_set)
  qed
  moreover have "h_free hp' = hdp (pre @ x # rest)"
    using assms(2) by (cases pre) (auto simp: hp'_def F)
  moreover have "frame (insert x (set F)) hp hp'"
    using last_in_set [of pre] by (auto simp: frame_def hp'_def blk_set F)
  moreover have "iv hp' y = iv hp y" "h_fresh hp' = h_fresh hp" for y
    by (auto simp: iv_def hp'_def blk_set)
  ultimately show thesis using that res by metis
qed

lemma release_blocks_ok:
  assumes "chain_to (blk hp) D q" "distinct D" "\<And>y. q = Some y \<Longrightarrow> y \<notin> set D"
    "chain (blk hp) R" "h_fresh hp = hdp R" "set D \<inter> set R = {}"
  shows "\<exists>hp'. release_blocks (ptr_to D q) q hp = Some hp' \<and> chain (blk hp') (rev D @ R) \<and>
    h_fresh hp' = hdp (rev D @ R) \<and> h_free hp' = h_free hp \<and> frame (set D) hp hp'"
  using assms
proof (induction D arbitrary: hp R)
  case Nil
  then show ?case by (simp add: release_blocks.simps)
next
  case (Cons d D)
  let ?hp = "set_size d 0 (set_addr d 0 ((set_next d (h_fresh hp) hp)\<lparr>h_fresh := Some d\<rparr>))"
  have blk: "blk ?hp x = blk hp x" if "x \<noteq> d" for x using that by (simp add: blk_set)
  have "chain_to (blk ?hp) D q" using Cons.prems(1,2) by (subst chain_cong [of D _ "blk hp"]) (auto simp: blk_set chain_Cons)
  moreover have "chain (blk ?hp) (d # R)"
  proof -
    have "chain (blk ?hp) R" using Cons.prems(4,6) by (subst chain_cong [of R _ "blk hp"]) (auto simp: blk_set)
    then show ?thesis using Cons.prems(5) by (simp add: chain_Cons blk_set)
  qed
  ultimately obtain hp' where hp': "release_blocks (ptr_to D q) q ?hp = Some hp'" "chain (blk hp') (rev D @ d # R)"
    "h_fresh hp' = hdp (rev D @ d # R)" "h_free hp' = h_free ?hp" "frame (set D) ?hp hp'"
    using Cons.IH [of ?hp "d # R"] Cons.prems(2,3,6) by auto
  have "b_next (blk hp d) = ptr_to D q" using Cons.prems(1) by (simp add: chain_Cons)
  moreover have "Some d \<noteq> q" using Cons.prems(3) by force
  ultimately have "release_blocks (ptr_to (d # D) q) q hp = Some hp'" using hp'(1) by (subst release_blocks.simps) simp
  moreover have "frame (set (d # D)) hp hp'"
    using hp'(5) by (auto simp: frame_def blk)
  ultimately show ?case using hp'(2-4) by simp
qed


text \<open>Compaction. \<open>adjoining\<close> are the blocks that follow \<open>p\<close> without a gap.\<close>

fun adjoining :: "(nat \<Rightarrow> block) \<Rightarrow> nat \<Rightarrow> nat list \<Rightarrow> nat list" where
  "adjoining b p [] = []"
| "adjoining b p (x # xs) = (if b_addr (b p) + b_size (b p) = b_addr (b x) then x # adjoining b x xs else [])"

fun coalesce :: "(u32 \<times> u32) list \<Rightarrow> (u32 \<times> u32) list" where
  "coalesce ((a, s) # (a', s') # xs) =
     (if a + s = a' then coalesce ((a, s + s') # xs) else (a, s) # coalesce ((a', s') # xs))"
| "coalesce xs = xs"

lemma merge_scan_chain: "chain b (p # S) \<Longrightarrow> merge_scan b p = Some (last (p # adjoining b p S))"
proof (induction S arbitrary: p)
  case Nil
  then show ?case by (simp add: merge_scan.simps)
next
  case (Cons x S)
  then show ?case by (subst merge_scan.simps) auto
qed

lemma adjoining_prefix: "\<exists>rest. S = adjoining b p S @ rest"
  by (induction S arbitrary: p) auto

text \<open>The size of the merged block is the sum of the sizes.\<close>

lemma adjoining_size:
  "b_addr (b (last (p # adjoining b p S))) - b_addr (b p) + b_size (b (last (p # adjoining b p S))) =
     b_size (b p) + sum_list (map (\<lambda>x. b_size (b x)) (adjoining b p S))"
proof (induction S arbitrary: p)
  case (Cons x S)
  show ?case
  proof (cases "b_addr (b p) + b_size (b p) = b_addr (b x)")
    case True
    then show ?thesis using Cons [of x] by (simp add: algebra_simps)
  qed simp
qed simp

lemma coalesce_adjoining:
  fixes a s :: u32
  assumes "a + s = b_addr (b p) + b_size (b p)"
  shows "coalesce ((a, s) # map (\<lambda>x. (b_addr (b x), b_size (b x))) S) =
    (a, s + sum_list (map (\<lambda>x. b_size (b x)) (adjoining b p S))) #
    coalesce (map (\<lambda>x. (b_addr (b x), b_size (b x))) (drop (length (adjoining b p S)) S))"
  using assms
proof (induction S arbitrary: p s)
  case (Cons x S)
  show ?case
  proof (cases "a + s = b_addr (b x)")
    case True
    then have "a + (s + b_size (b x)) = b_addr (b x) + b_size (b x)" by (simp add: add.assoc [symmetric])
    then show ?thesis using Cons.IH [of "s + b_size (b x)" x] True Cons.prems by (simp add: add.assoc)
  qed (use Cons.prems in simp)
qed simp

text \<open>One turn of the outer loop merges the blocks behind \<open>p\<close> that adjoin it.\<close>

lemma compact_turn:
  assumes "chain (blk hp) (p # S)" "distinct (p # S @ R)" "chain (blk hp) R" "h_fresh hp = hdp R"
    "D = adjoining (blk hp) p S" "S = D @ rest"
  obtains hp' where "compact_loop (Some p) hp = compact_loop (hdp rest) hp'" "chain (blk hp') (p # rest)"
    "chain (blk hp') (rev D @ R)" "h_fresh hp' = hdp (rev D @ R)" "h_free hp' = h_free hp"
    "frame (insert p (set D)) hp hp'"
    "iv hp' p = (b_addr (blk hp p), b_size (blk hp p) + sum_list (map (\<lambda>x. b_size (blk hp x)) D))"
proof (cases "D = []")
  case True
  then have "merge_scan (blk hp) p = Some p" using merge_scan_chain [OF assms(1)] assms(5) by simp
  moreover have "b_next (blk hp p) = hdp rest" using assms(1,6) True by (simp add: chain_Cons)
  ultimately have "compact_loop (Some p) hp = compact_loop (hdp rest) hp" by (subst compact_loop.simps) simp
  then show thesis using assms(1-4,6) True by (intro that [of hp]) (simp_all add: iv_def)
next
  case False
  let ?n = "b_size (blk hp p) + sum_list (map (\<lambda>x. b_size (blk hp x)) D)"
  let ?h1 = "set_size p ?n hp"
  have lastp: "last (p # D) = last D" "last D \<noteq> p" "last D \<in> set D"
    using False last_in_set [of D] assms(2,6) by auto
  have nxt: "b_next (blk ?h1 (last D)) = hdp rest" "b_next (blk ?h1 p) = ptr_to D (hdp rest)"
    using assms(1,6) chain_last [of "blk hp" D "hdp rest"] False lastp(2)
    by (auto simp: chain_Cons chain_append blk_set hdp_append)
  have c: "chain_to (blk ?h1) xs q = chain_to (blk hp) xs q" for xs q by (rule chain_cong) (simp add: blk_set)
  have D: "chain_to (blk ?h1) D (hdp rest)" "chain (blk ?h1) R"
    using assms(1,3,6) unfolding c by (simp_all add: chain_Cons chain_append)
  have dis: "distinct D" "set D \<inter> set R = {}" "\<And>y. hdp rest = Some y \<Longrightarrow> y \<notin> set D"
    using assms(2,6) by (auto, cases rest, auto)
  obtain h2 where h2: "release_blocks (ptr_to D (hdp rest)) (hdp rest) ?h1 = Some h2" "chain (blk h2) (rev D @ R)"
      "h_fresh h2 = hdp (rev D @ R)" "h_free h2 = h_free ?h1" "frame (set D) ?h1 h2"
    using release_blocks_ok [OF D(1) dis(1) dis(3) D(2) _ dis(2)] assms(4) by auto
  let ?h3 = "set_next p (hdp rest) h2"
  have p2: "blk h2 p = (blk hp p)\<lparr>b_size := ?n\<rparr>" using h2(5) assms(2,6) by (simp add: frame_def blk_set)
  have "compact_loop (Some p) hp = compact_loop (hdp rest) ?h3"
    using merge_scan_chain [OF assms(1)] adjoining_size [of "blk hp" p S] lastp False nxt h2(1)
    by (subst compact_loop.simps) (simp add: assms(5) [symmetric] Let_def blk_set)
  moreover have "chain (blk ?h3) (p # rest)"
  proof -
    have "chain (blk ?h3) rest = chain (blk hp) rest"
      using h2(5) assms(2,6) by (intro chain_cong) (auto simp: blk_set frame_def)
    then show ?thesis using assms(1,6) by (simp add: chain_Cons chain_append blk_set)
  qed
  moreover have "chain (blk ?h3) (rev D @ R)"
    using h2(2) assms(2,6) by (subst chain_cong [of _ _ "blk h2"]) (auto simp: blk_set)
  moreover have "frame (insert p (set D)) hp ?h3" using h2(5) by (auto simp: frame_def blk_set)
  ultimately show thesis using that [of ?h3] h2(3,4) p2 by (simp add: iv_def blk_set)
qed

lemma compact_loop_ok:
  assumes "chain (blk hp) S" "distinct (S @ R)" "chain (blk hp) R" "h_fresh hp = hdp R"
  shows "\<exists>hp' S' R'. compact_loop (hdp S) hp = Some hp' \<and> chain (blk hp') S' \<and> hdp S' = hdp S \<and>
    chain (blk hp') R' \<and> h_fresh hp' = hdp R' \<and> h_free hp' = h_free hp \<and> frame (set S) hp hp' \<and>
    mset S' + mset R' = mset S + mset R \<and> set S' \<subseteq> set S \<and> map (iv hp') S' = coalesce (map (iv hp) S)"
  using assms
proof (induction "length S" arbitrary: hp S R rule: less_induct)
  case less
  show ?case
  proof (cases S)
    case Nil
    then show ?thesis using less.prems by (auto simp: compact_loop.simps)
  next
    case (Cons p T)
    define D where "D = adjoining (blk hp) p T"
    obtain rest where T: "T = D @ rest" using adjoining_prefix unfolding D_def by blast
    obtain h1 where h1: "compact_loop (Some p) hp = compact_loop (hdp rest) h1" "chain (blk h1) (p # rest)"
      "chain (blk h1) (rev D @ R)" "h_fresh h1 = hdp (rev D @ R)" "h_free h1 = h_free hp" "frame (insert p (set D)) hp h1"
      "iv h1 p = (b_addr (blk hp p), b_size (blk hp p) + sum_list (map (\<lambda>x. b_size (blk hp x)) D))"
      using compact_turn [OF _ _ less.prems(3,4) D_def T] less.prems(1,2) Cons by (metis append_Cons)
    have dis: "distinct (rest @ rev D @ R)" using less.prems(2) Cons T by auto
    have cr: "chain (blk h1) rest" "length rest < length S" using h1(2) Cons T by (simp_all add: chain_Cons)
    obtain h2 S' R' where h2: "compact_loop (hdp rest) h1 = Some h2" "chain (blk h2) S'" "hdp S' = hdp rest"
      "chain (blk h2) R'" "h_fresh h2 = hdp R'" "h_free h2 = h_free h1" "frame (set rest) h1 h2"
      "mset S' + mset R' = mset rest + mset (rev D @ R)" "set S' \<subseteq> set rest" "map (iv h2) S' = coalesce (map (iv h1) rest)"
      using less.hyps [OF cr(2,1) dis h1(3,4)] by blast
    have pr: "p \<notin> set rest" "set rest \<inter> insert p (set D) = {}" using less.prems(2) Cons T by auto
    have p2: "blk h2 p = blk h1 p" using h2(7) pr by (simp add: frame_def)
    have "chain (blk h2) (p # S')" using h2(2,3) h1(2) p2 by (simp add: chain_Cons)
    moreover have "map (iv h2) (p # S') = coalesce (map (iv hp) S)"
    proof -
      have "coalesce (map (iv hp) S) = iv h1 p # coalesce (map (iv hp) rest)"
        using coalesce_adjoining [of "b_addr (blk hp p)" "b_size (blk hp p)" "blk hp" p T, folded D_def] h1(7) Cons T
        by (simp add: iv_def [abs_def])
      then show ?thesis using h2(10) frame_iv [OF h1(6) pr(2)] p2 by (simp add: iv_def)
    qed
    moreover have "frame (set S) hp h2"
      using frame_trans [OF h1(6) h2(7)] Cons T by (auto intro: frame_mono)
    moreover have "mset (p # S') + mset R' = mset S + mset R" using h2(8) Cons T by simp
    ultimately show ?thesis using h1(1,5) h2(1,4,5,6,9) Cons T by (intro exI [of _ h2] exI [of _ "p # S'"] exI [of _ R']) auto
  qed
qed

end
