(* ===== verification/Malloc_Heap.thy ===== *)
theory Malloc_Heap
  imports Libc_Malloc
begin

text \<open>
  The invariant of the allocator and its correctness: the blocks in use and the free blocks are
  disjoint, aligned, non-empty pieces of the memory between the descriptors and \<open>top\<close>, the free list
  is sorted, and every descriptor is in exactly one of the three lists.
\<close>

section \<open>Intervals\<close>

definition iv_set :: "u32 \<times> u32 \<Rightarrow> nat set" where
  "iv_set i = {unat (fst i) ..< unat (fst i) + unat (snd i)}"

definition iv_union :: "(u32 \<times> u32) list \<Rightarrow> nat set" where
  "iv_union xs = (\<Union>i \<in> set xs. iv_set i)"

text \<open>A non-empty block inside \<open>B..<T\<close>, aligned to \<open>al\<close>.\<close>

definition iv_ok :: "nat \<Rightarrow> nat \<Rightarrow> nat \<Rightarrow> u32 \<times> u32 \<Rightarrow> bool" where
  "iv_ok B T al i \<longleftrightarrow> snd i \<noteq> 0 \<and> B \<le> unat (fst i) \<and> unat (fst i) + unat (snd i) \<le> T \<and>
     al dvd unat (fst i) \<and> al dvd unat (snd i)"

definition iv_before :: "u32 \<times> u32 \<Rightarrow> u32 \<times> u32 \<Rightarrow> bool" where
  "iv_before i j \<longleftrightarrow> unat (fst i) + unat (snd i) \<le> unat (fst j)"

definition ivs_ok :: "nat \<Rightarrow> nat \<Rightarrow> nat \<Rightarrow> (u32 \<times> u32) list \<Rightarrow> bool" where
  "ivs_ok B T al xs \<longleftrightarrow> sorted_wrt iv_before xs \<and> (\<forall>i \<in> set xs. iv_ok B T al i)"

lemma iv_union_simps [simp]:
  "iv_union [] = {}" "iv_union (i # xs) = iv_set i \<union> iv_union xs" "iv_union (xs @ ys) = iv_union xs \<union> iv_union ys"
  by (auto simp: iv_union_def)

lemma iv_set_start: "snd i \<noteq> 0 \<Longrightarrow> unat (fst i) \<in> iv_set i"
  by (simp add: iv_set_def unat_gt_0)

lemma iv_ok_start: "iv_ok B T al i \<Longrightarrow> unat (fst i) \<in> iv_set i"
  by (simp add: iv_ok_def iv_set_start)

lemma ivs_ok_Cons: "ivs_ok B T al (i # xs) \<longleftrightarrow> iv_ok B T al i \<and> (\<forall>j \<in> set xs. iv_before i j) \<and> ivs_ok B T al xs"
  by (auto simp: ivs_ok_def)

text \<open>Two adjoining blocks make one.\<close>

lemma iv_merge:
  assumes "iv_ok B T al (a, s)" "iv_ok B T al (a', s')" "iv_before (a, s) (a', s')" "a + s = a'" "T < 2 ^ 32"
  shows "unat (s + s') = unat s + unat s'" "unat a' = unat a + unat s" "iv_ok B T al (a, s + s')"
    "iv_set (a, s + s') = iv_set (a, s) \<union> iv_set (a', s')"
proof -
  show 2: "unat a' = unat a + unat s"
    using assms(3) unfolding assms(4) [symmetric] by (simp add: iv_before_def unat_word_ariths)
  show 1: "unat (s + s') = unat s + unat s'"
    using assms(2,5) 2 by (simp add: iv_ok_def unat_word_ariths)
  then have "s + s' \<noteq> 0" using assms(2) by (metis iv_ok_def add_is_0 snd_conv unat_eq_zero)
  then show "iv_ok B T al (a, s + s')" using assms(1,2) 1 2 by (auto simp: iv_ok_def)
  show "iv_set (a, s + s') = iv_set (a, s) \<union> iv_set (a', s')" using 1 2 by (auto simp: iv_set_def)
qed

lemma coalesce_ok:
  "ivs_ok B T al xs \<Longrightarrow> T < 2 ^ 32 \<Longrightarrow> ivs_ok B T al (coalesce xs) \<and> iv_union (coalesce xs) = iv_union xs \<and>
     (\<forall>i. (\<forall>j \<in> set xs. iv_before i j) \<longrightarrow> (\<forall>j \<in> set (coalesce xs). iv_before i j))"
proof (induction xs rule: coalesce.induct)
  case (1 a s a' s' xs)
  have ok: "iv_ok B T al (a, s)" "iv_ok B T al (a', s')" "iv_before (a, s) (a', s')"
    and rest: "\<forall>j \<in> set xs. iv_before (a', s') j" "ivs_ok B T al xs"
    using 1(3) by (simp_all add: ivs_ok_Cons)
  show ?case
  proof (cases "a + s = a'")
    case True
    note m = iv_merge [OF ok True 1(4)]
    have "iv_before (a, s + s') j" if "j \<in> set xs" for j
    proof -
      have "unat a' + unat s' \<le> unat (fst j)" using rest(1) that by (auto simp: iv_before_def)
      then show ?thesis unfolding iv_before_def fst_conv snd_conv m(1) using m(2) by linarith
    qed
    then have "ivs_ok B T al ((a, s + s') # xs)" using m(3) rest(2) by (simp add: ivs_ok_Cons)
    note IH = 1(1) [OF True this 1(4)]
    have c: "coalesce ((a, s) # (a', s') # xs) = coalesce ((a, s + s') # xs)" using True by simp
    show ?thesis unfolding c
    proof (intro conjI allI impI)
      show "iv_union (coalesce ((a, s + s') # xs)) = iv_union ((a, s) # (a', s') # xs)"
        using IH m(4) by (simp only: iv_union_simps) blast
      fix i assume "\<forall>j \<in> set ((a, s) # (a', s') # xs). iv_before i j"
      then have "\<forall>j \<in> set ((a, s + s') # xs). iv_before i j" by (auto simp: iv_before_def)
      then show "\<forall>j \<in> set (coalesce ((a, s + s') # xs)). iv_before i j" using IH by blast
    qed (use IH in blast)
  next
    case False
    have r: "ivs_ok B T al ((a', s') # xs)" "\<forall>j \<in> set ((a', s') # xs). iv_before (a, s) j"
      using 1(3) unfolding ivs_ok_Cons [of _ _ _ "(a, s)"] by blast+
    note IH = 1(2) [OF False r(1) 1(4)]
    have c: "coalesce ((a, s) # (a', s') # xs) = (a, s) # coalesce ((a', s') # xs)" using False by simp
    show ?thesis unfolding c
    proof (intro conjI allI impI)
      show "ivs_ok B T al ((a, s) # coalesce ((a', s') # xs))"
        unfolding ivs_ok_Cons [of _ _ _ "(a, s)"] using IH ok(1) r(2) by blast
      show "iv_union ((a, s) # coalesce ((a', s') # xs)) = iv_union ((a, s) # (a', s') # xs)"
        using IH by (simp only: iv_union_simps)
      fix i assume i: "\<forall>j \<in> set ((a, s) # (a', s') # xs). iv_before i j"
      then have "\<forall>j \<in> set (coalesce ((a', s') # xs)). iv_before i j" using IH by (meson list.set_intros(2))
      with i show "\<forall>j \<in> set ((a, s) # coalesce ((a', s') # xs)). iv_before i j" by simp
    qed
  qed
qed simp_all

text \<open>A block that is disjoint from a sorted list of blocks fits where its address belongs.\<close>

lemma insert_ivs_ok:
  assumes "ivs_ok B T al (xs @ ys)" "iv_ok B T al i" "iv_set i \<inter> iv_union (xs @ ys) = {}"
    "\<forall>j \<in> set xs. fst j < fst i" "ys = [] \<or> fst i \<le> fst (hd ys)"
  shows "ivs_ok B T al (xs @ i # ys)"
proof -
  have x: "iv_before j i" if "j \<in> set xs" for j
  proof (rule ccontr)
    assume "\<not> iv_before j i"
    then have "unat (fst i) \<in> iv_set j" using assms(4) that by (auto simp: iv_before_def iv_set_def word_less_nat_alt)
    then show False using assms(3) that iv_ok_start [OF assms(2)] by (auto simp: iv_union_def)
  qed
  have y: "iv_before i j" if "j \<in> set ys" for j
  proof (rule ccontr)
    assume n: "\<not> iv_before i j"
    have jok: "iv_ok B T al j" using assms(1) that by (auto simp: ivs_ok_def)
    have "fst i \<le> fst (hd ys)" using assms(5) that by auto
    moreover have "fst (hd ys) \<le> fst j"
      using assms(1) that by (cases ys) (auto simp: ivs_ok_def sorted_wrt_append iv_before_def word_le_nat_alt)
    ultimately have "unat (fst j) \<in> iv_set i" using n by (auto simp: iv_before_def iv_set_def word_le_nat_alt)
    then show False using assms(3) that iv_ok_start [OF jok] by (auto simp: iv_union_def)
  qed
  show ?thesis using assms(1,2) x y by (auto simp: ivs_ok_def sorted_wrt_append)
qed

section \<open>Rounding\<close>

lemma and_minus_pow2:
  fixes x :: u32
  assumes "k < 32"
  shows "unat (x AND - (2 ^ k)) = unat x div 2 ^ k * 2 ^ k"
proof -
  have "(2::u32) ^ k = of_nat (2 ^ k)" by simp
  then have p: "unat ((2::u32) ^ k) = 2 ^ k"
    using assms power_strict_increasing [of k 32 "2::nat"] by (simp only: unat_of_nat) (simp add: take_bit_nat_eq_self_iff)
  have "x AND - (2 ^ k) = push_bit k (drop_bit k x)"
    using assms by (auto intro!: bit_eqI simp: bit_simps minus_exp_eq_not_mask)
  also have "\<dots> = x div 2 ^ k * 2 ^ k" by (simp add: push_bit_eq_mult drop_bit_eq_div)
  finally have "unat (x AND - (2 ^ k)) = (unat x div 2 ^ k * 2 ^ k) mod 2 ^ 32"
    by (simp add: unat_word_ariths(2) unat_div_distrib p)
  moreover have "unat x div 2 ^ k * 2 ^ k < 2 ^ 32"
    using le_less_trans [OF div_times_less_eq_dividend unat_less_exp(3)] by simp
  ultimately show ?thesis by simp
qed

text \<open>Rounding gives the next multiple, unless the sum overflows.\<close>

lemma round_up_ok:
  assumes "al = 2 ^ k" "k < 32" "unat num + 2 ^ k \<le> 2 ^ 32"
  shows "unat (round_up al num) = (unat num + 2 ^ k - 1) div 2 ^ k * 2 ^ k" "unat num \<le> unat (round_up al num)"
    "unat (round_up al num) < unat num + 2 ^ k" "2 ^ k dvd unat (round_up al num)"
proof -
  have "(2::u32) ^ k = of_nat (2 ^ k)" by simp
  then have p: "unat al = 2 ^ k"
    using assms(1,2) power_strict_increasing [of k 32 "2::nat"] by (simp only: unat_of_nat) (simp add: take_bit_nat_eq_self_iff)
  have "unat (al - 1) = 2 ^ k - 1" using p by (metis unat_minus_one unat_0 zero_neq_numeral power_eq_0_iff numeral_2_eq_2)
  then have "unat (num + (al - 1)) = unat num + (2 ^ k - 1)"
    using assms(3) by (simp add: unat_word_ariths(1))
  then have "unat (num + al - 1) = unat num + 2 ^ k - 1"
    by (simp add: add_diff_eq)
  then show eq: "unat (round_up al num) = (unat num + 2 ^ k - 1) div 2 ^ k * 2 ^ k"
    using and_minus_pow2 [OF assms(2)] by (simp add: round_up_def assms(1))
  show "2 ^ k dvd unat (round_up al num)" by (simp add: eq)
  have "unat num + 2 ^ k - 1 = (unat num + 2 ^ k - 1) div 2 ^ k * 2 ^ k + (unat num + 2 ^ k - 1) mod 2 ^ k"
    by (rule div_mult_mod_eq [symmetric])
  moreover have "(unat num + 2 ^ k - 1) mod 2 ^ k < 2 ^ k" by simp
  ultimately show "unat num \<le> unat (round_up al num)" "unat (round_up al num) < unat num + 2 ^ k"
    unfolding eq by linarith+
qed

section \<open>The invariant\<close>

definition heap_lists :: "heap \<Rightarrow> nat list \<Rightarrow> nat list \<Rightarrow> nat list \<Rightarrow> bool" where
  "heap_lists hp F U R \<longleftrightarrow> h_free hp = hdp F \<and> h_used hp = hdp U \<and> h_fresh hp = hdp R \<and>
     chain (blk hp) F \<and> chain (blk hp) U \<and> chain (blk hp) R \<and> distinct (F @ U @ R)"

definition used_ok :: "nat \<Rightarrow> nat \<Rightarrow> nat \<Rightarrow> heap \<Rightarrow> nat list \<Rightarrow> bool" where
  "used_ok B T al hp U \<longleftrightarrow> (\<forall>x \<in> set U. iv_ok B T al (iv hp x)) \<and>
     (\<forall>x \<in> set U. \<forall>y \<in> set U. x \<noteq> y \<longrightarrow> iv_set (iv hp x) \<inter> iv_set (iv hp y) = {})"

definition used_union :: "heap \<Rightarrow> nat list \<Rightarrow> nat set" where
  "used_union hp U = iv_union (map (iv hp) U)"

definition heap_ok :: "nat \<Rightarrow> nat \<Rightarrow> heap \<Rightarrow> nat list \<Rightarrow> nat list \<Rightarrow> nat list \<Rightarrow> bool" where
  "heap_ok B k hp F U R \<longleftrightarrow> heap_lists hp F U R \<and> length (F @ U @ R) = heap_max_blocks hp \<and>
     ivs_ok B (unat (h_top hp)) (2 ^ k) (map (iv hp) F) \<and> used_ok B (unat (h_top hp)) (2 ^ k) hp U \<and>
     used_union hp U \<inter> iv_union (map (iv hp) F) = {} \<and>
     B \<le> unat (h_top hp) \<and> unat (h_top hp) \<le> unat (heap_limit hp) \<and> 2 ^ k dvd unat (h_top hp) \<and>
     heap_alignment hp = 2 ^ k \<and> k < 32 \<and> heap_split_thresh hp \<noteq> 0"

lemma used_ok_cong: "(\<And>x. x \<in> set U \<Longrightarrow> iv hp' x = iv hp x) \<Longrightarrow> used_ok B T al hp' U = used_ok B T al hp U"
  by (simp add: used_ok_def)

lemma used_union_cong: "(\<And>x. x \<in> set U \<Longrightarrow> iv hp' x = iv hp x) \<Longrightarrow> used_union hp' U = used_union hp U"
  by (simp add: used_union_def iv_union_def)

text \<open>Returning a block to the free list and merging: used by \<open>free\<close> and by the split of \<open>malloc\<close>.\<close>

lemma ins_before_iv:
  "map (iv hp) (ins_before hp x F) =
     map (iv hp) (takeWhile (\<lambda>y. b_addr (blk hp y) < b_addr (blk hp x)) F) @ iv hp x #
     map (iv hp) (dropWhile (\<lambda>y. b_addr (blk hp y) < b_addr (blk hp x)) F)"
  by (simp add: ins_before_def)

lemma ins_before_ivs_ok:
  assumes "ivs_ok B T al (map (iv hp) F)" "iv_ok B T al (iv hp x)" "iv_set (iv hp x) \<inter> iv_union (map (iv hp) F) = {}"
  shows "ivs_ok B T al (map (iv hp) (ins_before hp x F))"
    "iv_union (map (iv hp) (ins_before hp x F)) = iv_set (iv hp x) \<union> iv_union (map (iv hp) F)"
proof -
  let ?P = "\<lambda>y. b_addr (blk hp y) < b_addr (blk hp x)"
  have eq: "map (iv hp) F = map (iv hp) (takeWhile ?P F) @ map (iv hp) (dropWhile ?P F)"
    by (simp flip: map_append)
  show "ivs_ok B T al (map (iv hp) (ins_before hp x F))"
    unfolding ins_before_iv
  proof (rule insert_ivs_ok)
    show "\<forall>j \<in> set (map (iv hp) (takeWhile ?P F)). fst j < fst (iv hp x)"
      by (auto simp: iv_def dest: set_takeWhileD)
    show "map (iv hp) (dropWhile ?P F) = [] \<or> fst (iv hp x) \<le> fst (hd (map (iv hp) (dropWhile ?P F)))"
      using hd_dropWhile [of ?P F] by (cases "dropWhile ?P F") (auto simp: iv_def not_less)
  qed (simp_all only: eq [symmetric] assms)
  show "iv_union (map (iv hp) (ins_before hp x F)) = iv_set (iv hp x) \<union> iv_union (map (iv hp) F)"
    unfolding ins_before_iv eq by auto
qed

lemma insert_compact_ok:
  assumes "heap_lists hp F U R" "x \<notin> set (F @ U @ R)" "T < 2 ^ 32"
    "ivs_ok B T al (map (iv hp) F)" "iv_ok B T al (iv hp x)" "iv_set (iv hp x) \<inter> iv_union (map (iv hp) F) = {}"
  obtains hp' F' R' where "Option.bind (insert_block x hp) compact = Some hp'" "heap_lists hp' F' U R'"
    "length F' + length R' = Suc (length F + length R)" "ivs_ok B T al (map (iv hp') F')"
    "iv_union (map (iv hp') F') = iv_set (iv hp x) \<union> iv_union (map (iv hp) F)" "frame (insert x (set F)) hp hp'"
proof -
  have l: "chain (blk hp) F" "h_free hp = hdp F" "x \<notin> set F" "distinct F"
    using assms(1,2) by (auto simp: heap_lists_def)
  obtain h1 where h1: "insert_block x hp = Some h1" "chain (blk h1) (ins_before hp x F)"
      "h_free h1 = hdp (ins_before hp x F)" "h_fresh h1 = h_fresh hp" "frame (insert x (set F)) hp h1"
      "\<And>y. iv h1 y = iv hp y"
    using insert_block_ok [OF l] by blast
  have m: "mset (ins_before hp x F) = mset (x # F)"
    by (simp add: ins_before_def) (metis mset_append takeWhile_dropWhile_id)
  have s: "set (ins_before hp x F) = insert x (set F)" using mset_eq_setD [OF m] by simp
  have d: "distinct (ins_before hp x F @ R)"
    using assms(1,2) s mset_eq_imp_distinct_iff [OF m] by (auto simp: heap_lists_def)
  have R: "chain (blk h1) R" "h_fresh h1 = hdp R"
    using assms(1,2) frame_chain [OF h1(5), of R] h1(4) by (auto simp: heap_lists_def)
  obtain h2 F' R' where h2: "compact_loop (hdp (ins_before hp x F)) h1 = Some h2" "chain (blk h2) F'"
      "hdp F' = hdp (ins_before hp x F)" "chain (blk h2) R'" "h_fresh h2 = hdp R'" "h_free h2 = h_free h1"
      "frame (set (ins_before hp x F)) h1 h2" "mset F' + mset R' = mset (ins_before hp x F) + mset R"
      "map (iv h2) F' = coalesce (map (iv h1) (ins_before hp x F))"
    using compact_loop_ok [OF h1(2) d R] by blast
  have f: "frame (insert x (set F)) hp h2" using frame_trans [OF h1(5) h2(7)] s by simp
  have mm: "mset F' + mset R' = mset (x # F) + mset R" using h2(8) m by simp
  have dm: "mset (F' @ U @ R') = mset (x # F @ U @ R)" using mm by (simp add: ac_simps)
  have "distinct (F' @ U @ R')" using mset_eq_imp_distinct_iff [OF dm] assms(1,2) by (simp add: heap_lists_def)
  moreover have "chain (blk h2) U" "h_used h2 = hdp U"
    using assms(1,2) frame_chain [OF f, of U] f by (auto simp: heap_lists_def frame_def)
  ultimately have lists: "heap_lists h2 F' U R'" using h1(3) h2(2-6) by (simp add: heap_lists_def)
  have iv1: "map (iv h1) xs = map (iv hp) xs" for xs using h1(6) by simp
  note io = ins_before_ivs_ok [OF assms(4-6)]
  have "ivs_ok B T al (map (iv h2) F')" "iv_union (map (iv h2) F') = iv_set (iv hp x) \<union> iv_union (map (iv hp) F)"
    using coalesce_ok [OF io(1) assms(3)] io(2) unfolding h2(9) iv1 by auto
  moreover have "length F' + length R' = Suc (length F + length R)" using arg_cong [OF mm, of size] by simp
  moreover have "Option.bind (insert_block x hp) compact = Some h2" using h1(1,3) h2(1) by (simp add: compact_def)
  ultimately show thesis using that lists f by blast
qed

section \<open>free\<close>

lemma free_scan_chain:
  "chain b ys \<Longrightarrow> free_scan b a prev (hdp ys) =
     Some (let pre = takeWhile (\<lambda>x. a \<noteq> b_addr (b x)) ys in if pre = [] then prev else Some (last pre),
           hdp (dropWhile (\<lambda>x. a \<noteq> b_addr (b x)) ys))"
proof (induction ys arbitrary: prev)
  case Nil
  then show ?case by (simp add: free_scan.simps)
next
  case (Cons y ys)
  then show ?case by (subst free_scan.simps) (auto simp: chain_Cons Let_def)
qed

text \<open>Taking a block out of a list: its predecessor is linked to its successor.\<close>

definition unlink :: "nat list \<Rightarrow> nat \<Rightarrow> heap \<Rightarrow> heap" where
  "unlink pre x hp = (if pre = [] then hp else set_next (last pre) (b_next (blk hp x)) hp)"

lemma unlink_ok:
  assumes "chain (blk hp) (pre @ x # rest)" "distinct (pre @ x # rest)"
  shows "chain (blk (unlink pre x hp)) (pre @ rest)" "b_next (blk hp x) = hdp rest"
    "frame (set pre) hp (unlink pre x hp)" "iv (unlink pre x hp) = iv hp"
proof -
  have c: "chain_to (blk hp) pre (Some x)" "b_next (blk hp x) = hdp rest" "chain (blk hp) rest"
    using assms(1) by (auto simp: chain_append chain_Cons)
  show "b_next (blk hp x) = hdp rest" by (rule c(2))
  show fr: "frame (set pre) hp (unlink pre x hp)" by (auto simp: frame_def unlink_def blk_set)
  have "chain (blk (unlink pre x hp)) rest" using c(3) frame_chain [OF fr, of rest] assms(2) by auto
  moreover have "chain_to (blk (unlink pre x hp)) pre (hdp rest)"
  proof (cases "pre = []")
    case False
    have "chain_to (blk (unlink pre x hp)) pre (hdp rest) =
        chain_to ((blk hp)(last pre := (blk hp (last pre))\<lparr>b_next := hdp rest\<rparr>)) pre (hdp rest)"
      using False c(2) by (intro chain_cong) (auto simp: unlink_def blk_set fun_upd_apply)
    then show ?thesis using chain_relink [OF c(1) False] assms(2) by simp
  qed simp
  ultimately show "chain (blk (unlink pre x hp)) (pre @ rest)" by (simp add: chain_append)
  show "iv (unlink pre x hp) = iv hp" by (rule ext) (simp add: iv_def unlink_def blk_set)
qed

lemma hdp_unlink: "(if pre = [] then hdp rest else hdp (pre @ x # rest)) = hdp (pre @ rest)"
  by (cases pre) auto

lemma unlink_regs [simp]:
  "h_free (unlink pre x hp) = h_free hp" "h_used (unlink pre x hp) = h_used hp" "h_fresh (unlink pre x hp) = h_fresh hp"
  "h_top (unlink pre x hp) = h_top hp" "heap_limit (unlink pre x hp) = heap_limit hp"
  "heap_split_thresh (unlink pre x hp) = heap_split_thresh hp" "heap_alignment (unlink pre x hp) = heap_alignment hp"
  "heap_max_blocks (unlink pre x hp) = heap_max_blocks hp"
  by (simp_all add: unlink_def)

lemma unlink_used_lists:
  assumes "heap_lists hp F (pre @ x # rest) R"
  shows "heap_lists ((unlink pre x hp)\<lparr>h_used := hdp (pre @ rest)\<rparr>) F (pre @ rest) R" "x \<notin> set (F @ (pre @ rest) @ R)"
proof -
  have c: "chain (blk hp) (pre @ x # rest)" "distinct (pre @ x # rest)" using assms by (auto simp: heap_lists_def)
  note u = unlink_ok [OF c]
  have "set F \<inter> set pre = {}" "set R \<inter> set pre = {}" using assms by (auto simp: heap_lists_def)
  then have "chain (blk (unlink pre x hp)) F" "chain (blk (unlink pre x hp)) R"
    using frame_chain [OF u(3)] assms by (auto simp: heap_lists_def)
  then show "heap_lists ((unlink pre x hp)\<lparr>h_used := hdp (pre @ rest)\<rparr>) F (pre @ rest) R"
    "x \<notin> set (F @ (pre @ rest) @ R)"
    using assms u(1) by (auto simp: heap_lists_def)
qed

lemma free_mem_used:
  assumes "heap_lists hp F (pre @ x # rest) R" "b_addr (blk hp x) = a" "\<forall>y \<in> set pre. b_addr (blk hp y) \<noteq> a"
  shows "free_mem a hp = map_option (\<lambda>h. (h, True))
    (Option.bind (insert_block x ((unlink pre x hp)\<lparr>h_used := hdp (pre @ rest)\<rparr>)) compact)"
proof -
  have c: "chain (blk hp) (pre @ x # rest)" "h_used hp = hdp (pre @ x # rest)" using assms by (auto simp: heap_lists_def)
  have tw: "takeWhile (\<lambda>y. a \<noteq> b_addr (blk hp y)) (pre @ x # rest) = pre"
    "dropWhile (\<lambda>y. a \<noteq> b_addr (blk hp y)) (pre @ x # rest) = x # rest"
    using assms(2,3) by (auto simp: takeWhile_append dropWhile_append)
  have n: "b_next (blk hp x) = hdp rest" using c(1) by (auto simp: chain_append chain_Cons)
  have "(case if pre = [] then None else Some (last pre) of
      Some p \<Rightarrow> set_next p (b_next (blk hp x)) hp | None \<Rightarrow> hp\<lparr>h_used := b_next (blk hp x)\<rparr>) =
      (unlink pre x hp)\<lparr>h_used := hdp (pre @ rest)\<rparr>"
    using c(2) n by (cases pre) (auto simp: unlink_def set_next_def)
  then show ?thesis
    using free_scan_chain [OF c(1), of a None] c(2)
    by (simp add: free_mem_def tw Let_def map_option_bind option.map_comp comp_def)
qed

lemma iv_used_upd [simp]: "iv (hp\<lparr>h_used := u\<rparr>) = iv hp" "iv (hp\<lparr>h_top := t\<rparr>) = iv hp" "iv (hp\<lparr>h_free := u\<rparr>) = iv hp"
  "iv (hp\<lparr>h_fresh := u\<rparr>) = iv hp"
  by (rule ext, simp add: iv_def)+

lemma used_ok_remove: "used_ok B T al hp (pre @ x # rest) \<Longrightarrow> used_ok B T al hp (pre @ rest)"
  by (simp add: used_ok_def)

lemma used_iv_set: "y \<in> set U \<Longrightarrow> iv_set (iv hp y) \<subseteq> used_union hp U"
  by (auto simp: used_union_def iv_union_def)

lemma free_block_ok:
  assumes ok: "heap_ok B k hp F (pre @ x # rest) R" and a: "b_addr (blk hp x) = a" "\<forall>y \<in> set pre. b_addr (blk hp y) \<noteq> a"
  obtains hp' F' R' where "free_mem a hp = Some (hp', True)" "heap_ok B k hp' F' (pre @ rest) R'"
    "\<And>y. y \<in> set (pre @ rest) \<Longrightarrow> iv hp' y = iv hp y"
    "iv_union (map (iv hp') F') = iv_union (map (iv hp) F) \<union> iv_set (iv hp x)"
proof -
  let ?T = "unat (h_top hp)" and ?U = "pre @ rest"
  let ?h1 = "(unlink pre x hp)\<lparr>h_used := hdp ?U\<rparr>"
  have li: "heap_lists hp F (pre @ x # rest) R" using ok by (simp add: heap_ok_def)
  then have cd: "chain (blk hp) (pre @ x # rest)" "distinct (pre @ x # rest)" by (auto simp: heap_lists_def)
  have iv1: "iv ?h1 = iv hp" using unlink_ok(4) [OF cd] by simp
  have used: "used_ok B ?T (2 ^ k) hp (pre @ x # rest)" and dis: "used_union hp (pre @ x # rest) \<inter> iv_union (map (iv hp) F) = {}"
    and Fok: "ivs_ok B ?T (2 ^ k) (map (iv hp) F)" using ok by (auto simp: heap_ok_def)
  have xok: "iv_ok B ?T (2 ^ k) (iv hp x)" using used by (simp add: used_ok_def)
  have xf: "iv_set (iv hp x) \<inter> iv_union (map (iv hp) F) = {}" using dis by (auto simp: used_union_def)
  have T: "?T < 2 ^ 32" using unat_less_exp(3) by simp
  obtain hp' F' R' where c: "Option.bind (insert_block x ?h1) compact = Some hp'" "heap_lists hp' F' ?U R'"
    "length F' + length R' = Suc (length F + length R)" "ivs_ok B ?T (2 ^ k) (map (iv hp') F')"
    "iv_union (map (iv hp') F') = iv_set (iv hp x) \<union> iv_union (map (iv hp) F)" "frame (insert x (set F)) ?h1 hp'"
    using insert_compact_ok [OF unlink_used_lists [OF li] T, unfolded iv1, OF Fok xok xf] by blast
  have keep: "iv hp' y = iv hp y" if "y \<in> set ?U" for y
  proof -
    have "y \<notin> insert x (set F)" using that li by (auto simp: heap_lists_def)
    then show ?thesis using c(6) iv1 by (simp add: frame_def iv_def fun_eq_iff)
  qed
  have xU: "iv_set (iv hp x) \<inter> used_union hp ?U = {}"
    using used cd(2) by (auto simp: used_ok_def used_union_def iv_union_def)
  have regs: "h_top hp' = h_top hp" "heap_limit hp' = heap_limit hp" "heap_split_thresh hp' = heap_split_thresh hp"
    "heap_alignment hp' = heap_alignment hp" "heap_max_blocks hp' = heap_max_blocks hp"
    using c(6) by (simp_all add: frame_def)
  have "used_ok B ?T (2 ^ k) hp' ?U" "used_union hp' ?U = used_union hp ?U"
    using used_ok_remove [OF used] used_ok_cong [of ?U hp' hp, OF keep] used_union_cong [of ?U hp' hp, OF keep] by simp_all
  moreover have "used_union hp ?U \<inter> iv_union (map (iv hp') F') = {}"
    unfolding c(5) using dis xU by (auto simp: used_union_def)
  ultimately have "heap_ok B k hp' F' ?U R'" using ok c(2-4) regs by (simp add: heap_ok_def)
  moreover have "free_mem a hp = Some (hp', True)" using free_mem_used [OF li a] c(1) by simp
  ultimately show thesis using that keep c(5) by (simp add: Un_commute)
qed

section \<open>malloc\<close>

lemma fit_scan_chain:
  "chain (blk hp) ys \<Longrightarrow> fit_scan hp num prev (hdp ys) =
     Some (let pre = takeWhile (\<lambda>x. \<not> (is_top hp num x \<or> num \<le> b_size (blk hp x))) ys
           in if pre = [] then prev else Some (last pre),
           hdp (dropWhile (\<lambda>x. \<not> (is_top hp num x \<or> num \<le> b_size (blk hp x))) ys))"
proof (induction ys arbitrary: prev)
  case Nil
  then show ?case by (simp add: fit_scan.simps)
next
  case (Cons y ys)
  then show ?case by (subst fit_scan.simps) (auto simp: chain_Cons Let_def)
qed

text \<open>A new used block: the invariant from that of the rest of the heap.\<close>

lemma heap_ok_use:
  assumes ok: "heap_ok B k hp F U R" and li: "heap_lists h F' (p # U) R'"
    and len: "length F' + length R' + 1 = length F + length R"
    and regs: "heap_limit h = heap_limit hp" "heap_split_thresh h = heap_split_thresh hp"
      "heap_alignment h = heap_alignment hp" "heap_max_blocks h = heap_max_blocks hp"
    and top: "unat (h_top h) \<le> unat (heap_limit hp)" "2 ^ k dvd unat (h_top h)"
    and F': "ivs_ok B (unat (h_top h)) (2 ^ k) (map (iv h) F')" "iv_union (map (iv h) F') \<inter> used_union hp U = {}"
    and p: "iv_ok B (unat (h_top h)) (2 ^ k) (iv h p)" "iv_set (iv h p) \<inter> iv_union (map (iv h) F') = {}"
      "iv_set (iv h p) \<inter> used_union hp U = {}"
    and U: "\<And>x. x \<in> set U \<Longrightarrow> iv h x = iv hp x" "\<And>x. x \<in> set U \<Longrightarrow> iv_ok B (unat (h_top h)) (2 ^ k) (iv hp x)"
  shows "heap_ok B k h F' (p # U) R'"
proof -
  have old: "\<forall>x \<in> set U. \<forall>y \<in> set U. x \<noteq> y \<longrightarrow> iv_set (iv hp x) \<inter> iv_set (iv hp y) = {}"
    using ok by (simp add: heap_ok_def used_ok_def)
  have pu: "\<forall>x \<in> set U. iv_set (iv h p) \<inter> iv_set (iv hp x) = {}" using p(3) used_iv_set by fast
  have "used_ok B (unat (h_top h)) (2 ^ k) h (p # U)"
    using old pu p(1) U unfolding used_ok_def by (auto simp: Int_commute)
  moreover have "used_union h (p # U) \<inter> iv_union (map (iv h) F') = {}"
    using F'(2) p(2) used_union_cong [of U h hp, OF U(1)] by (auto simp: used_union_def)
  moreover have "B \<le> unat (h_top h)" using p(1) by (simp add: iv_ok_def)
  ultimately show ?thesis using ok li len regs top F'(1) by (simp add: heap_ok_def)
qed

definition grab :: "nat list \<Rightarrow> nat \<Rightarrow> nat list \<Rightarrow> heap \<Rightarrow> heap" where
  "grab pre p rest hp = (set_next p (h_used hp) ((unlink pre p hp)\<lparr>h_free := hdp (pre @ rest)\<rparr>))\<lparr>h_used := Some p\<rparr>"

lemma grab_regs [simp]:
  "h_fresh (grab pre p rest hp) = h_fresh hp" "h_top (grab pre p rest hp) = h_top hp"
  "heap_limit (grab pre p rest hp) = heap_limit hp" "heap_split_thresh (grab pre p rest hp) = heap_split_thresh hp"
  "heap_alignment (grab pre p rest hp) = heap_alignment hp" "heap_max_blocks (grab pre p rest hp) = heap_max_blocks hp"
  by (simp_all add: grab_def)

lemma grab_ok:
  assumes "heap_lists hp (pre @ p # rest) U R"
  shows "heap_lists (grab pre p rest hp) (pre @ rest) (p # U) R" "iv (grab pre p rest hp) = iv hp"
proof -
  have c: "chain (blk hp) (pre @ p # rest)" "distinct (pre @ p # rest)" using assms by (auto simp: heap_lists_def)
  note u = unlink_ok [OF c]
  let ?h = "grab pre p rest hp"
  have blk: "blk ?h x = (if x = p then (blk (unlink pre p hp) p)\<lparr>b_next := h_used hp\<rparr> else blk (unlink pre p hp) x)" for x
    by (simp add: grab_def blk_set)
  have dis: "set U \<inter> set pre = {}" "set R \<inter> set pre = {}" "p \<notin> set U" "p \<notin> set R" "p \<notin> set (pre @ rest)"
    using assms by (auto simp: heap_lists_def)
  have "chain (blk ?h) (pre @ rest)" using u(1) dis(5) by (subst chain_cong [of _ _ "blk (unlink pre p hp)"]) (auto simp: blk)
  moreover have "chain (blk ?h) U" "chain (blk ?h) R"
    using assms dis frame_chain [OF u(3)]
    by (subst chain_cong [of _ _ "blk (unlink pre p hp)"]; auto simp: blk heap_lists_def)+
  ultimately show "heap_lists ?h (pre @ rest) (p # U) R"
    using assms by (auto simp: heap_lists_def chain_Cons blk) (simp_all add: grab_def)
  show "iv ?h = iv hp" using u(4) by (auto simp: fun_eq_iff iv_def blk)
qed

lemma take_free_grab:
  assumes "heap_lists hp (pre @ p # rest) U R"
  shows "take_free num (if pre = [] then None else Some (last pre)) p hp =
    (let h = grab pre p rest hp in
     if is_top hp num p then Some ((set_size p num h)\<lparr>h_top := b_addr (blk hp p) + num\<rparr>)
     else
       (case R of
          [] \<Rightarrow> Some h
        | sp # R' \<Rightarrow>
            if b_size (blk hp p) - num \<ge> heap_split_thresh hp then
              Option.bind (insert_block sp
                (set_size sp (b_size (blk hp p) - num) (set_addr sp (b_addr (blk hp p) + num)
                  ((set_size p num h)\<lparr>h_fresh := hdp R'\<rparr>)))) compact
            else Some h))"
proof -
  let ?h = "grab pre p rest hp"
  have n: "b_next (blk hp p) = hdp rest" using assms by (auto simp: heap_lists_def chain_append chain_Cons)
  have eq: "(set_next p (h_used hp) (case if pre = [] then None else Some (last pre) of
      Some q \<Rightarrow> set_next q (b_next (blk hp p)) hp | None \<Rightarrow> hp\<lparr>h_free := b_next (blk hp p)\<rparr>))\<lparr>h_used := Some p\<rparr> = ?h"
    "h_used (case if pre = [] then None else Some (last pre) of
      Some q \<Rightarrow> set_next q (b_next (blk hp p)) hp | None \<Rightarrow> hp\<lparr>h_free := b_next (blk hp p)\<rparr>) = h_used hp"
    using assms n by (cases pre; simp add: grab_def unlink_def heap_lists_def set_next_def)+
  have iv: "b_addr (blk ?h x) = b_addr (blk hp x)" "b_size (blk ?h x) = b_size (blk hp x)" for x
    using grab_ok(2) [OF assms] by (simp_all add: iv_def fun_eq_iff)
  have fr: "h_fresh hp = hdp R" using assms by (simp add: heap_lists_def)
  show ?thesis
  proof (cases R)
    case Nil
    then show ?thesis unfolding take_free_def Let_def eq by (simp add: iv fr)
  next
    case (Cons sp R')
    have "sp \<noteq> p" using assms Cons by (auto simp: heap_lists_def)
    moreover have "b_next (blk ?h sp) = hdp R'"
      using grab_ok(1) [OF assms] Cons by (auto simp: heap_lists_def chain_Cons)
    ultimately show ?thesis unfolding take_free_def Let_def eq using Cons by (simp add: iv fr blk_set)
  qed
qed

lemma iv_before_disjoint: "iv_before i j \<Longrightarrow> iv_set i \<inter> iv_set j = {}"
  by (auto simp: iv_before_def iv_set_def)

lemma iv_union_below: "\<forall>i \<in> set xs. iv_ok B T al i \<Longrightarrow> iv_union xs \<subseteq> {..< T}"
  unfolding iv_union_def
proof (rule UN_least)
  fix i assume "\<forall>i \<in> set xs. iv_ok B T al i" "i \<in> set xs"
  then have "iv_ok B T al i" by blast
  then show "iv_set i \<subseteq> {..< T}" by (auto simp: iv_ok_def iv_set_def)
qed

lemma free_part:
  assumes "ivs_ok B T al (map (iv hp) (pre @ p # rest))"
  shows "ivs_ok B T al (map (iv hp) (pre @ rest))" "iv_ok B T al (iv hp p)"
    "iv_set (iv hp p) \<inter> iv_union (map (iv hp) (pre @ rest)) = {}"
proof -
  show "ivs_ok B T al (map (iv hp) (pre @ rest))" "iv_ok B T al (iv hp p)"
    using assms by (auto simp: ivs_ok_def sorted_wrt_append)
  have "iv_before (iv hp x) (iv hp p)" if "x \<in> set pre" for x
    using assms that by (auto simp: ivs_ok_def sorted_wrt_append)
  moreover have "iv_before (iv hp p) (iv hp x)" if "x \<in> set rest" for x
    using assms that by (auto simp: ivs_ok_def sorted_wrt_append)
  ultimately have "iv_set (iv hp p) \<inter> iv_set (iv hp x) = {}" if "x \<in> set (pre @ rest)" for x
    using that iv_before_disjoint by (metis Int_commute Un_iff set_append)
  then show "iv_set (iv hp p) \<inter> iv_union (map (iv hp) (pre @ rest)) = {}"
    unfolding iv_union_def by auto
qed

text \<open>A block that is disjoint from the one that ends at \<open>top\<close> ends where that one begins, or before.\<close>

lemma iv_below_top:
  assumes "iv_ok B T al i" "iv_set i \<inter> iv_set j = {}" "unat (fst j) + unat (snd j) = T" "unat (fst j) \<le> T'"
  shows "iv_ok B T' al i"
proof -
  have "unat (fst i) + unat (snd i) \<le> unat (fst j)"
  proof (rule ccontr)
    assume "\<not> ?thesis"
    then have "unat (fst i) + unat (snd i) - 1 \<in> iv_set j" "unat (fst i) + unat (snd i) - 1 \<in> iv_set i"
      using assms(1,3) unat_gt_0 [of "snd i"] by (auto simp: iv_set_def iv_ok_def)
    then show False using assms(2) by blast
  qed
  then show ?thesis using assms(1,4) by (simp add: iv_ok_def)
qed

lemma used_below_top:
  assumes "heap_ok B k hp F U R" "iv_set j \<inter> used_union hp U = {}" "unat (fst j) + unat (snd j) = unat (h_top hp)"
    "unat (fst j) \<le> T'" "x \<in> set U"
  shows "iv_ok B T' (2 ^ k) (iv hp x)"
proof (rule iv_below_top)
  show "iv_ok B (unat (h_top hp)) (2 ^ k) (iv hp x)" using assms(1,5) by (simp add: heap_ok_def used_ok_def)
  show "iv_set (iv hp x) \<inter> iv_set j = {}" using assms(2) used_iv_set [OF assms(5), of hp] by blast
qed (use assms in auto)

lemma free_below_top:
  assumes "ivs_ok B T al xs" "iv_set j \<inter> iv_union xs = {}" "unat (fst j) + unat (snd j) = T" "unat (fst j) \<le> T'"
  shows "ivs_ok B T' al xs"
  using assms iv_below_top [OF _ _ assms(3,4)] by (fastforce simp: ivs_ok_def iv_union_def)

text \<open>What the three ways to use a free block have in common.\<close>

definition free_fit :: "nat \<Rightarrow> nat \<Rightarrow> heap \<Rightarrow> nat list \<Rightarrow> nat \<Rightarrow> nat list \<Rightarrow> nat list \<Rightarrow> nat list \<Rightarrow> u32 \<Rightarrow> bool" where
  "free_fit B k hp pre p rest U R num \<longleftrightarrow> heap_ok B k hp (pre @ p # rest) U R \<and>
     num \<noteq> 0 \<and> 2 ^ k dvd unat num \<and> unat (heap_limit hp) + unat num < 2 ^ 32"

lemma free_fitD:
  assumes "free_fit B k hp pre p rest U R num"
  shows "heap_ok B k hp (pre @ p # rest) U R" "heap_lists hp (pre @ p # rest) U R"
    "ivs_ok B (unat (h_top hp)) (2 ^ k) (map (iv hp) (pre @ p # rest))"
    "unat (h_top hp) \<le> unat (heap_limit hp)" "2 ^ k dvd unat (h_top hp)"
    "num \<noteq> 0" "2 ^ k dvd unat num" "unat (heap_limit hp) + unat num < 2 ^ 32"
    "\<And>x. x \<in> set U \<Longrightarrow> iv_ok B (unat (h_top hp)) (2 ^ k) (iv hp x)"
    "iv_union (map (iv hp) (pre @ rest)) \<inter> used_union hp U = {}" "iv_set (iv hp p) \<inter> used_union hp U = {}"
  using assms by (auto simp: free_fit_def heap_ok_def used_ok_def)

lemma free_fit_end:
  assumes "free_fit B k hp pre p rest U R num"
  shows "unat (b_addr (blk hp p) + num) = unat (b_addr (blk hp p)) + unat num"
  using free_part(2) [OF free_fitD(3) [OF assms]] free_fitD(4,8) [OF assms]
  by (simp add: iv_ok_def iv_def unat_word_ariths)

lemma take_whole:
  assumes f: "free_fit B k hp pre p rest U R num"
  shows "heap_ok B k (grab pre p rest hp) (pre @ rest) (p # U) R"
proof (rule heap_ok_use [OF free_fitD(1) [OF f]])
  note d = free_fitD [OF f]
  show "heap_lists (grab pre p rest hp) (pre @ rest) (p # U) R" by (rule grab_ok [OF d(2)])
qed (use free_part [OF free_fitD(3) [OF f]] free_fitD [OF f] grab_ok(2) [OF free_fitD(2) [OF f]] in auto)

lemma take_top:
  assumes f: "free_fit B k hp pre p rest U R num" and "is_top hp num p"
  shows "heap_ok B k ((set_size p num (grab pre p rest hp))\<lparr>h_top := b_addr (blk hp p) + num\<rparr>) (pre @ rest) (p # U) R"
    (is "heap_ok B k ?h _ _ _")
proof (rule heap_ok_use [OF free_fitD(1) [OF f]])
  note d = free_fitD [OF f]
  let ?a = "b_addr (blk hp p)" and ?s = "b_size (blk hp p)"
  have pok: "iv_ok B (unat (h_top hp)) (2 ^ k) (iv hp p)" by (rule free_part(2) [OF d(3)])
  have "unat (?a + ?s) = unat ?a + unat ?s"
    using pok le_less_trans [OF _ unat_less_exp(3) [of "h_top hp"]] by (simp add: iv_ok_def iv_def unat_word_ariths)
  then have top: "unat (fst (iv hp p)) + unat (snd (iv hp p)) = unat (h_top hp)"
    using assms(2) pok by (simp add: is_top_def iv_ok_def iv_def word_le_nat_alt)
  have lo: "unat (fst (iv hp p)) \<le> unat (h_top ?h)" by (simp add: free_fit_end [OF f] iv_def)
  have ivo: "iv ?h x = iv hp x" if "x \<noteq> p" for x
    using that grab_ok(2) [OF d(2)] by (simp add: iv_def blk_set fun_eq_iff)
  have ivp: "iv ?h p = (?a, num)" using grab_ok(2) [OF d(2)] by (simp add: iv_def blk_set fun_eq_iff)
  have np: "p \<notin> set (pre @ rest)" "p \<notin> set U" using d(2) by (auto simp: heap_lists_def)
  have ivF: "map (iv ?h) (pre @ rest) = map (iv hp) (pre @ rest)" by (rule map_cong [OF refl], rule ivo) (use np(1) in auto)
  show "heap_lists ?h (pre @ rest) (p # U) R"
    using grab_ok(1) [OF d(2)] chain_cong [of _ "blk ?h" "blk (grab pre p rest hp)"] by (simp add: heap_lists_def blk_set)
  show "unat (h_top ?h) \<le> unat (heap_limit hp)" "2 ^ k dvd unat (h_top ?h)"
    using assms(2) free_fit_end [OF f] d(7) pok by (auto simp: is_top_def word_le_nat_alt iv_ok_def iv_def)
  show "ivs_ok B (unat (h_top ?h)) (2 ^ k) (map (iv ?h) (pre @ rest))"
    unfolding ivF by (rule free_below_top [OF free_part(1,3) [OF d(3)] top lo])
  show "iv_union (map (iv ?h) (pre @ rest)) \<inter> used_union hp U = {}" unfolding ivF by (rule d(10))
  show "iv_ok B (unat (h_top ?h)) (2 ^ k) (iv ?h p)"
    using pok d(6,7) free_fit_end [OF f] unfolding ivp by (simp add: iv_ok_def iv_def)
  \<comment> \<open>the part that reaches beyond the old end is above every other block\<close>
  have up: "i \<inter> iv_set (iv ?h p) = {}" if "i \<subseteq> {..< unat (h_top hp)}" "i \<inter> iv_set (iv hp p) = {}" for i
  proof -
    have "x \<in> iv_set (iv hp p)" if "x \<in> i" "x \<in> iv_set (iv ?h p)" for x
      using that \<open>i \<subseteq> {..< unat (h_top hp)}\<close> top unfolding ivp by (auto simp: iv_set_def iv_def)
    then show ?thesis using that(2) by blast
  qed
  have "iv_union (map (iv hp) (pre @ rest)) \<subseteq> {..< unat (h_top hp)}"
    by (rule iv_union_below [of _ B _ "2 ^ k"]) (use free_part(1) [OF d(3)] in \<open>simp add: ivs_ok_def\<close>)
  then show "iv_set (iv ?h p) \<inter> iv_union (map (iv ?h) (pre @ rest)) = {}"
    using up free_part(3) [OF d(3)] unfolding ivF by (metis Int_commute)
  have "used_union hp U \<subseteq> {..< unat (h_top hp)}"
    unfolding used_union_def by (rule iv_union_below) (use d(9) in auto)
  then show "iv_set (iv ?h p) \<inter> used_union hp U = {}" using up d(11) by (metis Int_commute)
  fix x assume x: "x \<in> set U"
  then have "x \<noteq> p" using np(2) by blast
  then show "iv ?h x = iv hp x" by (rule ivo)
  show "iv_ok B (unat (h_top ?h)) (2 ^ k) (iv hp x)" by (rule used_below_top [OF d(1,11) top lo x])
qed simp_all


text \<open>Splitting: the rest of the block becomes a free block with the first fresh descriptor.\<close>

lemma take_split:
  assumes f: "free_fit B k hp pre p rest U (sp # R) num" and fit: "num \<le> b_size (blk hp p)"
    and ex: "heap_split_thresh hp \<le> b_size (blk hp p) - num"
  obtains h F' R' where "Option.bind (insert_block sp (set_size sp (b_size (blk hp p) - num)
      (set_addr sp (b_addr (blk hp p) + num) ((set_size p num (grab pre p rest hp))\<lparr>h_fresh := hdp R\<rparr>)))) compact = Some h"
    "heap_ok B k h F' (p # U) R'" "iv h p = (b_addr (blk hp p), num)" "\<And>x. x \<in> set U \<Longrightarrow> iv h x = iv hp x"
    "heap_limit h = heap_limit hp"
proof -
  note d = free_fitD [OF f]
  let ?a = "b_addr (blk hp p)" and ?s = "b_size (blk hp p)" and ?T = "unat (h_top hp)"
  let ?h = "set_size sp (?s - num) (set_addr sp (?a + num) ((set_size p num (grab pre p rest hp))\<lparr>h_fresh := hdp R\<rparr>))"
  note g = grab_ok [OF d(2)] and fp = free_part [OF d(3)]
  have dis: "sp \<noteq> p" "p \<notin> set (pre @ rest)" "p \<notin> set U" "sp \<notin> set ((pre @ rest) @ (p # U) @ R)"
    using d(2) by (auto simp: heap_lists_def)
  have nx: "b_next (blk ?h x) = b_next (blk (grab pre p rest hp) x)" for x by (simp add: blk_set)
  have li: "heap_lists ?h (pre @ rest) (p # U) R"
    using g(1) chain_cong [OF nx] by (auto simp: heap_lists_def chain_Cons)
  have ivo: "iv ?h x = iv hp x" if "x \<noteq> p" "x \<noteq> sp" for x
    using that g(2) by (simp add: iv_def blk_set fun_eq_iff)
  have ivp: "iv ?h p = (?a, num)" and ivs: "iv ?h sp = (?a + num, ?s - num)"
    using g(2) dis(1) by (simp_all add: iv_def blk_set fun_eq_iff)
  have ivF: "map (iv ?h) (pre @ rest) = map (iv hp) (pre @ rest)"
    by (rule map_cong [OF refl], rule ivo) (use dis in auto)
  have us: "unat (?s - num) = unat ?s - unat num" using fit by (rule unat_sub)
  have nz: "?s - num \<noteq> 0" using ex d(1) by (auto simp: heap_ok_def)
  have ns: "unat num \<le> unat ?s" using fit by (simp add: word_le_nat_alt)
  have sok: "iv_ok B ?T (2 ^ k) (iv ?h sp)" and pok: "iv_ok B ?T (2 ^ k) (iv ?h p)"
    using fp(2) nz ns d(6,7) free_fit_end [OF f] unfolding ivs ivp by (auto simp: iv_ok_def iv_def us intro: dvd_diff_nat)
  have sub: "iv_set (iv ?h sp) \<subseteq> iv_set (iv hp p)" "iv_set (iv ?h p) \<subseteq> iv_set (iv hp p)"
    "iv_set (iv ?h p) \<inter> iv_set (iv ?h sp) = {}"
    using ns free_fit_end [OF f] unfolding ivs ivp by (auto simp: iv_set_def iv_def us)
  have T: "?T < 2 ^ 32" using unat_less_exp(3) by simp
  have sF: "iv_set (iv ?h sp) \<inter> iv_union (map (iv ?h) (pre @ rest)) = {}" unfolding ivF using fp(3) sub(1) by blast
  obtain h F' R' where c: "Option.bind (insert_block sp ?h) compact = Some h" "heap_lists h F' (p # U) R'"
    "length F' + length R' = Suc (length (pre @ rest) + length R)" "ivs_ok B ?T (2 ^ k) (map (iv h) F')"
    "iv_union (map (iv h) F') = iv_set (iv ?h sp) \<union> iv_union (map (iv ?h) (pre @ rest))"
    "frame (insert sp (set (pre @ rest))) ?h h"
    using insert_compact_ok [OF li dis(4) T _ sok sF] fp(1) unfolding ivF by blast
  have keep: "iv h x = iv ?h x" if "x \<in> set (p # U)" for x
  proof -
    have "x \<notin> insert sp (set (pre @ rest))" using that d(2) by (auto simp: heap_lists_def)
    then show ?thesis using c(6) by (simp add: frame_def iv_def)
  qed
  have keepU: "iv h x = iv hp x" if "x \<in> set U" for x
    using keep [of x] ivo [of x] that dis by auto
  have top: "h_top h = h_top hp" using c(6) by (simp add: frame_def)
  have "heap_ok B k h F' (p # U) R'"
  proof (rule heap_ok_use [OF d(1) c(2)])
    show "iv_union (map (iv h) F') \<inter> used_union hp U = {}" unfolding c(5) ivF using d(10,11) sub(1) by blast
    show "iv_set (iv h p) \<inter> iv_union (map (iv h) F') = {}"
      using keep [of p] sub(2,3) fp(3) unfolding c(5) ivF by auto
    show "iv_set (iv h p) \<inter> used_union hp U = {}" using keep [of p] sub(2) d(11) by auto
  qed (use c(3,4,6) d(4,5,9) keep [of p] pok keepU in \<open>simp_all add: top frame_def\<close>)
  moreover have "heap_limit h = heap_limit hp" using c(6) by (simp add: frame_def)
  ultimately show thesis using that c(1) keep [of p] ivp keepU by simp
qed

lemma take_free_ok:
  assumes f: "free_fit B k hp pre p rest U R num" and fit: "is_top hp num p \<or> num \<le> b_size (blk hp p)"
  obtains h F' R' where "take_free num (if pre = [] then None else Some (last pre)) p hp = Some h"
    "heap_ok B k h F' (p # U) R'" "b_addr (blk h p) = b_addr (blk hp p)" "num \<le> b_size (blk h p)"
    "\<And>x. x \<in> set U \<Longrightarrow> iv h x = iv hp x" "heap_limit h = heap_limit hp"
proof -
  note d = free_fitD [OF f]
  note res = that
  note eq = take_free_grab [OF d(2), of num] and g = grab_ok(2) [OF d(2)]
  have np: "p \<notin> set U" using d(2) by (auto simp: heap_lists_def)
  show thesis
  proof (cases "is_top hp num p")
    case True
    let ?h = "(set_size p num (grab pre p rest hp))\<lparr>h_top := b_addr (blk hp p) + num\<rparr>"
    have "iv ?h x = iv hp x" if "x \<in> set U" for x
      using g np that by (auto simp: iv_def blk_set fun_eq_iff)
    moreover have "b_addr (blk ?h p) = b_addr (blk hp p)" "b_size (blk ?h p) = num"
      using g by (auto simp: iv_def blk_set fun_eq_iff)
    moreover have "take_free num (if pre = [] then None else Some (last pre)) p hp = Some ?h"
      using eq True by (simp add: Let_def)
    ultimately show thesis using take_top [OF f True] by (intro that [of ?h]) simp_all
  next
    case False
    then have le: "num \<le> b_size (blk hp p)" using fit by simp
    have whole: thesis if "take_free num (if pre = [] then None else Some (last pre)) p hp = Some (grab pre p rest hp)"
      using res [OF that take_whole [OF f]] g le by (auto simp: iv_def fun_eq_iff)
    show thesis
    proof (cases R)
      case Nil
      then show thesis using whole eq False by (simp add: Let_def)
    next
      case (Cons sp R0)
      show thesis
      proof (cases "heap_split_thresh hp \<le> b_size (blk hp p) - num")
        case True
        obtain h F' R' where h: "Option.bind (insert_block sp (set_size sp (b_size (blk hp p) - num)
            (set_addr sp (b_addr (blk hp p) + num) ((set_size p num (grab pre p rest hp))\<lparr>h_fresh := hdp R0\<rparr>)))) compact = Some h"
          "heap_ok B k h F' (p # U) R'" "iv h p = (b_addr (blk hp p), num)" "\<And>x. x \<in> set U \<Longrightarrow> iv h x = iv hp x"
          "heap_limit h = heap_limit hp"
          using take_split [OF f [unfolded Cons] le True] by blast
        have "take_free num (if pre = [] then None else Some (last pre)) p hp = Some h"
          using eq False True Cons h(1) by (simp add: Let_def)
        then show thesis using h(2-5) by (intro res [of h]) (simp_all add: iv_def)
      qed (use whole eq False Cons in \<open>simp add: Let_def\<close>)
    qed
  qed
qed

text \<open>The whole of \<open>alloc_block\<close>.\<close>

definition size_fits :: "nat \<Rightarrow> heap \<Rightarrow> u32 \<Rightarrow> bool" where
  "size_fits k hp num \<longleftrightarrow> num \<noteq> 0 \<and> unat (heap_limit hp) + unat num + 2 ^ k \<le> 2 ^ 32"

lemma round_up_fits:
  assumes "heap_ok B k hp F U R" "size_fits k hp n" "num = round_up (heap_alignment hp) n"
  shows "num \<noteq> 0" "2 ^ k dvd unat num" "unat (heap_limit hp) + unat num < 2 ^ 32" "n \<le> num"
proof -
  have al: "heap_alignment hp = 2 ^ k" "k < 32" using assms(1) by (simp_all add: heap_ok_def)
  have "unat n + 2 ^ k \<le> 2 ^ 32" using assms(2) by (simp add: size_fits_def)
  note r = round_up_ok [OF al this]
  show "2 ^ k dvd unat num" using r(4) assms(3) by simp
  show "unat (heap_limit hp) + unat num < 2 ^ 32" using r(3) assms(2) unfolding size_fits_def assms(3) by linarith
  show "n \<le> num" using r(2) assms(3) by (simp add: word_le_nat_alt)
  then show "num \<noteq> 0" using assms(2) unat_gt_0 [of n] by (auto simp: size_fits_def)
qed

text \<open>Using a fresh descriptor for the memory above \<open>top\<close>.\<close>

lemma take_fresh:
  assumes ok: "heap_ok B k hp F U (p # R)" and n: "num \<noteq> 0" "2 ^ k dvd unat num" "unat (heap_limit hp) + unat num < 2 ^ 32"
    and lim: "h_top hp + num \<le> heap_limit hp"
  shows "heap_ok B k ((set_size p num (set_next p (h_used hp) (set_addr p (h_top hp) (hp\<lparr>h_fresh := hdp R\<rparr>))))
      \<lparr>h_used := Some p, h_top := h_top hp + num\<rparr>) F (p # U) R" (is "heap_ok B k ?h _ _ _")
proof (rule heap_ok_use [OF ok])
  have o: "heap_lists hp F U (p # R)" "unat (h_top hp) \<le> unat (heap_limit hp)" "2 ^ k dvd unat (h_top hp)" "B \<le> unat (h_top hp)"
    "ivs_ok B (unat (h_top hp)) (2 ^ k) (map (iv hp) F)" "used_ok B (unat (h_top hp)) (2 ^ k) hp U"
    "used_union hp U \<inter> iv_union (map (iv hp) F) = {}"
    using ok by (simp_all add: heap_ok_def)
  have dis: "p \<notin> set F" "p \<notin> set U" "p \<notin> set R" using o(1) by (auto simp: heap_lists_def)
  have T: "unat (h_top ?h) = unat (h_top hp) + unat num" using o(2) n(3) by (simp add: unat_word_ariths)
  have up: "iv_ok B (unat (h_top ?h)) (2 ^ k) i" if "iv_ok B (unat (h_top hp)) (2 ^ k) i" for i
    using that T by (simp add: iv_ok_def)
  have ivp: "iv ?h p = (h_top hp, num)" by (simp add: iv_def blk_set)
  have ivo: "iv ?h x = iv hp x" if "x \<noteq> p" for x using that by (simp add: iv_def blk_set)
  have ivF: "map (iv ?h) F = map (iv hp) F" by (rule map_cong [OF refl], rule ivo) (use dis in auto)
  have pn: "iv_set (iv ?h p) \<inter> X = {}" if "X \<subseteq> {..< unat (h_top hp)}" for X
    using that unfolding ivp by (auto simp: iv_set_def)
  have "chain (blk ?h) F" "chain (blk ?h) U" "chain (blk ?h) R"
    using o(1) dis by (subst chain_cong [of _ _ "blk hp"]; auto simp: heap_lists_def blk_set chain_Cons)+
  then show "heap_lists ?h F (p # U) R" using o(1) by (auto simp: heap_lists_def chain_Cons blk_set)
  show "ivs_ok B (unat (h_top ?h)) (2 ^ k) (map (iv ?h) F)" unfolding ivF using o(5) up by (simp add: ivs_ok_def)
  show "iv_union (map (iv ?h) F) \<inter> used_union hp U = {}" unfolding ivF using o(7) by blast
  show "iv_ok B (unat (h_top ?h)) (2 ^ k) (iv ?h p)" using T n o(3,4) unfolding ivp by (simp add: iv_ok_def)
  show "iv_set (iv ?h p) \<inter> iv_union (map (iv ?h) F) = {}"
    unfolding ivF by (rule pn, rule iv_union_below [of _ B _ "2 ^ k"]) (use o(5) in \<open>simp add: ivs_ok_def\<close>)
  show "iv_set (iv ?h p) \<inter> used_union hp U = {}"
    unfolding used_union_def by (rule pn, rule iv_union_below [of _ B _ "2 ^ k"]) (use o(6) in \<open>simp add: used_ok_def\<close>)
  show "unat (h_top ?h) \<le> unat (heap_limit hp)" using lim by (simp add: word_le_nat_alt)
  show "2 ^ k dvd unat (h_top ?h)" unfolding T using o(3) n(2) by simp
  fix x assume x: "x \<in> set U"
  then have "x \<noteq> p" using dis(2) by blast
  then show "iv ?h x = iv hp x" by (rule ivo)
  show "iv_ok B (unat (h_top ?h)) (2 ^ k) (iv hp x)" by (rule up) (use o(6) x in \<open>simp add: used_ok_def\<close>)
qed simp_all

lemma alloc_block_ok:
  assumes ok: "heap_ok B k hp F U R" and sz: "size_fits k hp n"
  shows "(alloc_block n hp = Some (hp, None) \<and>
       (\<forall>x \<in> set F. b_size (blk hp x) < round_up (heap_alignment hp) n \<and>
          (h_top hp \<le> b_addr (blk hp x) + b_size (blk hp x) \<longrightarrow>
             heap_limit hp < b_addr (blk hp x) + round_up (heap_alignment hp) n)) \<and>
       (R = [] \<or> heap_limit hp < h_top hp + round_up (heap_alignment hp) n)) \<or>
    (\<exists>h p F' R'. alloc_block n hp = Some (h, Some p) \<and> heap_ok B k h F' (p # U) R' \<and> n \<le> b_size (blk h p) \<and>
       (\<forall>x \<in> set U. iv h x = iv hp x) \<and> heap_limit h = heap_limit hp)"
proof -
  define num where "num = round_up (heap_alignment hp) n"
  note r = round_up_fits [OF ok sz num_def]
  let ?P = "\<lambda>x. \<not> (is_top hp num x \<or> num \<le> b_size (blk hp x))"
  define pre where "pre = takeWhile ?P F"
  have li: "chain (blk hp) F" "h_free hp = hdp F" "h_fresh hp = hdp R" using ok by (auto simp: heap_ok_def heap_lists_def)
  note scan = fit_scan_chain [OF li(1), of num None, folded pre_def]
  show ?thesis
  proof (cases "dropWhile ?P F")
    case (Cons p rest)
    then have F: "F = pre @ p # rest" unfolding pre_def by (metis takeWhile_dropWhile_id)
    have fit: "is_top hp num p \<or> num \<le> b_size (blk hp p)" using hd_dropWhile [of ?P F] unfolding Cons by simp
    have ff: "free_fit B k hp pre p rest U R num" using ok r F by (simp add: free_fit_def)
    obtain h F' R' where h: "take_free num (if pre = [] then None else Some (last pre)) p hp = Some h"
      "heap_ok B k h F' (p # U) R'" "num \<le> b_size (blk h p)" "\<And>x. x \<in> set U \<Longrightarrow> iv h x = iv hp x"
      "heap_limit h = heap_limit hp"
      by (rule take_free_ok [OF ff fit]) blast
    have "fit_scan hp num None (h_free hp) = Some (if pre = [] then None else Some (last pre), Some p)"
      using scan li(2) unfolding Cons by (simp add: Let_def)
    then have "alloc_block n hp = Some (h, Some p)"
      using h(1) by (simp add: alloc_block_def num_def [symmetric] Let_def)
    then show ?thesis using h(2-5) r(4) by (meson order_trans)
  next
    case Nil
    have sc: "fit_scan hp num None (h_free hp) = Some (if pre = [] then None else Some (last pre), None)"
      using scan li(2) unfolding Nil by (simp add: Let_def)
    show ?thesis
    proof (cases "R \<noteq> [] \<and> h_top hp + num \<le> heap_limit hp")
      case True
      then obtain p R0 where R: "R = p # R0" by (cases R) auto
      have nx: "b_next (blk hp p) = hdp R0" using ok R by (auto simp: heap_ok_def heap_lists_def chain_Cons)
      let ?h = "(set_size p num (set_next p (h_used hp) (set_addr p (h_top hp) (hp\<lparr>h_fresh := hdp R0\<rparr>))))
        \<lparr>h_used := Some p, h_top := h_top hp + num\<rparr>"
      have "alloc_block n hp = Some (?h, Some p)"
        using sc li(3) True R nx by (simp add: alloc_block_def num_def [symmetric] Let_def)
      moreover have "heap_ok B k ?h F (p # U) R0" using take_fresh [OF ok [unfolded R] r(1-3)] True by simp
      moreover have "\<forall>x \<in> set U. iv ?h x = iv hp x"
        using ok R by (auto simp: heap_ok_def heap_lists_def iv_def blk_set)
      moreover have "n \<le> b_size (blk ?h p)" using r(4) by (simp add: blk_set)
      moreover have "heap_limit ?h = heap_limit hp" by simp
      ultimately show ?thesis by blast
    next
      case False
      then have "alloc_block n hp = Some (hp, None)"
        using sc li(3) by (cases R) (simp_all add: alloc_block_def num_def [symmetric] Let_def)
      moreover have "\<forall>x \<in> set F. b_size (blk hp x) < num \<and>
          (h_top hp \<le> b_addr (blk hp x) + b_size (blk hp x) \<longrightarrow> heap_limit hp < b_addr (blk hp x) + num)"
        using Nil by (auto simp: is_top_def)
      ultimately show ?thesis using False by (simp add: num_def not_le)
    qed
  qed
qed

section \<open>Correctness\<close>

text \<open>C3: A request for \<open>n\<close> bytes, when \<open>n\<close> is not zero and the limit of the heap plus \<open>n\<close> plus the alignment does
  not pass 2^32: either it returns \<open>NULL\<close> and changes nothing, and then no free block is as large as the rounded
  size, a free block that ends at the top of the heap cannot grow to that size below the limit, and there is no
  fresh descriptor or no room above the top; or it returns an aligned address inside the heap whose \<open>n\<close> bytes
  belong to no block in use, and the invariant holds again with the new block added to the blocks in use, all of
  which are where they were.\<close>

theorem malloc_correct:
  assumes "heap_ok B k hp F U R" "size_fits k hp n"
  shows "(malloc n hp = Some (hp, None) \<and>
       (\<forall>x \<in> set F. b_size (blk hp x) < round_up (heap_alignment hp) n \<and>
          (h_top hp \<le> b_addr (blk hp x) + b_size (blk hp x) \<longrightarrow>
             heap_limit hp < b_addr (blk hp x) + round_up (heap_alignment hp) n)) \<and>
       (R = [] \<or> heap_limit hp < h_top hp + round_up (heap_alignment hp) n)) \<or>
    (\<exists>h p F' R' a. malloc n hp = Some (h, Some a) \<and> heap_ok B k h F' (p # U) R' \<and> b_addr (blk h p) = a \<and>
       2 ^ k dvd unat a \<and> B \<le> unat a \<and> unat a + unat n \<le> unat (heap_limit hp) \<and>
       {unat a ..< unat a + unat n} \<inter> used_union hp U = {} \<and> (\<forall>x \<in> set U. iv h x = iv hp x))"
  using alloc_block_ok [OF assms]
proof (elim disjE exE conjE)
  fix h p F' R'
  assume h: "alloc_block n hp = Some (h, Some p)" "heap_ok B k h F' (p # U) R'" "n \<le> b_size (blk h p)"
    "\<forall>x \<in> set U. iv h x = iv hp x" "heap_limit h = heap_limit hp"
  let ?a = "b_addr (blk h p)"
  have lim: "unat (h_top h) \<le> unat (heap_limit h)" and p: "iv_ok B (unat (h_top h)) (2 ^ k) (iv h p)"
    and dis: "\<forall>x \<in> set (p # U). \<forall>y \<in> set (p # U). x \<noteq> y \<longrightarrow> iv_set (iv h x) \<inter> iv_set (iv h y) = {}"
    and np: "p \<notin> set U"
    using h(2) by (auto simp: heap_ok_def used_ok_def heap_lists_def)
  have sub: "{unat ?a ..< unat ?a + unat n} \<subseteq> iv_set (iv h p)"
    using h(3) by (auto simp: iv_set_def iv_def word_le_nat_alt)
  have "{unat ?a ..< unat ?a + unat n} \<inter> used_union hp U = {}"
  proof -
    have "iv_set (iv h p) \<inter> iv_set (iv hp x) = {}" if "x \<in> set U" for x
      using dis np that h(4) by (metis list.set_intros)
    then show ?thesis using sub by (auto simp: used_union_def iv_union_def)
  qed
  moreover have "unat ?a + unat n \<le> unat (heap_limit hp)"
    using p h(3,5) lim by (simp add: iv_ok_def iv_def word_le_nat_alt)
  moreover have "malloc n hp = Some (h, Some ?a)" using h(1) by (simp add: malloc_def)
  ultimately show ?thesis using p h(2,4) by (auto simp: iv_ok_def iv_def)
qed (simp_all add: malloc_def)

lemma free_mem_unused:
  assumes "heap_lists hp F U R" "\<forall>x \<in> set U. b_addr (blk hp x) \<noteq> a"
  shows "free_mem a hp = Some (hp, False)"
proof -
  have c: "chain (blk hp) U" "h_used hp = hdp U" using assms(1) by (auto simp: heap_lists_def)
  have d: "dropWhile (\<lambda>x. a \<noteq> b_addr (blk hp x)) U = []" using assms(2) by (auto simp: dropWhile_eq_Nil_conv)
  obtain prev where "free_scan (blk hp) a None (h_used hp) = Some (prev, None)"
    using free_scan_chain [OF c(1), of a None] unfolding d c(2) by simp
  then show ?thesis by (simp add: free_mem_def)
qed

lemma used_addr_inj:
  assumes "heap_ok B k hp F U R" "x \<in> set U" "y \<in> set U" "b_addr (blk hp x) = b_addr (blk hp y)"
  shows "x = y"
proof (rule ccontr)
  assume "x \<noteq> y"
  then have "iv_set (iv hp x) \<inter> iv_set (iv hp y) = {}" "iv_ok B (unat (h_top hp)) (2 ^ k) (iv hp x)"
    "iv_ok B (unat (h_top hp)) (2 ^ k) (iv hp y)"
    using assms by (auto simp: heap_ok_def used_ok_def)
  then show False using iv_ok_start assms(4) by (fastforce simp: iv_def)
qed

text \<open>C4: Freeing: an address that \<open>malloc\<close> returned and that is still in use gives its block back: the call
  returns true, the block leaves the list of used blocks and its memory joins the free memory, and
  the other blocks in use stay as they are. For any other address the call returns false and
  changes nothing.\<close>

theorem free_correct:
  assumes ok: "heap_ok B k hp F U R"
  shows "(\<forall>x \<in> set U. b_addr (blk hp x) = a \<longrightarrow>
      (\<exists>h F' R'. free_mem a hp = Some (h, True) \<and> heap_ok B k h F' (remove1 x U) R' \<and>
         iv_union (map (iv h) F') = iv_union (map (iv hp) F) \<union> iv_set (iv hp x) \<and>
         (\<forall>y \<in> set U - {x}. iv h y = iv hp y))) \<and>
    (a \<notin> (\<lambda>x. b_addr (blk hp x)) ` set U \<longrightarrow> free_mem a hp = Some (hp, False))"
proof (intro conjI ballI impI)
  fix x assume x: "x \<in> set U" "b_addr (blk hp x) = a"
  obtain pre rest where U: "U = pre @ x # rest" "x \<notin> set pre" using split_list_first [OF x(1)] by blast
  have "x \<notin> set (pre @ rest)" using ok U by (auto simp: heap_ok_def heap_lists_def)
  moreover have "\<forall>y \<in> set pre. b_addr (blk hp y) \<noteq> a"
  proof
    fix y assume "y \<in> set pre"
    then show "b_addr (blk hp y) \<noteq> a" using used_addr_inj [OF ok x(1), of y] x(2) U by fastforce
  qed
  ultimately obtain h F' R' where h: "free_mem a hp = Some (h, True)" "heap_ok B k h F' (pre @ rest) R'"
    "\<And>y. y \<in> set (pre @ rest) \<Longrightarrow> iv h y = iv hp y"
    "iv_union (map (iv h) F') = iv_union (map (iv hp) F) \<union> iv_set (iv hp x)"
    using free_block_ok [OF ok [unfolded U(1)] x(2)] by blast
  have r: "remove1 x U = pre @ rest" using U by (simp add: remove1_append)
  have q: "set U - {x} = set (pre @ rest)" using U \<open>x \<notin> set (pre @ rest)\<close> by auto
  show "\<exists>h F' R'. free_mem a hp = Some (h, True) \<and> heap_ok B k h F' (remove1 x U) R' \<and>
         iv_union (map (iv h) F') = iv_union (map (iv hp) F) \<union> iv_set (iv hp x) \<and>
         (\<forall>y \<in> set U - {x}. iv h y = iv hp y)" unfolding r q
    by (intro exI conjI ballI) (rule h(1), rule h(2), rule h(4), rule h(3))
next
  assume "a \<notin> (\<lambda>x. b_addr (blk hp x)) ` set U"
  then show "free_mem a hp = Some (hp, False)"
    using ok by (intro free_mem_unused [of hp F U R]) (auto simp: heap_ok_def)
qed

section \<open>Sequences of calls\<close>

lemma chain_upt: "(\<And>i. i < n \<Longrightarrow> b_next (b i) = (if i + 1 < n then Some (i + 1) else None)) \<Longrightarrow> chain b [j..<n]"
proof (induction "n - j" arbitrary: j)
  case (Suc d)
  then have j: "j < n" by simp
  have "chain b [Suc j..<n]" using Suc by (intro Suc.hyps) auto
  moreover have "b_next (b j) = hdp [Suc j..<n]" using Suc.prems [of j] j by (cases "Suc j < n") (auto simp: upt_conv_Cons)
  ultimately show ?case using j by (simp add: upt_conv_Cons chain_Cons)
qed simp

lemma malloc_init_ok:
  assumes "heap_blocks \<noteq> 0" "unat base + 16 + 12 * heap_blocks = B" "B \<le> unat limit" "2 ^ k dvd B" "k < 32"
    "split_thresh \<noteq> 0"
  shows "heap_ok B k (malloc_init base limit heap_blocks split_thresh (2 ^ k) old) [] [] [0..<heap_blocks]"
proof -
  let ?hp = "malloc_init base limit heap_blocks split_thresh (2 ^ k) old"
  have "B < 2 ^ 32" using le_less_trans [OF assms(3) unat_less_exp(3)] by simp
  then have "unat (of_nat B :: u32) = B" by (simp add: of_nat_inverse)
  moreover have "h_top ?hp = of_nat B" using assms(2) [symmetric] by (simp add: malloc_init_def)
  moreover have "chain (blk ?hp) [0..<heap_blocks]" by (rule chain_upt) (simp add: malloc_init_def)
  moreover have "hdp [0..<heap_blocks] = Some 0" using assms(1) by (simp add: upt_conv_Cons)
  ultimately show ?thesis using assms
    by (simp add: heap_ok_def heap_lists_def ivs_ok_def used_ok_def used_union_def malloc_init_def)
qed

text \<open>Every heap that calls of \<open>malloc\<close> and \<open>free\<close>, in any order, make of a fresh one.\<close>

inductive heap_reachable :: "nat \<Rightarrow> nat \<Rightarrow> heap \<Rightarrow> bool" for B k where
  Init: "heap_reachable B k (malloc_init base limit heap_blocks split_thresh (2 ^ k) old)"
    if "heap_blocks \<noteq> 0" "unat base + 16 + 12 * heap_blocks = B" "B \<le> unat limit" "2 ^ k dvd B" "k < 32" "split_thresh \<noteq> 0"
| Malloc: "heap_reachable B k h" if "heap_reachable B k hp" "size_fits k hp n" "malloc n hp = Some (h, r)"
| Free: "heap_reachable B k h" if "heap_reachable B k hp" "free_mem a hp = Some (h, r)"

lemma malloc_heap_ok:
  assumes "heap_ok B k hp F U R" "size_fits k hp n" "malloc n hp = Some (h, r)"
  shows "\<exists>F' U' R'. heap_ok B k h F' U' R'"
  using alloc_block_ok [OF assms(1,2)] assms(1,3) by (auto simp: malloc_def) blast+

lemma free_heap_ok:
  assumes ok: "heap_ok B k hp F U R" and "free_mem a hp = Some (h, r)"
  shows "\<exists>F' U' R'. heap_ok B k h F' U' R'"
proof (cases "\<exists>x \<in> set U. b_addr (blk hp x) = a")
  case True
  then obtain pre x rest where U: "U = pre @ x # rest" "b_addr (blk hp x) = a" "\<forall>y \<in> set pre. b_addr (blk hp y) \<noteq> a"
    using split_list_first_prop [of U "\<lambda>x. b_addr (blk hp x) = a"] by blast
  show ?thesis using free_block_ok [OF ok [unfolded U(1)] U(2,3)] assms(2) by (metis option.inject prod.inject)
next
  case False
  then show ?thesis using free_mem_unused [of hp F U R a] ok assms(2) by (auto simp: heap_ok_def)
qed

lemma heap_reachable_ok: "heap_reachable B k hp \<Longrightarrow> \<exists>F U R. heap_ok B k hp F U R"
proof (induction rule: heap_reachable.induct)
  case Init
  then show ?case using malloc_init_ok by blast
next
  case Malloc
  then show ?case using malloc_heap_ok by blast
next
  case Free
  then show ?case using free_heap_ok by blast
qed

lemma count_blocks_chain: "chain b xs \<Longrightarrow> count_blocks b (hdp xs) = Some (length xs)"
proof (induction xs)
  case Nil
  then show ?case by (simp add: count_blocks.simps)
next
  case (Cons x xs)
  then show ?case by (subst count_blocks.simps) (simp add: chain_Cons)
qed

text \<open>However \<open>malloc\<close> and \<open>free\<close> are called, the self-test \<open>malloc_check\<close> never fails, the blocks in use and the free
  blocks never overlap, and both calls return (they do not run into a broken list).\<close>

theorem malloc_never_corrupts:
  assumes "heap_reachable B k hp"
  shows "malloc_check hp = Some True \<and> (\<exists>F U R. heap_ok B k hp F U R) \<and>
    (\<forall>n. size_fits k hp n \<longrightarrow> malloc n hp \<noteq> None) \<and> (\<forall>a. free_mem a hp \<noteq> None)"
proof -
  obtain F U R where ok: "heap_ok B k hp F U R" using heap_reachable_ok [OF assms] by blast
  then have "malloc_num_free hp = Some (length F)" "malloc_num_used hp = Some (length U)"
    "malloc_num_fresh hp = Some (length R)" "heap_max_blocks hp = length F + length U + length R"
    using count_blocks_chain
    by (auto simp: malloc_num_free_def malloc_num_used_def malloc_num_fresh_def heap_ok_def heap_lists_def)
  then have "malloc_check hp = Some True" by (simp add: malloc_check_def)
  moreover have "malloc n hp \<noteq> None" if "size_fits k hp n" for n
    using alloc_block_ok [OF ok that] by (auto simp: malloc_def)
  moreover have "free_mem a hp \<noteq> None" for a
  proof (cases "\<exists>x \<in> set U. b_addr (blk hp x) = a")
    case True
    then obtain pre x rest where U: "U = pre @ x # rest" "b_addr (blk hp x) = a" "\<forall>y \<in> set pre. b_addr (blk hp y) \<noteq> a"
      using split_list_first_prop [of U "\<lambda>x. b_addr (blk hp x) = a"] by blast
    show ?thesis using free_block_ok [OF ok [unfolded U(1)] U(2,3)] by (metis option.distinct(1))
  next
    case False
    then show ?thesis using free_mem_unused [of hp F U R a] ok by (auto simp: heap_ok_def)
  qed
  ultimately show ?thesis using ok by blast
qed

section \<open>calloc\<close>

lemma clear_words_eq: "clear_words p k m = wr_bytes m p (replicate (4 * k) 0)"
proof (induction k arbitrary: p m)
  case (Suc k)
  have "replicate (4 * Suc k) (0::u8) = [0, 0, 0, 0] @ replicate (4 * k) 0" by (simp add: numeral_eq_Suc)
  moreover have "length [0, 0, 0, 0 :: u8] = 4" by simp
  ultimately show ?case unfolding clear_words.simps Suc wr_bytes_append by (simp only: wr_bytes_append)
qed simp

lemma clear_bytes_eq: "clear_bytes p k m = wr_bytes m p (replicate k 0)"
  by (induction k arbitrary: p m) simp_all

lemma memclear_eq: "memclear p num m = wr_bytes m p (replicate (unat num) 0)"
proof -
  have w: "unat ((num AND (- 4)) div 4) = unat num div 4"
    using and_minus_pow2 [of 2 num] by (simp add: unat_div_distrib)
  have "num AND 3 = take_bit 2 num" by (simp add: take_bit_eq_mask mask_eq_exp_minus_1)
  then have b: "unat (num AND 3) = unat num mod 4" by (simp add: take_bit_eq_mod unat_mod_distrib)
  have "replicate (unat num) (0::u8) = replicate (4 * (unat num div 4)) 0 @ replicate (unat num mod 4) 0"
    by (simp flip: replicate_add)
  then show ?thesis by (simp add: memclear_def Let_def w b clear_words_eq clear_bytes_eq wr_bytes_append)
qed

text \<open>\<open>calloc\<close> returns what \<open>malloc\<close> of the product returns, and the memory of the block is zero: exactly
  its bytes have been cleared.\<close>

theorem calloc_correct:
  assumes "heap_ok B k hp F U R" "size_fits k hp (n * sz)"
  shows "\<exists>h r. malloc (n * sz) hp = Some (h, r) \<and>
    calloc n sz hp m = Some (h, (case r of None \<Rightarrow> m | Some a \<Rightarrow> wr_bytes m (unat a) (replicate (unat (n * sz)) 0)), r)"
  using alloc_block_ok [OF assms] by (auto simp: calloc_def malloc_def memclear_eq Let_def)

text \<open>A request close to the largest size is rounded up to zero: for an alignment of four bytes,
  \<open>malloc\<close> of 0xFFFFFFFF bytes succeeds, with a block of no bytes.\<close>

theorem malloc_huge_request:
  assumes "heap_alignment hp = 4" "h_free hp = None" "h_fresh hp = Some p" "h_top hp \<le> heap_limit hp"
  shows "\<exists>h. malloc 0xFFFFFFFF hp = Some (h, Some (h_top hp)) \<and> b_size (blk h p) = 0 \<and> h_top h = h_top hp"
proof -
  have "round_up 4 0xFFFFFFFF = 0" by (simp add: round_up_def)
  then show ?thesis using assms
    by (auto simp: malloc_def alloc_block_def fit_scan.simps Let_def blk_set)
qed

section \<open>A small heap\<close>

definition demo_heap :: heap where
  "demo_heap = malloc_init 0x1000 0x2000 4 8 (2 ^ 2) (\<lambda>_. \<lparr>b_addr = 0, b_next = None, b_size = 0\<rparr>)"

lemma demo_heap_ok: "heap_ok 0x1040 2 demo_heap [] [] [0..<4]"
  unfolding demo_heap_def by (rule malloc_init_ok) simp_all

lemma demo_size: "size_fits 2 demo_heap 10"
  by (simp add: size_fits_def demo_heap_def malloc_init_def)

theorem malloc_witness: "\<exists>h a. malloc 10 demo_heap = Some (h, Some a) \<and> 4 dvd unat a \<and> unat a + 10 \<le> 0x2000"
proof -
  have r: "round_up (heap_alignment demo_heap) 10 = 12" "h_top demo_heap = 0x1040" "heap_limit demo_heap = 0x2000"
    by (simp_all add: demo_heap_def malloc_init_def round_up_def)
  from malloc_correct [OF demo_heap_ok demo_size] show ?thesis
    unfolding r by (auto simp: malloc_def)
qed

lemma demo_alloc:
  obtains h p F' R' where "alloc_block 10 demo_heap = Some (h, Some p)" "heap_ok 0x1040 2 h F' [p] R'"
proof -
  have r: "round_up (heap_alignment demo_heap) 10 = 12" "h_top demo_heap = 0x1040" "heap_limit demo_heap = 0x2000"
    by (simp_all add: demo_heap_def malloc_init_def round_up_def)
  show thesis using alloc_block_ok [OF demo_heap_ok demo_size] that unfolding r by auto
qed

theorem free_witness: "\<exists>h a h'. malloc 10 demo_heap = Some (h, Some a) \<and> free_mem a h = Some (h', True)"
proof -
  obtain h p F' R' where h: "alloc_block 10 demo_heap = Some (h, Some p)" "heap_ok 0x1040 2 h F' [p] R'" by (rule demo_alloc)
  have "malloc 10 demo_heap = Some (h, Some (b_addr (blk h p)))" using h(1) by (simp add: malloc_def)
  then show ?thesis using free_correct [OF h(2), of "b_addr (blk h p)"] by auto
qed

lemma demo_reachable: "heap_reachable 0x1040 2 demo_heap"
  unfolding demo_heap_def by (rule heap_reachable.Init) simp_all

theorem malloc_never_corrupts_witness: "\<exists>h r. malloc 10 demo_heap = Some (h, r) \<and> malloc_check h = Some True"
proof -
  obtain h p where h: "malloc 10 demo_heap = Some (h, Some (b_addr (blk h p)))"
    using demo_alloc by (metis (mono_tags, lifting) malloc_def option.simps(9) case_prod_conv)
  have "heap_reachable 0x1040 2 h" by (rule heap_reachable.Malloc [OF demo_reachable demo_size h])
  then show ?thesis using malloc_never_corrupts [of "0x1040" 2 h] h by blast
qed

theorem calloc_witness: "\<exists>h a. calloc 5 2 demo_heap (\<lambda>_. 0xAA) = Some (h, wr_bytes (\<lambda>_. 0xAA) (unat a) (replicate 10 0), Some a)"
proof -
  obtain h p where h: "malloc 10 demo_heap = Some (h, Some (b_addr (blk h p)))"
    using demo_alloc by (metis (mono_tags, lifting) malloc_def option.simps(9) case_prod_conv)
  then show ?thesis using calloc_correct [OF demo_heap_ok, of 5 2 "\<lambda>_. 0xAA"] demo_size by auto
qed

theorem malloc_huge_witness: "\<exists>h. malloc 0xFFFFFFFF demo_heap = Some (h, Some 0x1040)"
  using malloc_huge_request [of demo_heap 0] by (auto simp: demo_heap_def malloc_init_def)

end
