(* ===== verification/Vga_Frame.thy ===== *)
theory Vga_Frame
  imports Orion_Prelude "HOL-Library.Monad_Syntax" "HOL-Library.Signed_Division"
begin

text \<open>
  The video card (\<open>peripheral/pico2VGA\<close>): its frame buffer of two pixels a byte, and the drawing primitives of
  \<open>vga_primitives.c\<close> and \<open>vga_graphos.c\<close>. A C \<open>int\<close> is an integer here, for none of the values comes near 2^31; what is
  stored in a \<open>short\<close> goes through \<open>short\<close>, which wraps. \<open>char\<close> is unsigned on this processor. The buffer is a function of the
  index, so that a store in front of it or behind it is seen. A loop whose counter is a \<open>short\<close> can run for ever (\<open>None\<close>).
\<close>

section \<open>Definitions\<close>

definition short :: "int \<Rightarrow> int" where "short n = signed_take_bit 15 n"
definition ushort :: "int \<Rightarrow> int" where "ushort n = take_bit 16 n"

record font =
  f_width :: int
  f_height :: int
  f_size :: int
  f_data :: "nat \<Rightarrow> u8"

text \<open>\<open>vga_text_private_t\<close>, with its cursor, the table \<open>font_5x7\<close> and the address of the frame buffer.\<close>

record vga =
  vg_width :: int
  vg_height :: int
  cur_x :: int
  cur_y :: int
  cur_visible :: bool
  cur_blink :: bool
  cur_blink_interval :: u16
  cur_shape :: u8
  video_mode :: u8
  vg_font :: font
  textcolor :: u8
  textbgcolor :: u8
  txcount :: nat
  topmask :: u16
  bottommask :: u16
  tabspace :: int
  vg_data :: "int \<Rightarrow> u8"
  small_font :: "nat \<Rightarrow> u8"
  vg_base :: int

text \<open>\<open>memset\<close> on the buffer.\<close>

definition fset :: "(int \<Rightarrow> u8) \<Rightarrow> int \<Rightarrow> int \<Rightarrow> u8 \<Rightarrow> int \<Rightarrow> u8" where
  "fset f i n b = (\<lambda>j. if i \<le> j \<and> j < i + n then b else f j)"

definition drawPixel :: "int \<Rightarrow> int \<Rightarrow> u8 \<Rightarrow> vga \<Rightarrow> vga" where
  "drawPixel x0 y0 color v =
     (let x = short x0; y = short y0 in
      if x > vg_width v - 1 \<or> x < 0 \<or> y > vg_height v - 1 \<or> y < 0 then v
      else let pixel = vg_width v * y + x; b = (ucast (vg_data v (pixel div 2)) :: u32) in
        if odd pixel then
          v\<lparr>vg_data := (vg_data v)(pixel div 2 := ucast ((b AND ucast (topmask v)) OR push_bit 4 (ucast color)))\<rparr>
        else v\<lparr>vg_data := (vg_data v)(pixel div 2 := ucast ((b AND ucast (bottommask v)) OR ucast color))\<rparr>)"

definition readPixel :: "int \<Rightarrow> int \<Rightarrow> vga \<Rightarrow> u8" where
  "readPixel x0 y0 v =
     (let pixel = 640 * short y0 + short x0; b = vg_data v (pixel div 2) in if odd pixel then drop_bit 4 b else b AND 0xF)"

partial_function (option) drawVLine_loop :: "int \<Rightarrow> int \<Rightarrow> int \<Rightarrow> u8 \<Rightarrow> vga \<Rightarrow> vga option" where
  "drawVLine_loop x i end color v =
     (if i < end then drawVLine_loop x (short (i + 1)) end color (drawPixel x i color v) else Some v)"

declare drawVLine_loop.simps [code]

definition drawVLine :: "int \<Rightarrow> int \<Rightarrow> int \<Rightarrow> u8 \<Rightarrow> vga \<Rightarrow> vga option" where
  "drawVLine x y h color v = drawVLine_loop (short x) (short y) (short y + short h) color v"

definition drawHLine :: "int \<Rightarrow> int \<Rightarrow> int \<Rightarrow> u8 \<Rightarrow> vga \<Rightarrow> vga" where
  "drawHLine x y w color v =
     (if x \<ge> vg_width v \<or> y \<ge> vg_height v then v
      else
        let w = (if x + w - 1 \<ge> vg_width v then vg_width v - x - 1 else w);
            both_color = color OR push_bit 4 color;
            (x, w, v) = (if odd x then (x + 1, w - 1, drawPixel x y color v) else (x, w, v));
            (w, v) = (if odd w then (w - 1, drawPixel (x + w - 1) y color v) else (w, v));
            len = w div 2
        in if len > 0 \<and> y < 480 then v\<lparr>vg_data := fset (vg_data v) (320 * y + x div 2) len both_color\<rparr> else v)"

text \<open>The error term decides whether the line goes on to the next row; a steep line is drawn with the axes swapped.\<close>

partial_function (option) drawLine_loop :: "bool \<Rightarrow> int \<Rightarrow> int \<Rightarrow> int \<Rightarrow> int \<Rightarrow> int \<Rightarrow> int \<Rightarrow> int \<Rightarrow> u8 \<Rightarrow> vga \<Rightarrow> vga option" where
  "drawLine_loop steep x0 y0 x1 dx dy err ystep color v =
     (if x0 \<le> x1 then
        (let v = (if steep then drawPixel y0 x0 color v else drawPixel x0 y0 color v);
             err = short (err - dy);
             (y0, err) = (if err < 0 then (short (y0 + ystep), short (err + dx)) else (y0, err))
         in drawLine_loop steep (short (x0 + 1)) y0 x1 dx dy err ystep color v)
      else Some v)"

declare drawLine_loop.simps [code]

definition drawLine :: "int \<Rightarrow> int \<Rightarrow> int \<Rightarrow> int \<Rightarrow> u8 \<Rightarrow> vga \<Rightarrow> vga option" where
  "drawLine x0 y0 x1 y1 color v =
     (let x0 = short x0; y0 = short y0; x1 = short x1; y1 = short y1;
          steep = \<bar>y1 - y0\<bar> > \<bar>x1 - x0\<bar>;
          (x0, y0) = (if steep then (y0, x0) else (x0, y0));
          (x1, y1) = (if steep then (y1, x1) else (x1, y1));
          (x0, x1, y0, y1) = (if x0 > x1 then (x1, x0, y1, y0) else (x0, x1, y0, y1));
          dx = short (x1 - x0);
          dy = short \<bar>y1 - y0\<bar>;
          err = short (dx sdiv 2);
          ystep = (if y0 < y1 then 1 else - 1)
      in drawLine_loop steep x0 y0 x1 dx dy err ystep color v)"

text \<open>One round of the loop of the circles: the next point of an octant.\<close>

definition circle_step :: "int \<times> int \<times> int \<times> int \<times> int \<Rightarrow> int \<times> int \<times> int \<times> int \<times> int" where
  "circle_step = (\<lambda>(f, ddF_x, ddF_y, x, y).
     let (y, ddF_y, f) = (if f \<ge> 0 then (short (y - 1), short (ddF_y + 2), short (f + short (ddF_y + 2))) else (y, ddF_y, f));
         x = short (x + 1);
         ddF_x = short (ddF_x + 2);
         f = short (f + ddF_x)
     in (f, ddF_x, ddF_y, x, y))"

definition circle_start :: "int \<Rightarrow> int \<times> int \<times> int \<times> int \<times> int" where
  "circle_start r = (short (1 - r), 1, short (- 2 * r), 0, r)"

definition circle_points :: "int \<Rightarrow> int \<Rightarrow> int \<Rightarrow> int \<Rightarrow> u8 \<Rightarrow> vga \<Rightarrow> vga" where
  "circle_points x0 y0 x y color v =
     (let v = drawPixel (x0 + x) (y0 + y) color v;
          v = drawPixel (x0 - x) (y0 + y) color v;
          v = drawPixel (x0 + x) (y0 - y) color v;
          v = drawPixel (x0 - x) (y0 - y) color v;
          v = drawPixel (x0 + y) (y0 + x) color v;
          v = drawPixel (x0 - y) (y0 + x) color v;
          v = drawPixel (x0 + y) (y0 - x) color v
      in drawPixel (x0 - y) (y0 - x) color v)"

partial_function (option) drawCircle_loop :: "int \<Rightarrow> int \<Rightarrow> u8 \<Rightarrow> int \<times> int \<times> int \<times> int \<times> int \<Rightarrow> vga \<Rightarrow> vga option" where
  "drawCircle_loop x0 y0 color c v =
     (case c of (f, ddF_x, ddF_y, x, y) \<Rightarrow>
        if x < y then
          (case circle_step c of (f, ddF_x, ddF_y, x, y) \<Rightarrow>
             drawCircle_loop x0 y0 color (f, ddF_x, ddF_y, x, y) (circle_points x0 y0 x y color v))
        else Some v)"

declare drawCircle_loop.simps [code]

definition drawCircle :: "int \<Rightarrow> int \<Rightarrow> int \<Rightarrow> u8 \<Rightarrow> vga \<Rightarrow> vga option" where
  "drawCircle x0 y0 r color v =
     (let x0 = short x0; y0 = short y0; r = short r;
          v = drawPixel x0 (y0 + r) color v;
          v = drawPixel x0 (y0 - r) color v;
          v = drawPixel (x0 + r) y0 color v;
          v = drawPixel (x0 - r) y0 color v
      in drawCircle_loop x0 y0 color (circle_start r) v)"

definition helper_points :: "int \<Rightarrow> int \<Rightarrow> int \<Rightarrow> int \<Rightarrow> u8 \<Rightarrow> u8 \<Rightarrow> vga \<Rightarrow> vga" where
  "helper_points x0 y0 x y cornername color v =
     (let v = (if cornername AND 0x4 \<noteq> 0 then drawPixel (x0 + y) (y0 + x) color (drawPixel (x0 + x) (y0 + y) color v) else v);
          v = (if cornername AND 0x2 \<noteq> 0 then drawPixel (x0 + y) (y0 - x) color (drawPixel (x0 + x) (y0 - y) color v) else v);
          v = (if cornername AND 0x8 \<noteq> 0 then drawPixel (x0 - x) (y0 + y) color (drawPixel (x0 - y) (y0 + x) color v) else v)
      in if cornername AND 0x1 \<noteq> 0 then drawPixel (x0 - x) (y0 - y) color (drawPixel (x0 - y) (y0 - x) color v) else v)"

partial_function (option) drawCircleHelper_loop :: "int \<Rightarrow> int \<Rightarrow> u8 \<Rightarrow> u8 \<Rightarrow> int \<times> int \<times> int \<times> int \<times> int \<Rightarrow> vga \<Rightarrow> vga option" where
  "drawCircleHelper_loop x0 y0 cornername color c v =
     (case c of (f, ddF_x, ddF_y, x, y) \<Rightarrow>
        if x < y then
          (case circle_step c of (f, ddF_x, ddF_y, x, y) \<Rightarrow>
             drawCircleHelper_loop x0 y0 cornername color (f, ddF_x, ddF_y, x, y) (helper_points x0 y0 x y cornername color v))
        else Some v)"

declare drawCircleHelper_loop.simps [code]

definition drawCircleHelper :: "int \<Rightarrow> int \<Rightarrow> int \<Rightarrow> u8 \<Rightarrow> u8 \<Rightarrow> vga \<Rightarrow> vga option" where
  "drawCircleHelper x0 y0 r cornername color v =
     drawCircleHelper_loop (short x0) (short y0) cornername color (circle_start (short r)) v"

text \<open>\<open>sqrt_i32\<close>: two bits of the radicand at a time.\<close>

function sqrt_shrink :: "u32 \<Rightarrow> u32 \<Rightarrow> u32" where
  "sqrt_shrink b r = (if b > r then sqrt_shrink (drop_bit 2 b) r else b)"
  by auto

function sqrt_bits :: "u32 \<Rightarrow> u32 \<Rightarrow> u32 \<Rightarrow> u32" where
  "sqrt_bits b q r =
     (if b > 0 then
        (let t = q + b; q = drop_bit 1 q in
         if r \<ge> t then sqrt_bits (drop_bit 2 b) (q + b) (r - t) else sqrt_bits (drop_bit 2 b) q r)
      else q)"
  by auto

definition sqrt_i32 :: "u32 \<Rightarrow> u32" where
  "sqrt_i32 v = sqrt_bits (sqrt_shrink (push_bit 30 1) v) 0 v"

lemma drop_bit_2_less: "0 < (b :: u32) \<Longrightarrow> unat (drop_bit 2 b) < unat b"
  by (simp add: word_less_nat_alt drop_bit_eq_div unat_div)

termination sqrt_shrink
  by (relation "measure (\<lambda>(b, r). unat b)") (auto intro!: drop_bit_2_less simp: word_less_nat_alt)

termination sqrt_bits
  by (relation "measure (\<lambda>(b, q, r). unat b)") (auto intro!: drop_bit_2_less)

declare sqrt_shrink.simps [simp del] sqrt_bits.simps [simp del]

text \<open>\<open>for (i = 0; i <= r; i++)\<close>: \<open>n\<close> rounds from \<open>i\<close>.\<close>

fun fillCircle_loop :: "nat \<Rightarrow> int \<Rightarrow> int \<Rightarrow> int \<Rightarrow> int \<Rightarrow> u8 \<Rightarrow> vga \<Rightarrow> vga" where
  "fillCircle_loop 0 i x0 y0 r2 color v = v"
| "fillCircle_loop (Suc n) i x0 y0 r2 color v =
     (let dx = uint (sqrt_i32 (word_of_int (r2 - i * i)));
          v = drawHLine (x0 - dx) (y0 + i) (2 * dx) color v;
          v = drawHLine (x0 - dx) (y0 - i) (2 * dx) color v
      in fillCircle_loop n (i + 1) x0 y0 r2 color v)"

definition fillCircle :: "int \<Rightarrow> int \<Rightarrow> int \<Rightarrow> u8 \<Rightarrow> vga \<Rightarrow> vga" where
  "fillCircle x0 y0 r color v =
     (let x0 = short x0; y0 = short y0; r = short r; r2 = r * r + r in
      if y0 - r < 0 \<or> y0 + r > 479 then v else fillCircle_loop (nat (r + 1)) 0 x0 y0 r2 color v)"

partial_function (option) fillCircleHelper_loop :: "int \<Rightarrow> int \<Rightarrow> u8 \<Rightarrow> int \<Rightarrow> u8 \<Rightarrow> int \<times> int \<times> int \<times> int \<times> int \<Rightarrow> vga \<Rightarrow> vga option" where
  "fillCircleHelper_loop x0 y0 cornername delta color c v =
     (case c of (f, ddF_x, ddF_y, x, y) \<Rightarrow>
        if x < y then
          (case circle_step c of (f, ddF_x, ddF_y, x, y) \<Rightarrow>
             do {
               v \<leftarrow> (if cornername AND 0x1 \<noteq> 0 then
                  do { v \<leftarrow> drawVLine (x0 + x) (y0 - y) (2 * y + 1 + delta) color v; drawVLine (x0 + y) (y0 - x) (2 * x + 1 + delta) color v }
                else Some v);
               v \<leftarrow> (if cornername AND 0x2 \<noteq> 0 then
                  do { v \<leftarrow> drawVLine (x0 - x) (y0 - y) (2 * y + 1 + delta) color v; drawVLine (x0 - y) (y0 - x) (2 * x + 1 + delta) color v }
                else Some v);
               fillCircleHelper_loop x0 y0 cornername delta color (f, ddF_x, ddF_y, x, y) v
             })
        else Some v)"

declare fillCircleHelper_loop.simps [code]

definition fillCircleHelper :: "int \<Rightarrow> int \<Rightarrow> int \<Rightarrow> u8 \<Rightarrow> int \<Rightarrow> u8 \<Rightarrow> vga \<Rightarrow> vga option" where
  "fillCircleHelper x0 y0 r cornername delta color v =
     fillCircleHelper_loop (short x0) (short y0) cornername (short delta) color (circle_start (short r)) v"

fun fillRect_loop :: "nat \<Rightarrow> int \<Rightarrow> int \<Rightarrow> int \<Rightarrow> u8 \<Rightarrow> vga \<Rightarrow> vga" where
  "fillRect_loop 0 x j w color v = v"
| "fillRect_loop (Suc n) x j w color v = fillRect_loop n x (j + 1) w color (drawHLine x j w color v)"

definition fillRect :: "int \<Rightarrow> int \<Rightarrow> int \<Rightarrow> int \<Rightarrow> u8 \<Rightarrow> vga \<Rightarrow> vga" where
  "fillRect x y w h color v =
     (let x = short x; y = short y; w = short w; h = short h in
      if x \<ge> vg_width v \<or> y \<ge> vg_height v then v else fillRect_loop (nat h) x y w color v)"

definition drawRoundRect :: "int \<Rightarrow> int \<Rightarrow> int \<Rightarrow> int \<Rightarrow> int \<Rightarrow> u8 \<Rightarrow> vga \<Rightarrow> vga option" where
  "drawRoundRect x y w h r color v =
     (let x = short x; y = short y; w = short w; h = short h; r = short r;
          v = drawHLine (x + r) y (w - 2 * r) color v;
          v = drawHLine (x + r) (y + h - 1) (w - 2 * r) color v
      in do {
        v \<leftarrow> drawVLine x (y + r) (h - 2 * r) color v;
        v \<leftarrow> drawVLine (x + w - 1) (y + r) (h - 2 * r) color v;
        v \<leftarrow> drawCircleHelper (x + r) (y + r) r 1 color v;
        v \<leftarrow> drawCircleHelper (x + w - r - 1) (y + r) r 2 color v;
        v \<leftarrow> drawCircleHelper (x + w - r - 1) (y + h - r - 1) r 4 color v;
        drawCircleHelper (x + r) (y + h - r - 1) r 8 color v
      })"

definition fillRoundRect :: "int \<Rightarrow> int \<Rightarrow> int \<Rightarrow> int \<Rightarrow> int \<Rightarrow> u8 \<Rightarrow> vga \<Rightarrow> vga" where
  "fillRoundRect x y w h r color v =
     (let x = short x; y = short y; w = short w; h = short h; r = short r;
          v = fillRect x (y + r) w (h - 2 * r) color v;
          v = fillRect (x + r) y (w - 2 * r) r color v;
          v = fillRect (x + r) (y + h - r) (w - 2 * r) r color v;
          v = fillCircle (x + w - r) (y + r) (r - 1) color v;
          v = fillCircle (x + r) (y + r) (r - 1) color v;
          v = fillCircle (x + w - r) (y + h - r) (r - 1) color v
      in fillCircle (x + r) (y + h - r) (r - 1) color v)"

fun drawMultiLine :: "(int \<times> int) list \<Rightarrow> u8 \<Rightarrow> vga \<Rightarrow> vga option" where
  "drawMultiLine (p # q # ps) color v =
     do { v \<leftarrow> drawLine (fst p) (snd p) (fst q) (snd q) color v; drawMultiLine (q # ps) color v }"
| "drawMultiLine ps color v = Some v"

section \<open>Pixels\<close>

lemma short_same: "- 32768 \<le> n \<Longrightarrow> n < 32768 \<Longrightarrow> short n = n"
  by (simp add: short_def signed_take_bit_int_eq_self)

lemma short_range: "- 32768 \<le> short n" "short n < 32768"
  using signed_take_bit_int_greater_eq_minus_exp [of 15 n] signed_take_bit_int_less_exp [of 15 n] by (simp_all add: short_def)

lemma short_short [simp]: "short (short n) = short n"
  by (simp add: short_same short_range)

definition pixel :: "vga \<Rightarrow> int \<Rightarrow> int \<Rightarrow> u8" where
  "pixel v x y = (let p = vg_width v * y + x; b = vg_data v (p div 2) in if odd p then drop_bit 4 b else b AND 0xF)"

text \<open>The masks and the size that \<open>create_screen\<close> sets.\<close>

definition screen_ok :: "vga \<Rightarrow> bool" where
  "screen_ok v \<longleftrightarrow> vg_width v = 640 \<and> vg_height v = 480 \<and> topmask v = 0xF \<and> bottommask v = 0xF0"

definition on_screen :: "int \<Rightarrow> int \<Rightarrow> bool" where
  "on_screen x y \<longleftrightarrow> 0 \<le> x \<and> x < 640 \<and> 0 \<le> y \<and> y < 480"

text \<open>\<open>paints v v'\<close>: only bytes of the buffer change. \<open>draws v v' P c\<close>: and just the pixels \<open>P\<close> of the screen get the colour \<open>c\<close>.\<close>

definition paints :: "vga \<Rightarrow> vga \<Rightarrow> bool" where
  "paints v v' \<longleftrightarrow> v' = v\<lparr>vg_data := vg_data v'\<rparr> \<and> (\<forall>j. j < 0 \<or> 153600 \<le> j \<longrightarrow> vg_data v' j = vg_data v j)"

definition draws :: "vga \<Rightarrow> vga \<Rightarrow> (int \<Rightarrow> int \<Rightarrow> bool) \<Rightarrow> u8 \<Rightarrow> bool" where
  "draws v v' P c \<longleftrightarrow> paints v v' \<and> (\<forall>x y. on_screen x y \<longrightarrow> pixel v' x y = (if P x y then c else pixel v x y))"

lemma paints_refl [simp]: "paints v v"
  by (simp add: paints_def)

lemma paints_trans: "paints u v \<Longrightarrow> paints v w \<Longrightarrow> paints u w"
  by (cases u, cases v, cases w) (simp add: paints_def)

lemma paints_sel:
  assumes "paints v v'"
  shows "vg_width v' = vg_width v" "vg_height v' = vg_height v" "topmask v' = topmask v" "bottommask v' = bottommask v"
    "screen_ok v' = screen_ok v" "cur_x v' = cur_x v" "cur_y v' = cur_y v" "vg_font v' = vg_font v" "textcolor v' = textcolor v"
    "textbgcolor v' = textbgcolor v" "tabspace v' = tabspace v" "cur_visible v' = cur_visible v" "cur_blink v' = cur_blink v"
    "cur_shape v' = cur_shape v" "txcount v' = txcount v" "small_font v' = small_font v" "vg_base v' = vg_base v"
  using assms by (cases v, cases v', simp add: paints_def screen_ok_def)+

lemma draws_paints: "draws v v' P c \<Longrightarrow> paints v v'"
  by (simp add: draws_def)

lemma draws_none [simp]: "draws v v (\<lambda>_ _. False) c"
  by (simp add: draws_def)

lemma draws_trans: "draws u v P c \<Longrightarrow> draws v w Q c \<Longrightarrow> draws u w (\<lambda>x y. P x y \<or> Q x y) c"
  unfolding draws_def using paints_trans by fastforce

lemma draws_cong: "draws v v' P c \<Longrightarrow> (\<And>x y. on_screen x y \<Longrightarrow> P x y = Q x y) \<Longrightarrow> draws v v' Q c"
  by (simp add: draws_def)

text \<open>A byte holds two pixels.\<close>

lemma nibbles:
  fixes b c :: u8
  assumes "c < 16"
  shows "drop_bit 4 (ucast ((ucast b AND ucast (0xF :: u16)) OR push_bit 4 (ucast c :: u32)) :: u8) = c"
    "(ucast ((ucast b AND ucast (0xF :: u16)) OR push_bit 4 (ucast c :: u32)) :: u8) AND 0xF = b AND 0xF"
    "drop_bit 4 (ucast ((ucast b AND ucast (0xF0 :: u16)) OR (ucast c :: u32)) :: u8) = drop_bit 4 b"
    "(ucast ((ucast b AND ucast (0xF0 :: u16)) OR (ucast c :: u32)) :: u8) AND 0xF = c"
    "drop_bit 4 (c OR push_bit 4 c) = c" "(c OR push_bit 4 c) AND 0xF = c"
proof -
  have "unat c < 2 ^ 4" using assms by (simp add: word_less_nat_alt)
  then have c: "take_bit 4 c = c" by (simp add: word_unat_eq_iff unsigned_take_bit_eq take_bit_nat_eq_self)
  then have n: "i < 4" if "bit c i" for i using that by (metis bit_take_bit_iff)
  have m: "(0xF :: u16) = Bit_Operations.mask 4" "(0xF :: u8) = Bit_Operations.mask 4" "(0xF0 :: u16) = push_bit 4 (Bit_Operations.mask 4)"
    by (simp_all add: mask_eq_exp_minus_1 push_bit_eq_mult)
  show "drop_bit 4 (ucast ((ucast b AND ucast (0xF :: u16)) OR push_bit 4 (ucast c :: u32)) :: u8) = c"
    unfolding m by (rule bit_eqI) (auto simp: bit_simps dest: n)
  show "(ucast ((ucast b AND ucast (0xF :: u16)) OR push_bit 4 (ucast c :: u32)) :: u8) AND 0xF = b AND 0xF"
    unfolding m by (rule bit_eqI) (auto simp: bit_simps)
  show "drop_bit 4 (ucast ((ucast b AND ucast (0xF0 :: u16)) OR (ucast c :: u32)) :: u8) = drop_bit 4 b"
    unfolding m by (rule bit_eqI) (auto simp: bit_simps dest: n bit_imp_le_length)
  show "(ucast ((ucast b AND ucast (0xF0 :: u16)) OR (ucast c :: u32)) :: u8) AND 0xF = c"
    unfolding m by (rule bit_eqI) (auto simp: bit_simps dest: n)
  show "drop_bit 4 (c OR push_bit 4 c) = c" by (rule bit_eqI) (auto simp: bit_simps dest: n)
  show "(c OR push_bit 4 c) AND 0xF = c" unfolding m by (rule bit_eqI) (auto simp: bit_simps dest: n)
qed

lemma parity_cases: "(q :: int) = p \<or> q div 2 = p div 2 \<and> (odd q \<longleftrightarrow> even p) \<or> q div 2 \<noteq> p div 2"
  by presburger

lemma pixel_640: "vg_width v = 640 \<Longrightarrow>
    pixel v x y = (if odd (640 * y + x) then drop_bit 4 (vg_data v ((640 * y + x) div 2)) else vg_data v ((640 * y + x) div 2) AND 0xF)"
  by (simp add: pixel_def Let_def)

text \<open>Two points of the screen share a position in the buffer only when they are the same.\<close>

lemma position_inj:
  fixes x y x' y' :: int
  assumes "on_screen x y" "on_screen x' y'"
  shows "640 * y + x = 640 * y' + x' \<longleftrightarrow> x = x' \<and> y = y'"
proof -
  have "(640 * y + x) mod 640 = x" "(640 * y' + x') mod 640 = x'" using assms by (simp_all add: on_screen_def)
  then have "x = x'" if "640 * y + x = 640 * y' + x'" using that by simp
  then show ?thesis by auto
qed

lemma position_range: "on_screen x y \<Longrightarrow> 0 \<le> (640 * y + x) div 2 \<and> (640 * y + x) div 2 < 153600"
  by (auto simp: on_screen_def)

lemma drawPixel_draws:
  assumes "screen_ok v" "c < 16"
  shows "draws v (drawPixel x y c v) (\<lambda>x' y'. x' = short x \<and> y' = short y) c"
proof (cases "on_screen (short x) (short y)")
  case False
  then have "drawPixel x y c v = v" using assms(1) by (auto simp: drawPixel_def on_screen_def screen_ok_def)
  then show ?thesis using False by (auto simp: draws_def)
next
  case True
  let ?x = "short x" and ?y = "short y" and ?v = "drawPixel x y c v"
  define p where "p = 640 * short y + short x"
  define b where "b = (if odd p then ucast ((ucast (vg_data v (p div 2)) AND ucast (0xF :: u16)) OR push_bit 4 (ucast c :: u32)) :: u8
    else ucast ((ucast (vg_data v (p div 2)) AND ucast (0xF0 :: u16)) OR (ucast c :: u32)))"
  have v': "?v = v\<lparr>vg_data := (vg_data v)(p div 2 := b)\<rparr>"
    using True assms(1) by (auto simp: drawPixel_def on_screen_def screen_ok_def p_def b_def Let_def)
  have "paints v ?v" using position_range [OF True] unfolding v' paints_def p_def by (auto simp: fun_upd_apply)
  moreover have "pixel ?v x' y' = (if x' = ?x \<and> y' = ?y then c else pixel v x' y')" if "on_screen x' y'" for x' y'
  proof -
    let ?q = "640 * y' + x'"
    have same: "x' = ?x \<and> y' = ?y \<longleftrightarrow> ?q = p" using position_inj [OF that True] by (auto simp: p_def)
    have pix: "pixel w x' y' = (if odd ?q then drop_bit 4 (vg_data w (?q div 2)) else vg_data w (?q div 2) AND 0xF)"
      if "vg_width w = 640" for w using that by (simp add: pixel_def Let_def)
    have w: "vg_width v = 640" "vg_width ?v = 640" using assms(1) by (simp_all add: screen_ok_def v')
    consider "?q = p" | "?q \<noteq> p" "?q div 2 = p div 2" "odd ?q \<longleftrightarrow> even p" | "?q div 2 \<noteq> p div 2"
      using parity_cases [of ?q p] by blast
    then show ?thesis
    proof cases
      case 1
      then show ?thesis unfolding same pix [OF w(1)] pix [OF w(2)] using nibbles(1,4) [OF assms(2)] by (simp add: v' b_def)
    next
      case 2
      then show ?thesis unfolding same pix [OF w(1)] pix [OF w(2)] using nibbles(2,3) [OF assms(2)] by (simp add: v' b_def)
    next
      case 3
      then show ?thesis unfolding same pix [OF w(1)] pix [OF w(2)] by (auto simp: v')
    qed
  qed
  ultimately show ?thesis by (simp add: draws_def)
qed

text \<open>Whatever the colour, a pixel stays inside the buffer.\<close>

lemma drawPixel_paints: "screen_ok v \<Longrightarrow> paints v (drawPixel x y c v)"
  using position_range [of "short x" "short y"]
  by (auto simp: drawPixel_def paints_def Let_def screen_ok_def on_screen_def fun_upd_apply)

section \<open>Lines along the axes, and rectangles\<close>

lemma byte_index: "(640 * y + x) div 2 = 320 * y + x div 2" for x y :: int
  by simp

lemma row_range:
  fixes X len x y x' y' :: int
  assumes "even X" "0 \<le> X" "X + 2 * len \<le> 640" "on_screen x' y'"
  shows "320 * y + X div 2 \<le> 320 * y' + x' div 2 \<and> 320 * y' + x' div 2 < 320 * y + X div 2 + len \<longleftrightarrow> y' = y \<and> X \<le> x' \<and> x' < X + 2 * len"
proof -
  obtain h where X: "X = 2 * h" using assms(1) by (elim evenE)
  have b: "0 \<le> x' div 2" "x' div 2 < 320" "0 \<le> h" "h + len \<le> 320" using assms by (auto simp: on_screen_def X)
  have "h \<le> x' div 2 \<longleftrightarrow> X \<le> x'" "x' div 2 < h + len \<longleftrightarrow> x' < X + 2 * len" unfolding X by presburger+
  moreover have "320 * y + h \<le> 320 * y' + x' div 2 \<and> 320 * y' + x' div 2 < 320 * y + h + len \<longleftrightarrow>
      y' = y \<and> h \<le> x' div 2 \<and> x' div 2 < h + len"
    using b by (cases "y' = y"; cases "y' < y") auto
  ultimately show ?thesis by (simp add: X)
qed

lemma fset_draws:
  assumes "screen_ok v" "c < 16" "even X" "0 \<le> X" "X + 2 * len \<le> 640" "0 \<le> y" "y < 480"
  shows "draws v (v\<lparr>vg_data := fset (vg_data v) (320 * y + X div 2) len (c OR push_bit 4 c)\<rparr>)
    (\<lambda>x' y'. y' = y \<and> X \<le> x' \<and> x' < X + 2 * len) c"
proof -
  define d where "d = fset (vg_data v) (320 * y + X div 2) len (c OR push_bit 4 c)"
  define v' where "v' = v\<lparr>vg_data := d\<rparr>"
  have w: "vg_width v = 640" "vg_width v' = 640" "vg_data v' = d" using assms(1) by (simp_all add: screen_ok_def v'_def)
  have "0 \<le> 320 * y + X div 2" "320 * y + X div 2 + len \<le> 153600" using assms(3-7) by auto
  then have "paints v v'" by (auto simp: paints_def fset_def v'_def d_def)
  moreover have "pixel v' x' y' = (if y' = y \<and> X \<le> x' \<and> x' < X + 2 * len then c else pixel v x' y')" if "on_screen x' y'" for x' y'
  proof -
    define q where "q = 640 * y' + x'"
    have "d (q div 2) = (if y' = y \<and> X \<le> x' \<and> x' < X + 2 * len then c OR push_bit 4 c else vg_data v (q div 2))"
      unfolding d_def fset_def q_def byte_index row_range [OF assms(3-5) that] by (rule refl)
    then show ?thesis unfolding pixel_640 [OF w(1)] pixel_640 [OF w(2)] w(3) q_def [symmetric] using nibbles(5,6) [OF assms(2)] by simp
  qed
  ultimately show ?thesis by (simp add: draws_def v'_def d_def)
qed

text \<open>How much of a line of \<open>w\<close> pixels from \<open>x\<close> on is drawn: one that would cross the right border loses its last pixel, too.\<close>

definition hclip :: "int \<Rightarrow> int \<Rightarrow> int" where
  "hclip x w = (if x + w - 1 \<ge> 640 then 639 - x else w)"

lemma drawHLine_steps:
  assumes "screen_ok v" "x < 640" "y < 480"
    and "n = hclip x w" "x1 = (if odd x then x + 1 else x)" "w1 = (if odd x then n - 1 else n)"
    and "v1 = (if odd x then drawPixel x y c v else v)" "v2 = (if odd w1 then drawPixel (x1 + w1 - 1) y c v1 else v1)"
    and "w2 = (if odd w1 then w1 - 1 else w1)"
  shows "drawHLine x y w c v =
    (if w2 div 2 > 0 then v2\<lparr>vg_data := fset (vg_data v2) (320 * y + x1 div 2) (w2 div 2) (c OR push_bit 4 c)\<rparr> else v2)"
proof -
  have "(if x + w - 1 \<ge> vg_width v then vg_width v - x - 1 else w) = n" using assms(1) by (simp add: assms(4) hclip_def screen_ok_def)
  then have "drawHLine x y w c v =
      (let (x, w, v) = (if odd x then (x + 1, n - 1, drawPixel x y c v) else (x, n, v));
           (w, v) = (if odd w then (w - 1, drawPixel (x + w - 1) y c v) else (w, v));
           len = w div 2
       in if len > 0 \<and> y < 480 then v\<lparr>vg_data := fset (vg_data v) (320 * y + x div 2) len (c OR push_bit 4 c)\<rparr> else v)"
    using assms(1-3) by (simp add: drawHLine_def screen_ok_def)
  then show ?thesis unfolding assms(5-9) using assms(3)
    by (cases "odd x"; cases "odd (if odd x then n - 1 else n)") (simp_all only: if_True if_False not_True_eq_False not_False_eq_True Let_def prod.case simp_thms)
qed

lemma drawHLine_draws:
  assumes "screen_ok v" "c < 16" "0 \<le> x" "0 \<le> y" "1 \<le> hclip x w \<or> even x \<and> hclip x w = 0"
  shows "draws v (drawHLine x y w c v) (\<lambda>x' y'. y' = y \<and> x \<le> x' \<and> x' < x + hclip x w) c"
proof (cases "x < 640 \<and> y < 480")
  case False
  then have "drawHLine x y w c v = v" using assms(1) by (auto simp: drawHLine_def screen_ok_def)
  then show ?thesis using False assms(3,4) by (auto simp: draws_def on_screen_def)
next
  case True
  define n where "n = hclip x w"
  have "0 \<le> n" "odd x \<Longrightarrow> 1 \<le> n" "x + n \<le> 640" using assms(5) True by (auto simp: n_def) (simp add: hclip_def)
  note n = this(3,1,2)
  define v1 where "v1 = (if odd x then drawPixel x y c v else v)"
  define x1 where "x1 = (if odd x then x + 1 else x)"
  define w1 where "w1 = (if odd x then n - 1 else n)"
  define v2 where "v2 = (if odd w1 then drawPixel (x1 + w1 - 1) y c v1 else v1)"
  define w2 where "w2 = (if odd w1 then w1 - 1 else w1)"
  define v3 where "v3 = (if w2 div 2 > 0 then v2\<lparr>vg_data := fset (vg_data v2) (320 * y + x1 div 2) (w2 div 2) (c OR push_bit 4 c)\<rparr> else v2)"
  have run: "drawHLine x y w c v = v3"
    unfolding v3_def using True by (intro drawHLine_steps [OF assms(1) _ _ n_def x1_def w1_def v1_def v2_def w2_def]) simp_all
  have sh: "short x = x" "short y = y" "short (x1 + w1 - 1) = x1 + w1 - 1"
    using True assms(3,4) n by (auto intro!: short_same simp: x1_def w1_def)
  have d1: "draws v v1 (\<lambda>x' y'. odd x \<and> x' = x \<and> y' = y) c"
    using drawPixel_draws [OF assms(1,2), of x y] sh by (auto simp: v1_def)
  have s1: "screen_ok v1" using paints_sel(5) [OF draws_paints [OF d1]] assms(1) by simp
  have d2: "draws v1 v2 (\<lambda>x' y'. odd w1 \<and> x' = x1 + w1 - 1 \<and> y' = y) c"
    using drawPixel_draws [OF s1 assms(2), of "x1 + w1 - 1" y] sh by (auto simp: v2_def)
  have s2: "screen_ok v2" using paints_sel(5) [OF draws_paints [OF d2]] s1 by simp
  have par: "even n \<Longrightarrow> 1 \<le> n \<Longrightarrow> 2 \<le> n" "odd n \<Longrightarrow> 0 \<le> n \<Longrightarrow> 1 \<le> n" by presburger+
  then have e: "even x1" "even w2" "0 \<le> x1" "x1 + w2 \<le> 640" "0 \<le> w2" using n assms(3) by (auto simp: x1_def w1_def w2_def)
  then have w2: "2 * (w2 div 2) = w2" by simp
  have d3: "draws v2 v3 (\<lambda>x' y'. y' = y \<and> x1 \<le> x' \<and> x' < x1 + w2) c"
    using fset_draws [OF s2 assms(2) e(1,3), of "w2 div 2" y] e(4,5) assms(4) True w2 by (auto simp: v3_def draws_def)
  have pt: "(odd x \<and> x' = x \<or> odd w1 \<and> x' = x1 + w1 - 1 \<or> x1 \<le> x' \<and> x' < x1 + w2) \<longleftrightarrow> x \<le> x' \<and> x' < x + n" for x'
    using n par unfolding x1_def w2_def w1_def by (cases "odd x"; cases "odd n") auto
  from draws_trans [OF draws_trans [OF d1 d2] d3] show ?thesis unfolding run
    by (rule draws_cong) (use pt in \<open>auto simp flip: n_def\<close>)
qed

lemma drawHLine_paints:
  assumes "screen_ok v" "0 \<le> x" "0 \<le> y"
  shows "paints v (drawHLine x y w c v)"
proof -
  have p: "paints u (if b then drawPixel a y c u else u)" if "screen_ok u" for b a u using drawPixel_paints [OF that] by simp
  have f: "paints u (u\<lparr>vg_data := fset (vg_data u) i k d\<rparr>)" if "0 \<le> i" "i + k \<le> 153600" for u i k d
    using that by (auto simp: paints_def fset_def)
  show ?thesis
  proof (cases "x < 640 \<and> y < 480")
    case False
    then show ?thesis using assms(1) by (auto simp: drawHLine_def screen_ok_def)
  next
    case True
    define n where "n = hclip x w"
    have n: "x + n \<le> 640" using True by (auto simp: n_def hclip_def)
    define x1 where "x1 = (if odd x then x + 1 else x)"
    define w1 where "w1 = (if odd x then n - 1 else n)"
    define w2 where "w2 = (if odd w1 then w1 - 1 else w1)"
    define v1 where "v1 = (if odd x then drawPixel x y c v else v)"
    define v2 where "v2 = (if odd w1 then drawPixel (x1 + w1 - 1) y c v1 else v1)"
    have run: "drawHLine x y w c v = (if w2 div 2 > 0 then
        v2\<lparr>vg_data := fset (vg_data v2) (320 * y + x1 div 2) (w2 div 2) (c OR push_bit 4 c)\<rparr> else v2)"
      using True by (intro drawHLine_steps [OF assms(1) _ _ n_def x1_def w1_def v1_def v2_def w2_def]) simp_all
    have p1: "paints v v1" unfolding v1_def using drawPixel_paints [OF assms(1)] by simp
    have s1: "screen_ok v1" using paints_sel(5) [OF p1] assms(1) by simp
    have p2: "paints v v2" using paints_trans [OF p1] drawPixel_paints [OF s1] p1 by (simp add: v2_def)
    have e: "0 \<le> x1" "x1 + w2 \<le> 640" using n assms(2) by (auto simp: x1_def w1_def w2_def)
    have "x1 div 2 + w2 div 2 \<le> 320" "0 \<le> x1 div 2" using e by presburger+
    then have "320 * y + x1 div 2 + w2 div 2 \<le> 153600" "0 \<le> 320 * y + x1 div 2" using True assms(3) by linarith+
    then have "paints v2 (v2\<lparr>vg_data := fset (vg_data v2) (320 * y + x1 div 2) (w2 div 2) (c OR push_bit 4 c)\<rparr>)" by (intro f)
    then show ?thesis using run paints_trans [OF p2] p2 by simp
  qed
qed

lemma fillRect_loop_draws:
  "screen_ok v \<Longrightarrow> c < 16 \<Longrightarrow> 0 \<le> x \<Longrightarrow> 0 \<le> j \<Longrightarrow> 1 \<le> hclip x w \<or> even x \<and> hclip x w = 0 \<Longrightarrow>
   draws v (fillRect_loop n x j w c v) (\<lambda>x' y'. x \<le> x' \<and> x' < x + hclip x w \<and> j \<le> y' \<and> y' < j + int n) c"
proof (induction n arbitrary: j v)
  case 0
  then show ?case by (auto simp: draws_def)
next
  case (Suc n)
  note d = drawHLine_draws [OF Suc.prems(1-5)]
  have "screen_ok (drawHLine x j w c v)" using paints_sel(5) [OF draws_paints [OF d]] Suc.prems(1) by simp
  from draws_trans [OF d Suc.IH [OF this Suc.prems(2,3) _ Suc.prems(5), of "j + 1"]] Suc.prems(4) show ?case
    unfolding fillRect_loop.simps by (auto elim!: draws_cong)
qed

lemma fillRect_loop_paints: "screen_ok v \<Longrightarrow> 0 \<le> x \<Longrightarrow> 0 \<le> j \<Longrightarrow> paints v (fillRect_loop n x j w c v)"
proof (induction n arbitrary: j v)
  case (Suc n)
  note p = drawHLine_paints [OF Suc.prems(1-3), of w c]
  have "screen_ok (drawHLine x j w c v)" using paints_sel(5) [OF p] Suc.prems(1) by simp
  from paints_trans [OF p Suc.IH [OF this Suc.prems(2), of "j + 1"]] Suc.prems(3) show ?case by simp
qed simp

lemma fillRect_draws:
  assumes "screen_ok v" "c < 16" "0 \<le> short x" "0 \<le> short y" "1 \<le> hclip (short x) (short w) \<or> even (short x) \<and> hclip (short x) (short w) = 0"
  shows "draws v (fillRect x y w h c v)
    (\<lambda>x' y'. short x \<le> x' \<and> x' < short x + hclip (short x) (short w) \<and> short y \<le> y' \<and> y' < short y + short h) c"
proof (cases "short x \<ge> 640 \<or> short y \<ge> 480")
  case True
  then have "fillRect x y w h c v = v" using assms(1) by (auto simp: fillRect_def screen_ok_def)
  then show ?thesis using True assms(3,4) by (auto simp: draws_def on_screen_def)
next
  case False
  then have "fillRect x y w h c v = fillRect_loop (nat (short h)) (short x) (short y) (short w) c v"
    using assms(1) by (auto simp: fillRect_def screen_ok_def)
  with fillRect_loop_draws [OF assms(1-5), of "nat (short h)"] show ?thesis by (auto elim!: draws_cong split: if_splits)
qed

lemma fillRect_paints: "screen_ok v \<Longrightarrow> 0 \<le> short x \<Longrightarrow> 0 \<le> short y \<Longrightarrow> paints v (fillRect x y w h c v)"
  using fillRect_loop_paints by (simp add: fillRect_def Let_def)

text \<open>A vertical line that would go beyond row 32767 has no end: the counter wraps around.\<close>

lemma drawVLine_loop_draws:
  "screen_ok v \<Longrightarrow> c < 16 \<Longrightarrow> - 32768 \<le> i \<Longrightarrow> n \<le> 32767 \<Longrightarrow>
   \<exists>v'. drawVLine_loop x i n c v = Some v' \<and> draws v v' (\<lambda>x' y'. x' = short x \<and> i \<le> y' \<and> y' < n) c"
proof (induction "nat (n - i)" arbitrary: i v)
  case 0
  then have "drawVLine_loop x i n c v = Some v" by (subst drawVLine_loop.simps) simp
  then show ?case using 0 by (auto simp: draws_def)
next
  case (Suc k)
  then have i: "i < n" "short i = i" "short (i + 1) = i + 1" by (auto intro!: short_same)
  note d = drawPixel_draws [OF Suc.prems(1,2), of x i]
  have ok: "screen_ok (drawPixel x i c v)" using paints_sel(5) [OF draws_paints [OF d]] Suc.prems(1) by simp
  have "k = nat (n - (i + 1))" using Suc.hyps(2) by simp
  from Suc.hyps(1) [OF this ok Suc.prems(2)] Suc.prems(3,4) obtain v' where
    v': "drawVLine_loop x (i + 1) n c (drawPixel x i c v) = Some v'"
      "draws (drawPixel x i c v) v' (\<lambda>x' y'. x' = short x \<and> i + 1 \<le> y' \<and> y' < n) c" by auto
  have "drawVLine_loop x i n c v = Some v'" using i v'(1) by (subst drawVLine_loop.simps) simp
  moreover have "draws v v' (\<lambda>x' y'. x' = short x \<and> i \<le> y' \<and> y' < n) c"
    by (rule draws_cong [OF draws_trans [OF d v'(2)]]) (use i in auto)
  ultimately show ?case by blast
qed

lemma drawVLine_draws:
  assumes "screen_ok v" "c < 16" "short y + short h \<le> 32767"
  shows "\<exists>v'. drawVLine x y h c v = Some v' \<and> draws v v' (\<lambda>x' y'. x' = short x \<and> short y \<le> y' \<and> y' < short y + short h) c"
  using drawVLine_loop_draws [OF assms(1,2) short_range(1) assms(3), of "short x" y] by (simp add: drawVLine_def)

end
