(* ===== verification/Vga_Shapes.thy ===== *)
theory Vga_Shapes
  imports Vga_Frame
begin

text \<open>
  Lines, circles and filled shapes of \<open>vga_graphos.c\<close>: the pixels they draw, as sets of points that are close to the
  shape, and that nothing outside the buffer is written when the coordinates are not negative.
\<close>

section \<open>Bresenham's line\<close>

text \<open>The offset of the line, in the direction of the shorter side, after \<open>k\<close> steps along the longer one.\<close>

definition line_off :: "int \<Rightarrow> int \<Rightarrow> int \<Rightarrow> int" where
  "line_off dx dy k = - ((dx div 2 - k * dy) div dx)"

lemma line_off_unique:
  assumes "e = dx div 2 - k * dy + m * dx" "0 \<le> e" "e < dx"
  shows "m = line_off dx dy k"
proof -
  have "dx div 2 - k * dy = e + (- m) * dx" using assms(1) by (simp add: algebra_simps)
  then have "(dx div 2 - k * dy) div dx = (e + (- m) * dx) div dx" by (simp only:)
  also have "\<dots> = - m + e div dx" by (rule div_mult_self1) (use assms in simp)
  also have "e div dx = 0" using assms(2,3) by simp
  finally show ?thesis by (simp add: line_off_def)
qed

text \<open>It is the nearest one, and it starts and ends where the line does.\<close>

lemma line_off_near:
  assumes "0 \<le> dy" "dy \<le> dx"
  shows "2 * \<bar>line_off dx dy k * dx - k * dy\<bar> \<le> dx"
proof (cases "dx = 0")
  case True
  then show ?thesis using assms by (simp add: line_off_def)
next
  case False
  then have dx: "0 < dx" using assms by simp
  define r where "r = (dx div 2 - k * dy) mod dx"
  have "line_off dx dy k * dx - k * dy = r - dx div 2"
    using minus_div_mult_eq_mod [of "dx div 2 - k * dy" dx] by (simp add: line_off_def r_def algebra_simps)
  moreover have "0 \<le> r" "r < dx" using dx by (simp_all add: r_def)
  ultimately show ?thesis by presburger
qed

lemma line_off_0: "0 \<le> dx \<Longrightarrow> line_off dx dy 0 = 0"
  by (cases "dx = 0") (simp_all add: line_off_def div_pos_pos_trivial)

lemma line_off_end: "0 \<le> dy \<Longrightarrow> dy \<le> dx \<Longrightarrow> line_off dx dy dx = dy"
proof (cases "dx = 0")
  case False
  assume d: "0 \<le> dy" "dy \<le> dx"
  then have "0 < dx" using False by simp
  then show ?thesis by (intro line_off_unique [symmetric, where e = "dx div 2"]) (auto simp: algebra_simps)
qed (simp add: line_off_def)

definition line_points :: "bool \<Rightarrow> int \<Rightarrow> int \<Rightarrow> int \<Rightarrow> (int \<Rightarrow> int) \<Rightarrow> int \<Rightarrow> int \<Rightarrow> int \<Rightarrow> int \<Rightarrow> bool" where
  "line_points steep a b s off i n x y \<longleftrightarrow>
     (\<exists>k. i \<le> k \<and> k \<le> n \<and> (if steep then (y, x) else (x, y)) = (a + k, b + s * off k))"

lemma ex_head: "k \<le> n \<Longrightarrow> (\<exists>j :: int. k \<le> j \<and> j \<le> n \<and> Q j) \<longleftrightarrow> Q k \<or> (\<exists>j. k + 1 \<le> j \<and> j \<le> n \<and> Q j)"
  by (metis add1_zle_eq order_le_less order_refl)

lemma line_points_head: "k \<le> n \<Longrightarrow> line_points steep a b s off k n x y \<longleftrightarrow>
    (if steep then (y, x) else (x, y)) = (a + k, b + s * off k) \<or> line_points steep a b s off (k + 1) n x y"
  unfolding line_points_def by (rule ex_head)

lemma line_step:
  fixes dx dy e k m :: int
  assumes "0 \<le> dy" "dy \<le> dx" "e = dx div 2 - k * dy + m * dx" "0 \<le> e" "e < dx"
  shows "0 \<le> (if e - dy < 0 then e - dy + dx else e - dy)" "(if e - dy < 0 then e - dy + dx else e - dy) < dx"
    "(if e - dy < 0 then e - dy + dx else e - dy) = dx div 2 - (k + 1) * dy + (if e - dy < 0 then m + 1 else m) * dx"
  using assms by (auto simp: algebra_simps)

lemma drawLine_loop_draws:
  "screen_ok v \<Longrightarrow> c < 16 \<Longrightarrow> 0 \<le> dy \<Longrightarrow> dy \<le> dx \<Longrightarrow> 0 < dx \<Longrightarrow> dx \<le> 16382 \<Longrightarrow> \<bar>a\<bar> \<le> 8191 \<Longrightarrow> \<bar>b\<bar> \<le> 8191 \<Longrightarrow> \<bar>a + dx\<bar> \<le> 8191 \<Longrightarrow>
   s = 1 \<or> s = - 1 \<Longrightarrow> e = dx div 2 - k * dy + m * dx \<Longrightarrow> 0 \<le> e \<Longrightarrow> e < dx \<Longrightarrow> 0 \<le> m \<Longrightarrow> m \<le> k \<Longrightarrow> k \<le> dx + 1 \<Longrightarrow>
   \<exists>v'. drawLine_loop steep (a + k) (b + s * m) (a + dx) dx dy e s c v = Some v' \<and> draws v v' (line_points steep a b s (line_off dx dy) k dx) c"
proof (induction "nat (dx + 1 - k)" arbitrary: k m e v)
  case 0
  then have "drawLine_loop steep (a + k) (b + s * m) (a + dx) dx dy e s c v = Some v" by (subst drawLine_loop.simps) simp
  then show ?case using 0 by (auto simp: draws_def line_points_def)
next
  case (Suc j)
  note pr = Suc.prems
  let ?x = "a + k" and ?y = "b + s * m"
  let ?v = "if steep then drawPixel ?y ?x c v else drawPixel ?x ?y c v"
  define e' where "e' = (if e - dy < 0 then e - dy + dx else e - dy)"
  define m' where "m' = (if e - dy < 0 then m + 1 else m)"
  note st = line_step [OF pr(3,4,11-13), folded e'_def m'_def]
  have k: "k \<le> dx" using Suc.hyps(2) by simp
  have sm: "\<bar>s * m\<bar> \<le> 16382" "\<bar>s * m'\<bar> \<le> 16383" using pr(6,10,14,15) k by (auto simp: m'_def)
  have sh: "short ?x = ?x" "short ?y = ?y" "short (?x + 1) = ?x + 1" "short (?y + s) = ?y + s" "short (e - dy) = e - dy" "short (e - dy + dx) = e - dy + dx"
    using pr k sm by (auto intro!: short_same simp: abs_le_iff)
  have d: "draws v ?v (\<lambda>x' y'. (if steep then (y', x') else (x', y')) = (?x, ?y)) c"
    using drawPixel_draws [OF pr(1,2), of ?y ?x] drawPixel_draws [OF pr(1,2), of ?x ?y] sh(1,2) by (auto elim!: draws_cong)
  have ok: "screen_ok ?v" using paints_sel(5) [OF draws_paints [OF d]] pr(1) by simp
  have "j = nat (dx + 1 - (k + 1))" using Suc.hyps(2) by simp
  moreover have "0 \<le> m'" "m' \<le> k + 1" using pr(14,15) by (auto simp: m'_def)
  ultimately obtain v' where
    v': "drawLine_loop steep (a + (k + 1)) (b + s * m') (a + dx) dx dy e' s c ?v = Some v'"
      "draws ?v v' (line_points steep a b s (line_off dx dy) (k + 1) dx) c"
    using Suc.hyps(1) [OF _ ok pr(2-10) st(3,1,2)] k by auto
  have y': "b + s * m' = (if e - dy < 0 then ?y + s else ?y)" by (simp add: m'_def algebra_simps)
  have "drawLine_loop steep ?x ?y (a + dx) dx dy e s c v = Some v'"
    using v'(1) [unfolded y'] k sh by (subst drawLine_loop.simps) (cases steep; cases "e < dy"; simp add: Let_def e'_def add.assoc [symmetric])
  moreover have "m = line_off dx dy k" by (rule line_off_unique [OF pr(11-13)])
  then have "draws v v' (line_points steep a b s (line_off dx dy) k dx) c"
    using k by (intro draws_cong [OF draws_trans [OF d v'(2)]]) (simp add: line_points_head)
  ultimately show ?case by blast
qed

text \<open>The whole line: swapped to be flat, and to go to the right.\<close>

definition line_spec :: "int \<Rightarrow> int \<Rightarrow> int \<Rightarrow> int \<Rightarrow> int \<Rightarrow> int \<Rightarrow> bool" where
  "line_spec x0 y0 x1 y1 =
     (let steep = \<bar>y1 - y0\<bar> > \<bar>x1 - x0\<bar>;
          (a0, b0, a1, b1) = (if steep then (y0, x0, y1, x1) else (x0, y0, x1, y1));
          (a0, b0, a1, b1) = (if a0 > a1 then (a1, b1, a0, b0) else (a0, b0, a1, b1))
      in line_points steep a0 b0 (if b0 < b1 then 1 else - 1) (line_off (a1 - a0) \<bar>b1 - b0\<bar>) 0 (a1 - a0))"

lemma drawLine_flat:
  assumes "screen_ok v" "c < 16" "\<bar>a0\<bar> \<le> 8191" "\<bar>b0\<bar> \<le> 8191" "\<bar>a1\<bar> \<le> 8191" "\<bar>b1\<bar> \<le> 8191" "a0 \<le> a1" "\<bar>b1 - b0\<bar> \<le> a1 - a0"
  shows "\<exists>v'. drawLine_loop steep a0 b0 a1 (short (a1 - a0)) (short \<bar>b1 - b0\<bar>) (short (short (a1 - a0) sdiv 2)) (if b0 < b1 then 1 else - 1) c v = Some v' \<and>
    draws v v' (line_points steep a0 b0 (if b0 < b1 then 1 else - 1) (line_off (a1 - a0) \<bar>b1 - b0\<bar>) 0 (a1 - a0)) c"
proof -
  define dx dy s where "dx = a1 - a0" and "dy = \<bar>b1 - b0\<bar>" and "s = (if b0 < b1 then 1 else - 1 :: int)"
  have d: "0 \<le> dy" "dy \<le> dx" "dx \<le> 16382" using assms by (auto simp: dx_def dy_def)
  have sh: "short dx = dx" "short dy = dy" "dx sdiv 2 = dx div 2" "short (dx div 2) = dx div 2"
    using d by (cases "dx = 0"; auto intro!: short_same simp: signed_divide_int_def)+
  have "\<exists>v'. drawLine_loop steep a0 b0 a1 dx dy (dx div 2) s c v = Some v' \<and> draws v v' (line_points steep a0 b0 s (line_off dx dy) 0 dx) c"
  proof (cases "dx = 0")
    case True
    let ?v = "if steep then drawPixel b0 a0 c v else drawPixel a0 b0 c v"
    have z: "dy = 0" "a1 = a0" using True d by (simp_all add: dx_def)
    have stop: "drawLine_loop t (a0 + 1) b a0 p q e r c w = Some w" for t b p q e r w by (subst drawLine_loop.simps) simp
    have h: "short (a0 + 1) = a0 + 1" "short a0 = a0" "short b0 = b0" using assms by (auto intro!: short_same)
    have "drawLine_loop steep a0 b0 a1 dx dy (dx div 2) s c v = Some ?v"
      unfolding z True by (subst drawLine_loop.simps) (simp add: Let_def h short_same stop)
    moreover have "draws v ?v (line_points steep a0 b0 s (line_off dx dy) 0 dx) c"
      using drawPixel_draws [OF assms(1,2), of b0 a0] drawPixel_draws [OF assms(1,2), of a0 b0] h line_off_0 [of 0 dy]
      unfolding True by (auto elim!: draws_cong simp: line_points_def)
    ultimately show ?thesis by blast
  next
    case False
    have "\<bar>a0 + dx\<bar> \<le> 8191" "s = 1 \<or> s = - 1" using assms by (auto simp: dx_def s_def)
    from drawLine_loop_draws [OF assms(1,2) d(1,2) _ d(3) assms(3,4) this, of "dx div 2" 0 0 steep] show ?thesis
      using d False by (simp add: dx_def)
  qed
  then show ?thesis by (simp add: sh flip: dx_def dy_def s_def)
qed

lemma drawLine_draws:
  assumes "screen_ok v" "c < 16" "\<bar>x0\<bar> \<le> 8191" "\<bar>y0\<bar> \<le> 8191" "\<bar>x1\<bar> \<le> 8191" "\<bar>y1\<bar> \<le> 8191"
  shows "\<exists>v'. drawLine x0 y0 x1 y1 c v = Some v' \<and> draws v v' (line_spec x0 y0 x1 y1) c"
proof -
  have sh: "short x0 = x0" "short y0 = y0" "short x1 = x1" "short y1 = y1" using assms by (auto intro!: short_same)
  define steep where "steep = (\<bar>y1 - y0\<bar> > \<bar>x1 - x0\<bar>)"
  consider "steep" "y0 > y1" | "steep" "y0 \<le> y1" | "\<not> steep" "x0 > x1" | "\<not> steep" "x0 \<le> x1" by linarith
  then show ?thesis
  proof cases
    case 1
    then show ?thesis using drawLine_flat [OF assms(1,2,6,5,4,3), of steep] unfolding drawLine_def line_spec_def sh Let_def steep_def
      by (simp add: abs_minus_commute)
  next
    case 2
    then show ?thesis using drawLine_flat [OF assms(1,2,4,3,6,5), of steep] unfolding drawLine_def line_spec_def sh Let_def steep_def
      by simp
  next
    case 3
    then show ?thesis using drawLine_flat [OF assms(1,2,5,6,3,4), of steep] unfolding drawLine_def line_spec_def sh Let_def steep_def
      by (simp add: abs_minus_commute)
  next
    case 4
    then show ?thesis using drawLine_flat [OF assms(1,2,3,4,5,6), of steep] unfolding drawLine_def line_spec_def sh Let_def steep_def
      by simp
  qed
qed

section \<open>Circles\<close>

text \<open>The decision variable: \<open>f\<close> is the value of the circle's equation at the midpoint of the two pixels that may come next.\<close>

definition circle_inv :: "int \<Rightarrow> int \<times> int \<times> int \<times> int \<times> int \<Rightarrow> bool" where
  "circle_inv r = (\<lambda>(f, ddF_x, ddF_y, x, y). f = (x + 1) * (x + 1) + y * y - y - r * r \<and> ddF_x = 2 * x + 1 \<and> ddF_y = - 2 * y \<and>
     0 \<le> x \<and> 0 \<le> y \<and> y \<le> r \<and> r \<le> 8191 \<and> (x < y \<longrightarrow> - y \<le> x * x + y * y - r * r \<and> x * x + y * y - r * r < y))"

lemma circle_start_inv:
  assumes "0 \<le> r" "r \<le> 8191"
  shows "circle_inv r (circle_start r)"
proof -
  have "short (1 - r) = 1 - r" "short (- 2 * r) = - 2 * r" using assms by (auto intro!: short_same)
  then show ?thesis using assms by (simp add: circle_inv_def circle_start_def)
qed

lemma circle_step_inv:
  assumes inv: "circle_inv r (f, ddF_x, ddF_y, x, y)" and "x < y"
  obtains f' y' where "circle_step (f, ddF_x, ddF_y, x, y) = (f', 2 * (x + 1) + 1, - 2 * y', x + 1, y')"
    "circle_inv r (f', 2 * (x + 1) + 1, - 2 * y', x + 1, y')" "y' = y \<or> y' = y - 1"
    "\<bar>(x + 1) * (x + 1) + y' * y' - r * r\<bar> \<le> r" "0 \<le> y'" "y' \<le> r"
proof -
  note i = inv [unfolded circle_inv_def, simplified]
  define e where "e = x * x + y * y - r * r"
  have e: "- y \<le> e" "e < y" using i assms(2) by (simp_all add: e_def)
  have f: "f = e + 2 * x + 1 - y" using i by (simp add: e_def algebra_simps)
  have b: "0 \<le> x" "x < y" "y \<le> r" "r \<le> 8191" using i assms(2) by simp_all
  define y' where "y' = (if f \<ge> 0 then y - 1 else y)"
  define f' where "f' = (if f \<ge> 0 then f + (2 - 2 * y) else f) + (2 * x + 3)"
  have sh: "short (y - 1) = y - 1" "short (2 - 2 * y) = 2 - 2 * y" "short (f + (2 - 2 * y)) = f + (2 - 2 * y)" if "f \<ge> 0"
    using that b e f by (auto intro!: short_same)
  have sh': "short (x + 1) = x + 1" "short (2 * x + 3) = 2 * x + 3" "short f' = f'"
    using b e f by (auto intro!: short_same simp: f'_def)
  have "circle_step (f, ddF_x, ddF_y, x, y) = (f', 2 * (x + 1) + 1, - 2 * y', x + 1, y')"
  proof -
    have a: "ddF_y + 2 = 2 - 2 * y" "ddF_x + 2 = 2 * x + 3" "2 * (x + 1) + 1 = 2 * x + 3" "- 2 * (y - 1) = 2 - 2 * y" "ddF_y = - 2 * y"
      using i by simp_all
    show ?thesis
    proof (cases "f \<ge> 0")
      case True
      then have "short (f + (2 - 2 * y) + (2 * x + 3)) = f + (2 - 2 * y) + (2 * x + 3)" using sh'(3) by (simp add: f'_def)
      then show ?thesis using True unfolding circle_step_def prod.case f'_def y'_def a by (simp add: Let_def sh sh'(1,2))
    next
      case False
      then have "short (f + (2 * x + 3)) = f + (2 * x + 3)" using sh'(3) by (simp add: f'_def)
      then show ?thesis using False unfolding circle_step_def prod.case f'_def y'_def a by (simp add: Let_def sh'(1,2))
    qed
  qed
  moreover have e': "(x + 1) * (x + 1) + y' * y' - r * r = (if f \<ge> 0 then e + 2 * x + 1 - 2 * y + 1 else e + 2 * x + 1)"
    by (simp add: y'_def e_def algebra_simps)
  moreover have "circle_inv r (f', 2 * (x + 1) + 1, - 2 * y', x + 1, y')"
    unfolding circle_inv_def prod.case
  proof (intro conjI impI)
    show "f' = (x + 1 + 1) * (x + 1 + 1) + y' * y' - y' - r * r"
      by (simp add: f'_def y'_def f e_def algebra_simps)
    show "- y' \<le> (x + 1) * (x + 1) + y' * y' - r * r" "(x + 1) * (x + 1) + y' * y' - r * r < y'" if "x + 1 < y'"
      using that unfolding e' using e f b by (auto simp: y'_def)
  qed (use b in \<open>auto simp: y'_def\<close>)
  moreover have "\<bar>(x + 1) * (x + 1) + y' * y' - r * r\<bar> \<le> r" unfolding e' using e f b by auto
  ultimately show thesis using that [of f' y'] b by (auto simp: y'_def)
qed

text \<open>An arc of \<open>n\<close> steps from \<open>(x, y)\<close>: it goes right, at each step possibly one down, until it meets the diagonal.\<close>

definition circle_arc :: "int \<Rightarrow> int \<Rightarrow> int \<Rightarrow> nat \<Rightarrow> (nat \<Rightarrow> int) \<Rightarrow> bool" where
  "circle_arc r x y n ys \<longleftrightarrow> ys 0 = y \<and> ys n \<le> x + int n \<and>
     (\<forall>k < n. x + int k < ys k \<and> (ys (Suc k) = ys k \<or> ys (Suc k) = ys k - 1) \<and>
       \<bar>(x + int (Suc k)) * (x + int (Suc k)) + ys (Suc k) * ys (Suc k) - r * r\<bar> \<le> r)"

lemma circle_arc_0: "y \<le> x \<Longrightarrow> circle_arc r x y 0 (\<lambda>_. y)"
  by (simp add: circle_arc_def)

lemma circle_arc_Suc:
  assumes "circle_arc r (x + 1) y' n ys" "x < y" "y' = y \<or> y' = y - 1" "\<bar>(x + 1) * (x + 1) + y' * y' - r * r\<bar> \<le> r"
  shows "circle_arc r x y (Suc n) (case_nat y ys)"
  unfolding circle_arc_def
proof (intro conjI allI impI)
  fix k
  assume k: "k < Suc n"
  have z: "ys 0 = y'" using assms(1) by (simp add: circle_arc_def)
  show "x + int k < case_nat y ys k" "case_nat y ys (Suc k) = case_nat y ys k \<or> case_nat y ys (Suc k) = case_nat y ys k - 1"
    "\<bar>(x + int (Suc k)) * (x + int (Suc k)) + case_nat y ys (Suc k) * case_nat y ys (Suc k) - r * r\<bar> \<le> r"
    using k assms z by (cases k; simp add: circle_arc_def algebra_simps)+
qed (use assms(1) in \<open>simp_all add: circle_arc_def\<close>)

definition reflected :: "int \<Rightarrow> int \<Rightarrow> int \<Rightarrow> int \<Rightarrow> int \<Rightarrow> int \<Rightarrow> bool" where
  "reflected x0 y0 a b x y \<longleftrightarrow> \<bar>x - x0\<bar> = a \<and> \<bar>y - y0\<bar> = b \<or> \<bar>x - x0\<bar> = b \<and> \<bar>y - y0\<bar> = a"

lemma reflected_iff:
  assumes "0 \<le> a" "0 \<le> b"
  shows "reflected x0 y0 a b x y \<longleftrightarrow>
    (x = x0 + a \<or> x = x0 - a) \<and> (y = y0 + b \<or> y = y0 - b) \<or> (x = x0 + b \<or> x = x0 - b) \<and> (y = y0 + a \<or> y = y0 - a)"
proof -
  have d: "\<bar>u - w\<bar> = d \<longleftrightarrow> u = w + d \<or> u = w - d" if "0 \<le> d" for u w d :: int using that by (auto simp: abs_if)
  show ?thesis unfolding reflected_def d [OF assms(1)] d [OF assms(2)] by (rule refl)
qed

lemma ex_pos_Suc: "(\<exists>k. 0 < k \<and> k \<le> Suc n \<and> Q k) \<longleftrightarrow> (\<exists>k \<le> n. Q (Suc k))"
proof
  assume "\<exists>k. 0 < k \<and> k \<le> Suc n \<and> Q k"
  then obtain k where "0 < k" "k \<le> Suc n" "Q k" by blast
  then show "\<exists>k \<le> n. Q (Suc k)" by (cases k) auto
qed auto

lemma ex_le_0: "(\<exists>k \<le> n. Q k) \<longleftrightarrow> Q (0 :: nat) \<or> (\<exists>k. 0 < k \<and> k \<le> n \<and> Q k)"
  by (metis gr0I le0)

lemma pixel_draws_then:
  assumes "draws u v P c" "screen_ok v" "c < 16" "\<bar>x\<bar> \<le> 32767" "\<bar>y\<bar> \<le> 32767"
  shows "draws u (drawPixel x y c v) (\<lambda>x' y'. P x' y' \<or> x' = x \<and> y' = y) c" "screen_ok (drawPixel x y c v)"
proof -
  have sh: "short x = x" "short y = y" using assms(4,5) by (auto intro!: short_same)
  note d = drawPixel_draws [OF assms(2,3), of x y, unfolded sh]
  show "draws u (drawPixel x y c v) (\<lambda>x' y'. P x' y' \<or> x' = x \<and> y' = y) c" by (rule draws_trans [OF assms(1) d])
  show "screen_ok (drawPixel x y c v)" using paints_sel(5) [OF draws_paints [OF d]] assms(2) by simp
qed

lemma circle_points_draws:
  assumes "screen_ok v" "c < 16" "\<bar>x0\<bar> \<le> 8191" "\<bar>y0\<bar> \<le> 8191" "0 \<le> a" "a \<le> 8192" "0 \<le> b" "b \<le> 8192"
  shows "draws v (circle_points x0 y0 a b c v) (reflected x0 y0 a b) c"
proof -
  note th = pixel_draws_then [OF _ _ assms(2)]
  have b: "\<bar>x0 + a\<bar> \<le> 32767" "\<bar>x0 - a\<bar> \<le> 32767" "\<bar>x0 + b\<bar> \<le> 32767" "\<bar>x0 - b\<bar> \<le> 32767"
    "\<bar>y0 + a\<bar> \<le> 32767" "\<bar>y0 - a\<bar> \<le> 32767" "\<bar>y0 + b\<bar> \<le> 32767" "\<bar>y0 - b\<bar> \<le> 32767" using assms(3-8) by auto
  note p1 = th [OF draws_none assms(1) b(1,7)]
  note p2 = th [OF p1 b(2,7)]
  note p3 = th [OF p2 b(1,8)]
  note p4 = th [OF p3 b(2,8)]
  note p5 = th [OF p4 b(3,5)]
  note p6 = th [OF p5 b(4,5)]
  note p7 = th [OF p6 b(3,6)]
  note p8 = th [OF p7 b(4,6)]
  show ?thesis unfolding circle_points_def Let_def
    by (rule draws_cong [OF p8(1)]) (unfold reflected_iff [OF assms(5,7)], blast)
qed

lemma drawCircle_loop_draws:
  assumes "c < 16" "\<bar>x0\<bar> \<le> 8191" "\<bar>y0\<bar> \<le> 8191"
  shows "circle_inv r (f, ddF_x, ddF_y, x, y) \<Longrightarrow> screen_ok v \<Longrightarrow>
    \<exists>v' n ys. drawCircle_loop x0 y0 c (f, ddF_x, ddF_y, x, y) v = Some v' \<and> circle_arc r x y n ys \<and>
      draws v v' (\<lambda>X Y. \<exists>k. 0 < k \<and> k \<le> n \<and> reflected x0 y0 (x + int k) (ys k) X Y) c"
proof (induction "nat (y - x)" arbitrary: f ddF_x ddF_y x y v rule: less_induct)
  case less
  show ?case
  proof (cases "x < y")
    case False
    then have "drawCircle_loop x0 y0 c (f, ddF_x, ddF_y, x, y) v = Some v" by (subst drawCircle_loop.simps) simp
    then show ?thesis using circle_arc_0 [of y x r] False by (intro exI [of _ v] exI [of _ 0] exI [of _ "\<lambda>_. y"]) simp
  next
    case True
    from circle_step_inv [OF less.prems(1) True] obtain f' y' where st:
      "circle_step (f, ddF_x, ddF_y, x, y) = (f', 2 * (x + 1) + 1, - 2 * y', x + 1, y')"
      "circle_inv r (f', 2 * (x + 1) + 1, - 2 * y', x + 1, y')" "y' = y \<or> y' = y - 1"
      "\<bar>(x + 1) * (x + 1) + y' * y' - r * r\<bar> \<le> r" "0 \<le> y'" "y' \<le> r" by blast
    have x: "0 \<le> x" "y \<le> r" "r \<le> 8191" using less.prems(1) by (simp_all add: circle_inv_def)
    let ?v = "circle_points x0 y0 (x + 1) y' c v"
    have d: "draws v ?v (reflected x0 y0 (x + 1) y') c"
      using x st(5,6) True by (intro circle_points_draws [OF less.prems(2) assms]) auto
    have "screen_ok ?v" using paints_sel(5) [OF draws_paints [OF d]] less.prems(2) by simp
    moreover have "nat (y' - (x + 1)) < nat (y - x)" using st(3) True by auto
    ultimately obtain v' n ys where v': "drawCircle_loop x0 y0 c (f', 2 * (x + 1) + 1, - 2 * y', x + 1, y') ?v = Some v'"
      "circle_arc r (x + 1) y' n ys" "draws ?v v' (\<lambda>X Y. \<exists>k. 0 < k \<and> k \<le> n \<and> reflected x0 y0 (x + 1 + int k) (ys k) X Y) c"
      using less.hyps [OF _ st(2)] by blast
    have "drawCircle_loop x0 y0 c (f, ddF_x, ddF_y, x, y) v = Some v'"
      using v'(1) True st(1) by (subst drawCircle_loop.simps) simp
    moreover have z: "ys 0 = y'" using v'(2) by (simp add: circle_arc_def)
    have "(reflected x0 y0 (x + 1) y' X Y \<or> (\<exists>k. 0 < k \<and> k \<le> n \<and> reflected x0 y0 (x + 1 + int k) (ys k) X Y)) \<longleftrightarrow>
        (\<exists>k. 0 < k \<and> k \<le> Suc n \<and> reflected x0 y0 (x + int k) (case_nat y ys k) X Y)" for X Y
    proof -
      have "x + 1 + int k = x + int (Suc k)" for k by simp
      then show ?thesis unfolding ex_pos_Suc unfolding ex_le_0 [of n "\<lambda>k. reflected x0 y0 (x + int (Suc k)) (case_nat y ys (Suc k)) X Y"]
        by (simp add: z add.assoc)
    qed
    then have "draws v v' (\<lambda>X Y. \<exists>k. 0 < k \<and> k \<le> Suc n \<and> reflected x0 y0 (x + int k) (case_nat y ys k) X Y) c"
      by (intro draws_cong [OF draws_trans [OF d v'(3)]]) simp
    ultimately show ?thesis using circle_arc_Suc [OF v'(2) True st(3,4)] by blast
  qed
qed

lemma drawCircle_draws:
  assumes "screen_ok v" "c < 16" "\<bar>x0\<bar> \<le> 8191" "\<bar>y0\<bar> \<le> 8191" "0 \<le> r" "r \<le> 8191"
  shows "\<exists>v' n ys. drawCircle x0 y0 r c v = Some v' \<and> circle_arc r 0 r n ys \<and>
    draws v v' (\<lambda>x y. \<exists>k \<le> n. reflected x0 y0 (int k) (ys k) x y) c"
proof -
  have sh: "short x0 = x0" "short y0 = y0" "short r = r" using assms by (auto intro!: short_same)
  have b: "\<bar>x0\<bar> \<le> 32767" "\<bar>y0\<bar> \<le> 32767" "\<bar>x0 + r\<bar> \<le> 32767" "\<bar>x0 - r\<bar> \<le> 32767" "\<bar>y0 + r\<bar> \<le> 32767" "\<bar>y0 - r\<bar> \<le> 32767" using assms by auto
  note th = pixel_draws_then [OF _ _ assms(2)]
  note p1 = th [OF draws_none assms(1) b(1,5)]
  note p2 = th [OF p1 b(1,6)]
  note p3 = th [OF p2 b(3,2)]
  note p4 = th [OF p3 b(4,2)]
  obtain f dx dy x y where st: "circle_start r = (f, dx, dy, x, y)" "x = 0" "y = r" by (auto simp: circle_start_def)
  from drawCircle_loop_draws [OF assms(2-4) circle_start_inv [OF assms(5,6), unfolded st(1)] p4(2)] obtain v' n ys where
    v': "drawCircle_loop x0 y0 c (circle_start r) (drawPixel (x0 - r) y0 c (drawPixel (x0 + r) y0 c (drawPixel x0 (y0 - r) c (drawPixel x0 (y0 + r) c v)))) = Some v'"
      "circle_arc r 0 r n ys"
      "draws (drawPixel (x0 - r) y0 c (drawPixel (x0 + r) y0 c (drawPixel x0 (y0 - r) c (drawPixel x0 (y0 + r) c v)))) v'
        (\<lambda>X Y. \<exists>k. 0 < k \<and> k \<le> n \<and> reflected x0 y0 (int k) (ys k) X Y) c"
    unfolding st by auto
  have z: "ys 0 = r" using v'(2) by (simp add: circle_arc_def)
  have "(((((False \<or> x' = x0 \<and> y' = y0 + r) \<or> x' = x0 \<and> y' = y0 - r) \<or> x' = x0 + r \<and> y' = y0) \<or> x' = x0 - r \<and> y' = y0) \<or>
      (\<exists>k. 0 < k \<and> k \<le> n \<and> reflected x0 y0 (int k) (ys k) x' y')) \<longleftrightarrow> (\<exists>k \<le> n. reflected x0 y0 (int k) (ys k) x' y')" for x' y'
  proof -
    have "reflected x0 y0 0 r x' y' \<longleftrightarrow> x' = x0 \<and> (y' = y0 + r \<or> y' = y0 - r) \<or> y' = y0 \<and> (x' = x0 + r \<or> x' = x0 - r)"
      unfolding reflected_iff [OF order_refl assms(5)] by auto
    then have r: "reflected x0 y0 (int 0) (ys 0) x' y' \<longleftrightarrow>
        (((x' = x0 \<and> y' = y0 + r) \<or> x' = x0 \<and> y' = y0 - r) \<or> x' = x0 + r \<and> y' = y0) \<or> x' = x0 - r \<and> y' = y0"
      by (simp add: z) argo
    show ?thesis unfolding ex_le_0 [of n "\<lambda>k. reflected x0 y0 (int k) (ys k) x' y'"] r by simp
  qed
  then have "draws v v' (\<lambda>x y. \<exists>k \<le> n. reflected x0 y0 (int k) (ys k) x y) c"
    by (intro draws_cong [OF draws_trans [OF p4(1) v'(3)]])
  then show ?thesis using v'(1,2) by (auto simp: drawCircle_def sh)
qed

end
