(* ===== verification/Vga_Fill.thy ===== *)
theory Vga_Fill
  imports Vga_Frame
begin

section \<open>The integer square root\<close>

lemma sqrt_shrink_ok:
  "k \<le> 15 \<Longrightarrow> unat b = 4 ^ k \<Longrightarrow> 0 < r \<Longrightarrow> unat r < 4 ^ Suc k \<Longrightarrow>
   \<exists>j \<le> 15. unat (sqrt_shrink b r) = 4 ^ j \<and> 4 ^ j \<le> unat r \<and> unat r < 4 ^ Suc j"
proof (induction k arbitrary: b)
  case 0
  then have "sqrt_shrink b r = b" by (subst sqrt_shrink.simps) (simp add: word_less_nat_alt)
  then show ?case using 0 by (intro exI [of _ 0]) (simp add: word_less_nat_alt)
next
  case (Suc k)
  show ?case
  proof (cases "b > r")
    case True
    have "unat (drop_bit 2 b) = 4 ^ k" using Suc.prems(2) by (simp add: drop_bit_eq_div unat_div)
    moreover have "unat r < 4 ^ Suc k" using True Suc.prems(2) by (simp add: word_less_nat_alt)
    ultimately show ?thesis using Suc.IH [of "drop_bit 2 b"] Suc.prems(1,3) True by (subst sqrt_shrink.simps) simp
  next
    case False
    then have "sqrt_shrink b r = b" by (subst sqrt_shrink.simps) simp
    then show ?thesis using Suc.prems False by (intro exI [of _ "Suc k"]) (simp add: word_less_nat_alt)
  qed
qed

lemma sqrt_step:
  assumes "unat b = 4 ^ k" "unat q = s * 2 ^ Suc k" "s * s + unat r = n" "n < (s + 2 ^ Suc k) * (s + 2 ^ Suc k)" "s + 2 ^ Suc k \<le> 65536"
  shows "\<exists>s' q' r'. sqrt_bits b q r = sqrt_bits (drop_bit 2 b) q' r' \<and> unat q' = s' * 2 ^ k \<and> s' * s' + unat r' = n \<and>
    n < (s' + 2 ^ k) * (s' + 2 ^ k) \<and> s' + 2 ^ k \<le> 65536"
proof -
  define p where "p = (2 :: nat) ^ k"
  have p: "0 < p" "2 ^ Suc k = 2 * p" "(4 :: nat) ^ k = p * p" by (simp_all add: p_def flip: power_mult_distrib)
  have "(s + 2 * p) * (2 * p) \<le> 65536 * 65536" using assms(5) by (intro mult_mono) (simp_all add: p_def)
  moreover have "(s + 2 * p) * (2 * p) = s * (2 * p) + p * p + 3 * (p * p)" by (simp add: algebra_simps)
  moreover have "0 < p * p" using p(1) by simp
  ultimately have m: "s * (2 * p) + p * p < 4294967296" by linarith
  have t: "unat (q + b) = s * (2 * p) + p * p" using assms(1,2) m unfolding p(2,3) by (simp add: unat_word_ariths mod_less)
  have h: "unat (drop_bit 1 q) = s * p" using assms(2) unfolding p(2) by (simp add: drop_bit_eq_div unat_div)
  have hb: "unat (drop_bit 1 q + b) = s * p + p * p"
    using m assms(1) h unfolding p(3) by (simp add: unat_word_ariths mod_less)
  have b: "0 < b" using assms(1) by (simp add: word_less_nat_alt)
  show ?thesis
  proof (cases "r \<ge> q + b")
    case True
    then have "unat (r - (q + b)) = unat r - (s * (2 * p) + p * p)" by (simp add: unat_sub t)
    moreover have "s * (2 * p) + p * p \<le> unat r" using True by (simp add: word_le_nat_alt t)
    moreover have "sqrt_bits b q r = sqrt_bits (drop_bit 2 b) (drop_bit 1 q + b) (r - (q + b))"
      using True b by (subst sqrt_bits.simps) (simp add: Let_def)
    ultimately show ?thesis using assms(3-5) hb unfolding p(2) p_def [symmetric]
      by (intro exI [of _ "s + p"] exI [of _ "drop_bit 1 q + b"] exI [of _ "r - (q + b)"]) (simp add: algebra_simps)
  next
    case False
    then have "unat r < s * (2 * p) + p * p" by (simp add: word_le_nat_alt t)
    moreover have "sqrt_bits b q r = sqrt_bits (drop_bit 2 b) (drop_bit 1 q) r" using False b by (subst sqrt_bits.simps) (simp add: Let_def)
    ultimately show ?thesis using assms(3-5) h unfolding p(2) p_def [symmetric]
      by (intro exI [of _ s] exI [of _ "drop_bit 1 q"] exI [of _ r]) (simp add: algebra_simps)
  qed
qed

lemma sqrt_bits_ok:
  "unat b = 4 ^ k \<Longrightarrow> unat q = s * 2 ^ Suc k \<Longrightarrow> s * s + unat r = n \<Longrightarrow> n < (s + 2 ^ Suc k) * (s + 2 ^ Suc k) \<Longrightarrow> s + 2 ^ Suc k \<le> 65536 \<Longrightarrow>
   unat (sqrt_bits b q r) * unat (sqrt_bits b q r) \<le> n \<and> n < Suc (unat (sqrt_bits b q r)) * Suc (unat (sqrt_bits b q r))"
proof (induction k arbitrary: b q s r)
  case 0
  from sqrt_step [OF this] obtain s' q' r' where s: "sqrt_bits b q r = sqrt_bits (drop_bit 2 b) q' r'" "unat q' = s'"
    "s' * s' + unat r' = n" "n < (s' + 1) * (s' + 1)" by auto
  have "drop_bit 2 b = 0" using 0(1) by (simp add: word_unat_eq_iff drop_bit_eq_div unat_div)
  then have "sqrt_bits b q r = q'" unfolding s(1) by (subst sqrt_bits.simps) simp
  then show ?case using s(2-4) by auto
next
  case (Suc k)
  from sqrt_step [OF Suc.prems] obtain s' q' r' where s: "sqrt_bits b q r = sqrt_bits (drop_bit 2 b) q' r'" "unat q' = s' * 2 ^ Suc k"
    "s' * s' + unat r' = n" "n < (s' + 2 ^ Suc k) * (s' + 2 ^ Suc k)" "s' + 2 ^ Suc k \<le> 65536" by auto
  have "unat (drop_bit 2 b) = 4 ^ k" using Suc.prems(1) by (simp add: drop_bit_eq_div unat_div)
  from Suc.IH [OF this s(2-5)] show ?case unfolding s(1) .
qed

lemma sqrt_i32_floor:
  fixes v :: u32
  shows "unat (sqrt_i32 v) * unat (sqrt_i32 v) \<le> unat v \<and> unat v < Suc (unat (sqrt_i32 v)) * Suc (unat (sqrt_i32 v))"
proof (cases "v = 0")
  case True
  have "sqrt_i32 0 = 0" by (simp add: sqrt_i32_def sqrt_shrink.simps sqrt_bits.simps)
  then show ?thesis using True by simp
next
  case False
  then have "0 < v" by (simp add: word_gt_0)
  moreover have "unat v < 4 ^ Suc 15" using unsigned_less [of v] by simp
  ultimately obtain j where j: "j \<le> 15" "unat (sqrt_shrink (push_bit 30 1) v) = 4 ^ j" "unat v < 4 ^ Suc j"
    using sqrt_shrink_ok [of 15 "push_bit 30 1" v] by auto
  have "(4 :: nat) ^ Suc j = 2 ^ Suc j * 2 ^ Suc j" by (simp flip: power_mult_distrib)
  moreover have "(2 :: nat) ^ Suc j \<le> 2 ^ 16" using j(1) by (intro power_increasing) simp_all
  ultimately show ?thesis using j(3) unfolding sqrt_i32_def by (intro sqrt_bits_ok [OF j(2), where s = 0]) simp_all
qed

section \<open>Filled circles\<close>

text \<open>
  The pixels of the disc: the distance is measured from the left edge of column \<open>x0\<close>, so the disc is as wide on the left of it as
  on the right; the \<open>r\<close> added to the square of the radius is the better fit of the comment in the code.
\<close>

definition disc :: "int \<Rightarrow> int \<Rightarrow> int \<Rightarrow> int \<Rightarrow> int \<Rightarrow> bool" where
  "disc x0 y0 r x y \<longleftrightarrow> (y - y0) * (y - y0) + (if x < x0 then (x0 - x) * (x0 - x) else (x + 1 - x0) * (x + 1 - x0)) \<le> r * r + r"

lemma sqrt_i32_le:
  assumes "0 \<le> n" "n < 4294967296" "0 \<le> u"
  shows "u \<le> uint (sqrt_i32 (word_of_int n)) \<longleftrightarrow> u * u \<le> n"
proof -
  define s where "s = uint (sqrt_i32 (word_of_int n))"
  define w where "w = (word_of_int n :: u32)"
  have w: "int (unat w) = n" using assms(1,2) by (simp add: w_def unsigned_of_int take_bit_int_eq_self)
  have s: "int (unat (sqrt_i32 w)) = s" by (simp add: s_def w_def)
  have "int (unat (sqrt_i32 w) * unat (sqrt_i32 w)) \<le> int (unat w)" "int (unat w) < int (Suc (unat (sqrt_i32 w)) * Suc (unat (sqrt_i32 w)))"
    using sqrt_i32_floor [of w] by (simp_all only: of_nat_le_iff of_nat_less_iff)
  then have n: "s * s \<le> n" "n < (s + 1) * (s + 1)" "0 \<le> s" unfolding of_nat_mult of_nat_Suc s w by (simp_all add: add.commute s_def)
  show ?thesis unfolding s_def [symmetric]
  proof
    assume "u \<le> s"
    then have "u * u \<le> s * s" using assms(3) by (intro mult_mono) simp_all
    with n show "u * u \<le> n" by simp
  next
    assume "u * u \<le> n"
    then have "u * u < (s + 1) * (s + 1)" using n by simp
    then show "u \<le> s" using assms(3) n(3) by (meson mult_mono not_less zle_add1_eq_le linorder_not_le order_trans less_imp_le zero_le_one add_nonneg_nonneg)
  qed
qed

lemma fillCircle_row:
  assumes "1 \<le> r" "r \<le> 239" "0 \<le> i" "i \<le> r"
  defines "dx \<equiv> uint (sqrt_i32 (word_of_int (r * r + r - i * i)))"
  shows "1 \<le> dx" "dx \<le> r" "y = y0 + i \<or> y = y0 - i \<Longrightarrow> x0 - dx \<le> x \<and> x < x0 + dx \<longleftrightarrow> disc x0 y0 r x y"
proof -
  have i: "i * i \<le> r * r" using assms(3,4) by (intro mult_mono) simp_all
  have "r * r \<le> 239 * 239" using assms(1,2) by (intro mult_mono) simp_all
  then have n: "0 \<le> r * r + r - i * i" "r * r + r - i * i < 4294967296" using i assms(1,2) zero_le_square [of i] by linarith+
  note u = sqrt_i32_le [OF n, folded dx_def]
  show "1 \<le> dx" using u [of 1] i assms(1) by simp
  have "r * r + r < (r + 1) * (r + 1)" using assms(1) by (simp add: algebra_simps)
  then have "\<not> r + 1 \<le> dx" using u [of "r + 1"] assms(1) zero_le_square [of i] by linarith
  then show "dx \<le> r" by simp
  assume "y = y0 + i \<or> y = y0 - i"
  then have y: "(y - y0) * (y - y0) = i * i" by auto
  show "x0 - dx \<le> x \<and> x < x0 + dx \<longleftrightarrow> disc x0 y0 r x y"
    using u [of "x0 - x"] u [of "x + 1 - x0"] \<open>1 \<le> dx\<close> unfolding disc_def y by (cases "x < x0") auto
qed

lemma fillCircle_loop_draws:
  assumes "c < 16" "1 \<le> r" "r \<le> x0" "x0 + r \<le> 640" "r \<le> y0" "y0 + r \<le> 479"
  shows "screen_ok v \<Longrightarrow> 0 \<le> i \<Longrightarrow> i + int n = r + 1 \<Longrightarrow>
    draws v (fillCircle_loop n i x0 y0 (r * r + r) c v) (\<lambda>x y. disc x0 y0 r x y \<and> i \<le> \<bar>y - y0\<bar>) c"
proof (induction n arbitrary: i v)
  case 0
  have "\<not> disc x0 y0 r x y" if "r + 1 \<le> \<bar>y - y0\<bar>" for x y
  proof -
    have "(r + 1) * (r + 1) \<le> \<bar>y - y0\<bar> * \<bar>y - y0\<bar>" using that assms(2) by (intro mult_mono) simp_all
    then have "r * r + r < (y - y0) * (y - y0)" using assms(2) by (simp add: abs_mult_self_eq algebra_simps)
    then show ?thesis using zero_le_square [of "x0 - x"] zero_le_square [of "x + 1 - x0"]
      unfolding disc_def not_le by (simp only: split: if_split) linarith
  qed
  then show ?case using 0 by (auto simp: draws_def)
next
  case (Suc n)
  define dx where "dx = uint (sqrt_i32 (word_of_int (r * r + r - i * i)))"
  have r: "r \<le> 239" "i \<le> r" using assms(5,6) Suc.prems(3) by simp_all
  note row = fillCircle_row [OF assms(2) r(1) Suc.prems(2) r(2), folded dx_def]
  have h: "hclip (x0 - dx) (2 * dx) = 2 * dx" using row(2) assms(4) by (simp add: hclip_def)
  define v1 where "v1 = drawHLine (x0 - dx) (y0 + i) (2 * dx) c v"
  define v2 where "v2 = drawHLine (x0 - dx) (y0 - i) (2 * dx) c v1"
  have d1: "draws v v1 (\<lambda>x y. y = y0 + i \<and> x0 - dx \<le> x \<and> x < x0 - dx + 2 * dx) c"
    unfolding v1_def using drawHLine_draws [OF Suc.prems(1) assms(1), of "x0 - dx" "y0 + i" "2 * dx"] row(1,2) assms Suc.prems(2) by (simp add: h)
  have s1: "screen_ok v1" using paints_sel(5) [OF draws_paints [OF d1]] Suc.prems(1) by simp
  have d2: "draws v1 v2 (\<lambda>x y. y = y0 - i \<and> x0 - dx \<le> x \<and> x < x0 - dx + 2 * dx) c"
    unfolding v2_def using drawHLine_draws [OF s1 assms(1), of "x0 - dx" "y0 - i" "2 * dx"] row(1,2) assms r(2) by (simp add: h)
  have s2: "screen_ok v2" using paints_sel(5) [OF draws_paints [OF d2]] s1 by simp
  have run: "fillCircle_loop (Suc n) i x0 y0 (r * r + r) c v = fillCircle_loop n (i + 1) x0 y0 (r * r + r) c v2"
    by (simp add: dx_def v1_def v2_def Let_def)
  have "0 \<le> i + 1" "i + 1 + int n = r + 1" using Suc.prems by simp_all
  from draws_trans [OF draws_trans [OF d1 d2] Suc.IH [OF s2 this]] show ?case unfolding run
  proof (rule draws_cong)
    fix x y
    have "x < x0 - dx + 2 * dx \<longleftrightarrow> x < x0 + dx" by linarith
    moreover have "(i \<le> \<bar>y - y0\<bar>) = (y = y0 + i \<or> y = y0 - i \<or> i + 1 \<le> \<bar>y - y0\<bar>)" using Suc.prems(2) by auto
    ultimately show "((y = y0 + i \<and> x0 - dx \<le> x \<and> x < x0 - dx + 2 * dx \<or> y = y0 - i \<and> x0 - dx \<le> x \<and> x < x0 - dx + 2 * dx) \<or>
        disc x0 y0 r x y \<and> i + 1 \<le> \<bar>y - y0\<bar>) = (disc x0 y0 r x y \<and> i \<le> \<bar>y - y0\<bar>)"
      using row(3) [of y y0 x0 x] by auto
  qed
qed

lemma fillCircle_draws:
  assumes "screen_ok v" "c < 16" "1 \<le> r" "r \<le> x0" "x0 + r \<le> 640" "r \<le> y0" "y0 + r \<le> 479"
  shows "draws v (fillCircle x0 y0 r c v) (disc x0 y0 r) c"
proof -
  have sh: "short x0 = x0" "short y0 = y0" "short r = r" using assms(3-7) by (auto intro!: short_same)
  have "fillCircle x0 y0 r c v = fillCircle_loop (nat (r + 1)) 0 x0 y0 (r * r + r) c v" using assms(3-7) by (simp add: fillCircle_def sh)
  moreover have "draws v (fillCircle_loop (nat (r + 1)) 0 x0 y0 (r * r + r) c v) (\<lambda>x y. disc x0 y0 r x y \<and> 0 \<le> \<bar>y - y0\<bar>) c"
    using assms by (intro fillCircle_loop_draws) simp_all
  ultimately show ?thesis by simp
qed

end
