(* ===== verification/Vga_Round.thy ===== *)
theory Vga_Round
  imports Vga_Shapes Vga_Fill
begin

text \<open>
  The corners, the filled corners and the round rectangles: they return, and write only bytes of the frame buffer, when the figure does
  not begin above or to the left of the screen.
\<close>

lemma helper_points_paints: "screen_ok v \<Longrightarrow> paints v (helper_points x0 y0 x y n c v)"
proof -
  assume ok: "screen_ok v"
  have two: "paints u (if b then drawPixel x1 y1 c (drawPixel x2 y2 c u) else u)" if "screen_ok u" for b x1 y1 x2 y2 u
    using drawPixel_paints [OF that, of x2 y2 c] drawPixel_paints [of "drawPixel x2 y2 c u" x1 y1 c] paints_sel(5) paints_trans that by auto
  have then_two: "paints v (if b then drawPixel x1 y1 c (drawPixel x2 y2 c u) else u)" if "paints v u" for b x1 y1 x2 y2 u
    using two [of u] paints_trans [OF that] paints_sel(5) [OF that] ok by blast
  show ?thesis unfolding helper_points_def Let_def by (intro then_two paints_refl)
qed

lemma drawCircleHelper_loop_paints:
  "circle_inv r (f, ddF_x, ddF_y, x, y) \<Longrightarrow> screen_ok v \<Longrightarrow>
   \<exists>v'. drawCircleHelper_loop x0 y0 n c (f, ddF_x, ddF_y, x, y) v = Some v' \<and> paints v v'"
proof (induction "nat (y - x)" arbitrary: f ddF_x ddF_y x y v rule: less_induct)
  case less
  show ?case
  proof (cases "x < y")
    case False
    then have "drawCircleHelper_loop x0 y0 n c (f, ddF_x, ddF_y, x, y) v = Some v" by (subst drawCircleHelper_loop.simps) simp
    then show ?thesis by simp
  next
    case True
    from circle_step_inv [OF less.prems(1) True] obtain f' y' where st:
      "circle_step (f, ddF_x, ddF_y, x, y) = (f', 2 * (x + 1) + 1, - 2 * y', x + 1, y')"
      "circle_inv r (f', 2 * (x + 1) + 1, - 2 * y', x + 1, y')" "y' = y \<or> y' = y - 1" by blast
    note p = helper_points_paints [OF less.prems(2), of x0 y0 "x + 1" y' n c]
    have "screen_ok (helper_points x0 y0 (x + 1) y' n c v)" using paints_sel(5) [OF p] less.prems(2) by simp
    moreover have "nat (y' - (x + 1)) < nat (y - x)" using st(3) True by auto
    ultimately obtain v' where "drawCircleHelper_loop x0 y0 n c (f', 2 * (x + 1) + 1, - 2 * y', x + 1, y') (helper_points x0 y0 (x + 1) y' n c v) = Some v'"
      "paints (helper_points x0 y0 (x + 1) y' n c v) v'" using less.hyps [OF _ st(2)] by blast
    then show ?thesis using True st(1) paints_trans [OF p] by (subst drawCircleHelper_loop.simps) simp
  qed
qed

lemma drawCircleHelper_paints:
  assumes "screen_ok v" "0 \<le> r" "r \<le> 8191"
  shows "\<exists>v'. drawCircleHelper x0 y0 r n c v = Some v' \<and> paints v v'"
proof -
  obtain f a b x y where st: "circle_start r = (f, a, b, x, y)" by (metis prod_cases5)
  have "short r = r" using assms(2,3) by (intro short_same) simp_all
  then show ?thesis using drawCircleHelper_loop_paints [OF circle_start_inv [OF assms(2,3), unfolded st] assms(1)]
    by (simp add: drawCircleHelper_def st)
qed

lemma drawVLine_returns:
  "screen_ok v \<Longrightarrow> c < 16 \<Longrightarrow> short y + short h \<le> 32767 \<Longrightarrow> \<exists>v'. drawVLine x y h c v = Some v' \<and> paints v v'"
  using drawVLine_draws draws_paints by blast

lemma two_lines:
  assumes "screen_ok v" "c < 16" "short y1 + short h1 \<le> 32767" "short y2 + short h2 \<le> 32767"
  shows "\<exists>v'. (if b then do { v \<leftarrow> drawVLine x1 y1 h1 c v; drawVLine x2 y2 h2 c v } else Some v) = Some v' \<and> paints v v'"
proof -
  from drawVLine_returns [OF assms(1-3)] obtain v1 where v1: "drawVLine x1 y1 h1 c v = Some v1" "paints v v1" by blast
  then have "screen_ok v1" using paints_sel(5) assms(1) by simp
  from drawVLine_returns [OF this assms(2,4)] v1 paints_trans [OF v1(2)] show ?thesis by auto
qed

lemma fillCircleHelper_loop_paints:
  assumes "c < 16" "\<bar>x0\<bar> \<le> 8191" "\<bar>y0\<bar> \<le> 8191" "\<bar>delta\<bar> \<le> 255"
  shows "circle_inv r (f, ddF_x, ddF_y, x, y) \<Longrightarrow> screen_ok v \<Longrightarrow>
   \<exists>v'. fillCircleHelper_loop x0 y0 n delta c (f, ddF_x, ddF_y, x, y) v = Some v' \<and> paints v v'"
proof (induction "nat (y - x)" arbitrary: f ddF_x ddF_y x y v rule: less_induct)
  case less
  show ?case
  proof (cases "x < y")
    case False
    then have "fillCircleHelper_loop x0 y0 n delta c (f, ddF_x, ddF_y, x, y) v = Some v" by (subst fillCircleHelper_loop.simps) simp
    then show ?thesis by simp
  next
    case True
    from circle_step_inv [OF less.prems(1) True] obtain f' y' where st:
      "circle_step (f, ddF_x, ddF_y, x, y) = (f', 2 * (x + 1) + 1, - 2 * y', x + 1, y')"
      "circle_inv r (f', 2 * (x + 1) + 1, - 2 * y', x + 1, y')" "y' = y \<or> y' = y - 1" "0 \<le> y'" "y' \<le> r" by blast
    have x: "0 \<le> x" "y \<le> r" "r \<le> 8191" using less.prems(1) by (simp_all add: circle_inv_def)
    have "short (y0 - y') = y0 - y'" "short (2 * y' + 1 + delta) = 2 * y' + 1 + delta"
      "short (y0 - (x + 1)) = y0 - (x + 1)" "short (2 * (x + 1) + 1 + delta) = 2 * (x + 1) + 1 + delta"
      using assms x st(4,5) True by (auto intro!: short_same)
    then have h: "short (y0 - y') + short (2 * y' + 1 + delta) \<le> 32767" "short (y0 - (x + 1)) + short (2 * (x + 1) + 1 + delta) \<le> 32767"
      using assms x st(4,5) True by auto
    from two_lines [OF less.prems(2) assms(1) h, of "n AND 1 \<noteq> 0" "x0 + (x + 1)" "x0 + y'"] obtain v1 where
      v1: "(if n AND 1 \<noteq> 0 then do { v \<leftarrow> drawVLine (x0 + (x + 1)) (y0 - y') (2 * y' + 1 + delta) c v;
          drawVLine (x0 + y') (y0 - (x + 1)) (2 * (x + 1) + 1 + delta) c v } else Some v) = Some v1" "paints v v1" by blast
    have s1: "screen_ok v1" using v1(2) paints_sel(5) less.prems(2) by simp
    from two_lines [OF s1 assms(1) h, of "n AND 2 \<noteq> 0" "x0 - (x + 1)" "x0 - y'"] obtain v2 where
      v2: "(if n AND 2 \<noteq> 0 then do { v \<leftarrow> drawVLine (x0 - (x + 1)) (y0 - y') (2 * y' + 1 + delta) c v1;
          drawVLine (x0 - y') (y0 - (x + 1)) (2 * (x + 1) + 1 + delta) c v } else Some v1) = Some v2" "paints v1 v2" by blast
    have s2: "screen_ok v2" using v2(2) paints_sel(5) s1 by simp
    have "nat (y' - (x + 1)) < nat (y - x)" using st(3) True by auto
    from less.hyps [OF this st(2) s2] obtain v' where v':
      "fillCircleHelper_loop x0 y0 n delta c (f', 2 * (x + 1) + 1, - 2 * y', x + 1, y') v2 = Some v'" "paints v2 v'" by blast
    have "fillCircleHelper_loop x0 y0 n delta c (f, ddF_x, ddF_y, x, y) v = Some v'"
      by (subst fillCircleHelper_loop.simps) (simp only: prod.case st(1) True if_True v1(1) v2(1) v'(1) Option.bind.bind_lunit)
    then show ?thesis using paints_trans [OF paints_trans [OF v1(2) v2(2)] v'(2)] by blast
  qed
qed

lemma fillCircleHelper_paints:
  assumes "screen_ok v" "c < 16" "\<bar>x0\<bar> \<le> 8191" "\<bar>y0\<bar> \<le> 8191" "\<bar>delta\<bar> \<le> 255" "0 \<le> r" "r \<le> 8191"
  shows "\<exists>v'. fillCircleHelper x0 y0 r n delta c v = Some v' \<and> paints v v'"
proof -
  obtain f a b x y where st: "circle_start r = (f, a, b, x, y)" by (metis prod_cases5)
  have "short r = r" "short x0 = x0" "short y0 = y0" "short delta = delta" using assms by (auto intro!: short_same)
  then show ?thesis using fillCircleHelper_loop_paints [OF assms(2-5) circle_start_inv [OF assms(6,7), unfolded st] assms(1)]
    by (simp add: fillCircleHelper_def st)
qed

lemma fillCircle_loop_paints:
  assumes "r \<le> 239" "r \<le> x0" "r \<le> y0"
  shows "screen_ok v \<Longrightarrow> 0 \<le> i \<Longrightarrow> i + int n = r + 1 \<Longrightarrow> paints v (fillCircle_loop n i x0 y0 (r * r + r) c v)"
proof (induction n arbitrary: i v)
  case (Suc n)
  define dx where "dx = uint (sqrt_i32 (word_of_int (r * r + r - i * i)))"
  have r: "i \<le> r" "0 \<le> r" using Suc.prems(2,3) by simp_all
  have i: "i * i \<le> r * r" using r Suc.prems(2) by (intro mult_mono) simp_all
  have "r * r \<le> 239 * 239" using assms(1) r by (intro mult_mono) simp_all
  then have n: "0 \<le> r * r + r - i * i" "r * r + r - i * i < 4294967296" using i assms(1) r zero_le_square [of i] by linarith+
  have "r * r + r < (r + 1) * (r + 1)" using r by (simp add: algebra_simps)
  then have "\<not> r + 1 \<le> dx" using sqrt_i32_le [OF n, of "r + 1", folded dx_def] r zero_le_square [of i] by linarith
  then have x: "0 \<le> x0 - dx" using assms(2) by simp
  have y: "0 \<le> y0 + i" "0 \<le> y0 - i" using assms(3) r Suc.prems(2) by simp_all
  define v1 where "v1 = drawHLine (x0 - dx) (y0 + i) (2 * dx) c v"
  have p1: "paints v v1" unfolding v1_def by (rule drawHLine_paints [OF Suc.prems(1) x y(1)])
  have s1: "screen_ok v1" using paints_sel(5) [OF p1] Suc.prems(1) by simp
  define v2 where "v2 = drawHLine (x0 - dx) (y0 - i) (2 * dx) c v1"
  have p2: "paints v1 v2" unfolding v2_def by (rule drawHLine_paints [OF s1 x y(2)])
  have s2: "screen_ok v2" using paints_sel(5) [OF p2] s1 by simp
  have "paints v2 (fillCircle_loop n (i + 1) x0 y0 (r * r + r) c v2)" using Suc.IH [OF s2, of "i + 1"] Suc.prems(2,3) by simp
  from paints_trans [OF paints_trans [OF p1 p2] this] show ?case unfolding fillCircle_loop.simps Let_def dx_def [symmetric] v1_def [symmetric] v2_def [symmetric] .
qed simp

lemma fillCircle_paints:
  assumes "screen_ok v" "short r \<le> short x0"
  shows "paints v (fillCircle x0 y0 r c v)"
proof (cases "short y0 - short r < 0 \<or> short y0 + short r > 479 \<or> short r < 0")
  case True
  then show ?thesis by (auto simp: fillCircle_def Let_def)
next
  case False
  then have "paints v (fillCircle_loop (nat (short r + 1)) 0 (short x0) (short y0) (short r * short r + short r) c v)"
    by (intro fillCircle_loop_paints [OF _ assms(2) _ assms(1)]) simp_all
  then show ?thesis using False by (simp add: fillCircle_def Let_def)
qed

lemma paints_ok: "paints u v \<Longrightarrow> screen_ok u \<Longrightarrow> screen_ok v"
  using paints_sel(5) by simp

lemma fillRoundRect_paints:
  assumes "screen_ok v" "0 \<le> x" "x \<le> 8191" "0 \<le> y" "y \<le> 8191" "0 \<le> w" "w \<le> 8191" "0 \<le> h" "h \<le> 8191" "0 \<le> r" "r \<le> 255"
    and "r \<le> y + h" "2 * r \<le> x + w + 1"
  shows "paints v (fillRoundRect x y w h r c v)"
proof -
  have sh: "short x = x" "short y = y" "short w = w" "short h = h" "short r = r" "short (x + r) = x + r" "short (y + r) = y + r"
    "short (y + h - r) = y + h - r" "short (x + w - r) = x + w - r" "short (r - 1) = r - 1"
    using assms by (auto intro!: short_same)
  have rect: "paints v (fillRect x1 y1 w1 h1 c u)" if "paints v u" "0 \<le> short x1" "0 \<le> short y1" for x1 y1 w1 h1 u
    using paints_trans [OF that(1) fillRect_paints [OF paints_ok [OF that(1) assms(1)] that(2,3)]] .
  have circle: "paints v (fillCircle x1 y1 (r - 1) c u)" if "paints v u" "r - 1 \<le> short x1" for x1 y1 u
    using paints_trans [OF that(1) fillCircle_paints [OF paints_ok [OF that(1) assms(1)]]] that(2) sh by simp
  show ?thesis unfolding fillRoundRect_def Let_def sh(1-5)
    by (intro rect circle paints_refl) (use assms sh in auto)
qed

lemma drawRoundRect_paints:
  assumes "screen_ok v" "c < 16" "0 \<le> x" "x \<le> 8191" "0 \<le> y" "y \<le> 8191" "0 \<le> w" "w \<le> 8191" "0 \<le> h" "h \<le> 8191" "0 \<le> r" "r \<le> 255" "1 \<le> y + h"
  shows "\<exists>v'. drawRoundRect x y w h r c v = Some v' \<and> paints v v'"
proof -
  have sh: "short x = x" "short y = y" "short w = w" "short h = h" "short r = r" "short (y + r) = y + r" "short (h - 2 * r) = h - 2 * r"
    using assms by (auto intro!: short_same)
  have low: "short (y + r) + short (h - 2 * r) \<le> 32767" using assms sh by simp
  define v1 where "v1 = drawHLine (x + r) y (w - 2 * r) c v"
  have p1: "paints v v1" unfolding v1_def using assms by (intro drawHLine_paints) simp_all
  define v2 where "v2 = drawHLine (x + r) (y + h - 1) (w - 2 * r) c v1"
  have p2: "paints v v2" unfolding v2_def using assms by (intro paints_trans [OF p1] drawHLine_paints paints_ok [OF p1]) simp_all
  have line: "\<exists>u'. drawVLine x1 (y + r) (h - 2 * r) c u = Some u' \<and> paints v u'" if "paints v u" for u x1
    using drawVLine_returns [OF paints_ok [OF that assms(1)] assms(2) low] paints_trans [OF that] by blast
  have corner: "\<exists>u'. drawCircleHelper x1 y1 r k c u = Some u' \<and> paints v u'" if "paints v u" for u x1 y1 k
    using drawCircleHelper_paints [OF paints_ok [OF that assms(1)] assms(11)] assms(12) paints_trans [OF that] by fastforce
  from line [OF p2, of x] obtain v3 where v3: "drawVLine x (y + r) (h - 2 * r) c v2 = Some v3" "paints v v3" by blast
  from line [OF v3(2), of "x + w - 1"] obtain v4 where v4: "drawVLine (x + w - 1) (y + r) (h - 2 * r) c v3 = Some v4" "paints v v4" by blast
  from corner [OF v4(2), of "x + r" "y + r" 1] obtain v5 where v5: "drawCircleHelper (x + r) (y + r) r 1 c v4 = Some v5" "paints v v5" by blast
  from corner [OF v5(2), of "x + w - r - 1" "y + r" 2] obtain v6 where
    v6: "drawCircleHelper (x + w - r - 1) (y + r) r 2 c v5 = Some v6" "paints v v6" by blast
  from corner [OF v6(2), of "x + w - r - 1" "y + h - r - 1" 4] obtain v7 where
    v7: "drawCircleHelper (x + w - r - 1) (y + h - r - 1) r 4 c v6 = Some v7" "paints v v7" by blast
  from corner [OF v7(2), of "x + r" "y + h - r - 1" 8] obtain v8 where
    v8: "drawCircleHelper (x + r) (y + h - r - 1) r 8 c v7 = Some v8" "paints v v8" by blast
  have "drawRoundRect x y w h r c v = Some v8"
    unfolding drawRoundRect_def Let_def sh(1-5) v1_def [symmetric] v2_def [symmetric] by (simp add: v3(1) v4(1) v5(1) v6(1) v7(1) v8(1))
  then show ?thesis using v8(2) by blast
qed

end
