(* ===== verification/Vga_Text.thy ===== *)
theory Vga_Text
  imports Vga_Frame
begin

text \<open>
  The terminal of the video card (\<open>vga_primitives.c\<close>, \<open>scroll_up_graphics\<close> and its DMA copy of \<open>vga.c\<close>, \<open>font.c\<close>): characters,
  control characters, cursor, scrolling. The tables of the glyphs are data: \<open>f_data\<close> and \<open>small_font\<close> (the table \<open>font_5x7\<close>) are
  any functions of the index. The unused variables \<open>cursorx\<close> and \<open>cursory\<close> of \<open>put_cursor\<close> are left out. The second part refines it to
  a grid of 80 by 30 cells.
\<close>

section \<open>Definitions\<close>

definition clrscr :: "vga \<Rightarrow> vga" where
  "clrscr v = v\<lparr>vg_data := fset (vg_data v) 0 (int (txcount v)) 0, cur_x := 0, cur_y := 0\<rparr>"

definition dec_cursor_x :: "vga \<Rightarrow> vga" where
  "dec_cursor_x v = (let x = short (cur_x v - f_width (vg_font v)) in v\<lparr>cur_x := (if x < 0 then 0 else x)\<rparr>)"

definition dec_cursor_y :: "vga \<Rightarrow> vga" where
  "dec_cursor_y v = (let y = short (cur_y v - f_height (vg_font v)) in v\<lparr>cur_y := (if y < 0 then 0 else y)\<rparr>)"

definition inc_cursor_y :: "vga \<Rightarrow> vga" where
  "inc_cursor_y v = (let y = short (cur_y v + f_height (vg_font v)) in v\<lparr>cur_y := (if y > 30 then 0 else y)\<rparr>)"

definition inc_cursor_x :: "vga \<Rightarrow> vga" where
  "inc_cursor_x v =
     (let x = short (cur_x v + f_width (vg_font v)) in if x > 79 then inc_cursor_y (v\<lparr>cur_x := 0\<rparr>) else v\<lparr>cur_x := x\<rparr>)"

definition set_vga_mode :: "u8 \<Rightarrow> vga \<Rightarrow> vga" where
  "set_vga_mode m v =
     (let v = v\<lparr>video_mode := m\<rparr> in
      if m = 0 \<or> m = 1 \<or> m = 4 then v\<lparr>vg_width := 320, vg_height := 240\<rparr>
      else if m = 2 \<or> m = 3 \<or> m = 5 then v\<lparr>vg_width := 640, vg_height := 480\<rparr>
      else v\<lparr>vg_width := 640, vg_height := 480, video_mode := 2\<rparr>)"

definition setTextCursor :: "u16 \<Rightarrow> u16 \<Rightarrow> vga \<Rightarrow> vga" where
  "setTextCursor x y v =
     (if uint x \<ge> vg_width v \<or> uint y \<ge> vg_height v then v
      else
        let pixel_x = ushort (uint x * f_width (vg_font v)); pixel_y = ushort (uint y * f_height (vg_font v));
            pixel_x = (if pixel_x \<ge> vg_width v then 0 else pixel_x);
            pixel_y = (if pixel_y \<ge> vg_height v then 0 else pixel_y)
        in v\<lparr>cur_x := short pixel_x, cur_y := short pixel_y\<rparr>)"

definition getTextSize :: "vga \<Rightarrow> int" where "getTextSize v = f_size (vg_font v)"
definition set_blink_interval :: "u16 \<Rightarrow> vga \<Rightarrow> vga" where "set_blink_interval n v = v\<lparr>cur_blink_interval := n\<rparr>"
definition get_blink_interval :: "vga \<Rightarrow> u16" where "get_blink_interval v = cur_blink_interval v"
definition setTextCursorVisible :: "bool \<Rightarrow> vga \<Rightarrow> vga" where "setTextCursorVisible b v = v\<lparr>cur_visible := b\<rparr>"
definition setTextCursorBlink :: "bool \<Rightarrow> vga \<Rightarrow> vga" where "setTextCursorBlink b v = v\<lparr>cur_blink := b\<rparr>"
definition setTextColor :: "u8 \<Rightarrow> u8 \<Rightarrow> vga \<Rightarrow> vga" where "setTextColor c b v = v\<lparr>textcolor := c, textbgcolor := b\<rparr>"
definition getTextColor :: "vga \<Rightarrow> u8" where "getTextColor v = textcolor v"
definition setTextFont :: "font \<Rightarrow> vga \<Rightarrow> vga" where "setTextFont f v = v\<lparr>vg_font := f\<rparr>"

definition set_vga_home :: "vga \<Rightarrow> vga" where
  "set_vga_home v = setTextCursorVisible True (setTextCursor 0 0 (setTextCursorVisible False v))"

text \<open>\<open>set_font\<close>: the tables are arguments; an unknown number gives no font.\<close>

definition set_font :: "(u8 \<Rightarrow> nat \<Rightarrow> u8) \<Rightarrow> u8 \<Rightarrow> font option" where
  "set_font tables n =
     (if n = 0x0A then Some \<lparr>f_width = 8, f_height = 12, f_size = 1, f_data = tables n\<rparr>
      else if n = 0x0B then Some \<lparr>f_width = 8, f_height = 14, f_size = 1, f_data = tables n\<rparr>
      else if n = 0x0E then Some \<lparr>f_width = 8, f_height = 16, f_size = 1, f_data = tables n\<rparr>
      else if n = 0x0D then Some \<lparr>f_width = 8, f_height = 18, f_size = 1, f_data = tables n\<rparr>
      else None)"

text \<open>A glyph of the small font, six columns of eight pixels, each \<open>dot\<close> pixels wide: \<open>n\<close> rows, or columns, still to draw.\<close>

definition small_dot :: "int \<Rightarrow> int \<Rightarrow> int \<Rightarrow> u8 \<Rightarrow> vga \<Rightarrow> vga" where
  "small_dot x y dot color v = (if dot = 1 then drawPixel x y color v else fillRect x y dot dot color v)"

fun small_column :: "nat \<Rightarrow> int \<Rightarrow> int \<Rightarrow> u8 \<Rightarrow> u8 \<Rightarrow> u8 \<Rightarrow> int \<Rightarrow> vga \<Rightarrow> vga" where
  "small_column 0 x y line color bg dot v = v"
| "small_column (Suc n) x y line color bg dot v =
     (let v = (if line AND 1 \<noteq> 0 then small_dot x y dot color v else if bg \<noteq> color then small_dot x y dot bg v else v)
      in small_column n x (y + dot) (drop_bit 1 line) color bg dot v)"

fun small_columns :: "nat \<Rightarrow> nat \<Rightarrow> int \<Rightarrow> int \<Rightarrow> u8 \<Rightarrow> u8 \<Rightarrow> u8 \<Rightarrow> int \<Rightarrow> vga \<Rightarrow> vga" where
  "small_columns 0 i x y c color bg dot v = v"
| "small_columns (Suc n) i x y c color bg dot v =
     (let line = (if i = 5 then 0 else small_font v (unat c * 5 + i))
      in small_columns n (Suc i) (x + dot) y c color bg dot (small_column 8 x y line color bg dot v))"

definition drawChar_interna :: "int \<Rightarrow> int \<Rightarrow> u8 \<Rightarrow> u8 \<Rightarrow> u8 \<Rightarrow> int \<Rightarrow> vga \<Rightarrow> vga" where
  "drawChar_interna x y c color bg dot v =
     (if x \<ge> vg_width v \<or> y \<ge> vg_height v \<or> x + 6 * dot - 1 < 0 \<or> y + 8 * dot - 1 < 0 then v
      else small_columns 6 0 x y c color bg dot (fillRect x y (8 * dot) (8 * dot) 0 v))"

text \<open>A glyph of the current font: the most significant bit of a byte is its leftmost pixel.\<close>

fun glyph_bits :: "nat \<Rightarrow> int \<Rightarrow> int \<Rightarrow> u8 \<Rightarrow> u8 \<Rightarrow> u8 \<Rightarrow> vga \<Rightarrow> vga" where
  "glyph_bits 0 x y b color bg v = v"
| "glyph_bits (Suc n) x y b color bg v =
     glyph_bits n x y b color bg (drawPixel (x + (7 - int n)) y (if drop_bit n b AND 1 \<noteq> 0 then color else bg) v)"

fun glyph_rows :: "nat \<Rightarrow> nat \<Rightarrow> int \<Rightarrow> int \<Rightarrow> nat \<Rightarrow> u8 \<Rightarrow> u8 \<Rightarrow> vga \<Rightarrow> vga" where
  "glyph_rows 0 row x y start color bg v = v"
| "glyph_rows (Suc n) row x y start color bg v =
     glyph_rows n (Suc row) x y start color bg (glyph_bits 8 x (y + int row) (f_data (vg_font v) (start + row)) color bg v)"

definition drawChar2 :: "int \<Rightarrow> int \<Rightarrow> u8 \<Rightarrow> u8 \<Rightarrow> u8 \<Rightarrow> vga \<Rightarrow> vga" where
  "drawChar2 x y c color bg v =
     (let v = fillRect x y 8 16 bg v
      in glyph_rows (nat (f_height (vg_font v))) 0 x y (unat c * nat (f_height (vg_font v))) color bg v)"

definition drawChar :: "u8 \<Rightarrow> u8 \<Rightarrow> u8 \<Rightarrow> int \<Rightarrow> vga \<Rightarrow> vga" where
  "drawChar c color bg dot v =
     (if dot = 2 then drawChar_interna (cur_x v) (cur_y v) c color bg dot v else drawChar2 (cur_x v) (cur_y v) c color bg v)"

definition put_cursor :: "bool \<Rightarrow> vga \<Rightarrow> vga" where
  "put_cursor c v =
     (if cur_visible v then
        if cur_blink v then
          if c then drawChar (cur_shape v) (textcolor v) (textbgcolor v) 1 v else drawChar 0x20 (textcolor v) (textbgcolor v) 1 v
        else drawChar (cur_shape v) (textcolor v) (textbgcolor v) 1 v
      else drawChar 0x20 (textcolor v) (textbgcolor v) 1 v)"

text \<open>
  \<open>dma_memcpy\<close> with \<open>block\<close> set, as \<open>scroll_up_graphics\<close> calls it, within the frame buffer: \<open>n\<close> transfers of \<open>w\<close> bytes, the addresses
  incremented. The bytes up to a multiple of four are copied one at a time.
\<close>

fun dma_copy :: "nat \<Rightarrow> int \<Rightarrow> int \<Rightarrow> int \<Rightarrow> (int \<Rightarrow> u8) \<Rightarrow> int \<Rightarrow> u8" where
  "dma_copy 0 w d s f = f"
| "dma_copy (Suc n) w d s f = dma_copy n w (d + w) (s + w) (\<lambda>j. if d \<le> j \<and> j < d + w then f (s + (j - d)) else f j)"

fun dma_head :: "int \<Rightarrow> int \<Rightarrow> int \<Rightarrow> nat \<Rightarrow> (int \<Rightarrow> u8) \<Rightarrow> int \<times> int \<times> nat \<times> (int \<Rightarrow> u8)" where
  "dma_head base d s 0 f = (d, s, 0, f)"
| "dma_head base d s (Suc n) f =
     (if (base + d) mod 4 \<noteq> 0 then dma_head base (d + 1) (s + 1) n (f(d := f s)) else (d, s, Suc n, f))"

definition dma_memcpy :: "int \<Rightarrow> int \<Rightarrow> int \<Rightarrow> nat \<Rightarrow> (int \<Rightarrow> u8) \<Rightarrow> int \<Rightarrow> u8" where
  "dma_memcpy base d s num f =
     (if num = 0 then f
      else if num < 16 then (\<lambda>j. if d \<le> j \<and> j < d + int num then f (s + (j - d)) else f j)
      else if (base + d) mod 4 \<noteq> (base + s) mod 4 then dma_copy num 1 d s f
      else case dma_head base d s num f of (d, s, num, f) \<Rightarrow>
        if num = 0 then f
        else dma_copy (num mod 4) 1 (d + int (4 * (num div 4))) (s + int (4 * (num div 4))) (dma_copy (num div 4) 4 d s f))"

definition scroll_up_graphics :: "vga \<Rightarrow> vga" where
  "scroll_up_graphics v = v\<lparr>vg_data := fset (dma_memcpy (vg_base v) 0 5120 148480 (vg_data v)) 148480 5120 0\<rparr>"

definition write_char :: "u8 \<Rightarrow> vga \<Rightarrow> vga" where
  "write_char c v =
     (let f = vg_font v; v = drawChar c (textcolor v) (textbgcolor v) (f_size f) v; x = short (cur_x v + f_width f)
      in if x \<ge> vg_width v then v\<lparr>cur_x := 0, cur_y := short (cur_y v + f_height f)\<rparr> else v\<lparr>cur_x := x\<rparr>)"

text \<open>The switch of \<open>tft_write\<close>, and its end.\<close>

definition tft_switch :: "u8 \<Rightarrow> vga \<Rightarrow> vga" where
  "tft_switch c v =
     (let f = vg_font v in
      if c = 0x0A then let v = put_cursor False v in put_cursor True (v\<lparr>cur_x := 0, cur_y := short (cur_y v + f_height f)\<rparr>)
      else if c = 0x0D then put_cursor True (v\<lparr>cur_x := 0\<rparr>)
      else if c = 0x08 then
        let v = put_cursor False v; x = short (cur_x v - f_width f) in put_cursor True (v\<lparr>cur_x := (if x < 0 then 0 else x)\<rparr>)
      else if c = 0x09 then
        let new_x = cur_x v + tabspace v in if new_x < vg_width v then v\<lparr>cur_x := short new_x\<rparr> else v
      else write_char c v)"

definition tft_write :: "u8 \<Rightarrow> vga \<Rightarrow> vga" where
  "tft_write c v =
     (let v = tft_switch c v in
      if cur_y v \<ge> vg_height v then (scroll_up_graphics v)\<lparr>cur_x := 0, cur_y := short (cur_y v - f_height (vg_font v))\<rparr> else v)"

fun write_string :: "u8 list \<Rightarrow> vga \<Rightarrow> vga" where
  "write_string [] v = v"
| "write_string (c # cs) v = write_string cs (tft_write c v)"

definition printString :: "u8 list \<Rightarrow> vga \<Rightarrow> vga" where
  "printString str v = setTextCursorVisible True (write_string str (setTextCursorVisible False v))"

definition hex_digit :: "u8 \<Rightarrow> u8" where
  "hex_digit n = (if n < 10 then 0x30 + n else 0x37 + n)"

definition u8_to_hex :: "u8 \<Rightarrow> u8 list" where
  "u8_to_hex b = [hex_digit (drop_bit 4 b AND 0xF), hex_digit (b AND 0xF)]"

definition printString2 :: "u8 list \<Rightarrow> u32 \<Rightarrow> vga \<Rightarrow> vga" where
  "printString2 str num v = write_string (u8_to_hex (ucast num)) (write_string str v)"

definition printString1 :: "u8 list \<Rightarrow> u32 \<Rightarrow> vga \<Rightarrow> vga" where
  "printString1 str num v = tft_write 0x0A (write_string (u8_to_hex (ucast num)) (write_string str v))"

section \<open>Scrolling\<close>

lemma dma_copy_move:
  "1 \<le> w \<Longrightarrow> d + w \<le> s \<Longrightarrow> dma_copy n w d s f j = (if d \<le> j \<and> j < d + int n * w then f (s + (j - d)) else f j)"
proof (induction n arbitrary: d s f)
  case (Suc n)
  define f' where "f' = (\<lambda>j. if d \<le> j \<and> j < d + w then f (s + (j - d)) else f j)"
  have "dma_copy (Suc n) w d s f j = (if d + w \<le> j \<and> j < d + w + int n * w then f' (s + w + (j - (d + w))) else f' j)"
    using Suc.IH [of "d + w" "s + w" f'] Suc.prems by (simp add: f'_def)
  moreover have "d + int (Suc n) * w = d + w + int n * w" by (simp add: algebra_simps)
  moreover have "d + w \<le> d + w + int n * w" using Suc.prems(1) by simp
  then have "j < d + w \<Longrightarrow> j < d + w + int n * w" by linarith
  ultimately show ?case using Suc.prems unfolding f'_def by (cases "d + w \<le> j") (auto simp del: of_nat_Suc)
qed auto

lemma dma_head_move:
  "d < s \<Longrightarrow> dma_head base d s n f = (d', s', n', f') \<Longrightarrow>
   n' \<le> n \<and> d' = d + int (n - n') \<and> s' = s + int (n - n') \<and> n - n' \<le> nat (- (base + d) mod 4) \<and>
   (\<forall>j. f' j = (if d \<le> j \<and> j < d' then f (s + (j - d)) else f j))"
proof (induction base d s n f rule: dma_head.induct)
  case (2 base d s n f)
  show ?case
  proof (cases "(base + d) mod 4 = 0")
    case False
    then have run: "dma_head base (d + 1) (s + 1) n (f(d := f s)) = (d', s', n', f')" using 2(3) by simp
    have "- (base + (d + 1)) mod 4 + 1 = - (base + d) mod 4" using False by presburger
    then have "nat (- (base + d) mod 4) = Suc (nat (- (base + (d + 1)) mod 4))" by (simp add: Suc_nat_eq_nat_zadd1 flip: \<open>_ = - (base + d) mod 4\<close>)
    with "2.IH" [OF False _ run] 2(2) show ?thesis by (auto simp: fun_upd_apply Suc_diff_le)
  qed (use 2 in auto)
qed auto

text \<open>The copy upwards in the buffer: whole words while the addresses allow it, but always what \<open>memmove\<close> would do.\<close>

lemma dma_memcpy_move:
  assumes "d + 4 \<le> s"
  shows "dma_memcpy base d s num f j = (if d \<le> j \<and> j < d + int num then f (s + (j - d)) else f j)"
proof (cases "num = 0 \<or> num < 16 \<or> (base + d) mod 4 \<noteq> (base + s) mod 4")
  case True
  then show ?thesis using assms by (auto simp: dma_memcpy_def dma_copy_move)
next
  case False
  obtain d' s' n' f' where h: "dma_head base d s num f = (d', s', n', f')" by (metis prod_cases4)
  from dma_head_move [OF _ this] assms have m: "n' \<le> num" "d' = d + int (num - n')" "s' = s + int (num - n')"
    "\<And>j. f' j = (if d \<le> j \<and> j < d' then f (s + (j - d)) else f j)" by auto
  have n: "int (4 * (n' div 4)) + int (n' mod 4) = int n'" "int (n' div 4) * 4 = int (4 * (n' div 4))" by presburger+
  have "d' + 4 \<le> s'" using assms m(2,3) by simp
  then have "dma_memcpy base d s num f j = (if d' \<le> j \<and> j < d' + int n' then f' (s' + (j - d')) else f' j)"
    using False n by (auto simp: dma_memcpy_def h dma_copy_move split: if_splits)
  then show ?thesis using m(1-3) assms unfolding m(4) by auto
qed

lemma scroll_pixel:
  assumes "screen_ok v" "on_screen x y"
  shows "pixel (scroll_up_graphics v) x y = (if y < 464 then pixel v x (y + 16) else 0)"
proof -
  define q where "q = 640 * y + x"
  have x: "0 \<le> x div 2" "x div 2 < 320" "0 \<le> y" "y < 480" "q div 2 = 320 * y + x div 2" using assms(2) by (auto simp: on_screen_def q_def)
  then have q: "0 \<le> q div 2" "q div 2 < 153600" "q div 2 < 148480 \<longleftrightarrow> y < 464" by linarith+
  have "(640 * (y + 16) + x) div 2 = 5120 + q div 2" "odd (640 * (y + 16) + x) = odd q" by (simp_all add: q_def)
  then show ?thesis using assms(1) q
    by (auto simp: pixel_def scroll_up_graphics_def screen_ok_def fset_def dma_memcpy_move Let_def simp flip: q_def)
qed

lemma scroll_paints: "paints v (scroll_up_graphics v)"
  by (auto simp: paints_def scroll_up_graphics_def fset_def dma_memcpy_move)

section \<open>Glyphs\<close>

text \<open>\<open>covers v v' F\<close>: only the buffer changes, and the pixel at \<open>x\<close>, \<open>y\<close> is \<open>F x y\<close>, where that is not \<open>None\<close>.\<close>

definition covers :: "vga \<Rightarrow> vga \<Rightarrow> (int \<Rightarrow> int \<Rightarrow> u8 option) \<Rightarrow> bool" where
  "covers v v' F \<longleftrightarrow> paints v v' \<and>
     (\<forall>x y. on_screen x y \<longrightarrow> pixel v' x y = (case F x y of None \<Rightarrow> pixel v x y | Some c \<Rightarrow> c))"

lemma covers_paints: "covers v v' F \<Longrightarrow> paints v v'"
  by (simp add: covers_def)

lemma draws_covers: "draws v v' P c \<Longrightarrow> covers v v' (\<lambda>x y. if P x y then Some c else None)"
  by (simp add: covers_def draws_def)

lemma covers_trans: "covers u v F \<Longrightarrow> covers v w G \<Longrightarrow> covers u w (\<lambda>x y. case G x y of None \<Rightarrow> F x y | Some c \<Rightarrow> Some c)"
  unfolding covers_def using paints_trans by (auto split: option.splits)

lemma covers_cong: "covers v v' F \<Longrightarrow> (\<And>x y. on_screen x y \<Longrightarrow> F x y = G x y) \<Longrightarrow> covers v v' G"
  by (simp add: covers_def)

text \<open>The colour of the pixel in column \<open>i\<close> of a row of a glyph.\<close>

definition glyph_pixel :: "u8 \<Rightarrow> int \<Rightarrow> u8 \<Rightarrow> u8 \<Rightarrow> u8" where
  "glyph_pixel b i color bg = (if bit b (nat (7 - i)) then color else bg)"

lemma glyph_bits_covers:
  "screen_ok v \<Longrightarrow> c < 16 \<Longrightarrow> bg < 16 \<Longrightarrow> 0 \<le> x \<Longrightarrow> x < 640 \<Longrightarrow> 0 \<le> y \<Longrightarrow> y < 32768 \<Longrightarrow> n \<le> 8 \<Longrightarrow>
   covers v (glyph_bits n x y b c bg v)
     (\<lambda>x' y'. if y' = y \<and> x + 8 - int n \<le> x' \<and> x' < x + 8 then Some (glyph_pixel b (x' - x) c bg) else None)"
proof (induction n arbitrary: v)
  case (Suc n)
  define k where "k = (if bit b n then c else bg)"
  define v1 where "v1 = drawPixel (x + (7 - int n)) y k v"
  have k: "drop_bit n b AND 1 \<noteq> 0 \<longleftrightarrow> bit b n" by (simp add: and_one_eq bit_iff_odd_drop_bit odd_iff_mod_2_eq_one)
  have run: "glyph_bits (Suc n) x y b c bg v = glyph_bits n x y b c bg v1" unfolding glyph_bits.simps k v1_def k_def by (rule refl)
  have "short (x + (7 - int n)) = x + (7 - int n)" "short y = y" using Suc.prems by (auto intro!: short_same)
  then have d: "draws v v1 (\<lambda>x' y'. x' = x + (7 - int n) \<and> y' = y) k"
    using drawPixel_draws [OF Suc.prems(1), of k "x + (7 - int n)" y] Suc.prems(2,3) by (simp add: v1_def k_def)
  have "screen_ok v1" using paints_sel(5) [OF draws_paints [OF d]] Suc.prems(1) by simp
  from covers_trans [OF draws_covers [OF d] Suc.IH [OF this Suc.prems(2-7)]] show ?case unfolding run
    by (rule covers_cong) (use Suc.prems(8) in \<open>auto simp: glyph_pixel_def k_def\<close>)
qed (auto simp: covers_def)

lemma glyph_rows_covers:
  "screen_ok v \<Longrightarrow> c < 16 \<Longrightarrow> bg < 16 \<Longrightarrow> 0 \<le> x \<Longrightarrow> x < 640 \<Longrightarrow> 0 \<le> y \<Longrightarrow> y + int (row + n) < 32768 \<Longrightarrow> f_data (vg_font v) = t \<Longrightarrow>
   covers v (glyph_rows n row x y start c bg v)
     (\<lambda>x' y'. if y + int row \<le> y' \<and> y' < y + int (row + n) \<and> x \<le> x' \<and> x' < x + 8
       then Some (glyph_pixel (t (start + nat (y' - y))) (x' - x) c bg) else None)"
proof (induction n arbitrary: row v)
  case (Suc n)
  define v1 where "v1 = glyph_bits 8 x (y + int row) (f_data (vg_font v) (start + row)) c bg v"
  have y: "0 \<le> y + int row" "y + int row < 32768" using Suc.prems(6,7) by simp_all
  note g = glyph_bits_covers [OF Suc.prems(1-5) y, of 8 "f_data (vg_font v) (start + row)", folded v1_def]
  have p: "paints v v1" using covers_paints [OF g] by simp
  have s1: "screen_ok v1" "f_data (vg_font v1) = t" using paints_sel(5,8) [OF p] Suc.prems(1,8) by simp_all
  have "y + int (Suc row + n) < 32768" using Suc.prems(7) by simp
  from covers_trans [OF g Suc.IH [OF s1(1) Suc.prems(2-6) this s1(2)]] show ?case
    by (simp add: flip: v1_def) (rule covers_cong, assumption, use Suc.prems(8) in \<open>auto\<close>)
qed (auto simp: covers_def)

text \<open>\<open>drawChar2\<close> fills the cell first, and a glyph in the last columns loses a pixel there; the glyph covers it all again.\<close>

lemma drawChar2_covers:
  assumes "screen_ok v" "c < 16" "bg < 16" "0 \<le> x" "x \<le> 632" "0 \<le> y" "y < 30000" "f_height (vg_font v) = 16"
  shows "covers v (drawChar2 x y g c bg v)
    (\<lambda>x' y'. if y \<le> y' \<and> y' < y + 16 \<and> x \<le> x' \<and> x' < x + 8
      then Some (glyph_pixel (f_data (vg_font v) (unat g * 16 + nat (y' - y))) (x' - x) c bg) else None)"
proof -
  define v1 where "v1 = fillRect x y 8 16 bg v"
  have sh: "short x = x" "short y = y" "short 8 = 8" "short 16 = 16" using assms by (auto intro!: short_same)
  have "hclip x 8 = 8" using assms(5) by (simp add: hclip_def)
  then have d: "draws v v1 (\<lambda>x' y'. x \<le> x' \<and> x' < x + 8 \<and> y \<le> y' \<and> y' < y + 16) bg"
    using fillRect_draws [OF assms(1,3), of x y 8 16] assms(4,6) by (simp add: sh v1_def)
  have s1: "screen_ok v1" "vg_font v1 = vg_font v" using paints_sel(5,8) [OF draws_paints [OF d]] assms(1) by simp_all
  have "covers v1 (glyph_rows 16 0 x y (unat g * 16) c bg v1)
    (\<lambda>x' y'. if y \<le> y' \<and> y' < y + 16 \<and> x \<le> x' \<and> x' < x + 8
      then Some (glyph_pixel (f_data (vg_font v) (unat g * 16 + nat (y' - y))) (x' - x) c bg) else None)"
    using glyph_rows_covers [OF s1(1) assms(2,3,4) _ assms(6), of 0 16 "f_data (vg_font v)" "unat g * 16"] assms s1 by simp
  from covers_trans [OF draws_covers [OF d] this] show ?thesis
    by (simp add: drawChar2_def assms(8) s1 flip: v1_def) (rule covers_cong, assumption, auto)
qed

section \<open>The abstract terminal\<close>

text \<open>
  What the terminal promises: 80 columns and 30 rows of cells, each with a character and its two colours, or cleared; a cursor, and how
  it is shown. Moving the cursor with a control character draws it, and a hidden one is drawn as a space: a carriage return blanks the
  first cell of its row.
\<close>

datatype cell = Cleared | Glyph u8 u8 u8

record screen =
  cells :: "int \<Rightarrow> int \<Rightarrow> cell"
  at_col :: int
  at_row :: int
  ink :: u8
  paper :: u8
  shown :: bool
  blinking :: bool
  cursor_glyph :: u8

definition put_cell :: "u8 \<Rightarrow> screen \<Rightarrow> screen" where
  "put_cell g s = s\<lparr>cells := (\<lambda>i j. if i = at_col s \<and> j = at_row s then Glyph g (ink s) (paper s) else cells s i j)\<rparr>"

definition show_cursor :: "bool \<Rightarrow> screen \<Rightarrow> screen" where
  "show_cursor lit s = put_cell (if shown s \<and> (lit \<or> \<not> blinking s) then cursor_glyph s else 0x20) s"

definition roll :: "screen \<Rightarrow> screen" where
  "roll s = (if at_row s \<ge> 30 then s\<lparr>cells := (\<lambda>i j. if j = 29 then Cleared else cells s i (j + 1)), at_col := 0, at_row := at_row s - 1\<rparr> else s)"

definition type_step :: "u8 \<Rightarrow> screen \<Rightarrow> screen" where
  "type_step c s =
     (if c = 0x0A then let s = show_cursor False s in show_cursor True (s\<lparr>at_col := 0, at_row := at_row s + 1\<rparr>)
      else if c = 0x0D then show_cursor True (s\<lparr>at_col := 0\<rparr>)
      else if c = 0x08 then let s = show_cursor False s in show_cursor True (s\<lparr>at_col := max 0 (at_col s - 1)\<rparr>)
      else let s = put_cell c s in
        if at_col s = 79 then s\<lparr>at_col := 0, at_row := at_row s + 1\<rparr> else s\<lparr>at_col := at_col s + 1\<rparr>)"

definition type_char :: "u8 \<Rightarrow> screen \<Rightarrow> screen" where
  "type_char c s = roll (type_step c s)"

fun type_string :: "u8 list \<Rightarrow> screen \<Rightarrow> screen" where
  "type_string [] s = s"
| "type_string (c # cs) s = type_string cs (type_char c s)"

definition go_to :: "u16 \<Rightarrow> u16 \<Rightarrow> screen \<Rightarrow> screen" where
  "go_to x y s = (if x \<ge> 640 \<or> y \<ge> 480 then s else s\<lparr>at_col := (if x < 80 then uint x else 0), at_row := (if y < 30 then uint y else 0)\<rparr>)"

text \<open>The calls of the terminal, and the timer that blinks the cursor.\<close>

datatype term_op = Write u8 | Print "u8 list" | Clear | Move u16 u16 | Home | Colour u8 u8 | Visible bool | Blink bool | Tick bool

fun term_run :: "term_op \<Rightarrow> vga \<Rightarrow> vga" where
  "term_run (Write c) v = tft_write c v"
| "term_run (Print cs) v = printString cs v"
| "term_run Clear v = clrscr v"
| "term_run (Move x y) v = setTextCursor x y v"
| "term_run Home v = set_vga_home v"
| "term_run (Colour c b) v = setTextColor c b v"
| "term_run (Visible b) v = setTextCursorVisible b v"
| "term_run (Blink b) v = setTextCursorBlink b v"
| "term_run (Tick b) v = put_cursor b v"

fun term_spec :: "term_op \<Rightarrow> screen \<Rightarrow> screen" where
  "term_spec (Write c) s = type_char c s"
| "term_spec (Print cs) s = (type_string cs (s\<lparr>shown := False\<rparr>))\<lparr>shown := True\<rparr>"
| "term_spec Clear s = s\<lparr>cells := (\<lambda>_ _. Cleared), at_col := 0, at_row := 0\<rparr>"
| "term_spec (Move x y) s = go_to x y s"
| "term_spec Home s = s\<lparr>at_col := 0, at_row := 0, shown := True\<rparr>"
| "term_spec (Colour c b) s = s\<lparr>ink := c, paper := b\<rparr>"
| "term_spec (Visible b) s = s\<lparr>shown := b\<rparr>"
| "term_spec (Blink b) s = s\<lparr>blinking := b\<rparr>"
| "term_spec (Tick b) s = show_cursor b s"

text \<open>A tab moves the cursor by pixels, away from the cells, and a colour above 15 spills into the next pixel.\<close>

fun term_plain :: "term_op \<Rightarrow> bool" where
  "term_plain (Write c) \<longleftrightarrow> c \<noteq> 9"
| "term_plain (Print cs) \<longleftrightarrow> 9 \<notin> set cs"
| "term_plain (Colour c b) \<longleftrightarrow> c < 16 \<and> b < 16"
| "term_plain _ \<longleftrightarrow> True"

definition cell_pixel :: "font \<Rightarrow> cell \<Rightarrow> int \<Rightarrow> int \<Rightarrow> u8" where
  "cell_pixel f k i j = (case k of Cleared \<Rightarrow> 0 | Glyph g c b \<Rightarrow> glyph_pixel (f_data f (unat g * 16 + nat j)) i c b)"

definition picture :: "vga \<Rightarrow> (int \<Rightarrow> int \<Rightarrow> cell) \<Rightarrow> bool" where
  "picture v k \<longleftrightarrow> (\<forall>x y. on_screen x y \<longrightarrow> pixel v x y = cell_pixel (vg_font v) (k (x div 8) (y div 16)) (x mod 8) (y mod 16))"

definition displays :: "vga \<Rightarrow> screen \<Rightarrow> bool" where
  "displays v s \<longleftrightarrow> screen_ok v \<and> txcount v = 153600 \<and> f_width (vg_font v) = 8 \<and> f_height (vg_font v) = 16 \<and> f_size (vg_font v) = 1 \<and>
     cur_x v = 8 * at_col s \<and> cur_y v = 16 * at_row s \<and> 0 \<le> at_col s \<and> at_col s < 80 \<and> 0 \<le> at_row s \<and> at_row s \<le> 30 \<and>
     textcolor v = ink s \<and> textbgcolor v = paper s \<and> ink s < 16 \<and> paper s < 16 \<and>
     cur_visible v = shown s \<and> cur_blink v = blinking s \<and> cur_shape v = cursor_glyph s \<and> picture v (cells s)"

section \<open>Refinement\<close>

lemma picture_update:
  assumes "picture v k" "covers v v' F" "vg_font v' = vg_font v"
    "\<And>x y. on_screen x y \<Longrightarrow> F x y =
      (if x div 8 = a \<and> y div 16 = b then Some (cell_pixel (vg_font v) q (x mod 8) (y mod 16)) else None)"
  shows "picture v' (\<lambda>i j. if i = a \<and> j = b then q else k i j)"
  using assms unfolding picture_def covers_def by (auto split: option.splits)

lemma row_cell: "16 * a \<le> y \<and> y < 16 * a + 16 \<longleftrightarrow> y div 16 = a" for y :: int
  by (auto; linarith)

lemma col_cell: "8 * a \<le> x \<and> x < 8 * a + 8 \<longleftrightarrow> x div 8 = a" for x :: int
  by (auto; linarith)

lemma drawChar_displays:
  assumes "displays v s"
  shows "displays (drawChar g (textcolor v) (textbgcolor v) 1 v) (put_cell g s)"
proof -
  have v: "screen_ok v" "f_height (vg_font v) = 16" "cur_x v = 8 * at_col s" "cur_y v = 16 * at_row s" "0 \<le> at_col s" "at_col s < 80"
    "0 \<le> at_row s" "at_row s \<le> 30" "textcolor v = ink s" "textbgcolor v = paper s" "ink s < 16" "paper s < 16" "picture v (cells s)"
    using assms by (simp_all add: displays_def)
  define v' where "v' = drawChar g (ink s) (paper s) 1 v"
  define F where "F = (\<lambda>x' y'. if 16 * at_row s \<le> y' \<and> y' < 16 * at_row s + 16 \<and> 8 * at_col s \<le> x' \<and> x' < 8 * at_col s + 8
      then Some (glyph_pixel (f_data (vg_font v) (unat g * 16 + nat (y' - 16 * at_row s))) (x' - 8 * at_col s) (ink s) (paper s)) else None)"
  have c: "covers v v' F"
    using drawChar2_covers [OF v(1) v(11,12), of "8 * at_col s" "16 * at_row s" g] v(2-8) by (simp add: v'_def F_def drawChar_def)
  note p = covers_paints [OF c]
  have "picture v' (\<lambda>i j. if i = at_col s \<and> j = at_row s then Glyph g (ink s) (paper s) else cells s i j)"
  proof (rule picture_update [OF v(13) c paints_sel(8) [OF p]])
    fix x y :: int
    have "y - 16 * at_row s = y mod 16" if "y div 16 = at_row s" unfolding that [symmetric] by (rule minus_mult_div_eq_mod)
    moreover have "x - 8 * at_col s = x mod 8" if "x div 8 = at_col s" unfolding that [symmetric] by (rule minus_mult_div_eq_mod)
    ultimately show "F x y = (if x div 8 = at_col s \<and> y div 16 = at_row s
        then Some (cell_pixel (vg_font v) (Glyph g (ink s) (paper s)) (x mod 8) (y mod 16)) else None)"
      unfolding F_def conj_assoc [symmetric] by (simp add: row_cell col_cell conj_assoc cell_pixel_def)
  qed
  then show ?thesis using assms paints_sel [OF p] unfolding v(9,10) v'_def [symmetric] by (simp add: displays_def put_cell_def)
qed

lemma put_cursor_displays: "displays v s \<Longrightarrow> displays (put_cursor b v) (show_cursor b s)"
  using drawChar_displays [of v s] by (auto simp: put_cursor_def show_cursor_def displays_def)

lemma picture_same [simp]:
  "picture (v\<lparr>cur_x := x\<rparr>) k = picture v k" "picture (v\<lparr>cur_y := y\<rparr>) k = picture v k" "picture (v\<lparr>cur_visible := b\<rparr>) k = picture v k"
  "picture (v\<lparr>cur_blink := b\<rparr>) k = picture v k" "picture (v\<lparr>textcolor := c\<rparr>) k = picture v k" "picture (v\<lparr>textbgcolor := c\<rparr>) k = picture v k"
  by (simp_all add: picture_def pixel_def)

lemma displays_moved:
  "displays v s \<Longrightarrow> 0 \<le> i \<Longrightarrow> i < 80 \<Longrightarrow> 0 \<le> j \<Longrightarrow> j \<le> 30 \<Longrightarrow> displays (v\<lparr>cur_x := 8 * i, cur_y := 16 * j\<rparr>) (s\<lparr>at_col := i, at_row := j\<rparr>)"
  by (simp add: displays_def screen_ok_def)

lemma displays_col: "displays v s \<Longrightarrow> 0 \<le> i \<Longrightarrow> i < 80 \<Longrightarrow> displays (v\<lparr>cur_x := 8 * i\<rparr>) (s\<lparr>at_col := i\<rparr>)"
  by (simp add: displays_def screen_ok_def)

lemma displays_at:
  "displays v s \<Longrightarrow> cur_x v = 8 * at_col s \<and> cur_y v = 16 * at_row s \<and> 0 \<le> at_col s \<and> at_col s < 80 \<and> 0 \<le> at_row s \<and>
     vg_width v = 640 \<and> vg_height v = 480 \<and> f_width (vg_font v) = 8 \<and> f_height (vg_font v) = 16 \<and> f_size (vg_font v) = 1"
  by (simp add: displays_def screen_ok_def)

lemma displays_style:
  "displays v s \<Longrightarrow> displays (v\<lparr>cur_visible := b\<rparr>) (s\<lparr>shown := b\<rparr>)" "displays v s \<Longrightarrow> displays (v\<lparr>cur_blink := b\<rparr>) (s\<lparr>blinking := b\<rparr>)"
  "displays v s \<Longrightarrow> c < 16 \<Longrightarrow> d < 16 \<Longrightarrow> displays (v\<lparr>textcolor := c, textbgcolor := d\<rparr>) (s\<lparr>ink := c, paper := d\<rparr>)"
  by (simp_all add: displays_def screen_ok_def)

lemma roll_displays:
  assumes "displays v s"
  shows "displays (if cur_y v \<ge> vg_height v then (scroll_up_graphics v)\<lparr>cur_x := 0, cur_y := short (cur_y v - f_height (vg_font v))\<rparr> else v) (roll s)"
    and "at_row (roll s) < 30"
proof -
  have v: "screen_ok v" "vg_height v = 480" "cur_y v = 16 * at_row s" "f_height (vg_font v) = 16" "0 \<le> at_row s" "at_row s \<le> 30" "picture v (cells s)"
    using assms by (simp_all add: displays_def screen_ok_def)
  then show "at_row (roll s) < 30" by (simp add: roll_def)
  define v' where "v' = scroll_up_graphics v"
  have p: "paints v v'" by (simp add: v'_def scroll_paints)
  have "picture v' (\<lambda>i j. if j = 29 then Cleared else cells s i (j + 1))"
    unfolding picture_def
  proof (intro allI impI)
    fix x y :: int
    assume on: "on_screen x y"
    have y: "y div 16 = 29 \<longleftrightarrow> \<not> y < 464" "(y + 16) div 16 = y div 16 + 1" "(y + 16) mod 16 = y mod 16"
      using on by (auto simp: on_screen_def)
    have "pixel v x (y + 16) = cell_pixel (vg_font v) (cells s (x div 8) (y div 16 + 1)) (x mod 8) (y mod 16)" if "y < 464"
      using v(7) on that unfolding picture_def y(2,3) [symmetric] by (simp add: on_screen_def)
    then show "pixel v' x y = cell_pixel (vg_font v') (if y div 16 = 29 then Cleared else cells s (x div 8) (y div 16 + 1)) (x mod 8) (y mod 16)"
      unfolding y(1) v'_def scroll_pixel [OF v(1) on] paints_sel(8) [OF scroll_paints] by (simp add: cell_pixel_def)
  qed
  then show "displays (if cur_y v \<ge> vg_height v then (scroll_up_graphics v)\<lparr>cur_x := 0, cur_y := short (cur_y v - f_height (vg_font v))\<rparr> else v) (roll s)"
    using assms v paints_sel [OF p] unfolding v'_def [symmetric]
    by (auto simp: displays_def roll_def screen_ok_def short_same)
qed

lemma newline_displays:
  assumes "displays v s" "at_row s < 30"
  shows "displays (v\<lparr>cur_x := 0, cur_y := short (cur_y v + 16)\<rparr>) (s\<lparr>at_col := 0, at_row := at_row s + 1\<rparr>)"
  using displays_moved [OF assms(1), of 0 "at_row s + 1"] displays_at [OF assms(1)] assms(2) by (simp add: short_same)

lemma put_cell_at [simp]: "at_row (put_cell g s) = at_row s" "at_col (put_cell g s) = at_col s"
  by (simp_all add: put_cell_def)

lemma show_cursor_at [simp]: "at_row (show_cursor b s) = at_row s" "at_col (show_cursor b s) = at_col s"
  by (simp_all add: show_cursor_def)

lemma write_char_displays:
  assumes "displays v s" "at_row s < 30"
  shows "displays (write_char c v)
    (let s = put_cell c s in if at_col s = 79 then s\<lparr>at_col := 0, at_row := at_row s + 1\<rparr> else s\<lparr>at_col := at_col s + 1\<rparr>)"
proof -
  define v1 where "v1 = drawChar c (textcolor v) (textbgcolor v) 1 v"
  define s1 where "s1 = put_cell c s"
  have d: "displays v1 s1" unfolding v1_def s1_def by (rule drawChar_displays [OF assms(1)])
  note at = displays_at [OF d]
  have f: "f_width (vg_font v) = 8" "f_height (vg_font v) = 16" "f_size (vg_font v) = 1" using displays_at [OF assms(1)] by simp_all
  have x: "short (cur_x v1 + 8) = 8 * (at_col s1 + 1)" using at by (simp add: short_same)
  have run: "write_char c v =
      (if at_col s1 = 79 then v1\<lparr>cur_x := 0, cur_y := short (cur_y v1 + 16)\<rparr> else v1\<lparr>cur_x := 8 * (at_col s1 + 1)\<rparr>)"
    unfolding write_char_def Let_def f v1_def [symmetric] x using at by auto
  have "at_row s1 < 30" using assms(2) by (simp add: s1_def)
  then show ?thesis unfolding run s1_def [symmetric] Let_def
    using newline_displays [OF d] displays_col [OF d, of "at_col s1 + 1"] at by auto
qed

lemma tft_switch_displays:
  assumes "displays v s" "at_row s < 30" "c \<noteq> 9"
  shows "displays (tft_switch c v) (type_step c s)"
proof -
  note cur = put_cursor_displays [OF assms(1), of False]
  have f: "f_width (vg_font v) = 8" "f_height (vg_font v) = 16" using displays_at [OF assms(1)] by simp_all
  have r: "at_row (show_cursor False s) < 30" using assms(2) by simp
  have "displays ((put_cursor False v)\<lparr>cur_x := (if short (cur_x (put_cursor False v) - 8) < 0 then 0 else short (cur_x (put_cursor False v) - 8))\<rparr>)
      ((show_cursor False s)\<lparr>at_col := max 0 (at_col (show_cursor False s) - 1)\<rparr>)"
    using displays_col [OF cur, of "max 0 (at_col (show_cursor False s) - 1)"] displays_at [OF cur]
    by (cases "at_col s = 0") (simp_all add: short_same)
  then show ?thesis using assms(3) put_cursor_displays newline_displays [OF cur r] displays_col [OF assms(1), of 0]
      write_char_displays [OF assms(1,2), of c]
    unfolding tft_switch_def type_step_def Let_def f by auto
qed

lemma tft_write_displays:
  assumes "displays v s" "at_row s < 30" "c \<noteq> 9"
  shows "displays (tft_write c v) (type_char c s)" "at_row (type_char c s) < 30"
  using roll_displays [OF tft_switch_displays [OF assms]] by (simp_all add: tft_write_def type_char_def Let_def)

lemma write_string_displays:
  "displays v s \<Longrightarrow> at_row s < 30 \<Longrightarrow> 9 \<notin> set cs \<Longrightarrow> displays (write_string cs v) (type_string cs s) \<and> at_row (type_string cs s) < 30"
proof (induction cs arbitrary: v s)
  case (Cons c cs)
  then have "c \<noteq> 9" "9 \<notin> set cs" by auto
  then show ?case using Cons.IH [OF tft_write_displays [OF Cons.prems(1,2)]] by simp
qed simp

lemma clrscr_displays:
  assumes "displays v s"
  shows "displays (clrscr v) (s\<lparr>cells := (\<lambda>_ _. Cleared), at_col := 0, at_row := 0\<rparr>)"
proof -
  have w: "vg_width v = 640" using displays_at [OF assms] by simp
  have "picture (v\<lparr>vg_data := fset (vg_data v) 0 153600 0\<rparr>) (\<lambda>_ _. Cleared)"
    unfolding picture_def
  proof (intro allI impI)
    fix x y :: int
    assume "on_screen x y"
    then have "0 \<le> 320 * y + x div 2" "320 * y + x div 2 < 0 + 153600" by (auto simp: on_screen_def)
    then have "fset (vg_data v) 0 153600 0 (320 * y + x div 2) = 0" unfolding fset_def by (simp only: simp_thms if_True)
    then show "pixel (v\<lparr>vg_data := fset (vg_data v) 0 153600 0\<rparr>) x y =
        cell_pixel (vg_font (v\<lparr>vg_data := fset (vg_data v) 0 153600 0\<rparr>)) Cleared (x mod 8) (y mod 16)"
      by (simp add: pixel_def cell_pixel_def w Let_def byte_index)
  qed
  then show ?thesis using assms by (simp add: displays_def clrscr_def screen_ok_def)
qed

lemma setTextCursor_displays:
  assumes "displays v s" "at_row s < 30"
  shows "displays (setTextCursor x y v) (go_to x y s)" "at_row (go_to x y s) < 30"
proof -
  note at = displays_at [OF assms(1)]
  have w: "x \<ge> 640 \<longleftrightarrow> uint x \<ge> 640" "y \<ge> 480 \<longleftrightarrow> uint y \<ge> 480" "x < 80 \<longleftrightarrow> uint x < 80" "y < 30 \<longleftrightarrow> uint y < 30"
    by (simp_all add: word_le_def word_less_def)
  have p: "0 \<le> uint x" "0 \<le> uint y" by simp_all
  show "at_row (go_to x y s) < 30" using assms(2) by (auto simp: go_to_def w)
  show "displays (setTextCursor x y v) (go_to x y s)"
  proof (cases "uint x \<ge> 640 \<or> uint y \<ge> 480")
    case True
    then show ?thesis using at assms(1) by (auto simp: setTextCursor_def go_to_def w)
  next
    case False
    define i where "i = (if uint x < 80 then uint x else 0)"
    define j where "j = (if uint y < 30 then uint y else 0)"
    have sh: "uint x < 80 \<Longrightarrow> short (uint x * 8) = 8 * uint x" "uint y < 30 \<Longrightarrow> short (uint y * 16) = 16 * uint y" "short 0 = 0"
      using p by (subst short_same; linarith)+
    have "ushort (uint x * 8) = uint x * 8" "ushort (uint y * 16) = uint y * 16"
      using False p by (auto simp: ushort_def take_bit_int_eq_self_iff)
    then have "setTextCursor x y v = v\<lparr>cur_x := 8 * i, cur_y := 16 * j\<rparr>"
      using False p at sh by (auto simp: setTextCursor_def i_def j_def)
    moreover have "go_to x y s = s\<lparr>at_col := i, at_row := j\<rparr>" using False by (simp add: go_to_def w i_def j_def)
    moreover have "0 \<le> i" "i < 80" "0 \<le> j" "j \<le> 30" using p by (simp_all add: i_def j_def)
    ultimately show ?thesis using displays_moved [OF assms(1)] by simp
  qed
qed

lemma term_run_displays:
  assumes "displays v s" "at_row s < 30" "term_plain p"
  shows "displays (term_run p v) (term_spec p s) \<and> at_row (term_spec p s) < 30"
proof (cases p)
  case (Print cs)
  have "displays (v\<lparr>cur_visible := False\<rparr>) (s\<lparr>shown := False\<rparr>)" "at_row (s\<lparr>shown := False\<rparr>) < 30" "9 \<notin> set cs"
    using displays_style(1) [OF assms(1)] assms(2,3) Print by simp_all
  from write_string_displays [OF this] show ?thesis
    by (simp add: Print printString_def setTextCursorVisible_def displays_style)
next
  case Home
  have "displays (setTextCursor 0 0 (v\<lparr>cur_visible := False\<rparr>)) (go_to 0 0 (s\<lparr>shown := False\<rparr>))"
    using setTextCursor_displays(1) [OF displays_style(1) [OF assms(1)]] assms(2) by simp
  moreover have "(go_to 0 0 (s\<lparr>shown := False\<rparr>))\<lparr>shown := True\<rparr> = s\<lparr>at_col := 0, at_row := 0, shown := True\<rparr>" by (cases s) (simp add: go_to_def)
  ultimately show ?thesis using displays_style(1) [of _ "go_to 0 0 (s\<lparr>shown := False\<rparr>)" True]
    by (simp add: Home set_vga_home_def setTextCursorVisible_def)
next
  case (Write c)
  then show ?thesis using assms by (simp add: tft_write_displays)
next
  case Clear
  then show ?thesis using assms by (simp add: clrscr_displays)
next
  case (Move x y)
  then show ?thesis using assms by (simp add: setTextCursor_displays)
next
  case (Tick b)
  then show ?thesis using assms by (simp add: put_cursor_displays)
qed (use assms displays_style [OF assms(1)] in \<open>simp_all add: setTextColor_def setTextCursorVisible_def setTextCursorBlink_def\<close>)

end
