(* ===== verification/Vga_Wf.thy ===== *)
theory Vga_Wf
  imports Vga_Text
begin

text \<open>
  What every call of the terminal keeps, with any font, any colour and tabs: the cursor on the screen and the bytes outside the frame
  buffer.
\<close>

definition terminal_ok :: "vga \<Rightarrow> bool" where
  "terminal_ok v \<longleftrightarrow> screen_ok v \<and> txcount v = 153600 \<and> 0 \<le> cur_x v \<and> cur_x v < 640 \<and> 0 \<le> cur_y v \<and> cur_y v < 480 \<and>
     0 \<le> tabspace v \<and> tabspace v < 256 \<and> 0 \<le> f_width (vg_font v) \<and> f_width (vg_font v) < 256 \<and> 0 \<le> f_height (vg_font v) \<and> f_height (vg_font v) < 256"

definition keeps :: "vga \<Rightarrow> vga \<Rightarrow> bool" where
  "keeps v v' \<longleftrightarrow> terminal_ok v' \<and> (\<forall>j. j < 0 \<or> 153600 \<le> j \<longrightarrow> vg_data v' j = vg_data v j)"

lemma keeps_trans: "keeps u v \<Longrightarrow> keeps v w \<Longrightarrow> keeps u w"
  by (simp add: keeps_def)

lemma paints_then: "screen_ok u \<Longrightarrow> paints u v \<Longrightarrow> (screen_ok v \<Longrightarrow> paints v w) \<Longrightarrow> paints u w"
  using paints_sel(5) paints_trans by blast

lemma glyph_bits_paints: "screen_ok v \<Longrightarrow> paints v (glyph_bits n x y b c bg v)"
proof (induction n arbitrary: v)
  case (Suc n)
  show ?case unfolding glyph_bits.simps by (rule paints_then [OF Suc.prems drawPixel_paints [OF Suc.prems] Suc.IH])
qed simp

lemma glyph_rows_paints: "screen_ok v \<Longrightarrow> paints v (glyph_rows n row x y start c bg v)"
proof (induction n arbitrary: row v)
  case (Suc n)
  show ?case unfolding glyph_rows.simps by (rule paints_then [OF Suc.prems glyph_bits_paints [OF Suc.prems] Suc.IH])
qed simp

lemma drawChar2_paints: "screen_ok v \<Longrightarrow> 0 \<le> short x \<Longrightarrow> 0 \<le> short y \<Longrightarrow> paints v (drawChar2 x y c color bg v)"
  unfolding drawChar2_def Let_def by (rule paints_then, assumption, rule fillRect_paints, assumption+, rule glyph_rows_paints)

lemma small_dot_paints: "screen_ok v \<Longrightarrow> 0 \<le> x \<Longrightarrow> x < 32000 \<Longrightarrow> 0 \<le> y \<Longrightarrow> y < 32000 \<Longrightarrow> paints v (small_dot x y dot c v)"
  using drawPixel_paints fillRect_paints by (simp add: small_dot_def short_same)

lemma small_column_paints:
  "screen_ok v \<Longrightarrow> 0 \<le> x \<Longrightarrow> x < 32000 \<Longrightarrow> 0 \<le> y \<Longrightarrow> y + 2 * int n < 32000 \<Longrightarrow> paints v (small_column n x y line c bg 2 v)"
proof (induction n arbitrary: y line v)
  case (Suc n)
  define v1 where "v1 = (if line AND 1 \<noteq> 0 then small_dot x y 2 c v else if bg \<noteq> c then small_dot x y 2 bg v else v)"
  have y: "y < 32000" "0 \<le> y + 2" "y + 2 + 2 * int n < 32000" using Suc.prems by simp_all
  have "paints v v1" using small_dot_paints [OF Suc.prems(1-4) y(1)] by (simp add: v1_def)
  from paints_then [OF Suc.prems(1) this Suc.IH [OF _ Suc.prems(2,3) y(2,3)]] show ?case by (simp add: Let_def flip: v1_def)
qed simp

lemma small_columns_paints:
  "screen_ok v \<Longrightarrow> 0 \<le> x \<Longrightarrow> x + 2 * int n < 32000 \<Longrightarrow> 0 \<le> y \<Longrightarrow> y < 30000 \<Longrightarrow> paints v (small_columns n i x y g c bg 2 v)"
proof (induction n arbitrary: i x v)
  case (Suc n)
  have x: "x < 32000" "0 \<le> x + 2" "x + 2 + 2 * int n < 32000" "y + 2 * int 8 < 32000" using Suc.prems by simp_all
  show ?case unfolding small_columns.simps Let_def
    by (rule paints_then [OF Suc.prems(1) small_column_paints [OF Suc.prems(1,2) x(1) Suc.prems(4) x(4)] Suc.IH [OF _ x(2,3) Suc.prems(4,5)]])
qed simp

lemma drawChar_paints:
  assumes "screen_ok v" "0 \<le> cur_x v" "cur_x v < 1000" "0 \<le> cur_y v" "cur_y v < 1000"
  shows "paints v (drawChar g c bg dot v)"
proof -
  have sh: "short (cur_x v) = cur_x v" "short (cur_y v) = cur_y v" using assms by (auto intro!: short_same)
  have "paints v (drawChar_interna (cur_x v) (cur_y v) g c bg 2 v)"
    unfolding drawChar_interna_def using assms sh
    by (auto intro!: paints_then [OF assms(1) fillRect_paints small_columns_paints])
  then show ?thesis using drawChar2_paints [of v "cur_x v" "cur_y v"] assms sh by (simp add: drawChar_def)
qed

lemma put_cursor_paints:
  "screen_ok v \<Longrightarrow> 0 \<le> cur_x v \<Longrightarrow> cur_x v < 1000 \<Longrightarrow> 0 \<le> cur_y v \<Longrightarrow> cur_y v < 1000 \<Longrightarrow> paints v (put_cursor b v)"
  using drawChar_paints by (simp add: put_cursor_def)

text \<open>In the switch the cursor may leave the screen below, by less than a row.\<close>

definition switch_ok :: "vga \<Rightarrow> vga \<Rightarrow> bool" where
  "switch_ok v v' \<longleftrightarrow> screen_ok v' \<and> txcount v' = 153600 \<and> 0 \<le> cur_x v' \<and> cur_x v' < 640 \<and> 0 \<le> cur_y v' \<and>
     cur_y v' < 480 + f_height (vg_font v) \<and> tabspace v' = tabspace v \<and> vg_font v' = vg_font v \<and>
     (\<forall>j. j < 0 \<or> 153600 \<le> j \<longrightarrow> vg_data v' j = vg_data v j)"

lemma switch_ok_paints: "switch_ok v u \<Longrightarrow> paints u w \<Longrightarrow> switch_ok v w"
  using paints_sel [of u w] by (simp add: switch_ok_def paints_def)

lemma tft_switch_ok:
  assumes "terminal_ok v"
  shows "switch_ok v (tft_switch c v)"
proof -
  have v: "screen_ok v" "txcount v = 153600" "0 \<le> cur_x v" "cur_x v < 640" "0 \<le> cur_y v" "cur_y v < 480" "0 \<le> tabspace v" "tabspace v < 256"
    "0 \<le> f_width (vg_font v)" "f_width (vg_font v) < 256" "0 \<le> f_height (vg_font v)" "f_height (vg_font v) < 256"
    using assms by (simp_all add: terminal_ok_def)
  have w: "vg_width v = 640" using v(1) by (simp add: screen_ok_def)
  have moved: "switch_ok v (u\<lparr>cur_x := x, cur_y := y\<rparr>)" if "paints v u" "0 \<le> x" "x < 640" "0 \<le> y" "y < 480 + f_height (vg_font v)" for u x y
    using that(2-5) v paints_sel [OF that(1)] that(1) by (simp add: switch_ok_def screen_ok_def paints_def)
  have across: "switch_ok v (u\<lparr>cur_x := x\<rparr>)" if "paints v u" "0 \<le> x" "x < 640" for u x
    using that(2,3) v paints_sel [OF that(1)] that(1) by (simp add: switch_ok_def screen_ok_def paints_def)
  have put: "switch_ok v (put_cursor b u)" if "switch_ok v u" for b u
  proof -
    have "paints u (put_cursor b u)" using that v(11,12) by (intro put_cursor_paints) (simp_all add: switch_ok_def)
    with switch_ok_paints [OF that] show ?thesis by blast
  qed
  define u where "u = put_cursor False v"
  have pu: "paints v u" unfolding u_def using v by (intro put_cursor_paints) simp_all
  define d where "d = drawChar c (textcolor v) (textbgcolor v) (f_size (vg_font v)) v"
  have pd: "paints v d" unfolding d_def using v by (intro drawChar_paints) simp_all
  have at: "cur_x u = cur_x v" "cur_y u = cur_y v" "cur_x d = cur_x v" "cur_y d = cur_y v" "vg_width d = 640"
    using paints_sel [OF pu] paints_sel [OF pd] w by simp_all
  have sh: "short (cur_y v + f_height (vg_font v)) = cur_y v + f_height (vg_font v)" "short (cur_x v + f_width (vg_font v)) = cur_x v + f_width (vg_font v)"
    "short (cur_x v - f_width (vg_font v)) = cur_x v - f_width (vg_font v)" "cur_x v + tabspace v < 640 \<Longrightarrow> short (cur_x v + tabspace v) = cur_x v + tabspace v"
    using v by (auto intro!: short_same)
  have char: "switch_ok v (write_char c v)"
    unfolding write_char_def Let_def d_def [symmetric] at sh(1,2) using moved [OF pd] across [OF pd] v(3-12) by auto
  have tab: "switch_ok v v" "cur_x v + tabspace v < 640 \<Longrightarrow> switch_ok v (v\<lparr>cur_x := short (cur_x v + tabspace v)\<rparr>)"
    using across [OF paints_refl, of "cur_x v"] across [OF paints_refl, of "cur_x v + tabspace v"] v sh(4) by simp_all
  have newline: "switch_ok v (u\<lparr>cur_x := 0, cur_y := cur_y v + f_height (vg_font v)\<rparr>)" using moved [OF pu] v(5,6,11) by auto
  have bs: "switch_ok v (u\<lparr>cur_x := (if cur_x v - f_width (vg_font v) < 0 then 0 else cur_x v - f_width (vg_font v))\<rparr>)"
    using across [OF pu] v(3,4,9) by auto
  show ?thesis unfolding tft_switch_def Let_def u_def [symmetric] at sh(1,3) w
    using put [OF newline] put [OF bs] put [OF across [OF paints_refl, of 0]] tab char by simp
qed

lemma tft_write_ok:
  assumes "terminal_ok v"
  shows "keeps v (tft_write c v)" "vg_font (tft_write c v) = vg_font v"
proof -
  define u where "u = tft_switch c v"
  have u: "switch_ok v u" unfolding u_def by (rule tft_switch_ok [OF assms])
  have s: "paints u (scroll_up_graphics u)" by (rule scroll_paints)
  have h: "0 \<le> f_height (vg_font v)" "f_height (vg_font v) < 256" "vg_height u = 480" using assms u by (simp_all add: terminal_ok_def switch_ok_def screen_ok_def)
  have run: "tft_write c v = (if cur_y u \<ge> 480 then (scroll_up_graphics u)\<lparr>cur_x := 0, cur_y := short (cur_y u - f_height (vg_font v))\<rparr> else u)"
    using u h by (simp add: tft_write_def Let_def switch_ok_def flip: u_def)
  have "keeps v (if cur_y u \<ge> 480 then (scroll_up_graphics u)\<lparr>cur_x := 0, cur_y := short (cur_y u - f_height (vg_font v))\<rparr> else u)"
  proof (cases "cur_y u \<ge> 480")
    case True
    then have "short (cur_y u - f_height (vg_font v)) = cur_y u - f_height (vg_font v)" using u h by (intro short_same) (simp_all add: switch_ok_def)
    then show ?thesis using True assms u h paints_sel [OF s] s
      by (simp add: keeps_def terminal_ok_def switch_ok_def screen_ok_def) (simp add: paints_def)
  next
    case False
    then show ?thesis using assms u by (simp add: keeps_def terminal_ok_def switch_ok_def)
  qed
  then show "keeps v (tft_write c v)" by (simp add: run)
  show "vg_font (tft_write c v) = vg_font v" using u paints_sel(8) [OF s] by (simp add: run switch_ok_def)
qed

lemma write_string_ok: "terminal_ok v \<Longrightarrow> keeps v (write_string cs v)"
proof (induction cs arbitrary: v)
  case Nil
  then show ?case by (simp add: keeps_def)
next
  case (Cons c cs)
  note k = tft_write_ok(1) [OF Cons.prems, of c]
  then have "terminal_ok (tft_write c v)" by (simp add: keeps_def)
  from keeps_trans [OF k Cons.IH [OF this]] show ?case by simp
qed

lemma paints_keeps: "terminal_ok v \<Longrightarrow> paints v v' \<Longrightarrow> keeps v v'"
  using paints_sel [of v v'] by (simp add: keeps_def terminal_ok_def paints_def)

lemma setTextCursor_keeps:
  assumes "terminal_ok v"
  shows "keeps v (setTextCursor x y v)"
proof -
  define clip where "clip = (\<lambda>n (m :: int). if ushort n \<ge> m then 0 else ushort n)"
  have c: "0 \<le> short (clip n m)" "short (clip n m) < m" if "0 < m" "m \<le> 640" for n m
  proof -
    have "0 \<le> clip n m" "clip n m < m" using that by (auto simp: clip_def ushort_def)
    then show "0 \<le> short (clip n m)" "short (clip n m) < m" using that by (simp_all add: short_same)
  qed
  have "setTextCursor x y v = v \<or>
      setTextCursor x y v = v\<lparr>cur_x := short (clip (uint x * f_width (vg_font v)) 640), cur_y := short (clip (uint y * f_height (vg_font v)) 480)\<rparr>"
    using assms by (simp add: setTextCursor_def clip_def Let_def terminal_ok_def screen_ok_def)
  then show ?thesis using assms c [of 640] c [of 480] by (auto simp: keeps_def terminal_ok_def screen_ok_def)
qed

lemma style_keeps:
  "terminal_ok v \<Longrightarrow> terminal_ok (v\<lparr>cur_visible := b\<rparr>)" "terminal_ok v \<Longrightarrow> keeps v (v\<lparr>textcolor := c, textbgcolor := d\<rparr>)"
  "terminal_ok v \<Longrightarrow> 0 \<le> f_width f \<Longrightarrow> f_width f < 256 \<Longrightarrow> 0 \<le> f_height f \<Longrightarrow> f_height f < 256 \<Longrightarrow> terminal_ok (v\<lparr>vg_font := f\<rparr>)"
  by (simp_all add: keeps_def terminal_ok_def screen_ok_def)

lemma clrscr_keeps: "terminal_ok v \<Longrightarrow> keeps v (clrscr v)"
  by (auto simp: keeps_def terminal_ok_def screen_ok_def clrscr_def fset_def)

lemma keeps_shown: "keeps (v\<lparr>cur_visible := a\<rparr>) u \<Longrightarrow> keeps v (u\<lparr>cur_visible := b\<rparr>)"
  by (simp add: keeps_def style_keeps)

lemma set_vga_home_keeps: "terminal_ok v \<Longrightarrow> keeps v (set_vga_home v)"
  unfolding set_vga_home_def setTextCursorVisible_def by (rule keeps_shown [OF setTextCursor_keeps [OF style_keeps(1)]])

lemma write_keeps: "terminal_ok v \<Longrightarrow> keeps v (setTextCursorVisible True (tft_write d (setTextCursorVisible False v)))"
  unfolding setTextCursorVisible_def by (rule keeps_shown [OF tft_write_ok(1) [OF style_keeps(1)]])

lemma put_cursor_keeps: "terminal_ok v \<Longrightarrow> keeps v (put_cursor b v)"
  by (rule paints_keeps) (auto simp: terminal_ok_def intro!: put_cursor_paints)

lemma printString_keeps: "terminal_ok v \<Longrightarrow> keeps v (printString cs v)"
  unfolding printString_def setTextCursorVisible_def by (rule keeps_shown [OF write_string_ok [OF style_keeps(1)]])

lemma term_run_keeps: "terminal_ok v \<Longrightarrow> keeps v (term_run p v)"
proof (cases p)
  case (Write c)
  then show "terminal_ok v \<Longrightarrow> ?thesis" by (simp add: tft_write_ok)
next
  case (Blink b)
  then show "terminal_ok v \<Longrightarrow> ?thesis" by (simp add: setTextCursorBlink_def keeps_def terminal_ok_def screen_ok_def)
next
  case (Visible b)
  then show "terminal_ok v \<Longrightarrow> ?thesis" by (simp add: setTextCursorVisible_def keeps_def style_keeps)
next
  case (Colour c b)
  then show "terminal_ok v \<Longrightarrow> ?thesis" by (simp add: setTextColor_def style_keeps)
qed (simp_all add: printString_keeps clrscr_keeps setTextCursor_keeps set_vga_home_keeps put_cursor_keeps)

lemma term_runs_keep: "terminal_ok v \<Longrightarrow> keeps v (fold term_run ps v)"
proof (induction ps arbitrary: v)
  case Nil
  then show ?case by (simp add: keeps_def)
next
  case (Cons p ps)
  note k = term_run_keeps [OF Cons.prems, of p]
  then have "terminal_ok (term_run p v)" by (simp add: keeps_def)
  from keeps_trans [OF k Cons.IH [OF this]] show ?case by simp
qed

text \<open>What \<open>create_screen\<close> sets: the masks, the size, the cursor of \<open>create_default_cursor\<close>, the font \<open>FONTE_8X16_2\<close>.\<close>

definition screen_setup :: "(u8 \<Rightarrow> nat \<Rightarrow> u8) \<Rightarrow> (nat \<Rightarrow> u8) \<Rightarrow> int \<Rightarrow> u8 \<Rightarrow> (int \<Rightarrow> u8) \<Rightarrow> vga" where
  "screen_setup tables small base m ram =
     set_vga_mode m \<lparr>vg_width = 0, vg_height = 0, cur_x = 0, cur_y = 0, cur_visible = True, cur_blink = True, cur_blink_interval = 150,
       cur_shape = 0x80, video_mode = 0, vg_font = the (set_font tables 0x0E), textcolor = 7, textbgcolor = 0, txcount = 153600,
       topmask = 0xF, bottommask = 0xF0, tabspace = 4, vg_data = ram, small_font = small, vg_base = base\<rparr>"

definition initialize_graphos :: "vga \<Rightarrow> vga option" where
  "initialize_graphos v = drawLine 20 10 40 10 5 (printString (map (\<lambda>c. word_of_nat (of_char c)) ''graphos INICIALIZED'' @ [0x0A]) v)"

definition create_screen :: "(u8 \<Rightarrow> nat \<Rightarrow> u8) \<Rightarrow> (nat \<Rightarrow> u8) \<Rightarrow> int \<Rightarrow> u8 \<Rightarrow> (int \<Rightarrow> u8) \<Rightarrow> vga option" where
  "create_screen tables small base m ram = initialize_graphos (screen_setup tables small base m ram)"

lemma screen_setup_ok: "m \<noteq> 0 \<Longrightarrow> m \<noteq> 1 \<Longrightarrow> m \<noteq> 4 \<Longrightarrow> terminal_ok (screen_setup tables small base m ram)"
  by (auto simp: screen_setup_def set_vga_mode_def terminal_ok_def screen_ok_def set_font_def Let_def split: if_splits)

lemma screen_setup_displays:
  "m \<noteq> 0 \<Longrightarrow> m \<noteq> 1 \<Longrightarrow> m \<noteq> 4 \<Longrightarrow> displays (screen_setup tables small base m (\<lambda>_. 0))
     \<lparr>cells = (\<lambda>_ _. Cleared), at_col = 0, at_row = 0, ink = 7, paper = 0, shown = True, blinking = True, cursor_glyph = 0x80\<rparr>"
  by (auto simp: screen_setup_def set_vga_mode_def displays_def screen_ok_def set_font_def picture_def pixel_def cell_pixel_def Let_def)

section \<open>Properties\<close>

text \<open>C38: On a screen of 640 by 480 pixels with the masks of \<open>create_screen\<close>, a cursor on the screen, and tab width and font
  sizes of one byte: after any sequence of terminal calls, with any characters and colours, tabs included, that all holds again, and
  no byte outside the frame buffer has changed.\<close>

theorem terminal_wellformed:
  assumes "terminal_ok v"
  shows "terminal_ok (fold term_run ps v) \<and> (\<forall>j. j < 0 \<or> 153600 \<le> j \<longrightarrow> vg_data (fold term_run ps v) j = vg_data v j)"
  using term_runs_keep [OF assms, of ps] by (simp add: keeps_def)

theorem terminal_wellformed_witness:
  "terminal_ok (fold term_run [Print [0x41, 0x09, 0x0A], Move 79 29, Write 0x42, Tick True] (screen_setup (\<lambda>_ _. 0x18) (\<lambda>_. 0) 0 2 (\<lambda>_. 0x77)))"
  using terminal_wellformed [OF screen_setup_ok [of 2], of "[Print [0x41, 0x09, 0x0A], Move 79 29, Write 0x42, Tick True]"] by simp

end
