(* ===== verification/Vga_Bus.thy ===== *)
theory Vga_Bus
  imports Vga_Round Vga_Wf
begin

text \<open>
  The bus side of the video card (\<open>orion_bus.c\<close>): a write of the processor arrives as a packet of operation, register and byte in the
  FIFO; the second core takes it, sets a register of the card or runs a command, and answers with one byte, which ends the bus cycle.
  \<open>None\<close> is a command that never ends, or the use of a font that does not exist. \<open>fillTri\<close> only sorts its arguments.
\<close>

section \<open>Definitions\<close>

record vga_bus =
  scr :: vga
  fonts :: "u8 \<Rightarrow> nat \<Rightarrow> u8"
  cursor_x :: u16
  cursor_y :: u16
  cursor_x1 :: u16
  cursor_y1 :: u16
  text_color :: u8
  bg_color :: u8
  primitive_width :: u16
  primitive_height :: u16
  primitive_color :: u8
  raio :: u16
  cornername :: u16
  delta :: u16
  rx_fifo :: "u16 list"
  tx_fifo :: "u8 list"

definition with_high :: "u8 \<Rightarrow> u16 \<Rightarrow> u16" where
  "with_high d w = push_bit 8 (ucast d) OR (w AND 0x00FF)"

definition with_low :: "u8 \<Rightarrow> u16 \<Rightarrow> u16" where
  "with_low d w = (w AND 0xFF00) OR ucast d"

text \<open>The commands of register \<open>D_RUN_CMD\<close>.\<close>

definition draw_cmd :: "u8 \<Rightarrow> vga_bus \<Rightarrow> vga option" where
  "draw_cmd cmd b =
     (let x = uint (cursor_x b); y = uint (cursor_y b); w = uint (primitive_width b); h = uint (primitive_height b);
          r = uint (raio b); corner = (ucast (cornername b) :: u8); color = primitive_color b; v = scr b in
      if cmd = 0xBF then drawLine x y (uint (cursor_x1 b)) (uint (cursor_y1 b)) color v
      else if cmd = 0xBE then drawVLine x y h color v
      else if cmd = 0xBD then Some (drawHLine x y w color v)
      else if cmd = 0xBC then drawCircle x y r color v
      else if cmd = 0xBB then drawCircleHelper x y r corner color v
      else if cmd = 0xBA then Some (fillCircle x y r color v)
      else if cmd = 0xB9 then fillCircleHelper x y r corner (uint (delta b)) color v
      else if cmd = 0xB8 then drawRoundRect x y w h r color v
      else if cmd = 0xB7 then Some (fillRoundRect x y w h r color v)
      else if cmd = 0xB6 then Some (fillRect x y w h color v)
      else Some v)"

definition run_cmd :: "u8 \<Rightarrow> vga_bus \<Rightarrow> vga_bus option" where
  "run_cmd cmd b =
     (if cmd = 0xA3 then Some (b\<lparr>scr := setTextCursor (cursor_x b) (cursor_y b) (scr b)\<rparr>)
      else if cmd = 0xA4 then Some (b\<lparr>scr := clrscr (scr b), cursor_x := 0, cursor_y := 0\<rparr>)
      else if cmd = 0xA1 then Some (b\<lparr>cursor_x := 0, cursor_y := 0, scr := set_vga_home (scr b)\<rparr>)
      else do { v \<leftarrow> draw_cmd cmd b; Some (b\<lparr>scr := v\<rparr>) })"

definition bus_register :: "u8 \<Rightarrow> u8 \<Rightarrow> vga_bus \<Rightarrow> vga_bus option" where
  "bus_register reg d b =
     (if reg = 0x00 then Some (b\<lparr>scr := setTextCursorVisible True (tft_write d (setTextCursorVisible False (scr b)))\<rparr>)
      else if reg = 0x14 then
        let bg = d AND 0x0F; fg = drop_bit 4 d AND 0x0F in Some (b\<lparr>bg_color := bg, text_color := fg, scr := setTextColor fg bg (scr b)\<rparr>)
      else if reg = 0x0E then Some (b\<lparr>primitive_color := d\<rparr>)
      else if reg = 0x0F then Some (b\<lparr>primitive_width := with_high d (cursor_x b)\<rparr>)
      else if reg = 0x10 then Some (b\<lparr>primitive_width := with_low d (primitive_width b)\<rparr>)
      else if reg = 0x11 then Some (b\<lparr>primitive_height := with_high d (cursor_x b)\<rparr>)
      else if reg = 0x12 then Some (b\<lparr>primitive_height := with_low d (primitive_height b)\<rparr>)
      else if reg = 0x16 then Some (b\<lparr>cursor_x := with_high d (cursor_x b)\<rparr>)
      else if reg = 0x17 then Some (b\<lparr>cursor_x := with_low d (cursor_x b)\<rparr>)
      else if reg = 0x18 then Some (b\<lparr>cursor_y := with_high d (cursor_y b)\<rparr>)
      else if reg = 0x19 then Some (b\<lparr>cursor_y := with_low d (cursor_y b)\<rparr>)
      else if reg = 0x03 then Some (b\<lparr>cursor_x1 := with_high d (cursor_x b)\<rparr>)
      else if reg = 0x04 then Some (b\<lparr>cursor_x1 := with_low d (cursor_x b)\<rparr>)
      else if reg = 0x05 then Some (b\<lparr>cursor_y1 := with_high d (cursor_y b)\<rparr>)
      else if reg = 0x06 then Some (b\<lparr>cursor_y1 := with_low d (cursor_y b)\<rparr>)
      else if reg = 0x13 then Some (b\<lparr>raio := ucast d\<rparr>)
      else if reg = 0x1A then Some (b\<lparr>cornername := ucast d\<rparr>)
      else if reg = 0x1B then Some (b\<lparr>delta := ucast d\<rparr>)
      else if reg = 0x1F then
        (case set_font (fonts b) d of None \<Rightarrow> None | Some f \<Rightarrow> Some (b\<lparr>scr := clrscr (setTextFont f (scr b))\<rparr>))
      else if reg = 0x1E then run_cmd d b
      else Some b)"

definition known_registers :: "u8 list" where
  "known_registers = [0x00, 0x14, 0x0E, 0x0F, 0x10, 0x11, 0x12, 0x16, 0x17, 0x18, 0x19, 0x03, 0x04, 0x05, 0x06, 0x13, 0x1A, 0x1B, 0x1F, 0x1E]"

definition gerenciar_barramento_m68k :: "vga_bus \<Rightarrow> vga_bus option" where
  "gerenciar_barramento_m68k b =
     (case rx_fifo b of
        [] \<Rightarrow> Some b
      | pacote # _ \<Rightarrow>
          let operacao = drop_bit 14 pacote AND 0x03;
              reg = (ucast (drop_bit 8 pacote AND 0x3F) :: u8);
              dado_m68k = (ucast (pacote AND 0xFF) :: u8);
              byte_resposta = (if List.member known_registers reg then 0x00 else 0xFF)
          in do {
            b \<leftarrow> bus_register reg dado_m68k (b\<lparr>rx_fifo := [], tx_fifo := []\<rparr>);
            Some (b\<lparr>tx_fifo := [if operacao = 1 then byte_resposta else 0xA5]\<rparr>)
          })"

text \<open>A write of the processor: one packet in the FIFO, then the second core.\<close>

definition bus_poke :: "u8 \<Rightarrow> u8 \<Rightarrow> vga_bus \<Rightarrow> vga_bus option" where
  "bus_poke reg d b = gerenciar_barramento_m68k (b\<lparr>rx_fifo := [push_bit 8 (ucast reg) OR ucast d]\<rparr>)"

fun bus_pokes :: "(u8 \<times> u8) list \<Rightarrow> vga_bus \<Rightarrow> vga_bus option" where
  "bus_pokes [] b = Some b"
| "bus_pokes ((r, d) # ps) b = do { b \<leftarrow> bus_poke r d b; bus_pokes ps b }"

section \<open>One packet\<close>

lemma masks16: "(0x03 :: u16) = mask 2" "(0x3F :: u16) = mask 6" "(0xFF :: u16) = mask 8" "(0xFF00 :: u16) = push_bit 8 (mask 8)"
  by (simp_all add: mask_eq_exp_minus_1)

lemma packet_fields:
  fixes reg d :: u8
  assumes "reg < 0x40"
  shows "drop_bit 14 (push_bit 8 (ucast reg) OR ucast d :: u16) AND 0x03 = 0"
    "(ucast (drop_bit 8 (push_bit 8 (ucast reg) OR ucast d :: u16) AND 0x3F) :: u8) = reg"
    "(ucast ((push_bit 8 (ucast reg) OR ucast d :: u16) AND 0xFF) :: u8) = d"
proof -
  have "unat reg < 2 ^ 6" using assms by (simp add: word_less_nat_alt)
  then have "take_bit 6 reg = reg" by (simp add: word_unat_eq_iff unsigned_take_bit_eq take_bit_nat_eq_self)
  then have r: "n < 6" if "bit reg n" for n using that by (metis bit_take_bit_iff)
  show "drop_bit 14 (push_bit 8 (ucast reg) OR ucast d :: u16) AND 0x03 = 0"
    unfolding masks16 by (rule bit_eqI) (auto simp: bit_simps dest: r bit_imp_le_length)
  show "(ucast (drop_bit 8 (push_bit 8 (ucast reg) OR ucast d :: u16) AND 0x3F) :: u8) = reg"
    unfolding masks16 by (rule bit_eqI) (auto simp: bit_simps dest: r bit_imp_le_length)
  show "(ucast ((push_bit 8 (ucast reg) OR ucast d :: u16) AND 0xFF) :: u8) = d"
    unfolding masks16 by (rule bit_eqI) (auto simp: bit_simps dest: bit_imp_le_length)
qed

lemma uint_halves:
  fixes h l :: u8
  shows "uint (push_bit 8 (ucast h) OR ucast l :: u16) = 256 * uint h + uint l"
proof -
  have "push_bit 8 (ucast h) OR ucast l = (push_bit 8 (ucast h) + ucast l :: u16)"
    by (rule disjunctive_add [symmetric]) (auto simp: bit_simps dest: bit_imp_le_length)
  moreover have "uint (push_bit 8 (ucast h) :: u16) = 256 * uint h"
    using uint_bounded [of h] by (simp add: push_bit_eq_mult uint_word_ariths unsigned_ucast_eq take_bit_int_eq_self)
  ultimately show ?thesis using uint_bounded [of h] uint_bounded [of l]
    by (simp add: uint_word_ariths unsigned_ucast_eq take_bit_int_eq_self)
qed

lemma with_high_eq: "with_high h w = push_bit 8 (ucast h) OR ucast (ucast w :: u8)"
  unfolding with_high_def masks16 by (rule bit_eqI) (auto simp: bit_simps)

lemma with_low_eq: "with_low l w = push_bit 8 (ucast (ucast (drop_bit 8 w) :: u8)) OR ucast l"
  unfolding with_low_def masks16 by (rule bit_eqI) (auto simp: bit_simps)

lemma uint_with:
  "uint (with_high h w) = 256 * uint h + uint w mod 256" "uint (with_low l w) = 256 * (uint w div 256) + uint l"
proof -
  have "uint w div 256 < 256" using uint_bounded [of w] by simp
  moreover have "0 \<le> uint w div 256" by (intro pos_imp_zdiv_nonneg_iff [THEN iffD2]) simp_all
  ultimately show "uint (with_high h w) = 256 * uint h + uint w mod 256" "uint (with_low l w) = 256 * (uint w div 256) + uint l"
    unfolding with_high_eq with_low_eq uint_halves by (simp_all add: unsigned_ucast_eq take_bit_eq_mod uint_div unsigned_drop_bit_eq drop_bit_eq_div)
qed
lemma bus_poke_run:
  assumes "reg < 0x40"
  shows "bus_poke reg d b = map_option (\<lambda>b. b\<lparr>tx_fifo := [0xA5]\<rparr>) (bus_register reg d (b\<lparr>rx_fifo := [], tx_fifo := []\<rparr>))"
  using packet_fields [OF assms, of d]
  by (cases "bus_register reg d (b\<lparr>rx_fifo := [], tx_fifo := []\<rparr>)") (simp_all add: bus_poke_def gerenciar_barramento_m68k_def Let_def)

section \<open>Drawing from the host\<close>

text \<open>The host writes the low byte of a coordinate before the high one.\<close>

definition point :: "u8 \<Rightarrow> u8 \<Rightarrow> int" where "point h l = 256 * uint h + uint l"

lemma byte_mod [simp]:
  fixes l :: u8
  shows "uint l mod 256 = uint l" "take_bit 16 (uint l) = uint l"
  using uint_bounded [of l] by (simp_all add: take_bit_eq_mod)

lemma point_with [simp]: "uint (with_high h (with_low l w)) = point h l"
  by (simp add: uint_with point_def) 

lemma with_high_other [simp]: "uint (with_high h (with_high h' (with_low l w))) = point h l"
  by (simp add: uint_with point_def) 


lemma fillCircle_command:
  assumes "screen_ok (scr b)" "c < 16" "1 \<le> r" "uint r \<le> point xh xl" "point xh xl + uint r \<le> 640" "uint r \<le> point yh yl" "point yh yl + uint r \<le> 479"
  shows "\<exists>b'. bus_pokes [(0x0E, c), (0x17, xl), (0x16, xh), (0x19, yl), (0x18, yh), (0x13, r), (0x1E, 0xBA)] b = Some b' \<and>
    draws (scr b) (scr b') (disc (point xh xl) (point yh yl) (uint r)) c \<and> tx_fifo b' = [0xA5]"
proof -
  have "1 \<le> uint r" using assms(3) by (simp add: word_le_def)
  from fillCircle_draws [OF assms(1,2) this assms(4-7)] show ?thesis
    by (simp add: bus_poke_run bus_register_def run_cmd_def draw_cmd_def unsigned_ucast_eq take_bit_int_eq_self)
qed


section \<open>Every command returns and stays in the frame buffer\<close>




definition small_word :: "u16 \<Rightarrow> bool" where "small_word w \<longleftrightarrow> uint w \<le> 8191"

definition bus_ok :: "vga_bus \<Rightarrow> bool" where
  "bus_ok b \<longleftrightarrow> terminal_ok (scr b) \<and> small_word (cursor_x b) \<and> small_word (cursor_y b) \<and> small_word (cursor_x1 b) \<and>
     small_word (cursor_y1 b) \<and> small_word (primitive_width b) \<and> small_word (primitive_height b) \<and> uint (raio b) \<le> 255 \<and>
     uint (delta b) \<le> 255 \<and> primitive_color b < 16"


lemma small_with:
  "d < 0x20 \<Longrightarrow> small_word (with_high d w)" "small_word w \<Longrightarrow> small_word (with_low d w)" "small_word 0"
proof -
  show "small_word (with_high d w)" if "d < 0x20" using that by (simp add: small_word_def uint_with word_less_def)
  show "small_word (with_low d w)" if "small_word w"
  proof -
    have "uint w div 256 \<le> 31" using that by (simp add: small_word_def)
    then show ?thesis using uint_bounded [of d] by (simp add: small_word_def uint_with)
  qed
qed (simp add: small_word_def)












section \<open>The terminal from the host\<close>

text \<open>The packets of the video calls of the BIOS (\<open>trap2_asm.S\<close>).\<close>

fun host_pokes :: "term_op \<Rightarrow> (u8 \<times> u8) list" where
  "host_pokes (Write c) = [(0x00, c)]"
| "host_pokes (Print cs) = map (Pair 0x00) cs"
| "host_pokes Clear = [(0x1E, 0xA4)]"
| "host_pokes (Move x y) = [(0x17, ucast x), (0x16, ucast (drop_bit 8 x)), (0x19, ucast y), (0x18, ucast (drop_bit 8 y)), (0x1E, 0xA3)]"
| "host_pokes Home = [(0x1E, 0xA1)]"
| "host_pokes (Colour c b) = [(0x14, push_bit 4 c OR b)]"
| "host_pokes _ = []"

text \<open>What the host can ask for; a character comes with the cursor hidden, and leaves it shown.\<close>

fun host_op :: "term_op \<Rightarrow> bool" where
  "host_op (Print cs) \<longleftrightarrow> 9 \<notin> set cs"
| "host_op (Colour c b) \<longleftrightarrow> c < 16 \<and> b < 16"
| "host_op Clear \<longleftrightarrow> True"
| "host_op Home \<longleftrightarrow> True"
| "host_op (Move x y) \<longleftrightarrow> True"
| "host_op _ \<longleftrightarrow> False"

definition host_shows :: "vga_bus \<Rightarrow> screen \<Rightarrow> bool" where
  "host_shows b s \<longleftrightarrow> displays (scr b) s \<and> at_row s < 30 \<and> shown s"

lemma put_cell_shown [simp]: "shown (put_cell g s) = shown s"
  by (simp add: put_cell_def)

lemma type_char_shown [simp]: "shown (type_char c s) = shown s"
  by (simp add: type_char_def type_step_def roll_def show_cursor_def Let_def)

lemma write_poke:
  assumes "host_shows b s" "c \<noteq> 9"
  shows "\<exists>b'. bus_poke 0 c b = Some b' \<and> host_shows b' ((type_char c (s\<lparr>shown := False\<rparr>))\<lparr>shown := True\<rparr>)"
proof -
  have d: "displays ((scr b)\<lparr>cur_visible := False\<rparr>) (s\<lparr>shown := False\<rparr>)" "at_row (s\<lparr>shown := False\<rparr>) < 30"
    using assms(1) by (simp_all add: host_shows_def displays_style)
  from tft_write_displays [OF d assms(2)] show ?thesis
    by (simp add: bus_poke_run bus_register_def setTextCursorVisible_def host_shows_def displays_style)
qed

lemma write_pokes:
  "host_shows b s \<Longrightarrow> 9 \<notin> set cs \<Longrightarrow>
   \<exists>b'. bus_pokes (map (Pair 0) cs) b = Some b' \<and> host_shows b' ((type_string cs (s\<lparr>shown := False\<rparr>))\<lparr>shown := True\<rparr>)"
proof (induction cs arbitrary: b s)
  case Nil
  then have "s\<lparr>shown := True\<rparr> = s" by (cases s) (simp add: host_shows_def)
  then show ?case using Nil by simp
next
  case (Cons c cs)
  define u where "u = type_char c (s\<lparr>shown := False\<rparr>)"
  from write_poke [OF Cons.prems(1), of c] Cons.prems(2) obtain b1 where b1: "bus_poke 0 c b = Some b1" "host_shows b1 (u\<lparr>shown := True\<rparr>)"
    by (auto simp: u_def)
  have "u\<lparr>shown := True, shown := False\<rparr> = u" by (simp add: u_def)
  with Cons.IH [OF b1(2)] Cons.prems(2) b1(1) show ?case by (simp flip: u_def)
qed

lemma pack_colours:
  fixes c b :: u8
  assumes "c < 16" "b < 16"
  shows "(push_bit 4 c OR b) AND 0x0F = b" "drop_bit 4 (push_bit 4 c OR b) AND 0x0F = c"
proof -
  have low: "n < 4" if "bit w n" "w < 16" for w :: u8 and n
  proof -
    have "unat w < 2 ^ 4" using that(2) by (simp add: word_less_nat_alt)
    then have "take_bit 4 w = w" by (simp add: word_unat_eq_iff unsigned_take_bit_eq take_bit_nat_eq_self)
    then show ?thesis using that(1) by (metis bit_take_bit_iff)
  qed
  have m: "(0x0F :: u8) = mask 4" by (simp add: mask_eq_exp_minus_1)
  show "(push_bit 4 c OR b) AND 0x0F = b" "drop_bit 4 (push_bit 4 c OR b) AND 0x0F = c"
    unfolding m by (rule bit_eqI; auto simp: bit_simps dest: low [OF _ assms(1)] low [OF _ assms(2)] bit_imp_le_length)+
qed

lemma halves_of: "with_high (ucast (drop_bit 8 (x :: u16))) (with_low (ucast x) w) = x"
  unfolding with_high_def with_low_def masks16 by (rule bit_eqI) (auto simp: bit_simps)

lemma host_run:
  assumes "host_shows b s" "host_op p"
  shows "\<exists>b'. bus_pokes (host_pokes p) b = Some b' \<and> host_shows b' (term_spec p s)"
proof -
  have s: "displays (scr b) s" "at_row s < 30" "shown s" using assms(1) by (simp_all add: host_shows_def)
  show ?thesis
  proof (cases p)
    case (Print cs)
    then show ?thesis using write_pokes [OF assms(1), of cs] assms(2) by simp
  next
    case Clear
    then show ?thesis using clrscr_displays [OF s(1)] s by (simp add: bus_poke_run bus_register_def run_cmd_def host_shows_def)
  next
    case (Move x y)
    have "shown (go_to x y s)" using s(3) by (simp add: go_to_def)
    then show ?thesis using Move setTextCursor_displays [OF s(1,2), of x y]
      by (simp add: bus_poke_run bus_register_def run_cmd_def host_shows_def halves_of)
  next
    case Home
    have "term_plain Home" by simp
    from term_run_displays [OF s(1,2) this] s(3) show ?thesis
      by (simp add: Home bus_poke_run bus_register_def run_cmd_def host_shows_def)
  next
    case (Colour c d)
    then have c: "c < 16" "d < 16" using assms(2) by simp_all
    from displays_style(3) [OF s(1) c] show ?thesis using s
      by (simp add: Colour bus_poke_run bus_register_def host_shows_def pack_colours(1) [OF c] pack_colours(2) [OF c, simplified] setTextColor_def Let_def)
  qed (use assms(2) in simp_all)
qed

lemma bus_pokes_append: "bus_pokes (ps @ qs) b = Option.bind (bus_pokes ps b) (bus_pokes qs)"
  by (induction ps b rule: bus_pokes.induct) (auto split: option.splits bind_splits)

lemma host_runs:
  "host_shows b s \<Longrightarrow> list_all host_op ops \<Longrightarrow>
   \<exists>b'. bus_pokes (concat (map host_pokes ops)) b = Some b' \<and> host_shows b' (fold term_spec ops s)"
proof (induction ops arbitrary: b s)
  case (Cons p ops)
  from host_run [OF Cons.prems(1), of p] Cons.prems(2) obtain b1 where
    b1: "bus_pokes (host_pokes p) b = Some b1" "host_shows b1 (term_spec p s)" by auto
  with Cons.IH [OF b1(2)] Cons.prems(2) show ?case by (simp add: bus_pokes_append)
qed simp

section \<open>Properties\<close>

definition blank_bus :: "(u8 \<Rightarrow> nat \<Rightarrow> u8) \<Rightarrow> vga_bus" where
  "blank_bus tables = \<lparr>scr = screen_setup tables (\<lambda>_. 0) 0 2 (\<lambda>_. 0), fonts = tables, cursor_x = 0, cursor_y = 0, cursor_x1 = 0, cursor_y1 = 0,
     text_color = 0, bg_color = 0, primitive_width = 0, primitive_height = 0, primitive_color = 0, raio = 0, cornername = 0, delta = 0,
     rx_fifo = [], tx_fifo = []\<rparr>"

definition blank_screen :: screen where
  "blank_screen = \<lparr>cells = (\<lambda>_ _. Cleared), at_col = 0, at_row = 0, ink = 7, paper = 0, shown = True, blinking = True, cursor_glyph = 0x80\<rparr>"

lemma blank_bus_ok: "bus_ok (blank_bus t)" "host_shows (blank_bus t) blank_screen" "screen_ok (scr (blank_bus t))"
  using screen_setup_ok [of 2 t "\<lambda>_. 0" 0 "\<lambda>_. 0"] screen_setup_displays [of 2 t "\<lambda>_. 0" 0]
  by (simp_all add: blank_bus_def blank_screen_def bus_ok_def small_with host_shows_def terminal_ok_def)

text \<open>C13: The text that the host sends through the bus, with its colours, cursor movements and clearings, is what an abstract terminal
  of 80 by 30 cells shows: every pixel of the screen is the pixel of the glyph in its cell, cursor and scrolling included. This holds
  with the 8 by 16 font, from a state that shows a terminal whose cursor is shown and on the screen, for every sequence of the video
  calls of the BIOS that prints no tab and sets colours below 16.\<close>

theorem host_terminal_refines:
  assumes "displays (scr b) s" "at_row s < 30" "shown s" "list_all host_op ops"
  shows "\<exists>b'. bus_pokes (concat (map host_pokes ops)) b = Some b' \<and> displays (scr b') (fold term_spec ops s) \<and> at_row (fold term_spec ops s) < 30"
proof -
  have "host_shows b s" using assms(1-3) by (simp add: host_shows_def)
  from host_runs [OF this assms(4)] show ?thesis by (auto simp: host_shows_def)
qed

theorem host_terminal_witness:
  "\<exists>b'. bus_pokes (concat (map host_pokes [Clear, Colour 4 0, Move 79 29, Print [0x41, 0x42, 0x0A]])) (blank_bus (\<lambda>_ n. of_nat n)) = Some b' \<and>
     displays (scr b') (fold term_spec [Clear, Colour 4 0, Move 79 29, Print [0x41, 0x42, 0x0A]] blank_screen)"
  using host_terminal_refines [of "blank_bus (\<lambda>_ n. of_nat n)" blank_screen "[Clear, Colour 4 0, Move 79 29, Print [0x41, 0x42, 0x0A]]"]
    blank_bus_ok(2) [of "\<lambda>_ n. of_nat n"] by (auto simp: host_shows_def)



text \<open>C23: When the host sets a colour below 16, a centre and a radius of at least 1 whose circle lies on the screen, and runs
  FILLCIRCLE, exactly the pixels of the disc get the colour, no other byte of the card changes, and the last write is answered.\<close>

theorem fill_circle_command:
  assumes "screen_ok (scr b)" "c < 16" "1 \<le> r" "uint r \<le> point xh xl" "point xh xl + uint r \<le> 640" "uint r \<le> point yh yl" "point yh yl + uint r \<le> 479"
  shows "\<exists>b'. bus_pokes [(0x0E, c), (0x17, xl), (0x16, xh), (0x19, yl), (0x18, yh), (0x13, r), (0x1E, 0xBA)] b = Some b' \<and> tx_fifo b' = [0xA5] \<and>
    paints (scr b) (scr b') \<and>
    (\<forall>x y. on_screen x y \<longrightarrow> pixel (scr b') x y = (if disc (point xh xl) (point yh yl) (uint r) x y then c else pixel (scr b) x y))"
  using fillCircle_command [OF assms] unfolding draws_def by blast

theorem fill_circle_command_witness:
  "\<exists>b'. bus_pokes [(0x0E, 3), (0x17, 0x2C), (0x16, 1), (0x19, 200), (0x18, 0), (0x13, 100), (0x1E, 0xBA)] (blank_bus (\<lambda>_ _. 0)) = Some b' \<and>
     pixel (scr b') 300 200 = 3"
  using fill_circle_command [OF blank_bus_ok(3), of 3 100 1 "0x2C" 0 200 "\<lambda>_ _. 0"] by (auto simp: point_def disc_def on_screen_def)



end
