(* ===== verification/Spec2Isabelle.thy ===== *)
theory Spec2Isabelle
  imports Libc_Scanf Libc_Qsort Kbd_Ring Rtc_Board Dhcp_Server Bios_Crc32 Bios_Timers Ata_Bus Sd_Card Ide_Cf Shell_History Shell_Command Shell_Receiver Malloc_Heap Vga_Bus
begin

text \<open>
  OrionBios is the firmware of a 68000 computer and of the microcontrollers around it: a C library
  (\<open>src/lib/libc\<close>), a BIOS with a shell that edits command lines, runs built-in commands and loads
  programs from a FAT disk (\<open>src/bios\<close>), drivers (\<open>src/drivers\<close>), the firmware of an RP2350B that
  emulates an IDE disk on an SD card (\<open>src/peripheral/RP2350B\<close>), and that of the video card (\<open>src/peripheral/pico2VGA\<close>). This development models the parts with
  logic of their own and proves what makes each correct.

  The machine. \<open>char\<close>, \<open>short\<close>, \<open>int\<close>/\<open>long\<close> and \<open>long long\<close> are words of 8, 16, 32 and 64 bits
  (\<open>Orion_Prelude\<close>: \<open>u8\<close> to \<open>u64\<close>), plain \<open>char\<close> is signed, memory is a function from addresses to bytes
  (\<open>mem\<close>), and addresses are natural numbers except where their wrap-around matters. A loop that
  something outside the function stops (a NUL, a status bit, a broken list) is a
  \<^theory_text>\<open>partial_function (option)\<close> whose value \<open>None\<close> means that it does not return; that it does return is
  proved each time. Counted loops are structural, so no fuel is chosen anywhere.

  The theories, in the order of their imports:
  \<^item> \<open>Orion_Prelude\<close>: the types, reading and writing blocks of memory, C strings, generic word lemmas, and
    the collections \<open>mem_simps\<close> and \<open>word_conv\<close> that the component proofs use.
  \<^item> \<open>Libc_String\<close> (\<open>libc/src/string\<close> but the heap): every routine; \<open>memmove\<close>, \<open>strcat\<close>, \<open>strcmp\<close>, \<open>strstr\<close> and
    \<open>strtok\<close> are proved against their C specification, or against what they do instead.
  \<^item> \<open>Libc_Conv\<close> (\<open>libc/src/stdlib\<close>): number conversion. \<open>Libc_Printf\<close>, \<open>Libc_Scanf\<close> (\<open>libc/src/stdio\<close>): the format
    interpreters. Every converter is inverse to the parser of its base, \<open>sprintf\<close> agrees with
    \<open>printf\<close> and is inverse to \<open>sscanf\<close>, the buffers overflow exactly for wide zero padding.
  \<^item> \<open>Libc_Qsort\<close> (\<open>stdlib/qsort.c\<close>): the quicksort with its parameter stack, on bytes in memory. The locale
    \<open>comparison\<close> holds the laws of the comparison, \<open>memcmp\<close> is its instance; \<open>qsort\<close> returns for every array and sorts it.
  \<^item> \<open>Libc_Malloc\<close>, \<open>Malloc_Heap\<close> (\<open>malloc.c\<close>): the three lists of descriptors and the heap invariant; \<open>malloc\<close>,
    \<open>free\<close> and \<open>calloc\<close> meet the C specification and keep the invariant in every sequence of calls.
  \<^item> \<open>Kbd_Ring\<close> (\<open>drivers/kbd/ringbuffer.c\<close> and its twin in \<open>pico2W\<close>): the ring refines a bounded queue, also
    when the keyboard interrupt comes between any two steps of the reader.
  \<^item> \<open>Rtc_I2c\<close>, \<open>Rtc_Board\<close> (\<open>drivers/rtc\<close>): the I2C bus on three pins of the DUART, and the clock and EEPROM behind it.
    The locale \<open>i2c_bus\<close> connects the pins to a bus as the I2C specification describes it, \<open>rtc_board\<close> puts the
    two devices of the data sheets on it; what is set or written is read back. A simulated board is the instance.
  \<^item> \<open>Dhcp_Packet\<close> (\<open>dhcp_client.c\<close>): the messages of the DHCP client, built and parsed in memory, against RFC 2131.
    \<open>Dhcp_Client\<close>: the exchange with the server. The locale \<open>udp_chip\<close> is the W5100 in UDP mode, to which datagrams
    may come at any access; \<open>udp_timed\<close> (\<open>Dhcp_Time\<close>) adds the clock that bounds every wait, so the client returns.
    \<open>Dhcp_Server\<close> holds their instance, a simulated chip with a server, and the property of the client.
  \<^item> \<open>Bios_Crc32\<close>, \<open>Bios_Timers\<close>: the unrolled CRC equals the bit-serial one; a running timer counts down and reloads whatever the others do.
  \<^item> \<open>Ide_Device\<close>, \<open>Ide_Transfer\<close> (\<open>RP2350B/ide_interface.c\<close>): the emulated disk as a step relation whose steps
    are the host's bus accesses, the words the DMA channels move, the interrupt handlers and the SD
    task of the second core. Invariants over the phases of a command give what a read delivers and
    what a write leaves on the card under every interleaving, and that a read cannot get stuck.
  \<^item> \<open>Sd_Driver\<close>, \<open>Sd_Card\<close> (\<open>RP2350B/sd_driver.c\<close>, the hooks and the start in \<open>main.c\<close>): the SD card driver on the
    SPI bus. The locale \<open>sd_card\<close> holds what the SD specification says of any card, \<open>sd_good\<close> and \<open>sd_prompt\<close>
    what it says of one that serves its blocks and comes up; a simulated card is the instance. Every run
    of the disk with this driver is a run of \<open>Ide_Device\<close>, so a host reads the blocks of the card.
  \<^item> \<open>Ata_Driver\<close>, \<open>Ata_Bus\<close> (\<open>drivers/picoIDE/ata.c\<close>): the driver of that disk, over a record of bus accesses. The
    locale \<open>ide_bus\<close> says that every access is a run of the disk; in it the driver is proved correct
    for all schedules. \<open>eager_bus\<close> is its instance: between two accesses the disk works until it has
    nothing to do (\<open>settle\<close>, total by \<open>device_work\<close>), and there every transfer completes. Together they
    give the round trip from a buffer through the driver, the disk and the card and back.
  \<^item> \<open>Ide_Cf\<close> (\<open>drivers/ide/ata.c\<close>, \<open>diskio.c\<close>): the CompactFlash driver and the functions that FatFs calls. The card
    is an arbitrary function of the bus history; the theorems say which accesses the driver makes, against the ATA
    commands written out with their register numbers, which status lets a transfer go on, and which bytes end up in memory.
  \<^item> \<open>Elf_Loader\<close> (\<open>bios/shell/elf_loader.c\<close>): the three loaders; on a well-formed executable they build its image
    and agree, and every check that fails stops them. The open file is a parameter.
  \<^item> \<open>Shell_History\<close> (\<open>shell_history.c\<close>): the line editor refines an abstract editor over lists.
    \<open>Shell_Command\<close> (\<open>shell.c\<close>): splitting a line in place, the built-in table, the search for programs.
  \<^item> \<open>Shell_Receiver\<close> (\<open>receiver.c\<close>): a file received through the W5100. The chip is the locale \<open>w5100_socket\<close>, with
    \<open>w5100_live\<close> for one that makes progress; the message is stored as it was sent however the arrival of
    bytes falls between the accesses of the driver. A simulated chip is the instance.
  \<^item> \<open>Vga_Frame\<close> (\<open>pico2VGA/vga_graphos.c\<close>): the drawing routines on the frame buffer of two pixels to a byte, with
    what a routine paints on the screen (\<open>draws\<close>) as its specification. \<open>Vga_Shapes\<close>: lines and circles are the digital
    curves; \<open>Vga_Fill\<close>: the integer root and the disc; \<open>Vga_Round\<close>: rounded rectangles stay in the buffer and end.
    \<open>Vga_Text\<close>, \<open>Vga_Wf\<close> (\<open>vga_primitives.c\<close>, \<open>font.c\<close>, the scrolling of \<open>vga.c\<close>): the terminal refines an abstract one of
    80 by 30 cells, and its cursor and settings stay in range. \<open>Vga_Bus\<close> (\<open>orion_bus.c\<close>): the registers and commands
    of the processor; what it prints and draws through them appears on the screen.

  How the parts meet in the code: the keyboard interrupt fills the ring that the line editor reads;
  the editor's line goes to \<open>execute_cmd\<close>; programs come through FatFs from \<open>disk_read\<close>; the loaders use
  \<open>memcpy\<close>, \<open>memset\<close> and \<open>memcmp\<close>; the interpreter uses \<open>strcasecmp\<close>. The models share \<open>mem\<close> and call each other's
  definitions where the code does.

  Hypotheses. FatFs (\<open>f_open\<close>, \<open>f_read\<close>), the handlers of the built-in commands, the card of \<open>Ide_Cf\<close>, the SD
  card, the W5100, the system clock and the I2C devices are parameters; the last four obey their locales. \<open>cf_responds\<close> states what the ATA standard promises of a working
  card: it is not busy for ever and asks for the data of a transfer command. Every property with a
  hypothesis has a witness on concrete values.

  Bounds of the model. The count of remembered commands (\<open>hist_count\<close>) and the width of a \<open>scanf\<close> conversion are
  unbounded, so the model is the code up to 2^31 commands and widths below 2^31. The address of a sector in the
  buffer of \<open>disk_read\<close> is a natural number. A callback of a timer is recorded but does not act on the timer table, and
  the DS3231 stands still between two accesses. \<open>ESTABLISHED\<close> is the only state of the socket of \<open>Shell_Receiver\<close>. The
  SD card of \<open>disk_refines_ide\<close> is addressed by blocks. Coordinates of the video card are \<open>int\<close> cut to 16 bits where the code has
  \<open>short\<close>.

  Not modelled: FatFs, newlib, the compilers and assemblers under \<open>Applications\<close>, test programs and ported
  programs (third party); the serial and video drivers and earlier network drivers, set-up and
  restart of the video card, start-up code and traps
  (device registers and assembly); the built-in commands (text around FatFs calls).
\<close>

end
